(* ===== verification/Prelude.thy ===== *)
theory Prelude
  imports Main "HOL-Library.Word" "HOL-Library.List_Lexorder"
    "HOL-Library.Product_Lexorder" "HOL-Library.Multiset" "HOL-Library.AList"
begin

text \<open>
  Shared vocabulary of the development: the errors the program raises, the two effect types
  (results that may be errors, and state passing with errors), Python's byte strings with the
  fixed-width big-endian fields of the \<open>struct\<close> module, slices and slice assignment, the
  CRC-32 checksum of \<open>zlib\<close>, and the generic lemmas about them that the component
  theories rely on.
\<close>

section \<open>Automation shared by the components\<close>

named_theorems layout_simps \<open>sizes of encoded fields and records\<close>
named_theorems effect_simps \<open>unfolding of the error and state combinators\<close>

section \<open>Errors\<close>

text \<open>
  The exception classes of \<open>errors.py\<close> and the built-in exceptions the sources raise
  or let escape. Messages are not modelled: the class of an exception is what the callers
  dispatch on.
\<close>

datatype pg_error =
    SqlSyntaxError | BindError | TypeMismatch | NumericOverflow | ConstraintViolation
  | SerializationConflict | DeadlockDetected | TransactionAborted | RowTooLarge | PageFull
  | BufferPoolFull | CorruptPage | CorruptWal | CatalogError | DatabaseClosed
  | PyValueError | PyKeyError | PyIndexError | PyTypeError | PyRuntimeError | PyAssertionError
  | PyOverflowError | PyStructError | PyUnicodeError | PyOSError | PyRecursionError
  | PyZeroDivisionError

text \<open>Whether an exception belongs to the public hierarchy rooted at \<open>MiniPostgresError\<close>.\<close>

definition is_minipostgres_error :: "pg_error \<Rightarrow> bool" where
  "is_minipostgres_error e \<longleftrightarrow> e \<in>
     {SqlSyntaxError, BindError, TypeMismatch, NumericOverflow, ConstraintViolation,
      SerializationConflict, DeadlockDetected, TransactionAborted, RowTooLarge, PageFull,
      BufferPoolFull, CorruptPage, CorruptWal, CatalogError, DatabaseClosed}"

section \<open>Results that may be errors\<close>

type_synonym 'a result = "pg_error + 'a"

definition res_bind :: "'a result \<Rightarrow> ('a \<Rightarrow> 'b result) \<Rightarrow> 'b result" where
  "res_bind m f = (case m of Inl e \<Rightarrow> Inl e | Inr x \<Rightarrow> f x)"

text \<open>\<open>if not c: raise e\<close>\<close>

definition res_require :: "bool \<Rightarrow> pg_error \<Rightarrow> unit result" where
  "res_require c e = (if c then Inr () else Inl e)"

text \<open>\<open>try: m except e: raise e'\<close>, for one exception class.\<close>

definition res_rethrow :: "pg_error \<Rightarrow> pg_error \<Rightarrow> 'a result \<Rightarrow> 'a result" where
  "res_rethrow e e' m = (case m of Inl d \<Rightarrow> Inl (if d = e then e' else d) | Inr x \<Rightarrow> Inr x)"

fun res_mapM :: "('a \<Rightarrow> 'b result) \<Rightarrow> 'a list \<Rightarrow> 'b list result" where
  "res_mapM f [] = Inr []"
| "res_mapM f (x # xs) =
     res_bind (f x) (\<lambda>y. res_bind (res_mapM f xs) (\<lambda>ys. Inr (y # ys)))"

lemma res_bind_Inl [simp]: "res_bind (Inl e) f = Inl e"
  by (simp add: res_bind_def)

lemma res_bind_Inr [simp]: "res_bind (Inr x) f = f x"
  by (simp add: res_bind_def)

lemma res_bind_eq_Inr_iff: "res_bind m f = Inr y \<longleftrightarrow> (\<exists>x. m = Inr x \<and> f x = Inr y)"
  by (cases m) auto

lemma res_bind_eq_Inl_iff:
  "res_bind m f = Inl e \<longleftrightarrow> m = Inl e \<or> (\<exists>x. m = Inr x \<and> f x = Inl e)"
  by (cases m) auto

lemma res_require_eq_Inr_iff [simp]: "res_require c e = Inr u \<longleftrightarrow> c"
  by (simp add: res_require_def)

lemma res_require_eq_Inl_iff [simp]: "res_require c e = Inl e' \<longleftrightarrow> \<not> c \<and> e = e'"
  by (auto simp: res_require_def)

lemma res_require_True [simp]: "res_require True e = Inr ()"
  by (simp add: res_require_def)

lemma res_require_False [simp]: "res_require False e = Inl e"
  by (simp add: res_require_def)

lemma res_rethrow_Inr [simp]: "res_rethrow e e' (Inr x) = Inr x"
  by (simp add: res_rethrow_def)

lemma res_rethrow_Inl [simp]: "res_rethrow e e' (Inl d) = Inl (if d = e then e' else d)"
  by (simp add: res_rethrow_def)

lemma res_rethrow_eq_Inr_iff [simp]: "res_rethrow e e' m = Inr x \<longleftrightarrow> m = Inr x"
  by (cases m) auto

lemma res_mapM_Inr_length: "res_mapM f xs = Inr ys \<Longrightarrow> length ys = length xs"
  by (induction xs arbitrary: ys) (auto simp: res_bind_eq_Inr_iff)

lemma res_mapM_Inr_iff:
  "res_mapM f xs = Inr ys \<longleftrightarrow>
     length ys = length xs \<and> (\<forall>i < length xs. f (xs ! i) = Inr (ys ! i))"
proof (induction xs arbitrary: ys)
  case Nil
  show ?case by auto
next
  case (Cons x xs)
  show ?case
    by (cases ys) (auto simp: res_bind_eq_Inr_iff Cons.IH nth_Cons split: nat.splits)
qed

lemma res_mapM_Inr_set: "res_mapM f xs = Inr ys \<Longrightarrow> y \<in> set ys \<Longrightarrow> \<exists>x \<in> set xs. f x = Inr y"
  by (induction xs arbitrary: ys) (auto simp: res_bind_eq_Inr_iff)

lemma res_mapM_Inr_all: "res_mapM f xs = Inr ys \<Longrightarrow> x \<in> set xs \<Longrightarrow> \<exists>y \<in> set ys. f x = Inr y"
  by (induction xs arbitrary: ys) (auto simp: res_bind_eq_Inr_iff)

lemma res_mapM_Inr_map: "(\<And>x. x \<in> set xs \<Longrightarrow> f x = Inr (g x)) \<Longrightarrow> res_mapM f xs = Inr (map g xs)"
  by (induction xs) auto

lemmas res_simps = res_bind_eq_Inr_iff res_bind_eq_Inl_iff

section \<open>State passing with errors\<close>

text \<open>
  A Python method that mutates its object and may raise: the state it leaves behind is part
  of the outcome whether or not it raises.
\<close>

type_synonym ('s, 'a) sm = "'s \<Rightarrow> 'a result \<times> 's"

definition sm_return :: "'a \<Rightarrow> ('s, 'a) sm" where
  "sm_return x s = (Inr x, s)"

definition sm_raise :: "pg_error \<Rightarrow> ('s, 'a) sm" where
  "sm_raise e s = (Inl e, s)"

definition sm_bind :: "('s, 'a) sm \<Rightarrow> ('a \<Rightarrow> ('s, 'b) sm) \<Rightarrow> ('s, 'b) sm" where
  "sm_bind m f s = (case m s of (Inl e, s') \<Rightarrow> (Inl e, s') | (Inr x, s') \<Rightarrow> f x s')"

definition sm_lift :: "'a result \<Rightarrow> ('s, 'a) sm" where
  "sm_lift r s = (r, s)"

definition sm_get :: "('s \<Rightarrow> 'a) \<Rightarrow> ('s, 'a) sm" where
  "sm_get f s = (Inr (f s), s)"

definition sm_modify :: "('s \<Rightarrow> 's) \<Rightarrow> ('s, unit) sm" where
  "sm_modify f s = (Inr (), f s)"

text \<open>\<open>try: m finally: cleanup\<close>, where the clean-up step cannot raise.\<close>

definition sm_finally :: "('s, 'a) sm \<Rightarrow> ('s \<Rightarrow> 's) \<Rightarrow> ('s, 'a) sm" where
  "sm_finally m g s = (case m s of (r, s') \<Rightarrow> (r, g s'))"

lemma sm_return_apply [effect_simps, simp]: "sm_return x s = (Inr x, s)"
  by (simp add: sm_return_def)

lemma sm_raise_apply [effect_simps, simp]: "sm_raise e s = (Inl e, s)"
  by (simp add: sm_raise_def)

lemma sm_lift_apply [effect_simps, simp]: "sm_lift r s = (r, s)"
  by (simp add: sm_lift_def)

lemma sm_get_apply [effect_simps, simp]: "sm_get f s = (Inr (f s), s)"
  by (simp add: sm_get_def)

lemma sm_modify_apply [effect_simps, simp]: "sm_modify f s = (Inr (), f s)"
  by (simp add: sm_modify_def)

lemma sm_bind_Inr: "m s = (Inr x, s') \<Longrightarrow> sm_bind m f s = f x s'"
  by (simp add: sm_bind_def)

lemma sm_bind_Inl: "m s = (Inl e, s') \<Longrightarrow> sm_bind m f s = (Inl e, s')"
  by (simp add: sm_bind_def)

lemma sm_bind_eq_Inr_iff:
  "sm_bind m f s = (Inr y, t) \<longleftrightarrow> (\<exists>x s'. m s = (Inr x, s') \<and> f x s' = (Inr y, t))"
  by (auto simp: sm_bind_def split: prod.splits sum.splits)

lemma sm_bind_eq_Inl_iff:
  "sm_bind m f s = (Inl e, t) \<longleftrightarrow>
     m s = (Inl e, t) \<or> (\<exists>x s'. m s = (Inr x, s') \<and> f x s' = (Inl e, t))"
  by (auto simp: sm_bind_def split: prod.splits sum.splits)

text \<open>
  Where the sequence write, fsync, replace, fsync of the directory fails, if it does: before
  the replacement the old file stays, after it the new one is in place.
\<close>

datatype io_outcome = IoOk | IoFailsBefore | IoFailsAfter

text \<open>
  A method that calls others one after the other, with the state each call leaves behind: the
  states in which a crash can find it. The calls after one that raises are not made.
\<close>

type_synonym ('s, 'a) traced = "'s \<Rightarrow> ('a result \<times> 's) \<times> 's list"

definition tr_call :: "('s, 'a) sm \<Rightarrow> ('s, 'a) traced" where
  "tr_call m s = (m s, [snd (m s)])"

definition tr_return :: "'a \<Rightarrow> ('s, 'a) traced" where
  "tr_return x s = ((Inr x, s), [])"

definition tr_bind :: "('s, 'a) traced \<Rightarrow> ('a \<Rightarrow> ('s, 'b) traced) \<Rightarrow> ('s, 'b) traced" where
  "tr_bind m f s =
     (case m s of
        ((Inl e, s'), tr) \<Rightarrow> ((Inl e, s'), tr)
      | ((Inr x, s'), tr) \<Rightarrow> (case f x s' of (out, tr') \<Rightarrow> (out, tr @ tr')))"

definition tr_run :: "('s, 'a) traced \<Rightarrow> ('s, 'a) sm" where
  "tr_run m s = fst (m s)"

lemma tr_run_call [effect_simps]: "tr_run (tr_call m) = m"
  by (simp add: tr_run_def tr_call_def fun_eq_iff)

lemma tr_run_return [effect_simps]: "tr_run (tr_return x) = sm_return x"
  by (simp add: tr_run_def tr_return_def fun_eq_iff)

lemma tr_run_bind [effect_simps]: "tr_run (tr_bind m f) = sm_bind (tr_run m) (\<lambda>x. tr_run (f x))"
  by (auto simp: tr_run_def tr_bind_def sm_bind_def fun_eq_iff split: prod.splits sum.splits)

text \<open>
  An invariant of the states of a run: \<open>Q\<close> holds of what each part returns, \<open>C\<close> of every
  state a crash can find.
\<close>

definition tr_spec ::
    "('s \<Rightarrow> bool) \<Rightarrow> ('s, 'a) traced \<Rightarrow> ('a \<Rightarrow> 's \<Rightarrow> bool) \<Rightarrow> (pg_error \<Rightarrow> 's \<Rightarrow> bool) \<Rightarrow> ('s \<Rightarrow> bool) \<Rightarrow> bool" where
  "tr_spec P m Q E C \<longleftrightarrow>
     (\<forall>s. P s \<longrightarrow> (case m s of (out, tr) \<Rightarrow>
        (\<forall>c \<in> set tr. C c) \<and> (case out of (Inr x, s') \<Rightarrow> Q x s' | (Inl e, s') \<Rightarrow> E e s')))"

lemma tr_spec_call:
  assumes "\<And>s x s'. P s \<Longrightarrow> m s = (Inr x, s') \<Longrightarrow> Q x s' \<and> C s'"
    and "\<And>s e s'. P s \<Longrightarrow> m s = (Inl e, s') \<Longrightarrow> E e s' \<and> C s'"
  shows "tr_spec P (tr_call m) Q E C"
  using assms by (fastforce simp: tr_spec_def tr_call_def split: prod.splits sum.splits)

lemma tr_spec_return: "(\<And>s. P s \<Longrightarrow> Q x s) \<Longrightarrow> tr_spec P (tr_return x) Q E C"
  by (simp add: tr_spec_def tr_return_def)

lemma tr_spec_bind:
  assumes "tr_spec P m Q E C" and "\<And>x. tr_spec (Q x) (f x) R E C"
  shows "tr_spec P (tr_bind m f) R E C"
  unfolding tr_spec_def
proof (intro allI impI)
  fix s assume "P s"
  obtain r s' tr where m: "m s = ((r, s'), tr)" by (metis prod.collapse)
  have 1: "\<forall>c \<in> set tr. C c" "case r of Inr x \<Rightarrow> Q x s' | Inl e \<Rightarrow> E e s'"
    using assms(1) \<open>P s\<close> m by (auto simp: tr_spec_def split: sum.splits)
  show "case tr_bind m f s of (out, tr) \<Rightarrow>
      (\<forall>c \<in> set tr. C c) \<and> (case out of (Inr x, s') \<Rightarrow> R x s' | (Inl e, s') \<Rightarrow> E e s')"
  proof (cases r)
    case (Inl e)
    then show ?thesis using 1 m by (simp add: tr_bind_def)
  next
    case (Inr x)
    obtain out tr' where f: "f x s' = (out, tr')" by fastforce
    have "Q x s'" using 1 Inr by simp
    then show ?thesis using assms(2) [of x] 1(1) m f Inr by (auto simp: tr_spec_def tr_bind_def)
  qed
qed

lemma sm_bind_assoc: "sm_bind (sm_bind m f) g = sm_bind m (\<lambda>x. sm_bind (f x) g)"
  by (auto simp: sm_bind_def fun_eq_iff split: prod.splits sum.splits)

lemma sm_bind_return [simp]: "sm_bind m sm_return = m"
  by (auto simp: sm_bind_def fun_eq_iff split: prod.splits sum.splits)

lemma sm_bind_return_left [simp]: "sm_bind (sm_return x) f = f x"
  by (simp add: sm_bind_def fun_eq_iff)

text \<open>A list of calls without results, run in order.\<close>

primrec run_calls :: "('s, unit) sm list \<Rightarrow> ('s, unit) sm" where
  "run_calls [] = sm_return ()"
| "run_calls (m # ms) = sm_bind m (\<lambda>_. run_calls ms)"

text \<open>
  Partial-correctness triples for state-passing methods: from a state with \<open>P\<close> the method
  returns a value and state related by \<open>Q\<close>, or raises and leaves a state with \<open>E\<close>.
\<close>

definition sm_spec :: "('s \<Rightarrow> bool) \<Rightarrow> ('s, 'a) sm \<Rightarrow> ('a \<Rightarrow> 's \<Rightarrow> bool) \<Rightarrow> ('s \<Rightarrow> bool) \<Rightarrow> bool" where
  "sm_spec P m Q E \<longleftrightarrow>
     (\<forall>s. P s \<longrightarrow> (case m s of (Inr x, s') \<Rightarrow> Q x s' | (Inl e, s') \<Rightarrow> E s'))"

lemma sm_specI:
  "(\<And>s x s'. P s \<Longrightarrow> m s = (Inr x, s') \<Longrightarrow> Q x s') \<Longrightarrow> (\<And>s e s'. P s \<Longrightarrow> m s = (Inl e, s') \<Longrightarrow> E s') \<Longrightarrow>
   sm_spec P m Q E"
  by (auto simp: sm_spec_def split: prod.splits sum.splits)

lemma sm_specD:
  assumes "sm_spec P m Q E" and "P s"
  shows "m s = (Inr x, s') \<Longrightarrow> Q x s'" and "m s = (Inl e, s') \<Longrightarrow> E s'"
  using assms by (auto simp: sm_spec_def)

lemma sm_spec_keeps: "sm_spec P m (\<lambda>_. P) P \<Longrightarrow> P s \<Longrightarrow> m s = (r, s') \<Longrightarrow> P s'"
  by (cases r) (auto dest: sm_specD)

lemma sm_spec_bind:
  "sm_spec P m Q E \<Longrightarrow> (\<And>x. sm_spec (Q x) (f x) R E) \<Longrightarrow> sm_spec P (sm_bind m f) R E"
  by (fastforce simp: sm_spec_def sm_bind_def split: prod.splits sum.splits)

lemma sm_spec_pre: "sm_spec P m Q E \<Longrightarrow> (\<And>s. P' s \<Longrightarrow> P s) \<Longrightarrow> sm_spec P' m Q E"
  by (simp add: sm_spec_def)

lemma sm_spec_post:
  "sm_spec P m Q' E' \<Longrightarrow> (\<And>x s. Q' x s \<Longrightarrow> Q x s) \<Longrightarrow> (\<And>s. E' s \<Longrightarrow> E s) \<Longrightarrow> sm_spec P m Q E"
  by (fastforce simp: sm_spec_def split: prod.splits sum.splits)

lemma sm_spec_return: "(\<And>s. P s \<Longrightarrow> Q x s) \<Longrightarrow> sm_spec P (sm_return x) Q E"
  by (simp add: sm_spec_def)

lemma sm_spec_raise: "(\<And>s. P s \<Longrightarrow> E s) \<Longrightarrow> sm_spec P (sm_raise e) Q E"
  by (simp add: sm_spec_def)

lemma sm_spec_lift: "(\<And>s x. P s \<Longrightarrow> r = Inr x \<Longrightarrow> Q x s) \<Longrightarrow> (\<And>s. P s \<Longrightarrow> E s) \<Longrightarrow> sm_spec P (sm_lift r) Q E"
  by (auto simp: sm_spec_def split: sum.splits)

lemma sm_spec_get: "(\<And>s. P s \<Longrightarrow> Q (f s) s) \<Longrightarrow> sm_spec P (sm_get f) Q E"
  by (simp add: sm_spec_def)

lemma sm_spec_modify: "(\<And>s. P s \<Longrightarrow> Q () (f s)) \<Longrightarrow> sm_spec P (sm_modify f) Q E"
  by (simp add: sm_spec_def)

lemma sm_spec_if:
  "(c \<Longrightarrow> sm_spec P m Q E) \<Longrightarrow> (\<not> c \<Longrightarrow> sm_spec P m' Q E) \<Longrightarrow> sm_spec P (if c then m else m') Q E"
  by simp

lemmas sm_spec_basic = sm_spec_return sm_spec_raise sm_spec_lift sm_spec_get sm_spec_modify

text \<open>The dictionary \<open>{key: value for ...}\<close>: a later equal key overwrites the value in place.\<close>

definition dict_of :: "('k \<times> 'v) list \<Rightarrow> ('k \<times> 'v) list" where
  "dict_of kvs = fold (\<lambda>(k, v) d. AList.update k v d) kvs []"

lemma update_new: "k \<notin> fst ` set d \<Longrightarrow> AList.update k v d = d @ [(k, v)]"
  by (induction d) auto

lemma delete_new: "k \<notin> fst ` set d \<Longrightarrow> AList.delete k (d @ [(k, v)]) = d"
  by (induction d) (auto simp: AList.delete_eq)

lemma dict_of_distinct: "distinct (map fst kvs) \<Longrightarrow> dict_of kvs = kvs"
proof (induction kvs rule: rev_induct)
  case Nil
  show ?case by (simp add: dict_of_def)
next
  case (snoc kv kvs)
  obtain k v where kv: "kv = (k, v)" by (cases kv)
  have "dict_of (kvs @ [kv]) = AList.update k v (dict_of kvs)" by (simp add: dict_of_def kv)
  then show ?case using snoc by (simp add: kv update_new)
qed

text \<open>Reading an updated list, without a side condition.\<close>

lemma nth_list_update_if: "xs[i := v] ! j = (if i = j \<and> j < length xs then v else xs ! j)"
  by (cases "i < length xs") (auto simp: nth_list_update list_update_beyond)

section \<open>Byte strings\<close>

type_synonym byte = "8 word"
type_synonym bytes = "byte list"

text \<open>An ASCII bytes literal such as \<open>b"MPG1"\<close>.\<close>

definition ascii :: "string \<Rightarrow> bytes" where
  "ascii s = map of_char s"

text \<open>\<open>b[i:j]\<close> for \<open>0 \<le> i\<close>, and the assignment \<open>b[i:i+len(v)] = v\<close>.\<close>

definition py_slice :: "'a list \<Rightarrow> nat \<Rightarrow> nat \<Rightarrow> 'a list" where
  "py_slice xs i j = take (j - i) (drop i xs)"

definition py_splice :: "'a list \<Rightarrow> nat \<Rightarrow> 'a list \<Rightarrow> 'a list" where
  "py_splice xs i ys = take i xs @ ys @ drop (i + length ys) xs"

text \<open>\<open>os.pwrite(fd, data, off)\<close> on a file's contents: a hole is filled with zeros.\<close>

definition file_pwrite :: "byte list \<Rightarrow> nat \<Rightarrow> byte list \<Rightarrow> byte list" where
  "file_pwrite contents off data =
     take off (contents @ replicate (off - length contents) 0) @ data @ drop (off + length data) contents"

text \<open>\<open>n.to_bytes(k, "big")\<close> and \<open>int.from_bytes(b, "big")\<close>.\<close>

fun to_be :: "nat \<Rightarrow> nat \<Rightarrow> bytes" where
  "to_be 0 n = []"
| "to_be (Suc k) n = to_be k (n div 256) @ [of_nat (n mod 256)]"

definition of_be :: "bytes \<Rightarrow> nat" where
  "of_be bs = foldl (\<lambda>acc b. acc * 256 + unat b) 0 bs"

text \<open>Packing an unsigned field of \<open>k\<close> bytes: \<open>struct.error\<close> outside its range.\<close>

definition pack_uint :: "nat \<Rightarrow> nat \<Rightarrow> bytes result" where
  "pack_uint k n = (if n < 256 ^ k then Inr (to_be k n) else Inl PyStructError)"

lemma file_pwrite_end: "off = length contents \<Longrightarrow> file_pwrite contents off data = contents @ data"
  by (simp add: file_pwrite_def)

lemma length_file_pwrite: "length (file_pwrite contents off data) = max (length contents) (off + length data)"
  by (simp add: file_pwrite_def)

lemma file_pwrite_splice:
  "off + length data \<le> length contents \<Longrightarrow> file_pwrite contents off data = py_splice contents off data"
  by (simp add: file_pwrite_def py_splice_def)

lemma length_ascii [simp]: "length (ascii s) = length s"
  by (simp add: ascii_def)

lemma length_to_be [simp]: "length (to_be k n) = k"
  by (induction k arbitrary: n) auto

lemma to_be_0: "to_be k 0 = replicate k 0"
  by (induction k) (simp_all add: replicate_append_same)

lemma of_be_Nil [simp]: "of_be [] = 0"
  by (simp add: of_be_def)

lemma of_be_snoc [simp]: "of_be (bs @ [b]) = of_be bs * 256 + unat b"
  by (simp add: of_be_def)

lemma unat_byte_less [simp]: "unat (b :: byte) < 256"
  using unsigned_less [of b, where 'a = nat] by simp

lemma of_be_less: "of_be bs < 256 ^ length bs"
proof (induction bs rule: rev_induct)
  case Nil
  show ?case by simp
next
  case (snoc b bs)
  define p :: nat where "p = 256 ^ length bs"
  have "of_be bs < p" using snoc by (simp add: p_def)
  moreover have "unat b < 256" by (rule unat_byte_less)
  ultimately have "of_be bs * 256 + unat b < 256 * p" by linarith
  then show ?case by (simp add: p_def)
qed

lemma unat_of_nat_byte [simp]: "unat (of_nat (n mod 256) :: byte) = n mod 256"
  by (simp add: unat_of_nat)

lemma of_be_to_be: "of_be (to_be k n) = n mod 256 ^ k"
proof (induction k arbitrary: n)
  case 0
  show ?case by simp
next
  case (Suc k)
  have "(n div 256 mod 256 ^ k) * 256 + n mod 256 = n mod (256 * 256 ^ k)"
    by (simp add: mod_mult2_eq)
  then show ?case by (simp add: Suc)
qed

lemma of_be_to_be_id [simp]: "n < 256 ^ k \<Longrightarrow> of_be (to_be k n) = n"
  by (simp add: of_be_to_be)

lemma to_be_of_be: "to_be (length bs) (of_be bs) = bs"
proof (induction bs rule: rev_induct)
  case Nil
  show ?case by simp
next
  case (snoc b bs)
  have "unat b < 256" by (rule unat_byte_less)
  then show ?case using snoc by simp
qed

lemma of_be_inj: "of_be as = of_be bs \<Longrightarrow> length as = length bs \<Longrightarrow> as = bs"
  by (metis to_be_of_be)

lemma pack_uint_Inr [simp]: "n < 256 ^ k \<Longrightarrow> pack_uint k n = Inr (to_be k n)"
  by (simp add: pack_uint_def)

lemma pack_uint_eq_Inr_iff: "pack_uint k n = Inr b \<longleftrightarrow> n < 256 ^ k \<and> b = to_be k n"
  by (auto simp: pack_uint_def)

lemma length_py_slice [simp]: "length (py_slice xs i j) = min (j - i) (length xs - i)"
  by (simp add: py_slice_def min.commute)

lemma length_py_splice [simp]: "i + length ys \<le> length xs \<Longrightarrow> length (py_splice xs i ys) = length xs"
  by (simp add: py_splice_def)

lemma py_slice_append_left: "j \<le> length xs \<Longrightarrow> py_slice (xs @ ys) i j = py_slice xs i j"
  by (simp add: py_slice_def)

lemma py_slice_append_right:
  "length xs \<le> i \<Longrightarrow> py_slice (xs @ ys) i j = py_slice ys (i - length xs) (j - length xs)"
  by (simp add: py_slice_def)

lemma py_slice_append_exact: "i = length xs \<Longrightarrow> j = i + length ys \<Longrightarrow> py_slice (xs @ ys @ zs) i j = ys"
  by (simp add: py_slice_def)

lemma py_slice_splice_same:
  "i + length ys \<le> length xs \<Longrightarrow> py_slice (py_splice xs i ys) i (i + length ys) = ys"
  by (simp add: py_slice_def py_splice_def)

lemma nth_py_splice:
  assumes "i + length ys \<le> length xs" and "k < length xs"
  shows "py_splice xs i ys ! k = (if i \<le> k \<and> k < i + length ys then ys ! (k - i) else xs ! k)"
  using assms by (auto simp: py_splice_def nth_append min_def)

lemma nth_py_slice: "k < j - i \<Longrightarrow> i + k < length xs \<Longrightarrow> py_slice xs i j ! k = xs ! (i + k)"
  by (simp add: py_slice_def)

lemma py_slice_splice_disjoint:
  assumes "i + length ys \<le> length xs" and "b \<le> i \<or> i + length ys \<le> a"
  shows "py_slice (py_splice xs i ys) a b = py_slice xs a b"
proof (rule nth_equalityI)
  show "length (py_slice (py_splice xs i ys) a b) = length (py_slice xs a b)" using assms by simp
next
  fix k assume "k < length (py_slice (py_splice xs i ys) a b)"
  then have "k < b - a" and "a + k < length xs" using assms(1) by auto
  then show "py_slice (py_splice xs i ys) a b ! k = py_slice xs a b ! k"
    using assms by (auto simp: nth_py_slice nth_py_splice)
qed

section \<open>Fields of packed records\<close>

text \<open>
  \<open>struct.pack\<close> on a list of (width, value) fields, and the unsigned field of \<open>k\<close> bytes
  at offset \<open>off\<close> that \<open>struct.unpack_from\<close> reads.
\<close>

fun pack_fields :: "(nat \<times> nat) list \<Rightarrow> bytes result" where
  "pack_fields [] = Inr []"
| "pack_fields ((k, n) # fs) =
     res_bind (pack_uint k n) (\<lambda>b. res_bind (pack_fields fs) (\<lambda>bs. Inr (b @ bs)))"

definition uint_at :: "bytes \<Rightarrow> nat \<Rightarrow> nat \<Rightarrow> nat" where
  "uint_at bs off k = of_be (py_slice bs off (off + k))"

lemma pack_fields_Inr_iff:
  "pack_fields fs = Inr bs \<longleftrightarrow>
     list_all (\<lambda>(k, n). n < 256 ^ k) fs \<and> bs = concat (map (\<lambda>(k, n). to_be k n) fs)"
  by (induction fs arbitrary: bs rule: pack_fields.induct)
    (auto simp: res_bind_eq_Inr_iff pack_uint_eq_Inr_iff)

lemma pack_fields_Inl: "pack_fields fs = Inl e \<Longrightarrow> e = PyStructError"
  by (induction fs rule: pack_fields.induct)
    (auto simp: res_bind_eq_Inl_iff pack_uint_def split: if_splits)

lemma length_pack_fields: "pack_fields fs = Inr bs \<Longrightarrow> length bs = sum_list (map fst fs)"
  by (induction fs arbitrary: bs rule: pack_fields.induct)
    (auto simp: res_bind_eq_Inr_iff pack_uint_eq_Inr_iff)

lemma uint_at_append_right [layout_simps]:
  "length a \<le> off \<Longrightarrow> uint_at (a @ b) off k = uint_at b (off - length a) k"
  by (simp add: uint_at_def py_slice_append_right)

lemma uint_at_append_left [layout_simps]:
  "off + k \<le> length a \<Longrightarrow> uint_at (a @ b) off k = uint_at a off k"
  by (simp add: uint_at_def py_slice_append_left)

lemma uint_at_to_be [layout_simps]: "n < 256 ^ k \<Longrightarrow> uint_at (to_be k n) 0 k = n"
  by (simp add: uint_at_def py_slice_def)

definition fields_bytes :: "(nat \<times> nat) list \<Rightarrow> bytes" where
  "fields_bytes fs = concat (map (\<lambda>(k, n). to_be k n) fs)"

definition fields_ok :: "(nat \<times> nat) list \<Rightarrow> bool" where
  "fields_ok fs \<longleftrightarrow> list_all (\<lambda>(k, n). n < 256 ^ k) fs"

lemma pack_fields_eq: "fields_ok fs \<Longrightarrow> pack_fields fs = Inr (fields_bytes fs)"
  by (simp add: pack_fields_Inr_iff fields_ok_def fields_bytes_def)

lemma pack_fields_InrD: "pack_fields fs = Inr bs \<Longrightarrow> fields_ok fs \<and> bs = fields_bytes fs"
  by (simp add: pack_fields_Inr_iff fields_ok_def fields_bytes_def)

lemma length_fields_bytes: "length (fields_bytes fs) = sum_list (map fst fs)"
  by (induction fs) (auto simp: fields_bytes_def)

text \<open>Reading back the \<open>i\<close>-th field of a packed record that follows \<open>m\<close>.\<close>

lemma uint_at_fields:
  "fields_ok fs \<Longrightarrow> i < length fs \<Longrightarrow>
     uint_at (m @ fields_bytes fs @ rest) (length m + sum_list (map fst (take i fs))) (fst (fs ! i))
     = snd (fs ! i)"
proof (induction fs arbitrary: m i)
  case Nil
  then show ?case by simp
next
  case (Cons f fs)
  obtain k n where f: "f = (k, n)" by (cases f)
  have fb: "fields_bytes ((k, n) # fs) = to_be k n @ fields_bytes fs" by (simp add: fields_bytes_def)
  show ?case
  proof (cases i)
    case 0
    then show ?thesis
      using Cons.prems by (simp add: fb f layout_simps fields_ok_def)
  next
    case (Suc j)
    have "fields_ok fs" and "j < length fs" using Cons.prems Suc by (auto simp: fields_ok_def f)
    from Cons.IH [OF this, of "m @ to_be k n"] show ?thesis
      by (simp add: fb f Suc add.assoc)
  qed
qed

lemma uint_at_less: "uint_at bs off k < 256 ^ k"
proof -
  have "uint_at bs off k < 256 ^ length (py_slice bs off (off + k))"
    unfolding uint_at_def by (rule of_be_less)
  also have "\<dots> \<le> 256 ^ k" by (rule power_increasing) auto
  finally show ?thesis .
qed

lemma uint_at_splice_disjoint:
  "i + length ys \<le> length xs \<Longrightarrow> off + k \<le> i \<or> i + length ys \<le> off \<Longrightarrow>
     uint_at (py_splice xs i ys) off k = uint_at xs off k"
  by (simp add: uint_at_def py_slice_splice_disjoint)

lemma uint_at_splice_same:
  "i + k \<le> length xs \<Longrightarrow> n < 256 ^ k \<Longrightarrow> uint_at (py_splice xs i (to_be k n)) i k = n"
  using py_slice_splice_same [of i "to_be k n" xs] by (simp add: uint_at_def)

lemma py_slice_0_append [layout_simps]: "j = length a \<Longrightarrow> py_slice (a @ b) 0 j = a"
  by (simp add: py_slice_def)

lemma py_slice_all [layout_simps]: "length a \<le> j \<Longrightarrow> py_slice a 0 j = a"
  by (simp add: py_slice_def)

lemma py_splice_splice_same:
  "i + length ys \<le> length xs \<Longrightarrow> length zs = length ys \<Longrightarrow>
     py_splice (py_splice xs i ys) i zs = py_splice xs i zs"
  by (simp add: py_splice_def)

lemma py_splice_self:
  "i + length ys \<le> length xs \<Longrightarrow> py_slice xs i (i + length ys) = ys \<Longrightarrow> py_splice xs i ys = xs"
  by (simp add: py_splice_def py_slice_def)
    (metis add.commute append_take_drop_id drop_drop)

lemmas [layout_simps] = py_slice_append_right py_slice_append_left

section \<open>CRC-32\<close>

text \<open>
  \<open>zlib.crc32\<close>: the reflected CRC with polynomial \<open>0xEDB88320\<close>, initial value and
  final complement all ones. The properties of the codecs hold for whatever function stands
  here; the concrete one makes every page, tuple and log record computable.
\<close>

definition crc32_bit :: "32 word \<Rightarrow> 32 word" where
  "crc32_bit c = (if bit c 0 then Bit_Operations.xor (drop_bit 1 c) 0xEDB88320 else drop_bit 1 c)"

definition crc32_byte :: "32 word \<Rightarrow> byte \<Rightarrow> 32 word" where
  "crc32_byte c b = (crc32_bit ^^ 8) (Bit_Operations.xor c (ucast b))"

definition crc32 :: "bytes \<Rightarrow> nat" where
  "crc32 bs = unat (Bit_Operations.not (foldl crc32_byte (Bit_Operations.not 0) bs))"

lemma crc32_less: "crc32 bs < 256 ^ 4"
  using unsigned_less [where 'a = nat and w = "Bit_Operations.not (foldl crc32_byte (Bit_Operations.not 0) bs)"]
  by (simp add: crc32_def)

text \<open>
  A record sealed by writing its checksum over a zero field: the checksum is read back, every
  other field is untouched, and zeroing the field again gives the bytes the checksum covers.
\<close>

lemma checksum_sealed:
  fixes img off
  defines "p \<equiv> py_splice img off (to_be 4 (crc32 img))"
  assumes "off + 4 \<le> length img" and "uint_at img off 4 = 0"
  shows "length p = length img" and "uint_at p off 4 = crc32 img"
    and "py_splice p off (replicate 4 0) = img"
    and "j + k \<le> off \<Longrightarrow> uint_at p j k = uint_at img j k"
    and "b \<le> off \<or> off + 4 \<le> a \<Longrightarrow> py_slice p a b = py_slice img a b"
proof -
  show "length p = length img" using assms by (simp add: p_def)
  show "uint_at p off 4 = crc32 img" using assms crc32_less [of img] by (simp add: p_def uint_at_splice_same)
  have "to_be 4 (uint_at img off 4) = py_slice img off (off + 4)"
    using to_be_of_be [of "py_slice img off (off + 4)"] assms(2) by (simp add: uint_at_def)
  then have "py_splice img off (replicate 4 0) = img"
    using assms by (intro py_splice_self) (simp_all add: to_be_0)
  then show "py_splice p off (replicate 4 0) = img"
    using assms(2) by (simp add: p_def py_splice_splice_same)
  show "j + k \<le> off \<Longrightarrow> uint_at p j k = uint_at img j k"
    using assms(2) by (simp add: p_def uint_at_splice_disjoint)
  show "b \<le> off \<or> off + 4 \<le> a \<Longrightarrow> py_slice p a b = py_slice img a b"
    using assms(2) by (simp add: p_def py_slice_splice_disjoint)
qed

end
