(* ===== verification/Float64.thy ===== *)
theory Float64
  imports Prelude
begin

text \<open>
  Python's \<open>float\<close>, the IEEE 754 binary64 numbers, as the 64-bit patterns that
  \<open>struct\<close> packs with format \<open>d\<close>. Every finite double is an integer multiple of
  \<open>2 ^ -1074\<close>, so values are compared, added and rounded as integers in that unit.
  Holds the value of a pattern, the comparisons, negation, conversion from \<open>int\<close> and
  the four arithmetic operations with rounding to nearest, ties to even; and the fact the
  index key codec rests on: on one sign, the order of the patterns is the order of the values.
\<close>

type_synonym float64 = "64 word"

section \<open>Values\<close>

definition f64_negative :: "float64 \<Rightarrow> bool" where
  "f64_negative w \<longleftrightarrow> 2 ^ 63 \<le> unat w"

text \<open>Exponent and fraction fields read as one 63-bit number.\<close>

definition f64_magnitude :: "float64 \<Rightarrow> nat" where
  "f64_magnitude w = unat w mod 2 ^ 63"

definition f64_inf_magnitude :: nat where
  "f64_inf_magnitude = 2047 * 2 ^ 52"

definition f64_is_nan :: "float64 \<Rightarrow> bool" where
  "f64_is_nan w \<longleftrightarrow> f64_inf_magnitude < f64_magnitude w"

definition f64_is_inf :: "float64 \<Rightarrow> bool" where
  "f64_is_inf w \<longleftrightarrow> f64_magnitude w = f64_inf_magnitude"

text \<open>
  The value of a magnitude in units of \<open>2 ^ -1074\<close>: subnormal when the exponent field is
  zero, otherwise with the implicit leading bit. The infinite magnitude gets the value one
  binade above the largest finite one, which is all the comparisons need of it.
\<close>

definition magnitude_value :: "nat \<Rightarrow> nat" where
  "magnitude_value n =
     (let e = n div 2 ^ 52; m = n mod 2 ^ 52
      in if e = 0 then m else (2 ^ 52 + m) * 2 ^ (e - 1))"

definition f64_scaled :: "float64 \<Rightarrow> int" where
  "f64_scaled w =
     (if f64_negative w then - int (magnitude_value (f64_magnitude w))
      else int (magnitude_value (f64_magnitude w)))"

section \<open>Comparison\<close>

definition f64_eq :: "float64 \<Rightarrow> float64 \<Rightarrow> bool" where
  "f64_eq a b \<longleftrightarrow> \<not> f64_is_nan a \<and> \<not> f64_is_nan b \<and> f64_scaled a = f64_scaled b"

definition f64_lt :: "float64 \<Rightarrow> float64 \<Rightarrow> bool" where
  "f64_lt a b \<longleftrightarrow> \<not> f64_is_nan a \<and> \<not> f64_is_nan b \<and> f64_scaled a < f64_scaled b"

definition f64_le :: "float64 \<Rightarrow> float64 \<Rightarrow> bool" where
  "f64_le a b \<longleftrightarrow> f64_lt a b \<or> f64_eq a b"

section \<open>Rounding and arithmetic\<close>

definition div_half_even :: "nat \<Rightarrow> nat \<Rightarrow> nat" where
  "div_half_even p q =
     (let d = p div q; r = p mod q
      in if q < 2 * r \<or> (2 * r = q \<and> odd d) then d + 1 else d)"

text \<open>How many bits above 53 the quotient \<open>p / q\<close> has.\<close>

function excess_bits :: "nat \<Rightarrow> nat \<Rightarrow> nat" where
  "excess_bits p q = (if q = 0 \<or> p < 2 ^ 53 * q then 0 else Suc (excess_bits p (2 * q)))"
  by pat_completeness auto
termination
  by (relation "measure (\<lambda>(p, q). p - q)") auto

declare excess_bits.simps [simp del]

text \<open>
  The magnitude nearest to \<open>p / q\<close> units. Below the second binade the pattern is the
  value itself; above it each excess bit adds one to the exponent field, and a carry out of
  the fraction lands in the exponent field by the same addition.
\<close>

definition round_magnitude :: "nat \<Rightarrow> nat \<Rightarrow> nat" where
  "round_magnitude p q =
     (let k = excess_bits p q
      in min f64_inf_magnitude (k * 2 ^ 52 + div_half_even p (2 ^ k * q)))"

definition f64_make :: "bool \<Rightarrow> nat \<Rightarrow> float64" where
  "f64_make neg mag = of_nat (if neg then 2 ^ 63 + mag else mag)"

text \<open>The quiet NaN an invalid operation produces (payload and sign are up to the platform).\<close>

definition f64_nan :: float64 where
  "f64_nan = f64_make False (f64_inf_magnitude + 2 ^ 51)"

definition f64_of_int :: "int \<Rightarrow> float64 result" where
  "f64_of_int i =
     (let mag = round_magnitude (nat \<bar>i\<bar> * 2 ^ 1074) 1
      in if mag = f64_inf_magnitude then Inl PyOverflowError else Inr (f64_make (i < 0) mag))"

definition f64_neg :: "float64 \<Rightarrow> float64" where
  "f64_neg w = Bit_Operations.xor w (2 ^ 63)"

definition f64_add :: "float64 \<Rightarrow> float64 \<Rightarrow> float64" where
  "f64_add a b =
     (if f64_is_nan a \<or> f64_is_nan b then f64_nan
      else if f64_is_inf a \<and> f64_is_inf b \<and> f64_negative a \<noteq> f64_negative b then f64_nan
      else if f64_is_inf a then a
      else if f64_is_inf b then b
      else let s = f64_scaled a + f64_scaled b
           in if s = 0 then f64_make (f64_negative a \<and> f64_negative b) 0
              else f64_make (s < 0) (round_magnitude (nat \<bar>s\<bar>) 1))"

definition f64_sub :: "float64 \<Rightarrow> float64 \<Rightarrow> float64" where
  "f64_sub a b = f64_add a (f64_neg b)"

definition f64_mul :: "float64 \<Rightarrow> float64 \<Rightarrow> float64" where
  "f64_mul a b =
     (let neg = (f64_negative a \<noteq> f64_negative b);
          va = magnitude_value (f64_magnitude a); vb = magnitude_value (f64_magnitude b)
      in if f64_is_nan a \<or> f64_is_nan b then f64_nan
         else if f64_is_inf a \<or> f64_is_inf b
              then (if va = 0 \<or> vb = 0 then f64_nan else f64_make neg f64_inf_magnitude)
         else f64_make neg (round_magnitude (va * vb) (2 ^ 1074)))"

text \<open>Division by a nonzero divisor; Python raises \<open>ZeroDivisionError\<close> before it.\<close>

definition f64_div :: "float64 \<Rightarrow> float64 \<Rightarrow> float64" where
  "f64_div a b =
     (let neg = (f64_negative a \<noteq> f64_negative b);
          va = magnitude_value (f64_magnitude a); vb = magnitude_value (f64_magnitude b)
      in if f64_is_nan a \<or> f64_is_nan b then f64_nan
         else if f64_is_inf a then (if f64_is_inf b then f64_nan else f64_make neg f64_inf_magnitude)
         else if f64_is_inf b then f64_make neg 0
         else f64_make neg (round_magnitude (va * 2 ^ 1074) vb))"

section \<open>The order of patterns is the order of values\<close>

lemma magnitude_value_Suc: "magnitude_value n < magnitude_value (Suc n)"
proof -
  define e m where "e = n div 2 ^ 52" and "m = n mod 2 ^ 52"
  have n: "n = e * 2 ^ 52 + m" and m: "m < 2 ^ 52" by (simp_all add: e_def m_def)
  have split: "magnitude_value (e * 2 ^ 52 + k) = (if e = 0 then k else (2 ^ 52 + k) * 2 ^ (e - 1))"
    if "k < 2 ^ 52" for e k :: nat
    using that by (simp add: magnitude_value_def Let_def)
  show ?thesis
  proof (cases "Suc m < 2 ^ 52")
    case True
    then have "Suc n = e * 2 ^ 52 + Suc m" using n by simp
    then show ?thesis using split [OF m, of e] split [OF True, of e] n by simp
  next
    case False
    with m have m': "m = 2 ^ 52 - 1" by simp
    then have "Suc n = Suc e * 2 ^ 52 + 0" using n by simp
    then have "magnitude_value (Suc n) = 2 ^ 52 * 2 ^ e"
      using split [of 0 "Suc e"] by simp
    moreover have "magnitude_value n < 2 ^ 52 * 2 ^ e"
      using split [OF m, of e] n m' by (cases e) (simp_all add: algebra_simps)
    ultimately show ?thesis by simp
  qed
qed

lemma magnitude_value_mono: "magnitude_value a < magnitude_value b \<longleftrightarrow> a < b"
  by (rule strict_mono_less) (simp add: strict_mono_Suc_iff magnitude_value_Suc)

lemma magnitude_value_0 [simp]: "magnitude_value 0 = 0"
  by (simp add: magnitude_value_def)

lemma magnitude_value_eq_0 [simp]: "magnitude_value a = 0 \<longleftrightarrow> a = 0"
  using magnitude_value_mono [of 0 a] by (metis magnitude_value_0 neq0_conv)

lemma f64_magnitude_less: "f64_magnitude w < 2 ^ 63"
  by (simp add: f64_magnitude_def)

lemma unat_f64: "unat w = (if f64_negative w then 2 ^ 63 else 0) + f64_magnitude w"
proof -
  have "unat w < 2 ^ 64" using unsigned_less [of w, where 'a = nat] by simp
  then show ?thesis
    by (cases "f64_negative w") (auto simp: f64_negative_def f64_magnitude_def le_mod_geq)
qed

text \<open>
  The total order of the patterns that the key codec encodes: negative patterns reversed and
  below the positive ones.
\<close>

definition f64_sort_key :: "float64 \<Rightarrow> nat" where
  "f64_sort_key w = (if f64_negative w then 2 ^ 64 - 1 - unat w else unat w + 2 ^ 63)"

lemma f64_sort_key_less:
  assumes "\<not> f64_is_nan a" and "\<not> f64_is_nan b" and "f64_lt a b"
  shows "f64_sort_key a < f64_sort_key b"
proof -
  have lt: "f64_scaled a < f64_scaled b" using assms(3) by (simp add: f64_lt_def)
  have a: "f64_magnitude a < 2 ^ 63" and b: "f64_magnitude b < 2 ^ 63"
    by (rule f64_magnitude_less)+
  show ?thesis
    using lt a b
    by (auto simp: f64_sort_key_def unat_f64 f64_scaled_def magnitude_value_mono split: if_splits)
qed

end
