(* ===== verification/Utf8.thy ===== *)
theory Utf8
  imports Prelude
begin

text \<open>
  Python's \<open>str\<close> as the list of its code points, and the strict UTF-8 codec of
  \<open>str.encode\<close> and \<open>bytes.decode\<close>: surrogates, overlong forms, truncated and stray
  continuation bytes are errors. Shows that decoding inverts encoding and that encoding
  preserves the order of strings, which the tuple and the index key codecs rely on.
\<close>

type_synonym pystr = "nat list"

definition valid_cp :: "nat \<Rightarrow> bool" where
  "valid_cp c \<longleftrightarrow> c < 0xD800 \<or> (0xE000 \<le> c \<and> c < 0x110000)"

definition utf8_units :: "nat \<Rightarrow> nat list" where
  "utf8_units c =
     (if c < 0x80 then [c]
      else if c < 0x800 then [0xC0 + c div 64, 0x80 + c mod 64]
      else if c < 0x10000 then [0xE0 + c div 4096, 0x80 + c div 64 mod 64, 0x80 + c mod 64]
      else [0xF0 + c div 262144, 0x80 + c div 4096 mod 64, 0x80 + c div 64 mod 64, 0x80 + c mod 64])"

definition utf8_encode :: "pystr \<Rightarrow> bytes result" where
  "utf8_encode t =
     (if list_all valid_cp t then Inr (map of_nat (concat (map utf8_units t)))
      else Inl PyUnicodeError)"

definition is_cont :: "nat \<Rightarrow> bool" where
  "is_cont b \<longleftrightarrow> 0x80 \<le> b \<and> b < 0xC0"

fun utf8_decode_units :: "nat list \<Rightarrow> pystr result" where
  "utf8_decode_units [] = Inr []"
| "utf8_decode_units (b # bs) =
     (if b < 0x80 then res_bind (utf8_decode_units bs) (\<lambda>t. Inr (b # t))
      else if 0xC2 \<le> b \<and> b < 0xE0 then
        (case bs of
           c1 # rest \<Rightarrow>
             (if is_cont c1
              then res_bind (utf8_decode_units rest) (\<lambda>t. Inr (((b - 0xC0) * 64 + (c1 - 0x80)) # t))
              else Inl PyUnicodeError)
         | _ \<Rightarrow> Inl PyUnicodeError)
      else if 0xE0 \<le> b \<and> b < 0xF0 then
        (case bs of
           c1 # c2 # rest \<Rightarrow>
             (let cp = (b - 0xE0) * 4096 + (c1 - 0x80) * 64 + (c2 - 0x80)
              in if is_cont c1 \<and> is_cont c2 \<and> 0x800 \<le> cp \<and> valid_cp cp
                 then res_bind (utf8_decode_units rest) (\<lambda>t. Inr (cp # t))
                 else Inl PyUnicodeError)
         | _ \<Rightarrow> Inl PyUnicodeError)
      else if 0xF0 \<le> b \<and> b < 0xF5 then
        (case bs of
           c1 # c2 # c3 # rest \<Rightarrow>
             (let cp = (b - 0xF0) * 262144 + (c1 - 0x80) * 4096 + (c2 - 0x80) * 64 + (c3 - 0x80)
              in if is_cont c1 \<and> is_cont c2 \<and> is_cont c3 \<and> 0x10000 \<le> cp \<and> valid_cp cp
                 then res_bind (utf8_decode_units rest) (\<lambda>t. Inr (cp # t))
                 else Inl PyUnicodeError)
         | _ \<Rightarrow> Inl PyUnicodeError)
      else Inl PyUnicodeError)"

definition utf8_decode :: "bytes \<Rightarrow> pystr result" where
  "utf8_decode bs = utf8_decode_units (map unat bs)"

section \<open>Decoding inverts encoding\<close>

lemma utf8_units_less: "valid_cp c \<Longrightarrow> u \<in> set (utf8_units c) \<Longrightarrow> u < 256"
  by (auto simp: utf8_units_def valid_cp_def split: if_splits)

lemma utf8_units_nonzero: "u \<in> set (utf8_units c) \<Longrightarrow> c \<noteq> 0 \<Longrightarrow> u \<noteq> 0"
  by (auto simp: utf8_units_def split: if_splits)

text \<open>The base-64 digits of a code point, from the most significant.\<close>

definition cp_digits :: "nat \<Rightarrow> nat \<Rightarrow> nat \<Rightarrow> nat \<Rightarrow> nat \<Rightarrow> bool" where
  "cp_digits c w x y z \<longleftrightarrow>
     c = w * 262144 + x * 4096 + y * 64 + z \<and> x < 64 \<and> y < 64 \<and> z < 64"

lemma cp_digits_exist:
  "cp_digits c (c div 262144) (c div 4096 mod 64) (c div 64 mod 64) (c mod 64)"
proof -
  define p q where "p = c div 64" and "q = p div 64"
  have "c div 4096 = q" and "c div 262144 = q div 64"
    by (simp_all add: p_def q_def div_mult2_eq [symmetric])
  moreover have "c = p * 64 + c mod 64" and "p = q * 64 + p mod 64" and "q = (q div 64) * 64 + q mod 64"
    by (simp_all add: p_def q_def)
  then have "c = (q div 64) * 262144 + (q mod 64) * 4096 + (p mod 64) * 64 + c mod 64"
    by linarith
  ultimately show ?thesis unfolding cp_digits_def by (simp add: p_def)
qed

lemma utf8_units_digits:
  assumes "cp_digits c w x y z"
  shows "utf8_units c =
     (if c < 0x80 then [c]
      else if c < 0x800 then [0xC0 + y, 0x80 + z]
      else if c < 0x10000 then [0xE0 + x, 0x80 + y, 0x80 + z]
      else [0xF0 + w, 0x80 + x, 0x80 + y, 0x80 + z])"
proof -
  have c: "c = z + 64 * (y + 64 * (x + 64 * w))" and lt: "x < 64" "y < 64" "z < 64"
    using assms by (auto simp: cp_digits_def)
  have r: "(k + 64 * m) div 64 = m \<and> (k + 64 * m) mod 64 = k" if "k < 64" for k m :: nat
    using that by simp
  have d1: "c div 64 = y + 64 * (x + 64 * w)" and m1: "c mod 64 = z"
    unfolding c using r [OF lt(3)] by blast+
  have d2: "c div 4096 = x + 64 * w" and m2: "c div 64 mod 64 = y"
    using r [OF lt(2), of "x + 64 * w"] d1 div_mult2_eq [of c 64 64] by simp_all
  have d3: "c div 262144 = w" and m3: "c div 4096 mod 64 = x"
    using r [OF lt(1), of w] d2 div_mult2_eq [of c 4096 64] by simp_all
  have "c < 0x800 \<Longrightarrow> x = 0 \<and> w = 0" and "c < 0x10000 \<Longrightarrow> w = 0"
    using assms unfolding cp_digits_def by linarith+
  then show ?thesis unfolding utf8_units_def m1 m2 m3 d3 by (auto simp: d1 d2)
qed

lemma utf8_decode_units_char:
  assumes "valid_cp c"
  shows "utf8_decode_units (utf8_units c @ bs) = res_bind (utf8_decode_units bs) (\<lambda>t. Inr (c # t))"
proof -
  obtain w x y z where dig: "cp_digits c w x y z" using cp_digits_exist by blast
  then have c: "c = w * 262144 + x * 4096 + y * 64 + z" and lt: "x < 64" "y < 64" "z < 64"
    by (auto simp: cp_digits_def)
  have cont: "is_cont (128 + k)" if "k < 64" for k using that by (simp add: is_cont_def)
  note conts = cont [OF lt(1)] cont [OF lt(2)] cont [OF lt(3)]
  consider "c < 0x80" | "0x80 \<le> c" "c < 0x800" | "0x800 \<le> c" "c < 0x10000" | "0x10000 \<le> c"
    by linarith
  then show ?thesis
  proof cases
    case 1
    then show ?thesis by (simp add: utf8_units_def)
  next
    case 2
    then have "w = 0" "x = 0" using c lt by linarith+
    then have c': "c = y * 64 + z" using c by simp
    then have "2 \<le> y" "y < 32" using 2 lt by presburger+
    then show ?thesis
      using 2 conts unfolding utf8_units_digits [OF dig] by (simp add: c')
  next
    case 3
    then have "w = 0" "x < 16" using c lt by linarith+
    then have c': "c = x * 4096 + y * 64 + z" using c by simp
    then show ?thesis
      using 3 \<open>x < 16\<close> assms conts unfolding utf8_units_digits [OF dig] by (simp add: c' Let_def)
  next
    case 4
    then have "w < 5" using c assms by (simp add: valid_cp_def)
    then show ?thesis
      using 4 assms conts unfolding utf8_units_digits [OF dig] by (simp add: c Let_def)
  qed
qed

lemma utf8_decode_units_concat:
  "list_all valid_cp t \<Longrightarrow> utf8_decode_units (concat (map utf8_units t)) = Inr t"
  by (induction t) (simp_all add: utf8_decode_units_char)

lemma map_unat_of_nat: "(\<And>u. u \<in> set us \<Longrightarrow> u < 256) \<Longrightarrow> map unat (map (of_nat :: nat \<Rightarrow> byte) us) = us"
  by (induction us) (auto simp: unat_of_nat)

lemma utf8_decode_encode: "utf8_encode t = Inr bs \<Longrightarrow> utf8_decode bs = Inr t"
proof -
  assume "utf8_encode t = Inr bs"
  then have valid: "list_all valid_cp t" and bs: "bs = map of_nat (concat (map utf8_units t))"
    by (auto simp: utf8_encode_def split: if_splits)
  have "map unat bs = concat (map utf8_units t)"
    unfolding bs using valid
    by (intro map_unat_of_nat) (auto simp: list_all_iff dest: utf8_units_less)
  then show ?thesis using valid by (simp add: utf8_decode_def utf8_decode_units_concat)
qed

lemma utf8_encode_total: "list_all valid_cp t \<Longrightarrow> \<exists>bs. utf8_encode t = Inr bs"
  by (simp add: utf8_encode_def)

lemma utf8_encode_Nil [simp]: "utf8_encode [] = Inr []"
  by (simp add: utf8_encode_def)

section \<open>Encoding preserves the order of strings\<close>

lemma append_less_append:
  "length us = length vs \<Longrightarrow> us < vs \<Longrightarrow> us @ xs < vs @ (ys :: 'a :: order list)"
  by (induction us vs rule: list_induct2) auto

lemma utf8_units_less_append:
  assumes "c < d"
  shows "utf8_units c @ xs < utf8_units d @ ys"
proof -
  obtain w x y z where dc: "cp_digits c w x y z" using cp_digits_exist by blast
  obtain w' x' y' z' where dd: "cp_digits d w' x' y' z'" using cp_digits_exist by blast
  have c: "c = w * 262144 + x * 4096 + y * 64 + z" "x < 64" "y < 64" "z < 64"
    and d: "d = w' * 262144 + x' * 4096 + y' * 64 + z'" "x' < 64" "y' < 64" "z' < 64"
    using dc dd by (auto simp: cp_digits_def)
  have lex: "w < w' \<or> w = w' \<and> (x < x' \<or> x = x' \<and> (y < y' \<or> y = y' \<and> z < z'))"
    using assms c d by linarith
  have small: "c < 0x800 \<Longrightarrow> x = 0 \<and> w = 0 \<and> y < 32" "c < 0x10000 \<Longrightarrow> w = 0 \<and> x < 16"
    using c by linarith+
  have small': "d < 0x800 \<Longrightarrow> x' = 0 \<and> w' = 0 \<and> y' < 32" "d < 0x10000 \<Longrightarrow> w' = 0 \<and> x' < 16"
    using d by linarith+
  have hd: "utf8_units c = [c] \<or> 0x80 \<le> c" by (simp add: utf8_units_def)
  show ?thesis
    unfolding utf8_units_digits [OF dc] utf8_units_digits [OF dd]
    using lex assms small small' by (simp split: if_splits) linarith
qed

lemma list_le_prefix: "xs \<noteq> [] \<Longrightarrow> [] < (xs :: 'a :: order list)"
  by (cases xs) auto

lemma utf8_units_nonempty [simp]: "utf8_units c \<noteq> []"
  by (simp add: utf8_units_def)

lemma concat_utf8_units_less:
  "t < u \<Longrightarrow> list_all valid_cp t \<Longrightarrow> list_all valid_cp u \<Longrightarrow>
     concat (map utf8_units t) < concat (map utf8_units u)"
proof (induction t arbitrary: u)
  case Nil
  then show ?case by (cases u) (auto intro: list_le_prefix)
next
  case (Cons c t)
  then obtain d v where u: "u = d # v" by (cases u) auto
  show ?case
  proof (cases "c = d")
    case True
    have "x < y \<Longrightarrow> zs @ x < zs @ (y :: nat list)" for x y zs by (induction zs) auto
    then show ?thesis using Cons u True by auto
  next
    case False
    then have "c < d" using Cons.prems(1) u by auto
    then show ?thesis using u by (simp add: utf8_units_less_append)
  qed
qed

lemma map_of_nat_less:
  "us < vs \<Longrightarrow> (\<And>u. u \<in> set us \<Longrightarrow> u < 256) \<Longrightarrow> (\<And>v. v \<in> set vs \<Longrightarrow> v < 256) \<Longrightarrow>
     map (of_nat :: nat \<Rightarrow> byte) us < map of_nat vs"
proof (induction us arbitrary: vs)
  case Nil
  then show ?case by (cases vs) auto
next
  case (Cons u us)
  then obtain v vs' where vs: "vs = v # vs'" by (cases vs) auto
  have "(of_nat u :: byte) < of_nat v" if "u < v"
    using that Cons.prems(3) [of v] by (simp add: vs word_less_nat_alt unat_of_nat)
  then show ?case using Cons vs by auto
qed

lemma utf8_encode_less:
  assumes "utf8_encode t = Inr a" and "utf8_encode u = Inr b" and "t < u"
  shows "a < b"
proof -
  have v: "list_all valid_cp t" "list_all valid_cp u"
    and a: "a = map of_nat (concat (map utf8_units t))"
    and b: "b = map of_nat (concat (map utf8_units u))"
    using assms by (auto simp: utf8_encode_def split: if_splits)
  show ?thesis
    unfolding a b
    by (rule map_of_nat_less)
      (use v assms(3) in \<open>auto simp: list_all_iff intro: concat_utf8_units_less dest: utf8_units_less\<close>)
qed

end
