(* ===== verification/Catalog_Model.thy ===== *)
theory Catalog_Model
  imports Values
begin

text \<open>
  \<open>catalog/model.py\<close>: columns, schemas, table and index metadata, and their catalog
  documents. Unicode case folding (\<open>str.casefold\<close>) is a parameter: name uniqueness is
  modulo whatever folding the Unicode tables prescribe. Shows the well-formedness that every
  created schema has, that row validation accepts exactly the rows of the schema's types and
  returns them unchanged, and that documents read back to the metadata they were written from.
\<close>

section \<open>Documents\<close>

text \<open>The JSON-shaped objects the catalog is serialised through.\<close>

datatype json =
    JNull | JBool bool | JInt int | JStr pystr | JList "json list" | JDict "(pystr \<times> json) list"

definition lit :: "string \<Rightarrow> pystr" where
  "lit s = map of_char s"

text \<open>\<open>document[key]\<close>, raising \<open>KeyError\<close>.\<close>

definition json_get :: "(pystr \<times> json) list \<Rightarrow> string \<Rightarrow> json result" where
  "json_get d key = (case map_of d (lit key) of None \<Rightarrow> Inl PyKeyError | Some v \<Rightarrow> Inr v)"

fun required_str :: "json \<Rightarrow> pystr result" where
  "required_str (JStr s) = Inr s"
| "required_str _ = Inl CatalogError"

text \<open>\<open>type(value) is int\<close>: a JSON boolean is not an integer.\<close>

fun required_int :: "json \<Rightarrow> int result" where
  "required_int (JInt i) = Inr i"
| "required_int _ = Inl CatalogError"

fun required_bool :: "json \<Rightarrow> bool result" where
  "required_bool (JBool b) = Inr b"
| "required_bool _ = Inl CatalogError"

text \<open>\<open>except (CatalogError, KeyError, ValueError): raise CatalogError\<close>\<close>

definition catalog_errors :: "'a result \<Rightarrow> 'a result" where
  "catalog_errors m = res_rethrow PyKeyError CatalogError (res_rethrow PyValueError CatalogError m)"

fun data_type_value :: "data_type \<Rightarrow> pystr" where
  "data_type_value INT64 = lit ''int64''"
| "data_type_value FLOAT64 = lit ''float64''"
| "data_type_value BOOLEAN = lit ''boolean''"
| "data_type_value TEXT = lit ''text''"

text \<open>The enum constructor \<open>DataType(value)\<close>.\<close>

definition data_type_of_value :: "pystr \<Rightarrow> data_type result" where
  "data_type_of_value v =
     (if v = lit ''int64'' then Inr INT64
      else if v = lit ''float64'' then Inr FLOAT64
      else if v = lit ''boolean'' then Inr BOOLEAN
      else if v = lit ''text'' then Inr TEXT
      else Inl PyValueError)"

section \<open>Columns\<close>

record column =
  col_name :: pystr
  col_data_type :: data_type
  col_nullable :: bool
  col_primary_key :: bool
  col_unique :: bool
  col_column_id :: int

text \<open>The dataclass constructor, with the checks and defaults of \<open>__post_init__\<close>.\<close>

definition column_post_init :: "column \<Rightarrow> column result" where
  "column_post_init c =
     (if col_name c = [] \<or> 0 \<in> set (col_name c) then Inl CatalogError
      else if col_column_id c < -1 then Inl CatalogError
      else if col_primary_key c then Inr (c\<lparr>col_nullable := False, col_unique := True\<rparr>)
      else Inr c)"

definition column_with_id :: "column \<Rightarrow> int \<Rightarrow> column result" where
  "column_with_id c column_id =
     (if column_id < 0 then Inl CatalogError
      else column_post_init (c\<lparr>col_column_id := column_id\<rparr>))"

definition column_to_document :: "column \<Rightarrow> json" where
  "column_to_document c = JDict
     [(lit ''column_id'', JInt (col_column_id c)),
      (lit ''data_type'', JStr (data_type_value (col_data_type c))),
      (lit ''name'', JStr (col_name c)),
      (lit ''nullable'', JBool (col_nullable c)),
      (lit ''primary_key'', JBool (col_primary_key c)),
      (lit ''unique'', JBool (col_unique c))]"

definition column_from_document :: "(pystr \<times> json) list \<Rightarrow> column result" where
  "column_from_document d = catalog_errors
     (res_bind (res_bind (json_get d ''name'') required_str) (\<lambda>name.
      res_bind (res_bind (res_bind (json_get d ''data_type'') required_str) data_type_of_value) (\<lambda>dt.
      res_bind (res_bind (json_get d ''nullable'') required_bool) (\<lambda>nullable.
      res_bind (res_bind (json_get d ''primary_key'') required_bool) (\<lambda>primary_key.
      res_bind (res_bind (json_get d ''unique'') required_bool) (\<lambda>unique.
      res_bind (res_bind (json_get d ''column_id'') required_int) (\<lambda>column_id.
      column_post_init \<lparr>col_name = name, col_data_type = dt, col_nullable = nullable,
        col_primary_key = primary_key, col_unique = unique, col_column_id = column_id\<rparr>)))))))"

section \<open>Schemas\<close>

record schema =
  columns :: "column list"

text \<open>The loop of \<open>Schema.create\<close>: reject a repeated folded name, assign the position.\<close>

fun assign_columns :: "(pystr \<Rightarrow> pystr) \<Rightarrow> pystr list \<Rightarrow> nat \<Rightarrow> column list \<Rightarrow> column list result" where
  "assign_columns casefold seen k [] = Inr []"
| "assign_columns casefold seen k (c # cs) =
     (if casefold (col_name c) \<in> set seen then Inl CatalogError
      else res_bind (column_with_id c (int k)) (\<lambda>c'.
           res_bind (assign_columns casefold (casefold (col_name c) # seen) (Suc k) cs) (\<lambda>cs'.
           Inr (c' # cs'))))"

definition schema_create :: "(pystr \<Rightarrow> pystr) \<Rightarrow> column list \<Rightarrow> schema result" where
  "schema_create casefold cols =
     (if cols = [] then Inl CatalogError
      else res_bind (assign_columns casefold [] 0 cols) (\<lambda>assigned.
        if 1 < length (filter col_primary_key assigned) then Inl CatalogError
        else Inr \<lparr>columns = assigned\<rparr>))"

text \<open>\<open>Schema.column\<close> with an integer argument, and with a name.\<close>

definition schema_column_by_id :: "schema \<Rightarrow> int \<Rightarrow> column result" where
  "schema_column_by_id s i =
     (if 0 \<le> i \<and> i < int (length (columns s)) then Inr (columns s ! nat i) else Inl CatalogError)"

definition schema_column_by_name :: "(pystr \<Rightarrow> pystr) \<Rightarrow> schema \<Rightarrow> pystr \<Rightarrow> column result" where
  "schema_column_by_name casefold s name =
     (case find (\<lambda>c. casefold (col_name c) = casefold name) (columns s) of
        None \<Rightarrow> Inl CatalogError | Some c \<Rightarrow> Inr c)"

definition validate_row :: "schema \<Rightarrow> scalar list \<Rightarrow> scalar list result" where
  "validate_row s values =
     (if length values \<noteq> length (columns s) then Inl CatalogError
      else res_mapM (\<lambda>(c, v). res_rethrow TypeMismatch CatalogError
                        (validate_scalar v (col_data_type c) (col_nullable c)))
             (zip (columns s) values))"

definition schema_to_document :: "schema \<Rightarrow> json" where
  "schema_to_document s = JList (map column_to_document (columns s))"

fun column_of_item :: "json \<Rightarrow> column result" where
  "column_of_item (JDict d) = column_from_document d"
| "column_of_item _ = Inl CatalogError"

fun schema_from_document :: "(pystr \<Rightarrow> pystr) \<Rightarrow> json \<Rightarrow> schema result" where
  "schema_from_document casefold (JList items) =
     res_bind (res_mapM column_of_item items) (\<lambda>cols.
     res_bind (schema_create casefold cols) (\<lambda>s.
     if columns s \<noteq> cols then Inl CatalogError else Inr s))"
| "schema_from_document casefold _ = Inl CatalogError"

section \<open>Table and index metadata\<close>

record table_metadata =
  tm_table_id :: int
  tm_name :: pystr
  tm_schema :: schema

definition table_to_document :: "table_metadata \<Rightarrow> json" where
  "table_to_document t = JDict
     [(lit ''name'', JStr (tm_name t)),
      (lit ''schema'', schema_to_document (tm_schema t)),
      (lit ''table_id'', JInt (tm_table_id t))]"

definition table_from_document :: "(pystr \<Rightarrow> pystr) \<Rightarrow> (pystr \<times> json) list \<Rightarrow> table_metadata result" where
  "table_from_document casefold d =
     res_bind (res_rethrow PyKeyError CatalogError
       (res_bind (res_bind (json_get d ''table_id'') required_int) (\<lambda>table_id.
        res_bind (res_bind (json_get d ''name'') required_str) (\<lambda>name.
        res_bind (json_get d ''schema'') (\<lambda>doc. Inr (table_id, name, doc)))))) (\<lambda>(table_id, name, doc).
     if table_id \<le> 0 \<or> name = [] then Inl CatalogError
     else res_bind (schema_from_document casefold doc) (\<lambda>s.
       Inr \<lparr>tm_table_id = table_id, tm_name = name, tm_schema = s\<rparr>))"

record index_metadata =
  im_index_id :: int
  im_table_id :: int
  im_name :: pystr
  im_column_ids :: "int list"
  im_unique :: bool

definition index_to_document :: "index_metadata \<Rightarrow> json" where
  "index_to_document m = JDict
     [(lit ''column_ids'', JList (map JInt (im_column_ids m))),
      (lit ''index_id'', JInt (im_index_id m)),
      (lit ''name'', JStr (im_name m)),
      (lit ''table_id'', JInt (im_table_id m)),
      (lit ''unique'', JBool (im_unique m))]"

fun json_list :: "json \<Rightarrow> json list result" where
  "json_list (JList xs) = Inr xs"
| "json_list _ = Inl CatalogError"

definition index_from_document :: "(pystr \<times> json) list \<Rightarrow> index_metadata result" where
  "index_from_document d =
     res_bind (res_rethrow PyKeyError CatalogError
       (res_bind (res_bind (json_get d ''column_ids'') json_list) (\<lambda>raw.
        res_bind (res_bind (json_get d ''index_id'') required_int) (\<lambda>index_id.
        res_bind (res_bind (json_get d ''table_id'') required_int) (\<lambda>table_id.
        res_bind (res_bind (json_get d ''name'') required_str) (\<lambda>name.
        res_bind (res_mapM required_int raw) (\<lambda>column_ids.
        res_bind (res_bind (json_get d ''unique'') required_bool) (\<lambda>unique.
        Inr \<lparr>im_index_id = index_id, im_table_id = table_id, im_name = name,
             im_column_ids = column_ids, im_unique = unique\<rparr>))))))))
     (\<lambda>m. if im_index_id m \<le> 0 \<or> im_table_id m \<le> 0 \<or> im_name m = [] then Inl CatalogError else Inr m)"

section \<open>Created schemas are well formed\<close>

definition wf_column :: "column \<Rightarrow> bool" where
  "wf_column c \<longleftrightarrow> col_name c \<noteq> [] \<and> 0 \<notin> set (col_name c)
     \<and> (col_primary_key c \<longrightarrow> \<not> col_nullable c \<and> col_unique c)"

definition wf_schema :: "(pystr \<Rightarrow> pystr) \<Rightarrow> schema \<Rightarrow> bool" where
  "wf_schema casefold s \<longleftrightarrow>
     columns s \<noteq> [] \<and> list_all wf_column (columns s)
     \<and> map col_column_id (columns s) = map int [0..<length (columns s)]
     \<and> distinct (map (casefold \<circ> col_name) (columns s))
     \<and> length (filter col_primary_key (columns s)) \<le> 1"

lemma column_post_init_wf: "column_post_init c = Inr c' \<Longrightarrow> wf_column c'"
  by (auto simp: column_post_init_def wf_column_def split: if_splits)

lemma column_post_init_id: "wf_column c \<Longrightarrow> -1 \<le> col_column_id c \<Longrightarrow> column_post_init c = Inr c"
  by (auto simp: column_post_init_def wf_column_def)

lemma column_with_id_Inr:
  assumes "column_with_id c (int k) = Inr c'"
  shows "wf_column c' \<and> col_column_id c' = int k \<and> col_name c' = col_name c"
proof -
  have p: "column_post_init (c\<lparr>col_column_id := int k\<rparr>) = Inr c'"
    using assms by (simp add: column_with_id_def)
  then show ?thesis
    using column_post_init_wf [OF p] by (auto simp: column_post_init_def split: if_splits)
qed

lemma column_with_id_self:
  "wf_column c \<Longrightarrow> col_column_id c = int k \<Longrightarrow> column_with_id c (int k) = Inr c"
proof -
  assume wf: "wf_column c" and k: "col_column_id c = int k"
  have "c\<lparr>col_column_id := int k\<rparr> = c" using k by (cases c) simp
  moreover have "column_post_init c = Inr c" using wf k by (simp add: column_post_init_id)
  ultimately show ?thesis by (simp add: column_with_id_def)
qed

lemma assign_columns_Inr:
  "assign_columns casefold seen k cols = Inr out \<Longrightarrow>
     length out = length cols \<and> list_all wf_column out
     \<and> map col_column_id out = map int [k..<k + length cols]
     \<and> map col_name out = map col_name cols
     \<and> distinct (map (casefold \<circ> col_name) out)
     \<and> set (map (casefold \<circ> col_name) out) \<inter> set seen = {}"
proof (induction cols arbitrary: seen k out)
  case Nil
  then show ?case by simp
next
  case (Cons c cs)
  then obtain c' cs' where c': "column_with_id c (int k) = Inr c'"
    and cs': "assign_columns casefold (casefold (col_name c) # seen) (Suc k) cs = Inr cs'"
    and out: "out = c' # cs'" and new: "casefold (col_name c) \<notin> set seen"
    by (auto simp: res_simps split: if_splits)
  have range: "[k..<k + length (c # cs)] = k # [Suc k..<Suc k + length cs]"
    by (simp add: upt_rec)
  show ?case
    using Cons.IH [OF cs'] column_with_id_Inr [OF c'] new unfolding out range by auto
qed

lemma schema_create_wf:
  assumes "schema_create casefold cols = Inr s"
  shows "wf_schema casefold s \<and> map col_name (columns s) = map col_name cols"
proof -
  obtain out where a: "assign_columns casefold [] 0 cols = Inr out" and s: "s = \<lparr>columns = out\<rparr>"
    and pk: "length (filter col_primary_key out) \<le> 1" and ne: "cols \<noteq> []"
    using assms by (auto simp: schema_create_def res_simps split: if_splits)
  show ?thesis
    using assign_columns_Inr [OF a] pk ne unfolding s wf_schema_def by auto
qed

lemma assign_columns_self:
  "list_all wf_column cols \<Longrightarrow> map col_column_id cols = map int [k..<k + length cols] \<Longrightarrow>
     distinct (map (casefold \<circ> col_name) cols) \<Longrightarrow>
     set (map (casefold \<circ> col_name) cols) \<inter> set seen = {} \<Longrightarrow>
     assign_columns casefold seen k cols = Inr cols"
proof (induction cols arbitrary: seen k)
  case Nil
  then show ?case by simp
next
  case (Cons c cs)
  have range: "[k..<k + length (c # cs)] = k # [Suc k..<Suc k + length cs]"
    by (simp add: upt_rec)
  have "column_with_id c (int k) = Inr c"
    using Cons.prems(1,2) unfolding range by (intro column_with_id_self) auto
  moreover have "assign_columns casefold (casefold (col_name c) # seen) (Suc k) cs = Inr cs"
    using Cons.prems unfolding range by (intro Cons.IH) auto
  ultimately show ?case using Cons.prems(4) by auto
qed

lemma schema_create_self:
  "wf_schema casefold s \<Longrightarrow> schema_create casefold (columns s) = Inr s"
  using assign_columns_self [of "columns s" 0 casefold "[]"]
  by (auto simp: wf_schema_def schema_create_def)

section \<open>Documents read back\<close>

lemma lit_eq_iff [simp]: "lit a = lit b \<longleftrightarrow> a = b"
proof -
  have "inj (of_char :: char \<Rightarrow> nat)" by (rule inj_of_char)
  then show ?thesis by (simp add: lit_def inj_map_eq_map)
qed

lemma data_type_of_value_value [simp]: "data_type_of_value (data_type_value t) = Inr t"
  by (cases t) (simp_all add: data_type_of_value_def)

lemma catalog_errors_Inr [simp]: "catalog_errors (Inr x) = Inr x"
  by (simp add: catalog_errors_def)

lemma column_document_roundtrip:
  assumes "wf_column c" and "-1 \<le> col_column_id c"
  shows "column_of_item (column_to_document c) = Inr c"
proof -
  have "column_of_item (column_to_document c) = catalog_errors (column_post_init c)"
    by (cases c) (simp add: column_to_document_def column_from_document_def json_get_def)
  then show ?thesis using column_post_init_id [OF assms] by simp
qed

lemma schema_document_inverse:
  assumes "schema_create casefold cols = Inr s"
  shows "schema_from_document casefold (schema_to_document s) = Inr s"
proof -
  have wf: "wf_schema casefold s" using schema_create_wf [OF assms] by simp
  have "-1 \<le> col_column_id c" if "c \<in> set (columns s)" for c
  proof -
    have "col_column_id c \<in> set (map int [0..<length (columns s)])"
      using wf that unfolding wf_schema_def by (metis imageI list.set_map)
    then show ?thesis by auto
  qed
  then have "res_mapM column_of_item (map column_to_document (columns s)) = Inr (columns s)"
    using wf res_mapM_Inr_map [of "map column_to_document (columns s)" column_of_item]
    by (auto simp: wf_schema_def list_all_iff res_mapM_Inr_iff intro!: column_document_roundtrip)
  then show ?thesis
    using schema_create_self [OF wf] by (simp add: schema_to_document_def)
qed

text \<open>
  A schema the catalog accepted is read back from its document unchanged, whatever
  the case folding, and every accepted schema is well formed: contiguous column ids, distinct
  folded names, at most one primary key, primary keys unique and not nullable.
\<close>

lemma schema_document_roundtrip:
  assumes "schema_create casefold cols = Inr s"
  shows "schema_from_document casefold (schema_to_document s) = Inr s
     \<and> wf_schema casefold s \<and> map col_name (columns s) = map col_name cols"
  using schema_document_inverse [OF assms] schema_create_wf [OF assms] by simp

section \<open>Row validation\<close>

definition conforms :: "column \<Rightarrow> scalar \<Rightarrow> bool" where
  "conforms c v \<longleftrightarrow>
     (case infer_type v of
        None \<Rightarrow> col_nullable c
      | Some t \<Rightarrow> t = col_data_type c \<and> (\<forall>i. v = ScInt i \<longrightarrow> in_int64 i))"

definition row_conforms :: "schema \<Rightarrow> scalar list \<Rightarrow> bool" where
  "row_conforms s vs \<longleftrightarrow> list_all2 conforms (columns s) vs"

lemma validate_scalar_cases:
  "validate_scalar v (col_data_type c) (col_nullable c) =
     (if conforms c v then Inr v
      else if (\<exists>i. v = ScInt i) \<and> col_data_type c = INT64 then Inl NumericOverflow
      else Inl TypeMismatch)"
  by (cases v) (auto simp: validate_scalar_def conforms_def in_int64_def)

lemma validate_scalar_Inr_iff:
  "validate_scalar v (col_data_type c) (col_nullable c) = Inr w \<longleftrightarrow> conforms c v \<and> w = v"
  by (auto simp: validate_scalar_cases)

lemma validate_row_cases:
  "validate_row s vs = (if row_conforms s vs then Inr vs else Inl CatalogError)
   \<or> (\<not> row_conforms s vs \<and> validate_row s vs = Inl NumericOverflow
      \<and> (\<exists>i. ScInt i \<in> set vs \<and> \<not> in_int64 i))"
proof (cases "length vs = length (columns s)")
  case False
  then show ?thesis
    by (auto simp: validate_row_def row_conforms_def dest: list_all2_lengthD)
next
  case True
  define f where "f = (\<lambda>(c :: column, v). res_rethrow TypeMismatch CatalogError
                        (validate_scalar v (col_data_type c) (col_nullable c)))"
  have "res_mapM f (zip cs ws) = (if list_all2 conforms cs ws then Inr ws else Inl CatalogError)
     \<or> (\<not> list_all2 conforms cs ws \<and> res_mapM f (zip cs ws) = Inl NumericOverflow
        \<and> (\<exists>i. ScInt i \<in> set ws \<and> \<not> in_int64 i))" if "length ws = length cs" for cs :: "column list" and ws
    using that
  proof (induction cs ws rule: list_induct2')
    case (4 c cs w ws)
    have fw: "f (c, w) = Inr w \<and> conforms c w \<or> f (c, w) = Inl CatalogError \<and> \<not> conforms c w
        \<or> f (c, w) = Inl NumericOverflow \<and> \<not> conforms c w \<and> (\<exists>i. w = ScInt i \<and> \<not> in_int64 i)"
      by (auto simp: f_def validate_scalar_cases conforms_def)
    show ?case using fw 4 by auto
  qed auto
  then show ?thesis using True by (simp add: validate_row_def row_conforms_def f_def)
qed

lemma validate_row_Inr_iff: "validate_row s vs = Inr ws \<longleftrightarrow> row_conforms s vs \<and> ws = vs"
  using validate_row_cases [of s vs] by (auto split: if_splits)

text \<open>
  Row validation accepts exactly the rows whose values have the columns' types,
  integers within signed 64 bits and NULL only in nullable columns; it returns an accepted row
  unchanged and otherwise raises a catalog error or, for an integer out of range, a numeric
  overflow.
\<close>

lemma validate_row_spec:
  "if row_conforms s vs then validate_row s vs = Inr vs
   else validate_row s vs = Inl CatalogError
     \<or> validate_row s vs = Inl NumericOverflow \<and> (\<exists>i. ScInt i \<in> set vs \<and> \<not> in_int64 i)"
  using validate_row_cases [of s vs] by auto

end
