(* ===== verification/Page.thy ===== *)
theory Page
  imports Values
begin

text \<open>
  \<open>storage/constants.py\<close>, \<open>storage/identifiers.py\<close> and \<open>storage/page.py\<close>: physical
  identities and the checksummed fixed-size page envelope. Shows that a page decodes to what
  was encoded, that it is refused at any other address, and that whatever decodes is
  internally consistent.
\<close>

section \<open>Identities\<close>

definition PAGE_SIZE :: nat where "PAGE_SIZE = 8192"
definition PAGE_MAGIC :: bytes where "PAGE_MAGIC = ascii ''MPG1''"
definition PAGE_FORMAT_VERSION :: nat where "PAGE_FORMAT_VERSION = 1"
definition PAGE_HEADER_SIZE :: nat where "PAGE_HEADER_SIZE = 44"
definition PAGE_BODY_SIZE :: nat where "PAGE_BODY_SIZE = PAGE_SIZE - PAGE_HEADER_SIZE"

datatype page_kind = KindHEAP | KindBTREE_META | KindBTREE_INTERNAL | KindBTREE_LEAF

fun page_kind_value :: "page_kind \<Rightarrow> nat" where
  "page_kind_value KindHEAP = 1"
| "page_kind_value KindBTREE_META = 2"
| "page_kind_value KindBTREE_INTERNAL = 3"
| "page_kind_value KindBTREE_LEAF = 4"

text \<open>The enum constructors \<open>PageKind(value)\<close> and \<open>ForkKind(value)\<close>.\<close>

definition page_kind_of_value :: "nat \<Rightarrow> page_kind result" where
  "page_kind_of_value v =
     (if v = 1 then Inr KindHEAP else if v = 2 then Inr KindBTREE_META
      else if v = 3 then Inr KindBTREE_INTERNAL else if v = 4 then Inr KindBTREE_LEAF
      else Inl PyValueError)"

datatype fork_kind = ForkHEAP | ForkBTREE

fun fork_kind_value :: "fork_kind \<Rightarrow> nat" where
  "fork_kind_value ForkHEAP = 1"
| "fork_kind_value ForkBTREE = 2"

definition fork_kind_of_value :: "nat \<Rightarrow> fork_kind result" where
  "fork_kind_of_value v =
     (if v = 1 then Inr ForkHEAP else if v = 2 then Inr ForkBTREE else Inl PyValueError)"

datatype relation_id = RelationId (rel_fork: fork_kind) (rel_object_id: nat)

datatype page_key = PageKey (key_relation: relation_id) (key_page_id: nat)

text \<open>The validating constructors.\<close>

definition validate_uint64 :: "nat \<Rightarrow> unit result" where
  "validate_uint64 v = res_require (v < 2 ^ 64) PyValueError"

definition mk_relation_id :: "fork_kind \<Rightarrow> nat \<Rightarrow> relation_id result" where
  "mk_relation_id fork object_id =
     res_bind (validate_uint64 object_id) (\<lambda>_. Inr (RelationId fork object_id))"

definition mk_page_key :: "relation_id \<Rightarrow> nat \<Rightarrow> page_key result" where
  "mk_page_key relation pid = res_bind (validate_uint64 pid) (\<lambda>_. Inr (PageKey relation pid))"

text \<open>The module's factories, which construct and so validate the identities.\<close>

definition mk_heap_relation :: "nat \<Rightarrow> relation_id result" where
  "mk_heap_relation tab = mk_relation_id ForkHEAP tab"

definition mk_btree_relation :: "nat \<Rightarrow> relation_id result" where
  "mk_btree_relation idx = mk_relation_id ForkBTREE idx"

definition mk_heap_page_key :: "nat \<Rightarrow> nat \<Rightarrow> page_key result" where
  "mk_heap_page_key tab pid = res_bind (mk_heap_relation tab) (\<lambda>r. mk_page_key r pid)"

definition mk_btree_page_key :: "nat \<Rightarrow> nat \<Rightarrow> page_key result" where
  "mk_btree_page_key idx pid = res_bind (mk_btree_relation idx) (\<lambda>r. mk_page_key r pid)"

text \<open>
  The identities the factories build. The components name the identities of relations and pages
  that exist by these values; the factories return them exactly when the numbers fit in 64 bits.
\<close>

definition heap_relation :: "nat \<Rightarrow> relation_id" where
  "heap_relation tab = RelationId ForkHEAP tab"

definition btree_relation :: "nat \<Rightarrow> relation_id" where
  "btree_relation idx = RelationId ForkBTREE idx"

definition heap_page_key :: "nat \<Rightarrow> nat \<Rightarrow> page_key" where
  "heap_page_key tab pid = PageKey (heap_relation tab) pid"

definition btree_page_key :: "nat \<Rightarrow> nat \<Rightarrow> page_key" where
  "btree_page_key idx pid = PageKey (btree_relation idx) pid"

text \<open>What the constructors guarantee of every key in the program.\<close>

definition valid_page_key :: "page_key \<Rightarrow> bool" where
  "valid_page_key k \<longleftrightarrow> rel_object_id (key_relation k) < 2 ^ 64 \<and> key_page_id k < 2 ^ 64"

lemma mk_heap_page_key_eq:
  "mk_heap_page_key tab pid =
     (if valid_page_key (heap_page_key tab pid) then Inr (heap_page_key tab pid) else Inl PyValueError)"
  by (auto simp: res_require_def mk_heap_page_key_def mk_heap_relation_def mk_relation_id_def mk_page_key_def validate_uint64_def
      valid_page_key_def heap_page_key_def heap_relation_def)

lemma mk_btree_page_key_eq:
  "mk_btree_page_key idx pid =
     (if valid_page_key (btree_page_key idx pid) then Inr (btree_page_key idx pid) else Inl PyValueError)"
  by (auto simp: res_require_def mk_btree_page_key_def mk_btree_relation_def mk_relation_id_def mk_page_key_def validate_uint64_def
      valid_page_key_def btree_page_key_def btree_relation_def)

section \<open>The page codec\<close>

record decoded_page =
  dp_key :: page_key
  dp_kind :: page_kind
  dp_lsn :: nat
  dp_lower :: nat
  dp_upper :: nat
  dp_special :: nat
  dp_body :: bytes

definition CHECKSUM_OFFSET :: nat where "CHECKSUM_OFFSET = PAGE_HEADER_SIZE - 4"
definition MAX_BODY_SIZE :: nat where "MAX_BODY_SIZE = PAGE_SIZE - PAGE_HEADER_SIZE"

definition checked_lsn :: "nat \<Rightarrow> unit result" where
  "checked_lsn lsn = res_require (lsn < 2 ^ 64) PyValueError"

definition page_bytes_with_checksum_zeroed :: "bytes \<Rightarrow> bytes" where
  "page_bytes_with_checksum_zeroed encoded = py_splice encoded CHECKSUM_OFFSET (replicate 4 0)"

text \<open>The header fields in the order of the format string \<open>>4sBBBBQQQHHHHI\<close>, magic apart.\<close>

definition page_header_fields :: "page_key \<Rightarrow> page_kind \<Rightarrow> nat \<Rightarrow> nat \<Rightarrow> nat \<Rightarrow> nat \<Rightarrow> (nat \<times> nat) list" where
  "page_header_fields key kind lsn lower upper special =
     [(1, PAGE_FORMAT_VERSION), (1, page_kind_value kind),
      (1, fork_kind_value (rel_fork (key_relation key))), (1, 0),
      (8, rel_object_id (key_relation key)), (8, key_page_id key), (8, lsn),
      (2, lower), (2, upper), (2, special), (2, 0), (4, 0)]"

definition encode_page :: "page_key \<Rightarrow> page_kind \<Rightarrow> nat \<Rightarrow> bytes \<Rightarrow> bytes result" where
  "encode_page key kind lsn body =
     res_bind (checked_lsn lsn) (\<lambda>_.
     if MAX_BODY_SIZE < length body then Inl RowTooLarge
     else
       let lower = PAGE_HEADER_SIZE; upper = lower + length body; special = PAGE_SIZE
       in res_bind (pack_fields (page_header_fields key kind lsn lower upper special)) (\<lambda>fields.
          let header = PAGE_MAGIC @ fields;
              encoded = header @ body @ replicate (PAGE_SIZE - length header - length body) 0;
              checksum = crc32 encoded
          in Inr (py_splice encoded CHECKSUM_OFFSET (to_be 4 checksum))))"

definition decode_page :: "page_key \<Rightarrow> bytes \<Rightarrow> decoded_page result" where
  "decode_page expected_key encoded =
     (if length encoded \<noteq> PAGE_SIZE then Inl CorruptPage
      else
        let magic = py_slice encoded 0 4; version = uint_at encoded 4 1;
            kind_value = uint_at encoded 5 1; fork_value = uint_at encoded 6 1;
            flags = uint_at encoded 7 1; object_id = uint_at encoded 8 8;
            page_number = uint_at encoded 16 8; page_lsn = uint_at encoded 24 8;
            lower = uint_at encoded 32 2; upper = uint_at encoded 34 2;
            special = uint_at encoded 36 2; reserved = uint_at encoded 38 2;
            stored_checksum = uint_at encoded 40 4
        in if magic \<noteq> PAGE_MAGIC then Inl CorruptPage
           else if version \<noteq> PAGE_FORMAT_VERSION then Inl CorruptPage
           else
             res_bind (res_rethrow PyValueError CorruptPage (page_kind_of_value kind_value)) (\<lambda>kind.
             res_bind (res_rethrow PyValueError CorruptPage (fork_kind_of_value fork_value)) (\<lambda>fork.
             if flags \<noteq> 0 \<or> reserved \<noteq> 0 then Inl CorruptPage
             else if fork \<noteq> rel_fork (key_relation expected_key)
                   \<or> object_id \<noteq> rel_object_id (key_relation expected_key)
                   \<or> page_number \<noteq> key_page_id expected_key then Inl CorruptPage
             else if \<not> (PAGE_HEADER_SIZE \<le> lower \<and> lower \<le> upper \<and> upper \<le> special \<and> special \<le> PAGE_SIZE)
                  then Inl CorruptPage
             else if stored_checksum \<noteq> crc32 (page_bytes_with_checksum_zeroed encoded)
                  then Inl CorruptPage
             else Inr \<lparr>dp_key = expected_key, dp_kind = kind, dp_lsn = page_lsn, dp_lower = lower,
                       dp_upper = upper, dp_special = special,
                       dp_body = py_slice encoded PAGE_HEADER_SIZE upper\<rparr>)))"

section \<open>Properties\<close>

lemmas page_sizes = PAGE_SIZE_def PAGE_HEADER_SIZE_def PAGE_BODY_SIZE_def MAX_BODY_SIZE_def
  CHECKSUM_OFFSET_def PAGE_FORMAT_VERSION_def

lemma length_PAGE_MAGIC [simp]: "length PAGE_MAGIC = 4"
  by (simp add: PAGE_MAGIC_def)

lemma page_kind_of_value_value [simp]: "page_kind_of_value (page_kind_value k) = Inr k"
  by (cases k) (simp_all add: page_kind_of_value_def)

lemma fork_kind_of_value_value [simp]: "fork_kind_of_value (fork_kind_value k) = Inr k"
  by (cases k) (simp_all add: fork_kind_of_value_def)

lemma page_kind_value_less: "page_kind_value k < 256"
  by (cases k) simp_all

lemma fork_kind_value_less: "fork_kind_value k < 256"
  by (cases k) simp_all

lemma page_key_eq_iff:
  "k = k' \<longleftrightarrow> rel_fork (key_relation k) = rel_fork (key_relation k')
     \<and> rel_object_id (key_relation k) = rel_object_id (key_relation k')
     \<and> key_page_id k = key_page_id k'"
  by (metis page_key.exhaust_sel relation_id.exhaust_sel)

text \<open>The encoded page before its checksum is written.\<close>

definition page_image :: "page_key \<Rightarrow> page_kind \<Rightarrow> nat \<Rightarrow> bytes \<Rightarrow> bytes" where
  "page_image key kind lsn body =
     PAGE_MAGIC @ fields_bytes (page_header_fields key kind lsn 44 (44 + length body) 8192)
     @ body @ replicate (8148 - length body) 0"

lemma length_page_header: "length (fields_bytes (page_header_fields key kind lsn a b c)) = 40"
  by (simp add: length_fields_bytes page_header_fields_def)

lemma length_page_image: "length body \<le> 8148 \<Longrightarrow> length (page_image key kind lsn body) = 8192"
  by (simp add: page_image_def length_page_header)

lemma page_header_fields_ok:
  assumes "valid_page_key key" and "lsn < 2 ^ 64" and "length body \<le> 8148"
  shows "fields_ok (page_header_fields key kind lsn 44 (44 + length body) 8192)"
  using assms
  by (simp add: fields_ok_def page_header_fields_def valid_page_key_def page_sizes
      page_kind_value_less fork_kind_value_less)

lemma page_image_fields:
  fixes key kind lsn body
  defines "img \<equiv> page_image key kind lsn body"
  assumes "valid_page_key key" and "lsn < 2 ^ 64" and "length body \<le> 8148"
  shows "uint_at img 4 1 = 1" "uint_at img 5 1 = page_kind_value kind"
    "uint_at img 6 1 = fork_kind_value (rel_fork (key_relation key))" "uint_at img 7 1 = 0"
    "uint_at img 8 8 = rel_object_id (key_relation key)" "uint_at img 16 8 = key_page_id key"
    "uint_at img 24 8 = lsn" "uint_at img 32 2 = 44" "uint_at img 34 2 = 44 + length body"
    "uint_at img 36 2 = 8192" "uint_at img 38 2 = 0" "uint_at img 40 4 = 0"
proof -
  let ?fs = "page_header_fields key kind lsn 44 (44 + length body) 8192"
  have at: "uint_at img (4 + sum_list (map fst (take i ?fs))) (fst (?fs ! i)) = snd (?fs ! i)"
    if "i < 12" for i
    using uint_at_fields [OF page_header_fields_ok [OF assms(2-4), of kind], of i PAGE_MAGIC] that
    by (simp add: img_def page_image_def page_header_fields_def)
  show "uint_at img 4 1 = 1" "uint_at img 5 1 = page_kind_value kind"
    "uint_at img 6 1 = fork_kind_value (rel_fork (key_relation key))" "uint_at img 7 1 = 0"
    "uint_at img 8 8 = rel_object_id (key_relation key)" "uint_at img 16 8 = key_page_id key"
    "uint_at img 24 8 = lsn" "uint_at img 32 2 = 44" "uint_at img 34 2 = 44 + length body"
    "uint_at img 36 2 = 8192" "uint_at img 38 2 = 0" "uint_at img 40 4 = 0"
    using at [of 0] at [of 1] at [of 2] at [of 3] at [of 4] at [of 5] at [of 6] at [of 7]
      at [of 8] at [of 9] at [of 10] at [of 11]
    by (simp_all add: page_header_fields_def PAGE_FORMAT_VERSION_def)
qed

lemma encode_page_eq:
  assumes "valid_page_key key" and "lsn < 2 ^ 64" and "length body \<le> PAGE_BODY_SIZE"
  shows "encode_page key kind lsn body =
    Inr (py_splice (page_image key kind lsn body) 40 (to_be 4 (crc32 (page_image key kind lsn body))))"
proof -
  have "length body \<le> 8148" using assms(3) by (simp add: page_sizes)
  then have "pack_fields (page_header_fields key kind lsn 44 (44 + length body) 8192) =
    Inr (fields_bytes (page_header_fields key kind lsn 44 (44 + length body) 8192))"
    using page_header_fields_ok assms(1,2) by (blast intro: pack_fields_eq)
  then show ?thesis
    using assms
    by (simp add: encode_page_def checked_lsn_def page_sizes Let_def page_image_def
        length_page_header)
qed

lemma encode_page_length:
  assumes "encode_page key kind lsn body = Inr p"
  shows "length p = PAGE_SIZE"
proof -
  have "length body \<le> 8148" and
    "p = py_splice (page_image key kind lsn body) 40 (to_be 4 (crc32 (page_image key kind lsn body)))"
    using assms
    by (auto simp: encode_page_def page_sizes Let_def res_bind_eq_Inr_iff page_image_def
        length_page_header dest!: pack_fields_InrD split: if_splits)
  then show ?thesis by (simp add: length_page_image PAGE_SIZE_def)
qed

lemma decode_page_page_image:
  fixes key kind lsn body
  defines "img \<equiv> page_image key kind lsn body"
  assumes "valid_page_key key" and "lsn < 2 ^ 64" and "length body \<le> PAGE_BODY_SIZE"
  shows "decode_page key' (py_splice img 40 (to_be 4 (crc32 img))) =
    (if key' = key
     then Inr \<lparr>dp_key = key, dp_kind = kind, dp_lsn = lsn, dp_lower = 44,
               dp_upper = 44 + length body, dp_special = 8192, dp_body = body\<rparr>
     else Inl CorruptPage)"
proof -
  define p where "p = py_splice img 40 (to_be 4 (crc32 img))"
  have body: "length body \<le> 8148" using assms(4) by (simp add: page_sizes)
  have len: "length img = 8192" unfolding img_def by (rule length_page_image [OF body])
  have p_len: "length p = 8192" using len by (simp add: p_def)
  have at: "uint_at p off k = uint_at img off k" if "off + k \<le> 40" for off k
    using that len by (simp add: p_def uint_at_splice_disjoint)
  note f = page_image_fields [OF assms(2,3) body, of kind, folded img_def]
  have slice_img: "py_slice p a b = py_slice img a b" if "b \<le> 40 \<or> 44 \<le> a" for a b
    using that len by (simp add: p_def py_slice_splice_disjoint)
  have magic: "py_slice p 0 4 = PAGE_MAGIC"
    unfolding slice_img [of 4 0, simplified] by (simp add: img_def page_image_def layout_simps)
  have crc: "uint_at p 40 4 = crc32 img"
    using len crc32_less [of img] by (simp add: p_def uint_at_splice_same)
  have zero: "page_bytes_with_checksum_zeroed p = img"
  proof -
    have "to_be 4 (uint_at img 40 4) = py_slice img 40 44"
      using to_be_of_be [of "py_slice img 40 44"] len by (simp add: uint_at_def)
    then have "py_slice img 40 44 = replicate 4 0" unfolding f(12) to_be_0 by (rule sym)
    then have "py_splice img 40 (replicate 4 0) = img"
      using len by (intro py_splice_self) simp_all
    then show ?thesis
      using len by (simp add: p_def page_bytes_with_checksum_zeroed_def page_sizes
          py_splice_splice_same)
  qed
  have slice: "py_slice p 44 (44 + length body) = body"
    unfolding slice_img [of "44 + length body" 44, simplified]
    by (simp add: img_def page_image_def py_slice_def length_page_header)
  have pf: "uint_at p 4 1 = 1" "uint_at p 5 1 = page_kind_value kind"
    "uint_at p 6 1 = fork_kind_value (rel_fork (key_relation key))" "uint_at p 7 1 = 0"
    "uint_at p 8 8 = rel_object_id (key_relation key)" "uint_at p 16 8 = key_page_id key"
    "uint_at p 24 8 = lsn" "uint_at p 32 2 = 44" "uint_at p 34 2 = 44 + length body"
    "uint_at p 36 2 = 8192" "uint_at p 38 2 = 0"
    by (simp_all only: at f arith_simps rel_simps)
  show ?thesis
    unfolding p_def [symmetric] decode_page_def Let_def p_len PAGE_SIZE_def magic pf crc zero
      PAGE_HEADER_SIZE_def PAGE_FORMAT_VERSION_def
    using body by (simp add: slice page_key_eq_iff)
qed

text \<open>
  Claim C29. Encoding a page with a body that fits and an LSN of 64 bits succeeds with exactly
  one page of bytes; decoding those bytes at the same address returns the same kind, LSN and
  body, and decoding them at any other relation, fork or page number is refused as corrupt.
\<close>

theorem encode_decode_page:
  assumes "valid_page_key key" and "lsn < 2 ^ 64" and "length body \<le> PAGE_BODY_SIZE"
  shows "\<exists>p. encode_page key kind lsn body = Inr p \<and> length p = PAGE_SIZE
    \<and> (\<exists>d. decode_page key p = Inr d \<and> dp_key d = key \<and> dp_kind d = kind \<and> dp_lsn d = lsn
         \<and> dp_body d = body)
    \<and> (\<forall>key'. key' \<noteq> key \<longrightarrow> decode_page key' p = Inl CorruptPage)"
proof -
  let ?p = "py_splice (page_image key kind lsn body) 40
    (to_be 4 (crc32 (page_image key kind lsn body)))"
  have e: "encode_page key kind lsn body = Inr ?p" by (rule encode_page_eq [OF assms])
  then show ?thesis
    using encode_page_length [OF e] decode_page_page_image [OF assms, of _ kind] by auto
qed

theorem encode_decode_page_witness:
  "\<exists>p. encode_page (heap_page_key 7 3) KindHEAP 5 [1, 2, 3] = Inr p
    \<and> decode_page (heap_page_key 7 4) p = Inl CorruptPage"
proof -
  have "valid_page_key (heap_page_key 7 3)"
    by (simp add: valid_page_key_def heap_page_key_def heap_relation_def)
  moreover have "(5 :: nat) < 2 ^ 64" by simp
  moreover have "length [1, 2, 3 :: byte] \<le> PAGE_BODY_SIZE" by (simp add: page_sizes)
  ultimately obtain p where "encode_page (heap_page_key 7 3) KindHEAP 5 [1, 2, 3] = Inr p"
    and "\<forall>key'. key' \<noteq> heap_page_key 7 3 \<longrightarrow> decode_page key' p = Inl CorruptPage"
    using encode_decode_page [of "heap_page_key 7 3" 5 "[1, 2, 3]" KindHEAP] by blast
  moreover have "heap_page_key 7 4 \<noteq> heap_page_key 7 3" by (simp add: heap_page_key_def)
  ultimately show ?thesis by blast
qed

lemma encode_page_decode:
  assumes "encode_page key kind lsn body = Inr p" and "valid_page_key key"
  shows "decode_page key p = Inr \<lparr>dp_key = key, dp_kind = kind, dp_lsn = lsn, dp_lower = 44,
     dp_upper = 44 + length body, dp_special = 8192, dp_body = body\<rparr>"
proof -
  have "lsn < 2 ^ 64" and "length body \<le> PAGE_BODY_SIZE"
    using assms(1)
    by (auto simp: encode_page_def checked_lsn_def page_sizes res_bind_eq_Inr_iff split: if_splits)
  then show ?thesis
    using assms encode_page_eq [OF assms(2)] decode_page_page_image [OF assms(2)] by auto
qed

text \<open>Whatever decodes is one page whose fields are in bounds and whose checksum holds.\<close>

lemma decode_page_Inr:
  assumes "decode_page key p = Inr d"
  shows "length p = PAGE_SIZE" and "dp_key d = key" and "dp_lsn d < 2 ^ 64"
    and "dp_body d = py_slice p PAGE_HEADER_SIZE (dp_upper d)" and "dp_upper d \<le> PAGE_SIZE"
    and "PAGE_HEADER_SIZE \<le> dp_upper d"
  using assms uint_at_less [of p 24 8]
  by (auto simp: decode_page_def Let_def res_bind_eq_Inr_iff split: if_splits)

lemma decode_page_Inl: "decode_page key p = Inl e \<Longrightarrow> e = CorruptPage"
  by (auto simp: decode_page_def Let_def res_bind_eq_Inl_iff page_kind_of_value_def
      fork_kind_of_value_def split: if_splits)

end
