(* ===== verification/Slotted.thy ===== *)
theory Slotted
  imports Page
begin

text \<open>
  \<open>storage/slotted.py\<close>: the variable-length page body whose slot numbers stay stable
  across deletion and compaction. A page object is a record; the methods that mutate it are
  state-passing functions, so that the page an exception leaves behind is part of the model.
  The abstract view of a page is the list of its slots' contents, and every operation is shown
  to act on it as the documentation promises, for exactly the requests that fit.
\<close>

section \<open>Layout\<close>

definition SLOTTED_BODY_SIZE :: nat where "SLOTTED_BODY_SIZE = PAGE_BODY_SIZE"
definition SLOTTED_MAGIC :: bytes where "SLOTTED_MAGIC = ascii ''SLT1''"
definition BODY_HEADER_SIZE :: nat where "BODY_HEADER_SIZE = 12"
definition SLOT_ENTRY_SIZE :: nat where "SLOT_ENTRY_SIZE = 8"
definition DEAD :: nat where "DEAD = 0"
definition LIVE :: nat where "LIVE = 1"
definition MAX_SLOT_PAYLOAD :: nat where
  "MAX_SLOT_PAYLOAD = SLOTTED_BODY_SIZE - BODY_HEADER_SIZE - SLOT_ENTRY_SIZE"

record slot =
  sl_offset :: nat
  sl_length :: nat
  sl_flags :: nat

definition slot_live :: "slot \<Rightarrow> bool" where
  "slot_live s \<longleftrightarrow> sl_flags s = LIVE"

definition dead_slot :: slot where
  "dead_slot = \<lparr>sl_offset = 0, sl_length = 0, sl_flags = DEAD\<rparr>"

definition live_slot_at :: "nat \<Rightarrow> nat \<Rightarrow> slot" where
  "live_slot_at off len = \<lparr>sl_offset = off, sl_length = len, sl_flags = LIVE\<rparr>"

record slotted_page =
  sp_page_id :: nat
  sp_buffer :: bytes
  sp_slots :: "slot list"
  sp_upper :: nat

definition sp_lower :: "slotted_page \<Rightarrow> nat" where
  "sp_lower p = BODY_HEADER_SIZE + length (sp_slots p) * SLOT_ENTRY_SIZE"

definition contiguous_free_bytes :: "slotted_page \<Rightarrow> int" where
  "contiguous_free_bytes p = int (sp_upper p) - int (sp_lower p)"

definition live_bytes :: "slot list \<Rightarrow> nat" where
  "live_bytes slots = sum_list (map sl_length (filter slot_live slots))"

definition available_free_bytes :: "slotted_page \<Rightarrow> int" where
  "available_free_bytes p =
     int SLOTTED_BODY_SIZE - int (sp_lower p) - int (live_bytes (sp_slots p))"

section \<open>Validation\<close>

text \<open>\<open>any(left_end > right_start for ... in pairwise(extents))\<close>, negated.\<close>

fun pairwise_apart :: "(nat \<times> nat) list \<Rightarrow> bool" where
  "pairwise_apart [] = True"
| "pairwise_apart [x] = True"
| "pairwise_apart (x # y # zs) = (snd x \<le> fst y \<and> pairwise_apart (y # zs))"

definition slot_extents :: "slot list \<Rightarrow> (nat \<times> nat) list" where
  "slot_extents slots =
     map (\<lambda>s. (sl_offset s, sl_offset s + sl_length s))
       (filter (\<lambda>s. slot_live s \<and> sl_length s \<noteq> 0) slots)"

definition sp_valid :: "slotted_page \<Rightarrow> bool" where
  "sp_valid p \<longleftrightarrow>
     length (sp_buffer p) = SLOTTED_BODY_SIZE
     \<and> BODY_HEADER_SIZE \<le> sp_lower p \<and> sp_lower p \<le> sp_upper p \<and> sp_upper p \<le> SLOTTED_BODY_SIZE
     \<and> (\<forall>s \<in> set (sp_slots p). slot_live s \<longrightarrow>
          \<not> (sl_offset s < sp_upper p \<or> SLOTTED_BODY_SIZE < sl_offset s + sl_length s))
     \<and> pairwise_apart (sort (slot_extents (sp_slots p)))"

definition sp_validate :: "slotted_page \<Rightarrow> unit result" where
  "sp_validate p = res_require (sp_valid p) PyValueError"

definition sm_validate :: "(slotted_page, unit) sm" where
  "sm_validate p = (sp_validate p, p)"

section \<open>Construction and encoding\<close>

definition mk_slotted_page :: "nat \<Rightarrow> bytes \<Rightarrow> slot list \<Rightarrow> nat \<Rightarrow> slotted_page result" where
  "mk_slotted_page pid buffer slots upper =
     (let p = \<lparr>sp_page_id = pid, sp_buffer = buffer, sp_slots = slots, sp_upper = upper\<rparr>
      in res_bind (sp_validate p) (\<lambda>_. Inr p))"

definition slotted_empty :: "nat \<Rightarrow> slotted_page result" where
  "slotted_empty pid =
     mk_slotted_page pid (replicate SLOTTED_BODY_SIZE 0) [] SLOTTED_BODY_SIZE"

text \<open>
  The slot directory entry \<open>index\<close> of an encoded body. \<open>unpack_from\<close> raises \<open>struct.error\<close> when
  the entry does not lie within the body, which happens for a slot count beyond 1017.
\<close>

definition read_slot :: "bytes \<Rightarrow> nat \<Rightarrow> slot result" where
  "read_slot body index =
     (let off = BODY_HEADER_SIZE + index * SLOT_ENTRY_SIZE;
          flags = uint_at body (off + 4) 1
      in if length body < off + SLOT_ENTRY_SIZE then Inl PyStructError
         else if flags \<noteq> DEAD \<and> flags \<noteq> LIVE then Inl CorruptPage
         else Inr \<lparr>sl_offset = uint_at body off 2, sl_length = uint_at body (off + 2) 2,
                   sl_flags = flags\<rparr>)"

definition slotted_from_bytes :: "nat \<Rightarrow> bytes \<Rightarrow> slotted_page result" where
  "slotted_from_bytes pid body =
     (if length body \<noteq> SLOTTED_BODY_SIZE then Inl CorruptPage
      else
        let magic = py_slice body 0 4; slot_count = uint_at body 4 2;
            lower = uint_at body 6 2; upper = uint_at body 8 2
        in if magic \<noteq> SLOTTED_MAGIC then Inl CorruptPage
           else if lower \<noteq> BODY_HEADER_SIZE + slot_count * SLOT_ENTRY_SIZE then Inl CorruptPage
           else
             res_bind (res_mapM (read_slot body) [0..<slot_count]) (\<lambda>slots.
             res_rethrow PyValueError CorruptPage (mk_slotted_page pid body slots upper)))"

text \<open>\<open>_SLOT.pack_into(encoded, ...)\<close> for the slots from position \<open>index\<close> on; pad bytes are zero.\<close>

fun pack_slots :: "nat \<Rightarrow> slot list \<Rightarrow> bytes \<Rightarrow> bytes result" where
  "pack_slots index [] encoded = Inr encoded"
| "pack_slots index (s # ss) encoded =
     res_bind (pack_fields [(2, sl_offset s), (2, sl_length s), (1, sl_flags s), (3, 0)]) (\<lambda>entry.
     pack_slots (Suc index) ss
       (py_splice encoded (BODY_HEADER_SIZE + index * SLOT_ENTRY_SIZE) entry))"

definition slotted_to_bytes :: "slotted_page \<Rightarrow> bytes result" where
  "slotted_to_bytes p =
     res_bind (sp_validate p) (\<lambda>_.
     res_bind (pack_fields [(2, length (sp_slots p)), (2, sp_lower p), (2, sp_upper p), (2, 0)]) (\<lambda>fields.
     pack_slots 0 (sp_slots p) (py_splice (sp_buffer p) 0 (SLOTTED_MAGIC @ fields))))"

section \<open>Operations\<close>

definition slot_value :: "bytes \<Rightarrow> slot \<Rightarrow> bytes" where
  "slot_value buffer s = py_slice buffer (sl_offset s) (sl_offset s + sl_length s)"

definition live_slots :: "slotted_page \<Rightarrow> nat list" where
  "live_slots p = filter (\<lambda>i. slot_live (sp_slots p ! i)) [0..<length (sp_slots p)]"

definition sp_live_slot :: "slotted_page \<Rightarrow> nat \<Rightarrow> slot result" where
  "sp_live_slot p sid =
     (if length (sp_slots p) \<le> sid then Inl PyKeyError
      else if \<not> slot_live (sp_slots p ! sid) then Inl PyKeyError
      else Inr (sp_slots p ! sid))"

definition sp_read :: "slotted_page \<Rightarrow> nat \<Rightarrow> bytes result" where
  "sp_read p sid = res_bind (sp_live_slot p sid) (\<lambda>s. Inr (slot_value (sp_buffer p) s))"

text \<open>The packing loop of \<open>compact\<close>: slots in order, extents from the end of the body down.\<close>

fun compact_slots :: "bytes \<Rightarrow> slot list \<Rightarrow> nat \<Rightarrow> bytes \<Rightarrow> slot list \<times> nat \<times> bytes" where
  "compact_slots buffer [] cursor compacted = ([], cursor, compacted)"
| "compact_slots buffer (s # ss) cursor compacted =
     (if \<not> slot_live s then
        (case compact_slots buffer ss cursor compacted of (ss', c', b') \<Rightarrow> (s # ss', c', b'))
      else
        let value = slot_value buffer s; cursor' = cursor - length value;
            compacted' = py_splice compacted cursor' value
        in case compact_slots buffer ss cursor' compacted' of
             (ss', c', b') \<Rightarrow> (live_slot_at cursor' (length value) # ss', c', b'))"

definition sp_compacted :: "slotted_page \<Rightarrow> slotted_page" where
  "sp_compacted p =
     (case compact_slots (sp_buffer p) (sp_slots p) SLOTTED_BODY_SIZE (replicate SLOTTED_BODY_SIZE 0) of
        (slots, cursor, compacted) \<Rightarrow>
          p\<lparr>sp_slots := slots, sp_buffer := compacted, sp_upper := cursor\<rparr>)"

definition sp_compact :: "(slotted_page, unit) sm" where
  "sp_compact p = sm_validate (sp_compacted p)"

fun first_dead :: "slot list \<Rightarrow> nat \<Rightarrow> nat option" where
  "first_dead [] k = None"
| "first_dead (s # ss) k = (if \<not> slot_live s then Some k else first_dead ss (Suc k))"

definition sp_insert :: "bytes \<Rightarrow> (slotted_page, nat) sm" where
  "sp_insert value p =
     (let dead = first_dead (sp_slots p) 0;
          directory_growth = (if dead = None then SLOT_ENTRY_SIZE else 0);
          required = int (length value + directory_growth)
      in sm_bind (if contiguous_free_bytes p < required then sp_compact else sm_return ()) (\<lambda>_.
         sm_bind (sm_get id) (\<lambda>p1.
         if contiguous_free_bytes p1 < required then sm_raise PageFull
         else
           let upper = sp_upper p1 - length value;
               new_slot = live_slot_at upper (length value);
               sid = (case dead of None \<Rightarrow> length (sp_slots p1) | Some d \<Rightarrow> d);
               slots = (case dead of None \<Rightarrow> sp_slots p1 @ [new_slot]
                        | Some d \<Rightarrow> (sp_slots p1)[d := new_slot])
           in sm_bind (sm_modify (\<lambda>q. q\<lparr>sp_upper := upper,
                  sp_buffer := py_splice (sp_buffer p1) upper value, sp_slots := slots\<rparr>)) (\<lambda>_.
              sm_bind sm_validate (\<lambda>_. sm_return sid)))) p)"

definition sp_delete :: "nat \<Rightarrow> (slotted_page, bytes) sm" where
  "sp_delete sid p =
     sm_bind (sm_lift (sp_read p sid)) (\<lambda>value.
     sm_bind (sm_modify (\<lambda>q. q\<lparr>sp_slots := (sp_slots q)[sid := dead_slot]\<rparr>)) (\<lambda>_.
     sm_bind sm_validate (\<lambda>_. sm_return value))) p"

text \<open>The longer-value branch of \<open>replace\<close>: the new page is built on a decoded copy.\<close>

definition sp_regrown :: "slotted_page \<Rightarrow> nat \<Rightarrow> bytes \<Rightarrow> slotted_page result" where
  "sp_regrown p sid value =
     res_bind (slotted_to_bytes p) (\<lambda>encoded.
     res_bind (slotted_from_bytes (sp_page_id p) encoded) (\<lambda>working.
     res_bind (fst (sp_compact (working\<lparr>sp_slots := (sp_slots working)[sid := dead_slot]\<rparr>))) (\<lambda>_.
     let w = snd (sp_compact (working\<lparr>sp_slots := (sp_slots working)[sid := dead_slot]\<rparr>))
     in if contiguous_free_bytes w < int (length value) then Inl PageFull
        else let upper = sp_upper w - length value
             in Inr (w\<lparr>sp_upper := upper, sp_buffer := py_splice (sp_buffer w) upper value,
                       sp_slots := (sp_slots w)[sid := live_slot_at upper (length value)]\<rparr>))))"

definition sp_replace :: "nat \<Rightarrow> bytes \<Rightarrow> (slotted_page, bytes) sm" where
  "sp_replace sid value p =
     sm_bind (sm_lift (sp_read p sid)) (\<lambda>old.
     let s = sp_slots p ! sid
     in if length value \<le> sl_length s then
          sm_bind (sm_modify (\<lambda>q. q\<lparr>sp_buffer := py_splice (sp_buffer q) (sl_offset s) value,
              sp_slots := (sp_slots q)[sid := live_slot_at (sl_offset s) (length value)]\<rparr>)) (\<lambda>_.
          sm_bind sm_validate (\<lambda>_. sm_return old))
        else
          sm_bind (sm_lift (sp_regrown p sid value)) (\<lambda>w.
          sm_bind (sm_modify (\<lambda>q. q\<lparr>sp_buffer := sp_buffer w, sp_slots := sp_slots w,
              sp_upper := sp_upper w\<rparr>)) (\<lambda>_.
          sm_bind sm_validate (\<lambda>_. sm_return old)))) p"

section \<open>What validation means\<close>

lemmas slotted_sizes = SLOTTED_BODY_SIZE_def BODY_HEADER_SIZE_def SLOT_ENTRY_SIZE_def
  PAGE_BODY_SIZE_def PAGE_SIZE_def PAGE_HEADER_SIZE_def MAX_SLOT_PAYLOAD_def

definition apart :: "nat \<times> nat \<Rightarrow> nat \<times> nat \<Rightarrow> bool" where
  "apart x y \<longleftrightarrow> snd x \<le> fst y \<or> snd y \<le> fst x"

definition slot_apart :: "slot \<Rightarrow> slot \<Rightarrow> bool" where
  "slot_apart s t \<longleftrightarrow>
     (slot_live s \<and> sl_length s \<noteq> 0 \<and> slot_live t \<and> sl_length t \<noteq> 0 \<longrightarrow>
        sl_offset s + sl_length s \<le> sl_offset t \<or> sl_offset t + sl_length t \<le> sl_offset s)"

lemma slot_apart_sym: "slot_apart s t \<longleftrightarrow> slot_apart t s"
  by (auto simp: slot_apart_def)

lemma slot_apart_dead [simp]: "slot_apart dead_slot t" "slot_apart t dead_slot"
  by (simp_all add: slot_apart_def dead_slot_def)

lemma slot_live_simps [simp]: "slot_live (live_slot_at off len)" "\<not> slot_live dead_slot"
  "sl_offset (live_slot_at off len) = off" "sl_length (live_slot_at off len) = len"
  "sl_flags (live_slot_at off len) = LIVE"
  by (simp_all add: slot_live_def live_slot_at_def dead_slot_def LIVE_def DEAD_def)

lemma sorted_wrt_sym_mset:
  assumes "\<And>x y. P x y \<longleftrightarrow> P y x"
  shows "mset xs = mset ys \<Longrightarrow> sorted_wrt P xs \<Longrightarrow> sorted_wrt P ys"
proof (induction ys arbitrary: xs)
  case Nil
  then show ?case by simp
next
  case (Cons y ys)
  have "y \<in> set xs" using Cons.prems(1) by (metis list.set_intros(1) set_mset_mset)
  then obtain as bs where xs: "xs = as @ y # bs" by (auto simp: in_set_conv_decomp)
  then have "mset (as @ bs) = mset ys" using Cons.prems(1) by simp
  moreover have "sorted_wrt P (as @ bs)" using Cons.prems(2) by (auto simp: xs sorted_wrt_append)
  ultimately have "sorted_wrt P ys" by (rule Cons.IH)
  moreover have "P y z" if "z \<in> set ys" for z
  proof -
    have "z \<in> set (as @ bs)" using that \<open>mset (as @ bs) = mset ys\<close> by (metis set_mset_mset)
    then show ?thesis using Cons.prems(2) assms by (auto simp: xs sorted_wrt_append)
  qed
  ultimately show ?case by simp
qed

lemma pairwise_apart_sorted_wrt:
  "pairwise_apart ys \<Longrightarrow> sorted ys \<Longrightarrow> sorted_wrt (\<lambda>x y. snd x \<le> fst y) ys"
proof (induction ys rule: pairwise_apart.induct)
  case (3 x y zs)
  have "fst y \<le> fst z" if "z \<in> set zs" for z
    using 3 that by (cases y; cases z) (auto simp: less_eq_prod_def)
  then show ?case using 3 by fastforce
qed auto

lemma pairwise_apart_iff:
  assumes "\<And>x. x \<in> set ys \<Longrightarrow> fst x < snd x" and "sorted ys"
  shows "pairwise_apart ys \<longleftrightarrow> sorted_wrt apart ys"
proof
  assume "pairwise_apart ys"
  from pairwise_apart_sorted_wrt [OF this assms(2)] show "sorted_wrt apart ys"
    by (rule sorted_wrt_mono_rel [rotated]) (auto simp: apart_def)
next
  assume "sorted_wrt apart ys"
  then show "pairwise_apart ys"
    using assms
  proof (induction ys rule: pairwise_apart.induct)
    case (3 x y zs)
    have le: "fst x \<le> fst y" using 3(4) by (cases x; cases y) (auto simp: less_eq_prod_def)
    have "fst y < snd y" using 3(3) by simp
    then have "snd x \<le> fst y" using 3(2) le by (auto simp: apart_def)
    moreover have "pairwise_apart (y # zs)" using 3 by simp
    ultimately show ?case by simp
  qed auto
qed

lemma slot_extents_apart_iff:
  "pairwise_apart (sort (slot_extents slots)) \<longleftrightarrow>
     (\<forall>i < length slots. \<forall>j < length slots. i \<noteq> j \<longrightarrow> slot_apart (slots ! i) (slots ! j))"
proof -
  have pos: "fst x < snd x" if "x \<in> set (sort (slot_extents slots))" for x
    using that by (auto simp: slot_extents_def)
  have sym: "apart x y \<longleftrightarrow> apart y x" for x y by (auto simp: apart_def)
  have "pairwise_apart (sort (slot_extents slots)) \<longleftrightarrow> sorted_wrt apart (sort (slot_extents slots))"
    using pos by (intro pairwise_apart_iff) auto
  also have "\<dots> \<longleftrightarrow> sorted_wrt apart (slot_extents slots)"
    using sorted_wrt_sym_mset [of apart "sort (slot_extents slots)" "slot_extents slots", OF sym]
      sorted_wrt_sym_mset [of apart "slot_extents slots" "sort (slot_extents slots)", OF sym]
    by auto
  also have "\<dots> \<longleftrightarrow> sorted_wrt slot_apart slots"
    by (induction slots) (auto simp: slot_extents_def slot_apart_def apart_def)
  also have "\<dots> \<longleftrightarrow> (\<forall>i < length slots. \<forall>j < length slots. i \<noteq> j \<longrightarrow> slot_apart (slots ! i) (slots ! j))"
  proof
    assume s: "sorted_wrt slot_apart slots"
    show "\<forall>i < length slots. \<forall>j < length slots. i \<noteq> j \<longrightarrow> slot_apart (slots ! i) (slots ! j)"
    proof (intro allI impI)
      fix i j assume "i < length slots" "j < length slots" "i \<noteq> j"
      then show "slot_apart (slots ! i) (slots ! j)"
        using s slot_apart_sym [of "slots ! i"]
        by (cases "i < j") (auto simp: sorted_wrt_iff_nth_less)
    qed
  qed (auto simp: sorted_wrt_iff_nth_less)
  finally show ?thesis .
qed

text \<open>Validity in terms of slot positions, the form every preservation proof works with.\<close>

definition extents_ok :: "nat \<Rightarrow> nat \<Rightarrow> slot list \<Rightarrow> bool" where
  "extents_ok lo hi slots \<longleftrightarrow>
     (\<forall>i < length slots. slot_live (slots ! i) \<longrightarrow>
        lo \<le> sl_offset (slots ! i) \<and> sl_offset (slots ! i) + sl_length (slots ! i) \<le> hi)
     \<and> (\<forall>i < length slots. \<forall>j < length slots. i \<noteq> j \<longrightarrow> slot_apart (slots ! i) (slots ! j))"

lemma sp_valid_iff:
  "sp_valid p \<longleftrightarrow>
     length (sp_buffer p) = SLOTTED_BODY_SIZE \<and> sp_lower p \<le> sp_upper p
     \<and> sp_upper p \<le> SLOTTED_BODY_SIZE \<and> extents_ok (sp_upper p) SLOTTED_BODY_SIZE (sp_slots p)"
proof -
  have "BODY_HEADER_SIZE \<le> sp_lower p" by (simp add: sp_lower_def)
  then show ?thesis
    by (auto simp: sp_valid_def slot_extents_apart_iff extents_ok_def all_set_conv_all_nth not_less)
qed

lemma sp_validate_valid [simp]: "sp_valid p \<Longrightarrow> sp_validate p = Inr ()"
  by (simp add: sp_validate_def)

lemma sm_validate_valid: "sp_valid p \<Longrightarrow> sm_validate p = (Inr (), p)"
  by (simp add: sm_validate_def)

text \<open>Disjoint extents above \<open>lo\<close> leave no more live bytes than there is room.\<close>

lemma sum_extents_le:
  fixes ys :: "(nat \<times> nat) list"
  assumes "sorted_wrt (\<lambda>x y. snd x \<le> fst y) ys"
    and "\<And>y. y \<in> set ys \<Longrightarrow> lo \<le> fst y \<and> fst y \<le> snd y \<and> snd y \<le> hi" and "lo \<le> hi"
  shows "sum_list (map (\<lambda>y. snd y - fst y) ys) \<le> hi - lo"
  using assms
proof (induction ys arbitrary: lo)
  case Nil
  then show ?case by simp
next
  case (Cons y ys)
  have "sum_list (map (\<lambda>y. snd y - fst y) ys) \<le> hi - snd y"
    using Cons.prems by (intro Cons.IH) auto
  moreover have "lo \<le> fst y" "fst y \<le> snd y" "snd y \<le> hi" using Cons.prems(2) by auto
  ultimately show ?case by simp
qed

lemma live_bytes_le:
  assumes "extents_ok lo hi slots" and "lo \<le> hi"
  shows "live_bytes slots \<le> hi - lo"
proof -
  let ?f = "\<lambda>y :: nat \<times> nat. snd y - fst y"
  have "pairwise_apart (sort (slot_extents slots))"
    using assms by (simp add: slot_extents_apart_iff extents_ok_def)
  then have "sorted_wrt (\<lambda>x y. snd x \<le> fst y) (sort (slot_extents slots))"
    by (rule pairwise_apart_sorted_wrt) simp
  moreover have "lo \<le> fst y \<and> fst y \<le> snd y \<and> snd y \<le> hi" if "y \<in> set (sort (slot_extents slots))" for y
    using that assms(1) by (auto simp: slot_extents_def extents_ok_def in_set_conv_nth)
  ultimately have le: "sum_list (map ?f (sort (slot_extents slots))) \<le> hi - lo"
    using assms(2) by (rule sum_extents_le)
  have "live_bytes slots = sum_list (map ?f (slot_extents slots))"
    by (induction slots) (auto simp: live_bytes_def slot_extents_def)
  also have "\<dots> = sum_list (map ?f (sort (slot_extents slots)))"
    by (simp flip: sum_mset_sum_list)
  finally show ?thesis using le by simp
qed

section \<open>Compaction\<close>

lemma length_slot_value:
  "sl_offset s + sl_length s \<le> length buffer \<Longrightarrow> length (slot_value buffer s) = sl_length s"
  by (simp add: slot_value_def)

lemma live_bytes_Cons:
  "live_bytes (s # ss) = (if slot_live s then sl_length s else 0) + live_bytes ss"
  by (simp add: live_bytes_def)

definition same_slot_contents :: "bytes \<Rightarrow> slot \<Rightarrow> bytes \<Rightarrow> slot \<Rightarrow> bool" where
  "same_slot_contents buffer s buffer' s' \<longleftrightarrow>
     (if slot_live s
      then slot_live s' \<and> sl_length s' = sl_length s \<and> slot_value buffer' s' = slot_value buffer s
      else s' = s)"

lemma compact_slots_spec:
  "compact_slots buffer slots cursor dst = (slots', cursor', dst') \<Longrightarrow>
   (\<forall>s \<in> set slots. slot_live s \<longrightarrow> sl_offset s + sl_length s \<le> length buffer) \<Longrightarrow>
   live_bytes slots \<le> cursor \<Longrightarrow> cursor \<le> length dst \<Longrightarrow>
     length slots' = length slots \<and> cursor' = cursor - live_bytes slots \<and> length dst' = length dst
     \<and> (\<forall>i < length slots. same_slot_contents buffer (slots ! i) dst' (slots' ! i))
     \<and> extents_ok cursor' cursor slots'
     \<and> (\<forall>a b. b \<le> cursor' \<or> cursor \<le> a \<longrightarrow> py_slice dst' a b = py_slice dst a b)"
proof (induction slots arbitrary: cursor dst slots' cursor' dst')
  case Nil
  then show ?case by (simp add: live_bytes_def extents_ok_def)
next
  case (Cons s ss)
  show ?case
  proof (cases "slot_live s")
    case False
    then obtain ss' where ss': "compact_slots buffer ss cursor dst = (ss', cursor', dst')"
      and slots': "slots' = s # ss'"
      using Cons.prems(1) by (auto split: prod.splits)
    have lb: "live_bytes (s # ss) = live_bytes ss" using False by (simp add: live_bytes_Cons)
    have ih: "length ss' = length ss" "cursor' = cursor - live_bytes ss" "length dst' = length dst"
      "\<forall>i < length ss. same_slot_contents buffer (ss ! i) dst' (ss' ! i)"
      "extents_ok cursor' cursor ss'"
      "\<forall>a b. b \<le> cursor' \<or> cursor \<le> a \<longrightarrow> py_slice dst' a b = py_slice dst a b"
      using Cons.IH [OF ss'] Cons.prems lb by auto
    have "slot_apart s t \<and> slot_apart t s" for t using False by (simp add: slot_apart_def)
    then have "extents_ok cursor' cursor (s # ss')"
      using ih(5) False by (auto simp: extents_ok_def nth_Cons split: nat.splits)
    moreover have "same_slot_contents buffer s dst' s" using False by (simp add: same_slot_contents_def)
    ultimately show ?thesis using ih slots' lb by (auto simp: nth_Cons split: nat.splits)
  next
    case True
    define val where "val = slot_value buffer s"
    define c1 where "c1 = cursor - length val"
    define dst1 where "dst1 = py_splice dst c1 val"
    have len: "length val = sl_length s"
      unfolding val_def using Cons.prems(2) True by (intro length_slot_value) simp
    have lb: "live_bytes (s # ss) = length val + live_bytes ss"
      using True by (simp add: live_bytes_Cons len)
    obtain ss' where ss': "compact_slots buffer ss c1 dst1 = (ss', cursor', dst')"
      and slots': "slots' = live_slot_at c1 (length val) # ss'"
      using Cons.prems(1) True by (auto simp: Let_def val_def c1_def dst1_def split: prod.splits)
    have c1: "c1 + length val = cursor" using Cons.prems(3) lb by (simp add: c1_def)
    have len1: "length dst1 = length dst" using c1 Cons.prems(4) by (simp add: dst1_def)
    have ih: "length ss' = length ss" "cursor' = c1 - live_bytes ss" "length dst' = length dst1"
      "\<forall>i < length ss. same_slot_contents buffer (ss ! i) dst' (ss' ! i)"
      "extents_ok cursor' c1 ss'"
      "\<forall>a b. b \<le> cursor' \<or> c1 \<le> a \<longrightarrow> py_slice dst' a b = py_slice dst1 a b"
      using Cons.IH [OF ss'] Cons.prems lb c1 len1 by auto
    have "slot_value dst' (live_slot_at c1 (length val)) = py_slice dst1 c1 (c1 + length val)"
      using ih(6) by (simp add: slot_value_def)
    also have "\<dots> = val"
      unfolding dst1_def using c1 Cons.prems(4) by (intro py_slice_splice_same) simp
    finally have "same_slot_contents buffer s dst' (live_slot_at c1 (length val))"
      using True len by (simp add: same_slot_contents_def val_def)
    moreover have "extents_ok cursor' cursor (live_slot_at c1 (length val) # ss')"
    proof -
      have "slot_apart (live_slot_at c1 (length val)) (ss' ! i)
          \<and> slot_apart (ss' ! i) (live_slot_at c1 (length val))" if "i < length ss'" for i
        using that ih(5) by (auto simp: slot_apart_def extents_ok_def)
      then show ?thesis
        using ih(2,5) c1 by (fastforce simp: extents_ok_def nth_Cons split: nat.splits)
    qed
    moreover have "py_slice dst' a b = py_slice dst a b" if "b \<le> cursor' \<or> cursor \<le> a" for a b
    proof -
      have "py_slice dst' a b = py_slice dst1 a b" using that ih(2,6) c1 by auto
      also have "\<dots> = py_slice dst a b"
        unfolding dst1_def using that ih(2) c1 Cons.prems(4)
        by (intro py_slice_splice_disjoint) auto
      finally show ?thesis .
    qed
    ultimately show ?thesis
      using ih slots' lb c1 len1 by (auto simp: nth_Cons split: nat.splits)
  qed
qed

section \<open>The abstract page: the contents of each stable slot\<close>

definition sp_abs :: "slotted_page \<Rightarrow> bytes option list" where
  "sp_abs p = map (\<lambda>s. if slot_live s then Some (slot_value (sp_buffer p) s) else None) (sp_slots p)"

text \<open>Where an insertion goes: the first dead slot, or a new one at the end.\<close>

fun abs_insert :: "bytes \<Rightarrow> bytes option list \<Rightarrow> nat \<times> bytes option list" where
  "abs_insert v [] = (0, [Some v])"
| "abs_insert v (None # xs) = (0, Some v # xs)"
| "abs_insert v (Some x # xs) = (case abs_insert v xs of (i, ys) \<Rightarrow> (Suc i, Some x # ys))"

definition directory_growth :: "slotted_page \<Rightarrow> nat" where
  "directory_growth p = (if None \<in> set (sp_abs p) then 0 else SLOT_ENTRY_SIZE)"

lemma length_sp_abs [simp]: "length (sp_abs p) = length (sp_slots p)"
  by (simp add: sp_abs_def)

lemma nth_sp_abs:
  "i < length (sp_slots p) \<Longrightarrow> sp_abs p ! i =
     (if slot_live (sp_slots p ! i) then Some (slot_value (sp_buffer p) (sp_slots p ! i)) else None)"
  by (simp add: sp_abs_def)

lemma sp_abs_eqI:
  assumes "length (sp_slots p') = length (sp_slots p)"
    and "\<And>i. i < length (sp_slots p) \<Longrightarrow>
      same_slot_contents (sp_buffer p) (sp_slots p ! i) (sp_buffer p') (sp_slots p' ! i)"
  shows "sp_abs p' = sp_abs p"
proof (rule nth_equalityI)
  show "length (sp_abs p') = length (sp_abs p)" using assms(1) by simp
next
  fix i assume "i < length (sp_abs p')"
  then have "i < length (sp_slots p)" using assms(1) by simp
  then show "sp_abs p' ! i = sp_abs p ! i"
    using assms(2) [of i] assms(1) by (auto simp: nth_sp_abs same_slot_contents_def split: if_splits)
qed

lemma first_dead_None: "first_dead slots k = None \<longleftrightarrow> (\<forall>s \<in> set slots. slot_live s)"
  by (induction slots arbitrary: k) auto

lemma first_dead_Some:
  "first_dead slots k = Some d \<Longrightarrow> k \<le> d \<and> d - k < length slots \<and> \<not> slot_live (slots ! (d - k))
     \<and> (\<forall>i < d - k. slot_live (slots ! i))"
proof (induction slots arbitrary: k)
  case Nil
  then show ?case by simp
next
  case (Cons s ss)
  show ?case
  proof (cases "slot_live s")
    case False
    then show ?thesis using Cons.prems by simp
  next
    case True
    then have "first_dead ss (Suc k) = Some d" using Cons.prems by simp
    from Cons.IH [OF this] True show ?thesis
      by (auto simp: nth_Cons' less_Suc_eq_0_disj Suc_diff_Suc [symmetric])
  qed
qed

lemma first_dead_0:
  assumes "first_dead slots 0 = Some d"
  shows "d < length slots" "\<not> slot_live (slots ! d)" "\<forall>i < d. slot_live (slots ! i)"
  using first_dead_Some [OF assms] by auto

lemma None_in_sp_abs: "None \<in> set (sp_abs p) \<longleftrightarrow> first_dead (sp_slots p) 0 \<noteq> None"
  by (auto simp: first_dead_None sp_abs_def)

lemma abs_insert_full: "None \<notin> set xs \<Longrightarrow> abs_insert v xs = (length xs, xs @ [Some v])"
  by (induction xs rule: abs_insert.induct) auto

lemma abs_insert_reuse:
  "d < length xs \<Longrightarrow> xs ! d = None \<Longrightarrow> \<forall>i < d. xs ! i \<noteq> None \<Longrightarrow>
     abs_insert v xs = (d, xs[d := Some v])"
proof (induction xs arbitrary: d rule: abs_insert.induct)
  case (2 v xs)
  then show ?case by (cases d) auto
next
  case (3 v x xs)
  then obtain d' where d: "d = Suc d'" by (cases d) auto
  with 3 have "abs_insert v xs = (d', xs[d' := Some v])"
    by (intro "3.IH") fastforce+
  then show ?case by (simp add: d)
qed auto

lemma valid_slot_bounds:
  assumes "sp_valid p" and "i < length (sp_slots p)" and "slot_live (sp_slots p ! i)"
  shows "sp_upper p \<le> sl_offset (sp_slots p ! i)"
    and "sl_offset (sp_slots p ! i) + sl_length (sp_slots p ! i) \<le> length (sp_buffer p)"
  using assms by (auto simp: sp_valid_iff extents_ok_def)

lemma valid_live_bytes: "sp_valid p \<Longrightarrow> sp_upper p + live_bytes (sp_slots p) \<le> SLOTTED_BODY_SIZE"
  using live_bytes_le [of "sp_upper p" SLOTTED_BODY_SIZE "sp_slots p"] by (auto simp: sp_valid_iff)

lemma valid_contiguous_le: "sp_valid p \<Longrightarrow> contiguous_free_bytes p \<le> available_free_bytes p"
  using valid_live_bytes [of p] by (simp add: contiguous_free_bytes_def available_free_bytes_def)

lemma sp_compacted_spec:
  assumes "sp_valid p"
  shows "sp_valid (sp_compacted p) \<and> sp_abs (sp_compacted p) = sp_abs p
    \<and> length (sp_slots (sp_compacted p)) = length (sp_slots p)
    \<and> (\<forall>i < length (sp_slots p). slot_live (sp_slots (sp_compacted p) ! i) = slot_live (sp_slots p ! i))
    \<and> contiguous_free_bytes (sp_compacted p) = available_free_bytes p
    \<and> live_bytes (sp_slots (sp_compacted p)) = live_bytes (sp_slots p)
    \<and> sp_page_id (sp_compacted p) = sp_page_id p"
proof -
  obtain slots cursor buf where c:
    "compact_slots (sp_buffer p) (sp_slots p) SLOTTED_BODY_SIZE (replicate SLOTTED_BODY_SIZE 0)
       = (slots, cursor, buf)" by (metis prod_cases3)
  have bounds: "\<forall>s \<in> set (sp_slots p). slot_live s \<longrightarrow> sl_offset s + sl_length s \<le> length (sp_buffer p)"
    using valid_slot_bounds(2) [OF assms] by (auto simp: in_set_conv_nth)
  have lb: "live_bytes (sp_slots p) \<le> SLOTTED_BODY_SIZE" using valid_live_bytes [OF assms] by simp
  have spec: "length slots = length (sp_slots p)" "cursor = SLOTTED_BODY_SIZE - live_bytes (sp_slots p)"
    "length buf = SLOTTED_BODY_SIZE"
    "\<forall>i < length (sp_slots p). same_slot_contents (sp_buffer p) (sp_slots p ! i) buf (slots ! i)"
    "extents_ok cursor SLOTTED_BODY_SIZE slots"
    using compact_slots_spec [OF c bounds lb] by auto
  have pc: "sp_compacted p = p\<lparr>sp_slots := slots, sp_buffer := buf, sp_upper := cursor\<rparr>"
    by (simp add: sp_compacted_def c)
  have lower: "sp_lower (sp_compacted p) = sp_lower p" by (simp add: pc sp_lower_def spec(1))
  have "sp_lower p \<le> sp_upper p" using assms by (simp add: sp_valid_iff)
  then have "sp_lower p \<le> cursor" using valid_live_bytes [OF assms] spec(2) by linarith
  then have "sp_valid (sp_compacted p)" using spec lower by (simp add: sp_valid_iff pc)
  moreover have "sp_abs (sp_compacted p) = sp_abs p" using spec by (intro sp_abs_eqI) (simp_all add: pc)
  moreover have "contiguous_free_bytes (sp_compacted p) = available_free_bytes p"
    using lower spec(2) lb by (simp add: contiguous_free_bytes_def available_free_bytes_def pc)
  moreover have live: "slot_live (slots ! i) = slot_live (sp_slots p ! i)
      \<and> (slot_live (slots ! i) \<longrightarrow> sl_length (slots ! i) = sl_length (sp_slots p ! i))"
    if "i < length (sp_slots p)" for i
    using spec(4) that by (auto simp: same_slot_contents_def split: if_splits)
  moreover have "live_bytes slots = live_bytes (sp_slots p)"
  proof -
    have "list_all2 (\<lambda>s t. slot_live s = slot_live t \<and> (slot_live s \<longrightarrow> sl_length s = sl_length t))
        slots (sp_slots p)"
      using live spec(1) by (simp add: list_all2_conv_all_nth)
    then show ?thesis by (induction rule: list_all2_induct) (auto simp: live_bytes_def)
  qed
  ultimately show ?thesis using spec(1) by (simp add: pc)
qed

lemma sp_compact_eq: "sp_valid p \<Longrightarrow> sp_compact p = (Inr (), sp_compacted p)"
  using sp_compacted_spec [of p] by (simp add: sp_compact_def sm_validate_valid)

section \<open>Placing an extent\<close>

text \<open>
  The step insertion and replacement share: put \<open>v\<close> just below the extents of a valid page
  and let slot \<open>sid\<close> (dead, or new at the end) refer to it.
\<close>

definition sp_place :: "slotted_page \<Rightarrow> nat \<Rightarrow> bytes \<Rightarrow> slotted_page" where
  "sp_place p sid v =
     (let upper = sp_upper p - length v; s = live_slot_at upper (length v)
      in p\<lparr>sp_upper := upper, sp_buffer := py_splice (sp_buffer p) upper v,
           sp_slots := (if sid = length (sp_slots p) then sp_slots p @ [s] else (sp_slots p)[sid := s])\<rparr>)"

lemma sp_place_spec:
  assumes "sp_valid p" and "sid \<le> length (sp_slots p)"
    and dead: "sid < length (sp_slots p) \<Longrightarrow> \<not> slot_live (sp_slots p ! sid)"
    and fits: "int (length v + (if sid = length (sp_slots p) then SLOT_ENTRY_SIZE else 0))
        \<le> contiguous_free_bytes p"
  shows "sp_valid (sp_place p sid v)"
    and "sp_abs (sp_place p sid v) =
      (if sid = length (sp_slots p) then sp_abs p @ [Some v] else (sp_abs p)[sid := Some v])"
proof -
  define u where "u = sp_upper p - length v"
  define q where "q = sp_place p sid v"
  define n where "n = length (sp_slots p)"
  have vp: "length (sp_buffer p) = SLOTTED_BODY_SIZE" "sp_lower p \<le> sp_upper p"
    "sp_upper p \<le> SLOTTED_BODY_SIZE" "extents_ok (sp_upper p) SLOTTED_BODY_SIZE (sp_slots p)"
    using assms(1) by (auto simp: sp_valid_iff)
  have u: "u + length v = sp_upper p"
    using fits vp(2) by (simp add: u_def contiguous_free_bytes_def split: if_splits)
  have buf: "sp_buffer q = py_splice (sp_buffer p) u v" and upper: "sp_upper q = u"
    by (simp_all add: q_def sp_place_def Let_def u_def)
  have len: "length (sp_slots q) = (if sid = n then Suc n else n)"
    by (simp add: q_def sp_place_def Let_def n_def)
  have nth: "sp_slots q ! i = (if i = sid then live_slot_at u (length v) else sp_slots p ! i)"
    if "i < length (sp_slots q)" for i
    using that assms(2) by (auto simp: q_def sp_place_def Let_def u_def n_def nth_append less_Suc_eq)
  have old: "i < n" if "i < length (sp_slots q)" "i \<noteq> sid" for i
    using that len assms(2) by (auto simp: n_def split: if_splits)
  have lower: "sp_lower q \<le> u"
    using fits vp(2) u len
    by (auto simp: contiguous_free_bytes_def sp_lower_def n_def BODY_HEADER_SIZE_def
        SLOT_ENTRY_SIZE_def split: if_splits)
  have ext: "extents_ok u SLOTTED_BODY_SIZE (sp_slots q)"
    unfolding extents_ok_def
  proof (intro conjI allI impI)
    fix i assume i: "i < length (sp_slots q)" "slot_live (sp_slots q ! i)"
    show "u \<le> sl_offset (sp_slots q ! i)"
      using i old [OF i(1)] vp(4) u by (auto simp: nth extents_ok_def n_def)
    show "sl_offset (sp_slots q ! i) + sl_length (sp_slots q ! i) \<le> SLOTTED_BODY_SIZE"
      using i old [OF i(1)] vp(3,4) u by (auto simp: nth extents_ok_def n_def)
  next
    fix i j assume ij: "i < length (sp_slots q)" "j < length (sp_slots q)" "i \<noteq> j"
    have new: "slot_apart (live_slot_at u (length v)) (sp_slots p ! k)" if "k < n" for k
      using that vp(4) u by (auto simp: slot_apart_def extents_ok_def n_def)
    show "slot_apart (sp_slots q ! i) (sp_slots q ! j)"
      using ij old [OF ij(1)] old [OF ij(2)] new vp(4) slot_apart_sym
      by (auto simp: nth extents_ok_def n_def)
  qed
  show "sp_valid q"
    using ext lower u vp by (simp add: sp_valid_iff upper buf)
  have "sp_abs q ! i = (if i = sid then Some v else sp_abs p ! i)" if i: "i < length (sp_slots q)" for i
  proof (cases "i = sid")
    case True
    have "slot_value (sp_buffer q) (live_slot_at u (length v)) = v"
      using u vp(1,3) py_slice_splice_same [of u v "sp_buffer p"] by (simp add: slot_value_def buf)
    then show ?thesis using True i by (simp add: nth_sp_abs nth)
  next
    case False
    then have n: "i < n" using old [OF i] by simp
    have "slot_value (sp_buffer q) (sp_slots p ! i) = slot_value (sp_buffer p) (sp_slots p ! i)"
      if "slot_live (sp_slots p ! i)"
      using that n vp u unfolding slot_value_def buf
      by (intro py_slice_splice_disjoint) (auto simp: extents_ok_def n_def)
    then show ?thesis using False i n by (simp add: nth_sp_abs nth n_def)
  qed
  then show "sp_abs q = (if sid = length (sp_slots p) then sp_abs p @ [Some v] else (sp_abs p)[sid := Some v])"
    using len assms(2) by (intro nth_equalityI) (auto simp: n_def nth_append nth_list_update less_Suc_eq)
qed

section \<open>The operations implement the abstract page\<close>

lemma abs_insert_position:
  fixes p v
  defines "sid \<equiv> fst (abs_insert v (sp_abs p))" and "n \<equiv> length (sp_slots p)"
  shows "sid = (case first_dead (sp_slots p) 0 of None \<Rightarrow> n | Some d \<Rightarrow> d)"
    and "sid \<le> n" and "sid < n \<Longrightarrow> \<not> slot_live (sp_slots p ! sid)"
    and "directory_growth p = (if sid = n then SLOT_ENTRY_SIZE else 0)"
    and "snd (abs_insert v (sp_abs p)) =
      (if sid = n then sp_abs p @ [Some v] else (sp_abs p)[sid := Some v])"
proof -
  have "sid = (case first_dead (sp_slots p) 0 of None \<Rightarrow> n | Some d \<Rightarrow> d) \<and> sid \<le> n
    \<and> (sid < n \<longrightarrow> \<not> slot_live (sp_slots p ! sid))
    \<and> directory_growth p = (if sid = n then SLOT_ENTRY_SIZE else 0)
    \<and> snd (abs_insert v (sp_abs p)) =
       (if sid = n then sp_abs p @ [Some v] else (sp_abs p)[sid := Some v])"
  proof (cases "first_dead (sp_slots p) 0")
    case None
    then have "None \<notin> set (sp_abs p)" by (simp add: None_in_sp_abs)
    then show ?thesis
      using None abs_insert_full [of "sp_abs p" v] by (simp add: sid_def n_def directory_growth_def)
  next
    case (Some d)
    note fd = first_dead_0 [OF Some]
    have "None \<in> set (sp_abs p)" using Some by (simp add: None_in_sp_abs)
    moreover have "abs_insert v (sp_abs p) = (d, (sp_abs p)[d := Some v])"
      using fd by (intro abs_insert_reuse) (simp_all add: nth_sp_abs)
    ultimately show ?thesis using Some fd by (simp add: sid_def n_def directory_growth_def)
  qed
  then show "sid = (case first_dead (sp_slots p) 0 of None \<Rightarrow> n | Some d \<Rightarrow> d)"
    and "sid \<le> n" and "sid < n \<Longrightarrow> \<not> slot_live (sp_slots p ! sid)"
    and "directory_growth p = (if sid = n then SLOT_ENTRY_SIZE else 0)"
    and "snd (abs_insert v (sp_abs p)) =
      (if sid = n then sp_abs p @ [Some v] else (sp_abs p)[sid := Some v])"
    by blast+
qed

text \<open>The page the insertion works on: compacted only when the contiguous space is too small.\<close>

definition insert_base :: "bytes \<Rightarrow> slotted_page \<Rightarrow> slotted_page" where
  "insert_base v p =
     (if contiguous_free_bytes p < int (length v + directory_growth p) then sp_compacted p else p)"

lemma insert_base_spec:
  assumes "sp_valid p"
  shows "sp_valid (insert_base v p)" and "sp_abs (insert_base v p) = sp_abs p"
    and "length (sp_slots (insert_base v p)) = length (sp_slots p)"
    and "sp_page_id (insert_base v p) = sp_page_id p"
    and "\<forall>i < length (sp_slots p). slot_live (sp_slots (insert_base v p) ! i) = slot_live (sp_slots p ! i)"
    and "contiguous_free_bytes (insert_base v p) < int (length v + directory_growth p)
      \<longleftrightarrow> \<not> int (length v + directory_growth p) \<le> available_free_bytes p"
  using sp_compacted_spec [OF assms] valid_contiguous_le [OF assms] assms
  by (auto simp: insert_base_def)

lemma sp_insert_unfold:
  assumes "sp_valid p"
  shows "sp_insert v p =
    (if contiguous_free_bytes (insert_base v p) < int (length v + directory_growth p)
     then (Inl PageFull, insert_base v p)
     else (res_bind (sp_validate (sp_place (insert_base v p) (fst (abs_insert v (sp_abs p))) v))
             (\<lambda>_. Inr (fst (abs_insert v (sp_abs p)))),
           sp_place (insert_base v p) (fst (abs_insert v (sp_abs p))) v))"
proof -
  note pos = abs_insert_position [where p = p and v = v]
  note len = insert_base_spec(3) [OF assms, of v]
  have grow: "(if first_dead (sp_slots p) 0 = None then SLOT_ENTRY_SIZE else 0) = directory_growth p"
    by (auto simp: directory_growth_def None_in_sp_abs)
  have sid: "(case first_dead (sp_slots p) 0 of None \<Rightarrow> length (sp_slots (insert_base v p)) | Some d \<Rightarrow> d)
      = fst (abs_insert v (sp_abs p))"
    using pos(1) len by (simp split: option.splits)
  have slots: "(case first_dead (sp_slots p) 0 of
        None \<Rightarrow> sp_slots (insert_base v p) @ [s] | Some d \<Rightarrow> (sp_slots (insert_base v p))[d := s])
     = (if fst (abs_insert v (sp_abs p)) = length (sp_slots (insert_base v p))
        then sp_slots (insert_base v p) @ [s]
        else (sp_slots (insert_base v p))[fst (abs_insert v (sp_abs p)) := s])" for s
    using pos(1) len by (auto dest: first_dead_0 split: option.splits)
  have step: "(if contiguous_free_bytes p < int (length v + directory_growth p) then sp_compact
       else sm_return ()) p = (Inr (), insert_base v p)"
    using sp_compact_eq [OF assms] by (simp add: insert_base_def)
  show ?thesis
    unfolding sp_insert_def Let_def grow sm_bind_def step
    by (simp add: sm_validate_def sp_place_def Let_def res_bind_def sid slots
        split: sum.splits)
qed

lemma sp_insert_abs:
  assumes "sp_valid p"
  shows "if int (length v + directory_growth p) \<le> available_free_bytes p
    then \<exists>p'. sp_insert v p = (Inr (fst (abs_insert v (sp_abs p))), p') \<and> sp_valid p'
           \<and> sp_abs p' = snd (abs_insert v (sp_abs p))
    else \<exists>p'. sp_insert v p = (Inl PageFull, p') \<and> sp_valid p' \<and> sp_abs p' = sp_abs p"
proof (cases "int (length v + directory_growth p) \<le> available_free_bytes p")
  case False
  then show ?thesis
    using sp_insert_unfold [OF assms, of v] insert_base_spec [OF assms, of v] by simp
next
  case True
  define sid where "sid = fst (abs_insert v (sp_abs p))"
  note base = insert_base_spec [OF assms, of v]
  note pos = abs_insert_position [where p = p and v = v, folded sid_def]
  have "sp_valid (sp_place (insert_base v p) sid v)"
    and "sp_abs (sp_place (insert_base v p) sid v) = snd (abs_insert v (sp_abs p))"
    using sp_place_spec [OF base(1), of sid v] base pos True by auto
  then show ?thesis
    using True sp_insert_unfold [OF assms, of v] base(6) by (simp add: sid_def)
qed

lemma extents_ok_update:
  assumes "extents_ok lo hi slots"
    and "i < length slots \<Longrightarrow> slot_live s \<Longrightarrow>
      slot_live (slots ! i) \<and> sl_offset s = sl_offset (slots ! i) \<and> sl_length s \<le> sl_length (slots ! i)"
  shows "extents_ok lo hi (slots[i := s])"
proof -
  have shrink: "slot_apart s t" if "i < length slots" "slot_apart (slots ! i) t" for t
    using assms(2) [OF that(1)] that(2) by (auto simp: slot_apart_def)
  have ext: "slot_live (slots ! k) \<Longrightarrow>
      lo \<le> sl_offset (slots ! k) \<and> sl_offset (slots ! k) + sl_length (slots ! k) \<le> hi"
    if "k < length slots" for k using assms(1) that by (simp add: extents_ok_def)
  have ap: "slot_apart (slots ! k) (slots ! l)" if "k < length slots" "l < length slots" "k \<noteq> l" for k l
    using assms(1) that by (simp add: extents_ok_def)
  have new: "slot_apart s (slots ! l) \<and> slot_apart (slots ! l) s"
    if "i < length slots" "l < length slots" "i \<noteq> l" for l
    using shrink [OF that(1) ap [OF that]] slot_apart_sym by blast
  show ?thesis
    unfolding extents_ok_def length_list_update
  proof (intro conjI allI impI)
    fix k assume k: "k < length slots" "slot_live (slots[i := s] ! k)"
    then have "slot_live (slots ! k) \<and> sl_offset (slots[i := s] ! k) = sl_offset (slots ! k)
        \<and> sl_length (slots[i := s] ! k) \<le> sl_length (slots ! k)"
      using assms(2) by (cases "k = i") auto
    then show "lo \<le> sl_offset (slots[i := s] ! k)"
      and "sl_offset (slots[i := s] ! k) + sl_length (slots[i := s] ! k) \<le> hi"
      using ext [OF k(1)] by auto
  next
    fix k l assume "k < length slots" "l < length slots" "k \<noteq> l"
    then show "slot_apart (slots[i := s] ! k) (slots[i := s] ! l)"
      using new ap by (cases "k = i"; cases "l = i") auto
  qed
qed

lemma sp_read_abs:
  "sp_read p sid =
     (if sid < length (sp_slots p) then (case sp_abs p ! sid of None \<Rightarrow> Inl PyKeyError | Some v \<Rightarrow> Inr v)
      else Inl PyKeyError)"
  by (simp add: sp_read_def sp_live_slot_def nth_sp_abs)

lemma sp_delete_abs:
  assumes "sp_valid p"
  shows "if sid < length (sp_abs p) \<and> sp_abs p ! sid \<noteq> None
    then sp_read p sid = Inr (the (sp_abs p ! sid))
      \<and> (\<exists>p'. sp_delete sid p = (Inr (the (sp_abs p ! sid)), p') \<and> sp_valid p'
          \<and> sp_abs p' = (sp_abs p)[sid := None])
    else sp_read p sid = Inl PyKeyError \<and> sp_delete sid p = (Inl PyKeyError, p)"
proof (cases "sid < length (sp_abs p) \<and> sp_abs p ! sid \<noteq> None")
  case True
  define p' where "p' = p\<lparr>sp_slots := (sp_slots p)[sid := dead_slot]\<rparr>"
  have read: "sp_read p sid = Inr (the (sp_abs p ! sid))" using True by (auto simp: sp_read_abs)
  have "extents_ok (sp_upper p) SLOTTED_BODY_SIZE (sp_slots p')"
    using assms by (auto simp: p'_def sp_valid_iff intro: extents_ok_update)
  then have valid: "sp_valid p'" using assms by (simp add: sp_valid_iff p'_def sp_lower_def)
  have "sp_buffer p' = sp_buffer p" and "sp_slots p' = (sp_slots p)[sid := dead_slot]"
    by (simp_all add: p'_def)
  then have abs: "sp_abs p' = (sp_abs p)[sid := None]" by (simp add: sp_abs_def map_update cong: if_cong)
  have "sp_delete sid p = (Inr (the (sp_abs p ! sid)), p')"
    using valid by (simp add: sp_delete_def sm_bind_def read sm_validate_def p'_def [symmetric])
  then show ?thesis using True read valid abs by auto
next
  case False
  then have "sp_read p sid = Inl PyKeyError" by (auto simp: sp_read_abs)
  then show ?thesis using False by (simp add: sp_delete_def sm_bind_def)
qed

section \<open>Bodies read back\<close>

text \<open>What the on-page format can represent of a dead slot; live slots are bounded by validity.\<close>

definition dead_ok :: "slot list \<Rightarrow> bool" where
  "dead_ok slots \<longleftrightarrow>
     (\<forall>s \<in> set slots. \<not> slot_live s \<longrightarrow> sl_flags s = DEAD \<and> sl_offset s < 65536 \<and> sl_length s < 65536)"

definition sp_wf :: "slotted_page \<Rightarrow> bool" where
  "sp_wf p \<longleftrightarrow> sp_valid p \<and> dead_ok (sp_slots p)"

definition slot_fields :: "slot \<Rightarrow> (nat \<times> nat) list" where
  "slot_fields s = [(2, sl_offset s), (2, sl_length s), (1, sl_flags s), (3, 0)]"

definition slot_encodable :: "slot \<Rightarrow> bool" where
  "slot_encodable s \<longleftrightarrow>
     sl_offset s < 65536 \<and> sl_length s < 65536 \<and> (sl_flags s = DEAD \<or> sl_flags s = LIVE)"

lemma length_SLOTTED_MAGIC [simp]: "length SLOTTED_MAGIC = 4"
  by (simp add: SLOTTED_MAGIC_def)

lemma uint_at_slice:
  "j + k \<le> n \<Longrightarrow> uint_at (py_slice bs off (off + n)) j k = uint_at bs (off + j) k"
  by (simp add: uint_at_def py_slice_def min_def drop_take add.commute)

lemma read_slot_entry:
  assumes "slot_encodable s" and "BODY_HEADER_SIZE + i * SLOT_ENTRY_SIZE + 8 \<le> length body"
    and "py_slice body (BODY_HEADER_SIZE + i * SLOT_ENTRY_SIZE) (BODY_HEADER_SIZE + i * SLOT_ENTRY_SIZE + 8)
      = fields_bytes (slot_fields s)"
  shows "read_slot body i = Inr s"
proof -
  define off where "off = BODY_HEADER_SIZE + i * SLOT_ENTRY_SIZE"
  have ok: "fields_ok (slot_fields s)"
    using assms(1) by (auto simp: fields_ok_def slot_fields_def slot_encodable_def DEAD_def LIVE_def)
  have at: "uint_at body (off + sum_list (map fst (take k (slot_fields s)))) (fst (slot_fields s ! k))
      = snd (slot_fields s ! k)" if "k < 4" for k
    using uint_at_fields [OF ok, of k "[]" "[]"] that
      uint_at_slice [of "sum_list (map fst (take k (slot_fields s)))" "fst (slot_fields s ! k)" 8 body off]
    unfolding assms(3) [folded off_def]
    by (auto simp: slot_fields_def less_Suc_eq numeral_eq_Suc)
  have "uint_at body off 2 = sl_offset s" "uint_at body (off + 2) 2 = sl_length s"
    "uint_at body (off + 4) 1 = sl_flags s"
    using at [of 0] at [of 1] at [of 2] by (simp_all add: slot_fields_def)
  moreover have "\<not> length body < off + SLOT_ENTRY_SIZE" using assms(2) by (simp add: off_def SLOT_ENTRY_SIZE_def)
  ultimately show ?thesis
    using assms(1) by (auto simp: read_slot_def Let_def off_def [symmetric] slot_encodable_def)
qed

lemma pack_slots_spec:
  "(\<forall>s \<in> set ss. slot_encodable s) \<Longrightarrow>
   BODY_HEADER_SIZE + (k + length ss) * SLOT_ENTRY_SIZE \<le> length enc \<Longrightarrow>
   \<exists>enc'. pack_slots k ss enc = Inr enc' \<and> length enc' = length enc
     \<and> (\<forall>i < length ss. read_slot enc' (k + i) = Inr (ss ! i))
     \<and> (\<forall>a b. b \<le> BODY_HEADER_SIZE + k * SLOT_ENTRY_SIZE
          \<or> BODY_HEADER_SIZE + (k + length ss) * SLOT_ENTRY_SIZE \<le> a \<longrightarrow> py_slice enc' a b = py_slice enc a b)"
proof (induction ss arbitrary: k enc)
  case Nil
  then show ?case by simp
next
  case (Cons s ss)
  define off where "off = BODY_HEADER_SIZE + k * SLOT_ENTRY_SIZE"
  define entry where "entry = fields_bytes (slot_fields s)"
  define enc1 where "enc1 = py_splice enc off entry"
  have s: "slot_encodable s" and ss: "\<forall>s \<in> set ss. slot_encodable s" using Cons.prems(1) by auto
  have entry: "pack_fields [(2, sl_offset s), (2, sl_length s), (1, sl_flags s), (3, 0)] = Inr entry"
    using s pack_fields_eq [of "slot_fields s"]
    by (auto simp: entry_def slot_fields_def fields_ok_def slot_encodable_def DEAD_def LIVE_def)
  have len: "length entry = 8" by (simp add: entry_def length_fields_bytes slot_fields_def)
  have room: "off + 8 \<le> length enc" "off + 8 = BODY_HEADER_SIZE + Suc k * SLOT_ENTRY_SIZE"
    using Cons.prems(2) by (simp_all add: off_def slotted_sizes)
  have len1: "length enc1 = length enc" using room len by (simp add: enc1_def)
  obtain enc' where enc': "pack_slots (Suc k) ss enc1 = Inr enc'" "length enc' = length enc1"
    "\<forall>i < length ss. read_slot enc' (Suc k + i) = Inr (ss ! i)"
    "\<forall>a b. b \<le> off + 8 \<or> BODY_HEADER_SIZE + (Suc k + length ss) * SLOT_ENTRY_SIZE \<le> a
       \<longrightarrow> py_slice enc' a b = py_slice enc1 a b"
    using Cons.IH [OF ss, of "Suc k" enc1] Cons.prems(2) len1 room by auto
  have "py_slice enc' off (off + 8) = entry"
    using enc'(4) room len py_slice_splice_same [of off entry enc] by (simp add: enc1_def)
  then have "read_slot enc' k = Inr s"
    using s room(1) len1 enc'(2) by (intro read_slot_entry) (simp_all add: off_def entry_def)
  then have "\<forall>i < length (s # ss). read_slot enc' (k + i) = Inr ((s # ss) ! i)"
    using enc'(3) by (auto simp: nth_Cons split: nat.splits)
  moreover have "py_slice enc' a b = py_slice enc a b"
    if "b \<le> off \<or> BODY_HEADER_SIZE + (k + length (s # ss)) * SLOT_ENTRY_SIZE \<le> a" for a b
  proof -
    have "off + 8 \<le> a" if "BODY_HEADER_SIZE + (k + length (s # ss)) * SLOT_ENTRY_SIZE \<le> a"
      using that by (simp add: off_def slotted_sizes)
    then have apart: "b \<le> off \<or> off + 8 \<le> a" using that by blast
    have "py_slice enc' a b = py_slice enc1 a b" using that enc'(4) by auto
    also have "\<dots> = py_slice enc a b"
      unfolding enc1_def using apart room len by (intro py_slice_splice_disjoint) auto
    finally show ?thesis .
  qed
  ultimately show ?case
    using enc'(1,2) entry len1 by (auto simp: off_def enc1_def)
qed

lemma sp_wf_encodable:
  assumes "sp_wf p" and "s \<in> set (sp_slots p)"
  shows "slot_encodable s"
proof (cases "slot_live s")
  case True
  obtain i where "i < length (sp_slots p)" "s = sp_slots p ! i" using assms(2) by (auto simp: in_set_conv_nth)
  then show ?thesis
    using assms(1) valid_slot_bounds [of p i] True
    by (auto simp: sp_wf_def sp_valid_iff slot_encodable_def slot_live_def slotted_sizes)
next
  case False
  then show ?thesis using assms by (auto simp: sp_wf_def dead_ok_def slot_encodable_def)
qed

lemma slotted_bytes_read_back:
  assumes "sp_wf p"
  shows "\<exists>body p'. slotted_to_bytes p = Inr body \<and> length body = SLOTTED_BODY_SIZE
    \<and> slotted_from_bytes (sp_page_id p) body = Inr p' \<and> sp_wf p' \<and> sp_abs p' = sp_abs p
    \<and> sp_slots p' = sp_slots p \<and> sp_upper p' = sp_upper p \<and> sp_page_id p' = sp_page_id p"
proof -
  have v: "sp_valid p" using assms by (simp add: sp_wf_def)
  define n where "n = length (sp_slots p)"
  have bnd: "length (sp_buffer p) = SLOTTED_BODY_SIZE" "12 + n * 8 \<le> sp_upper p" "sp_upper p \<le> 8148"
    using v by (auto simp: sp_valid_iff sp_lower_def n_def slotted_sizes)
  define fs :: "(nat \<times> nat) list" where "fs = [(2, n), (2, sp_lower p), (2, sp_upper p), (2, 0)]"
  have fok: "fields_ok fs" using bnd by (simp add: fs_def fields_ok_def sp_lower_def n_def slotted_sizes)
  define hd where "hd = SLOTTED_MAGIC @ fields_bytes fs"
  have hd_len: "length hd = 12" by (simp add: hd_def length_fields_bytes fs_def)
  define enc where "enc = py_splice (sp_buffer p) 0 hd"
  have enc_len: "length enc = SLOTTED_BODY_SIZE" using bnd hd_len by (simp add: enc_def slotted_sizes)
  obtain body where body: "pack_slots 0 (sp_slots p) enc = Inr body" "length body = length enc"
    "\<forall>i < n. read_slot body i = Inr (sp_slots p ! i)"
    "\<forall>a b. b \<le> 12 \<or> 12 + n * 8 \<le> a \<longrightarrow> py_slice body a b = py_slice enc a b"
    using pack_slots_spec [of "sp_slots p" 0 enc] sp_wf_encodable [OF assms] bnd enc_len
    by (auto simp: n_def slotted_sizes)
  have enc_hd: "py_slice enc a b = py_slice (hd @ []) a b" if "b \<le> 12" for a b
    using that hd_len by (simp add: enc_def py_splice_def py_slice_append_left)
  have at: "uint_at body off k = uint_at (hd @ []) off k" if "off + k \<le> 12" for off k
    using that body(4) enc_hd by (simp add: uint_at_def)
  have f: "uint_at body (4 + sum_list (map fst (take i fs))) (fst (fs ! i)) = snd (fs ! i)" if "i < 3" for i
  proof -
    have "4 + sum_list (map fst (take i fs)) + fst (fs ! i) \<le> 12"
      using that by (auto simp: fs_def less_Suc_eq numeral_eq_Suc)
    then show ?thesis
      using uint_at_fields [OF fok, of i SLOTTED_MAGIC "[]"] that at [of _ "fst (fs ! i)"]
      by (simp add: hd_def fs_def)
  qed
  have hdr: "uint_at body 4 2 = n" "uint_at body 6 2 = sp_lower p" "uint_at body 8 2 = sp_upper p"
    using f [of 0] f [of 1] f [of 2] by (simp_all add: fs_def)
  have magic: "py_slice body 0 4 = SLOTTED_MAGIC"
    using body(4) enc_hd by (simp add: hd_def layout_simps)
  have slots: "res_mapM (read_slot body) [0..<n] = Inr (sp_slots p)"
    using body(3) by (simp add: res_mapM_Inr_iff n_def)
  define p' where "p' = \<lparr>sp_page_id = sp_page_id p, sp_buffer = body, sp_slots = sp_slots p,
      sp_upper = sp_upper p\<rparr>"
  have valid: "sp_valid p'"
    using v body(2) enc_len by (simp add: sp_valid_iff p'_def sp_lower_def)
  have "slot_value body s = slot_value (sp_buffer p) s" if s: "s \<in> set (sp_slots p)" "slot_live s" for s
  proof -
    obtain i where i: "i < length (sp_slots p)" "s = sp_slots p ! i"
      using s(1) by (metis in_set_conv_nth)
    then have "12 + n * 8 \<le> sl_offset s" using valid_slot_bounds(1) [OF v] s(2) bnd(2) by fastforce
    then show ?thesis
      using body(4) hd_len bnd
      by (simp add: slot_value_def enc_def py_slice_splice_disjoint slotted_sizes)
  qed
  then have abs: "sp_abs p' = sp_abs p" by (simp add: sp_abs_def p'_def cong: if_cong)
  have to: "slotted_to_bytes p = Inr body"
    using v fok body(1)
    by (simp add: slotted_to_bytes_def pack_fields_eq n_def [symmetric] fs_def [symmetric] hd_def
        [symmetric] enc_def [symmetric] del: pack_fields.simps)
  have "slotted_from_bytes (sp_page_id p) body = Inr p'"
    using valid body(2) enc_len hdr magic slots
    by (simp add: slotted_from_bytes_def Let_def mk_slotted_page_def p'_def [symmetric]
        sp_lower_def n_def [symmetric])
  then show ?thesis
    using to body(2) enc_len valid abs assms by (auto simp: sp_wf_def p'_def)
qed


section \<open>Encodability is kept, and replacement\<close>

lemma dead_ok_update: "dead_ok slots \<Longrightarrow> slot_live s \<or> s = dead_slot \<Longrightarrow> dead_ok (slots[i := s])"
  by (auto simp: dead_ok_def dead_slot_def dest!: set_update_subset_insert [THEN subsetD])

lemma dead_ok_compact_slots:
  "compact_slots b slots c d = (slots', c', d') \<Longrightarrow> dead_ok slots \<Longrightarrow> dead_ok slots'"
proof (induction b slots c d arbitrary: slots' c' d' rule: compact_slots.induct)
  case (2 b s ss c d)
  then show ?case
    by (cases "slot_live s") (fastforce simp: Let_def dead_ok_def split: prod.splits)+
qed (simp add: dead_ok_def)

lemma dead_ok_compacted: "dead_ok (sp_slots p) \<Longrightarrow> dead_ok (sp_slots (sp_compacted p))"
  by (auto simp: sp_compacted_def dest: dead_ok_compact_slots split: prod.splits)

lemma dead_ok_place:
  assumes "dead_ok (sp_slots p)"
  shows "dead_ok (sp_slots (sp_place p sid v))"
proof -
  have "dead_ok (sp_slots p @ [live_slot_at u n])" for u n
    using assms by (auto simp: dead_ok_def)
  then show ?thesis
    using dead_ok_update [OF assms] by (simp add: sp_place_def Let_def)
qed

lemma sp_wf_valid: "sp_wf p \<Longrightarrow> sp_valid p"
  by (simp add: sp_wf_def)

lemma sp_insert_wf: "sp_wf p \<Longrightarrow> sp_insert v p = (r, p') \<Longrightarrow> sp_wf p'"
  using sp_insert_abs [of p v] sp_insert_unfold [of p v]
    dead_ok_place [of "insert_base v p"] dead_ok_compacted [of p]
  by (auto simp: sp_wf_def insert_base_def split: if_splits)

lemma sp_delete_wf: "sp_wf p \<Longrightarrow> sp_delete sid p = (r, p') \<Longrightarrow> sp_wf p'"
  using sp_delete_abs [of p sid] dead_ok_update [of "sp_slots p" dead_slot sid]
  by (auto simp: sp_wf_def sp_delete_def sm_bind_def sm_validate_def split: if_splits sum.splits)

lemma live_bytes_kill:
  "i < length slots \<Longrightarrow> slot_live (slots ! i) \<Longrightarrow>
     live_bytes (slots[i := dead_slot]) + sl_length (slots ! i) = live_bytes slots"
proof (induction slots arbitrary: i)
  case Nil
  then show ?case by simp
next
  case (Cons s ss)
  then show ?case by (cases i) (auto simp: live_bytes_Cons)
qed

lemma sp_abs_slots_update:
  "sp_abs (p\<lparr>sp_slots := (sp_slots p)[i := s]\<rparr>) =
     (sp_abs p)[i := if slot_live s then Some (slot_value (sp_buffer p) s) else None]"
  by (simp add: sp_abs_def map_update cong: if_cong)

lemma sp_killed:
  assumes "sp_wf p" and "sid < length (sp_slots p)" and "slot_live (sp_slots p ! sid)"
  defines "q \<equiv> p\<lparr>sp_slots := (sp_slots p)[sid := dead_slot]\<rparr>"
  shows "sp_wf q" and "sp_abs q = (sp_abs p)[sid := None]"
    and "available_free_bytes q = available_free_bytes p + int (sl_length (sp_slots p ! sid))"
proof -
  have "extents_ok (sp_upper p) SLOTTED_BODY_SIZE ((sp_slots p)[sid := dead_slot])"
    using assms(1) by (auto simp: sp_wf_def sp_valid_iff intro: extents_ok_update)
  then show "sp_wf q"
    using assms(1) dead_ok_update [of "sp_slots p" dead_slot sid]
    by (simp add: q_def sp_wf_def sp_valid_iff sp_lower_def)
  show "sp_abs q = (sp_abs p)[sid := None]" by (simp add: q_def sp_abs_slots_update)
  show "available_free_bytes q = available_free_bytes p + int (sl_length (sp_slots p ! sid))"
    using live_bytes_kill [OF assms(2,3)] by (simp add: q_def available_free_bytes_def sp_lower_def)
qed

lemma sp_regrown_spec:
  assumes "sp_wf p" and sid: "sid < length (sp_slots p)" and live: "slot_live (sp_slots p ! sid)"
  shows "if int (length v) \<le> available_free_bytes p + int (sl_length (sp_slots p ! sid))
    then \<exists>w. sp_regrown p sid v = Inr w \<and> sp_wf w \<and> sp_abs w = (sp_abs p)[sid := Some v]
    else sp_regrown p sid v = Inl PageFull"
proof -
  obtain body w0 where w0: "slotted_to_bytes p = Inr body"
    "slotted_from_bytes (sp_page_id p) body = Inr w0" "sp_wf w0" "sp_abs w0 = sp_abs p"
    "sp_slots w0 = sp_slots p" "sp_upper w0 = sp_upper p"
    using slotted_bytes_read_back [OF assms(1)] by blast
  define w1 where "w1 = w0\<lparr>sp_slots := (sp_slots w0)[sid := dead_slot]\<rparr>"
  define w2 where "w2 = sp_compacted w1"
  have w1: "sp_wf w1" "sp_abs w1 = (sp_abs p)[sid := None]"
    "available_free_bytes w1 = available_free_bytes p + int (sl_length (sp_slots p ! sid))"
    "length (sp_slots w1) = length (sp_slots p)"
    using sp_killed [OF w0(3), of sid] sid live w0
    by (simp_all add: w1_def available_free_bytes_def sp_lower_def)
  have w2: "sp_valid w2" "dead_ok (sp_slots w2)" "sp_abs w2 = (sp_abs p)[sid := None]"
    "length (sp_slots w2) = length (sp_slots p)"
    "contiguous_free_bytes w2 = available_free_bytes p + int (sl_length (sp_slots p ! sid))"
    using sp_compacted_spec [OF sp_wf_valid [OF w1(1)]] dead_ok_compacted [of w1] w1
    by (auto simp: w2_def sp_wf_def)
  have dead: "\<not> slot_live (sp_slots w2 ! sid)"
    using nth_sp_abs [of sid w2] w2(3,4) sid by (auto split: if_splits)
  have c: "sp_compact w1 = (Inr (), w2)"
    using sp_compact_eq [OF sp_wf_valid [OF w1(1)]] by (simp add: w2_def)
  have un: "sp_regrown p sid v = (if contiguous_free_bytes w2 < int (length v) then Inl PageFull
      else Inr (sp_place w2 sid v))"
    using sid w2(4)
    by (simp add: sp_regrown_def w0 w0(5) [symmetric] w1_def [symmetric] c Let_def sp_place_def
        del: w0(5))
  show ?thesis
    using sp_place_spec [OF w2(1), of sid v] dead_ok_place [OF w2(2), of sid v] w2 sid dead
    by (auto simp: un sp_wf_def)
qed

lemma sp_shrunk:
  assumes "sp_wf p" and sid: "sid < length (sp_slots p)" and live: "slot_live (sp_slots p ! sid)"
    and le: "length v \<le> sl_length (sp_slots p ! sid)"
  defines "off \<equiv> sl_offset (sp_slots p ! sid)"
  defines "q \<equiv> p\<lparr>sp_buffer := py_splice (sp_buffer p) off v,
      sp_slots := (sp_slots p)[sid := live_slot_at off (length v)]\<rparr>"
  shows "sp_wf q" and "sp_abs q = (sp_abs p)[sid := Some v]"
proof -
  have v: "sp_valid p" using assms(1) by (simp add: sp_wf_def)
  note b = valid_slot_bounds [OF v sid live]
  have ext: "extents_ok (sp_upper p) SLOTTED_BODY_SIZE ((sp_slots p)[sid := live_slot_at off (length v)])"
    using v live le by (auto simp: sp_valid_iff off_def intro!: extents_ok_update)
  show "sp_wf q"
    using v ext b le assms(1) dead_ok_update [of "sp_slots p" "live_slot_at off (length v)" sid]
    by (simp add: q_def sp_wf_def sp_valid_iff sp_lower_def off_def)
  have slots: "sp_slots q = (sp_slots p)[sid := live_slot_at off (length v)]"
    and buf: "sp_buffer q = py_splice (sp_buffer p) off v" by (simp_all add: q_def)
  have "sp_abs q ! i = (sp_abs p)[sid := Some v] ! i" if i: "i < length (sp_slots p)" for i
  proof (cases "i = sid")
    case True
    then show ?thesis
      using i b le py_slice_splice_same [of off v "sp_buffer p"]
      by (simp add: nth_sp_abs slots buf slot_value_def off_def)
  next
    case False
    have "slot_value (sp_buffer q) (sp_slots p ! i) = slot_value (sp_buffer p) (sp_slots p ! i)"
      if li: "slot_live (sp_slots p ! i)"
    proof (cases "sl_length (sp_slots p ! i) = 0 \<or> v = []")
      case True
      moreover have "py_splice (sp_buffer p) off [] = sp_buffer p" by (simp add: py_splice_def)
      ultimately show ?thesis by (auto simp: slot_value_def buf py_slice_def)
    next
      case False
      then have "sl_length (sp_slots p ! sid) \<noteq> 0" using le by (cases v) auto
      then have "sl_offset (sp_slots p ! sid) + sl_length (sp_slots p ! sid) \<le> sl_offset (sp_slots p ! i)
          \<or> sl_offset (sp_slots p ! i) + sl_length (sp_slots p ! i) \<le> sl_offset (sp_slots p ! sid)"
        using v sid i \<open>i \<noteq> sid\<close> li live False by (auto simp: sp_valid_iff extents_ok_def slot_apart_def)
      then show ?thesis
        unfolding slot_value_def buf using b le
        by (intro py_slice_splice_disjoint) (auto simp: off_def)
    qed
    then show ?thesis using False i by (simp add: nth_sp_abs slots)
  qed
  then show "sp_abs q = (sp_abs p)[sid := Some v]"
    by (intro nth_equalityI) (simp_all add: slots)
qed

lemma sp_replace_abs:
  assumes "sp_wf p"
  shows "if sid < length (sp_abs p) \<and> sp_abs p ! sid \<noteq> None
    then if int (length v) \<le> available_free_bytes p + int (length (the (sp_abs p ! sid)))
         then \<exists>p'. sp_replace sid v p = (Inr (the (sp_abs p ! sid)), p') \<and> sp_wf p'
                \<and> sp_abs p' = (sp_abs p)[sid := Some v]
         else sp_replace sid v p = (Inl PageFull, p)
    else sp_replace sid v p = (Inl PyKeyError, p)"
proof (cases "sid < length (sp_abs p) \<and> sp_abs p ! sid \<noteq> None")
  case False
  then have "sp_read p sid = Inl PyKeyError" by (auto simp: sp_read_abs)
  then show ?thesis using False by (simp add: sp_replace_def sm_bind_def)
next
  case True
  define s where "s = sp_slots p ! sid"
  have sid: "sid < length (sp_slots p)" and live: "slot_live s"
    using True by (auto simp: nth_sp_abs s_def split: if_splits)
  have read: "sp_read p sid = Inr (the (sp_abs p ! sid))" using True by (auto simp: sp_read_abs)
  have v: "sp_valid p" using assms by (simp add: sp_wf_def)
  have len: "length (the (sp_abs p ! sid)) = sl_length s"
    using valid_slot_bounds(2) [OF v sid] sid live
    by (simp add: nth_sp_abs s_def length_slot_value)
  have avail: "0 \<le> available_free_bytes p"
    using valid_contiguous_le [OF v] v by (auto simp: contiguous_free_bytes_def sp_valid_iff)
  show ?thesis
  proof (cases "length v \<le> sl_length s")
    case shorter: True
    define q where "q = p\<lparr>sp_buffer := py_splice (sp_buffer p) (sl_offset s) v,
      sp_slots := (sp_slots p)[sid := live_slot_at (sl_offset s) (length v)]\<rparr>"
    have q: "sp_wf q" "sp_abs q = (sp_abs p)[sid := Some v]"
      using sp_shrunk [OF assms sid] live shorter by (simp_all add: q_def s_def)
    have "sp_replace sid v p = (Inr (the (sp_abs p ! sid)), q)"
      using q(1) shorter
      by (simp add: sp_replace_def sm_bind_def read s_def [symmetric] q_def [symmetric]
          sm_validate_def sp_wf_def)
    then show ?thesis using q True shorter len avail by auto
  next
    case longer: False
    define w' where "w' w = p\<lparr>sp_buffer := sp_buffer w, sp_slots := sp_slots w, sp_upper := sp_upper w\<rparr>"
      for w :: slotted_page
    have w': "sp_wf (w' w) = sp_wf w" "sp_abs (w' w) = sp_abs w" for w
      by (simp_all add: w'_def sp_wf_def sp_valid_iff sp_lower_def sp_abs_def)
    have "sp_replace sid v p = (case sp_regrown p sid v of Inl e \<Rightarrow> (Inl e, p)
        | Inr w \<Rightarrow> (res_bind (sp_validate (w' w)) (\<lambda>_. Inr (the (sp_abs p ! sid))), w' w))"
      using longer
      by (auto simp: sp_replace_def sm_bind_def read s_def [symmetric] w'_def sm_validate_def
          res_bind_def split: sum.splits)
    then show ?thesis
      using sp_regrown_spec [OF assms sid, of v] live True len w' sp_wf_valid [of "w' _"]
      by (auto simp: s_def split: if_splits)
  qed
qed


lemma sp_replace_wf:
  assumes "sp_wf p" and "sp_replace sid v p = (r, p')"
  shows "sp_wf p'"
  using sp_replace_abs [OF assms(1), of sid v] assms by (auto split: if_splits)

section \<open>The interface clients of a page rely on\<close>

text \<open>
  A page as its clients see it: a partial map from stable slot numbers to tuples. The laws
  below are all that the heap layer needs; they are discharged for the slotted page.
\<close>

definition sp_map :: "slotted_page \<Rightarrow> nat \<rightharpoonup> bytes" where
  "sp_map p i = (if i < length (sp_abs p) then sp_abs p ! i else None)"

locale slot_store =
  fixes inv :: "'p \<Rightarrow> bool" and view :: "'p \<Rightarrow> nat \<rightharpoonup> bytes"
    and read :: "'p \<Rightarrow> nat \<Rightarrow> bytes result"
    and ins :: "bytes \<Rightarrow> ('p, nat) sm" and del :: "nat \<Rightarrow> ('p, bytes) sm"
    and repl :: "nat \<Rightarrow> bytes \<Rightarrow> ('p, bytes) sm"
  assumes read_law: "inv p \<Longrightarrow> read p i = (case view p i of None \<Rightarrow> Inl PyKeyError | Some v \<Rightarrow> Inr v)"
    and ins_ok: "inv p \<Longrightarrow> ins v p = (Inr i, p') \<Longrightarrow>
      inv p' \<and> view p i = None \<and> view p' = (view p)(i \<mapsto> v)"
    and ins_err: "inv p \<Longrightarrow> ins v p = (Inl e, p') \<Longrightarrow> e = PageFull \<and> inv p' \<and> view p' = view p"
    and del_ok: "inv p \<Longrightarrow> del i p = (Inr v, p') \<Longrightarrow>
      inv p' \<and> view p i = Some v \<and> view p' = (view p)(i := None)"
    and del_err: "inv p \<Longrightarrow> del i p = (Inl e, p') \<Longrightarrow> e = PyKeyError \<and> view p i = None \<and> p' = p"
    and repl_ok: "inv p \<Longrightarrow> repl i v p = (Inr w, p') \<Longrightarrow>
      inv p' \<and> view p i = Some w \<and> view p' = (view p)(i \<mapsto> v)"
    and repl_err: "inv p \<Longrightarrow> repl i v p = (Inl e, p') \<Longrightarrow>
      e = (if view p i = None then PyKeyError else PageFull) \<and> p' = p"
begin

text \<open>A tuple is read back from the slot it was put into, and other slots do not notice.\<close>

lemma read_after_ins:
  "inv p \<Longrightarrow> ins v p = (Inr i, p') \<Longrightarrow> read p' j = (if j = i then Inr v else read p j)"
  using ins_ok [of p v i p'] read_law [of p j] read_law [of p' j] by auto

lemma read_after_repl:
  "inv p \<Longrightarrow> repl i v p = (Inr w, p') \<Longrightarrow> read p' j = (if j = i then Inr v else read p j)"
  using repl_ok [of p i v w p'] read_law [of p j] read_law [of p' j] by auto

text \<open>Undoing: deleting what was just inserted restores the view.\<close>

lemma del_after_ins:
  assumes "inv p" and "ins v p = (Inr i, p')"
  shows "\<exists>p''. del i p' = (Inr v, p'') \<and> inv p'' \<and> view p'' = view p"
proof -
  have p': "inv p'" "view p i = None" "view p' = (view p)(i \<mapsto> v)" using ins_ok [OF assms] by auto
  obtain r p'' where d: "del i p' = (r, p'')" by (cases "del i p'")
  show ?thesis
    using del_ok [OF p'(1), of i _ p''] del_err [OF p'(1), of i _ p''] d p' by (cases r) auto
qed

lemma inv_step:
  "inv p \<Longrightarrow> ins v p = (r, p') \<Longrightarrow> inv p'"
  "inv p \<Longrightarrow> del i p = (r', p') \<Longrightarrow> inv p'"
  "inv p \<Longrightarrow> repl i v p = (r', p') \<Longrightarrow> inv p'"
  using ins_ok ins_err del_ok del_err repl_ok repl_err by (metis sum.exhaust)+

end

lemma sp_map_insert:
  "fst (abs_insert v (sp_abs p)) = i \<Longrightarrow> sp_abs p' = snd (abs_insert v (sp_abs p)) \<Longrightarrow>
     sp_map p i = None \<and> sp_map p' = (sp_map p)(i \<mapsto> v)"
  using abs_insert_position [where p = p and v = v]
  by (auto simp: sp_map_def nth_append nth_sp_abs fun_eq_iff)

lemma sp_map_eqD: "sp_abs p' = sp_abs p \<Longrightarrow> sp_map p' = sp_map p"
  by (simp add: sp_map_def [abs_def] cong: if_cong del: length_sp_abs)

lemma sp_map_update: "i < length (sp_abs p) \<Longrightarrow> sp_abs p' = (sp_abs p)[i := x] \<Longrightarrow> sp_map p' = (sp_map p)(i := x)"
  by (auto simp: sp_map_def fun_eq_iff simp del: length_sp_abs)

interpretation page: slot_store sp_wf sp_map sp_read sp_insert sp_delete sp_replace
proof
  fix p :: slotted_page and i :: nat and v w :: bytes and e p'
  assume wf: "sp_wf p"
  note v = sp_wf_valid [OF wf]
  show "sp_read p i = (case sp_map p i of None \<Rightarrow> Inl PyKeyError | Some v \<Rightarrow> Inr v)"
    by (simp add: sp_read_abs sp_map_def)
  show "sp_wf p' \<and> sp_map p i = None \<and> sp_map p' = (sp_map p)(i \<mapsto> v)" if "sp_insert v p = (Inr i, p')"
    using sp_insert_abs [OF v, of v] sp_insert_wf [OF wf that] sp_map_insert [of v p i p'] that
    by (auto split: if_splits)
  show "e = PageFull \<and> sp_wf p' \<and> sp_map p' = sp_map p" if "sp_insert v p = (Inl e, p')"
    using sp_insert_abs [OF v, of v] sp_insert_wf [OF wf that] that by (auto split: if_splits dest: sp_map_eqD)
  show "sp_wf p' \<and> sp_map p i = Some v \<and> sp_map p' = (sp_map p)(i := None)" if "sp_delete i p = (Inr v, p')"
    using sp_delete_abs [OF v, of i] sp_delete_wf [OF wf that] that sp_map_update [of i p p' None]
    by (auto simp: sp_map_def split: if_splits)
  show "e = PyKeyError \<and> sp_map p i = None \<and> p' = p" if "sp_delete i p = (Inl e, p')"
    using sp_delete_abs [OF v, of i] that by (auto simp: sp_map_def split: if_splits)
  show "sp_wf p' \<and> sp_map p i = Some w \<and> sp_map p' = (sp_map p)(i \<mapsto> v)"
    if "sp_replace i v p = (Inr w, p')"
    using sp_replace_abs [OF wf, of i v] that sp_map_update [of i p p' "Some v"]
    by (auto simp: sp_map_def split: if_splits)
  show "e = (if sp_map p i = None then PyKeyError else PageFull) \<and> p' = p"
    if "sp_replace i v p = (Inl e, p')"
    using sp_replace_abs [OF wf, of i v] that by (auto simp: sp_map_def split: if_splits)
qed

section \<open>Properties of the slotted page\<close>

definition blank_page :: "nat \<Rightarrow> slotted_page" where
  "blank_page pid = \<lparr>sp_page_id = pid, sp_buffer = replicate SLOTTED_BODY_SIZE 0, sp_slots = [],
     sp_upper = SLOTTED_BODY_SIZE\<rparr>"

lemma blank_page_facts:
  "sp_wf (blank_page pid)" "sp_abs (blank_page pid) = []" "sp_map (blank_page pid) = Map.empty"
  "available_free_bytes (blank_page pid) = 8136" "directory_growth (blank_page pid) = 8"
  by (simp_all add: sp_wf_def sp_valid_iff dead_ok_def blank_page_def sp_lower_def extents_ok_def
      sp_abs_def sp_map_def [abs_def] available_free_bytes_def live_bytes_def directory_growth_def slotted_sizes)

lemma slotted_empty_blank: "slotted_empty pid = Inr (blank_page pid)"
  using sp_wf_valid [OF blank_page_facts(1), of pid]
  by (simp add: slotted_empty_def mk_slotted_page_def Let_def blank_page_def [symmetric])

text \<open>
  Claim C16. Insertion into a valid page succeeds exactly when the value, with a new directory
  entry if no dead slot can be reused, fits into the bytes free after compaction. It then puts
  the value into the first dead slot or a new last one and leaves every other slot as it was;
  otherwise it raises PageFull and leaves the contents of every slot unchanged. The page stays
  valid either way.
\<close>

theorem slotted_insert_spec:
  assumes "sp_valid p"
  shows "if int (length v + directory_growth p) \<le> available_free_bytes p
    then \<exists>p'. sp_insert v p = (Inr (fst (abs_insert v (sp_abs p))), p') \<and> sp_valid p'
           \<and> sp_abs p' = snd (abs_insert v (sp_abs p))
    else \<exists>p'. sp_insert v p = (Inl PageFull, p') \<and> sp_valid p' \<and> sp_abs p' = sp_abs p"
  using assms by (rule sp_insert_abs)

theorem slotted_insert_spec_witness:
  "\<exists>p'. sp_insert [7, 9] (blank_page 3) = (Inr 0, p') \<and> sp_valid p' \<and> sp_abs p' = [Some [7, 9]]"
  using slotted_insert_spec [of "blank_page 3" "[7, 9]"] blank_page_facts [of 3]
  by (simp add: sp_wf_def)

text \<open>
  Claim C24. Replacing the tuple of a live slot succeeds exactly when the new tuple fits into the
  bytes free after compaction together with those of the old one: the old tuple is returned,
  that slot alone changes and the page stays well formed. When it does not fit, PageFull is
  raised and the page, byte for byte, is the one before. A slot that is out of range or dead
  raises KeyError.
\<close>

theorem slotted_replace_spec:
  assumes "sp_wf p"
  shows "if sid < length (sp_abs p) \<and> sp_abs p ! sid \<noteq> None
    then if int (length v) \<le> available_free_bytes p + int (length (the (sp_abs p ! sid)))
         then \<exists>p'. sp_replace sid v p = (Inr (the (sp_abs p ! sid)), p') \<and> sp_wf p'
                \<and> sp_abs p' = (sp_abs p)[sid := Some v]
         else sp_replace sid v p = (Inl PageFull, p)
    else sp_replace sid v p = (Inl PyKeyError, p)"
  using assms by (rule sp_replace_abs)

definition one_tuple_page :: slotted_page where
  "one_tuple_page = sp_place (blank_page 0) 0 [1, 2]"

lemma one_tuple_page_facts: "sp_wf one_tuple_page" "sp_abs one_tuple_page = [Some [1, 2]]"
  "available_free_bytes one_tuple_page = 8126"
proof -
  have v: "sp_valid (blank_page 0)" using blank_page_facts(1) by (rule sp_wf_valid)
  have "sp_slots (blank_page 0) = []" "contiguous_free_bytes (blank_page 0) = 8136"
    by (simp_all add: blank_page_def contiguous_free_bytes_def sp_lower_def slotted_sizes)
  then show "sp_wf one_tuple_page" "sp_abs one_tuple_page = [Some [1, 2]]"
    using sp_place_spec [OF v, of 0 "[1, 2]"] dead_ok_place [of "blank_page 0" 0 "[1, 2]"]
      blank_page_facts [of 0]
    by (simp_all add: one_tuple_page_def sp_wf_def SLOT_ENTRY_SIZE_def)
  show "available_free_bytes one_tuple_page = 8126"
    by (simp add: one_tuple_page_def sp_place_def Let_def blank_page_def available_free_bytes_def
        live_bytes_def sp_lower_def slotted_sizes)
qed

theorem slotted_replace_spec_witness:
  "(\<exists>p'. sp_replace 0 [5, 6, 7] one_tuple_page = (Inr [1, 2], p') \<and> sp_wf p' \<and> sp_abs p' = [Some [5, 6, 7]])
   \<and> sp_replace 0 (replicate 8129 0) one_tuple_page = (Inl PageFull, one_tuple_page)"
  using slotted_replace_spec [OF one_tuple_page_facts(1), of 0 "[5, 6, 7]"]
    slotted_replace_spec [OF one_tuple_page_facts(1), of 0 "replicate 8129 0"] one_tuple_page_facts
  by simp

text \<open>
  A well-formed slotted page encodes into a body of exactly the page body size, and
  decoding that body gives a well-formed page with the same slot directory and the same tuple in
  every slot.
\<close>

lemma slotted_bytes_roundtrip:
  assumes "sp_wf p"
  shows "\<exists>body p'. slotted_to_bytes p = Inr body \<and> length body = PAGE_BODY_SIZE
    \<and> slotted_from_bytes (sp_page_id p) body = Inr p' \<and> sp_wf p'
    \<and> sp_slots p' = sp_slots p \<and> sp_upper p' = sp_upper p \<and> sp_abs p' = sp_abs p"
  using slotted_bytes_read_back [OF assms] by (auto simp: SLOTTED_BODY_SIZE_def)

end
