(* ===== verification/Tuple_Codec.thy ===== *)
theory Tuple_Codec
  imports Catalog_Model Slotted
begin

text \<open>
  \<open>storage/tuple.py\<close>: the schema-directed encoding of heap tuple versions. The header has
  the fixed layout \<open>>4sBBHQQQIII\<close> (44 bytes) followed by a null bitmap and the values in
  column order. Shows for which versions encoding succeeds, and that decoding inverts it; and
  that decoding is not canonical: the spare bits of the null bitmap are not looked at.
\<close>

definition SYSTEM_XID :: nat where "SYSTEM_XID = 1"
definition TUPLE_MAGIC :: bytes where "TUPLE_MAGIC = ascii ''TUP1''"
definition TUPLE_VERSION :: nat where "TUPLE_VERSION = 1"
definition HAS_NEXT_TID :: nat where "HAS_NEXT_TID = 1"
definition TUPLE_HEADER_SIZE :: nat where "TUPLE_HEADER_SIZE = 44"

record tuple_version =
  tv_xmin :: nat
  tv_xmax :: nat
  tv_next_tid :: "tid option"
  tv_values :: "scalar list"

section \<open>Schema fingerprint\<close>

definition bool_byte :: "bool \<Rightarrow> byte" where
  "bool_byte b = (if b then 1 else 0)"

definition column_fingerprint :: "column \<Rightarrow> bytes result" where
  "column_fingerprint c =
     res_bind (utf8_encode (col_name c)) (\<lambda>name.
     if 2 ^ 32 \<le> length name then Inl PyOverflowError
     else Inr (to_be 4 (length name) @ name @ map of_nat (data_type_value (col_data_type c))
                @ map bool_byte [col_nullable c, col_primary_key c, col_unique c]))"

definition schema_fingerprint :: "schema \<Rightarrow> nat result" where
  "schema_fingerprint s =
     res_bind (res_mapM column_fingerprint (columns s)) (\<lambda>parts. Inr (crc32 (concat parts)))"

record tuple_codec =
  tc_schema :: schema
  tc_schema_hash :: nat

definition mk_tuple_codec :: "schema \<Rightarrow> tuple_codec result" where
  "mk_tuple_codec s =
     res_bind (schema_fingerprint s) (\<lambda>h. Inr \<lparr>tc_schema = s, tc_schema_hash = h\<rparr>)"

definition validate_uint :: "nat \<Rightarrow> nat \<Rightarrow> unit result" where
  "validate_uint n maximum = res_require (n \<le> maximum) PyValueError"

section \<open>Encoding\<close>

text \<open>Two's complement fields \<open>>q\<close>.\<close>

definition pack_int64 :: "int \<Rightarrow> bytes result" where
  "pack_int64 i = (if in_int64 i then Inr (to_be 8 (nat (i mod 2 ^ 64))) else Inl PyStructError)"

definition unpack_int64 :: "nat \<Rightarrow> int" where
  "unpack_int64 u = (if u < 2 ^ 63 then int u else int u - 2 ^ 64)"

fun encode_value :: "data_type \<Rightarrow> scalar \<Rightarrow> bytes result" where
  "encode_value INT64 (ScInt i) = pack_int64 i"
| "encode_value FLOAT64 (ScFloat f) = Inr (to_be 8 (unat f))"
| "encode_value BOOLEAN (ScBool b) = Inr [bool_byte b]"
| "encode_value TEXT (ScStr t) =
     res_bind (utf8_encode t) (\<lambda>b.
     if 2 ^ 32 \<le> length b then Inl RowTooLarge else Inr (to_be 4 (length b) @ b))"
| "encode_value _ _ = Inl PyAssertionError"

definition set_null :: "bytes \<Rightarrow> nat \<Rightarrow> bytes" where
  "set_null payload i =
     payload[i div 8 := Bit_Operations.or (payload ! (i div 8)) (push_bit (i mod 8) 1)]"

fun encode_values :: "nat \<Rightarrow> column list \<Rightarrow> scalar list \<Rightarrow> bytes \<Rightarrow> bytes result" where
  "encode_values i (c # cs) (v # vs) payload =
     (if v = ScNone then encode_values (Suc i) cs vs (set_null payload i)
      else res_bind (encode_value (col_data_type c) v) (\<lambda>b.
           encode_values (Suc i) cs vs (payload @ b)))"
| "encode_values i _ _ payload = Inr payload"

definition bitmap_length :: "nat \<Rightarrow> nat" where
  "bitmap_length n = (n + 7) div 8"

text \<open>The flags and link fields of a version: \<open>(flags, next_page, next_slot)\<close>.\<close>

definition link_fields :: "tid option \<Rightarrow> (nat \<times> nat \<times> nat) result" where
  "link_fields next =
     (case next of
        None \<Rightarrow> Inr (0, 0, 0)
      | Some t \<Rightarrow>
          res_bind (validate_uint (tid_page t) (2 ^ 64 - 1)) (\<lambda>_.
          res_bind (validate_uint (tid_slot t) (2 ^ 32 - 1)) (\<lambda>_.
          Inr (HAS_NEXT_TID, tid_page t, tid_slot t))))"

definition tuple_header_fields ::
    "tuple_codec \<Rightarrow> tuple_version \<Rightarrow> nat \<times> nat \<times> nat \<Rightarrow> nat \<Rightarrow> (nat \<times> nat) list" where
  "tuple_header_fields tc ver link plen =
     (case link of (flags, page, slot) \<Rightarrow>
        [(1, TUPLE_VERSION), (1, flags), (2, length (tv_values ver)), (8, tv_xmin ver), (8, tv_xmax ver),
         (8, page), (4, slot), (4, tc_schema_hash tc), (4, plen)])"

definition tuple_encode :: "tuple_codec \<Rightarrow> tuple_version \<Rightarrow> bytes result" where
  "tuple_encode tc ver =
     res_bind (validate_uint (tv_xmin ver) (2 ^ 64 - 1)) (\<lambda>_.
     res_bind (validate_uint (tv_xmax ver) (2 ^ 64 - 1)) (\<lambda>_.
     res_bind (validate_row (tc_schema tc) (tv_values ver)) (\<lambda>values.
     res_bind (link_fields (tv_next_tid ver)) (\<lambda>link.
     res_bind (encode_values 0 (columns (tc_schema tc)) values
       (replicate (bitmap_length (length values)) 0)) (\<lambda>payload.
     res_bind (pack_fields (tuple_header_fields tc ver link (length payload))) (\<lambda>fields.
     let encoded = TUPLE_MAGIC @ fields @ payload
     in if MAX_SLOT_PAYLOAD < length encoded then Inl RowTooLarge else Inr encoded))))))"

section \<open>Decoding\<close>

definition null_bit :: "bytes \<Rightarrow> nat \<Rightarrow> bool" where
  "null_bit bitmap i \<longleftrightarrow> bit (bitmap ! (i div 8)) (i mod 8)"

definition require_bytes :: "bytes \<Rightarrow> nat \<Rightarrow> nat \<Rightarrow> nat result" where
  "require_bytes payload cursor k =
     (if length payload < cursor + k then Inl CorruptPage else Inr (cursor + k))"

text \<open>One non-null value at the cursor, with the cursor after it.\<close>

fun decode_value :: "data_type \<Rightarrow> bytes \<Rightarrow> nat \<Rightarrow> (scalar \<times> nat) result" where
  "decode_value INT64 payload cursor =
     res_bind (require_bytes payload cursor 8) (\<lambda>end'.
     Inr (ScInt (unpack_int64 (uint_at payload cursor 8)), end'))"
| "decode_value FLOAT64 payload cursor =
     res_bind (require_bytes payload cursor 8) (\<lambda>end'.
     Inr (ScFloat (of_nat (uint_at payload cursor 8)), end'))"
| "decode_value BOOLEAN payload cursor =
     (if length payload \<le> cursor then Inl CorruptPage
      else if payload ! cursor \<noteq> 0 \<and> payload ! cursor \<noteq> 1 then Inl CorruptPage
      else Inr (ScBool (payload ! cursor = 1), cursor + 1))"
| "decode_value TEXT payload cursor =
     res_bind (require_bytes payload cursor 4) (\<lambda>start.
     let end' = start + uint_at payload cursor 4
     in if length payload < end' then Inl CorruptPage
        else res_bind (res_rethrow PyUnicodeError CorruptPage (utf8_decode (py_slice payload start end')))
               (\<lambda>t. Inr (ScStr t, end')))"

fun decode_values :: "bytes \<Rightarrow> bytes \<Rightarrow> nat \<Rightarrow> column list \<Rightarrow> nat \<Rightarrow> (scalar list \<times> nat) result" where
  "decode_values payload bitmap i [] cursor = Inr ([], cursor)"
| "decode_values payload bitmap i (c # cs) cursor =
     (if null_bit bitmap i then
        res_bind (decode_values payload bitmap (Suc i) cs cursor) (\<lambda>(vs, cur). Inr (ScNone # vs, cur))
      else
        res_bind (decode_value (col_data_type c) payload cursor) (\<lambda>(v, cur).
        res_bind (decode_values payload bitmap (Suc i) cs cur) (\<lambda>(vs, cur'). Inr (v # vs, cur'))))"

definition decode_link :: "nat \<Rightarrow> nat \<Rightarrow> nat \<Rightarrow> tid option result" where
  "decode_link flags page slot =
     (if odd flags then Inr (Some (TID page slot))
      else if page \<noteq> 0 \<or> slot \<noteq> 0 then Inl CorruptPage else Inr None)"

definition tuple_decode :: "tuple_codec \<Rightarrow> bytes \<Rightarrow> tuple_version result" where
  "tuple_decode tc encoded =
     (if length encoded < TUPLE_HEADER_SIZE then Inl CorruptPage
      else
        let flags = uint_at encoded 5 1; column_count = uint_at encoded 6 2;
            payload_length = uint_at encoded 40 4;
            payload = drop TUPLE_HEADER_SIZE encoded; n = bitmap_length column_count
        in if py_slice encoded 0 4 \<noteq> TUPLE_MAGIC \<or> uint_at encoded 4 1 \<noteq> TUPLE_VERSION then Inl CorruptPage
           else if flags div 2 \<noteq> 0 then Inl CorruptPage
           else if column_count \<noteq> length (columns (tc_schema tc)) then Inl CorruptPage
           else if uint_at encoded 36 4 \<noteq> tc_schema_hash tc then Inl CorruptPage
           else if length encoded \<noteq> TUPLE_HEADER_SIZE + payload_length then Inl CorruptPage
           else if payload_length < n then Inl CorruptPage
           else
             res_bind (decode_values payload (take n payload) 0 (columns (tc_schema tc)) n) (\<lambda>(values, cursor).
             if cursor \<noteq> length payload then Inl CorruptPage
             else
               res_bind (decode_link flags (uint_at encoded 24 8) (uint_at encoded 32 4)) (\<lambda>next.
               res_bind (res_rethrow CatalogError CorruptPage (validate_row (tc_schema tc) values)) (\<lambda>_.
               Inr \<lparr>tv_xmin = uint_at encoded 8 8, tv_xmax = uint_at encoded 16 8,
                     tv_next_tid = next, tv_values = values\<rparr>))))"

section \<open>Values read back\<close>

text \<open>The value bytes alone, in column order.\<close>

fun values_bytes :: "column list \<Rightarrow> scalar list \<Rightarrow> bytes result" where
  "values_bytes (c # cs) (v # vs) =
     (if v = ScNone then values_bytes cs vs
      else res_bind (encode_value (col_data_type c) v) (\<lambda>b.
           res_bind (values_bytes cs vs) (\<lambda>bs. Inr (b @ bs))))"
| "values_bytes _ _ = Inr []"

lemma unpack_int64_mod:
  assumes "in_int64 i"
  shows "unpack_int64 (nat (i mod 2 ^ 64)) = i" and "nat (i mod 2 ^ 64) < 256 ^ 8"
proof -
  have b: "- (2 ^ 63) \<le> i" "i < 2 ^ 63" using assms by (auto simp: in_int64_def INT64_MIN_def INT64_MAX_def)
  show "nat (i mod 2 ^ 64) < 256 ^ 8" by simp
  show "unpack_int64 (nat (i mod 2 ^ 64)) = i"
  proof (cases "0 \<le> i")
    case True
    then have "i mod 2 ^ 64 = i" using b by simp
    then show ?thesis using True b by (simp add: unpack_int64_def nat_less_iff)
  next
    case False
    have "(i + 2 ^ 64) mod 2 ^ 64 = i + 2 ^ 64" using b False by (intro mod_pos_pos_trivial) simp_all
    then have "i mod 2 ^ 64 = i + 2 ^ 64" by simp
    then show ?thesis using False b by (simp add: unpack_int64_def nat_less_iff)
  qed
qed

lemma uint_at_cursor:
  "n < 256 ^ k \<Longrightarrow> cursor = length pre \<Longrightarrow> uint_at (pre @ to_be k n @ post) cursor k = n"
  by (simp add: layout_simps)

lemma decode_encode_value:
  assumes "encode_value t v = Inr b"
  shows "decode_value t (pre @ b @ post) (length pre) = Inr (v, length pre + length b)"
  using assms
proof (cases rule: encode_value.cases [of "(t, v)"])
  case (1 i)
  then show ?thesis
    using assms unpack_int64_mod [of i]
    by (auto simp: pack_int64_def require_bytes_def uint_at_cursor split: if_splits)
next
  case (2 f)
  have "unat f < 256 ^ 8" using unsigned_less [of f, where 'a = nat] by simp
  then show ?thesis using 2 assms by (auto simp: require_bytes_def uint_at_cursor)
next
  case (3 x)
  then show ?thesis using assms by (cases x) (auto simp: bool_byte_def nth_append)
next
  case (4 s)
  then obtain e where e: "utf8_encode s = Inr e" "length e < 2 ^ 32" "b = to_be 4 (length e) @ e"
    using assms by (auto simp: res_bind_eq_Inr_iff split: if_splits)
  have "uint_at (pre @ to_be 4 (length e) @ e @ post) (length pre) 4 = length e"
    using e(2) by (intro uint_at_cursor) simp_all
  moreover have "py_slice (pre @ to_be 4 (length e) @ e @ post) (length pre + 4) (length pre + 4 + length e) = e"
    using py_slice_append_exact [of "length pre + 4" "pre @ to_be 4 (length e)"] by simp
  ultimately show ?thesis
    using 4 e utf8_decode_encode [OF e(1)] by (simp add: require_bytes_def Let_def)
qed auto

lemma decode_values_bytes:
  "values_bytes cs vs = Inr b \<Longrightarrow> length vs = length cs \<Longrightarrow>
   (\<forall>k < length vs. null_bit bm (i + k) \<longleftrightarrow> vs ! k = ScNone) \<Longrightarrow>
     decode_values (pre @ b @ post) bm i cs (length pre) = Inr (vs, length pre + length b)"
proof (induction cs vs arbitrary: b i pre rule: values_bytes.induct)
  case (1 c cs v vs)
  have bits: "\<forall>k < length vs. null_bit bm (Suc i + k) \<longleftrightarrow> vs ! k = ScNone"
    and here: "null_bit bm i \<longleftrightarrow> v = ScNone" and len: "length vs = length cs"
    using "1.prems"(2,3) by force+
  show ?case
  proof (cases "v = ScNone")
    case True
    then show ?thesis using "1.IH"(1) [OF True _ len bits, of b pre] "1.prems"(1) here by simp
  next
    case False
    then obtain b1 b2 where b: "encode_value (col_data_type c) v = Inr b1" "values_bytes cs vs = Inr b2"
      "b = b1 @ b2" using "1.prems"(1) by (auto simp: res_bind_eq_Inr_iff)
    have "decode_values (pre @ b @ post) bm (Suc i) cs (length pre + length b1)
        = Inr (vs, length pre + length b)"
      using "1.IH"(2) [OF False b(2) len bits, of "pre @ b1"] b(3) by simp
    then show ?thesis
      using decode_encode_value [OF b(1), of pre "b2 @ post"] here False b(3) by simp
  qed
qed auto

lemma null_bit_set_null:
  "i < 8 * length bm \<Longrightarrow> null_bit (set_null (bm @ acc) i) k = (null_bit (bm @ acc) k \<or> k = i)"
proof -
  assume i: "i < 8 * length bm"
  then have "i div 8 < length bm" by simp
  moreover have "k div 8 = i div 8 \<and> k mod 8 = i mod 8 \<longleftrightarrow> k = i"
    by (metis div_mult_mod_eq)
  ultimately show ?thesis
    by (cases "k div 8 = i div 8")
      (auto simp: null_bit_def set_null_def bit_or_iff bit_exp_iff possible_bit_word nth_list_update nth_append)
qed

lemma null_range_Cons:
  "i \<le> k \<and> k < i + length (v # vs) \<and> (v # vs) ! (k - i) = ScNone \<longleftrightarrow>
     k = i \<and> v = ScNone \<or> Suc i \<le> k \<and> k < Suc i + length vs \<and> vs ! (k - Suc i) = ScNone"
proof (cases "k = i")
  case False
  then have "i \<le> k \<longleftrightarrow> Suc i \<le> k" by auto
  moreover have "(v # vs) ! (k - i) = vs ! (k - Suc i)" if "Suc i \<le> k"
    using that by (simp add: nth_Cons')
  ultimately show ?thesis using False by auto
qed simp

lemma encode_values_spec:
  "encode_values i cs vs (bm @ acc) = Inr p \<Longrightarrow> i + length vs \<le> 8 * length bm \<Longrightarrow> length vs = length cs \<Longrightarrow>
     \<exists>bm' b. values_bytes cs vs = Inr b \<and> p = bm' @ acc @ b \<and> length bm' = length bm
       \<and> (\<forall>k < 8 * length bm. null_bit bm' k \<longleftrightarrow>
            null_bit bm k \<or> i \<le> k \<and> k < i + length vs \<and> vs ! (k - i) = ScNone)"
proof (induction i cs vs "bm @ acc" arbitrary: bm acc p rule: encode_values.induct)
  case (1 i c cs v vs)
  have i: "i < 8 * length bm" and len: "length vs = length cs"
    and room: "Suc i + length vs \<le> 8 * length bm" using "1.prems" by auto
  show ?case
  proof (cases "v = ScNone")
    case True
    have "i div 8 < length bm" using i by simp
    then have sn: "set_null (bm @ acc) i = set_null bm i @ acc"
      by (simp add: set_null_def list_update_append nth_append)
    have len': "length (set_null bm i) = length bm" by (simp add: set_null_def)
    have "encode_values (Suc i) cs vs (set_null bm i @ acc) = Inr p"
      using "1.prems"(1) True by (simp add: sn)
    from "1.hyps"(1) [OF True sn] this room len len' obtain bm' b where
      "values_bytes cs vs = Inr b" "p = bm' @ acc @ b" "length bm' = length bm"
      "\<forall>k < 8 * length bm. null_bit bm' k \<longleftrightarrow> null_bit (set_null bm i) k
         \<or> Suc i \<le> k \<and> k < Suc i + length vs \<and> vs ! (k - Suc i) = ScNone" by auto
    moreover have "null_bit (set_null bm i) k \<longleftrightarrow> null_bit bm k \<or> k = i" for k
      using null_bit_set_null [of i bm "[]" k] i by simp
    ultimately show ?thesis
      unfolding null_range_Cons using True by (intro exI [of _ bm'] exI [of _ b]) (simp; blast)
  next
    case False
    then obtain b1 where b1: "encode_value (col_data_type c) v = Inr b1"
      "encode_values (Suc i) cs vs (bm @ acc @ b1) = Inr p"
      using "1.prems"(1) by (auto simp: res_bind_eq_Inr_iff)
    from "1.hyps"(2) [OF False, of b1 bm "acc @ b1" p] b1 room len obtain bm' b where
      "values_bytes cs vs = Inr b" "p = bm' @ (acc @ b1) @ b" "length bm' = length bm"
      "\<forall>k < 8 * length bm. null_bit bm' k \<longleftrightarrow> null_bit bm k
         \<or> Suc i \<le> k \<and> k < Suc i + length vs \<and> vs ! (k - Suc i) = ScNone" by auto
    then show ?thesis
      unfolding null_range_Cons using False b1(1) by (intro exI [of _ bm'] exI [of _ "b1 @ b"]) simp
  qed
qed auto

section \<open>Versions read back\<close>

lemma length_TUPLE_MAGIC [simp]: "length TUPLE_MAGIC = 4"
  by (simp add: TUPLE_MAGIC_def)

lemma link_fields_decode:
  "link_fields next = Inr (flags, page, slot) \<Longrightarrow> flags div 2 = 0 \<and> decode_link flags page slot = Inr next"
  by (auto simp: link_fields_def decode_link_def HAS_NEXT_TID_def validate_uint_def res_bind_eq_Inr_iff
      intro: tid.expand split: option.splits)

lemma tuple_header_read:
  fixes payload :: bytes
  assumes "fields_ok (tuple_header_fields tc ver (flags, page, slot) plen)"
  defines "enc \<equiv> TUPLE_MAGIC @ fields_bytes (tuple_header_fields tc ver (flags, page, slot) plen) @ payload"
  shows "uint_at enc 4 1 = TUPLE_VERSION" "uint_at enc 5 1 = flags"
    "uint_at enc 6 2 = length (tv_values ver)" "uint_at enc 8 8 = tv_xmin ver"
    "uint_at enc 16 8 = tv_xmax ver" "uint_at enc 24 8 = page" "uint_at enc 32 4 = slot"
    "uint_at enc 36 4 = tc_schema_hash tc" "uint_at enc 40 4 = plen"
    "py_slice enc 0 4 = TUPLE_MAGIC" "drop 44 enc = payload" "length enc = 44 + length payload"
proof -
  note f = uint_at_fields [OF assms(1), of _ TUPLE_MAGIC payload, folded enc_def]
  show "uint_at enc 4 1 = TUPLE_VERSION" "uint_at enc 5 1 = flags"
    "uint_at enc 6 2 = length (tv_values ver)" "uint_at enc 8 8 = tv_xmin ver"
    "uint_at enc 16 8 = tv_xmax ver" "uint_at enc 24 8 = page" "uint_at enc 32 4 = slot"
    "uint_at enc 36 4 = tc_schema_hash tc" "uint_at enc 40 4 = plen"
    using f [of 0] f [of 1] f [of 2] f [of 3] f [of 4] f [of 5] f [of 6] f [of 7] f [of 8]
    by (simp_all add: tuple_header_fields_def)
  show "py_slice enc 0 4 = TUPLE_MAGIC" by (simp add: enc_def layout_simps)
  show "drop 44 enc = payload" "length enc = 44 + length payload"
    by (simp_all add: enc_def length_fields_bytes tuple_header_fields_def)
qed

lemma tuple_encode_InrE:
  assumes "tuple_encode tc ver = Inr enc"
  obtains flags page slot payload where
    "row_conforms (tc_schema tc) (tv_values ver)"
    "link_fields (tv_next_tid ver) = Inr (flags, page, slot)"
    "encode_values 0 (columns (tc_schema tc)) (tv_values ver)
       (replicate (bitmap_length (length (tv_values ver))) 0) = Inr payload"
    "fields_ok (tuple_header_fields tc ver (flags, page, slot) (length payload))"
    "enc = TUPLE_MAGIC @ fields_bytes (tuple_header_fields tc ver (flags, page, slot) (length payload)) @ payload"
    "length enc \<le> MAX_SLOT_PAYLOAD"
proof -
  obtain vals link payload fields where
    v: "validate_row (tc_schema tc) (tv_values ver) = Inr vals"
    and l: "link_fields (tv_next_tid ver) = Inr link"
    and p: "encode_values 0 (columns (tc_schema tc)) vals
       (replicate (bitmap_length (length vals)) 0) = Inr payload"
    and f: "pack_fields (tuple_header_fields tc ver link (length payload)) = Inr fields"
    and e: "\<not> MAX_SLOT_PAYLOAD < length (TUPLE_MAGIC @ fields @ payload)" "enc = TUPLE_MAGIC @ fields @ payload"
    using assms unfolding tuple_encode_def Let_def
    by (auto simp: res_bind_eq_Inr_iff simp del: length_append split: if_splits)
  obtain flags page slot where lk: "link = (flags, page, slot)" by (cases link)
  show thesis
    using that [of flags page slot payload] v l p pack_fields_InrD [OF f] e
    by (simp add: validate_row_Inr_iff lk)
qed

lemma tuple_decode_encode:
  assumes "tuple_encode tc ver = Inr enc"
  shows "tuple_decode tc enc = Inr ver"
  using assms
proof (rule tuple_encode_InrE)
  fix flags page slot payload
  define n where "n = bitmap_length (length (tv_values ver))"
  assume row: "row_conforms (tc_schema tc) (tv_values ver)"
    and link: "link_fields (tv_next_tid ver) = Inr (flags, page, slot)"
    and enc_vals: "encode_values 0 (columns (tc_schema tc)) (tv_values ver)
       (replicate (bitmap_length (length (tv_values ver))) 0) = Inr payload"
    and fok: "fields_ok (tuple_header_fields tc ver (flags, page, slot) (length payload))"
    and enc: "enc = TUPLE_MAGIC @ fields_bytes (tuple_header_fields tc ver (flags, page, slot) (length payload)) @ payload"
  note h = tuple_header_read [OF fok, of payload, folded enc]
  have len: "length (tv_values ver) = length (columns (tc_schema tc))"
    using row by (simp add: row_conforms_def list_all2_lengthD)
  have n8: "length (tv_values ver) \<le> 8 * n" by (simp add: n_def bitmap_length_def)
  obtain bm b where b: "values_bytes (columns (tc_schema tc)) (tv_values ver) = Inr b" "payload = bm @ b"
    "length bm = n"
    "\<forall>k < 8 * n. null_bit bm k \<longleftrightarrow> null_bit (replicate n 0) k \<or> k < length (tv_values ver) \<and> tv_values ver ! k = ScNone"
    using encode_values_spec [of 0 "columns (tc_schema tc)" "tv_values ver" "replicate n 0" "[]" payload]
      enc_vals [folded n_def] n8 len by auto
  have "\<forall>k < length (tv_values ver). null_bit bm k \<longleftrightarrow> tv_values ver ! k = ScNone"
    using b(4) n8 by (auto simp: null_bit_def)
  then have "decode_values payload bm 0 (columns (tc_schema tc)) n = Inr (tv_values ver, length payload)"
    using decode_values_bytes [OF b(1) len, of bm 0 bm "[]"] b by simp
  moreover have "take n payload = bm" using b by simp
  moreover have "n \<le> length payload" using b by simp
  moreover have "validate_row (tc_schema tc) (tv_values ver) = Inr (tv_values ver)"
    using row by (simp add: validate_row_Inr_iff)
  ultimately show ?thesis
    unfolding tuple_decode_def TUPLE_HEADER_SIZE_def Let_def h n_def
    using len link_fields_decode [OF link] by simp
qed

lemma tuple_encode_length: "tuple_encode tc ver = Inr enc \<Longrightarrow> length enc \<le> MAX_SLOT_PAYLOAD"
  by (erule tuple_encode_InrE) simp


section \<open>Which versions can be encoded\<close>

fun value_size :: "scalar \<Rightarrow> nat" where
  "value_size ScNone = 0"
| "value_size (ScInt i) = 8"
| "value_size (ScFloat f) = 8"
| "value_size (ScBool b) = 1"
| "value_size (ScStr t) = 4 + length (concat (map utf8_units t))"

definition tuple_size :: "tuple_version \<Rightarrow> nat" where
  "tuple_size ver = TUPLE_HEADER_SIZE + bitmap_length (length (tv_values ver))
     + sum_list (map value_size (tv_values ver))"

definition tuple_encodable :: "tuple_codec \<Rightarrow> tuple_version \<Rightarrow> bool" where
  "tuple_encodable tc ver \<longleftrightarrow>
     tv_xmin ver < 2 ^ 64 \<and> tv_xmax ver < 2 ^ 64
     \<and> (case tv_next_tid ver of None \<Rightarrow> True | Some t \<Rightarrow> tid_page t < 2 ^ 64 \<and> tid_slot t < 2 ^ 32)
     \<and> row_conforms (tc_schema tc) (tv_values ver)
     \<and> list_all (\<lambda>v. case v of ScStr t \<Rightarrow> list_all valid_cp t | _ \<Rightarrow> True) (tv_values ver)
     \<and> length (tv_values ver) < 2 ^ 16 \<and> tc_schema_hash tc < 2 ^ 32 \<and> tuple_size ver < 2 ^ 32"

lemma encode_value_total:
  assumes "conforms c v" and "v \<noteq> ScNone" and "case v of ScStr t \<Rightarrow> list_all valid_cp t | _ \<Rightarrow> True"
    and "value_size v < 2 ^ 32"
  shows "\<exists>b. encode_value (col_data_type c) v = Inr b \<and> length b = value_size v"
  using assms by (cases v) (auto simp: conforms_def pack_int64_def utf8_encode_def)

lemma values_bytes_total:
  "list_all2 conforms cs vs \<Longrightarrow> list_all (\<lambda>v. case v of ScStr t \<Rightarrow> list_all valid_cp t | _ \<Rightarrow> True) vs \<Longrightarrow>
   sum_list (map value_size vs) < 2 ^ 32 \<Longrightarrow>
     \<exists>b. values_bytes cs vs = Inr b \<and> length b = sum_list (map value_size vs)"
proof (induction cs vs rule: list_all2_induct)
  case (Cons c cs v vs)
  obtain b2 where b2: "values_bytes cs vs = Inr b2" "length b2 = sum_list (map value_size vs)"
    using Cons by auto
  show ?case
  proof (cases "v = ScNone")
    case True
    then show ?thesis using b2 by simp
  next
    case False
    then obtain b1 where "encode_value (col_data_type c) v = Inr b1" "length b1 = value_size v"
      using encode_value_total [of c v] Cons by auto
    then show ?thesis using b2 False by simp
  qed
qed simp

lemma encode_values_total:
  "values_bytes cs vs = Inr b \<Longrightarrow> \<exists>p. encode_values i cs vs pl = Inr p \<and> length p = length pl + length b"
proof (induction i cs vs pl arbitrary: b rule: encode_values.induct)
  case (1 i c cs v vs pl)
  show ?case
  proof (cases "v = ScNone")
    case True
    then show ?thesis using "1.IH"(1) [OF True, of b] "1.prems" by (simp add: set_null_def)
  next
    case False
    then obtain b1 b2 where b: "encode_value (col_data_type c) v = Inr b1" "values_bytes cs vs = Inr b2"
      "b = b1 @ b2" using "1.prems" by (auto simp: res_bind_eq_Inr_iff)
    then show ?thesis using "1.IH"(2) [OF False b(2), of b1] False by (simp add: add.assoc)
  qed
qed auto

lemma tuple_encode_total:
  assumes "tuple_encodable tc ver"
  shows "if tuple_size ver \<le> MAX_SLOT_PAYLOAD
    then \<exists>enc. tuple_encode tc ver = Inr enc \<and> length enc = tuple_size ver
    else tuple_encode tc ver = Inl RowTooLarge"
proof -
  have size: "sum_list (map value_size (tv_values ver)) < 2 ^ 32"
    using assms by (auto simp: tuple_encodable_def tuple_size_def)
  obtain b where b: "values_bytes (columns (tc_schema tc)) (tv_values ver) = Inr b"
    "length b = sum_list (map value_size (tv_values ver))"
    using values_bytes_total [of "columns (tc_schema tc)" "tv_values ver"] assms size
    by (auto simp: tuple_encodable_def row_conforms_def)
  obtain p where p: "encode_values 0 (columns (tc_schema tc)) (tv_values ver)
      (replicate (bitmap_length (length (tv_values ver))) 0) = Inr p"
    "length p + 44 = tuple_size ver"
    using encode_values_total [OF b(1), of 0 "replicate (bitmap_length (length (tv_values ver))) 0"] b(2)
    by (auto simp: tuple_size_def TUPLE_HEADER_SIZE_def)
  obtain flags page slot where l: "link_fields (tv_next_tid ver) = Inr (flags, page, slot)"
    "flags < 256" "page < 2 ^ 64" "slot < 2 ^ 32"
    using assms
    by (auto simp: tuple_encodable_def link_fields_def validate_uint_def HAS_NEXT_TID_def
        split: option.splits)
  have row: "validate_row (tc_schema tc) (tv_values ver) = Inr (tv_values ver)"
    and xids: "tv_xmin ver \<le> 2 ^ 64 - 1" "tv_xmax ver \<le> 2 ^ 64 - 1"
    using assms by (auto simp: tuple_encodable_def validate_row_Inr_iff)
  have fok: "fields_ok (tuple_header_fields tc ver (flags, page, slot) (length p))"
    using assms l p(2)
    by (simp add: fields_ok_def tuple_header_fields_def tuple_encodable_def TUPLE_VERSION_def)
  have "tuple_encode tc ver =
     (let encoded = TUPLE_MAGIC @ fields_bytes (tuple_header_fields tc ver (flags, page, slot) (length p)) @ p
      in if MAX_SLOT_PAYLOAD < length encoded then Inl RowTooLarge else Inr encoded)"
    unfolding tuple_encode_def validate_uint_def using xids
    by (simp add: row p(1) l(1) pack_fields_eq [OF fok])
  moreover have "length (TUPLE_MAGIC @ fields_bytes (tuple_header_fields tc ver (flags, page, slot) (length p)) @ p)
      = tuple_size ver"
    using p(2) by (simp add: length_fields_bytes tuple_header_fields_def)
  ultimately show ?thesis by (simp add: Let_def)
qed

section \<open>Properties of the tuple codec\<close>

text \<open>
  Claim C30. A version whose row conforms to the schema and whose fields are within their
  encoded ranges is encoded exactly when its size fits a slot of an empty page, and is refused as
  too large otherwise; decoding the encoded bytes gives back the same transaction ids, version
  link and values.
\<close>

theorem tuple_codec_roundtrip:
  assumes "tuple_encodable tc ver"
  shows "if tuple_size ver \<le> MAX_SLOT_PAYLOAD
    then \<exists>enc. tuple_encode tc ver = Inr enc \<and> length enc = tuple_size ver \<and> tuple_decode tc enc = Inr ver
    else tuple_encode tc ver = Inl RowTooLarge"
  using tuple_encode_total [OF assms] tuple_decode_encode [of tc ver] by (auto split: if_splits)

definition flag_codec :: tuple_codec where
  "flag_codec = \<lparr>tc_schema = \<lparr>columns = [\<lparr>col_name = lit ''flag'', col_data_type = BOOLEAN,
      col_nullable = True, col_primary_key = False, col_unique = False, col_column_id = 0\<rparr>]\<rparr>,
    tc_schema_hash = 305419896\<rparr>"

definition flag_version :: tuple_version where
  "flag_version = \<lparr>tv_xmin = 5, tv_xmax = 0, tv_next_tid = Some (TID 2 3), tv_values = [ScBool True]\<rparr>"

theorem tuple_codec_roundtrip_witness:
  "\<exists>enc. tuple_encode flag_codec flag_version = Inr enc \<and> length enc = 46
     \<and> tuple_decode flag_codec enc = Inr flag_version"
  using tuple_codec_roundtrip [of flag_codec flag_version]
  by (simp add: tuple_encodable_def flag_codec_def flag_version_def row_conforms_def conforms_def
      tuple_size_def TUPLE_HEADER_SIZE_def bitmap_length_def slotted_sizes)

text \<open>
  Decoding is not canonical: two different byte strings decode to the same version,
  because bits of the null bitmap beyond the last column are ignored.
\<close>

lemma tuple_decode_not_canonical:
  "\<exists>a b. a \<noteq> b \<and> tuple_decode flag_codec a = Inr flag_version \<and> tuple_decode flag_codec b = Inr flag_version"
proof -
  let ?h = "TUPLE_MAGIC @ fields_bytes (tuple_header_fields flag_codec flag_version (1, 2, 3) 2)"
  have "fields_ok (tuple_header_fields flag_codec flag_version (1, 2, 3) 2)"
    by (simp add: fields_ok_def tuple_header_fields_def flag_codec_def flag_version_def TUPLE_VERSION_def)
  note h = tuple_header_read [OF this]
  have "tuple_decode flag_codec (?h @ [x, 1]) = Inr flag_version" if "x = 0 \<or> x = 128" for x :: byte
    unfolding tuple_decode_def TUPLE_HEADER_SIZE_def Let_def append_assoc h using that
    by (auto simp: flag_codec_def flag_version_def bitmap_length_def null_bit_def decode_link_def
        validate_row_def validate_scalar_def bit_iff_odd)
  from this [of 0] this [of 128] show ?thesis
    by (intro exI [of _ "?h @ [0, 1]"] exI [of _ "?h @ [128, 1]"]) simp
qed

end
