(* ===== verification/Mvcc.thy ===== *)
theory Mvcc
  imports Tuple_Codec
begin

text \<open>
  The data and decision rules of multi-version concurrency control: \<open>transaction/snapshot.py\<close>,
  \<open>transaction/status.py\<close>, \<open>transaction/visibility.py\<close>, \<open>transaction/model.py\<close>,
  \<open>maintenance/horizon.py\<close>, \<open>maintenance/hot.py\<close> and \<open>maintenance/vacuum.py\<close>.
  Shows that visibility is "the creator is seen and no deleter is", that what a snapshot sees
  does not depend on transactions concurrent with it, and the laws of the reclamation rule that
  the transaction manager's safety proof rests on.
\<close>

section \<open>Transaction status table\<close>

datatype transaction_status = StIN_PROGRESS | StCOMMITTED | StABORTED

type_synonym status_table = "(nat \<times> transaction_status) list"

definition status_get :: "status_table \<Rightarrow> nat \<Rightarrow> transaction_status" where
  "status_get tbl xid = (case map_of tbl xid of None \<Rightarrow> StIN_PROGRESS | Some s \<Rightarrow> s)"

definition status_set :: "nat \<Rightarrow> transaction_status \<Rightarrow> (status_table, unit) sm" where
  "status_set xid status tbl =
     (let current = status_get tbl xid
      in if current \<noteq> StIN_PROGRESS \<and> current \<noteq> status then (Inl PyValueError, tbl)
         else (Inr (), AList.update xid status tbl))"

text \<open>The items sorted by transaction id; the keys of a dictionary are distinct.\<close>

definition status_snapshot :: "status_table \<Rightarrow> (nat \<times> transaction_status) list" where
  "status_snapshot tbl = sort_key fst tbl"

lemma status_get_update: "status_get (AList.update x s tbl) y = (if y = x then s else status_get tbl y)"
  by (simp add: status_get_def update_conv')

lemma status_set_ok:
  "status_set x s tbl = (Inr u, tbl') \<Longrightarrow> tbl' = AList.update x s tbl \<and> status_get tbl x \<in> {StIN_PROGRESS, s}"
  by (auto simp: status_set_def Let_def split: if_splits)

lemma status_set_err:
  "status_set x s tbl = (Inl e, tbl') \<Longrightarrow> tbl' = tbl \<and> e = PyValueError"
  by (auto simp: status_set_def Let_def split: if_splits)

text \<open>A status that is no longer in progress never changes.\<close>

lemma status_set_terminal:
  "status_set x s tbl = (r, tbl') \<Longrightarrow> status_get tbl y \<noteq> StIN_PROGRESS \<Longrightarrow> status_get tbl' y = status_get tbl y"
  by (auto simp: status_set_def Let_def status_get_update split: if_splits)

section \<open>Snapshots\<close>

record snapshot =
  snap_xmax :: nat
  snap_active :: "nat set"

definition mk_snapshot :: "nat \<Rightarrow> nat set \<Rightarrow> snapshot result" where
  "mk_snapshot xmax active =
     (if \<exists>xid \<in> active. xid = 0 \<or> xmax \<le> xid then Inl PyValueError
      else Inr \<lparr>snap_xmax = xmax, snap_active = active\<rparr>)"

definition oldest_active_xid :: "snapshot \<Rightarrow> nat" where
  "oldest_active_xid s = (if snap_active s = {} then snap_xmax s else Min (snap_active s))"

section \<open>Visibility\<close>

definition creator_status :: "status_table \<Rightarrow> nat \<Rightarrow> transaction_status" where
  "creator_status statuses xmin = (if xmin = SYSTEM_XID then StCOMMITTED else status_get statuses xmin)"

definition is_visible :: "tuple_version \<Rightarrow> snapshot \<Rightarrow> nat \<Rightarrow> status_table \<Rightarrow> bool" where
  "is_visible version s current_xid statuses =
     (if tv_xmin version = current_xid then tv_xmax version \<noteq> current_xid
      else if creator_status statuses (tv_xmin version) \<noteq> StCOMMITTED
              \<or> snap_xmax s \<le> tv_xmin version \<or> tv_xmin version \<in> snap_active s then False
      else if tv_xmax version = 0 then True
      else if tv_xmax version = current_xid then False
      else status_get statuses (tv_xmax version) \<noteq> StCOMMITTED
           \<or> snap_xmax s \<le> tv_xmax version \<or> tv_xmax version \<in> snap_active s)"

section \<open>Transactions\<close>

datatype isolation_level = READ_COMMITTED | REPEATABLE_READ

datatype transaction_state = TsACTIVE | TsFAILED | TsCOMMITTED | TsABORTED

text \<open>The lock keys of \<open>transaction/locks.py\<close>, which a transaction holds in \<open>resources\<close>.\<close>

datatype lock_key =
    TupleLockKey (lk_table_id: nat) (lk_tid: tid)
  | UniqueKeyLockKey (lk_index_id: nat) (lk_encoded_key: bytes)

record transaction =
  tx_xid :: nat
  tx_isolation :: isolation_level
  tx_state :: transaction_state
  tx_repeatable_snapshot :: "snapshot option"
  tx_has_writes :: bool
  tx_resources :: "lock_key list"

definition new_transaction :: "nat \<Rightarrow> isolation_level \<Rightarrow> transaction" where
  "new_transaction xid isolation =
     \<lparr>tx_xid = xid, tx_isolation = isolation, tx_state = TsACTIVE, tx_repeatable_snapshot = None,
      tx_has_writes = False, tx_resources = []\<rparr>"

definition require_usable :: "transaction \<Rightarrow> unit result" where
  "require_usable t = res_require (tx_state t = TsACTIVE) TransactionAborted"

definition mark_failed :: "transaction \<Rightarrow> transaction result" where
  "mark_failed t = res_bind (require_usable t) (\<lambda>_. Inr (t\<lparr>tx_state := TsFAILED\<rparr>))"

definition mark_committed :: "transaction \<Rightarrow> transaction result" where
  "mark_committed t =
     (if tx_state t \<noteq> TsACTIVE then Inl TransactionAborted else Inr (t\<lparr>tx_state := TsCOMMITTED\<rparr>))"

definition mark_aborted :: "transaction \<Rightarrow> transaction result" where
  "mark_aborted t =
     (if tx_state t = TsCOMMITTED then Inl TransactionAborted else Inr (t\<lparr>tx_state := TsABORTED\<rparr>))"

section \<open>Reclamation\<close>

datatype version_disposition = KEEP | DEAD_VERSION

text \<open>The candidates one active transaction contributes to the horizon.\<close>

definition horizon_candidates :: "transaction \<Rightarrow> nat set" where
  "horizon_candidates t =
     (case tx_repeatable_snapshot t of
        None \<Rightarrow> {tx_xid t}
      | Some s \<Rightarrow> insert (snap_xmax s) (snap_active s))"

definition cleanup_horizon :: "transaction list \<Rightarrow> nat \<Rightarrow> nat" where
  "cleanup_horizon active_transactions next_xid =
     Min (insert next_xid (\<Union> (set (map horizon_candidates active_transactions))))"

definition classify_version :: "tuple_version \<Rightarrow> nat \<Rightarrow> status_table \<Rightarrow> version_disposition" where
  "classify_version version horizon statuses =
     (let creator = creator_status statuses (tv_xmin version)
      in if tv_xmin version < horizon \<and> creator = StABORTED then DEAD_VERSION
         else if tv_xmax version \<noteq> 0 \<and> tv_xmin version < horizon \<and> tv_xmax version < horizon
              \<and> creator = StCOMMITTED \<and> status_get statuses (tv_xmax version) = StCOMMITTED
         then DEAD_VERSION
         else KEEP)"

definition hot_eligible :: "bool \<Rightarrow> bytes list \<Rightarrow> bytes list \<Rightarrow> bool" where
  "hot_eligible same_heap_page old_index_keys new_index_keys \<longleftrightarrow>
     same_heap_page \<and> old_index_keys = new_index_keys"

record vacuum_result =
  vr_pages_scanned :: nat
  vr_dead_versions_removed :: nat
  vr_index_entries_removed :: nat
  vr_reclaimed_bytes :: nat
  vr_hot_versions_pruned :: nat

section \<open>What a snapshot sees\<close>

text \<open>
  The specification: a reader sees the effects of its own transaction and of those that were
  committed before its snapshot was taken.
\<close>

definition sees :: "snapshot \<Rightarrow> nat \<Rightarrow> (nat \<Rightarrow> transaction_status) \<Rightarrow> nat \<Rightarrow> bool" where
  "sees s current_xid status xid \<longleftrightarrow>
     xid = current_xid \<or> status xid = StCOMMITTED \<and> xid < snap_xmax s \<and> xid \<notin> snap_active s"

lemma is_visible_sees:
  assumes "tv_xmin v = cur \<Longrightarrow> tv_xmax v \<in> {0, cur}" and "cur \<noteq> 0"
  shows "is_visible v s cur st \<longleftrightarrow>
    sees s cur (creator_status st) (tv_xmin v) \<and> (tv_xmax v = 0 \<or> \<not> sees s cur (status_get st) (tv_xmax v))"
  using assms by (auto simp: is_visible_def sees_def not_le)

text \<open>Transactions concurrent with the snapshot: running when it was taken, or started after it.\<close>

definition concurrent :: "snapshot \<Rightarrow> nat \<Rightarrow> bool" where
  "concurrent s xid \<longleftrightarrow> snap_xmax s \<le> xid \<or> xid \<in> snap_active s"

text \<open>
  Claim C9. A version is visible to a statement exactly when the statement's transaction sees
  the transaction that created it and sees none that deleted it, where a transaction sees itself
  and the transactions committed before its snapshot was taken. (A version a transaction created
  can only have been deleted by that transaction.)
\<close>

theorem visibility_spec:
  assumes "tv_xmin v = cur \<Longrightarrow> tv_xmax v \<in> {0, cur}" and "cur \<noteq> 0"
  shows "is_visible v s cur st \<longleftrightarrow>
    sees s cur (creator_status st) (tv_xmin v) \<and> (tv_xmax v = 0 \<or> \<not> sees s cur (status_get st) (tv_xmax v))"
  using assms by (rule is_visible_sees)

definition deleted_version :: tuple_version where
  "deleted_version = \<lparr>tv_xmin = 2, tv_xmax = 4, tv_next_tid = None, tv_values = []\<rparr>"

theorem visibility_spec_witness:
  "is_visible deleted_version \<lparr>snap_xmax = 6, snap_active = {4}\<rparr> 5 [(2, StCOMMITTED), (4, StCOMMITTED)]
   \<and> \<not> is_visible deleted_version \<lparr>snap_xmax = 6, snap_active = {}\<rparr> 5 [(2, StCOMMITTED), (4, StCOMMITTED)]"
  using visibility_spec [of deleted_version 5 "\<lparr>snap_xmax = 6, snap_active = {4}\<rparr>"
      "[(2, StCOMMITTED), (4, StCOMMITTED)]"]
    visibility_spec [of deleted_version 5 "\<lparr>snap_xmax = 6, snap_active = {}\<rparr>"
      "[(2, StCOMMITTED), (4, StCOMMITTED)]"]
  by (simp add: deleted_version_def sees_def creator_status_def status_get_def SYSTEM_XID_def)

text \<open>
  Claim C22. A snapshot's view is fixed: whatever outcome transactions concurrent with the
  snapshot reach afterwards, the versions it sees are the same; a version such a transaction
  creates is invisible; and a version such a transaction deletes is seen as if it were not
  deleted.
\<close>

theorem snapshot_view_stable:
  assumes "\<And>x. \<not> concurrent s x \<Longrightarrow> status_get st' x = status_get st x"
    and "concurrent s x" and "x \<noteq> cur" and "x \<noteq> 0" and "cur \<noteq> 0"
  shows "is_visible v s cur st' = is_visible v s cur st
    \<and> \<not> is_visible (v\<lparr>tv_xmin := x\<rparr>) s cur st'
    \<and> is_visible (v\<lparr>tv_xmax := x\<rparr>) s cur st' = is_visible (v\<lparr>tv_xmax := 0\<rparr>) s cur st"
proof -
  have agree: "concurrent s y \<or> status_get st' y = status_get st y" for y using assms(1) by blast
  show ?thesis
    using assms(2-5) agree [of "tv_xmin v"] agree [of "tv_xmax v"]
    by (auto simp: is_visible_def concurrent_def creator_status_def)
qed

theorem snapshot_view_stable_witness:
  "\<not> is_visible (deleted_version\<lparr>tv_xmin := 4\<rparr>) \<lparr>snap_xmax = 6, snap_active = {4}\<rparr> 5 [(2, StCOMMITTED), (4, StCOMMITTED)]"
proof -
  have "status_get [(2, StCOMMITTED), (4, StCOMMITTED)] x = status_get [(2, StCOMMITTED)] x"
    if "\<not> concurrent \<lparr>snap_xmax = 6, snap_active = {4}\<rparr> x" for x
    using that by (auto simp: concurrent_def status_get_def)
  moreover have "concurrent \<lparr>snap_xmax = 6, snap_active = {4}\<rparr> 4" by (simp add: concurrent_def)
  ultimately show ?thesis
    using snapshot_view_stable [of "\<lparr>snap_xmax = 6, snap_active = {4}\<rparr>" "[(2, StCOMMITTED), (4, StCOMMITTED)]"
        "[(2, StCOMMITTED)]" 4 5 deleted_version] by simp
qed

section \<open>Laws of reclamation\<close>

lemma finite_horizon_candidates:
  "(\<And>s. tx_repeatable_snapshot t = Some s \<Longrightarrow> finite (snap_active s)) \<Longrightarrow> finite (horizon_candidates t)"
  by (auto simp: horizon_candidates_def split: option.splits)

lemma cleanup_horizon_le:
  assumes "\<And>t s. t \<in> set ts \<Longrightarrow> tx_repeatable_snapshot t = Some s \<Longrightarrow> finite (snap_active s)"
    and "t \<in> set ts" and "c \<in> horizon_candidates t"
  shows "cleanup_horizon ts n \<le> c"
proof -
  have "finite (\<Union> (set (map horizon_candidates ts)))"
    using assms(1) by (auto intro: finite_horizon_candidates)
  then show ?thesis using assms(2,3) unfolding cleanup_horizon_def by (intro Min_le) auto
qed

text \<open>
  Why a version may be reclaimed: its creator rolled back, or its deleter committed. The status
  table only ever moves forward, so each reason is permanent.
\<close>

definition dead_reason :: "tuple_version \<Rightarrow> status_table \<Rightarrow> bool" where
  "dead_reason v st \<longleftrightarrow>
     creator_status st (tv_xmin v) = StABORTED
     \<or> creator_status st (tv_xmin v) = StCOMMITTED \<and> tv_xmax v \<noteq> 0 \<and> status_get st (tv_xmax v) = StCOMMITTED"

lemma classify_dead_reason: "classify_version v h st = DEAD_VERSION \<Longrightarrow> dead_reason v st"
  by (auto simp: classify_version_def dead_reason_def Let_def split: if_splits)

lemma dead_reason_mono:
  assumes "dead_reason v st"
    and "\<And>x. status_get st x \<noteq> StIN_PROGRESS \<Longrightarrow> status_get st' x = status_get st x"
  shows "dead_reason v st'"
  using assms by (auto simp: dead_reason_def creator_status_def split: if_splits)

text \<open>
  A snapshot is too new for a dead version if it does not count the deleting transaction among
  those still running; then no unfinished transaction using it sees the version.
\<close>

definition past_deletion :: "tuple_version \<Rightarrow> status_table \<Rightarrow> snapshot \<Rightarrow> bool" where
  "past_deletion v st s \<longleftrightarrow> creator_status st (tv_xmin v) = StABORTED
     \<or> tv_xmax v < snap_xmax s \<and> tv_xmax v \<notin> snap_active s"

lemma dead_invisible:
  assumes "dead_reason v st" and "past_deletion v st s"
    and "status_get st cur = StIN_PROGRESS" and "cur \<noteq> SYSTEM_XID"
  shows "\<not> is_visible v s cur st"
  using assms by (auto simp: is_visible_def dead_reason_def past_deletion_def creator_status_def split: if_splits)

lemma classify_dead_past_deletion:
  assumes "classify_version v h st = DEAD_VERSION" and "h \<le> snap_xmax s" and "\<And>x. x \<in> snap_active s \<Longrightarrow> h \<le> x"
  shows "past_deletion v st s"
  using assms(1)
proof (auto simp: classify_version_def past_deletion_def Let_def split: if_splits)
  assume "tv_xmax v < h" then show "tv_xmax v < snap_xmax s" using assms(2) by simp
next
  assume "tv_xmax v < h" "tv_xmax v \<in> snap_active s" then show False using assms(3) by fastforce
qed

end
