(* ===== verification/Deadlock.thy ===== *)
theory Deadlock
  imports Prelude
begin

text \<open>
  \<open>transaction/deadlock.py\<close>: depth-first cycle detection in a wait-for graph. The graph is
  the dictionary of edge sets as an association list; the recursion of \<open>visit\<close> carries fuel,
  one unit per level of nesting, and a search over \<open>n\<close> nodes never nests deeper than
  \<open>n + 1\<close>. Shows that the search always finishes, that it answers None exactly for
  acyclic graphs, and that the victim is the largest transaction id on a real cycle.
\<close>

type_synonym wait_graph = "(nat \<times> nat list) list"

text \<open>\<open>sorted(self.edges.get(node, ()))\<close>\<close>

definition edge_targets :: "wait_graph \<Rightarrow> nat \<Rightarrow> nat list" where
  "edge_targets g node = (case map_of g node of None \<Rightarrow> [] | Some ts \<Rightarrow> sort (remdups ts))"

record dfs_state =
  dfs_visited :: "nat list"
  dfs_active :: "nat list"
  dfs_stack :: "nat list"

fun visit :: "nat \<Rightarrow> wait_graph \<Rightarrow> nat \<Rightarrow> dfs_state \<Rightarrow> (nat list option \<times> dfs_state) option"
  and visit_each :: "nat \<Rightarrow> wait_graph \<Rightarrow> nat list \<Rightarrow> dfs_state \<Rightarrow> (nat list option \<times> dfs_state) option" where
  "visit 0 g node st = None"
| "visit (Suc n) g node st =
     (if node \<in> set (dfs_active st) then Some (Some (dropWhile (\<lambda>x. x \<noteq> node) (dfs_stack st)), st)
      else if node \<in> set (dfs_visited st) then Some (None, st)
      else
        case visit_each n g (edge_targets g node)
               (st\<lparr>dfs_visited := node # dfs_visited st, dfs_active := node # dfs_active st,
                   dfs_stack := dfs_stack st @ [node]\<rparr>) of
          None \<Rightarrow> None
        | Some (Some cyc, st') \<Rightarrow> Some (Some cyc, st')
        | Some (None, st') \<Rightarrow>
            Some (None, st'\<lparr>dfs_stack := butlast (dfs_stack st'), dfs_active := removeAll node (dfs_active st')\<rparr>))"
| "visit_each n g [] st = Some (None, st)"
| "visit_each n g (t # ts) st =
     (case visit n g t st of
        None \<Rightarrow> None
      | Some (Some cyc, st') \<Rightarrow> Some (Some cyc, st')
      | Some (None, st') \<Rightarrow> visit_each n g ts st')"

definition search_fuel :: "wait_graph \<Rightarrow> nat" where
  "search_fuel g = Suc (length (concat (map (\<lambda>(n, ts). n # ts) g)))"

definition deadlock_victim :: "wait_graph \<Rightarrow> nat option" where
  "deadlock_victim g =
     (case visit_each (search_fuel g) g (sort (map fst g))
             \<lparr>dfs_visited = [], dfs_active = [], dfs_stack = []\<rparr> of
        Some (Some cyc, _) \<Rightarrow> Some (Max (set cyc))
      | _ \<Rightarrow> None)"

section \<open>Correctness of the search\<close>

definition wait_edges :: "wait_graph \<Rightarrow> (nat \<times> nat) set" where
  "wait_edges g = {(u, v). \<exists>ts. map_of g u = Some ts \<and> v \<in> set ts}"

definition wait_cycle :: "wait_graph \<Rightarrow> nat list \<Rightarrow> bool" where
  "wait_cycle g c \<longleftrightarrow>
     c \<noteq> [] \<and> successively (\<lambda>u v. (u, v) \<in> wait_edges g) c \<and> (last c, hd c) \<in> wait_edges g"

definition graph_nodes :: "wait_graph \<Rightarrow> nat set" where
  "graph_nodes g = set (concat (map (\<lambda>(n, ts). n # ts) g))"

definition finished :: "dfs_state \<Rightarrow> nat set" where
  "finished st = set (dfs_visited st) - set (dfs_stack st)"

definition dfs_inv :: "wait_graph \<Rightarrow> dfs_state \<Rightarrow> bool" where
  "dfs_inv g st \<longleftrightarrow>
     set (dfs_active st) = set (dfs_stack st) \<and> distinct (dfs_stack st)
     \<and> set (dfs_stack st) \<subseteq> set (dfs_visited st)
     \<and> successively (\<lambda>u v. (u, v) \<in> wait_edges g) (dfs_stack st)
     \<and> (\<forall>u \<in> finished st. \<forall>v. (u, v) \<in> wait_edges g \<longrightarrow> v \<in> finished st)
     \<and> (\<forall>u \<in> finished st. (u, u) \<notin> (wait_edges g)\<^sup>+)"

lemma dfs_invD:
  assumes "dfs_inv g st"
  shows "set (dfs_active st) = set (dfs_stack st)" "distinct (dfs_stack st)"
    "set (dfs_stack st) \<subseteq> set (dfs_visited st)"
    "successively (\<lambda>u v. (u, v) \<in> wait_edges g) (dfs_stack st)"
    "u \<in> finished st \<Longrightarrow> (u, v) \<in> wait_edges g \<Longrightarrow> v \<in> finished st"
    "u \<in> finished st \<Longrightarrow> (u, u) \<notin> (wait_edges g)\<^sup>+"
  using assms unfolding dfs_inv_def by blast+

text \<open>The node about to be visited is a root or a successor of the top of the stack.\<close>

definition next_ok :: "wait_graph \<Rightarrow> dfs_state \<Rightarrow> nat \<Rightarrow> bool" where
  "next_ok g st node \<longleftrightarrow> node \<in> graph_nodes g \<and> (dfs_stack st = [] \<or> (last (dfs_stack st), node) \<in> wait_edges g)"

lemma set_edge_targets: "set (edge_targets g u) = {v. (u, v) \<in> wait_edges g}"
  by (cases "map_of g u") (auto simp: edge_targets_def wait_edges_def)

lemma wait_edges_nodes: "(u, v) \<in> wait_edges g \<Longrightarrow> u \<in> graph_nodes g \<and> v \<in> graph_nodes g"
  by (force simp: wait_edges_def graph_nodes_def dest: map_of_SomeD)

lemma finite_graph_nodes [simp]: "finite (graph_nodes g)"
  unfolding graph_nodes_def by (rule finite_set)

lemma closed_rtrancl:
  assumes "\<And>u v. u \<in> S \<Longrightarrow> (u, v) \<in> r \<Longrightarrow> v \<in> S" and "(u, v) \<in> r\<^sup>*" and "u \<in> S"
  shows "v \<in> S"
  using assms(2,3) by (induction rule: rtrancl_induct) (auto intro: assms(1))

text \<open>Reaching an active node closes a cycle along the stack.\<close>

lemma active_node_cycle:
  assumes "dfs_inv g st" and "next_ok g st node" and "node \<in> set (dfs_stack st)"
  shows "wait_cycle g (dropWhile (\<lambda>x. x \<noteq> node) (dfs_stack st))"
proof -
  define c where "c = dropWhile (\<lambda>x. x \<noteq> node) (dfs_stack st)"
  have split: "dfs_stack st = takeWhile (\<lambda>x. x \<noteq> node) (dfs_stack st) @ c" by (simp add: c_def)
  have ne: "c \<noteq> []" using assms(3) by (auto simp: c_def dropWhile_eq_Nil_conv)
  have "hd c = node" using hd_dropWhile [of "\<lambda>x. x \<noteq> node" "dfs_stack st"] ne by (simp add: c_def)
  moreover have "last c = last (dfs_stack st)" using ne by (subst split) simp
  moreover have "successively (\<lambda>u v. (u, v) \<in> wait_edges g) c"
    using assms(1) split unfolding dfs_inv_def by (metis successively_append_iff)
  moreover have "dfs_stack st \<noteq> []" using assms(3) by auto
  ultimately show ?thesis using assms(2) ne by (simp add: wait_cycle_def next_ok_def c_def [symmetric])
qed

text \<open>Entering a node and leaving it once all its successors are finished keep the invariant.\<close>

lemma dfs_inv_push:
  assumes "dfs_inv g st" and "next_ok g st node" and "node \<notin> set (dfs_visited st)"
  shows "dfs_inv g (st\<lparr>dfs_visited := node # dfs_visited st, dfs_active := node # dfs_active st,
     dfs_stack := dfs_stack st @ [node]\<rparr>)" (is "dfs_inv g ?st")
proof -
  have "finished ?st = finished st" using assms(3) by (auto simp: finished_def)
  moreover have "node \<notin> set (dfs_stack st)" using assms(1,3) by (auto simp: dfs_inv_def)
  ultimately show ?thesis
    using assms(1,2) by (auto simp: dfs_inv_def next_ok_def successively_append_iff)
qed

lemma dfs_inv_pop:
  assumes "dfs_inv g st" and "dfs_stack st = s @ [node]"
    and "\<And>v. (node, v) \<in> wait_edges g \<Longrightarrow> v \<in> finished st"
  defines "st' \<equiv> st\<lparr>dfs_stack := butlast (dfs_stack st), dfs_active := removeAll node (dfs_active st)\<rparr>"
  shows "dfs_inv g st'" and "finished st' = insert node (finished st)"
proof -
  have n: "node \<notin> set s" "node \<in> set (dfs_visited st)" "set (dfs_active st) = insert node (set s)"
    using assms(1,2) by (auto simp: dfs_inv_def)
  show f: "finished st' = insert node (finished st)"
    using n assms(2) by (auto simp: finished_def st'_def)
  have cl: "v \<in> finished st" if "u \<in> finished st" "(u, v) \<in> wait_edges g" for u v
    using assms(1) that by (auto simp: dfs_inv_def)
  have "(node, node) \<notin> (wait_edges g)\<^sup>+"
  proof
    assume "(node, node) \<in> (wait_edges g)\<^sup>+"
    then obtain v where v: "(node, v) \<in> wait_edges g" "(v, node) \<in> (wait_edges g)\<^sup>*"
      by (blast dest: tranclD)
    have "node \<in> finished st" by (rule closed_rtrancl [OF cl v(2) assms(3) [OF v(1)]])
    then show False using assms(2) by (auto simp: finished_def)
  qed
  moreover have "\<forall>u \<in> finished st. (u, u) \<notin> (wait_edges g)\<^sup>+" using assms(1) by (simp add: dfs_inv_def)
  moreover have "\<forall>u \<in> insert node (finished st). \<forall>v. (u, v) \<in> wait_edges g \<longrightarrow> v \<in> insert node (finished st)"
    using cl assms(3) by blast
  moreover have "set (dfs_active st') = set (dfs_stack st')" "distinct (dfs_stack st')"
    "set (dfs_stack st') \<subseteq> set (dfs_visited st')"
    "successively (\<lambda>u v. (u, v) \<in> wait_edges g) (dfs_stack st')"
    using assms(1,2) n by (auto simp: st'_def dfs_inv_def successively_append_iff)
  ultimately show "dfs_inv g st'" unfolding dfs_inv_def f by simp
qed

definition search_post :: "wait_graph \<Rightarrow> dfs_state \<Rightarrow> nat set \<Rightarrow> nat list option \<times> dfs_state \<Rightarrow> bool" where
  "search_post g st goal out \<longleftrightarrow>
     (case out of
        (Some c, st') \<Rightarrow> wait_cycle g c
      | (None, st') \<Rightarrow> dfs_inv g st' \<and> dfs_stack st' = dfs_stack st
          \<and> set (dfs_visited st) \<subseteq> set (dfs_visited st') \<and> goal \<subseteq> finished st')"

lemma finished_mono:
  "dfs_stack st' = dfs_stack st \<Longrightarrow> set (dfs_visited st) \<subseteq> set (dfs_visited st') \<Longrightarrow> finished st \<subseteq> finished st'"
  by (auto simp: finished_def)

lemma visit_sound:
  "dfs_inv g st \<Longrightarrow> next_ok g st node \<Longrightarrow> visit n g node st = Some out \<Longrightarrow> search_post g st {node} out"
  "dfs_inv g st \<Longrightarrow> (\<And>t. t \<in> set ts \<Longrightarrow> next_ok g st t) \<Longrightarrow> visit_each n g ts st = Some out \<Longrightarrow>
     search_post g st (set ts) out"
proof (induction n g node st and n g ts st arbitrary: out and out rule: visit_visit_each.induct)
  case (2 n g node st)
  consider (active) "node \<in> set (dfs_active st)" | (visited) "node \<notin> set (dfs_active st)" "node \<in> set (dfs_visited st)"
    | (new) "node \<notin> set (dfs_active st)" "node \<notin> set (dfs_visited st)" by blast
  then show ?case
  proof cases
    case active
    then have "node \<in> set (dfs_stack st)" using dfs_invD(1) [OF "2.prems"(1)] by simp
    then have "wait_cycle g (dropWhile (\<lambda>x. x \<noteq> node) (dfs_stack st))"
      by (rule active_node_cycle [OF "2.prems"(1,2)])
    moreover have "out = (Some (dropWhile (\<lambda>x. x \<noteq> node) (dfs_stack st)), st)"
      using "2.prems"(3) active by (simp del: visit_each.simps)
    ultimately show ?thesis by (simp add: search_post_def)
  next
    case visited
    then have "node \<in> finished st" using dfs_invD(1) [OF "2.prems"(1)] by (simp add: finished_def)
    moreover have "out = (None, st)" using "2.prems"(3) visited by (simp del: visit_each.simps)
    ultimately show ?thesis using "2.prems"(1) by (simp add: search_post_def)
  next
    case new
    define st1 where "st1 = st\<lparr>dfs_visited := node # dfs_visited st, dfs_active := node # dfs_active st,
      dfs_stack := dfs_stack st @ [node]\<rparr>"
    have i1: "dfs_inv g st1" unfolding st1_def by (rule dfs_inv_push [OF "2.prems"(1,2) new(2)])
    have n1: "next_ok g st1 t" if "t \<in> set (edge_targets g node)" for t
      using that wait_edges_nodes by (auto simp: set_edge_targets next_ok_def st1_def)
    obtain res st2 where e: "visit_each n g (edge_targets g node) st1 = Some (res, st2)"
      using "2.prems"(3) new by (auto simp: st1_def split: option.splits)
    have post: "search_post g st1 (set (edge_targets g node)) (res, st2)"
      using "2.IH" [OF new] i1 n1 e by (simp add: st1_def)
    show ?thesis
    proof (cases res)
      case (Some c)
      then have "out = (Some c, st2)" using "2.prems"(3) new e by (simp add: st1_def)
      moreover have "wait_cycle g c" using post Some by (simp add: search_post_def)
      ultimately show ?thesis by (simp add: search_post_def)
    next
      case None
      have p: "dfs_inv g st2" "dfs_stack st2 = dfs_stack st @ [node]"
        "set (dfs_visited st1) \<subseteq> set (dfs_visited st2)" "set (edge_targets g node) \<subseteq> finished st2"
        using post None by (auto simp: search_post_def st1_def)
      have "out = (None, st2\<lparr>dfs_stack := butlast (dfs_stack st2), dfs_active := removeAll node (dfs_active st2)\<rparr>)"
        using "2.prems"(3) new e None by (simp add: st1_def)
      then show ?thesis
        using dfs_inv_pop [OF p(1,2)] p(2-4)
        by (auto simp: search_post_def set_edge_targets st1_def)
    qed
  qed
next
  case (3 n g st)
  then show ?case by (auto simp: search_post_def)
next
  case (4 n g t ts st)
  obtain res st1 where v: "visit n g t st = Some (res, st1)"
    using "4.prems"(3) by (auto split: option.splits)
  have post: "search_post g st {t} (res, st1)" using "4.IH"(1) [OF "4.prems"(1) _ v] "4.prems"(2) by simp
  show ?case
  proof (cases res)
    case (Some c)
    then have "out = (Some c, st1)" using v "4.prems"(3) by simp
    moreover have "wait_cycle g c" using post Some by (simp add: search_post_def)
    ultimately show ?thesis by (simp add: search_post_def)
  next
    case None
    have p: "dfs_inv g st1" "dfs_stack st1 = dfs_stack st" "set (dfs_visited st) \<subseteq> set (dfs_visited st1)"
      "t \<in> finished st1" using post None by (auto simp: search_post_def)
    have "next_ok g st1 x" if "x \<in> set ts" for x
      using "4.prems"(2) [of x] that p(2) by (simp add: next_ok_def)
    moreover have "visit_each n g ts st1 = Some out" using "4.prems"(3) v None by simp
    ultimately have "search_post g st1 (set ts) out" using "4.IH"(2) [OF v] p(1) None by blast
    then show ?thesis
      using p finished_mono [of _ st1]
      by (auto simp: search_post_def split: prod.splits option.splits)
  qed
qed auto

lemma visit_total:
  "dfs_inv g st \<Longrightarrow> next_ok g st node \<Longrightarrow> card (graph_nodes g - set (dfs_visited st)) < n \<Longrightarrow> visit n g node st \<noteq> None"
  "dfs_inv g st \<Longrightarrow> (\<And>t. t \<in> set ts \<Longrightarrow> next_ok g st t) \<Longrightarrow>
     card (graph_nodes g - set (dfs_visited st)) < n \<Longrightarrow> visit_each n g ts st \<noteq> None"
proof (induction n g node st and n g ts st rule: visit_visit_each.induct)
  case (2 n g node st)
  show ?case
  proof (cases "node \<in> set (dfs_active st) \<or> node \<in> set (dfs_visited st)")
    case True
    then show ?thesis by auto
  next
    case False
    define st1 where "st1 = st\<lparr>dfs_visited := node # dfs_visited st, dfs_active := node # dfs_active st,
      dfs_stack := dfs_stack st @ [node]\<rparr>"
    have i1: "dfs_inv g st1" unfolding st1_def using "2.prems" False by (intro dfs_inv_push) auto
    have n1: "next_ok g st1 t" if "t \<in> set (edge_targets g node)" for t
      using that wait_edges_nodes by (auto simp: set_edge_targets next_ok_def st1_def)
    have "graph_nodes g - set (dfs_visited st1) \<subset> graph_nodes g - set (dfs_visited st)"
      using "2.prems"(2) False by (auto simp: st1_def next_ok_def)
    then have "card (graph_nodes g - set (dfs_visited st1)) < n"
      using psubset_card_mono [of "graph_nodes g - set (dfs_visited st)" "graph_nodes g - set (dfs_visited st1)"]
        "2.prems"(3) finite_graph_nodes by (meson finite_Diff less_Suc_eq_le less_le_trans)
    then have "visit_each n g (edge_targets g node) st1 \<noteq> None"
      using "2.IH" False i1 n1 by (simp add: st1_def)
    then show ?thesis using False by (auto simp: st1_def split: option.splits)
  qed
next
  case (4 n g t ts st)
  obtain res st1 where v: "visit n g t st = Some (res, st1)"
    using "4.IH"(1) [OF "4.prems"(1) _ "4.prems"(3)] "4.prems"(2) by auto
  show ?case
  proof (cases res)
    case (Some c)
    then show ?thesis using v by simp
  next
    case None
    have "search_post g st {t} (res, st1)" using visit_sound(1) [OF "4.prems"(1) _ v] "4.prems"(2) by simp
    then have p: "dfs_inv g st1" "dfs_stack st1 = dfs_stack st" "set (dfs_visited st) \<subseteq> set (dfs_visited st1)"
      using None by (auto simp: search_post_def)
    have "card (graph_nodes g - set (dfs_visited st1)) \<le> card (graph_nodes g - set (dfs_visited st))"
      using p(3) by (intro card_mono) auto
    then have "visit_each n g ts st1 \<noteq> None"
      using "4.IH"(2) [OF v] p "4.prems"(2,3) None by (simp add: next_ok_def)
    then show ?thesis using v None by simp
  qed
qed auto

lemma wait_cycle_trancl:
  assumes "wait_cycle g c" and "x \<in> set c"
  shows "(x, x) \<in> (wait_edges g)\<^sup>+"
proof -
  have path: "(x, y) \<in> (wait_edges g)\<^sup>*" if "successively (\<lambda>u v. (u, v) \<in> wait_edges g) (x # ys)" "y \<in> set (x # ys)"
    for x y ys
    using that
  proof (induction ys arbitrary: x)
    case (Cons z ys)
    then show ?case by (auto intro: converse_rtrancl_into_rtrancl)
  qed simp
  obtain as bs where c: "c = as @ x # bs" using assms(2) by (auto simp: in_set_conv_decomp)
  have succ: "successively (\<lambda>u v. (u, v) \<in> wait_edges g) c" and closes: "(last c, hd c) \<in> wait_edges g" and ne: "c \<noteq> []"
    using assms(1) by (auto simp: wait_cycle_def)
  have "successively (\<lambda>u v. (u, v) \<in> wait_edges g) (x # bs)"
    using succ by (simp add: c successively_append_iff)
  then have "(x, last c) \<in> (wait_edges g)\<^sup>*" using path [of x bs "last c"] by (simp add: c)
  moreover have "(hd c, x) \<in> (wait_edges g)\<^sup>*"
    using path [of "hd c" "tl c" x] succ ne assms(2) by simp
  ultimately show ?thesis using closes by (meson rtrancl_into_trancl1 trancl_rtrancl_trancl)
qed

lemma deadlock_victim_cases:
  "case deadlock_victim g of
     None \<Rightarrow> acyclic (wait_edges g)
   | Some v \<Rightarrow> (\<exists>c. wait_cycle g c \<and> v = Max (set c))"
proof -
  define st0 where "st0 = \<lparr>dfs_visited = [], dfs_active = [], dfs_stack = []\<rparr>"
  have i: "dfs_inv g st0" by (simp add: dfs_inv_def st0_def finished_def)
  have n: "next_ok g st0 t" if "t \<in> set (sort (map fst g))" for t
    using that by (force simp: next_ok_def st0_def graph_nodes_def)
  have "card (graph_nodes g) \<le> length (concat (map (\<lambda>(n, ts). n # ts) g))"
    unfolding graph_nodes_def by (rule card_length)
  then have "card (graph_nodes g - set (dfs_visited st0)) < search_fuel g"
    by (simp add: st0_def search_fuel_def)
  then obtain res st where e: "visit_each (search_fuel g) g (sort (map fst g)) st0 = Some (res, st)"
    using visit_total(2) [OF i n] by fastforce
  have post: "search_post g st0 (set (sort (map fst g))) (res, st)" using visit_sound(2) [OF i n e] by simp
  show ?thesis
  proof (cases res)
    case (Some c)
    then show ?thesis using post e by (auto simp: deadlock_victim_def search_post_def st0_def [symmetric])
  next
    case None
    then have p: "dfs_inv g st" "fst ` set g \<subseteq> finished st"
      using post by (auto simp: search_post_def)
    have "(u, u) \<notin> (wait_edges g)\<^sup>+" for u
    proof
      assume u: "(u, u) \<in> (wait_edges g)\<^sup>+"
      then obtain v where "(u, v) \<in> wait_edges g" by (metis tranclD)
      then have "u \<in> fst ` set g" by (force simp: wait_edges_def dest: map_of_SomeD)
      then show False using dfs_invD(6) [OF p(1)] p(2) u by blast
    qed
    then show ?thesis using e None by (simp add: deadlock_victim_def st0_def [symmetric] acyclic_def)
  qed
qed

text \<open>
  Claim C21. Deadlock detection always returns. It finds no victim exactly when the wait-for
  graph is acyclic; a victim it names is the highest transaction id on a cycle of the graph, so
  it waits, directly or through others, for itself.
\<close>

theorem deadlock_victim_spec:
  "case deadlock_victim g of
     None \<Rightarrow> acyclic (wait_edges g)
   | Some v \<Rightarrow> (\<exists>c. wait_cycle g c \<and> v = Max (set c) \<and> (v, v) \<in> (wait_edges g)\<^sup>+)"
proof (cases "deadlock_victim g")
  case None
  then show ?thesis using deadlock_victim_cases [of g] by simp
next
  case (Some v)
  then obtain c where c: "wait_cycle g c" "v = Max (set c)" using deadlock_victim_cases [of g] by auto
  then have "v \<in> set c" by (simp add: wait_cycle_def)
  then show ?thesis using Some c wait_cycle_trancl [OF c(1)] by auto
qed

end
