(* ===== verification/Locks.thy ===== *)
theory Locks
  imports Mvcc Deadlock
begin

text \<open>
  \<open>transaction/locks.py\<close>: exclusive, reentrant FIFO locks. Transaction objects are shared by
  reference between the callers, the lock manager and the transaction manager, so they live in a
  store keyed by their id and the lock manager's dictionaries hold ids. The condition variable
  makes each stretch of \<open>acquire\<close> between two waits one atomic step: entering it, and
  resuming after a wake-up. What the handler of a deadlock victim does is a parameter, as in the
  constructor; the record is extensible so that the transaction manager adds its own fields.
\<close>

record lock_world =
  lw_txns :: "nat \<Rightarrow> transaction option"
  lw_owners :: "(lock_key \<times> nat) list"
  lw_queues :: "(lock_key \<times> nat list) list"
  lw_registered :: "nat list"

type_synonym ('a, 'r) lock_sm = "('a lock_world_scheme, 'r) sm"

definition get_txn :: "nat \<Rightarrow> ('a, transaction) lock_sm" where
  "get_txn xid w = (case lw_txns w xid of None \<Rightarrow> (Inl PyKeyError, w) | Some t \<Rightarrow> (Inr t, w))"

definition put_txn :: "nat \<Rightarrow> transaction \<Rightarrow> 'a lock_world_scheme \<Rightarrow> 'a lock_world_scheme" where
  "put_txn xid t w = w\<lparr>lw_txns := (lw_txns w)(xid \<mapsto> t)\<rparr>"

definition owner_of :: "'a lock_world_scheme \<Rightarrow> lock_key \<Rightarrow> nat option" where
  "owner_of w r = map_of (lw_owners w) r"

definition queue_of :: "'a lock_world_scheme \<Rightarrow> lock_key \<Rightarrow> nat list" where
  "queue_of w r = (case map_of (lw_queues w) r of None \<Rightarrow> [] | Some q \<Rightarrow> q)"

definition set_queue :: "lock_key \<Rightarrow> nat list \<Rightarrow> 'a lock_world_scheme \<Rightarrow> 'a lock_world_scheme" where
  "set_queue r q w = w\<lparr>lw_queues := AList.update r q (lw_queues w)\<rparr>"

definition add_resource :: "nat \<Rightarrow> lock_key \<Rightarrow> 'a lock_world_scheme \<Rightarrow> 'a lock_world_scheme" where
  "add_resource xid r w =
     (case lw_txns w xid of
        None \<Rightarrow> w
      | Some t \<Rightarrow> put_txn xid (t\<lparr>tx_resources := List.insert r (tx_resources t)\<rparr>) w)"

section \<open>The wait-for graph\<close>

definition add_edges :: "nat \<Rightarrow> nat list \<Rightarrow> wait_graph \<Rightarrow> wait_graph" where
  "add_edges waiter blockers edges =
     AList.update waiter ((case map_of edges waiter of None \<Rightarrow> [] | Some ts \<Rightarrow> ts) @ blockers) edges"

fun queue_edges :: "nat list \<Rightarrow> nat list \<Rightarrow> wait_graph \<Rightarrow> wait_graph" where
  "queue_edges blockers [] edges = edges"
| "queue_edges blockers (waiter # ws) edges =
     queue_edges (blockers @ [waiter]) ws (add_edges waiter blockers edges)"

definition wait_graph_of :: "'a lock_world_scheme \<Rightarrow> wait_graph" where
  "wait_graph_of w =
     fold (\<lambda>(r, q) edges. queue_edges (case owner_of w r of None \<Rightarrow> [] | Some x \<Rightarrow> [x]) q edges) (lw_queues w) []"

definition waiting_xids :: "'a lock_world_scheme \<Rightarrow> nat set" where
  "waiting_xids w = \<Union> (set (map (set \<circ> snd) (lw_queues w)))"

section \<open>Releasing\<close>

definition release_owned :: "nat \<Rightarrow> lock_key list \<Rightarrow> (lock_key \<times> nat) list \<Rightarrow> (lock_key \<times> nat) list" where
  "release_owned xid rs owners =
     fold (\<lambda>r os. if map_of os r = Some xid then AList.delete r os else os) rs owners"

definition release_all :: "nat \<Rightarrow> ('a, unit) lock_sm" where
  "release_all xid =
     sm_bind (get_txn xid) (\<lambda>t.
     sm_modify (\<lambda>w. (put_txn xid (t\<lparr>tx_resources := []\<rparr>) w)
        \<lparr>lw_owners := release_owned xid (tx_resources t) (lw_owners w),
         lw_queues := map (\<lambda>(r, q). (r, remove1 xid q)) (lw_queues w),
         lw_registered := removeAll xid (lw_registered w)\<rparr>))"

text \<open>\<open>mark_failed\<close> and its siblings on the stored transaction.\<close>

definition update_txn :: "nat \<Rightarrow> (transaction \<Rightarrow> transaction result) \<Rightarrow> ('a, unit) lock_sm" where
  "update_txn xid f =
     sm_bind (get_txn xid) (\<lambda>t. sm_bind (sm_lift (f t)) (\<lambda>t'. sm_modify (put_txn xid t')))"

definition abort_victim :: "(nat \<Rightarrow> ('a, unit) lock_sm) option \<Rightarrow> nat \<Rightarrow> ('a, unit) lock_sm" where
  "abort_victim handler xid w =
     (if xid \<in> set (lw_registered w) then
        (case handler of
           Some h \<Rightarrow> h xid w
         | None \<Rightarrow> sm_bind (update_txn xid mark_failed) (\<lambda>_. release_all xid) w)
      else (Inr (), w))"

section \<open>Acquiring\<close>

datatype acquire_outcome = Granted | Waits

text \<open>
  The loop of \<open>acquire\<close> up to the next wait: grant at the head of the queue of a free
  resource, otherwise look for a deadlock, resolve it and wait.
\<close>

definition acquire_check ::
    "(nat \<Rightarrow> ('a, unit) lock_sm) option \<Rightarrow> nat \<Rightarrow> lock_key \<Rightarrow> ('a, acquire_outcome) lock_sm" where
  "acquire_check handler xid r w =
     (if owner_of w r = None \<and> queue_of w r = [] then (Inl PyIndexError, w)
      else if owner_of w r = None \<and> hd (queue_of w r) = xid then
        (Inr Granted,
         add_resource xid r ((set_queue r (tl (queue_of w r)) w)
           \<lparr>lw_owners := AList.update r xid (lw_owners w)\<rparr>))
      else
        case deadlock_victim (wait_graph_of w) of
          None \<Rightarrow> (Inr Waits, w)
        | Some victim \<Rightarrow>
            sm_bind (abort_victim handler victim) (\<lambda>_.
            if victim = xid then sm_raise DeadlockDetected else sm_return Waits) w)"

definition lock_acquire ::
    "(nat \<Rightarrow> ('a, unit) lock_sm) option \<Rightarrow> nat \<Rightarrow> lock_key \<Rightarrow> ('a, acquire_outcome) lock_sm" where
  "lock_acquire handler xid r =
     sm_bind (get_txn xid) (\<lambda>t.
     sm_bind (sm_lift (require_usable t)) (\<lambda>_.
     sm_bind (sm_modify (\<lambda>w. w\<lparr>lw_registered := List.insert xid (lw_registered w)\<rparr>)) (\<lambda>_ w.
     if owner_of w r = Some xid then (Inr Granted, add_resource xid r w)
     else
       acquire_check handler xid r
         (set_queue r (if xid \<in> set (queue_of w r) then queue_of w r else queue_of w r @ [xid]) w))))"

definition acquire_resume ::
    "(nat \<Rightarrow> ('a, unit) lock_sm) option \<Rightarrow> nat \<Rightarrow> lock_key \<Rightarrow> ('a, acquire_outcome) lock_sm" where
  "acquire_resume handler xid r =
     sm_bind (get_txn xid) (\<lambda>t.
     sm_bind (sm_lift (require_usable t)) (\<lambda>_.
     acquire_check handler xid r))"

section \<open>The locking invariant\<close>

text \<open>
  Owners and their \<open>resources\<close> agree, owners are unfinished transactions, waiters are unfinished
  and wait once per queue.
\<close>

definition unfinished :: "transaction \<Rightarrow> bool" where
  "unfinished t \<longleftrightarrow> tx_state t = TsACTIVE \<or> tx_state t = TsFAILED"

definition lock_inv :: "'a lock_world_scheme \<Rightarrow> bool" where
  "lock_inv w \<longleftrightarrow>
     distinct (map fst (lw_owners w)) \<and> distinct (map fst (lw_queues w))
     \<and> (\<forall>x t. lw_txns w x = Some t \<longrightarrow> tx_xid t = x)
     \<and> (\<forall>x t r. lw_txns w x = Some t \<longrightarrow> (r \<in> set (tx_resources t) \<longleftrightarrow> owner_of w r = Some x))
     \<and> (\<forall>r x. owner_of w r = Some x \<longrightarrow> (\<exists>t. lw_txns w x = Some t \<and> unfinished t))
     \<and> (\<forall>r q. (r, q) \<in> set (lw_queues w) \<longrightarrow> distinct q
          \<and> (\<forall>x \<in> set q. x \<in> set (lw_registered w) \<and> (\<exists>t. lw_txns w x = Some t \<and> unfinished t)))"

lemma lock_invD:
  assumes "lock_inv w"
  shows "distinct (map fst (lw_owners w))" "distinct (map fst (lw_queues w))"
    and "lw_txns w x = Some t \<Longrightarrow> tx_xid t = x"
    and "lw_txns w x = Some t \<Longrightarrow> r \<in> set (tx_resources t) \<longleftrightarrow> owner_of w r = Some x"
    and "owner_of w r = Some x \<Longrightarrow> \<exists>t. lw_txns w x = Some t \<and> unfinished t"
    and "(r, q) \<in> set (lw_queues w) \<Longrightarrow> distinct q"
    and "(r, q) \<in> set (lw_queues w) \<Longrightarrow> x \<in> set q \<Longrightarrow> x \<in> set (lw_registered w)"
    and "(r, q) \<in> set (lw_queues w) \<Longrightarrow> x \<in> set q \<Longrightarrow> \<exists>t. lw_txns w x = Some t \<and> unfinished t"
  using assms unfolding lock_inv_def by blast+

lemma release_owned_Cons:
  "release_owned x (a # rs) os = release_owned x rs (if map_of os a = Some x then AList.delete a os else os)"
  by (simp add: release_owned_def)

lemma distinct_release_owned: "distinct (map fst os) \<Longrightarrow> distinct (map fst (release_owned x rs os))"
  by (induction rs arbitrary: os)
    (simp_all add: release_owned_Cons AList.distinct_delete, simp add: release_owned_def)

lemma map_of_release_owned:
  "map_of (release_owned x rs os) r = (if r \<in> set rs \<and> map_of os r = Some x then None else map_of os r)"
proof (induction rs arbitrary: os)
  case Nil
  show ?case by (simp add: release_owned_def)
next
  case (Cons a rs)
  show ?case unfolding release_owned_Cons Cons.IH by (auto simp: AList.delete_conv')
qed

lemma release_all_Inr:
  "lw_txns w x = Some t \<Longrightarrow> release_all x w = (Inr (), (put_txn x (t\<lparr>tx_resources := []\<rparr>) w)
        \<lparr>lw_owners := release_owned x (tx_resources t) (lw_owners w),
         lw_queues := map (\<lambda>(r, q). (r, remove1 x q)) (lw_queues w),
         lw_registered := removeAll x (lw_registered w)\<rparr>)"
  by (simp add: release_all_def sm_bind_def get_txn_def)

text \<open>
  A transaction that no longer counts as unfinished may be stored once it is released: nothing
  it owned or waited for remains.
\<close>

lemma release_all_inv:
  assumes "lock_inv w" and "lw_txns w x = Some t" and "release_all x (put_txn x (t\<lparr>tx_state := s\<rparr>) w) = (res, w')"
  shows "lock_inv w'" and "res = Inr ()" and "\<And>r. owner_of w' r = (if owner_of w r = Some x then None else owner_of w r)"
    and "x \<notin> waiting_xids w'" and "lw_txns w' = (lw_txns w)(x \<mapsto> t\<lparr>tx_state := s, tx_resources := []\<rparr>)"
proof -
  note d = lock_invD [OF assms(1)]
  define os where "os = release_owned x (tx_resources t) (lw_owners w)"
  have w': "w' = (put_txn x (t\<lparr>tx_state := s, tx_resources := []\<rparr>) w)
        \<lparr>lw_owners := os, lw_queues := map (\<lambda>(r, q). (r, remove1 x q)) (lw_queues w),
         lw_registered := removeAll x (lw_registered w)\<rparr>" and res: "res = Inr ()"
    using assms(2,3) by (auto simp: release_all_def sm_bind_def get_txn_def put_txn_def os_def)
  show "res = Inr ()" by (rule res)
  show own: "owner_of w' r = (if owner_of w r = Some x then None else owner_of w r)" for r
    using d(4) [OF assms(2)]
    by (auto simp: w' owner_of_def os_def map_of_release_owned)
  show tx: "lw_txns w' = (lw_txns w)(x \<mapsto> t\<lparr>tx_state := s, tx_resources := []\<rparr>)"
    by (simp add: w' put_txn_def)
  have q: "(r, q') \<in> set (lw_queues w') \<longleftrightarrow> (\<exists>q. (r, q) \<in> set (lw_queues w) \<and> q' = remove1 x q)" for r q'
    by (auto simp: w')
  have notin: "x \<notin> set (remove1 x q)" if "(r, q) \<in> set (lw_queues w)" for r q
    using d(6) [OF that] by simp
  show "x \<notin> waiting_xids w'"
    using notin by (auto simp: waiting_xids_def w')
  show "lock_inv w'"
    unfolding lock_inv_def
  proof (intro conjI allI impI)
    show "distinct (map fst (lw_owners w'))" using distinct_release_owned [OF d(1)] by (simp add: w' os_def)
    have "map fst (lw_queues w') = map fst (lw_queues w)" by (simp add: w' case_prod_beta comp_def)
    then show "distinct (map fst (lw_queues w'))" using d(2) by simp
    show "tx_xid u = y" if "lw_txns w' y = Some u" for y u
      using that d(3) assms(2) by (auto simp: tx split: if_splits)
    show "r \<in> set (tx_resources u) \<longleftrightarrow> owner_of w' r = Some y" if "lw_txns w' y = Some u" for y u r
      using that d(4) by (auto simp: tx own split: if_splits)
    show "\<exists>u. lw_txns w' y = Some u \<and> unfinished u" if "owner_of w' r = Some y" for r y
      using that d(5) [of r y] by (auto simp: tx own split: if_splits)
    fix r q' assume "(r, q') \<in> set (lw_queues w')"
    then obtain q where rq: "(r, q) \<in> set (lw_queues w)" "q' = remove1 x q" using q by blast
    show "distinct q'" using d(6) [OF rq(1)] rq(2) by simp
    show "\<forall>y \<in> set q'. y \<in> set (lw_registered w') \<and> (\<exists>u. lw_txns w' y = Some u \<and> unfinished u)"
    proof
      fix y assume y: "y \<in> set q'"
      then have "y \<in> set q" "y \<noteq> x" using rq(2) notin [OF rq(1)] set_remove1_subset by fastforce+
      then show "y \<in> set (lw_registered w') \<and> (\<exists>u. lw_txns w' y = Some u \<and> unfinished u)"
        using d(7,8) [OF rq(1), of y] by (auto simp: w' put_txn_def)
    qed
  qed
qed

lemma lock_invI:
  assumes "distinct (map fst (lw_owners w))" "distinct (map fst (lw_queues w))"
    and "\<And>x t. lw_txns w x = Some t \<Longrightarrow> tx_xid t = x"
    and "\<And>x t r. lw_txns w x = Some t \<Longrightarrow> r \<in> set (tx_resources t) \<longleftrightarrow> owner_of w r = Some x"
    and "\<And>r x. owner_of w r = Some x \<Longrightarrow> \<exists>t. lw_txns w x = Some t \<and> unfinished t"
    and "\<And>r q. (r, q) \<in> set (lw_queues w) \<Longrightarrow> distinct q"
    and "\<And>r q x. (r, q) \<in> set (lw_queues w) \<Longrightarrow> x \<in> set q \<Longrightarrow>
      x \<in> set (lw_registered w) \<and> (\<exists>t. lw_txns w x = Some t \<and> unfinished t)"
  shows "lock_inv w"
  using assms unfolding lock_inv_def by blast

text \<open>Storing a transaction whose locks and fate are unchanged keeps the invariant.\<close>

lemma lock_inv_put:
  assumes "lock_inv w" and "lw_txns w x = Some t" and "tx_xid t' = x" and "tx_resources t' = tx_resources t"
    and "unfinished t \<Longrightarrow> unfinished t'"
  shows "lock_inv (put_txn x t' w)"
proof -
  note d = lock_invD [OF assms(1)]
  have tx: "lw_txns (put_txn x t' w) y = (if y = x then Some t' else lw_txns w y)" for y
    by (simp add: put_txn_def)
  have rest: "lw_owners (put_txn x t' w) = lw_owners w" "lw_queues (put_txn x t' w) = lw_queues w"
    "lw_registered (put_txn x t' w) = lw_registered w" "owner_of (put_txn x t' w) = owner_of w"
    by (simp_all add: put_txn_def owner_of_def fun_eq_iff)
  have ex: "\<exists>u. lw_txns (put_txn x t' w) y = Some u \<and> unfinished u"
    if "\<exists>u. lw_txns w y = Some u \<and> unfinished u" for y
    using that assms(2,5) by (auto simp: tx)
  show ?thesis
  proof (rule lock_invI)
    show "r \<in> set (tx_resources u) \<longleftrightarrow> owner_of (put_txn x t' w) r = Some y"
      if "lw_txns (put_txn x t' w) y = Some u" for y u r
      using that d(4) [of y u r] d(4) [OF assms(2), of r] assms(4) by (simp add: tx rest split: if_splits)
    show "tx_xid u = y" if "lw_txns (put_txn x t' w) y = Some u" for y u
      using that d(3) assms(3) by (simp add: tx split: if_splits)
  qed (use d ex in \<open>auto simp: rest\<close>)
qed

lemma lock_inv_register:
  "lock_inv w \<Longrightarrow> lock_inv (w\<lparr>lw_registered := List.insert x (lw_registered w)\<rparr>)"
  by (rule lock_invI) (use lock_invD [of w] in \<open>auto simp: owner_of_def\<close>)

lemma queue_of_cases: "queue_of w r = [] \<or> (r, queue_of w r) \<in> set (lw_queues w)"
  by (auto simp: queue_of_def dest: map_of_SomeD split: option.splits)

lemma queue_ofD:
  assumes "lock_inv w"
  shows "distinct (queue_of w r)" and "x \<in> set (queue_of w r) \<Longrightarrow> x \<in> set (lw_registered w)"
    and "x \<in> set (queue_of w r) \<Longrightarrow> \<exists>t. lw_txns w x = Some t \<and> unfinished t"
  using queue_of_cases [of w r] lock_invD(6-8) [OF assms] by fastforce+

lemma set_tl: "set (tl xs) \<subseteq> set xs"
  by (cases xs) auto

lemma in_set_update: "(k, v) \<in> set (AList.update r q al) \<Longrightarrow> k = r \<and> v = q \<or> (k, v) \<in> set al"
  by (induction al) (auto split: if_splits)

lemma lock_inv_set_queue:
  assumes "lock_inv w" and "distinct q"
    and "\<And>y. y \<in> set q \<Longrightarrow> y \<in> set (lw_registered w) \<and> (\<exists>t. lw_txns w y = Some t \<and> unfinished t)"
  shows "lock_inv (set_queue r q w)"
proof -
  note d = lock_invD [OF assms(1)]
  have s: "lw_txns (set_queue r q w) = lw_txns w" "lw_owners (set_queue r q w) = lw_owners w"
    "lw_registered (set_queue r q w) = lw_registered w" "owner_of (set_queue r q w) = owner_of w"
    "lw_queues (set_queue r q w) = AList.update r q (lw_queues w)"
    by (simp_all add: set_queue_def owner_of_def fun_eq_iff)
  show ?thesis
    by (rule lock_invI)
      (use d assms(2,3) in \<open>auto simp: s AList.distinct_update dest!: in_set_update\<close>)
qed

text \<open>Taking the head of a free resource's queue.\<close>

definition grant :: "nat \<Rightarrow> lock_key \<Rightarrow> 'a lock_world_scheme \<Rightarrow> 'a lock_world_scheme" where
  "grant x r w = add_resource x r ((set_queue r (tl (queue_of w r)) w)
     \<lparr>lw_owners := AList.update r x (lw_owners w)\<rparr>)"

lemma grant_inv:
  assumes "lock_inv w" and "lw_txns w x = Some t" and "unfinished t" and "owner_of w r = None"
  shows "lock_inv (grant x r w)"
    and "owner_of (grant x r w) = (owner_of w)(r \<mapsto> x)"
    and "lw_txns (grant x r w) = (lw_txns w)(x \<mapsto> t\<lparr>tx_resources := List.insert r (tx_resources t)\<rparr>)"
proof -
  note d = lock_invD [OF assms(1)]
  define q where "q = tl (queue_of w r)"
  have g: "lw_owners (grant x r w) = AList.update r x (lw_owners w)"
    "lw_queues (grant x r w) = AList.update r q (lw_queues w)" "lw_registered (grant x r w) = lw_registered w"
    using assms(2) by (simp_all add: grant_def add_resource_def set_queue_def put_txn_def q_def)
  show tx: "lw_txns (grant x r w) = (lw_txns w)(x \<mapsto> t\<lparr>tx_resources := List.insert r (tx_resources t)\<rparr>)"
    using assms(2) by (simp add: grant_def add_resource_def set_queue_def put_txn_def)
  show own: "owner_of (grant x r w) = (owner_of w)(r \<mapsto> x)"
    by (simp add: owner_of_def g AList.update_conv' fun_eq_iff)
  have ex: "\<exists>u. lw_txns (grant x r w) y = Some u \<and> unfinished u" if "\<exists>u. lw_txns w y = Some u \<and> unfinished u" for y
    using that assms(2,3) by (auto simp: tx unfinished_def)
  have q: "distinct q" "y \<in> set q \<Longrightarrow> y \<in> set (lw_registered w) \<and> (\<exists>t. lw_txns w y = Some t \<and> unfinished t)" for y
    using queue_ofD [OF assms(1), where r = r] set_tl [of "queue_of w r"] by (auto simp: q_def distinct_tl)
  show "lock_inv (grant x r w)"
  proof (rule lock_invI)
    show "k \<in> set (tx_resources u) \<longleftrightarrow> owner_of (grant x r w) k = Some y" if "lw_txns (grant x r w) y = Some u" for y u k
      using that d(4) [of y u k] d(4) [OF assms(2), of k] assms(4) by (auto simp: tx own split: if_splits)
    show "tx_xid u = y" if "lw_txns (grant x r w) y = Some u" for y u
      using that d(3) assms(2) by (auto simp: tx split: if_splits)
    show "\<exists>u. lw_txns (grant x r w) y = Some u \<and> unfinished u" if "owner_of (grant x r w) k = Some y" for k y
      using that ex [of y] d(5) [of k y] assms(2,3) by (cases "k = r") (auto simp: own)
    fix k q' assume k: "(k, q') \<in> set (lw_queues (grant x r w))"
    then have "q' = q \<or> (k, q') \<in> set (lw_queues w)" unfolding g by (auto dest: in_set_update)
    then show "distinct q'" and "y \<in> set q' \<Longrightarrow> y \<in> set (lw_registered (grant x r w))
        \<and> (\<exists>t. lw_txns (grant x r w) y = Some t \<and> unfinished t)" for y
      using q d(6-8) ex unfolding g by blast+
  qed (use d in \<open>auto simp: g AList.distinct_update\<close>)
qed

text \<open>What one round of the acquisition loop can do.\<close>

lemma acquire_check_cases:
  assumes "acquire_check h x k w = (res, w')"
  obtains (unchanged) "w' = w" "res = Inr Waits \<Longrightarrow> deadlock_victim (wait_graph_of w) = None" "res \<noteq> Inr Granted"
      "\<And>e. res = Inl e \<Longrightarrow> e = PyIndexError"
  | (granted) "owner_of w k = None" "queue_of w k \<noteq> []" "hd (queue_of w k) = x" "w' = grant x k w" "res = Inr Granted"
  | (victim) v rv where "deadlock_victim (wait_graph_of w) = Some v" "abort_victim h v w = (rv, w')"
      "rv = Inr () \<Longrightarrow> res = (if v = x then Inl DeadlockDetected else Inr Waits)" "\<And>e. rv = Inl e \<Longrightarrow> res = Inl e"
proof (cases "owner_of w k = None \<and> queue_of w k = []")
  case True
  then show ?thesis using assms unchanged by (auto simp: acquire_check_def)
next
  case nonempty: False
  show ?thesis
  proof (cases "owner_of w k = None \<and> hd (queue_of w k) = x")
    case True
    then show ?thesis using assms granted nonempty by (auto simp: acquire_check_def grant_def)
  next
    case False
    show ?thesis
    proof (cases "deadlock_victim (wait_graph_of w)")
      case None
      then have "w' = w" "res = Inr Waits" using assms nonempty False by (auto simp: acquire_check_def)
      then show ?thesis using unchanged None by simp
    next
      case (Some v)
      obtain rv w1 where a: "abort_victim h v w = (rv, w1)" by (cases "abort_victim h v w")
      have "(case rv of Inl e \<Rightarrow> (Inl e, w1)
          | Inr _ \<Rightarrow> (if v = x then sm_raise DeadlockDetected else sm_return Waits) w1) = (res, w')"
        using assms nonempty False Some a by (auto simp: acquire_check_def sm_bind_def)
      then have "w' = w1" "rv = Inr () \<Longrightarrow> res = (if v = x then Inl DeadlockDetected else Inr Waits)"
        "\<And>e. rv = Inl e \<Longrightarrow> res = Inl e" by (cases rv; auto split: if_splits)+
      then show ?thesis using victim [OF Some] a by simp
    qed
  qed
qed

section \<open>Property of the lock manager\<close>

definition idle_world :: lock_world where
  "idle_world = \<lparr>lw_txns = (\<lambda>x. if x = 2 \<or> x = 3 then Some (new_transaction x READ_COMMITTED) else None),
     lw_owners = [], lw_queues = [], lw_registered = []\<rparr>"

lemma idle_world_inv: "lock_inv idle_world"
  by (auto simp: lock_inv_def idle_world_def owner_of_def new_transaction_def)

text \<open>
  Claim C35. One round of lock acquisition grants the lock only to the transaction at the head of
  the queue of a resource nobody owns, and then exactly that resource gains exactly that owner.
  It waits with nothing changed when the wait-for graph has no cycle, and otherwise only after
  another transaction was chosen as the victim of a cycle. It fails only when the requester itself
  is the victim, when aborting the victim fails, or when the requester is not queued at all.
\<close>

theorem lock_grant_fifo:
  assumes "lock_inv w" and "acquire_check h x k w = (res, w')"
  shows "case res of
      Inr Granted \<Rightarrow> owner_of w k = None \<and> hd (queue_of w k) = x \<and> x \<in> set (queue_of w k)
        \<and> owner_of w' = (owner_of w)(k \<mapsto> x) \<and> lock_inv w'
    | Inr Waits \<Rightarrow> w' = w \<and> acyclic (wait_edges (wait_graph_of w))
        \<or> (\<exists>v. deadlock_victim (wait_graph_of w) = Some v \<and> v \<noteq> x)
    | Inl e \<Rightarrow> e = PyIndexError
        \<or> (\<exists>v. deadlock_victim (wait_graph_of w) = Some v
             \<and> (v = x \<and> e = DeadlockDetected \<or> fst (abort_victim h v w) = Inl e))"
  using assms(2)
proof (cases rule: acquire_check_cases)
  case unchanged
  then show ?thesis
    using deadlock_victim_cases [of "wait_graph_of w"] by (auto split: sum.splits acquire_outcome.splits)
next
  case granted
  then have q: "x \<in> set (queue_of w k)" by (metis hd_in_set)
  then obtain t where t: "lw_txns w x = Some t" "unfinished t" using queue_ofD(3) [OF assms(1)] by blast
  show ?thesis using grant_inv [OF assms(1) t granted(1)] granted q by simp
next
  case (victim v rv)
  then show ?thesis by (cases rv) (auto split: if_splits)
qed

theorem lock_grant_fifo_witness:
  "\<exists>w'. acquire_check None 2 (UniqueKeyLockKey 1 []) (set_queue (UniqueKeyLockKey 1 []) [2, 3]
       (idle_world\<lparr>lw_registered := [2, 3]\<rparr>)) = (Inr Granted, w')
     \<and> owner_of w' (UniqueKeyLockKey 1 []) = Some 2"
proof -
  let ?k = "UniqueKeyLockKey 1 []"
  let ?w = "set_queue ?k [2, 3] (idle_world\<lparr>lw_registered := [2, 3]\<rparr>)"
  have "lock_inv (idle_world\<lparr>lw_registered := [2, 3]\<rparr>)"
    by (auto simp: lock_inv_def idle_world_def owner_of_def new_transaction_def)
  then have inv: "lock_inv ?w"
    by (rule lock_inv_set_queue) (auto simp: idle_world_def new_transaction_def unfinished_def)
  obtain w' where w': "acquire_check None 2 ?k ?w = (Inr Granted, w')"
    by (simp add: acquire_check_def owner_of_def queue_of_def set_queue_def idle_world_def)
  show ?thesis using lock_grant_fifo [OF inv w'] w' by simp
qed

end
