(* ===== verification/Wal_Records.thy ===== *)
theory Wal_Records
  imports Page
begin

text \<open>
  \<open>wal/records.py\<close>: the checksummed binary codec of log records. A record is a 36-byte
  header \<open>>4sBBHIQQII\<close> and a payload; page images are complete physical pages with their
  keys. Shows that a record decodes to what was encoded, carrying its position and extent, and
  that the length a reader takes from the header is the length of the encoding.
\<close>

definition WAL_MAGIC :: bytes where "WAL_MAGIC = ascii ''MPWL''"
definition WAL_VERSION :: nat where "WAL_VERSION = 1"
definition WAL_HEADER_SIZE :: nat where "WAL_HEADER_SIZE = 36"
definition WAL_CHECKSUM_OFFSET :: nat where "WAL_CHECKSUM_OFFSET = WAL_HEADER_SIZE - 4"
definition PAGE_IMAGE_HEADER_SIZE :: nat where "PAGE_IMAGE_HEADER_SIZE = 17"

datatype record_kind = RkBEGIN | RkHEAP_PAGE_IMAGES | RkCOMMIT | RkABORT | RkCHECKPOINT

fun record_kind_value :: "record_kind \<Rightarrow> nat" where
  "record_kind_value RkBEGIN = 1"
| "record_kind_value RkHEAP_PAGE_IMAGES = 2"
| "record_kind_value RkCOMMIT = 3"
| "record_kind_value RkABORT = 4"
| "record_kind_value RkCHECKPOINT = 5"

definition record_kind_of_value :: "nat \<Rightarrow> record_kind result" where
  "record_kind_of_value n =
     (if n = 1 then Inr RkBEGIN else if n = 2 then Inr RkHEAP_PAGE_IMAGES
      else if n = 3 then Inr RkCOMMIT else if n = 4 then Inr RkABORT
      else if n = 5 then Inr RkCHECKPOINT else Inl PyValueError)"

datatype wal_record =
    BeginRecord
  | HeapPageImagesRecord (images: "(page_key \<times> bytes) list")
  | CommitRecord
  | AbortRecord
  | CheckpointRecord (redo_lsn: nat)

text \<open>The checks of \<open>HeapPageImagesRecord.__post_init__\<close>.\<close>

definition mk_heap_page_images :: "(page_key \<times> bytes) list \<Rightarrow> wal_record result" where
  "mk_heap_page_images imgs =
     (if imgs = [] then Inl PyValueError
      else if list_ex (\<lambda>(k, image). length image \<noteq> PAGE_SIZE) imgs then Inl PyValueError
      else Inr (HeapPageImagesRecord imgs))"

record decoded_wal_record =
  wr_lsn :: nat
  wr_end_lsn :: nat
  wr_xid :: nat
  wr_record :: wal_record

fun kind_of :: "wal_record \<Rightarrow> record_kind" where
  "kind_of BeginRecord = RkBEGIN"
| "kind_of (HeapPageImagesRecord imgs) = RkHEAP_PAGE_IMAGES"
| "kind_of CommitRecord = RkCOMMIT"
| "kind_of AbortRecord = RkABORT"
| "kind_of (CheckpointRecord l) = RkCHECKPOINT"

definition image_header_fields :: "page_key \<Rightarrow> (nat \<times> nat) list" where
  "image_header_fields key =
     [(1, fork_kind_value (rel_fork (key_relation key))), (8, rel_object_id (key_relation key)),
      (8, key_page_id key)]"

definition image_chunk :: "page_key \<times> bytes \<Rightarrow> bytes result" where
  "image_chunk ki =
     res_bind (pack_fields (image_header_fields (fst ki))) (\<lambda>h. Inr (h @ snd ki))"

fun payload_of :: "wal_record \<Rightarrow> bytes result" where
  "payload_of (HeapPageImagesRecord imgs) =
     res_bind (pack_uint 4 (length imgs)) (\<lambda>n.
     res_bind (res_mapM image_chunk imgs) (\<lambda>chunks. Inr (n @ concat chunks)))"
| "payload_of (CheckpointRecord l) = pack_uint 8 l"
| "payload_of _ = Inr []"

definition wal_header_fields :: "record_kind \<Rightarrow> nat \<Rightarrow> nat \<Rightarrow> nat \<Rightarrow> nat \<Rightarrow> (nat \<times> nat) list" where
  "wal_header_fields kind tot lsn xid plen =
     [(1, WAL_VERSION), (1, record_kind_value kind), (2, 0), (4, tot), (8, lsn), (8, xid), (4, plen), (4, 0)]"

definition encode_record :: "nat \<Rightarrow> nat \<Rightarrow> wal_record \<Rightarrow> bytes result" where
  "encode_record lsn xid record' =
     res_bind (payload_of record') (\<lambda>payload.
     let total_length = WAL_HEADER_SIZE + length payload
     in res_bind (pack_fields (wal_header_fields (kind_of record') total_length lsn xid (length payload))) (\<lambda>fields.
        let encoded = WAL_MAGIC @ fields @ payload; checksum = crc32 encoded
        in Inr (py_splice encoded WAL_CHECKSUM_OFFSET (to_be 4 checksum))))"

definition record_length_from_header :: "bytes \<Rightarrow> nat result" where
  "record_length_from_header header =
     (if length header \<noteq> WAL_HEADER_SIZE then Inl CorruptWal
      else
        let total_length = uint_at header 8 4; payload_length = uint_at header 28 4
        in if py_slice header 0 4 \<noteq> WAL_MAGIC \<or> uint_at header 4 1 \<noteq> WAL_VERSION
              \<or> uint_at header 6 2 \<noteq> 0 then Inl CorruptWal
           else if total_length \<noteq> WAL_HEADER_SIZE + payload_length then Inl CorruptWal
           else Inr total_length)"

definition require_empty :: "bytes \<Rightarrow> wal_record \<Rightarrow> wal_record result" where
  "require_empty payload r = (if payload \<noteq> [] then Inl CorruptWal else Inr r)"

text \<open>The image loop, from the cursor on; the key of an image is within 64 bits by its field width.\<close>

fun decode_images :: "bytes \<Rightarrow> nat \<Rightarrow> nat \<Rightarrow> ((page_key \<times> bytes) list \<times> nat) result" where
  "decode_images payload 0 cursor = Inr ([], cursor)"
| "decode_images payload (Suc n) cursor =
     (let end_header = cursor + PAGE_IMAGE_HEADER_SIZE; end_image = end_header + PAGE_SIZE
      in if length payload < end_image then Inl CorruptWal
         else
           res_bind (res_rethrow PyValueError CorruptWal (fork_kind_of_value (uint_at payload cursor 1))) (\<lambda>fork.
           let key = PageKey (RelationId fork (uint_at payload (cursor + 1) 8)) (uint_at payload (cursor + 9) 8)
           in res_bind (decode_images payload n end_image) (\<lambda>(imgs, cur).
              Inr ((key, py_slice payload end_header end_image) # imgs, cur))))"

fun decode_payload :: "record_kind \<Rightarrow> bytes \<Rightarrow> wal_record result" where
  "decode_payload RkBEGIN payload = require_empty payload BeginRecord"
| "decode_payload RkCOMMIT payload = require_empty payload CommitRecord"
| "decode_payload RkABORT payload = require_empty payload AbortRecord"
| "decode_payload RkCHECKPOINT payload =
     (if length payload \<noteq> 8 then Inl CorruptWal else Inr (CheckpointRecord (of_be payload)))"
| "decode_payload RkHEAP_PAGE_IMAGES payload =
     (if length payload < 4 then Inl CorruptWal
      else
        res_bind (decode_images payload (uint_at payload 0 4) 4) (\<lambda>(imgs, cursor).
        if cursor \<noteq> length payload \<or> imgs = [] then Inl CorruptWal
        else mk_heap_page_images imgs))"

definition decode_record :: "bytes \<Rightarrow> decoded_wal_record result" where
  "decode_record encoded =
     (if length encoded < WAL_HEADER_SIZE then Inl CorruptWal
      else
        let total_length = uint_at encoded 8 4; lsn = uint_at encoded 12 8; xid = uint_at encoded 20 8;
            payload_length = uint_at encoded 28 4; stored_checksum = uint_at encoded 32 4
        in if py_slice encoded 0 4 \<noteq> WAL_MAGIC \<or> uint_at encoded 4 1 \<noteq> WAL_VERSION
              \<or> uint_at encoded 6 2 \<noteq> 0 then Inl CorruptWal
           else if total_length \<noteq> length encoded \<or> payload_length \<noteq> length encoded - WAL_HEADER_SIZE
                then Inl CorruptWal
           else if crc32 (py_splice encoded WAL_CHECKSUM_OFFSET (replicate 4 0)) \<noteq> stored_checksum
                then Inl CorruptWal
           else
             res_bind (res_rethrow PyValueError CorruptWal (record_kind_of_value (uint_at encoded 5 1))) (\<lambda>kind.
             res_bind (decode_payload kind (drop WAL_HEADER_SIZE encoded)) (\<lambda>r.
             Inr \<lparr>wr_lsn = lsn, wr_end_lsn = lsn + total_length, wr_xid = xid, wr_record = r\<rparr>)))"

section \<open>Records read back\<close>

lemmas wal_sizes = WAL_HEADER_SIZE_def WAL_CHECKSUM_OFFSET_def PAGE_IMAGE_HEADER_SIZE_def

text \<open>The records that exist: page images are non-empty and complete, their keys are 64-bit.\<close>

fun valid_record :: "wal_record \<Rightarrow> bool" where
  "valid_record (HeapPageImagesRecord imgs) \<longleftrightarrow>
     imgs \<noteq> [] \<and> list_all (\<lambda>(k, image). valid_page_key k \<and> length image = PAGE_SIZE) imgs"
| "valid_record _ \<longleftrightarrow> True"

lemma length_WAL_MAGIC [simp]: "length WAL_MAGIC = 4"
  by (simp add: WAL_MAGIC_def)

lemma record_kind_of_value_value [simp]: "record_kind_of_value (record_kind_value k) = Inr k"
  by (cases k) (simp_all add: record_kind_of_value_def)

lemma image_chunk_Inr:
  "image_chunk (k, img) = Inr c \<Longrightarrow>
     fields_ok (image_header_fields k) \<and> c = fields_bytes (image_header_fields k) @ img"
  by (auto simp: image_chunk_def res_bind_eq_Inr_iff dest: pack_fields_InrD)

lemma decode_images_chunks:
  "res_mapM image_chunk imgs = Inr chunks \<Longrightarrow> list_all (\<lambda>(k, image). length image = PAGE_SIZE) imgs \<Longrightarrow>
     decode_images (pre @ concat chunks) (length imgs) (length pre) = Inr (imgs, length pre + length (concat chunks))"
proof (induction imgs arbitrary: chunks pre)
  case (Cons ki imgs)
  obtain k img where ki: "ki = (k, img)" by (cases ki)
  obtain c cs where c: "image_chunk (k, img) = Inr c" "res_mapM image_chunk imgs = Inr cs" "chunks = c # cs"
    using Cons.prems(1) by (auto simp: res_bind_eq_Inr_iff ki)
  have len: "length img = PAGE_SIZE" using Cons.prems(2) by (simp add: ki)
  have ok: "fields_ok (image_header_fields k)" and cb: "c = fields_bytes (image_header_fields k) @ img"
    using image_chunk_Inr [OF c(1)] by auto
  have clen: "length c = 17 + PAGE_SIZE" using len by (simp add: cb length_fields_bytes image_header_fields_def)
  define p where "p = pre @ c @ concat cs"
  note f = uint_at_fields [OF ok, of _ pre "img @ concat cs"]
  have at: "uint_at p (length pre) 1 = fork_kind_value (rel_fork (key_relation k))"
    "uint_at p (length pre + 1) 8 = rel_object_id (key_relation k)"
    "uint_at p (length pre + 9) 8 = key_page_id k"
    using f [of 0] f [of 1] f [of 2] by (simp_all add: p_def cb image_header_fields_def)
  have hd: "length (fields_bytes (image_header_fields k)) = 17"
    by (simp add: length_fields_bytes image_header_fields_def)
  have sl: "py_slice p (length pre + 17) (length pre + 17 + PAGE_SIZE) = img"
    using py_slice_append_exact [of "length pre + 17" "pre @ fields_bytes (image_header_fields k)" _ img "concat cs"]
      len hd by (simp add: p_def cb)
  have "list_all (\<lambda>(k, image). length image = PAGE_SIZE) imgs" using Cons.prems(2) by simp
  from Cons.IH [OF c(2) this, of "pre @ c"]
  have "decode_images p (length imgs) (length pre + 17 + PAGE_SIZE) = Inr (imgs, length p)"
    using clen by (simp add: p_def add.assoc)
  then show ?case
    using at sl clen by (simp add: c(3) ki p_def [symmetric] Let_def wal_sizes) (simp add: p_def)
qed simp

lemma decode_payload_of:
  assumes "payload_of r = Inr p" and "valid_record r"
  shows "decode_payload (kind_of r) p = Inr r"
  using assms
proof (cases r)
  case (HeapPageImagesRecord imgs)
  then obtain chunks where n: "length imgs < 256 ^ 4" and ch: "res_mapM image_chunk imgs = Inr chunks"
    and p: "p = to_be 4 (length imgs) @ concat chunks"
    using assms(1) by (auto simp: res_bind_eq_Inr_iff pack_uint_eq_Inr_iff)
  have v: "imgs \<noteq> []" "list_all (\<lambda>(k, image). length image = PAGE_SIZE) imgs"
    using assms(2) HeapPageImagesRecord by (auto simp: list_all_iff)
  have "uint_at p 0 4 = length imgs" using n by (simp add: p layout_simps)
  moreover have "decode_images p (length imgs) 4 = Inr (imgs, length p)"
    using decode_images_chunks [OF ch v(2), of "to_be 4 (length imgs)"] by (simp add: p)
  moreover have "mk_heap_page_images imgs = Inr r"
    using v HeapPageImagesRecord by (auto simp: mk_heap_page_images_def list_ex_iff list_all_iff)
  ultimately show ?thesis using HeapPageImagesRecord v(1) p by simp
qed (auto simp: require_empty_def pack_uint_eq_Inr_iff)

lemma encode_record_InrE:
  assumes "encode_record lsn xid r = Inr enc"
  obtains payload img where "payload_of r = Inr payload"
    "fields_ok (wal_header_fields (kind_of r) (36 + length payload) lsn xid (length payload))"
    "img = WAL_MAGIC @ fields_bytes (wal_header_fields (kind_of r) (36 + length payload) lsn xid (length payload)) @ payload"
    "enc = py_splice img 32 (to_be 4 (crc32 img))"
  using assms
  by (auto simp: encode_record_def Let_def res_bind_eq_Inr_iff wal_sizes dest!: pack_fields_InrD)

lemma encode_record_fields:
  assumes "encode_record lsn xid r = Inr enc"
  obtains payload where "payload_of r = Inr payload" "length enc = 36 + length payload"
    "py_slice enc 0 4 = WAL_MAGIC" "uint_at enc 4 1 = WAL_VERSION"
    "uint_at enc 5 1 = record_kind_value (kind_of r)" "uint_at enc 6 2 = 0"
    "uint_at enc 8 4 = length enc" "uint_at enc 12 8 = lsn" "uint_at enc 20 8 = xid"
    "uint_at enc 28 4 = length payload" "drop 36 enc = payload"
    "crc32 (py_splice enc 32 (replicate 4 0)) = uint_at enc 32 4"
  using assms
proof (rule encode_record_InrE)
  fix payload img :: bytes
  define fs where "fs = wal_header_fields (kind_of r) (36 + length payload) lsn xid (length payload)"
  assume p: "payload_of r = Inr payload"
    and ok: "fields_ok (wal_header_fields (kind_of r) (36 + length payload) lsn xid (length payload))"
    and img: "img = WAL_MAGIC @ fields_bytes (wal_header_fields (kind_of r) (36 + length payload) lsn xid (length payload)) @ payload"
    and enc: "enc = py_splice img 32 (to_be 4 (crc32 img))"
  note f = uint_at_fields [OF ok [folded fs_def], of _ WAL_MAGIC payload, folded img [folded fs_def]]
  have len: "length img = 36 + length payload"
    by (simp add: img length_fields_bytes wal_header_fields_def)
  have z: "uint_at img 32 4 = 0" using f [of 7] by (simp add: fs_def wal_header_fields_def)
  have "off + 4 \<le> length img" if "off = 32" for off using that len by simp
  note s = checksum_sealed [of 32 img, OF this [OF refl] z, folded enc]
  have at: "uint_at img 4 1 = WAL_VERSION" "uint_at img 5 1 = record_kind_value (kind_of r)"
    "uint_at img 6 2 = 0" "uint_at img 8 4 = 36 + length payload" "uint_at img 12 8 = lsn"
    "uint_at img 20 8 = xid" "uint_at img 28 4 = length payload"
    using f [of 0] f [of 1] f [of 2] f [of 3] f [of 4] f [of 5] f [of 6]
    by (simp_all add: fs_def wal_header_fields_def)
  have "drop 36 enc = payload"
    using s(5) [where a = 36 and b = "36 + length payload"] s(1) len
    by (simp add: py_slice_def img length_fields_bytes wal_header_fields_def)
  moreover have "py_slice enc 0 4 = WAL_MAGIC" using s(5) [of 4 0] by (simp add: img layout_simps)
  ultimately show thesis
    using that [OF p] s(1-3) len at s(4) by simp
qed

lemma decode_encode_record:
  assumes "encode_record lsn xid r = Inr enc" and "valid_record r"
  shows "decode_record enc = Inr \<lparr>wr_lsn = lsn, wr_end_lsn = lsn + length enc, wr_xid = xid, wr_record = r\<rparr>"
  using assms(1)
  by (rule encode_record_fields)
    (simp add: decode_record_def Let_def wal_sizes decode_payload_of [OF _ assms(2)])

lemma encode_record_length:
  assumes "encode_record lsn xid r = Inr enc"
  shows "36 \<le> length enc" and "record_length_from_header (take 36 enc) = Inr (length enc)"
proof -
  show "36 \<le> length enc" using assms by (rule encode_record_fields) simp
  have t: "uint_at (take 36 enc) j k = uint_at enc j k" if "j + k \<le> 36" for j k
    using that by (simp add: uint_at_def py_slice_def drop_take min_def)
  have m: "py_slice (take 36 enc) 0 4 = py_slice enc 0 4" by (simp add: py_slice_def)
  show "record_length_from_header (take 36 enc) = Inr (length enc)"
    using assms by (rule encode_record_fields) (simp add: record_length_from_header_def Let_def wal_sizes t m)
qed

text \<open>
  Claim C31. A log record, once encoded at a position for a transaction, decodes to the same
  record with that position and transaction and with an end position one encoding further; and
  the record length read from its first 36 bytes alone is the length of the encoding.
\<close>

theorem wal_record_roundtrip:
  assumes "encode_record lsn xid r = Inr enc" and "valid_record r"
  shows "decode_record enc = Inr \<lparr>wr_lsn = lsn, wr_end_lsn = lsn + length enc, wr_xid = xid, wr_record = r\<rparr>
    \<and> record_length_from_header (take WAL_HEADER_SIZE enc) = Inr (length enc)"
  using decode_encode_record [OF assms] encode_record_length [OF assms(1)] by (simp add: wal_sizes)

theorem wal_record_roundtrip_witness:
  "\<exists>enc. encode_record 72 9 (CheckpointRecord 5) = Inr enc
    \<and> decode_record enc = Inr \<lparr>wr_lsn = 72, wr_end_lsn = 116, wr_xid = 9, wr_record = CheckpointRecord 5\<rparr>"
proof -
  define fs where "fs = wal_header_fields RkCHECKPOINT 44 72 9 8"
  have ok: "fields_ok fs" by (simp add: fs_def wal_header_fields_def fields_ok_def WAL_VERSION_def)
  obtain enc where e: "encode_record 72 9 (CheckpointRecord 5) = Inr enc"
    by (simp add: encode_record_def Let_def wal_sizes fs_def [symmetric] pack_fields_eq [OF ok])
  have "length enc = 44" using e by (rule encode_record_fields) (simp add: pack_uint_eq_Inr_iff)
  then show ?thesis using wal_record_roundtrip [OF e] e by simp
qed

end
