(* ===== verification/Wal_Manager.thy ===== *)
theory Wal_Manager
  imports Wal_Records
begin

text \<open>
  \<open>wal/manager.py\<close>: appending to the log file, making it durable, and opening a log that a
  crash may have cut short. The file is its contents as the operating system holds them, with
  the number of leading bytes an \<open>fsync\<close> is known to have made durable; a crash keeps some
  prefix that contains those. Shows that the log file always is the encoding of the entries the
  manager holds, and that opening any prefix of it recovers exactly the records that are
  complete in the prefix. Input/output errors of the operating system are not modelled.
\<close>

record wal_manager =
  wm_file :: bytes
  wm_synced :: nat
  wm_entries :: "decoded_wal_record list"
  wm_end_lsn :: nat
  wm_flushed_lsn :: nat
  wm_closed :: bool

section \<open>Scanning\<close>

lemma record_length_from_header_ge:
  "record_length_from_header h = Inr n \<Longrightarrow> WAL_HEADER_SIZE \<le> n"
  by (auto simp: record_length_from_header_def Let_def split: if_splits)

function scan_descriptor ::
    "bytes \<Rightarrow> nat \<Rightarrow> decoded_wal_record list \<Rightarrow> (decoded_wal_record list \<times> nat) result" where
  "scan_descriptor file cursor entries =
     (if length file \<le> cursor then Inr (entries, cursor)
      else if length file - cursor < WAL_HEADER_SIZE then Inr (entries, cursor)
      else
        case record_length_from_header (py_slice file cursor (cursor + WAL_HEADER_SIZE)) of
          Inl e \<Rightarrow>
            if e = CorruptWal \<and> cursor + WAL_HEADER_SIZE = length file then Inr (entries, cursor) else Inl e
        | Inr total_length \<Rightarrow>
            if length file < cursor + total_length then Inr (entries, cursor)
            else
              case decode_record (py_slice file cursor (cursor + total_length)) of
                Inl e \<Rightarrow>
                  if e = CorruptWal \<and> cursor + total_length = length file then Inr (entries, cursor) else Inl e
              | Inr entry \<Rightarrow>
                  if wr_lsn entry \<noteq> cursor then Inl CorruptWal
                  else scan_descriptor file (cursor + total_length) (entries @ [entry]))"
  by auto
termination
  by (relation "measure (\<lambda>(file, cursor, entries). length file - cursor)")
    (auto simp: WAL_HEADER_SIZE_def dest: record_length_from_header_ge)

declare scan_descriptor.simps [simp del]

section \<open>Operations\<close>

text \<open>
  Opening the log found with the given contents, of which the first \<open>synced\<close> bytes are
  durable. Only a truncation is followed by an \<open>fsync\<close>.
\<close>

definition wal_open :: "bytes \<Rightarrow> nat \<Rightarrow> wal_manager result" where
  "wal_open file synced =
     res_bind (scan_descriptor file 0 []) (\<lambda>(entries, valid_end).
     let torn = (valid_end \<noteq> length file)
     in Inr \<lparr>wm_file = (if torn then take valid_end file else file),
             wm_synced = (if torn then valid_end else synced),
             wm_entries = entries, wm_end_lsn = valid_end, wm_flushed_lsn = valid_end,
             wm_closed = False\<rparr>)"

definition wal_ensure_open :: "(wal_manager, unit) sm" where
  "wal_ensure_open w = (res_require (\<not> wm_closed w) PyRuntimeError, w)"

definition wal_append :: "nat \<Rightarrow> wal_record \<Rightarrow> (wal_manager, nat) sm" where
  "wal_append xid r =
     sm_bind wal_ensure_open (\<lambda>_.
     sm_bind (sm_get wm_end_lsn) (\<lambda>lsn.
     sm_bind (sm_lift (encode_record lsn xid r)) (\<lambda>encoded.
     sm_bind (sm_modify (\<lambda>w. w\<lparr>wm_file := file_pwrite (wm_file w) lsn encoded\<rparr>)) (\<lambda>_.
     sm_bind (sm_lift (decode_record encoded)) (\<lambda>decoded.
     sm_bind (sm_modify (\<lambda>w. w\<lparr>wm_entries := wm_entries w @ [decoded],
                               wm_end_lsn := wr_end_lsn decoded\<rparr>)) (\<lambda>_.
     sm_return lsn))))))"

definition wal_flush :: "nat option \<Rightarrow> (wal_manager, unit) sm" where
  "wal_flush required_lsn =
     sm_bind wal_ensure_open (\<lambda>_ w.
     case required_lsn of
       Some l \<Rightarrow>
         if wm_end_lsn w < l then sm_raise PyValueError w
         else if wm_flushed_lsn w < wm_end_lsn w
              then (Inr (), w\<lparr>wm_synced := length (wm_file w), wm_flushed_lsn := wm_end_lsn w\<rparr>)
              else sm_return () w
     | None \<Rightarrow>
         if wm_flushed_lsn w < wm_end_lsn w
         then (Inr (), w\<lparr>wm_synced := length (wm_file w), wm_flushed_lsn := wm_end_lsn w\<rparr>)
         else sm_return () w)"

definition wal_scan :: "nat \<Rightarrow> (wal_manager, decoded_wal_record list) sm" where
  "wal_scan start_lsn =
     sm_bind wal_ensure_open (\<lambda>_.
     sm_get (\<lambda>w. filter (\<lambda>entry. start_lsn \<le> wr_lsn entry) (wm_entries w)))"

definition wal_close :: "(wal_manager, unit) sm" where
  "wal_close w = (if wm_closed w then sm_return () w else (Inr (), w\<lparr>wm_closed := True\<rparr>))"

section \<open>The file is the encoding of the entries\<close>

fun log_at :: "nat \<Rightarrow> decoded_wal_record list \<Rightarrow> bytes \<Rightarrow> bool" where
  "log_at lsn [] contents \<longleftrightarrow> contents = []"
| "log_at lsn (d # ds) contents \<longleftrightarrow>
     (\<exists>enc rest. encode_record lsn (wr_xid d) (wr_record d) = Inr enc \<and> valid_record (wr_record d)
        \<and> wr_lsn d = lsn \<and> wr_end_lsn d = lsn + length enc \<and> contents = enc @ rest
        \<and> log_at (lsn + length enc) ds rest)"

definition wal_inv :: "wal_manager \<Rightarrow> bool" where
  "wal_inv w \<longleftrightarrow>
     log_at 0 (wm_entries w) (wm_file w) \<and> wm_end_lsn w = length (wm_file w)
     \<and> wm_flushed_lsn w \<le> wm_end_lsn w \<and> wm_synced w \<le> length (wm_file w)"

text \<open>Everything the manager reports as flushed is durable.\<close>

definition wal_durable :: "wal_manager \<Rightarrow> bool" where
  "wal_durable w \<longleftrightarrow> wm_flushed_lsn w \<le> wm_synced w"

lemma log_at_append:
  "log_at lsn ds contents \<Longrightarrow>
   log_at lsn (ds @ es) (contents @ bs) \<longleftrightarrow> log_at (lsn + length contents) es bs"
proof (induction ds arbitrary: lsn contents)
  case (Cons d ds)
  then obtain enc rest where e: "encode_record lsn (wr_xid d) (wr_record d) = Inr enc"
    "valid_record (wr_record d)" "wr_lsn d = lsn" "wr_end_lsn d = lsn + length enc" "contents = enc @ rest"
    "log_at (lsn + length enc) ds rest" by auto
  from Cons.IH [OF e(6)] e show ?case by (auto simp: add.assoc)
qed simp

lemma log_at_end_gt: "log_at lsn ds contents \<Longrightarrow> d \<in> set ds \<Longrightarrow> lsn < wr_end_lsn d \<and> wr_end_lsn d \<le> lsn + length contents"
proof (induction ds arbitrary: lsn contents)
  case (Cons a ds)
  then obtain enc rest where e: "encode_record lsn (wr_xid a) (wr_record a) = Inr enc"
    "wr_end_lsn a = lsn + length enc" "contents = enc @ rest" "log_at (lsn + length enc) ds rest" by auto
  have "36 \<le> length enc" using e(1) by (rule encode_record_length)
  then show ?case using Cons.IH [OF e(4)] Cons.prems(2) e(2,3) by fastforce
qed simp

text \<open>Scanning a prefix of a log collects the records that are complete in it.\<close>

lemma scan_prefix:
  "log_at lsn ds contents \<Longrightarrow> n \<le> length contents \<Longrightarrow> lsn = length pre \<Longrightarrow>
   \<exists>m. scan_descriptor (pre @ take n contents) lsn acc
         = Inr (acc @ filter (\<lambda>d. wr_end_lsn d \<le> lsn + n) ds, lsn + m)
     \<and> m \<le> n \<and> log_at lsn (filter (\<lambda>d. wr_end_lsn d \<le> lsn + n) ds) (take m contents)"
proof (induction ds arbitrary: lsn contents n pre acc)
  case Nil
  then show ?case by (simp add: scan_descriptor.simps)
next
  case (Cons d ds)
  then obtain enc rest where e: "encode_record lsn (wr_xid d) (wr_record d) = Inr enc"
    "valid_record (wr_record d)" "wr_lsn d = lsn" "wr_end_lsn d = lsn + length enc" "contents = enc @ rest"
    "log_at (lsn + length enc) ds rest" by auto
  have len: "36 \<le> length enc" and hdr: "record_length_from_header (take 36 enc) = Inr (length enc)"
    using encode_record_length [OF e(1)] by auto
  have dec: "decode_record enc = Inr d"
    using decode_encode_record [OF e(1,2)] e(3,4) by (cases d) simp
  show ?case
  proof (cases "n < length enc")
    case True
    have none: "filter (\<lambda>d. wr_end_lsn d \<le> lsn + n) (d # ds) = []"
      using True e(4) log_at_end_gt [OF e(6)] by (fastforce simp: filter_empty_conv)
    have "scan_descriptor (pre @ take n contents) lsn acc = Inr (acc, lsn)"
    proof (cases "36 \<le> n")
      case True
      then have "py_slice (pre @ take n contents) lsn (lsn + 36) = take 36 enc"
        using Cons.prems(3) e(5) len by (simp add: py_slice_def min_def)
      then show ?thesis
        using True \<open>n < length enc\<close> Cons.prems(3) e(5) hdr
        by (subst scan_descriptor.simps) (simp add: WAL_HEADER_SIZE_def)
    next
      case False
      then show ?thesis
        using Cons.prems(2,3) by (subst scan_descriptor.simps) (simp add: WAL_HEADER_SIZE_def min_def)
    qed
    then show ?thesis using none by (intro exI [of _ 0]) (auto simp: filter_empty_conv)
  next
    case False
    have h: "py_slice (pre @ take n contents) lsn (lsn + 36) = take 36 enc"
      and r: "py_slice (pre @ take n contents) lsn (lsn + length enc) = enc"
      and l: "lsn + length enc \<le> length (pre @ take n contents)"
      using False Cons.prems(2,3) e(5) len by (auto simp: py_slice_def min_def)
    have step: "scan_descriptor (pre @ take n contents) lsn acc
        = scan_descriptor (pre @ take n contents) (lsn + length enc) (acc @ [d])"
    proof -
      define F where "F = pre @ take n contents"
      have "\<not> length F \<le> lsn" "\<not> length F - lsn < 36" "\<not> length F < lsn + length enc"
        using l len by (simp_all add: F_def [symmetric])
      then show ?thesis
        using h r hdr dec e(3) unfolding F_def [symmetric]
        by (subst scan_descriptor.simps) (simp add: WAL_HEADER_SIZE_def)
    qed
    have rest: "n - length enc \<le> length rest" using Cons.prems(2) e(5) by simp
    have f: "pre @ take n contents = (pre @ enc) @ take (n - length enc) rest" using False e(5) by simp
    have sum: "lsn + length enc + (n - length enc) = lsn + n" using False by simp
    obtain m where m: "scan_descriptor ((pre @ enc) @ take (n - length enc) rest) (lsn + length enc) (acc @ [d])
        = Inr ((acc @ [d]) @ filter (\<lambda>d. wr_end_lsn d \<le> lsn + n) ds, lsn + length enc + m)"
      "m \<le> n - length enc" "log_at (lsn + length enc) (filter (\<lambda>d. wr_end_lsn d \<le> lsn + n) ds) (take m rest)"
      using Cons.IH [OF e(6) rest, of "pre @ enc" "acc @ [d]"] Cons.prems(3) unfolding sum by auto
    have "wr_end_lsn d \<le> lsn + n" using False e(4) by simp
    then show ?thesis
      using step m e unfolding f
      by (intro exI [of _ "length enc + m"]) (auto simp: add.assoc)
  qed
qed

lemma wal_open_prefix:
  assumes "log_at 0 ds contents" and "n \<le> length contents" and "synced \<le> n"
  shows "\<exists>w. wal_open (take n contents) synced = Inr w \<and> wal_inv w \<and> \<not> wm_closed w
    \<and> wm_entries w = filter (\<lambda>d. wr_end_lsn d \<le> n) ds \<and> wm_flushed_lsn w = wm_end_lsn w"
proof -
  obtain m where m: "scan_descriptor (take n contents) 0 [] = Inr (filter (\<lambda>d. wr_end_lsn d \<le> n) ds, m)"
    "m \<le> n" "log_at 0 (filter (\<lambda>d. wr_end_lsn d \<le> n) ds) (take m contents)"
    using scan_prefix [OF assms(1,2), of "[]" "[]"] by auto
  then show ?thesis
    using assms by (auto simp: wal_open_def Let_def wal_inv_def min_def)
qed

section \<open>Appending and flushing\<close>

lemma wal_append_ok:
  assumes "wal_inv w" and "wal_append xid r w = (Inr lsn, w')" and "valid_record r"
  shows "wal_inv w'" and "lsn = wm_end_lsn w"
    and "\<exists>d. wm_entries w' = wm_entries w @ [d] \<and> wr_lsn d = lsn \<and> wr_xid d = xid \<and> wr_record d = r
      \<and> wr_end_lsn d = wm_end_lsn w'"
    and "wm_synced w' = wm_synced w" and "wm_flushed_lsn w' = wm_flushed_lsn w"
    and "wm_end_lsn w < wm_end_lsn w'" and "wm_closed w' = wm_closed w"
proof -
  obtain enc where enc: "encode_record (wm_end_lsn w) xid r = Inr enc"
    and w': "w' = w\<lparr>wm_file := file_pwrite (wm_file w) (wm_end_lsn w) enc,
        wm_entries := wm_entries w @ [\<lparr>wr_lsn = wm_end_lsn w, wr_end_lsn = wm_end_lsn w + length enc,
          wr_xid = xid, wr_record = r\<rparr>], wm_end_lsn := wm_end_lsn w + length enc\<rparr>"
    and lsn: "lsn = wm_end_lsn w"
    using assms(2) decode_encode_record [OF _ assms(3)]
    by (auto simp: wal_append_def sm_bind_eq_Inr_iff wal_ensure_open_def)
  have len: "36 \<le> length enc" using enc by (rule encode_record_length)
  have f: "file_pwrite (wm_file w) (wm_end_lsn w) enc = wm_file w @ enc"
    using assms(1) by (intro file_pwrite_end) (simp add: wal_inv_def)
  show "wal_inv w'"
    using assms(1,3) enc log_at_append [of 0 "wm_entries w" "wm_file w" _ enc]
    unfolding w' f by (auto simp: wal_inv_def)
  show "lsn = wm_end_lsn w" by (rule lsn)
  show "\<exists>d. wm_entries w' = wm_entries w @ [d] \<and> wr_lsn d = lsn \<and> wr_xid d = xid \<and> wr_record d = r
      \<and> wr_end_lsn d = wm_end_lsn w'"
    by (simp add: w' lsn)
  show "wm_synced w' = wm_synced w" "wm_flushed_lsn w' = wm_flushed_lsn w"
    "wm_end_lsn w < wm_end_lsn w'" "wm_closed w' = wm_closed w" using len by (auto simp: w')
qed

lemma res_mapM_image_chunk_Inl: "res_mapM image_chunk imgs = Inl e \<Longrightarrow> e = PyStructError"
  by (induction imgs) (auto simp: res_bind_eq_Inl_iff image_chunk_def dest: pack_fields_Inl)

lemma encode_record_Inl: "encode_record lsn xid r = Inl e \<Longrightarrow> e = PyStructError"
  by (cases r)
    (auto simp: encode_record_def Let_def res_bind_eq_Inl_iff pack_uint_def
      dest: pack_fields_Inl res_mapM_image_chunk_Inl split: if_splits)

lemma wal_append_err:
  assumes "wal_append xid r w = (Inl e, w')" and "valid_record r"
  shows "w' = w" and "e \<in> {PyRuntimeError, PyStructError}"
  using assms decode_encode_record [OF _ assms(2)]
  by (auto simp: wal_append_def sm_bind_eq_Inl_iff sm_bind_eq_Inr_iff wal_ensure_open_def
      dest: encode_record_Inl)

lemma wal_flush_ok:
  assumes "wal_inv w" and "wal_durable w" and "wal_flush req w = (Inr u, w')"
  shows "wal_inv w'" and "wal_durable w'" and "wm_flushed_lsn w' = wm_end_lsn w"
    and "wm_entries w' = wm_entries w" and "wm_end_lsn w' = wm_end_lsn w" and "wm_closed w' = wm_closed w"
    and "wm_file w' = wm_file w"
  using assms
  by (auto simp: wal_flush_def sm_bind_eq_Inr_iff wal_ensure_open_def wal_inv_def wal_durable_def
      split: option.splits if_splits)

lemma wal_flush_err: "wal_flush req w = (Inl e, w') \<Longrightarrow> w' = w"
  by (auto simp: wal_flush_def sm_bind_eq_Inl_iff wal_ensure_open_def split: option.splits if_splits)

lemma wal_flush_end: "\<not> wm_closed w \<Longrightarrow> \<exists>w'. wal_flush (Some (wm_end_lsn w)) w = (Inr (), w')"
  by (auto simp: wal_flush_def sm_bind_def wal_ensure_open_def)

lemma wal_append_durable:
  "wal_inv w \<Longrightarrow> wal_append xid r w = (Inr lsn, w') \<Longrightarrow> valid_record r \<Longrightarrow> wal_durable w \<Longrightarrow> wal_durable w'"
  using wal_append_ok(4,5) [of w xid r lsn w'] by (simp add: wal_durable_def)

section \<open>The interface clients of the log rely on\<close>

text \<open>
  What transaction commit, page flushing and checkpoints need of a log: entries are only added,
  flushing to the current end makes all of them durable, and a durable entry survives.
\<close>

locale durable_log =
  fixes inv :: "'w \<Rightarrow> bool" and ents :: "'w \<Rightarrow> decoded_wal_record list"
    and end_of :: "'w \<Rightarrow> nat" and flushed :: "'w \<Rightarrow> nat"
    and app :: "nat \<Rightarrow> wal_record \<Rightarrow> ('w, nat) sm" and flush :: "nat option \<Rightarrow> ('w, unit) sm"
  assumes app_inv: "inv w \<Longrightarrow> valid_record r \<Longrightarrow> app xid r w = (res, w') \<Longrightarrow> inv w' \<and> flushed w' = flushed w"
    and app_adds: "inv w \<Longrightarrow> valid_record r \<Longrightarrow> app xid r w = (Inr lsn, w') \<Longrightarrow>
      \<exists>d. ents w' = ents w @ [d] \<and> wr_xid d = xid \<and> wr_record d = r \<and> wr_lsn d = lsn \<and> wr_end_lsn d = end_of w'"
    and app_fails: "inv w \<Longrightarrow> valid_record r \<Longrightarrow> app xid r w = (Inl e, w') \<Longrightarrow> w' = w"
    and flush_inv: "inv w \<Longrightarrow> flush req w = (fres, w') \<Longrightarrow> inv w' \<and> ents w' = ents w \<and> end_of w' = end_of w"
    and flush_all: "inv w \<Longrightarrow> flush req w = (Inr u, w') \<Longrightarrow> flushed w' = end_of w'"
    and flushed_le: "inv w \<Longrightarrow> flushed w \<le> end_of w"
begin

lemma app_keeps: "inv w \<Longrightarrow> valid_record r \<Longrightarrow> app xid r w = (res, w') \<Longrightarrow> set (ents w) \<subseteq> set (ents w')"
  using app_adds app_fails by (cases res) fastforce+

text \<open>A record that was appended and then flushed is among the durable entries.\<close>

lemma app_flush_durable:
  assumes "inv w" and "valid_record r" and "app xid r w = (Inr lsn, w1)" and "flush req w1 = (Inr u, w2)"
  shows "\<exists>d \<in> set (ents w2). wr_xid d = xid \<and> wr_record d = r \<and> wr_end_lsn d \<le> flushed w2"
proof -
  obtain d where d: "ents w1 = ents w @ [d]" "wr_xid d = xid" "wr_record d = r" "wr_end_lsn d = end_of w1"
    using app_adds [OF assms(1-3)] by blast
  have "inv w1" using app_inv [OF assms(1-3)] by simp
  then show ?thesis using flush_inv [OF _ assms(4)] flush_all [OF _ assms(4)] d by auto
qed

end

interpretation wal: durable_log "\<lambda>w. wal_inv w \<and> wal_durable w" wm_entries wm_end_lsn wm_flushed_lsn
    wal_append wal_flush
proof
  fix w w' :: wal_manager and r xid and res :: "nat result" and ures :: "unit result" and lsn e req and u :: unit
  assume i: "wal_inv w \<and> wal_durable w"
  { assume r: "valid_record r"
    show "(wal_inv w' \<and> wal_durable w') \<and> wm_flushed_lsn w' = wm_flushed_lsn w" if "wal_append xid r w = (res, w')"
      using i r that wal_append_ok [of w xid r _ w'] wal_append_durable [of w xid r _ w']
        wal_append_err [of xid r w _ w'] by (cases res) auto
    show "\<exists>d. wm_entries w' = wm_entries w @ [d] \<and> wr_xid d = xid \<and> wr_record d = r \<and> wr_lsn d = lsn
        \<and> wr_end_lsn d = wm_end_lsn w'" if "wal_append xid r w = (Inr lsn, w')"
      using i r that wal_append_ok(3) [of w xid r lsn w'] by auto
    show "w' = w" if "wal_append xid r w = (Inl e, w')" using r that by (rule wal_append_err [rotated]) }
  show "(wal_inv w' \<and> wal_durable w') \<and> wm_entries w' = wm_entries w \<and> wm_end_lsn w' = wm_end_lsn w"
    if "wal_flush req w = (ures, w')"
    using i that wal_flush_ok [of w req _ w'] wal_flush_err [of req w _ w'] by (cases ures) auto
  show "wm_flushed_lsn w' = wm_end_lsn w'" if "wal_flush req w = (Inr u, w')"
    using i that wal_flush_ok(3,5) [of w req u w'] by auto
  show "wm_flushed_lsn w \<le> wm_end_lsn w" using i by (simp add: wal_inv_def)
qed

section \<open>Properties of the log\<close>

text \<open>
  Claim C19. After a crash that keeps any prefix of the log file containing the durable bytes,
  opening the log succeeds: it holds exactly the records that are complete in that prefix, in
  order, among them every record the manager had reported as flushed; a record cut in the middle
  is dropped with everything after it, and the opened log is again well formed.
\<close>

theorem wal_crash_recovery:
  assumes "wal_inv w" and "wal_durable w" and "wm_synced w \<le> n" and "n \<le> length (wm_file w)"
  shows "\<exists>w'. wal_open (take n (wm_file w)) n = Inr w' \<and> wal_inv w' \<and> wal_durable w'
    \<and> wm_entries w' = filter (\<lambda>d. wr_end_lsn d \<le> n) (wm_entries w)
    \<and> set (filter (\<lambda>d. wr_end_lsn d \<le> wm_flushed_lsn w) (wm_entries w)) \<subseteq> set (wm_entries w')"
proof -
  obtain w' where w': "wal_open (take n (wm_file w)) n = Inr w'" "wal_inv w'"
    "wm_entries w' = filter (\<lambda>d. wr_end_lsn d \<le> n) (wm_entries w)"
    using wal_open_prefix [of "wm_entries w" "wm_file w" n n] assms by (auto simp: wal_inv_def)
  have "wal_durable w'"
    using w'(1) assms(4)
    by (auto simp: wal_open_def Let_def wal_durable_def res_bind_eq_Inr_iff)
  then show ?thesis using w' assms by (auto simp: wal_durable_def)
qed

definition two_record_log :: wal_manager where
  "two_record_log = snd (wal_append 7 CommitRecord (snd (wal_append 7 BeginRecord
     \<lparr>wm_file = [], wm_synced = 0, wm_entries = [], wm_end_lsn = 0, wm_flushed_lsn = 0, wm_closed = False\<rparr>)))"

text \<open>Appending to an open log succeeds while its positions fit in 64 bits.\<close>

lemma wal_append_empty_payload:
  assumes "\<not> wm_closed w" and "payload_of r = Inr []" and "wm_end_lsn w < 2 ^ 64" and "xid < 2 ^ 64"
  shows "\<exists>w'. wal_append xid r w = (Inr (wm_end_lsn w), w') \<and> wm_end_lsn w' = wm_end_lsn w + 36"
proof -
  have "fields_ok (wal_header_fields (kind_of r) 36 (wm_end_lsn w) xid 0)"
    using assms by (cases r) (auto simp: fields_ok_def wal_header_fields_def WAL_VERSION_def)
  then obtain enc where e: "encode_record (wm_end_lsn w) xid r = Inr enc"
    using assms(2) by (simp add: encode_record_def Let_def wal_sizes pack_fields_eq)
  have "to_be 4 k \<noteq> []" for k using length_to_be [of 4 k] by fastforce
  then have v: "valid_record r"
    using assms(2) by (cases r) (auto simp: res_bind_eq_Inr_iff pack_uint_eq_Inr_iff)
  have "length enc = 36" using e by (rule encode_record_fields) (use assms(2) in simp)
  then show ?thesis
    using assms(1) e decode_encode_record [OF e v]
    by (simp add: wal_append_def sm_bind_def wal_ensure_open_def)
qed

lemma wal_append_image:
  assumes "\<not> wm_closed w" and "valid_page_key key" and "length q = PAGE_SIZE" and "wm_end_lsn w < 2 ^ 64" and "xid < 2 ^ 64"
  shows "\<exists>w'. wal_append xid (HeapPageImagesRecord [(key, q)]) w = (Inr (wm_end_lsn w), w') \<and> wm_end_lsn w' \<le> wm_end_lsn w + 9000"
proof -
  let ?r = "HeapPageImagesRecord [(key, q)]"
  have v: "valid_record ?r" using assms(2,3) by simp
  have kok: "fields_ok (image_header_fields key)" using assms(2) using fork_kind_value_less [of "rel_fork (key_relation key)"] by (cases key) (auto simp: image_header_fields_def fields_ok_def valid_page_key_def)
  then obtain hb where hb: "pack_fields (image_header_fields key) = Inr hb" "length hb \<le> 100"
    using pack_fields_eq [OF kok] length_fields_bytes [of "image_header_fields key"] by (auto simp: image_header_fields_def)
  obtain payload where p: "payload_of ?r = Inr payload" "length payload \<le> 4 + 100 + 8192"
    using hb assms(3) by (auto simp: image_chunk_def pack_uint_def page_sizes)
  have "fields_ok (wal_header_fields (kind_of ?r) (36 + length payload) (wm_end_lsn w) xid (length payload))"
    using assms(4,5) p(2) by (auto simp: fields_ok_def wal_header_fields_def WAL_VERSION_def)
  then obtain enc where e: "encode_record (wm_end_lsn w) xid ?r = Inr enc"
    using p(1) by (simp add: encode_record_def Let_def wal_sizes pack_fields_eq del: payload_of.simps)
  have len: "length enc = 36 + length payload" using e by (rule encode_record_fields) (use p(1) in simp)
  have "wal_append xid ?r w = (Inr (wm_end_lsn w), w\<lparr>wm_file := file_pwrite (wm_file w) (wm_end_lsn w) enc,
      wm_entries := wm_entries w @ [\<lparr>wr_lsn = wm_end_lsn w, wr_end_lsn = wm_end_lsn w + length enc, wr_xid = xid, wr_record = ?r\<rparr>],
      wm_end_lsn := wm_end_lsn w + length enc\<rparr>)"
    using assms(1) e decode_encode_record [OF e v]
    by (simp add: wal_append_def sm_bind_def wal_ensure_open_def)
  then show ?thesis using len p(2) by simp
qed

lemma wal_append_checkpoint:
  assumes "\<not> wm_closed w" and "l < 2 ^ 64" and "wm_end_lsn w < 2 ^ 64" and "xid < 2 ^ 64"
  shows "\<exists>w'. wal_append xid (CheckpointRecord l) w = (Inr (wm_end_lsn w), w')"
proof -
  let ?r = "CheckpointRecord l"
  obtain payload where p: "payload_of ?r = Inr payload" "length payload = 8"
    using assms(2) by (auto simp: pack_uint_def)
  have "fields_ok (wal_header_fields (kind_of ?r) (36 + length payload) (wm_end_lsn w) xid (length payload))"
    using assms(3,4) p(2) by (auto simp: fields_ok_def wal_header_fields_def WAL_VERSION_def)
  then obtain enc where e: "encode_record (wm_end_lsn w) xid ?r = Inr enc"
    using p(1) by (simp add: encode_record_def Let_def wal_sizes pack_fields_eq del: payload_of.simps)
  have "valid_record ?r" using assms(2) by simp
  then show ?thesis
    using assms(1) e decode_encode_record [OF e]
    by (simp add: wal_append_def sm_bind_def wal_ensure_open_def)
qed

text \<open>An empty log.\<close>

definition empty_log :: wal_manager where
  "empty_log = \<lparr>wm_file = [], wm_synced = 0, wm_entries = [], wm_end_lsn = 0, wm_flushed_lsn = 0, wm_closed = False\<rparr>"

lemma empty_log_ok: "wal_inv empty_log" "wal_durable empty_log" "\<not> wm_closed empty_log"
  by (simp_all add: empty_log_def wal_inv_def wal_durable_def)

lemma two_record_log_facts:
  "wal_inv two_record_log" "wal_durable two_record_log" "wm_synced two_record_log = 0"
  "length (wm_file two_record_log) = 72" "map wr_record (wm_entries two_record_log) = [BeginRecord, CommitRecord]"
  "map wr_end_lsn (wm_entries two_record_log) = [36, 72]"
proof -
  define w0 where "w0 = \<lparr>wm_file = [], wm_synced = 0, wm_entries = [], wm_end_lsn = 0, wm_flushed_lsn = 0,
    wm_closed = False\<rparr>"
  have i0: "wal_inv w0" "wal_durable w0" by (simp_all add: w0_def wal_inv_def wal_durable_def)
  obtain w1 where w1: "wal_append 7 BeginRecord w0 = (Inr 0, w1)" "wm_end_lsn w1 = 36"
    using wal_append_empty_payload [of w0 BeginRecord 7] by (auto simp: w0_def)
  note a1 = wal_append_ok [OF i0(1) w1(1)]
  have c1: "\<not> wm_closed w1" using a1(7) by (simp add: w0_def)
  obtain w2 where w2: "wal_append 7 CommitRecord w1 = (Inr 36, w2)" "wm_end_lsn w2 = 72"
    using wal_append_empty_payload [OF c1, of CommitRecord 7] w1(2) by auto
  have i1: "wal_inv w1" using a1(1) by simp
  note a2 = wal_append_ok [OF i1 w2(1)]
  have two: "two_record_log = w2" using w1(1) w2(1) by (simp add: two_record_log_def w0_def [symmetric])
  obtain d1 where d1: "wm_entries w1 = wm_entries w0 @ [d1]" "wr_record d1 = BeginRecord" "wr_end_lsn d1 = 36"
    using a1(3) w1(2) by auto
  obtain d2 where d2: "wm_entries w2 = wm_entries w1 @ [d2]" "wr_record d2 = CommitRecord" "wr_end_lsn d2 = 72"
    using a2(3) w2(2) by auto
  have "wm_entries w0 = []" "wm_synced w0 = 0" "wm_flushed_lsn w0 = 0" by (simp_all add: w0_def)
  then have s: "wm_synced w2 = 0" "wm_flushed_lsn w2 = 0" "wm_entries w2 = [d1, d2]"
    using a1(4,5) a2(4,5) d1(1) d2(1) by simp_all
  show inv: "wal_inv two_record_log" using a2(1) two by simp
  show "wal_durable two_record_log" "wm_synced two_record_log = 0" using s two by (simp_all add: wal_durable_def)
  show "length (wm_file two_record_log) = 72" using inv w2(2) two by (simp add: wal_inv_def)
  show "map wr_record (wm_entries two_record_log) = [BeginRecord, CommitRecord]"
    "map wr_end_lsn (wm_entries two_record_log) = [36, 72]" using s(3) d1 d2 two by simp_all
qed

lemma two_record_log_xids: "\<forall>d \<in> set (wm_entries two_record_log). wr_xid d = 7"
proof -
  have step: "\<forall>d \<in> set (wm_entries (snd (wal_append 7 r w))). wr_xid d = 7"
    if "valid_record r" "\<forall>d \<in> set (wm_entries w). wr_xid d = 7" for r w
    using that decode_encode_record [of "wm_end_lsn w" 7 r]
    by (auto simp: wal_append_def sm_bind_def wal_ensure_open_def split: sum.splits)
  show ?thesis unfolding two_record_log_def by (intro step) simp_all
qed

theorem wal_crash_recovery_witness:
  "\<exists>w'. wal_open (take 50 (wm_file two_record_log)) 50 = Inr w' \<and> map wr_record (wm_entries w') = [BeginRecord]"
proof -
  obtain d1 d2 where d: "wm_entries two_record_log = [d1, d2]" "wr_record d1 = BeginRecord"
    "wr_end_lsn d1 = 36" "wr_end_lsn d2 = 72"
    using two_record_log_facts(5,6) by (auto simp: map_eq_Cons_conv)
  show ?thesis
    using wal_crash_recovery [of two_record_log 50] two_record_log_facts(1-4) by (auto simp: d)
qed

text \<open>
  Opening a log that ends on a record boundary reports it as flushed without an
  \<open>fsync\<close>: there are a well-formed log file and a number of durable bytes for which the
  opened manager's flushed position lies beyond what is durable.
\<close>

lemma wal_open_claims_unsynced:
  "\<exists>file w. wal_open file 0 = Inr w \<and> wal_inv w \<and> wm_entries w \<noteq> [] \<and> wm_synced w < wm_flushed_lsn w"
proof -
  have l: "log_at 0 (wm_entries two_record_log) (wm_file two_record_log)"
    using two_record_log_facts(1) by (simp add: wal_inv_def)
  obtain m where m: "scan_descriptor (wm_file two_record_log) 0 []
      = Inr (filter (\<lambda>d. wr_end_lsn d \<le> 72) (wm_entries two_record_log), m)" "m \<le> 72"
    "log_at 0 (filter (\<lambda>d. wr_end_lsn d \<le> 72) (wm_entries two_record_log)) (take m (wm_file two_record_log))"
    using scan_prefix [OF l, of 72 "[]" "[]"] two_record_log_facts(4) by auto
  have all: "filter (\<lambda>d. wr_end_lsn d \<le> 72) (wm_entries two_record_log) = wm_entries two_record_log"
    using log_at_end_gt [OF l] two_record_log_facts(4) by (auto simp: filter_id_conv)
  have ne: "wm_entries two_record_log \<noteq> []" using two_record_log_facts(5) by auto
  have "m = 72"
  proof (rule ccontr)
    assume "m \<noteq> 72"
    obtain d1 d2 where d: "wm_entries two_record_log = [d1, d2]" "wr_end_lsn d2 = 72"
      using two_record_log_facts(6) by (auto simp: map_eq_Cons_conv)
    then have "72 \<le> length (take m (wm_file two_record_log))"
      using log_at_end_gt [OF m(3), of d2] all by auto
    then show False using \<open>m \<noteq> 72\<close> m(2) by simp
  qed
  then show ?thesis
    using m(1) all ne two_record_log_facts(4) l
    by (intro exI [of _ "wm_file two_record_log"]) (simp add: wal_open_def Let_def wal_inv_def)
qed

end
