(* ===== verification/Txn_Manager.thy ===== *)
theory Txn_Manager
  imports Locks Wal_Manager
begin

text \<open>
  \<open>transaction/manager.py\<close>: transaction ids, snapshots, commit and abort, composed with the
  lock manager, the status table and the log. Every method runs under the manager's lock, so for
  the other methods it is one step; the step relation also has the lock manager's steps, the
  marking of a failed statement, the logging of page images by the heap and the other traffic of
  the log. For a crash a method is not one step: commit and abort are lists of calls, and the
  crash points are the states before, between and after them, with the other sessions' log traffic
  in between. Shows by rule induction that the parts of the state agree in every reachable state,
  that what reclamation calls dead is invisible to every statement then and later, and what
  commit records the log has after a crash at any crash point.
\<close>

record txn_manager = lock_world +
  tm_next_xid :: nat
  tm_active :: "nat list"
  tm_statuses :: status_table
  tm_wal :: "wal_manager option"

section \<open>Operations\<close>

definition new_txn_manager :: "nat \<Rightarrow> status_table \<Rightarrow> wal_manager option \<Rightarrow> txn_manager" where
  "new_txn_manager next_xid statuses wal =
     \<lparr>lw_txns = Map.empty, lw_owners = [], lw_queues = [], lw_registered = [],
      tm_next_xid = next_xid, tm_active = [], tm_statuses = statuses, tm_wal = wal\<rparr>"

definition tm_begin :: "isolation_level \<Rightarrow> (txn_manager, nat) sm" where
  "tm_begin isolation w =
     (let xid = tm_next_xid w
      in (Inr xid, (put_txn xid (new_transaction xid isolation) w)
            \<lparr>tm_next_xid := xid + 1, tm_active := tm_active w @ [xid]\<rparr>))"

definition tm_statement_snapshot :: "nat \<Rightarrow> (txn_manager, snapshot) sm" where
  "tm_statement_snapshot xid =
     sm_bind (get_txn xid) (\<lambda>t.
     sm_bind (sm_lift (require_usable t)) (\<lambda>_ w.
     case (tx_isolation t, tx_repeatable_snapshot t) of
       (REPEATABLE_READ, Some s) \<Rightarrow> (Inr s, w)
     | _ \<Rightarrow>
         sm_bind (sm_lift (mk_snapshot (tm_next_xid w) (set (filter (\<lambda>x. x \<noteq> xid) (tm_active w))))) (\<lambda>s.
         sm_bind (if tx_isolation t = REPEATABLE_READ
                  then sm_modify (put_txn xid (t\<lparr>tx_repeatable_snapshot := Some s\<rparr>)) else sm_return ()) (\<lambda>_.
         sm_return s)) w))"

text \<open>\<open>wal.append(xid, record)\<close> and \<open>wal.flush(wal.end_lsn)\<close>, when the manager has a log.\<close>

definition on_wal :: "(wal_manager, 'r) sm \<Rightarrow> wal_manager \<Rightarrow> (txn_manager, 'r) sm" where
  "on_wal m wal w = (case m wal of (r, wal') \<Rightarrow> (r, w\<lparr>tm_wal := Some wal'\<rparr>))"

definition log_append :: "nat \<Rightarrow> wal_record \<Rightarrow> (txn_manager, unit) sm" where
  "log_append xid r w =
     (case tm_wal w of
        None \<Rightarrow> (Inr (), w)
      | Some wal \<Rightarrow> sm_bind (on_wal (wal_append xid r) wal) (\<lambda>_. sm_return ()) w)"

definition log_flush :: "(txn_manager, unit) sm" where
  "log_flush w =
     (case tm_wal w of None \<Rightarrow> (Inr (), w) | Some wal \<Rightarrow> on_wal (wal_flush (Some (wm_end_lsn wal))) wal w)"

definition set_status :: "nat \<Rightarrow> transaction_status \<Rightarrow> (txn_manager, unit) sm" where
  "set_status xid s w = (case status_set xid s (tm_statuses w) of (r, tbl) \<Rightarrow> (r, w\<lparr>tm_statuses := tbl\<rparr>))"

definition pop_active :: "nat \<Rightarrow> (txn_manager, unit) sm" where
  "pop_active xid = sm_modify (\<lambda>w. w\<lparr>tm_active := removeAll xid (tm_active w)\<rparr>)"

text \<open>
  The calls of \<open>commit\<close> and \<open>abort\<close> in their order. A crash can come between any two of them
  (the failpoints after the append and after the flush of a commit are two of these places).
\<close>

definition commit_calls :: "nat \<Rightarrow> transaction \<Rightarrow> (txn_manager, unit) sm list" where
  "commit_calls xid t =
     (if tx_has_writes t then [log_append xid CommitRecord, log_flush] else [])
     @ [update_txn xid mark_committed, set_status xid StCOMMITTED, pop_active xid, release_all xid]"

definition tm_commit :: "nat \<Rightarrow> (txn_manager, unit) sm" where
  "tm_commit xid = sm_bind (get_txn xid) (\<lambda>t. run_calls (commit_calls xid t))"

definition abort_calls :: "nat \<Rightarrow> transaction \<Rightarrow> (txn_manager, unit) sm list" where
  "abort_calls xid t =
     (if tx_has_writes t \<and> tx_state t \<noteq> TsABORTED then [log_append xid AbortRecord, log_flush] else [])
     @ (if tx_state t \<noteq> TsABORTED then [update_txn xid mark_aborted] else [])
     @ [set_status xid StABORTED, pop_active xid, release_all xid]"

definition tm_abort :: "nat \<Rightarrow> (txn_manager, unit) sm" where
  "tm_abort xid = sm_bind (get_txn xid) (\<lambda>t. run_calls (abort_calls xid t))"

definition active_transactions :: "txn_manager \<Rightarrow> transaction list" where
  "active_transactions w = map (\<lambda>x. the (lw_txns w x)) (tm_active w)"

definition abort_deadlock_victim :: "nat \<Rightarrow> (txn_manager, unit) sm" where
  "abort_deadlock_victim xid = sm_bind (update_txn xid mark_failed) (\<lambda>_. tm_abort xid)"

text \<open>
  What publishing a heap page logs for its transaction (\<open>HeapTable._publish_page\<close>): a begin
  record before the first write, then the page image.
\<close>

definition log_page_image :: "nat \<Rightarrow> page_key \<times> bytes \<Rightarrow> (txn_manager, unit) sm" where
  "log_page_image xid img =
     sm_bind (get_txn xid) (\<lambda>t w.
     case tm_wal w of
       None \<Rightarrow> (Inr (), w)
     | Some _ \<Rightarrow>
         sm_bind (if tx_has_writes t then sm_return ()
                  else
                    sm_bind (\<lambda>w. on_wal (wal_append xid BeginRecord) (the (tm_wal w)) w) (\<lambda>_.
                    sm_modify (put_txn xid (t\<lparr>tx_has_writes := True\<rparr>)))) (\<lambda>_.
         sm_bind (sm_lift (mk_heap_page_images [img])) (\<lambda>r.
         sm_bind (\<lambda>w. on_wal (wal_append xid r) (the (tm_wal w)) w) (\<lambda>_. sm_return ()))) w)"

section \<open>Steps\<close>

text \<open>
  What the rest of the system does to the log without the manager's lock: the heap appends begin
  records and page images, a checkpoint its record, and the buffer pool and the checkpoint flush.
\<close>

inductive log_traffic :: "wal_manager \<Rightarrow> wal_manager \<Rightarrow> bool" where
  traffic_append: "valid_record r \<Longrightarrow> r \<noteq> CommitRecord \<Longrightarrow> wal_append y r wal = (rn, wal') \<Longrightarrow> log_traffic wal wal'"
| traffic_flush: "wal_flush l wal = (ru, wal') \<Longrightarrow> log_traffic wal wal'"

text \<open>
  The engine lets a session commit only a transaction that is still usable
  (\<open>require_usable\<close> in \<open>execute_for_session\<close>), and drops a committed transaction, so it
  is never rolled back afterwards. Publishing a page runs without the manager's lock: besides the
  whole of it (\<open>step_image\<close>) its parts are steps too (\<open>step_log\<close> and \<open>step_writes\<close>). Within
  commit and abort the release of the locks also takes the lock manager's condition; as nothing
  else of the manager can run then, a step of a waiting \<open>acquire\<close> that comes before the release
  is one that comes before the commit.
\<close>

inductive txn_step :: "txn_manager \<Rightarrow> txn_manager \<Rightarrow> bool" where
  step_begin: "tm_begin isolation w = (r, w') \<Longrightarrow> txn_step w w'"
| step_snapshot: "tm_statement_snapshot x w = (rs, w') \<Longrightarrow> txn_step w w'"
| step_image: "valid_page_key (fst img) \<Longrightarrow> lw_txns w x = Some t \<Longrightarrow> unfinished t \<Longrightarrow>
    log_page_image x img w = (ru, w') \<Longrightarrow> txn_step w w'"
| step_log: "tm_wal w = Some wal \<Longrightarrow> log_traffic wal wal' \<Longrightarrow> txn_step w (w\<lparr>tm_wal := Some wal'\<rparr>)"
| step_writes: "lw_txns w x = Some t \<Longrightarrow> unfinished t \<Longrightarrow> txn_step w (put_txn x (t\<lparr>tx_has_writes := True\<rparr>) w)"
| step_acquire: "lock_acquire (Some abort_deadlock_victim) x k w = (ra, w') \<Longrightarrow> txn_step w w'"
| step_resume: "acquire_resume (Some abort_deadlock_victim) x k w = (ra, w') \<Longrightarrow> txn_step w w'"
| step_fail: "update_txn x mark_failed w = (ru, w') \<Longrightarrow> txn_step w w'"
| step_commit: "lw_txns w x = Some t \<Longrightarrow> tx_state t = TsACTIVE \<Longrightarrow> tm_commit x w = (ru, w') \<Longrightarrow> txn_step w w'"
| step_abort: "lw_txns w x = Some t \<Longrightarrow> tx_state t \<noteq> TsCOMMITTED \<Longrightarrow> tm_abort x w = (ru, w') \<Longrightarrow> txn_step w w'"

inductive txn_steps :: "txn_manager \<Rightarrow> txn_manager \<Rightarrow> bool" where
  steps_refl: "txn_steps w w"
| steps_step: "txn_steps w w1 \<Longrightarrow> txn_step w1 w2 \<Longrightarrow> txn_steps w w2"

inductive_cases txn_stepE: "txn_step w w'"

section \<open>Crash points\<close>

text \<open>
  What other sessions do while transaction \<open>x\<close> is being committed or aborted under the manager's
  lock: log traffic, first writes, failing statements, and lock requests that need no victim.
\<close>

inductive other_step :: "nat \<Rightarrow> txn_manager \<Rightarrow> txn_manager \<Rightarrow> bool" where
  other_log: "tm_wal c = Some wal \<Longrightarrow> log_traffic wal wal' \<Longrightarrow> other_step x c (c\<lparr>tm_wal := Some wal'\<rparr>)"
| other_writes: "y \<noteq> x \<Longrightarrow> lw_txns c y = Some u \<Longrightarrow> unfinished u \<Longrightarrow>
    other_step x c (put_txn y (u\<lparr>tx_has_writes := True\<rparr>) c)"
| other_fail: "y \<noteq> x \<Longrightarrow> update_txn y mark_failed c = (r, c') \<Longrightarrow> other_step x c c'"
| other_locks: "lw_txns c y = Some u \<Longrightarrow>
    other_step x c ((put_txn y (u\<lparr>tx_resources := ks\<rparr>) c)\<lparr>lw_owners := os, lw_queues := qs, lw_registered := rs\<rparr>)"

text \<open>
  The states during a run of calls on behalf of \<open>x\<close>, with the calls that remain: none after one
  that raises.
\<close>

inductive mid_run ::
    "nat \<Rightarrow> txn_manager \<Rightarrow> (txn_manager, unit) sm list \<Rightarrow> txn_manager \<Rightarrow> (txn_manager, unit) sm list \<Rightarrow> bool"
  for x :: nat and w :: txn_manager and ms :: "(txn_manager, unit) sm list" where
  mid_start: "mid_run x w ms w ms"
| mid_call: "mid_run x w ms c (m # rest) \<Longrightarrow> m c = (r, c') \<Longrightarrow> mid_run x w ms c' (if r = Inr () then rest else [])"
| mid_other: "mid_run x w ms c rest \<Longrightarrow> other_step x c c' \<Longrightarrow> mid_run x w ms c' rest"

text \<open>
  The states a crash can find, with the transaction that is being committed, if any. The write of
  a record may itself be torn by the crash: that is a crash after the append that keeps only part
  of the written bytes.
\<close>

inductive crash_point :: "txn_manager \<Rightarrow> nat option \<Rightarrow> txn_manager \<Rightarrow> bool" where
  crash_between: "txn_steps w c \<Longrightarrow> crash_point w None c"
| crash_commit: "txn_steps w v \<Longrightarrow> lw_txns v x = Some t \<Longrightarrow> tx_state t = TsACTIVE \<Longrightarrow>
    mid_run x v (commit_calls x t) c rest \<Longrightarrow> crash_point w (Some x) c"
| crash_abort: "txn_steps w v \<Longrightarrow> lw_txns v x = Some t \<Longrightarrow> tx_state t \<noteq> TsCOMMITTED \<Longrightarrow>
    mid_run x v (abort_calls x t) c rest \<Longrightarrow> crash_point w None c"

section \<open>Invariant\<close>

fun status_of_state :: "transaction_state \<Rightarrow> transaction_status" where
  "status_of_state TsCOMMITTED = StCOMMITTED"
| "status_of_state TsABORTED = StABORTED"
| "status_of_state _ = StIN_PROGRESS"

definition txns_ok :: "txn_manager \<Rightarrow> bool" where
  "txns_ok w \<longleftrightarrow>
     (\<forall>x t. lw_txns w x = Some t \<longrightarrow> 2 \<le> x \<and> x < tm_next_xid w
        \<and> status_get (tm_statuses w) x = status_of_state (tx_state t)
        \<and> (x \<in> set (tm_active w) \<longleftrightarrow> unfinished t))
     \<and> (\<forall>x \<in> set (tm_active w). lw_txns w x \<noteq> None)
     \<and> (\<forall>x \<ge> tm_next_xid w. status_get (tm_statuses w) x = StIN_PROGRESS)
     \<and> 2 \<le> tm_next_xid w"

definition snaps_ok :: "txn_manager \<Rightarrow> bool" where
  "snaps_ok w \<longleftrightarrow>
     (\<forall>x t s. lw_txns w x = Some t \<longrightarrow> tx_repeatable_snapshot t = Some s \<longrightarrow>
        finite (snap_active s) \<and> snap_xmax s \<le> tm_next_xid w)"

text \<open>The log knows the outcome of every transaction of this manager that wrote.\<close>

definition logged :: "wal_manager \<Rightarrow> nat \<Rightarrow> wal_record \<Rightarrow> bool" where
  "logged wal x r \<longleftrightarrow> (\<exists>d \<in> set (wm_entries wal). wr_xid d = x \<and> wr_record d = r)"

definition durably_logged :: "wal_manager \<Rightarrow> nat \<Rightarrow> wal_record \<Rightarrow> bool" where
  "durably_logged wal x r \<longleftrightarrow>
     (\<exists>d \<in> set (wm_entries wal). wr_xid d = x \<and> wr_record d = r \<and> wr_end_lsn d \<le> wm_flushed_lsn wal)"

definition log_ok :: "txn_manager \<Rightarrow> bool" where
  "log_ok w \<longleftrightarrow>
     (\<forall>wal. tm_wal w = Some wal \<longrightarrow> wal_inv wal \<and> wal_durable wal
        \<and> (\<forall>x t. lw_txns w x = Some t \<longrightarrow>
             (tx_state t = TsCOMMITTED \<and> tx_has_writes t \<longrightarrow> durably_logged wal x CommitRecord)
             \<and> (logged wal x CommitRecord \<longrightarrow> tx_state t = TsCOMMITTED))
        \<and> (\<forall>x \<ge> tm_next_xid w. \<not> logged wal x CommitRecord))"

definition tm_inv :: "txn_manager \<Rightarrow> bool" where
  "tm_inv w \<longleftrightarrow> lock_inv w \<and> txns_ok w \<and> snaps_ok w \<and> log_ok w"

section \<open>Finishing a transaction\<close>

text \<open>The common tail of commit and abort, after the transaction's state is set.\<close>

definition finish :: "nat \<Rightarrow> transaction_status \<Rightarrow> (txn_manager, unit) sm" where
  "finish x st = sm_bind (set_status x st) (\<lambda>_. sm_bind (pop_active x) (\<lambda>_. release_all x))"

lemma txns_okD:
  assumes "txns_ok w"
  shows "lw_txns w x = Some t \<Longrightarrow> 2 \<le> x" "lw_txns w x = Some t \<Longrightarrow> x < tm_next_xid w"
    and "lw_txns w x = Some t \<Longrightarrow> status_get (tm_statuses w) x = status_of_state (tx_state t)"
    and "lw_txns w x = Some t \<Longrightarrow> x \<in> set (tm_active w) \<longleftrightarrow> unfinished t"
    and "x \<in> set (tm_active w) \<Longrightarrow> \<exists>t. lw_txns w x = Some t"
    and "tm_next_xid w \<le> x \<Longrightarrow> status_get (tm_statuses w) x = StIN_PROGRESS"
    and "2 \<le> tm_next_xid w"
  using assms unfolding txns_ok_def by blast+

lemma unfinished_status: "status_of_state (tx_state t) = StIN_PROGRESS \<longleftrightarrow> unfinished t"
  by (cases "tx_state t") (auto simp: unfinished_def)

lemma lock_inv_lw_eq:
  "lw_txns w' = lw_txns w \<Longrightarrow> lw_owners w' = lw_owners w \<Longrightarrow> lw_queues w' = lw_queues w \<Longrightarrow>
   lw_registered w' = lw_registered w \<Longrightarrow> lock_inv w' = lock_inv w"
  by (simp add: lock_inv_def owner_of_def)

lemma finish_inv:
  assumes "lock_inv w" and "txns_ok w" and "snaps_ok w" and t: "lw_txns w x = Some t"
    and s: "s = TsCOMMITTED \<or> s = TsABORTED" and "unfinished t \<or> tx_state t = s"
    and f: "finish x (status_of_state s) (put_txn x (t\<lparr>tx_state := s\<rparr>) w) = (r, w')"
  shows "r = Inr ()" and "lock_inv w'" and "txns_ok w'" and "snaps_ok w'"
    and "tm_wal w' = tm_wal w" and "tm_next_xid w' = tm_next_xid w"
    and "lw_txns w' = (lw_txns w)(x \<mapsto> t\<lparr>tx_state := s, tx_resources := []\<rparr>)"
    and "\<And>y. status_get (tm_statuses w') y = (if y = x then status_of_state s else status_get (tm_statuses w) y)"
proof -
  note d = txns_okD [OF assms(2)]
  define tbl where "tbl = AList.update x (status_of_state s) (tm_statuses w)"
  define w1 where "w1 = w\<lparr>tm_statuses := tbl, tm_active := removeAll x (tm_active w)\<rparr>"
  have "status_get (tm_statuses w) x \<in> {StIN_PROGRESS, status_of_state s}"
    using d(3) [OF t] assms(6) unfinished_status [of t] by auto
  then have st: "status_set x (status_of_state s) (tm_statuses w) = (Inr (), tbl)"
    by (auto simp: status_set_def Let_def tbl_def)
  have "(put_txn x (t\<lparr>tx_state := s\<rparr>) w)\<lparr>tm_statuses := tbl, tm_active := removeAll x (tm_active w)\<rparr>
      = put_txn x (t\<lparr>tx_state := s\<rparr>) w1"
    by (cases w) (simp add: put_txn_def w1_def)
  then have rel: "release_all x (put_txn x (t\<lparr>tx_state := s\<rparr>) w1) = (r, w')"
    using f st by (simp add: finish_def sm_bind_def set_status_def pop_active_def put_txn_def)
  have i1: "lock_inv w1" using assms(1) lock_inv_lw_eq [of w1 w] by (simp add: w1_def)
  have t1: "lw_txns w1 x = Some t" using t by (simp add: w1_def)
  note ri = release_all_inv [OF i1 t1 rel]
  have tm: "tm_wal w' = tm_wal w" "tm_next_xid w' = tm_next_xid w" "tm_statuses w' = tbl"
    "tm_active w' = removeAll x (tm_active w)"
    using rel t by (auto simp: release_all_def sm_bind_def get_txn_def put_txn_def w1_def)
  show "r = Inr ()" "lock_inv w'" "tm_wal w' = tm_wal w" "tm_next_xid w' = tm_next_xid w"
    using ri(1,2) tm by simp_all
  show tx: "lw_txns w' = (lw_txns w)(x \<mapsto> t\<lparr>tx_state := s, tx_resources := []\<rparr>)"
    using ri(5) by (simp add: w1_def)
  show get: "status_get (tm_statuses w') y = (if y = x then status_of_state s else status_get (tm_statuses w) y)" for y
    by (simp add: tm tbl_def status_get_update)
  have nu: "\<not> unfinished (t\<lparr>tx_state := s, tx_resources := []\<rparr>)" using s by (auto simp: unfinished_def)
  show "txns_ok w'"
    unfolding txns_ok_def
  proof (intro conjI allI impI ballI)
    fix y u assume y: "lw_txns w' y = Some u"
    show "2 \<le> y" "y < tm_next_xid w'" using y d(1,2) t by (auto simp: tx tm split: if_splits)
    show "status_get (tm_statuses w') y = status_of_state (tx_state u)"
      using y d(3) by (auto simp: tx get split: if_splits)
    show "y \<in> set (tm_active w') \<longleftrightarrow> unfinished u" using y d(4) nu by (auto simp: tx tm split: if_splits)
  next
    fix y assume "y \<in> set (tm_active w')" then show "lw_txns w' y \<noteq> None" using d(5) by (auto simp: tx tm)
  next
    fix y assume "tm_next_xid w' \<le> y"
    then show "status_get (tm_statuses w') y = StIN_PROGRESS" using d(2) [OF t] d(6) tm(2) by (auto simp: get)
  qed (use d(7) tm in simp)
  show "snaps_ok w'"
    using assms(3) t by (auto simp: snaps_ok_def tx tm split: if_splits)
qed

text \<open>Commit and abort in terms of the logging of an outcome as a whole.\<close>

definition log_outcome :: "nat \<Rightarrow> wal_record \<Rightarrow> (txn_manager, unit) sm" where
  "log_outcome xid r = sm_bind (log_append xid r) (\<lambda>_. log_flush)"

definition append_and_flush :: "nat \<Rightarrow> wal_record \<Rightarrow> (wal_manager, unit) sm" where
  "append_and_flush xid r =
     sm_bind (wal_append xid r) (\<lambda>_ wal. wal_flush (Some (wm_end_lsn wal)) wal)"

lemma log_outcome_eq:
  "log_outcome xid r w =
     (case tm_wal w of None \<Rightarrow> (Inr (), w) | Some wal \<Rightarrow> on_wal (append_and_flush xid r) wal w)"
  by (auto simp: log_outcome_def log_append_def log_flush_def append_and_flush_def on_wal_def sm_bind_def
      split: option.splits prod.splits sum.splits)

lemma tm_commit_eq:
  "tm_commit xid =
     sm_bind (get_txn xid) (\<lambda>t.
     sm_bind (if tx_has_writes t then log_outcome xid CommitRecord else sm_return ()) (\<lambda>_.
     sm_bind (update_txn xid mark_committed) (\<lambda>_. finish xid StCOMMITTED)))"
  unfolding tm_commit_def
  by (intro arg_cong [where f = "sm_bind (get_txn xid)"] ext [where f = "\<lambda>t. _ t"])
    (simp add: commit_calls_def log_outcome_def finish_def sm_bind_assoc)

lemma tm_abort_eq:
  "tm_abort xid =
     sm_bind (get_txn xid) (\<lambda>t.
     sm_bind (if tx_has_writes t \<and> tx_state t \<noteq> TsABORTED then log_outcome xid AbortRecord else sm_return ()) (\<lambda>_.
     sm_bind (if tx_state t \<noteq> TsABORTED then update_txn xid mark_aborted else sm_return ()) (\<lambda>_.
     finish xid StABORTED)))"
  unfolding tm_abort_def
  by (intro arg_cong [where f = "sm_bind (get_txn xid)"] ext [where f = "\<lambda>t. _ t"])
    (simp add: abort_calls_def log_outcome_def finish_def sm_bind_assoc)

section \<open>What the log gains\<close>

definition log_ext :: "wal_manager \<Rightarrow> wal_manager \<Rightarrow> nat \<Rightarrow> wal_record \<Rightarrow> bool" where
  "log_ext wal wal' x r \<longleftrightarrow>
     wal_inv wal' \<and> wal_durable wal' \<and> set (wm_entries wal) \<subseteq> set (wm_entries wal')
     \<and> wm_flushed_lsn wal \<le> wm_flushed_lsn wal'
     \<and> (\<forall>d \<in> set (wm_entries wal') - set (wm_entries wal). wr_xid d = x \<and> wr_record d = r)"

lemma log_ext_append:
  assumes "wal_inv wal" and "wal_durable wal" and "valid_record r" and "wal_append x r wal = (res, wal')"
  shows "log_ext wal wal' x r"
proof -
  have i: "wal_inv wal' \<and> wal_durable wal'" "wm_flushed_lsn wal' = wm_flushed_lsn wal"
    using wal.app_inv [OF _ assms(3,4)] assms(1,2) by auto
  show ?thesis
  proof (cases res)
    case (Inl e)
    then show ?thesis using wal.app_fails [of wal r x e wal'] assms i by (auto simp: log_ext_def)
  next
    case (Inr lsn)
    then show ?thesis using wal.app_adds [of wal r x lsn wal'] assms i by (auto simp: log_ext_def)
  qed
qed

lemma append_and_flush_ext:
  assumes "wal_inv wal" and "wal_durable wal" and "valid_record r" and "append_and_flush x r wal = (res, wal')"
  shows "log_ext wal wal' x r" and "res = Inr () \<Longrightarrow> durably_logged wal' x r" and "res = Inl e \<Longrightarrow> wal' = wal"
proof -
  obtain a wal1 where a: "wal_append x r wal = (a, wal1)" by (cases "wal_append x r wal")
  have e1: "log_ext wal wal1 x r" by (rule log_ext_append [OF assms(1-3) a])
  have "log_ext wal wal' x r \<and> (res = Inr () \<longrightarrow> durably_logged wal' x r) \<and> (res = Inl e \<longrightarrow> wal' = wal)"
  proof (cases a)
    case (Inl e')
    then show ?thesis
      using a assms e1 wal_append_err(1) [of x r wal e' wal1] by (auto simp: append_and_flush_def sm_bind_def)
  next
    case (Inr lsn)
    have i1: "wal_inv wal1" "wal_durable wal1" using e1 by (auto simp: log_ext_def)
    have "\<not> wm_closed wal" using a Inr by (auto simp: wal_append_def sm_bind_eq_Inr_iff wal_ensure_open_def)
    then have "\<not> wm_closed wal1" using wal_append_ok(7) [OF assms(1)] a Inr assms(3) by auto
    then obtain wal2 where f: "wal_flush (Some (wm_end_lsn wal1)) wal1 = (Inr (), wal2)"
      using wal_flush_end by blast
    have eq: "res = Inr ()" "wal' = wal2"
      using assms(4) a Inr f by (auto simp: append_and_flush_def sm_bind_def)
    note fo = wal_flush_ok [OF i1 f]
    have "wm_flushed_lsn wal1 \<le> wm_flushed_lsn wal2" using fo(3) i1 by (simp add: wal_inv_def)
    moreover have "durably_logged wal2 x r"
      using wal.app_flush_durable [of wal r x lsn wal1 "Some (wm_end_lsn wal1)" "()" wal2] assms a Inr f
      by (auto simp: durably_logged_def)
    ultimately show ?thesis using e1 fo eq by (auto simp: log_ext_def)
  qed
  then show "log_ext wal wal' x r" and "res = Inr () \<Longrightarrow> durably_logged wal' x r" and "res = Inl e \<Longrightarrow> wal' = wal"
    by auto
qed

lemma durably_logged_ext: "log_ext wal wal' x r \<Longrightarrow> durably_logged wal y q \<Longrightarrow> durably_logged wal' y q"
  by (fastforce simp: durably_logged_def log_ext_def)

lemma logged_ext: "log_ext wal wal' x r \<Longrightarrow> logged wal' y q \<Longrightarrow> logged wal y q \<or> y = x \<and> q = r"
  by (fastforce simp: logged_def log_ext_def)

text \<open>How the log condition carries over a step of transaction \<open>x\<close> that may log \<open>r\<close>.\<close>

lemma log_ok_step:
  assumes "log_ok w" and t: "lw_txns w x = Some t" and tx: "lw_txns w' = (lw_txns w)(x \<mapsto> t')"
    and n: "tm_next_xid w' = tm_next_xid w" and x: "x < tm_next_xid w"
    and wal: "\<And>wal'. tm_wal w' = Some wal' \<Longrightarrow> \<exists>wal. tm_wal w = Some wal \<and> log_ext wal wal' x r"
    and st: "tx_state t = TsCOMMITTED \<Longrightarrow> tx_state t' = TsCOMMITTED"
    and new: "\<And>wal'. tm_wal w' = Some wal' \<Longrightarrow> tx_state t' = TsCOMMITTED \<Longrightarrow> tx_has_writes t' \<Longrightarrow>
      (tx_state t = TsCOMMITTED \<and> tx_has_writes t) \<or> durably_logged wal' x CommitRecord"
    and com: "r = CommitRecord \<Longrightarrow> tx_state t' = TsCOMMITTED"
  shows "log_ok w'"
  unfolding log_ok_def
proof (intro allI impI conjI)
  fix wal' assume w': "tm_wal w' = Some wal'"
  obtain wl where wl: "tm_wal w = Some wl" "log_ext wl wal' x r" using wal [OF w'] by blast
  have ok: "durably_logged wl y CommitRecord" if "lw_txns w y = Some u" "tx_state u = TsCOMMITTED" "tx_has_writes u" for y u
    using assms(1) wl(1) that by (auto simp: log_ok_def)
  have lg: "tx_state u = TsCOMMITTED" if "lw_txns w y = Some u" "logged wl y CommitRecord" for y u
    using assms(1) wl(1) that by (auto simp: log_ok_def)
  show "wal_inv wal'" "wal_durable wal'" using wl(2) by (auto simp: log_ext_def)
  show "durably_logged wal' y CommitRecord" if "lw_txns w' y = Some u" "tx_state u = TsCOMMITTED \<and> tx_has_writes u" for y u
  proof (cases "y = x")
    case True
    then have "u = t'" using that tx by simp
    then show ?thesis using new [OF w'] that ok [OF t] durably_logged_ext [OF wl(2)] True by blast
  next
    case False
    then show ?thesis using ok [of y u] that tx durably_logged_ext [OF wl(2)] by auto
  qed
  show "tx_state u = TsCOMMITTED" if u: "lw_txns w' y = Some u" "logged wal' y CommitRecord" for y u
  proof -
    have "logged wl y CommitRecord \<or> y = x \<and> r = CommitRecord" using logged_ext [OF wl(2) u(2)] by auto
    then show ?thesis using u(1) lg com st t tx by (cases "y = x") auto
  qed
  show "\<not> logged wal' y CommitRecord" if "tm_next_xid w' \<le> y" for y
    using logged_ext [OF wl(2), of y CommitRecord] assms(1) wl(1) n that x by (auto simp: log_ok_def)
qed

section \<open>Every step keeps the invariant\<close>

text \<open>
  Besides the invariant, a step never changes a decided status, never takes a transaction id back
  and, taking a statement's snapshot apart, adds no repeatable-read snapshot.
\<close>

definition keeps :: "txn_manager \<Rightarrow> txn_manager \<Rightarrow> bool" where
  "keeps w w' \<longleftrightarrow>
     tm_inv w' \<and> tm_next_xid w \<le> tm_next_xid w'
     \<and> (\<forall>y. status_get (tm_statuses w) y \<noteq> StIN_PROGRESS \<longrightarrow>
           status_get (tm_statuses w') y = status_get (tm_statuses w) y)
     \<and> (\<forall>y u s. lw_txns w' y = Some u \<longrightarrow> tx_repeatable_snapshot u = Some s \<longrightarrow>
           (\<exists>u0. lw_txns w y = Some u0 \<and> tx_repeatable_snapshot u0 = Some s))"

lemma keeps_refl: "tm_inv w \<Longrightarrow> keeps w w"
  by (auto simp: keeps_def)

lemma keepsD:
  assumes "keeps w w'"
  shows "tm_inv w'" "tm_next_xid w \<le> tm_next_xid w'"
    "status_get (tm_statuses w) y \<noteq> StIN_PROGRESS \<Longrightarrow> status_get (tm_statuses w') y = status_get (tm_statuses w) y"
    "lw_txns w' y = Some u \<Longrightarrow> tx_repeatable_snapshot u = Some s \<Longrightarrow>
       \<exists>u0. lw_txns w y = Some u0 \<and> tx_repeatable_snapshot u0 = Some s"
  using assms unfolding keeps_def by blast+

lemma keeps_trans:
  assumes "keeps w w1" and "keeps w1 w2"
  shows "keeps w w2"
  unfolding keeps_def
proof (intro conjI allI impI)
  show "tm_next_xid w \<le> tm_next_xid w2" using keepsD(2) [OF assms(1)] keepsD(2) [OF assms(2)] by simp
  show "status_get (tm_statuses w2) y = status_get (tm_statuses w) y" if "status_get (tm_statuses w) y \<noteq> StIN_PROGRESS" for y
    using keepsD(3) [OF assms(1), of y] keepsD(3) [OF assms(2), of y] that by simp
  show "\<exists>u0. lw_txns w y = Some u0 \<and> tx_repeatable_snapshot u0 = Some s"
    if "lw_txns w2 y = Some u" "tx_repeatable_snapshot u = Some s" for y u s
    using keepsD(4) [OF assms(2) that] keepsD(4) [OF assms(1)] by blast
qed (rule keepsD(1) [OF assms(2)])

lemma tm_invD:
  assumes "tm_inv w"
  shows "lock_inv w" "txns_ok w" "snaps_ok w" "log_ok w"
  using assms by (auto simp: tm_inv_def)

text \<open>A step that replaces one transaction's object and perhaps logs something for it.\<close>

lemma keeps_put:
  assumes "tm_inv w" and t: "lw_txns w x = Some t" and tx: "lw_txns w' = (lw_txns w)(x \<mapsto> t')"
    and lk: "lock_inv w'" and st: "status_of_state (tx_state t') = status_of_state (tx_state t)"
    and same: "tm_next_xid w' = tm_next_xid w" "tm_active w' = tm_active w" "tm_statuses w' = tm_statuses w"
    and rr: "tx_repeatable_snapshot t' = tx_repeatable_snapshot t"
    and hw: "tx_state t' = TsCOMMITTED \<Longrightarrow> tx_has_writes t' = tx_has_writes t"
    and wal: "\<And>wal'. tm_wal w' = Some wal' \<Longrightarrow> \<exists>wal r. tm_wal w = Some wal \<and> r \<noteq> CommitRecord \<and> log_ext wal wal' x r"
  shows "keeps w w'"
proof -
  note d = txns_okD [OF tm_invD(2) [OF assms(1)]]
  have com: "tx_state t' = TsCOMMITTED \<longleftrightarrow> tx_state t = TsCOMMITTED"
    using st by (cases "tx_state t"; cases "tx_state t'") auto
  have unf: "unfinished t' \<longleftrightarrow> unfinished t" using st unfinished_status by metis
  have "txns_ok w'"
    unfolding txns_ok_def
  proof (intro conjI allI impI ballI)
    fix y u assume y: "lw_txns w' y = Some u"
    show "2 \<le> y" "y < tm_next_xid w'" using y d(1,2) t by (auto simp: tx same split: if_splits)
    show "status_get (tm_statuses w') y = status_of_state (tx_state u)"
      using y d(3) t st by (auto simp: tx same split: if_splits)
    show "y \<in> set (tm_active w') \<longleftrightarrow> unfinished u" using y d(4) t unf by (auto simp: tx same split: if_splits)
  qed (use d(5-7) in \<open>auto simp: tx same\<close>)
  moreover have "snaps_ok w'"
    using tm_invD(3) [OF assms(1)] t rr by (auto simp: snaps_ok_def tx same split: if_splits)
  moreover have "log_ok w'"
  proof (cases "tm_wal w'")
    case None
    then show ?thesis by (simp add: log_ok_def)
  next
    case (Some wal')
    then obtain wl r where r: "tm_wal w = Some wl" "r \<noteq> CommitRecord" "log_ext wl wal' x r" using wal by blast
    show ?thesis
      by (rule log_ok_step [OF tm_invD(4) [OF assms(1)] t tx same(1) d(2) [OF t], of r])
        (use r Some com hw in auto)
  qed
  ultimately show ?thesis
    using lk t rr by (auto simp: keeps_def tm_inv_def tx same split: if_splits)
qed

lemma log_ext_refl: "wal_inv wal \<Longrightarrow> wal_durable wal \<Longrightarrow> log_ext wal wal x r"
  by (simp add: log_ext_def)

lemma tm_wal_ok: "tm_inv w \<Longrightarrow> tm_wal w = Some wal \<Longrightarrow> wal_inv wal \<and> wal_durable wal"
  by (auto simp: tm_inv_def log_ok_def)

lemma same_wal_ext:
  assumes "tm_inv w" and "tm_wal w' = tm_wal w" and "tm_wal w' = Some wal'"
  shows "\<exists>wal r. tm_wal w = Some wal \<and> r \<noteq> CommitRecord \<and> log_ext wal wal' x r"
proof -
  have w: "tm_wal w = Some wal'" using assms(2,3) by simp
  then have "log_ext wal' wal' x AbortRecord" using tm_wal_ok [OF assms(1)] by (simp add: log_ext_refl)
  then show ?thesis using w by (intro exI [of _ wal'] exI [of _ AbortRecord]) simp
qed

lemma begin_keeps:
  assumes "tm_inv w" and "tm_begin isolation w = (r, w')"
  shows "keeps w w'"
proof -
  note d = txns_okD [OF tm_invD(2) [OF assms(1)]]
  let ?x = "tm_next_xid w"
  let ?t = "new_transaction ?x isolation"
  have none: "lw_txns w ?x = None" using d(2) [of ?x] by (cases "lw_txns w ?x") auto
  have na: "?x \<notin> set (tm_active w)" using d(5) [of ?x] none by auto
  have f: "lw_txns w' = (lw_txns w)(?x \<mapsto> ?t)" "tm_next_xid w' = ?x + 1" "tm_active w' = tm_active w @ [?x]"
    "tm_statuses w' = tm_statuses w" "tm_wal w' = tm_wal w" "lw_owners w' = lw_owners w"
    "lw_queues w' = lw_queues w" "lw_registered w' = lw_registered w"
    using assms(2) by (auto simp: tm_begin_def Let_def put_txn_def)
  have t: "tx_state ?t = TsACTIVE" "tx_resources ?t = []" "tx_xid ?t = ?x" "tx_repeatable_snapshot ?t = None"
    by (simp_all add: new_transaction_def)
  note l = lock_invD [OF tm_invD(1) [OF assms(1)]]
  have own: "owner_of w' = owner_of w" by (simp add: owner_of_def f fun_eq_iff)
  have "lock_inv w'"
  proof (rule lock_invI)
    show "r \<in> set (tx_resources u) \<longleftrightarrow> owner_of w' r = Some y" if "lw_txns w' y = Some u" for y u r
      using that l(4) [of y u r] l(5) [of r ?x] none t(2) by (auto simp: f own split: if_splits)
    show "\<exists>u. lw_txns w' y = Some u \<and> unfinished u" if "owner_of w' k = Some y" for k y
      using that l(5) [of k y] none by (auto simp: own f)
    show "y \<in> set (lw_registered w') \<and> (\<exists>u. lw_txns w' y = Some u \<and> unfinished u)"
      if "(k, q) \<in> set (lw_queues w')" "y \<in> set q" for k q y
      using that l(7,8) [of k q y] none by (auto simp: f)
  qed (use l t(3) in \<open>auto simp: f split: if_splits\<close>)
  moreover have "txns_ok w'"
    unfolding txns_ok_def
  proof (intro conjI allI impI ballI)
    fix y u assume y: "lw_txns w' y = Some u"
    show "2 \<le> y" "y < tm_next_xid w'" using y d(1,2) d(7) by (fastforce simp: f split: if_splits)+
    show "status_get (tm_statuses w') y = status_of_state (tx_state u)"
      using y d(3) d(6) [of ?x] t(1) by (auto simp: f split: if_splits)
    show "y \<in> set (tm_active w') \<longleftrightarrow> unfinished u"
      using y d(4) t(1) na by (auto simp: f unfinished_def split: if_splits)
  qed (use d(5-7) in \<open>auto simp: f\<close>)
  moreover have "snaps_ok w'"
    using tm_invD(3) [OF assms(1)] t(4) by (fastforce simp: snaps_ok_def f split: if_splits)
  moreover have "log_ok w'"
    using tm_invD(4) [OF assms(1)] t(1) by (fastforce simp: log_ok_def f split: if_splits)
  ultimately show ?thesis using t(4) by (auto simp: keeps_def tm_inv_def f split: if_splits)
qed

lemma mark_failed_keeps:
  assumes "tm_inv w" and "update_txn x mark_failed w = (r, w')"
  shows "keeps w w'"
proof (cases "\<exists>t. lw_txns w x = Some t \<and> tx_state t = TsACTIVE")
  case True
  then obtain t where t: "lw_txns w x = Some t" "tx_state t = TsACTIVE" by blast
  have w': "w' = put_txn x (t\<lparr>tx_state := TsFAILED\<rparr>) w"
    using assms(2) t by (auto simp: update_txn_def sm_bind_def get_txn_def mark_failed_def require_usable_def)
  have tid: "tx_xid t = x" using lock_invD(3) [OF tm_invD(1) [OF assms(1)] t(1)] .
  show ?thesis
  proof (rule keeps_put [OF assms(1) t(1)])
    show "lw_txns w' = (lw_txns w)(x \<mapsto> t\<lparr>tx_state := TsFAILED\<rparr>)" by (simp add: w' put_txn_def)
    show "lock_inv w'" unfolding w' using tid t(2)
      by (intro lock_inv_put [OF tm_invD(1) [OF assms(1)] t(1)]) (simp_all add: unfinished_def)
    show "\<exists>wal r. tm_wal w = Some wal \<and> r \<noteq> CommitRecord \<and> log_ext wal wal' x r" if "tm_wal w' = Some wal'" for wal'
      using same_wal_ext [OF assms(1) _ that] by (simp add: w' put_txn_def)
  qed (simp_all add: w' put_txn_def t(2))
next
  case False
  then have "w' = w"
    using assms(2)
    by (auto simp: update_txn_def sm_bind_def get_txn_def mark_failed_def require_usable_def res_require_def
        split: option.splits if_splits)
  then show ?thesis using keeps_refl [OF assms(1)] by simp
qed

text \<open>Logging an outcome changes the log only, and not at all when it fails.\<close>

lemma log_outcome_cases:
  assumes "tm_inv w" and "log_outcome x r w = (res, w1)" and "valid_record r"
  shows "\<exists>wo. w1 = w\<lparr>tm_wal := wo\<rparr>
    \<and> (\<forall>wal'. wo = Some wal' \<longrightarrow> (\<exists>wal. tm_wal w = Some wal \<and> log_ext wal wal' x r
          \<and> (res = Inr () \<longrightarrow> durably_logged wal' x r)))
    \<and> (\<forall>e. res = Inl e \<longrightarrow> w1 = w)"
proof (cases "tm_wal w")
  case None
  then show ?thesis using assms(2) by (cases w) (auto simp: log_outcome_eq)
next
  case (Some wal)
  obtain r1 wal1 where a: "append_and_flush x r wal = (r1, wal1)" by (cases "append_and_flush x r wal")
  have w1: "w1 = w\<lparr>tm_wal := Some wal1\<rparr>" "res = r1" using assms(2) Some a by (auto simp: log_outcome_eq on_wal_def)
  note ext = append_and_flush_ext [OF _ _ assms(3) a]
  have ok: "wal_inv wal" "wal_durable wal" using tm_wal_ok [OF assms(1) Some] by auto
  have "w1 = w" if "res = Inl e" for e
    using ext(3) [OF ok, of e] that w1 Some by (cases w) simp
  then show ?thesis using w1 ext(1,2) [OF ok] Some by auto
qed

lemma lock_inv_wal [simp]: "lock_inv (w\<lparr>tm_wal := wo\<rparr>) = lock_inv w"
  by (rule lock_inv_lw_eq) simp_all

lemma txns_ok_wal [simp]: "txns_ok (w\<lparr>tm_wal := wo\<rparr>) = txns_ok w"
  by (simp add: txns_ok_def)

lemma snaps_ok_wal [simp]: "snaps_ok (w\<lparr>tm_wal := wo\<rparr>) = snaps_ok w"
  by (simp add: snaps_ok_def)

text \<open>A transaction that ends: its outcome was logged first when it had written.\<close>

lemma finish_keeps:
  assumes inv: "tm_inv w" and t: "lw_txns w x = Some t" and s: "s = TsCOMMITTED \<or> s = TsABORTED"
    and un: "unfinished t \<or> tx_state t = s \<and> s = TsABORTED"
    and wo: "\<And>wal'. wo = Some wal' \<Longrightarrow> \<exists>wal r. tm_wal w = Some wal \<and> log_ext wal wal' x r
        \<and> (r = CommitRecord \<longrightarrow> s = TsCOMMITTED)
        \<and> (s = TsCOMMITTED \<longrightarrow> tx_has_writes t \<longrightarrow> durably_logged wal' x CommitRecord)"
    and f: "finish x (status_of_state s) (put_txn x (t\<lparr>tx_state := s\<rparr>) (w\<lparr>tm_wal := wo\<rparr>)) = (res, w')"
  shows "keeps w w'" and "res = Inr ()"
    and "lw_txns w' = (lw_txns w)(x \<mapsto> t\<lparr>tx_state := s, tx_resources := []\<rparr>)"
proof -
  have un': "unfinished t \<or> tx_state t = s" using un by auto
  have i: "lock_inv (w\<lparr>tm_wal := wo\<rparr>)" "txns_ok (w\<lparr>tm_wal := wo\<rparr>)" "snaps_ok (w\<lparr>tm_wal := wo\<rparr>)"
    using tm_invD [OF inv] by simp_all
  have t': "lw_txns (w\<lparr>tm_wal := wo\<rparr>) x = Some t" using t by simp
  note fi = finish_inv [OF i t' s un' f]
  show "res = Inr ()" by (rule fi(1))
  show tx: "lw_txns w' = (lw_txns w)(x \<mapsto> t\<lparr>tx_state := s, tx_resources := []\<rparr>)" using fi(7) by simp
  have n: "tm_next_xid w' = tm_next_xid w" and wal: "tm_wal w' = wo" using fi(5,6) by simp_all
  have x: "x < tm_next_xid w" using txns_okD(2) [OF tm_invD(2) [OF inv] t] .
  have nc: "tx_state t \<noteq> TsCOMMITTED" using un by (auto simp: unfinished_def)
  have "log_ok w'"
  proof (cases wo)
    case None
    then show ?thesis by (simp add: log_ok_def wal)
  next
    case (Some wal')
    then obtain wl r where r: "tm_wal w = Some wl" "log_ext wl wal' x r" "r = CommitRecord \<longrightarrow> s = TsCOMMITTED"
      "s = TsCOMMITTED \<longrightarrow> tx_has_writes t \<longrightarrow> durably_logged wal' x CommitRecord" using wo by blast
    show ?thesis
      by (rule log_ok_step [OF tm_invD(4) [OF inv] t tx n x, of r]) (use r Some wal nc in auto)
  qed
  moreover have "status_get (tm_statuses w') y = status_get (tm_statuses w) y"
    if "status_get (tm_statuses w) y \<noteq> StIN_PROGRESS" for y
    using that fi(8) [of y] txns_okD(3) [OF tm_invD(2) [OF inv] t] un unfinished_status [of t] by auto
  ultimately show "keeps w w'"
    using fi(2-4) n t by (auto simp: keeps_def tm_inv_def tx split: if_splits)
qed

lemma abort_keeps:
  assumes inv: "tm_inv w" and t: "lw_txns w x = Some t" and nc: "tx_state t \<noteq> TsCOMMITTED"
    and a: "tm_abort x w = (res, w')"
  shows "keeps w w'" and "w' = w \<or> res = Inr () \<and> lw_txns w' = (lw_txns w)(x \<mapsto> t\<lparr>tx_state := TsABORTED, tx_resources := []\<rparr>)"
proof -
  have st: "unfinished t \<or> tx_state t = TsABORTED" using nc by (cases "tx_state t") (auto simp: unfinished_def)
  have upd: "update_txn x mark_aborted (w\<lparr>tm_wal := wo\<rparr>)
      = (Inr (), put_txn x (t\<lparr>tx_state := TsABORTED\<rparr>) (w\<lparr>tm_wal := wo\<rparr>))" for wo
    using t nc by (simp add: update_txn_def sm_bind_def get_txn_def mark_aborted_def)
  have noop: "put_txn x (t\<lparr>tx_state := TsABORTED\<rparr>) w = w" if "tx_state t = TsABORTED"
  proof -
    have "t\<lparr>tx_state := TsABORTED\<rparr> = t" using that by (cases t) simp
    then show ?thesis using t by (cases w) (auto simp: put_txn_def fun_upd_idem)
  qed
  have self: "w\<lparr>tm_wal := tm_wal w\<rparr> = w" by (cases w) simp
  have "keeps w w' \<and> (w' = w \<or> res = Inr ()
      \<and> lw_txns w' = (lw_txns w)(x \<mapsto> t\<lparr>tx_state := TsABORTED, tx_resources := []\<rparr>))"
  proof (cases "tx_has_writes t \<and> tx_state t \<noteq> TsABORTED")
    case True
    obtain r1 w1 where l: "log_outcome x AbortRecord w = (r1, w1)" by (cases "log_outcome x AbortRecord w")
    obtain wo where wo: "w1 = w\<lparr>tm_wal := wo\<rparr>" "\<forall>wal'. wo = Some wal' \<longrightarrow>
        (\<exists>wal. tm_wal w = Some wal \<and> log_ext wal wal' x AbortRecord)" "\<forall>e. r1 = Inl e \<longrightarrow> w1 = w"
      using log_outcome_cases [OF inv l] by auto
    show ?thesis
    proof (cases r1)
      case (Inl e)
      then have "w' = w" using a t True l wo(3) by (auto simp: tm_abort_eq sm_bind_def get_txn_def)
      then show ?thesis using keeps_refl [OF inv] by simp
    next
      case (Inr u)
      have f: "finish x (status_of_state TsABORTED) (put_txn x (t\<lparr>tx_state := TsABORTED\<rparr>) (w\<lparr>tm_wal := wo\<rparr>)) = (res, w')"
        using a t True l wo(1) Inr upd by (simp add: tm_abort_eq sm_bind_def get_txn_def finish_def)
      show ?thesis
        using finish_keeps [OF inv t _ _ _ f] st wo(2) by auto
    qed
  next
    case False
    have f: "finish x (status_of_state TsABORTED) (put_txn x (t\<lparr>tx_state := TsABORTED\<rparr>) (w\<lparr>tm_wal := tm_wal w\<rparr>)) = (res, w')"
      using a t False upd [of "tm_wal w"] noop
      by (cases "tx_state t = TsABORTED") (auto simp: tm_abort_eq sm_bind_def get_txn_def finish_def self)
    have "\<exists>wal r. tm_wal w = Some wal \<and> log_ext wal wal' x r \<and> r \<noteq> CommitRecord" if "tm_wal w = Some wal'" for wal'
      using same_wal_ext [OF inv refl that] by blast
    then show ?thesis using finish_keeps [OF inv t _ _ _ f] st by fastforce
  qed
  then show "keeps w w'" and "w' = w \<or> res = Inr () \<and> lw_txns w' = (lw_txns w)(x \<mapsto> t\<lparr>tx_state := TsABORTED, tx_resources := []\<rparr>)"
    by auto
qed

lemma commit_keeps:
  assumes inv: "tm_inv w" and t: "lw_txns w x = Some t" and act: "tx_state t = TsACTIVE"
    and a: "tm_commit x w = (res, w')"
  shows "keeps w w'" and "w' = w \<or> res = Inr () \<and> lw_txns w' = (lw_txns w)(x \<mapsto> t\<lparr>tx_state := TsCOMMITTED, tx_resources := []\<rparr>)"
proof -
  have un: "unfinished t" using act by (simp add: unfinished_def)
  have upd: "update_txn x mark_committed (w\<lparr>tm_wal := wo\<rparr>)
      = (Inr (), put_txn x (t\<lparr>tx_state := TsCOMMITTED\<rparr>) (w\<lparr>tm_wal := wo\<rparr>))" for wo
    using t act by (simp add: update_txn_def sm_bind_def get_txn_def mark_committed_def)
  have self: "w\<lparr>tm_wal := tm_wal w\<rparr> = w" by (cases w) simp
  have "keeps w w' \<and> (w' = w \<or> res = Inr ()
      \<and> lw_txns w' = (lw_txns w)(x \<mapsto> t\<lparr>tx_state := TsCOMMITTED, tx_resources := []\<rparr>))"
  proof (cases "tx_has_writes t")
    case True
    obtain r1 w1 where l: "log_outcome x CommitRecord w = (r1, w1)" by (cases "log_outcome x CommitRecord w")
    obtain wo where wo: "w1 = w\<lparr>tm_wal := wo\<rparr>" "\<forall>wal'. wo = Some wal' \<longrightarrow>
        (\<exists>wal. tm_wal w = Some wal \<and> log_ext wal wal' x CommitRecord \<and> (r1 = Inr () \<longrightarrow> durably_logged wal' x CommitRecord))"
      "\<forall>e. r1 = Inl e \<longrightarrow> w1 = w"
      using log_outcome_cases [OF inv l] by auto
    show ?thesis
    proof (cases r1)
      case (Inl e)
      then have "w' = w" using a t True l wo(3) by (auto simp: tm_commit_eq sm_bind_def get_txn_def)
      then show ?thesis using keeps_refl [OF inv] by simp
    next
      case (Inr u)
      have f: "finish x (status_of_state TsCOMMITTED) (put_txn x (t\<lparr>tx_state := TsCOMMITTED\<rparr>) (w\<lparr>tm_wal := wo\<rparr>)) = (res, w')"
        using a t True l wo(1) Inr upd by (simp add: tm_commit_eq sm_bind_def get_txn_def finish_def)
      show ?thesis
        using finish_keeps [OF inv t _ _ _ f] un wo(2) Inr by auto
    qed
  next
    case False
    have f: "finish x (status_of_state TsCOMMITTED) (put_txn x (t\<lparr>tx_state := TsCOMMITTED\<rparr>) (w\<lparr>tm_wal := tm_wal w\<rparr>)) = (res, w')"
      using a t False upd [of "tm_wal w"] by (auto simp: tm_commit_eq sm_bind_def get_txn_def finish_def self)
    have "\<exists>wal r. tm_wal w = Some wal \<and> log_ext wal wal' x r \<and> r \<noteq> CommitRecord" if "tm_wal w = Some wal'" for wal'
      using same_wal_ext [OF inv refl that] by blast
    then show ?thesis using finish_keeps [OF inv t _ _ _ f] un False by fastforce
  qed
  then show "keeps w w'" and "w' = w \<or> res = Inr () \<and> lw_txns w' = (lw_txns w)(x \<mapsto> t\<lparr>tx_state := TsCOMMITTED, tx_resources := []\<rparr>)"
    by auto
qed

lemma victim_keeps:
  assumes "tm_inv w" and "abort_deadlock_victim x w = (res, w')"
  shows "keeps w w'"
proof -
  obtain r1 w1 where u: "update_txn x mark_failed w = (r1, w1)" by (cases "update_txn x mark_failed w")
  have k: "keeps w w1" by (rule mark_failed_keeps [OF assms(1) u])
  show ?thesis
  proof (cases r1)
    case (Inl e)
    then show ?thesis using assms(2) u k by (simp add: abort_deadlock_victim_def sm_bind_def)
  next
    case (Inr v)
    then obtain t where t: "lw_txns w1 x = Some (t\<lparr>tx_state := TsFAILED\<rparr>)"
      using u by (auto simp: update_txn_def sm_bind_eq_Inr_iff get_txn_def mark_failed_def res_bind_eq_Inr_iff
          put_txn_def split: option.splits)
    have "tm_abort x w1 = (res, w')" using assms(2) u Inr by (simp add: abort_deadlock_victim_def sm_bind_def)
    from abort_keeps(1) [OF keepsD(1) [OF k] t _ this] show ?thesis using keeps_trans [OF k] by simp
  qed
qed

text \<open>Appending a record that is no commit record for an unfinished transaction.\<close>

lemma append_keeps:
  assumes inv: "tm_inv w" and t: "lw_txns w x = Some t" and wal: "tm_wal w = Some wal" and v: "valid_record r"
    and r: "r \<noteq> CommitRecord" and a: "on_wal (wal_append x r) wal w = (res, w')"
  shows "keeps w w'" and "lw_txns w' = lw_txns w" and "\<exists>wal'. tm_wal w' = Some wal'"
proof -
  obtain r1 wal1 where ap: "wal_append x r wal = (r1, wal1)" by (cases "wal_append x r wal")
  have w': "w' = w\<lparr>tm_wal := Some wal1\<rparr>" using a ap by (auto simp: on_wal_def)
  have e: "log_ext wal wal1 x r" using log_ext_append [OF _ _ v ap] tm_wal_ok [OF inv wal] by blast
  show tx: "lw_txns w' = lw_txns w" and "\<exists>wal'. tm_wal w' = Some wal'" by (simp_all add: w')
  show "keeps w w'"
  proof (rule keeps_put [OF inv t])
    show "lw_txns w' = (lw_txns w)(x \<mapsto> t)" using t by (simp add: w' fun_upd_idem)
    show "lock_inv w'" using tm_invD(1) [OF inv] by (simp add: w')
    show "\<exists>wal r. tm_wal w = Some wal \<and> r \<noteq> CommitRecord \<and> log_ext wal wal' x r" if "tm_wal w' = Some wal'" for wal'
      using that wal e r by (auto simp: w')
  qed (simp_all add: w')
qed

lemma has_writes_keeps:
  assumes inv: "tm_inv w" and t: "lw_txns w x = Some t" and un: "unfinished t"
  shows "keeps w (put_txn x (t\<lparr>tx_has_writes := True\<rparr>) w)"
proof (rule keeps_put [OF inv t, where t' = "t\<lparr>tx_has_writes := True\<rparr>"])
  have "tx_xid t = x" using lock_invD(3) [OF tm_invD(1) [OF inv] t] .
  then show "lock_inv (put_txn x (t\<lparr>tx_has_writes := True\<rparr>) w)"
    by (intro lock_inv_put [OF tm_invD(1) [OF inv] t]) (simp_all add: unfinished_def)
  show "\<exists>wal r. tm_wal w = Some wal \<and> r \<noteq> CommitRecord \<and> log_ext wal wal' x r"
    if "tm_wal (put_txn x (t\<lparr>tx_has_writes := True\<rparr>) w) = Some wal'" for wal'
    using same_wal_ext [OF inv _ that] by (simp add: put_txn_def)
qed (use un in \<open>auto simp: put_txn_def unfinished_def\<close>)

lemma first_write_keeps:
  assumes inv: "tm_inv w" and t: "lw_txns w x = Some t" and un: "unfinished t" and wal: "tm_wal w = Some wal"
    and f: "(if tx_has_writes t then sm_return ()
             else sm_bind (\<lambda>w. on_wal (wal_append x BeginRecord) (the (tm_wal w)) w) (\<lambda>_.
                  sm_modify (put_txn x (t\<lparr>tx_has_writes := True\<rparr>)))) w = (res, w1)"
  shows "keeps w w1" and "\<exists>t1 wal1. lw_txns w1 x = Some t1 \<and> tm_wal w1 = Some wal1"
proof -
  have "keeps w w1 \<and> (\<exists>t1 wal1. lw_txns w1 x = Some t1 \<and> tm_wal w1 = Some wal1)"
  proof (cases "tx_has_writes t")
    case True
    then show ?thesis using f keeps_refl [OF inv] t wal by auto
  next
    case False
    obtain r2 w2 where o: "on_wal (wal_append x BeginRecord) wal w = (r2, w2)"
      by (cases "on_wal (wal_append x BeginRecord) wal w")
    have k2: "keeps w w2" and tx2: "lw_txns w2 = lw_txns w" and wal2: "\<exists>wal'. tm_wal w2 = Some wal'"
      using append_keeps [OF inv t wal _ _ o] by simp_all
    have t2: "lw_txns w2 x = Some t" using t tx2 by simp
    show ?thesis
    proof (cases r2)
      case (Inl e)
      then show ?thesis using f False o k2 t2 wal2 wal by (auto simp: sm_bind_def)
    next
      case (Inr lsn)
      then have "w1 = put_txn x (t\<lparr>tx_has_writes := True\<rparr>) w2" using f False o wal by (auto simp: sm_bind_def)
      then show ?thesis
        using keeps_trans [OF k2 has_writes_keeps [OF keepsD(1) [OF k2] t2 un]] wal2 by (auto simp: put_txn_def)
    qed
  qed
  then show "keeps w w1" and "\<exists>t1 wal1. lw_txns w1 x = Some t1 \<and> tm_wal w1 = Some wal1" by auto
qed

lemma log_page_image_keeps:
  assumes inv: "tm_inv w" and t: "lw_txns w x = Some t" and un: "unfinished t" and "valid_page_key (fst img)"
    and f: "log_page_image x img w = (res, w')"
  shows "keeps w w'"
proof (cases "tm_wal w")
  case None
  then have "w' = w" using f t by (auto simp: log_page_image_def sm_bind_def get_txn_def)
  then show ?thesis using keeps_refl [OF inv] by simp
next
  case (Some wal)
  obtain r1 w1 where f1: "(if tx_has_writes t then sm_return ()
             else sm_bind (\<lambda>w. on_wal (wal_append x BeginRecord) (the (tm_wal w)) w) (\<lambda>_.
                  sm_modify (put_txn x (t\<lparr>tx_has_writes := True\<rparr>)))) w = (r1, w1)" by fastforce
  note k1 = first_write_keeps [OF inv t un Some f1]
  obtain t1 wal1 where t1: "lw_txns w1 x = Some t1" "tm_wal w1 = Some wal1" using k1(2) by blast
  have rest: "(case r1 of Inl e \<Rightarrow> (Inl e, w1) | Inr _ \<Rightarrow>
      sm_bind (sm_lift (mk_heap_page_images [img])) (\<lambda>r.
         sm_bind (\<lambda>w. on_wal (wal_append x r) (the (tm_wal w)) w) (\<lambda>_. sm_return ())) w1) = (res, w')"
    using f t Some f1 by (simp add: log_page_image_def sm_bind_def get_txn_def split: sum.splits)
  show ?thesis
  proof (cases "r1 = Inr () \<and> (\<exists>r. mk_heap_page_images [img] = Inr r)")
    case True
    then obtain r where r: "mk_heap_page_images [img] = Inr r" by blast
    then have vr: "valid_record r" "r \<noteq> CommitRecord"
      using assms(4) by (auto simp: mk_heap_page_images_def split: if_splits)
    obtain r2 w2 where o: "on_wal (wal_append x r) wal1 w1 = (r2, w2)" by (cases "on_wal (wal_append x r) wal1 w1")
    have "w' = w2" using rest True r o t1(2) by (auto simp: sm_bind_def split: sum.splits)
    then show ?thesis
      using keeps_trans [OF k1(1)] append_keeps(1) [OF keepsD(1) [OF k1(1)] t1 vr o] by simp
  next
    case False
    then have "w' = w1"
      using rest by (cases r1; cases "mk_heap_page_images [img]") (auto simp: sm_bind_def)
    then show ?thesis using k1(1) by simp
  qed
qed

text \<open>Lock bookkeeping touches only the locks and the \<open>resources\<close> of transactions.\<close>

lemma keeps_locks:
  assumes inv: "tm_inv w" and lk: "lock_inv w'"
    and tx: "\<And>y. map_option (\<lambda>u. u\<lparr>tx_resources := []\<rparr>) (lw_txns w' y) = map_option (\<lambda>u. u\<lparr>tx_resources := []\<rparr>) (lw_txns w y)"
    and same: "tm_next_xid w' = tm_next_xid w" "tm_active w' = tm_active w" "tm_statuses w' = tm_statuses w"
      "tm_wal w' = tm_wal w"
  shows "keeps w w'"
proof -
  have f: "\<exists>u0. lw_txns w y = Some u0 \<and> tx_state u = tx_state u0 \<and> tx_has_writes u = tx_has_writes u0
      \<and> tx_repeatable_snapshot u = tx_repeatable_snapshot u0" if u: "lw_txns w' y = Some u" for y u
  proof -
    obtain u0 where u0: "lw_txns w y = Some u0" "u0\<lparr>tx_resources := []\<rparr> = u\<lparr>tx_resources := []\<rparr>"
      using tx [of y] u by (cases "lw_txns w y") auto
    then have "tx_state u0 = tx_state u" "tx_has_writes u0 = tx_has_writes u"
      "tx_repeatable_snapshot u0 = tx_repeatable_snapshot u"
      by (metis (no_types) transaction.select_convs transaction.surjective transaction.update_convs(6))+
    then show ?thesis using u0(1) by simp
  qed
  have dom: "lw_txns w' y = None \<longleftrightarrow> lw_txns w y = None" for y using tx [of y] by (metis option.map_disc_iff)
  have "txns_ok w'"
    unfolding txns_ok_def
  proof (intro conjI allI impI ballI)
    fix y u assume "lw_txns w' y = Some u"
    then obtain u0 where u0: "lw_txns w y = Some u0" "tx_state u = tx_state u0" using f by blast
    note d = txns_okD [OF tm_invD(2) [OF inv]]
    show "2 \<le> y" "y < tm_next_xid w'" using d(1,2) [OF u0(1)] by (simp_all add: same)
    show "status_get (tm_statuses w') y = status_of_state (tx_state u)" using d(3) [OF u0(1)] u0(2) by (simp add: same)
    show "y \<in> set (tm_active w') \<longleftrightarrow> unfinished u" using d(4) [OF u0(1)] u0(2) by (simp add: same unfinished_def)
  qed (use txns_okD(5-7) [OF tm_invD(2) [OF inv]] in \<open>auto simp: same dom\<close>)
  moreover have "snaps_ok w'"
    using tm_invD(3) [OF inv] f by (fastforce simp: snaps_ok_def same)
  moreover have "log_ok w'"
    unfolding log_ok_def same
  proof (intro allI impI conjI)
    fix wal assume wal: "tm_wal w = Some wal"
    note lo = tm_invD(4) [OF inv, unfolded log_ok_def, rule_format, OF wal]
    show "wal_inv wal" "wal_durable wal" using lo by auto
    show "durably_logged wal y CommitRecord" if "lw_txns w' y = Some u" "tx_state u = TsCOMMITTED \<and> tx_has_writes u" for y u
      using lo f [OF that(1)] that(2) by auto
    show "tx_state u = TsCOMMITTED" if "lw_txns w' y = Some u" "logged wal y CommitRecord" for y u
      using lo f [OF that(1)] that(2) by auto
    show "\<not> logged wal y CommitRecord" if "tm_next_xid w \<le> y" for y using lo that by auto
  qed
  ultimately show ?thesis using lk f by (fastforce simp: keeps_def tm_inv_def same)
qed

lemma acquire_check_keeps:
  assumes inv: "tm_inv w" and f: "acquire_check (Some abort_deadlock_victim) x k w = (res, w')"
  shows "keeps w w'"
proof -
  from f show ?thesis
  proof (cases rule: acquire_check_cases)
    case unchanged
    then show ?thesis using keeps_refl [OF inv] by simp
  next
    case granted
    then have "x \<in> set (queue_of w k)" by (metis hd_in_set)
    then obtain t where t: "lw_txns w x = Some t" "unfinished t" using queue_ofD(3) [OF tm_invD(1) [OF inv]] by blast
    note g = grant_inv [OF tm_invD(1) [OF inv] t granted(1), folded granted(4)]
    have "tm_next_xid w' = tm_next_xid w" "tm_active w' = tm_active w" "tm_statuses w' = tm_statuses w" "tm_wal w' = tm_wal w"
      using t by (simp_all add: granted(4) grant_def add_resource_def set_queue_def put_txn_def)
    then show ?thesis using g(1,3) t by (intro keeps_locks [OF inv]) auto
  next
    case (victim v rv)
    then show ?thesis
      using victim_keeps [OF inv, of v rv w'] keeps_refl [OF inv] by (auto simp: abort_victim_def split: if_splits)
  qed
qed

lemma acquire_keeps:
  assumes inv: "tm_inv w" and f: "lock_acquire (Some abort_deadlock_victim) x k w = (res, w')"
  shows "keeps w w'"
proof (cases "\<exists>t. lw_txns w x = Some t \<and> tx_state t = TsACTIVE")
  case False
  then have "w' = w"
    using f by (auto simp: lock_acquire_def sm_bind_def get_txn_def require_usable_def res_require_def
        split: option.splits if_splits)
  then show ?thesis using keeps_refl [OF inv] by simp
next
  case True
  then obtain t where t: "lw_txns w x = Some t" "tx_state t = TsACTIVE" by blast
  define w1 where "w1 = w\<lparr>lw_registered := List.insert x (lw_registered w)\<rparr>"
  have l1: "lock_inv w1" unfolding w1_def by (rule lock_inv_register [OF tm_invD(1) [OF inv]])
  have k1: "keeps w w1" using l1 by (intro keeps_locks [OF inv]) (simp_all add: w1_def)
  define q where "q = (if x \<in> set (queue_of w1 k) then queue_of w1 k else queue_of w1 k @ [x])"
  have rest: "(if owner_of w1 k = Some x then (Inr Granted, add_resource x k w1)
      else acquire_check (Some abort_deadlock_victim) x k (set_queue k q w1)) = (res, w')"
    using f t by (simp add: lock_acquire_def sm_bind_def get_txn_def require_usable_def w1_def q_def cong: if_cong)
  show ?thesis
  proof (cases "owner_of w1 k = Some x")
    case True
    have t1: "lw_txns w1 x = Some t" using t by (simp add: w1_def)
    have "k \<in> set (tx_resources t)" using lock_invD(4) [OF l1 t1, of k] True by simp
    then have "t\<lparr>tx_resources := List.insert k (tx_resources t)\<rparr> = t" by simp
    then have "w' = w1"
      using rest True t1 by (cases w1) (auto simp: add_resource_def put_txn_def fun_upd_idem)
    then show ?thesis using k1 by simp
  next
    case False
    have "distinct q" using queue_ofD(1) [OF l1, of k] by (auto simp: q_def)
    moreover have "y \<in> set (lw_registered w1) \<and> (\<exists>t. lw_txns w1 y = Some t \<and> unfinished t)" if "y \<in> set q" for y
      using queue_ofD(2,3) [OF l1, of y k] that t by (auto simp: q_def w1_def unfinished_def split: if_splits)
    ultimately have l2: "lock_inv (set_queue k q w1)" by (intro lock_inv_set_queue [OF l1])
    have k2: "keeps w1 (set_queue k q w1)"
      using l2 by (intro keeps_locks [OF keepsD(1) [OF k1]]) (simp_all add: set_queue_def)
    have "keeps (set_queue k q w1) w'"
      by (rule acquire_check_keeps [OF keepsD(1) [OF k2]]) (use rest False in simp)
    then show ?thesis using keeps_trans [OF k1] keeps_trans [OF k2] by blast
  qed
qed

lemma resume_keeps:
  assumes inv: "tm_inv w" and f: "acquire_resume (Some abort_deadlock_victim) x k w = (res, w')"
  shows "keeps w w'"
proof (cases "\<exists>t. lw_txns w x = Some t \<and> tx_state t = TsACTIVE")
  case True
  then have "acquire_check (Some abort_deadlock_victim) x k w = (res, w')"
    using f by (auto simp: acquire_resume_def sm_bind_def get_txn_def require_usable_def)
  then show ?thesis by (rule acquire_check_keeps [OF inv])
next
  case False
  then have "w' = w"
    using f by (auto simp: acquire_resume_def sm_bind_def get_txn_def require_usable_def res_require_def
        split: option.splits if_splits)
  then show ?thesis using keeps_refl [OF inv] by simp
qed

section \<open>Snapshots of statements\<close>

text \<open>A statement gets the transaction's kept snapshot, or one of the present moment.\<close>

definition present_snapshot :: "txn_manager \<Rightarrow> nat \<Rightarrow> snapshot" where
  "present_snapshot w x = \<lparr>snap_xmax = tm_next_xid w, snap_active = set (tm_active w) - {x}\<rparr>"

lemma mk_present_snapshot:
  assumes "tm_inv w"
  shows "mk_snapshot (tm_next_xid w) (set (filter (\<lambda>y. y \<noteq> x) (tm_active w))) = Inr (present_snapshot w x)"
proof -
  note d = txns_okD [OF tm_invD(2) [OF assms]]
  have "2 \<le> y \<and> y < tm_next_xid w" if "y \<in> set (tm_active w)" for y
    using d(5) [OF that] d(1,2) by blast
  then have "\<not> (\<exists>y \<in> set (filter (\<lambda>y. y \<noteq> x) (tm_active w)). y = 0 \<or> tm_next_xid w \<le> y)" by force
  moreover have "set (filter (\<lambda>y. y \<noteq> x) (tm_active w)) = set (tm_active w) - {x}" by auto
  ultimately show ?thesis unfolding mk_snapshot_def present_snapshot_def by auto
qed

lemma snapshot_cases:
  assumes inv: "tm_inv w" and f: "tm_statement_snapshot x w = (res, w')"
  obtains (error) "w' = w" "\<exists>e. res = Inl e"
  | (kept) t s where "lw_txns w x = Some t" "tx_state t = TsACTIVE" "tx_repeatable_snapshot t = Some s" "res = Inr s" "w' = w"
  | (fresh) t where "lw_txns w x = Some t" "tx_state t = TsACTIVE" "res = Inr (present_snapshot w x)"
      "w' = w \<or> w' = put_txn x (t\<lparr>tx_repeatable_snapshot := Some (present_snapshot w x)\<rparr>) w"
proof (cases "\<exists>t. lw_txns w x = Some t \<and> tx_state t = TsACTIVE")
  case False
  then have "w' = w" "\<exists>e. res = Inl e"
    using f by (auto simp: tm_statement_snapshot_def sm_bind_def get_txn_def require_usable_def res_require_def
        split: option.splits if_splits)
  then show ?thesis using error by blast
next
  case True
  then obtain t where t: "lw_txns w x = Some t" "tx_state t = TsACTIVE" by blast
  have g: "(case (tx_isolation t, tx_repeatable_snapshot t) of
       (REPEATABLE_READ, Some s) \<Rightarrow> (Inr s, w)
     | _ \<Rightarrow> (Inr (present_snapshot w x),
         if tx_isolation t = REPEATABLE_READ
         then put_txn x (t\<lparr>tx_repeatable_snapshot := Some (present_snapshot w x)\<rparr>) w else w)) = (res, w')"
    using f t unfolding tm_statement_snapshot_def
    by (cases "tx_isolation t"; cases "tx_repeatable_snapshot t")
      (auto simp: sm_bind_def get_txn_def require_usable_def mk_present_snapshot [OF inv] simp del: set_filter)
  show ?thesis
  proof (cases "tx_isolation t = REPEATABLE_READ \<and> tx_repeatable_snapshot t \<noteq> None")
    case True
    then obtain s where "tx_repeatable_snapshot t = Some s" by auto
    then show ?thesis using kept [OF t] g True by simp
  next
    case False
    then show ?thesis using fresh [OF t] g by (auto split: isolation_level.splits option.splits if_splits)
  qed
qed

lemma snapshot_inv:
  assumes inv: "tm_inv w" and f: "tm_statement_snapshot x w = (res, w')"
  shows "tm_inv w'" "tm_statuses w' = tm_statuses w" "tm_next_xid w' = tm_next_xid w"
proof -
  have "tm_inv w' \<and> tm_statuses w' = tm_statuses w \<and> tm_next_xid w' = tm_next_xid w"
    using inv f
  proof (cases rule: snapshot_cases)
    case (fresh t)
    define t' where "t' = t\<lparr>tx_repeatable_snapshot := Some (present_snapshot w x)\<rparr>"
    have tid: "tx_xid t' = x" using lock_invD(3) [OF tm_invD(1) [OF inv] fresh(1)] by (simp add: t'_def)
    have "lock_inv (put_txn x t' w)"
      using tid by (intro lock_inv_put [OF tm_invD(1) [OF inv] fresh(1)]) (simp_all add: t'_def unfinished_def)
    moreover have "txns_ok (put_txn x t' w)"
      using tm_invD(2) [OF inv] fresh(1,2) unfolding txns_ok_def put_txn_def t'_def by (auto simp: unfinished_def)
    moreover have "snaps_ok (put_txn x t' w)"
      using tm_invD(3) [OF inv] unfolding snaps_ok_def put_txn_def t'_def by (auto simp: present_snapshot_def)
    moreover have "log_ok (put_txn x t' w)"
      using tm_invD(4) [OF inv] fresh(1,2) unfolding log_ok_def put_txn_def t'_def by auto
    ultimately have "tm_inv (put_txn x t' w)" by (simp add: tm_inv_def)
    then show ?thesis using fresh(4) inv by (auto simp: t'_def put_txn_def)
  qed (use inv in auto)
  then show "tm_inv w'" "tm_statuses w' = tm_statuses w" "tm_next_xid w' = tm_next_xid w" by auto
qed

lemma log_traffic_ext:
  assumes "log_traffic wal wal'" and "wal_inv wal" and "wal_durable wal"
  shows "\<exists>y r. r \<noteq> CommitRecord \<and> log_ext wal wal' y r"
  using assms(1)
proof (cases rule: log_traffic.cases)
  case (traffic_append r y rn)
  then show ?thesis using log_ext_append [OF assms(2,3)] by blast
next
  case (traffic_flush l ru)
  have i: "wal_inv wal' \<and> wal_durable wal'" "wm_entries wal' = wm_entries wal"
    using wal.flush_inv [OF _ traffic_flush] assms(2,3) by auto
  have "wm_flushed_lsn wal \<le> wm_flushed_lsn wal'"
    using traffic_flush wal_flush_ok(3) [OF assms(2,3)] assms(2)
    by (cases ru) (auto simp: wal_inv_def dest!: wal_flush_err)
  then have "log_ext wal wal' 0 AbortRecord" using i by (simp add: log_ext_def)
  then show ?thesis by blast
qed

lemma traffic_keeps:
  assumes inv: "tm_inv w" and wal: "tm_wal w = Some wal" and tr: "log_traffic wal wal'"
  shows "keeps w (w\<lparr>tm_wal := Some wal'\<rparr>)"
proof -
  obtain y r where r: "r \<noteq> CommitRecord" "log_ext wal wal' y r"
    using log_traffic_ext [OF tr] tm_wal_ok [OF inv wal] by blast
  note lo = tm_invD(4) [OF inv, unfolded log_ok_def, rule_format, OF wal]
  have "logged wal z CommitRecord" if "logged wal' z CommitRecord" for z using logged_ext [OF r(2) that] r(1) by auto
  then have "log_ok (w\<lparr>tm_wal := Some wal'\<rparr>)"
    using lo r(2) durably_logged_ext [OF r(2)] unfolding log_ok_def by (auto simp: log_ext_def)
  then show ?thesis using tm_invD [OF inv] by (auto simp: keeps_def tm_inv_def)
qed

lemma step_keeps:
  assumes inv: "tm_inv w" and "txn_step w w'"
  shows "keeps w w' \<or> (\<exists>x res. tm_statement_snapshot x w = (res, w'))"
  using assms(2)
proof (cases rule: txn_step.cases)
  case (step_begin isolation r)
  then show ?thesis using begin_keeps [OF inv] by blast
next
  case (step_snapshot x rs)
  then show ?thesis by blast
next
  case (step_image img x t ru)
  then show ?thesis using log_page_image_keeps [OF inv] by blast
next
  case (step_log wal wal')
  then show ?thesis using traffic_keeps [OF inv] by blast
next
  case (step_writes x t)
  then show ?thesis using has_writes_keeps [OF inv] by blast
next
  case (step_acquire x k ra)
  then show ?thesis using acquire_keeps [OF inv] by blast
next
  case (step_resume x k ra)
  then show ?thesis using resume_keeps [OF inv] by blast
next
  case (step_fail x ru)
  then show ?thesis using mark_failed_keeps [OF inv] by blast
next
  case (step_commit x t ru)
  then show ?thesis using commit_keeps(1) [OF inv] by blast
next
  case (step_abort x t ru)
  then show ?thesis using abort_keeps(1) [OF inv] by blast
qed

lemma step_inv: "tm_inv w \<Longrightarrow> txn_step w w' \<Longrightarrow> tm_inv w'"
  using step_keeps keepsD(1) snapshot_inv(1) by blast

lemma steps_inv: "txn_steps w w' \<Longrightarrow> tm_inv w \<Longrightarrow> tm_inv w'"
  by (induction rule: txn_steps.induct) (auto intro: step_inv)

lemma steps_trans: "txn_steps w1 w2 \<Longrightarrow> txn_steps w w1 \<Longrightarrow> txn_steps w w2"
  by (induction rule: txn_steps.induct) (auto intro: steps_step)

text \<open>What a manager may be started with: recovered statuses below the next id, and a good log.\<close>

definition good_start :: "nat \<Rightarrow> status_table \<Rightarrow> wal_manager option \<Rightarrow> bool" where
  "good_start n statuses wo \<longleftrightarrow>
     2 \<le> n \<and> (\<forall>x \<ge> n. status_get statuses x = StIN_PROGRESS)
     \<and> (\<forall>wal. wo = Some wal \<longrightarrow> wal_inv wal \<and> wal_durable wal \<and> (\<forall>x \<ge> n. \<not> logged wal x CommitRecord))"

lemma start_inv: "good_start n statuses wo \<Longrightarrow> tm_inv (new_txn_manager n statuses wo)"
  by (auto simp: good_start_def tm_inv_def new_txn_manager_def lock_inv_def txns_ok_def snaps_ok_def log_ok_def
      owner_of_def)

section \<open>Dead versions stay invisible\<close>

definition dead_for :: "tuple_version \<Rightarrow> txn_manager \<Rightarrow> bool" where
  "dead_for v w \<longleftrightarrow>
     dead_reason v (tm_statuses w)
     \<and> (\<forall>x t s. lw_txns w x = Some t \<longrightarrow> unfinished t \<longrightarrow> tx_repeatable_snapshot t = Some s \<longrightarrow>
          past_deletion v (tm_statuses w) s)"

lemma horizon_dead_for:
  assumes inv: "tm_inv w"
    and c: "classify_version v (cleanup_horizon (active_transactions w) (tm_next_xid w)) (tm_statuses w) = DEAD_VERSION"
  shows "dead_for v w"
  unfolding dead_for_def
proof (intro conjI allI impI)
  show "dead_reason v (tm_statuses w)" using c by (rule classify_dead_reason)
  let ?ts = "active_transactions w"
  have fin: "finite (snap_active s)" if "t \<in> set ?ts" "tx_repeatable_snapshot t = Some s" for t s
    using that tm_invD(3) [OF inv] txns_okD(5) [OF tm_invD(2) [OF inv]]
    by (fastforce simp: active_transactions_def snaps_ok_def)
  fix x t s assume t: "lw_txns w x = Some t" "unfinished t" "tx_repeatable_snapshot t = Some s"
  then have "t \<in> set ?ts"
    using txns_okD(4) [OF tm_invD(2) [OF inv] t(1)] by (force simp: active_transactions_def)
  moreover have "horizon_candidates t = insert (snap_xmax s) (snap_active s)"
    using t(3) by (simp add: horizon_candidates_def)
  moreover have "cleanup_horizon ?ts (tm_next_xid w) \<le> c" if "t \<in> set ?ts" "c \<in> horizon_candidates t" for c
    using fin that by (intro cleanup_horizon_le) blast+
  ultimately have "cleanup_horizon ?ts (tm_next_xid w) \<le> snap_xmax s \<and>
      (\<forall>y \<in> snap_active s. cleanup_horizon ?ts (tm_next_xid w) \<le> y)" by simp
  then show "past_deletion v (tm_statuses w) s"
    using classify_dead_past_deletion [OF c] by blast
qed

lemma past_deletion_mono:
  assumes "past_deletion v st s" and "\<And>x. status_get st x \<noteq> StIN_PROGRESS \<Longrightarrow> status_get st' x = status_get st x"
  shows "past_deletion v st' s"
  using assms by (auto simp: past_deletion_def creator_status_def split: if_splits)

text \<open>A snapshot of the present moment is past every decided deletion.\<close>

lemma present_past_deletion:
  assumes inv: "tm_inv w" and "dead_reason v (tm_statuses w)"
  shows "past_deletion v (tm_statuses w) (present_snapshot w x)"
proof (cases "creator_status (tm_statuses w) (tv_xmin v) = StABORTED")
  case True
  then show ?thesis by (simp add: past_deletion_def)
next
  case False
  then have c: "status_get (tm_statuses w) (tv_xmax v) = StCOMMITTED" using assms(2) by (simp add: dead_reason_def)
  note d = txns_okD [OF tm_invD(2) [OF inv]]
  have "tv_xmax v < tm_next_xid w" using d(6) [of "tv_xmax v"] c by (cases "tv_xmax v < tm_next_xid w") auto
  moreover have "tv_xmax v \<notin> set (tm_active w)"
  proof
    assume a: "tv_xmax v \<in> set (tm_active w)"
    then obtain t where t: "lw_txns w (tv_xmax v) = Some t" using d(5) by blast
    then show False using d(3,4) [OF t] a c unfinished_status [of t] by simp
  qed
  ultimately show ?thesis by (simp add: past_deletion_def present_snapshot_def)
qed

lemma dead_for_step:
  assumes inv: "tm_inv w" and dead: "dead_for v w" and st: "txn_step w w'"
  shows "dead_for v w'"
  using step_keeps [OF inv st]
proof
  assume k: "keeps w w'"
  note mono = keepsD(3) [OF k]
  have "past_deletion v (tm_statuses w') s"
    if u: "lw_txns w' y = Some u" "unfinished u" "tx_repeatable_snapshot u = Some s" for y u s
  proof -
    obtain u0 where u0: "lw_txns w y = Some u0" "tx_repeatable_snapshot u0 = Some s" using keepsD(4) [OF k u(1,3)] by blast
    have "unfinished u0"
    proof (rule ccontr)
      assume "\<not> unfinished u0"
      then have "status_get (tm_statuses w') y \<noteq> StIN_PROGRESS"
        using txns_okD(3) [OF tm_invD(2) [OF inv] u0(1)] mono [of y] unfinished_status by metis
      then show False using txns_okD(3) [OF tm_invD(2) [OF keepsD(1) [OF k]] u(1)] u(2) unfinished_status by metis
    qed
    then show ?thesis using dead u0 past_deletion_mono [OF _ mono] unfolding dead_for_def by blast
  qed
  then show ?thesis using dead dead_reason_mono [OF _ mono] unfolding dead_for_def by blast
next
  assume "\<exists>x res. tm_statement_snapshot x w = (res, w')"
  then obtain x res where f: "tm_statement_snapshot x w = (res, w')" by blast
  from inv f show ?thesis
  proof (cases rule: snapshot_cases)
    case (fresh t)
    have p: "past_deletion v (tm_statuses w) (present_snapshot w x)"
      using present_past_deletion [OF inv] dead by (simp add: dead_for_def)
    show ?thesis
      using fresh(4) dead p by (auto simp: dead_for_def put_txn_def split: if_splits)
  qed (use dead in auto)
qed

lemma dead_for_steps: "txn_steps w w' \<Longrightarrow> tm_inv w \<Longrightarrow> dead_for v w \<Longrightarrow> dead_for v w'"
  by (induction rule: txn_steps.induct) (auto intro: dead_for_step steps_inv)

lemma dead_for_invisible:
  assumes inv: "tm_inv w" and dead: "dead_for v w" and f: "tm_statement_snapshot x w = (Inr s, w')"
  shows "\<not> is_visible v s x (tm_statuses w')"
proof -
  have st: "tm_statuses w' = tm_statuses w" by (rule snapshot_inv(2) [OF inv f])
  have "\<exists>t. lw_txns w x = Some t \<and> tx_state t = TsACTIVE \<and> past_deletion v (tm_statuses w) s"
    using inv f
  proof (cases rule: snapshot_cases)
    case (kept t s')
    then show ?thesis using dead by (auto simp: dead_for_def unfinished_def)
  next
    case (fresh t)
    then show ?thesis using present_past_deletion [OF inv] dead by (auto simp: dead_for_def)
  qed simp
  then obtain t where t: "lw_txns w x = Some t" "tx_state t = TsACTIVE" "past_deletion v (tm_statuses w) s" by blast
  note d = txns_okD [OF tm_invD(2) [OF inv]]
  have "status_get (tm_statuses w) x = StIN_PROGRESS" using d(3) [OF t(1)] t(2) by simp
  moreover have "x \<noteq> SYSTEM_XID" using d(1) [OF t(1)] by (simp add: SYSTEM_XID_def)
  ultimately show ?thesis
    using dead_invisible [OF _ t(3)] dead st by (simp add: dead_for_def)
qed

section \<open>What a crash finds\<close>

text \<open>
  The log condition of the invariant, except that the transaction being committed may have its
  commit record in the log before it is marked.
\<close>

definition crash_ok :: "nat option \<Rightarrow> txn_manager \<Rightarrow> bool" where
  "crash_ok op c \<longleftrightarrow>
     (\<forall>wal. tm_wal c = Some wal \<longrightarrow> wal_inv wal \<and> wal_durable wal
        \<and> (\<forall>y u. lw_txns c y = Some u \<longrightarrow>
             (tx_state u = TsCOMMITTED \<and> tx_has_writes u \<longrightarrow> durably_logged wal y CommitRecord)
             \<and> (logged wal y CommitRecord \<longrightarrow> tx_state u = TsCOMMITTED \<or> op = Some y \<and> tx_state u = TsACTIVE)))"

lemma crash_okD:
  assumes "crash_ok op c" and "tm_wal c = Some wal"
  shows "wal_inv wal" "wal_durable wal"
    and "lw_txns c y = Some u \<Longrightarrow> tx_state u = TsCOMMITTED \<Longrightarrow> tx_has_writes u \<Longrightarrow> durably_logged wal y CommitRecord"
    and "lw_txns c y = Some u \<Longrightarrow> logged wal y CommitRecord \<Longrightarrow> tx_state u = TsCOMMITTED \<or> op = Some y \<and> tx_state u = TsACTIVE"
  using assms unfolding crash_ok_def by blast+

lemma crash_ok_inv: "tm_inv w \<Longrightarrow> crash_ok op w"
  unfolding crash_ok_def using tm_invD(4) [of w] unfolding log_ok_def by blast

text \<open>The log grows and the transactions stay.\<close>

lemma crash_ok_log:
  assumes ok: "crash_ok op c" and wal: "tm_wal c = Some wal" and ext: "log_ext wal wal' x r"
    and r: "r = CommitRecord \<Longrightarrow> op = Some x \<and> (\<forall>u. lw_txns c x = Some u \<longrightarrow> tx_state u = TsACTIVE)"
  shows "crash_ok op (c\<lparr>tm_wal := Some wal'\<rparr>)"
  unfolding crash_ok_def
proof (intro allI impI)
  note d = crash_okD [OF ok wal]
  fix wal2 assume "tm_wal (c\<lparr>tm_wal := Some wal'\<rparr>) = Some wal2"
  then have w2: "wal2 = wal'" by simp
  have "tx_state u = TsCOMMITTED \<or> op = Some y \<and> tx_state u = TsACTIVE"
    if "lw_txns c y = Some u" "logged wal' y CommitRecord" for y u
    using logged_ext [OF ext that(2)] d(4) [OF that(1)] r that(1) by auto
  then show "wal_inv wal2 \<and> wal_durable wal2 \<and> (\<forall>y u. lw_txns (c\<lparr>tm_wal := Some wal'\<rparr>) y = Some u \<longrightarrow>
      (tx_state u = TsCOMMITTED \<and> tx_has_writes u \<longrightarrow> durably_logged wal2 y CommitRecord)
      \<and> (logged wal2 y CommitRecord \<longrightarrow> tx_state u = TsCOMMITTED \<or> op = Some y \<and> tx_state u = TsACTIVE))"
    using ext d(3) durably_logged_ext [OF ext] unfolding w2 log_ext_def by simp
qed

text \<open>One transaction's object changes and the log stays.\<close>

lemma crash_ok_put:
  assumes ok: "crash_ok op c" and u: "lw_txns c y = Some u"
    and tx: "lw_txns c' = (lw_txns c)(y \<mapsto> u')" and wal: "tm_wal c' = tm_wal c"
    and com: "\<And>wal. tm_wal c = Some wal \<Longrightarrow> tx_state u' = TsCOMMITTED \<Longrightarrow> tx_has_writes u' \<Longrightarrow>
      tx_state u = TsCOMMITTED \<and> tx_has_writes u \<or> durably_logged wal y CommitRecord"
    and keep: "tx_state u = TsCOMMITTED \<Longrightarrow> tx_state u' = TsCOMMITTED"
    and act: "op = Some y \<Longrightarrow> tx_state u = TsACTIVE \<Longrightarrow> tx_state u' = TsACTIVE \<or> tx_state u' = TsCOMMITTED"
  shows "crash_ok op c'"
  unfolding crash_ok_def wal
proof (intro allI impI conjI)
  fix wal assume w: "tm_wal c = Some wal"
  note d = crash_okD [OF ok w]
  show "wal_inv wal" "wal_durable wal" by (rule d(1), rule d(2))
  show "durably_logged wal z CommitRecord" if "lw_txns c' z = Some v" "tx_state v = TsCOMMITTED \<and> tx_has_writes v" for z v
    using that d(3) [OF u] d(3) [of z v] com [OF w] by (auto simp: tx split: if_splits)
  show "tx_state v = TsCOMMITTED \<or> op = Some z \<and> tx_state v = TsACTIVE"
    if "lw_txns c' z = Some v" "logged wal z CommitRecord" for z v
    using that d(4) [OF u] d(4) [of z v] keep act by (auto simp: tx split: if_splits)
qed

lemma crash_ok_same: "crash_ok op c \<Longrightarrow> lw_txns c' = lw_txns c \<Longrightarrow> tm_wal c' = tm_wal c \<Longrightarrow> crash_ok op c'"
  by (simp add: crash_ok_def)

lemma crash_ok_traffic:
  assumes "crash_ok op c" and "tm_wal c = Some wal" and "log_traffic wal wal'"
  shows "crash_ok op (c\<lparr>tm_wal := Some wal'\<rparr>)"
  using log_traffic_ext [OF assms(3)] crash_okD(1,2) [OF assms(1,2)] crash_ok_log [OF assms(1,2)] by blast

lemma update_txn_cases:
  assumes "update_txn y f c = (r, c')"
  obtains (unchanged) "c' = c" "r \<noteq> Inr ()"
  | (changed) u u' where "lw_txns c y = Some u" "f u = Inr u'" "c' = put_txn y u' c" "r = Inr ()"
  using assms by (cases "lw_txns c y"; cases "f (the (lw_txns c y))") (auto simp: update_txn_def sm_bind_def get_txn_def)

lemma put_txn_fields [simp]:
  "lw_txns (put_txn y u c) = (lw_txns c)(y \<mapsto> u)" "tm_wal (put_txn y u w) = tm_wal w"
  by (simp_all add: put_txn_def)

lemma other_step_ok:
  assumes ok: "crash_ok op c" and op: "op = None \<or> op = Some x" and st: "other_step x c c'"
  shows "crash_ok op c'"
  using st
proof (cases rule: other_step.cases)
  case (other_log wal wal')
  then show ?thesis using crash_ok_traffic [OF ok] by blast
next
  case (other_writes y u)
  show ?thesis
    by (rule crash_ok_put [OF ok other_writes(3), of _ "u\<lparr>tx_has_writes := True\<rparr>"])
      (use other_writes in \<open>auto simp: unfinished_def\<close>)
next
  case (other_fail y r)
  from other_fail(2) show ?thesis
  proof (cases rule: update_txn_cases)
    case unchanged
    then show ?thesis using ok by simp
  next
    case (changed u u')
    show ?thesis
      by (rule crash_ok_put [OF ok changed(1), of _ u'])
        (use changed other_fail(1) op in \<open>auto simp: mark_failed_def require_usable_def res_simps\<close>)
  qed
next
  case (other_locks y u rs qs os ks)
  show ?thesis
    by (rule crash_ok_put [OF ok other_locks(2), of _ "u\<lparr>tx_resources := ks\<rparr>"]) (use other_locks in auto)
qed

lemma on_wal_unit: "sm_bind (on_wal m wal) (\<lambda>_. sm_return ()) c = (r, c') \<Longrightarrow>
    \<exists>rn wal'. m wal = (rn, wal') \<and> c' = c\<lparr>tm_wal := Some wal'\<rparr> \<and> (r = Inr () \<longrightarrow> (\<exists>n. rn = Inr n))"
  by (auto simp: sm_bind_def on_wal_def split: prod.splits sum.splits)

lemma log_append_step:
  assumes ok: "crash_ok op c" and v: "valid_record r" and f: "log_append x r c = (res, c')"
    and r: "r = CommitRecord \<Longrightarrow> op = Some x \<and> (\<forall>u. lw_txns c x = Some u \<longrightarrow> tx_state u = TsACTIVE)"
  shows "crash_ok op c'" "lw_txns c' = lw_txns c"
    and "res = Inr () \<Longrightarrow> tm_wal c' = Some wal' \<Longrightarrow> logged wal' x r"
proof -
  have "crash_ok op c' \<and> lw_txns c' = lw_txns c \<and> (res = Inr () \<longrightarrow> tm_wal c' = Some wal' \<longrightarrow> logged wal' x r)"
  proof (cases "tm_wal c")
    case None
    then show ?thesis using f ok by (auto simp: log_append_def)
  next
    case (Some wal)
    then obtain rn wal1 where a: "wal_append x r wal = (rn, wal1)" "c' = c\<lparr>tm_wal := Some wal1\<rparr>"
      "res = Inr () \<longrightarrow> (\<exists>n. rn = Inr n)"
      using f on_wal_unit by (fastforce simp: log_append_def)
    note i = crash_okD(1,2) [OF ok Some]
    have "crash_ok op c'" using crash_ok_log [OF ok Some log_ext_append [OF i v a(1)] r] a(2) by simp
    moreover have "logged wal1 x r" if "res = Inr ()"
      using that a wal.app_adds [of wal r x _ wal1] i v by (auto simp: logged_def)
    ultimately show ?thesis using a(2) by auto
  qed
  then show "crash_ok op c'" "lw_txns c' = lw_txns c" "res = Inr () \<Longrightarrow> tm_wal c' = Some wal' \<Longrightarrow> logged wal' x r"
    by auto
qed

lemma log_flush_step:
  assumes ok: "crash_ok op c" and f: "log_flush c = (res, c')"
  shows "crash_ok op c'" "lw_txns c' = lw_txns c"
    and "res = Inr () \<Longrightarrow> tm_wal c' = Some wal' \<Longrightarrow> \<exists>wal. tm_wal c = Some wal \<and> (logged wal x r \<longrightarrow> durably_logged wal' x r)"
proof -
  have "crash_ok op c' \<and> lw_txns c' = lw_txns c \<and> (res = Inr () \<longrightarrow> tm_wal c' = Some wal' \<longrightarrow>
      (\<exists>wal. tm_wal c = Some wal \<and> (logged wal x r \<longrightarrow> durably_logged wal' x r)))"
  proof (cases "tm_wal c")
    case None
    then show ?thesis using f ok by (auto simp: log_flush_def)
  next
    case (Some wal)
    then obtain wal1 where a: "wal_flush (Some (wm_end_lsn wal)) wal = (res, wal1)" "c' = c\<lparr>tm_wal := Some wal1\<rparr>"
      using f by (auto simp: log_flush_def on_wal_def split: prod.splits)
    note i = crash_okD(1,2) [OF ok Some]
    have "crash_ok op c'" using crash_ok_traffic [OF ok Some traffic_flush [OF a(1)]] a(2) by simp
    moreover have "durably_logged wal1 x r" if s: "res = Inr ()" and l: "logged wal x r"
    proof -
      note fo = wal_flush_ok [OF i a(1) [unfolded s]]
      obtain d where d: "d \<in> set (wm_entries wal)" "wr_xid d = x" "wr_record d = r" using l by (auto simp: logged_def)
      then have "wr_end_lsn d \<le> wm_end_lsn wal" using i(1) log_at_end_gt [of 0] by (fastforce simp: wal_inv_def)
      then show ?thesis using d fo(3,4) by (auto simp: durably_logged_def)
    qed
    ultimately show ?thesis using a(2) Some by auto
  qed
  then show "crash_ok op c'" "lw_txns c' = lw_txns c"
    "res = Inr () \<Longrightarrow> tm_wal c' = Some wal' \<Longrightarrow> \<exists>wal. tm_wal c = Some wal \<and> (logged wal x r \<longrightarrow> durably_logged wal' x r)"
    by auto
qed

text \<open>The calls that end a transaction after its state is set.\<close>

lemma closing_calls_ok:
  assumes ok: "crash_ok op c" and m: "m \<in> {set_status x st, pop_active x, release_all x}" and f: "m c = (r, c')"
  shows "crash_ok op c'"
proof -
  have same: "lw_txns c' = lw_txns c \<and> tm_wal c' = tm_wal c" if "m \<in> {set_status x st, pop_active x}"
    using that f by (auto simp: set_status_def pop_active_def split: prod.splits)
  have "crash_ok op c'" if "m = release_all x"
  proof (cases "lw_txns c x")
    case None
    then show ?thesis using f that ok by (simp add: release_all_def sm_bind_def get_txn_def)
  next
    case (Some u)
    then have "lw_txns c' = (lw_txns c)(x \<mapsto> u\<lparr>tx_resources := []\<rparr>)" "tm_wal c' = tm_wal c"
      using f that by (auto simp: release_all_def sm_bind_def get_txn_def)
    then show ?thesis by (rule crash_ok_put [OF ok Some]) simp_all
  qed
  then show ?thesis using same crash_ok_same [OF ok] m by blast
qed

lemma mid_abort_ok:
  assumes "mid_run x v (abort_calls x t) c rest" and "crash_ok None v"
  shows "crash_ok None c \<and> set rest \<subseteq> set (abort_calls x t)"
  using assms(1)
proof (induction rule: mid_run.induct)
  case mid_start
  show ?case using assms(2) by simp
next
  case (mid_other c rest c')
  then show ?case using other_step_ok by blast
next
  case (mid_call c m rest r c')
  have ok: "crash_ok None c" and sub: "set rest \<subseteq> set (abort_calls x t)" using mid_call.IH by auto
  have "m \<in> set (abort_calls x t)" using mid_call.IH by simp
  then consider "m = log_append x AbortRecord" | "m = log_flush" | "m = update_txn x mark_aborted"
    | "m \<in> {set_status x StABORTED, pop_active x, release_all x}"
    by (auto simp: abort_calls_def split: if_splits)
  then have "crash_ok None c'"
  proof cases
    case 1
    then show ?thesis
      using log_append_step(1) [OF ok, where r = AbortRecord and x = x] mid_call.hyps(2) by simp
  next
    case 2
    then show ?thesis using log_flush_step(1) [OF ok] mid_call.hyps(2) by blast
  next
    case 3
    have "update_txn x mark_aborted c = (r, c')" using mid_call.hyps(2) 3 by simp
    then show ?thesis
    proof (cases rule: update_txn_cases)
      case unchanged
      then show ?thesis using ok by simp
    next
      case (changed u u')
      show ?thesis
        by (rule crash_ok_put [OF ok changed(1), of _ u']) (use changed in \<open>auto simp: mark_aborted_def split: if_splits\<close>)
    qed
  next
    case 4
    then show ?thesis using closing_calls_ok [OF ok] mid_call.hyps(2) by blast
  qed
  then show ?case using sub by auto
qed

text \<open>What other sessions leave of the transaction that is being committed and of its record.\<close>

lemma other_step_frame:
  assumes ok: "crash_ok op c" and st: "other_step x c c'" and u: "lw_txns c x = Some u"
  shows "\<exists>u'. lw_txns c' x = Some u' \<and> tx_state u' = tx_state u \<and> tx_has_writes u' = tx_has_writes u"
    and "tm_wal c' = Some wal' \<Longrightarrow> \<exists>wal. tm_wal c = Some wal
      \<and> (logged wal x r \<longrightarrow> logged wal' x r) \<and> (durably_logged wal x r \<longrightarrow> durably_logged wal' x r)"
proof -
  show "\<exists>u'. lw_txns c' x = Some u' \<and> tx_state u' = tx_state u \<and> tx_has_writes u' = tx_has_writes u"
    using st u by (cases rule: other_step.cases) (auto elim: update_txn_cases)
  assume w: "tm_wal c' = Some wal'"
  from st show "\<exists>wal. tm_wal c = Some wal \<and> (logged wal x r \<longrightarrow> logged wal' x r)
      \<and> (durably_logged wal x r \<longrightarrow> durably_logged wal' x r)"
  proof (cases rule: other_step.cases)
    case (other_log wal wal1)
    obtain y q where e: "log_ext wal wal1 y q"
      using log_traffic_ext [OF other_log(3)] crash_okD(1,2) [OF ok other_log(2)] by blast
    then have "logged wal x r \<longrightarrow> logged wal1 x r" by (auto simp: logged_def log_ext_def)
    then show ?thesis using other_log w durably_logged_ext [OF e] by auto
  qed (use w in \<open>auto elim: update_txn_cases\<close>)
qed

definition marking_calls :: "nat \<Rightarrow> (txn_manager, unit) sm list" where
  "marking_calls x = [update_txn x mark_committed, set_status x StCOMMITTED, pop_active x, release_all x]"

definition recorded :: "txn_manager \<Rightarrow> nat \<Rightarrow> bool" where
  "recorded c x \<longleftrightarrow> (\<forall>wal. tm_wal c = Some wal \<longrightarrow> logged wal x CommitRecord)"

definition recorded_durably :: "txn_manager \<Rightarrow> nat \<Rightarrow> bool" where
  "recorded_durably c x \<longleftrightarrow> (\<forall>wal. tm_wal c = Some wal \<longrightarrow> durably_logged wal x CommitRecord)"

text \<open>How far the commit of \<open>x\<close> is: its record is logged before the flush, and durable before the marking.\<close>

definition commit_phase :: "nat \<Rightarrow> bool \<Rightarrow> (txn_manager, unit) sm list \<Rightarrow> txn_manager \<Rightarrow> bool" where
  "commit_phase x writes rest c \<longleftrightarrow>
     (\<exists>u. lw_txns c x = Some u \<and> tx_has_writes u = writes
        \<and> (writes \<and> rest = log_append x CommitRecord # log_flush # marking_calls x \<and> tx_state u = TsACTIVE
           \<or> writes \<and> rest = log_flush # marking_calls x \<and> tx_state u = TsACTIVE
               \<and> recorded c x
           \<or> rest = marking_calls x \<and> tx_state u = TsACTIVE
               \<and> (writes \<longrightarrow> recorded_durably c x)))
     \<or> set rest \<subseteq> {set_status x StCOMMITTED, pop_active x, release_all x}"

lemma commit_phase_other:
  assumes ok: "crash_ok op c" and st: "other_step x c c'" and ph: "commit_phase x writes rest c"
  shows "commit_phase x writes rest c'"
proof (cases "set rest \<subseteq> {set_status x StCOMMITTED, pop_active x, release_all x}")
  case True
  then show ?thesis by (simp add: commit_phase_def)
next
  case False
  then obtain u where u: "lw_txns c x = Some u" using ph by (auto simp: commit_phase_def)
  obtain u' where u': "lw_txns c' x = Some u'" "tx_state u' = tx_state u" "tx_has_writes u' = tx_has_writes u"
    using other_step_frame(1) [OF ok st u] by blast
  note fr = other_step_frame(2) [OF ok st u, where r = CommitRecord]
  have "recorded c' x" if "recorded c x"
    using that fr unfolding recorded_def recorded_durably_def by blast
  moreover have "recorded_durably c' x"
    if "recorded_durably c x"
    using that fr unfolding recorded_def recorded_durably_def by blast
  moreover have "tx_has_writes u = writes
      \<and> (writes \<and> rest = log_append x CommitRecord # log_flush # marking_calls x \<and> tx_state u = TsACTIVE
         \<or> writes \<and> rest = log_flush # marking_calls x \<and> tx_state u = TsACTIVE
             \<and> recorded c x
         \<or> rest = marking_calls x \<and> tx_state u = TsACTIVE
             \<and> (writes \<longrightarrow> recorded_durably c x))"
    using ph False u unfolding commit_phase_def by (elim disjE exE) simp_all
  ultimately show ?thesis using u' unfolding commit_phase_def by (intro disjI1 exI [of _ u']) auto
qed

lemma commit_phase_call:
  assumes ok: "crash_ok (Some x) c" and ph: "commit_phase x writes (m # rest) c" and f: "m c = (r, c')"
  shows "crash_ok (Some x) c' \<and> commit_phase x writes (if r = Inr () then rest else []) c'"
proof -
  have fin: "commit_phase x writes [] c'" by (simp add: commit_phase_def)
  from ph consider
      (append) u where "lw_txns c x = Some u" "tx_has_writes u = writes" "writes" "m = log_append x CommitRecord"
        "rest = log_flush # marking_calls x" "tx_state u = TsACTIVE"
    | (flush) u where "lw_txns c x = Some u" "tx_has_writes u = writes" "writes" "m = log_flush" "rest = marking_calls x"
        "tx_state u = TsACTIVE" "recorded c x"
    | (mark) u where "lw_txns c x = Some u" "tx_has_writes u = writes" "m = update_txn x mark_committed"
        "rest = [set_status x StCOMMITTED, pop_active x, release_all x]"
        "writes \<longrightarrow> recorded_durably c x"
    | (close) "set (m # rest) \<subseteq> {set_status x StCOMMITTED, pop_active x, release_all x}"
    unfolding commit_phase_def by (auto simp: marking_calls_def)
  then show ?thesis
  proof cases
    case append
    note st = log_append_step [OF ok _ f [unfolded append(4)]]
    have "commit_phase x writes rest c'" if "r = Inr ()"
      using append st(2,3) that by (auto simp: commit_phase_def recorded_def)
    then show ?thesis using st(1) append fin by auto
  next
    case flush
    note st = log_flush_step [OF ok f [unfolded flush(4)]]
    have "recorded_durably c' x" if "r = Inr ()"
      using st(3) [OF that, where x = x and r = CommitRecord] flush(7)
      unfolding recorded_def recorded_durably_def by blast
    then have "commit_phase x writes rest c'" if "r = Inr ()"
      using flush st(2) that by (auto simp: commit_phase_def)
    then show ?thesis using st(1) fin by auto
  next
    case mark
    have "update_txn x mark_committed c = (r, c')" using f mark(3) by simp
    then have "crash_ok (Some x) c'"
    proof (cases rule: update_txn_cases)
      case unchanged
      then show ?thesis using ok by simp
    next
      case (changed u1 u')
      show ?thesis
        by (rule crash_ok_put [OF ok changed(1), of _ u'])
          (use changed mark in \<open>auto simp: mark_committed_def recorded_durably_def split: if_splits\<close>)
    qed
    then show ?thesis using mark(4) by (auto simp: commit_phase_def)
  next
    case close
    then have "m \<in> {set_status x StCOMMITTED, pop_active x, release_all x}" by simp
    then show ?thesis using closing_calls_ok [where m = m, OF ok _ f] close by (auto simp: commit_phase_def)
  qed
qed

lemma mid_commit_ok:
  assumes "mid_run x v (commit_calls x t) c rest" and "crash_ok (Some x) v" and "lw_txns v x = Some t" and "tx_state t = TsACTIVE"
  shows "crash_ok (Some x) c \<and> commit_phase x (tx_has_writes t) rest c"
  using assms(1)
proof (induction rule: mid_run.induct)
  case mid_start
  show ?case using assms(2-4) by (auto simp: commit_phase_def commit_calls_def marking_calls_def)
next
  case (mid_call c m rest r c')
  then show ?case using commit_phase_call by blast
next
  case (mid_other c rest c')
  then show ?case using other_step_ok commit_phase_other by blast
qed

lemma crash_point_ok:
  assumes "crash_point w op c" and "tm_inv w"
  shows "crash_ok op c"
  using assms(1)
proof (cases rule: crash_point.cases)
  case crash_between
  then show ?thesis using crash_ok_inv steps_inv assms(2) by blast
next
  case (crash_commit v x t rest)
  then show ?thesis using mid_commit_ok [OF crash_commit(5)] crash_ok_inv steps_inv assms(2) by blast
next
  case (crash_abort v x t rest)
  then show ?thesis using mid_abort_ok [OF crash_abort(5)] crash_ok_inv steps_inv assms(2) by blast
qed

section \<open>Properties of the transaction manager\<close>

text \<open>
  Claim C18. In every state the transaction manager can reach, its parts agree: every lock is
  owned by an unfinished transaction that lists it, every waiter is unfinished, a transaction's
  entry in the status table is the one of its state, the active ids are exactly the unfinished
  transactions', and a finished transaction neither owns nor awaits any lock.
\<close>

theorem txn_manager_invariant:
  assumes "good_start n statuses wo" and "txn_steps (new_txn_manager n statuses wo) w" and "lw_txns w x = Some t"
  shows "tx_xid t = x \<and> x < tm_next_xid w
    \<and> status_get (tm_statuses w) x = status_of_state (tx_state t)
    \<and> (x \<in> set (tm_active w) \<longleftrightarrow> unfinished t)
    \<and> (\<forall>k. k \<in> set (tx_resources t) \<longleftrightarrow> owner_of w k = Some x)
    \<and> (unfinished t \<or> tx_resources t = [] \<and> x \<notin> waiting_xids w)"
proof -
  have inv: "tm_inv w" using steps_inv [OF assms(2)] start_inv [OF assms(1)] by blast
  note l = lock_invD [OF tm_invD(1) [OF inv]] and d = txns_okD [OF tm_invD(2) [OF inv]]
  have "unfinished t" if "tx_resources t \<noteq> [] \<or> x \<in> waiting_xids w"
    using that
  proof
    assume "tx_resources t \<noteq> []"
    then obtain k where "k \<in> set (tx_resources t)" by (cases "tx_resources t") auto
    then show ?thesis using l(4) [OF assms(3), of k] l(5) [of k x] assms(3) by auto
  next
    assume "x \<in> waiting_xids w"
    then obtain k q where "(k, q) \<in> set (lw_queues w)" "x \<in> set q" by (auto simp: waiting_xids_def)
    then show ?thesis using l(8) [of k q x] assms(3) by auto
  qed
  then show ?thesis using l(3,4) [OF assms(3)] d(2-4) [OF assms(3)] by blast
qed

theorem txn_manager_invariant_witness:
  "\<exists>w t. txn_steps (new_txn_manager 2 [] None) w \<and> lw_txns w 2 = Some t \<and> 2 \<in> set (tm_active w)"
proof -
  obtain w where b: "tm_begin READ_COMMITTED (new_txn_manager 2 [] None) = (Inr 2, w)"
    and t: "lw_txns w 2 = Some (new_transaction 2 READ_COMMITTED)"
    by (simp add: tm_begin_def Let_def new_txn_manager_def put_txn_def)
  have g: "good_start 2 [] None" by (simp add: good_start_def status_get_def)
  have s: "txn_steps (new_txn_manager 2 [] None) w" by (rule steps_step [OF steps_refl step_begin [OF b]])
  show ?thesis
    using txn_manager_invariant [OF g s t] s t by (auto simp: unfinished_def new_transaction_def)
qed

text \<open>
  Claim C10. Reclamation is safe: a version that is classified dead against the cleanup horizon of
  a reachable state is invisible to every statement whose snapshot is taken in that state or in
  any state reached from it, by whatever transaction, whether the snapshot is fresh or the one a
  repeatable-read transaction has kept.
\<close>

theorem vacuum_horizon_safe:
  assumes "good_start n statuses wo" and "txn_steps (new_txn_manager n statuses wo) w"
    and "classify_version v (cleanup_horizon (active_transactions w) (tm_next_xid w)) (tm_statuses w) = DEAD_VERSION"
    and "txn_steps w w'" and "tm_statement_snapshot x w' = (Inr s, w'')"
  shows "\<not> is_visible v s x (tm_statuses w'')"
proof -
  have inv: "tm_inv w" using steps_inv [OF assms(2)] start_inv [OF assms(1)] by blast
  have "dead_for v w'" by (rule dead_for_steps [OF assms(4) inv horizon_dead_for [OF inv assms(3)]])
  then show ?thesis by (rule dead_for_invisible [OF steps_inv [OF assms(4) inv] _ assms(5)])
qed

text \<open>Two transactions; the first deletes a version and commits while the second is running.\<close>

definition two_begun :: txn_manager where
  "two_begun = snd (tm_begin READ_COMMITTED (snd (tm_begin READ_COMMITTED (new_txn_manager 2 [] None))))"

definition first_committed :: txn_manager where
  "first_committed = snd (tm_commit 2 two_begun)"

definition version_deleted_by_2 :: tuple_version where
  "version_deleted_by_2 = \<lparr>tv_xmin = 1, tv_xmax = 2, tv_next_tid = None, tv_values = []\<rparr>"

lemmas tm_eval = tm_begin_def tm_commit_def commit_calls_def Let_def new_txn_manager_def put_txn_def sm_bind_def get_txn_def
  update_txn_def mark_committed_def set_status_def status_set_def status_get_def pop_active_def release_all_def
  release_owned_def new_transaction_def

lemma first_committed_eval:
  "lw_txns first_committed 3 = Some (new_transaction 3 READ_COMMITTED)" "tm_active first_committed = [3]"
  "tm_next_xid first_committed = 4" "tm_statuses first_committed = [(2, StCOMMITTED)]"
  by (simp_all add: first_committed_def two_begun_def tm_eval)

lemma first_committed_steps:
  "txn_steps (new_txn_manager 2 [] None) two_begun" "txn_steps two_begun first_committed"
proof -
  let ?w0 = "new_txn_manager 2 [] None"
  have "txn_step w (snd (tm_begin READ_COMMITTED w))" for w by (rule step_begin) (rule prod.collapse [symmetric])
  then show "txn_steps ?w0 two_begun" unfolding two_begun_def by (blast intro: steps_refl steps_step)
  have t: "lw_txns two_begun 2 = Some (new_transaction 2 READ_COMMITTED)" by (simp add: two_begun_def tm_eval)
  have "txn_step two_begun first_committed"
    unfolding first_committed_def
    by (rule step_commit [OF t, of "fst (tm_commit 2 two_begun)"]) (simp_all add: new_transaction_def)
  then show "txn_steps two_begun first_committed" by (blast intro: steps_refl steps_step)
qed

lemma first_committed_dead:
  "classify_version version_deleted_by_2 (cleanup_horizon (active_transactions first_committed)
     (tm_next_xid first_committed)) (tm_statuses first_committed) = DEAD_VERSION"
proof -
  have "cleanup_horizon (active_transactions first_committed) (tm_next_xid first_committed) = 3"
    by (simp add: active_transactions_def first_committed_eval cleanup_horizon_def horizon_candidates_def
        new_transaction_def)
  then show ?thesis
    by (simp add: classify_version_def Let_def creator_status_def version_deleted_by_2_def SYSTEM_XID_def
        status_get_def first_committed_eval)
qed

lemma good_start_empty: "good_start 2 [] None"
  by (simp add: good_start_def status_get_def)

theorem vacuum_horizon_safe_witness:
  "\<exists>s w. tm_statement_snapshot 3 first_committed = (Inr s, w) \<and> \<not> is_visible version_deleted_by_2 s 3 (tm_statuses w)"
proof -
  have steps: "txn_steps (new_txn_manager 2 [] None) first_committed"
    by (rule steps_trans [OF first_committed_steps(2,1)])
  have "tm_inv first_committed" by (rule steps_inv [OF steps start_inv [OF good_start_empty]])
  then obtain s w where "tm_statement_snapshot 3 first_committed = (Inr s, w)"
    using mk_present_snapshot [of first_committed 3] first_committed_eval(1)
    by (auto simp: tm_statement_snapshot_def sm_bind_def get_txn_def require_usable_def new_transaction_def
        simp del: set_filter)
  then show ?thesis
    using vacuum_horizon_safe [OF good_start_empty steps first_committed_dead steps_refl] by blast
qed

text \<open>
  Claim C39. The horizon does not protect a READ COMMITTED statement that is still running: there
  are a reachable state in which such a statement takes its snapshot and a later one, in which its
  transaction is still running, where a version that snapshot sees is classified dead.
\<close>

theorem vacuum_horizon_misses_running_statement:
  "\<exists>w w' s t t' v. txn_steps (new_txn_manager 2 [] None) w
     \<and> lw_txns w 3 = Some t \<and> tx_isolation t = READ_COMMITTED \<and> tm_statement_snapshot 3 w = (Inr s, w)
     \<and> txn_steps w w'
     \<and> lw_txns w' 3 = Some t' \<and> tx_state t' = TsACTIVE \<and> tx_isolation t' = READ_COMMITTED \<and> 3 \<in> set (tm_active w')
     \<and> classify_version v (cleanup_horizon (active_transactions w') (tm_next_xid w')) (tm_statuses w') = DEAD_VERSION
     \<and> is_visible v s 3 (tm_statuses w')"
proof -
  have inv: "tm_inv two_begun" by (rule steps_inv [OF first_committed_steps(1) start_inv [OF good_start_empty]])
  let ?t = "new_transaction 3 READ_COMMITTED"
  have e: "tm_active two_begun = [2, 3]" "tm_next_xid two_begun = 4" "lw_txns two_begun 3 = Some ?t"
    by (simp_all add: two_begun_def tm_eval)
  have snap: "tm_statement_snapshot 3 two_begun = (Inr (present_snapshot two_begun 3), two_begun)"
    using mk_present_snapshot [OF inv, of 3] e(3)
    by (simp add: tm_statement_snapshot_def sm_bind_def get_txn_def require_usable_def new_transaction_def
        del: set_filter)
  have t: "tx_state ?t = TsACTIVE" "tx_isolation ?t = READ_COMMITTED" by (simp_all add: new_transaction_def)
  have "3 \<in> set (tm_active first_committed)" by (simp add: first_committed_eval)
  moreover have "is_visible version_deleted_by_2 (present_snapshot two_begun 3) 3 (tm_statuses first_committed)"
    by (simp add: is_visible_def version_deleted_by_2_def creator_status_def SYSTEM_XID_def present_snapshot_def e)
  ultimately show ?thesis
    using first_committed_steps first_committed_dead snap e(3) t first_committed_eval(1) by blast
qed

text \<open>
  Claim C2. Commit is durable. Whenever the system crashes, between or inside commits and aborts,
  with whatever prefix of the log file that holds the durable bytes surviving, the log reopens;
  it has the commit record of every transaction that was marked committed and wrote, so an
  acknowledged commit is never lost, and every commit record that had been flushed; and it has a
  commit record only for transactions that were committed, or whose commit was under way: an
  aborted, failed or merely active transaction is never recovered as committed.
\<close>

theorem commit_durable:
  assumes "good_start n statuses wo" and "crash_point (new_txn_manager n statuses wo) op c"
    and "tm_wal c = Some wal" and "lw_txns c x = Some t"
    and "wm_synced wal \<le> m" and "m \<le> length (wm_file wal)"
  shows "\<exists>wal'. wal_open (take m (wm_file wal)) m = Inr wal'
    \<and> (tx_state t = TsCOMMITTED \<and> tx_has_writes t \<longrightarrow> logged wal' x CommitRecord)
    \<and> (durably_logged wal x CommitRecord \<longrightarrow> logged wal' x CommitRecord)
    \<and> (logged wal' x CommitRecord \<longrightarrow> tx_state t = TsCOMMITTED \<or> op = Some x \<and> tx_state t = TsACTIVE)"
proof -
  have "crash_ok op c" by (rule crash_point_ok [OF assms(2) start_inv [OF assms(1)]])
  note d = crash_okD [OF this assms(3)]
  obtain wal' where o: "wal_open (take m (wm_file wal)) m = Inr wal'"
    "wm_entries wal' = filter (\<lambda>d. wr_end_lsn d \<le> m) (wm_entries wal)"
    using wal_open_prefix [of "wm_entries wal" "wm_file wal" m m] d(1) assms(6) by (auto simp: wal_inv_def)
  have "wm_flushed_lsn wal \<le> m" using d(2) assms(5) by (simp add: wal_durable_def)
  then have "logged wal' x CommitRecord" if "durably_logged wal x CommitRecord"
    using that o(2) by (auto simp: durably_logged_def logged_def)
  moreover have "logged wal x CommitRecord" if "logged wal' x CommitRecord"
    using that o(2) by (auto simp: logged_def)
  ultimately show ?thesis using o(1) d(3,4) [OF assms(4)] by blast
qed

text \<open>
  A transaction writes a page and commits; the crash keeps only the bytes that are known to be
  durable.
\<close>

definition demo_key :: page_key where
  "demo_key = heap_page_key 1 0"

definition writer_begun :: txn_manager where
  "writer_begun = snd (tm_begin READ_COMMITTED (new_txn_manager 2 [] (Some empty_log)))"

definition writer_wrote :: txn_manager where
  "writer_wrote = snd (log_page_image 2 (demo_key, replicate PAGE_SIZE 0) writer_begun)"

definition writer_committed :: txn_manager where
  "writer_committed = snd (tm_commit 2 writer_wrote)"

lemma good_start_log: "good_start 2 [] (Some empty_log)"
  using empty_log_ok(1,2) by (simp add: good_start_def status_get_def logged_def empty_log_def)

lemma writer_wrote_facts:
  obtains t wal where "lw_txns writer_wrote 2 = Some t" and "tx_state t = TsACTIVE" and "tx_has_writes t"
    and "tm_wal writer_wrote = Some wal" and "\<not> wm_closed wal" and "wm_end_lsn wal < 2 ^ 64"
    and "txn_steps (new_txn_manager 2 [] (Some empty_log)) writer_wrote"
proof -
  let ?t = "new_transaction 2 READ_COMMITTED" and ?img = "replicate PAGE_SIZE 0 :: bytes"
  have b: "lw_txns writer_begun 2 = Some ?t" "tm_wal writer_begun = Some empty_log"
    by (simp_all add: writer_begun_def tm_begin_def Let_def new_txn_manager_def put_txn_def)
  have k: "valid_page_key demo_key" by (simp add: demo_key_def heap_page_key_def heap_relation_def valid_page_key_def)
  obtain w1 where w1: "wal_append 2 BeginRecord empty_log = (Inr 0, w1)" "wm_end_lsn w1 = 36"
    using wal_append_empty_payload [of empty_log BeginRecord 2] empty_log_ok(3) by (auto simp: empty_log_def)
  have c1: "\<not> wm_closed w1" "wal_inv w1" using wal_append_ok(1,7) [OF empty_log_ok(1) w1(1)] empty_log_ok(3) by auto
  obtain w2 where w2: "wal_append 2 (HeapPageImagesRecord [(demo_key, ?img)]) w1 = (Inr 36, w2)" "wm_end_lsn w2 \<le> 9036"
    using wal_append_image [OF c1(1) k, of ?img 2] w1(2) by auto
  have c2: "\<not> wm_closed w2" using wal_append_ok(7) [OF c1(2) w2(1)] k c1(1) by simp
  have rec: "mk_heap_page_images [(demo_key, ?img)] = Inr (HeapPageImagesRecord [(demo_key, ?img)])"
    by (simp add: mk_heap_page_images_def)
  have st: "log_page_image 2 (demo_key, ?img) writer_begun =
      (Inr (), (put_txn 2 (?t\<lparr>tx_has_writes := True\<rparr>) writer_begun)\<lparr>tm_wal := Some w2\<rparr>)"
    using b w1(1) w2(1) rec
    by (simp add: log_page_image_def sm_bind_def get_txn_def new_transaction_def on_wal_def put_txn_def)
  have "txn_step (new_txn_manager 2 [] (Some empty_log)) writer_begun"
    unfolding writer_begun_def by (rule step_begin) (rule prod.collapse [symmetric])
  moreover have "txn_step writer_begun writer_wrote"
    by (rule step_image [OF _ b(1), of "(demo_key, ?img)"])
      (use k st in \<open>simp_all add: writer_wrote_def unfinished_def new_transaction_def\<close>)
  ultimately have "txn_steps (new_txn_manager 2 [] (Some empty_log)) writer_wrote"
    by (blast intro: steps_refl steps_step)
  then show thesis
    using w2(2) c2 by (intro that [of "?t\<lparr>tx_has_writes := True\<rparr>" w2]) (simp_all add: writer_wrote_def st new_transaction_def)
qed

theorem commit_durable_witness:
  "\<exists>wal wal' t. crash_point (new_txn_manager 2 [] (Some empty_log)) None writer_committed
     \<and> lw_txns writer_committed 2 = Some t \<and> tx_state t = TsCOMMITTED \<and> tx_has_writes t
     \<and> tm_wal writer_committed = Some wal
     \<and> wal_open (take (wm_synced wal) (wm_file wal)) (wm_synced wal) = Inr wal' \<and> logged wal' 2 CommitRecord"
proof -
  obtain t wal where w: "lw_txns writer_wrote 2 = Some t" "tx_state t = TsACTIVE" "tx_has_writes t"
    "tm_wal writer_wrote = Some wal" "\<not> wm_closed wal" "wm_end_lsn wal < 2 ^ 64"
    "txn_steps (new_txn_manager 2 [] (Some empty_log)) writer_wrote"
    by (rule writer_wrote_facts)
  have inv: "tm_inv writer_wrote" by (rule steps_inv [OF w(7) start_inv [OF good_start_log]])
  have cm: "tm_commit 2 writer_wrote = (fst (tm_commit 2 writer_wrote), writer_committed)" by (simp add: writer_committed_def)
  have steps: "txn_steps (new_txn_manager 2 [] (Some empty_log)) writer_committed"
    by (rule steps_step [OF w(7) step_commit [OF w(1,2) cm]])
  obtain w1 where a: "wal_append 2 CommitRecord wal = (Inr (wm_end_lsn wal), w1)"
    using wal_append_empty_payload [OF w(5), of CommitRecord 2] w(6) by auto
  have c1: "\<not> wm_closed w1" using wal_append_ok(7) [OF _ a] tm_wal_ok [OF inv w(4)] w(5) by simp
  obtain w2 where f: "wal_flush (Some (wm_end_lsn w1)) w1 = (Inr (), w2)" using wal_flush_end [OF c1] by blast
  have lg: "log_outcome 2 CommitRecord writer_wrote = (Inr (), writer_wrote\<lparr>tm_wal := Some w2\<rparr>)"
    using a f w(4) by (simp add: log_outcome_eq append_and_flush_def on_wal_def sm_bind_def)
  have up: "update_txn 2 mark_committed (writer_wrote\<lparr>tm_wal := Some w2\<rparr>)
      = (Inr (), put_txn 2 (t\<lparr>tx_state := TsCOMMITTED\<rparr>) (writer_wrote\<lparr>tm_wal := Some w2\<rparr>))"
    using w(1,2) by (simp add: update_txn_def sm_bind_def get_txn_def mark_committed_def)
  have fin: "finish 2 (status_of_state TsCOMMITTED) (put_txn 2 (t\<lparr>tx_state := TsCOMMITTED\<rparr>) (writer_wrote\<lparr>tm_wal := Some w2\<rparr>))
      = (fst (tm_commit 2 writer_wrote), writer_committed)"
    using cm w(1,3) lg up by (simp add: tm_commit_eq sm_bind_def get_txn_def)
  have un: "unfinished t \<or> tx_state t = TsCOMMITTED" using w(2) by (simp add: unfinished_def)
  note fi = finish_inv [of "writer_wrote\<lparr>tm_wal := Some w2\<rparr>" 2 t TsCOMMITTED, OF _ _ _ _ _ un fin]
  have t': "lw_txns writer_committed 2 = Some (t\<lparr>tx_state := TsCOMMITTED, tx_resources := []\<rparr>)"
    and wal': "tm_wal writer_committed = Some w2"
    using fi(5,7) tm_invD [OF inv] w(1) by simp_all
  have cp: "crash_point (new_txn_manager 2 [] (Some empty_log)) None writer_committed" by (rule crash_between [OF steps])
  have "wal_inv w2" using tm_wal_ok [OF steps_inv [OF steps start_inv [OF good_start_log]] wal'] by simp
  then have "wm_synced w2 \<le> length (wm_file w2)" by (simp add: wal_inv_def)
  then show ?thesis
    using commit_durable [OF good_start_log cp wal' t' order_refl] cp t' wal' w(3) by auto
qed

end
