(* ===== verification/Disk.thy ===== *)
theory Disk
  imports Page
begin

text \<open>
  \<open>storage/disk.py\<close>: the relation files and exact page reads and writes. A file is the list
  of bytes the operating system holds for a path, next to the contents its last \<open>fsync\<close>
  made durable. Partial reads and writes of the system calls are loops whose outcome is the
  whole transfer, or the error the code raises at the end of the file; other input/output
  errors are not modelled. Shows that a relation file behaves as an array of pages: what is
  written to one page is read back from it and no other page of any relation changes.
\<close>

section \<open>Paths\<close>

text \<open>\<open>str(n)\<close> for a non-negative integer.\<close>

fun py_str_nat :: "nat \<Rightarrow> string" where
  "py_str_nat n =
     (if n < 10 then [char_of (48 + n)] else py_str_nat (n div 10) @ [char_of (48 + n mod 10)])"

declare py_str_nat.simps [simp del]

definition relation_path :: "relation_id \<Rightarrow> string" where
  "relation_path relation =
     (case rel_fork relation of
        ForkHEAP \<Rightarrow> ''relations/table-'' @ py_str_nat (rel_object_id relation) @ ''.heap''
      | ForkBTREE \<Rightarrow> ''indexes/index-'' @ py_str_nat (rel_object_id relation) @ ''.btree'')"

definition decimal_value :: "string \<Rightarrow> nat" where
  "decimal_value s = foldl (\<lambda>acc c. acc * 10 + (of_char c - 48)) 0 s"

lemma decimal_value_str [simp]: "decimal_value (py_str_nat n) = n"
proof (induction n rule: py_str_nat.induct)
  case (1 n)
  have "decimal_value (py_str_nat n) = n" if "n < 10"
    using that by (simp add: py_str_nat.simps [of n] decimal_value_def)
  moreover have "decimal_value (py_str_nat n) = n" if "\<not> n < 10"
  proof -
    have "of_char (char_of (48 + n mod 10) :: char) = 48 + n mod 10" by simp
    then show ?thesis using 1 that by (simp add: py_str_nat.simps [of n] decimal_value_def)
  qed
  ultimately show ?case by blast
qed

lemma py_str_nat_inj: "py_str_nat m = py_str_nat n \<longleftrightarrow> m = n"
  by (metis decimal_value_str)

lemma relation_path_inj [simp]: "relation_path r = relation_path s \<longleftrightarrow> r = s"
  by (cases r; cases s)
    (auto simp: relation_path_def py_str_nat_inj split: fork_kind.splits)

section \<open>The manager\<close>

text \<open>
  The files by path, the contents each had when it was last synchronised, the relations with a
  cached descriptor, and the closed flag.
\<close>

record disk_manager =
  dm_files :: "string \<rightharpoonup> bytes"
  dm_synced :: "string \<rightharpoonup> bytes"
  dm_descriptors :: "relation_id list"
  dm_closed :: bool

definition disk_open :: "(string \<rightharpoonup> bytes) \<Rightarrow> (string \<rightharpoonup> bytes) \<Rightarrow> disk_manager" where
  "disk_open files synced =
     \<lparr>dm_files = files, dm_synced = synced, dm_descriptors = [], dm_closed = False\<rparr>"

definition disk_ensure_open :: "(disk_manager, unit) sm" where
  "disk_ensure_open d = (res_require (\<not> dm_closed d) DatabaseClosed, d)"

text \<open>A descriptor is named by its relation; opening one creates a missing file.\<close>

definition disk_descriptor :: "relation_id \<Rightarrow> (disk_manager, string) sm" where
  "disk_descriptor relation =
     sm_bind disk_ensure_open (\<lambda>_ d.
     let path = relation_path relation
     in if relation \<in> set (dm_descriptors d) then (Inr path, d)
        else (Inr path,
              d\<lparr>dm_files := (case dm_files d path of
                              None \<Rightarrow> (dm_files d)(path \<mapsto> []) | Some _ \<Rightarrow> dm_files d),
                dm_descriptors := dm_descriptors d @ [relation]\<rparr>))"

text \<open>\<open>os.fstat(descriptor).st_size\<close>, \<open>_pread_exact\<close> and \<open>_pwrite_exact\<close>.\<close>

definition disk_contents :: "disk_manager \<Rightarrow> string \<Rightarrow> bytes" where
  "disk_contents d path = (case dm_files d path of None \<Rightarrow> [] | Some bs \<Rightarrow> bs)"

definition pread_exact :: "string \<Rightarrow> nat \<Rightarrow> nat \<Rightarrow> (disk_manager, bytes) sm" where
  "pread_exact path n off d =
     (let chunk = py_slice (disk_contents d path) off (off + n)
      in if length chunk < n then (Inl CorruptPage, d) else (Inr chunk, d))"

definition pwrite_exact :: "string \<Rightarrow> bytes \<Rightarrow> nat \<Rightarrow> (disk_manager, unit) sm" where
  "pwrite_exact path data off d =
     (Inr (), d\<lparr>dm_files := (dm_files d)(path \<mapsto> file_pwrite (disk_contents d path) off data)\<rparr>)"

definition disk_page_count :: "relation_id \<Rightarrow> (disk_manager, nat) sm" where
  "disk_page_count relation =
     sm_bind (disk_descriptor relation) (\<lambda>path d.
     let sz = length (disk_contents d path)
     in if sz mod PAGE_SIZE \<noteq> 0 then (Inl CorruptPage, d) else (Inr (sz div PAGE_SIZE), d))"

definition default_page_kind :: "relation_id \<Rightarrow> page_kind option \<Rightarrow> page_kind" where
  "default_page_kind relation kind =
     (case kind of Some k \<Rightarrow> k
      | None \<Rightarrow> (if rel_fork relation = ForkHEAP then KindHEAP else KindBTREE_LEAF))"

definition disk_allocate_page :: "relation_id \<Rightarrow> page_kind option \<Rightarrow> (disk_manager, page_key) sm" where
  "disk_allocate_page relation kind =
     sm_bind (disk_page_count relation) (\<lambda>pid.
     sm_bind (sm_lift (mk_page_key relation pid)) (\<lambda>key.
     sm_bind (sm_lift (encode_page key (default_page_kind relation kind) 0 [])) (\<lambda>encoded.
     sm_bind (disk_descriptor relation) (\<lambda>path.
     sm_bind (pwrite_exact path encoded (pid * PAGE_SIZE)) (\<lambda>_.
     sm_return key)))))"

definition disk_read_page :: "page_key \<Rightarrow> (disk_manager, bytes) sm" where
  "disk_read_page key =
     sm_bind (disk_descriptor (key_relation key)) (\<lambda>path.
     sm_bind (pread_exact path PAGE_SIZE (key_page_id key * PAGE_SIZE)) (\<lambda>encoded.
     sm_bind (sm_lift (decode_page key encoded)) (\<lambda>_.
     sm_return encoded)))"

definition disk_write_page :: "page_key \<Rightarrow> bytes \<Rightarrow> (disk_manager, unit) sm" where
  "disk_write_page key encoded =
     sm_bind (sm_lift (decode_page key encoded)) (\<lambda>_.
     sm_bind (disk_page_count (key_relation key)) (\<lambda>n.
     if n \<le> key_page_id key then sm_raise CorruptPage
     else
       sm_bind (disk_descriptor (key_relation key)) (\<lambda>path.
       pwrite_exact path encoded (key_page_id key * PAGE_SIZE))))"

definition disk_repair_page :: "page_key \<Rightarrow> bytes \<Rightarrow> (disk_manager, unit) sm" where
  "disk_repair_page key encoded =
     sm_bind (sm_lift (decode_page key encoded)) (\<lambda>_.
     sm_bind (disk_descriptor (key_relation key)) (\<lambda>path.
     pwrite_exact path encoded (key_page_id key * PAGE_SIZE)))"

definition disk_sync_relation :: "relation_id \<Rightarrow> (disk_manager, unit) sm" where
  "disk_sync_relation relation =
     sm_bind (disk_descriptor relation) (\<lambda>path d.
     (Inr (), d\<lparr>dm_synced := (dm_synced d)(path \<mapsto> disk_contents d path)\<rparr>))"

definition disk_close :: "(disk_manager, unit) sm" where
  "disk_close d =
     (if dm_closed d then (Inr (), d) else (Inr (), d\<lparr>dm_closed := True, dm_descriptors := []\<rparr>))"

section \<open>A relation file as an array of pages\<close>

text \<open>The bytes of a relation, the raw contents of one page position, and the readable page.\<close>

definition rel_bytes :: "disk_manager \<Rightarrow> relation_id \<Rightarrow> bytes" where
  "rel_bytes d r = disk_contents d (relation_path r)"

definition raw_page :: "disk_manager \<Rightarrow> page_key \<Rightarrow> bytes" where
  "raw_page d key =
     py_slice (rel_bytes d (key_relation key)) (key_page_id key * PAGE_SIZE)
       (key_page_id key * PAGE_SIZE + PAGE_SIZE)"

definition disk_page :: "disk_manager \<Rightarrow> page_key \<Rightarrow> bytes option" where
  "disk_page d key =
     (case decode_page key (raw_page d key) of Inl _ \<Rightarrow> None | Inr _ \<Rightarrow> Some (raw_page d key))"

definition disk_pages :: "disk_manager \<Rightarrow> relation_id \<Rightarrow> nat" where
  "disk_pages d r = length (rel_bytes d r) div PAGE_SIZE"

text \<open>Page files hold whole pages.\<close>

definition whole_pages :: "disk_manager \<Rightarrow> relation_id \<Rightarrow> bool" where
  "whole_pages d r \<longleftrightarrow> length (rel_bytes d r) mod PAGE_SIZE = 0"

lemma decode_page_length: "decode_page key p = Inr x \<Longrightarrow> length p = PAGE_SIZE"
  by (rule decode_page_Inr)

lemma PAGE_SIZE_pos [simp]: "0 < PAGE_SIZE" by (simp add: PAGE_SIZE_def)

lemma disk_page_SomeD:
  "disk_page d key = Some p \<Longrightarrow> raw_page d key = p \<and> length p = PAGE_SIZE \<and> (\<exists>x. decode_page key p = Inr x)"
  by (auto simp: disk_page_def decode_page_length split: sum.splits)

text \<open>Opening a descriptor changes no contents.\<close>

lemma disk_descriptor_ok:
  assumes "disk_descriptor r d = (Inr path, d')"
  shows "path = relation_path r" and "rel_bytes d' = rel_bytes d" and "dm_closed d' = dm_closed d"
    and "\<not> dm_closed d" and "dm_synced d' = dm_synced d"
  using assms
  by (auto simp: disk_descriptor_def sm_bind_eq_Inr_iff disk_ensure_open_def Let_def
      rel_bytes_def disk_contents_def fun_eq_iff split: if_splits option.splits)

lemma disk_descriptor_err: "disk_descriptor r d = (Inl e, d') \<longleftrightarrow> dm_closed d \<and> e = DatabaseClosed \<and> d' = d"
  by (auto simp: disk_descriptor_def sm_bind_eq_Inl_iff disk_ensure_open_def Let_def split: if_splits)

lemma disk_descriptor_open:
  assumes "\<not> dm_closed d"
  obtains d' where "disk_descriptor r d = (Inr (relation_path r), d')"
proof (cases "disk_descriptor r d")
  case (Pair res d')
  then show thesis
    using assms that disk_descriptor_err [of r d] disk_descriptor_ok(1) [of r d] by (cases res) auto
qed

text \<open>Two disks that hold the same bytes and are both open or both closed.\<close>

definition disk_eq :: "disk_manager \<Rightarrow> disk_manager \<Rightarrow> bool" where
  "disk_eq d d' \<longleftrightarrow> rel_bytes d' = rel_bytes d \<and> dm_closed d' = dm_closed d \<and> dm_synced d' = dm_synced d"

lemma disk_eq_refl [simp]: "disk_eq d d"
  by (simp add: disk_eq_def)

lemma disk_eq_trans: "disk_eq a b \<Longrightarrow> disk_eq b c \<Longrightarrow> disk_eq a c"
  by (simp add: disk_eq_def)

lemma disk_eqD:
  assumes "disk_eq d d'"
  shows "raw_page d' = raw_page d" "disk_page d' = disk_page d" "disk_pages d' = disk_pages d"
    "whole_pages d' = whole_pages d" "dm_closed d' = dm_closed d" "rel_bytes d' = rel_bytes d"
    "dm_synced d' = dm_synced d"
proof -
  show raw: "raw_page d' = raw_page d" using assms by (simp add: disk_eq_def raw_page_def fun_eq_iff)
  show "disk_page d' = disk_page d" unfolding disk_page_def raw by simp
qed (use assms in \<open>simp_all add: disk_eq_def disk_pages_def whole_pages_def fun_eq_iff\<close>)

lemma disk_descriptor_eq: "disk_descriptor r d = (res, d') \<Longrightarrow> disk_eq d d'"
  by (cases res) (auto simp: disk_descriptor_err disk_eq_def dest: disk_descriptor_ok)

text \<open>The readings of the disk state by the operations that only read.\<close>

lemma disk_page_count_cases:
  assumes "disk_page_count r d = (res, d')"
  shows "disk_eq d d'"
    and "res = (if dm_closed d then Inl DatabaseClosed
                else if whole_pages d r then Inr (disk_pages d r) else Inl CorruptPage)"
proof -
  show "disk_eq d d'"
    using assms by (auto simp: disk_page_count_def sm_bind_def Let_def
        dest: disk_descriptor_eq split: prod.splits sum.splits if_splits)
  show "res = (if dm_closed d then Inl DatabaseClosed
                else if whole_pages d r then Inr (disk_pages d r) else Inl CorruptPage)"
  proof (cases "dm_closed d")
    case True
    then have "disk_descriptor r d = (Inl DatabaseClosed, d)" by (simp add: disk_descriptor_err)
    then show ?thesis using assms True by (simp add: disk_page_count_def sm_bind_def)
  next
    case False
    then obtain d1 where d1: "disk_descriptor r d = (Inr (relation_path r), d1)"
      by (rule disk_descriptor_open)
    have "disk_contents d1 (relation_path r) = rel_bytes d r"
      using disk_descriptor_ok(2) [OF d1] by (metis rel_bytes_def)
    then show ?thesis
      using assms d1 False
      by (auto simp: disk_page_count_def sm_bind_def Let_def whole_pages_def disk_pages_def split: if_splits)
  qed
qed

lemma disk_read_page_cases:
  assumes "disk_read_page key d = (res, d')"
  shows "disk_eq d d'"
    and "res = (if dm_closed d then Inl DatabaseClosed
                else case disk_page d key of None \<Rightarrow> Inl CorruptPage | Some p \<Rightarrow> Inr p)"
proof -
  show eq: "disk_eq d d'"
    using assms by (auto simp: disk_read_page_def pread_exact_def sm_bind_def Let_def
        dest: disk_descriptor_eq split: prod.splits sum.splits if_splits)
  show "res = (if dm_closed d then Inl DatabaseClosed
                else case disk_page d key of None \<Rightarrow> Inl CorruptPage | Some p \<Rightarrow> Inr p)"
  proof (cases "dm_closed d")
    case True
    then have "disk_descriptor (key_relation key) d = (Inl DatabaseClosed, d)"
      by (simp add: disk_descriptor_err)
    then show ?thesis using assms True by (simp add: disk_read_page_def sm_bind_def)
  next
    case False
    then obtain d1 where d1: "disk_descriptor (key_relation key) d = (Inr (relation_path (key_relation key)), d1)"
      by (rule disk_descriptor_open)
    have c: "disk_contents d1 (relation_path (key_relation key)) = rel_bytes d (key_relation key)"
      using disk_descriptor_ok(2) [OF d1] by (metis rel_bytes_def)
    have "raw_page d key = py_slice (rel_bytes d (key_relation key)) (key_page_id key * PAGE_SIZE)
        (key_page_id key * PAGE_SIZE + PAGE_SIZE)" by (simp add: raw_page_def)
    moreover have "decode_page key (raw_page d key) = Inl CorruptPage" if "length (raw_page d key) < PAGE_SIZE"
      using that decode_page_length [of key "raw_page d key"] decode_page_Inl [of key "raw_page d key"]
      by (cases "decode_page key (raw_page d key)") auto
    ultimately show ?thesis
      using assms d1 c False decode_page_Inl [of key "raw_page d key"]
      by (auto simp: disk_read_page_def pread_exact_def sm_bind_def Let_def disk_page_def
          split: if_splits sum.splits)
  qed
qed

text \<open>What a write of one page at its position does.\<close>

definition page_written :: "disk_manager \<Rightarrow> page_key \<Rightarrow> bytes \<Rightarrow> disk_manager \<Rightarrow> bool" where
  "page_written d key p d' \<longleftrightarrow>
     rel_bytes d' (key_relation key) = file_pwrite (rel_bytes d (key_relation key)) (key_page_id key * PAGE_SIZE) p
     \<and> (\<forall>r. r \<noteq> key_relation key \<longrightarrow> rel_bytes d' r = rel_bytes d r) \<and> dm_closed d' = dm_closed d
     \<and> dm_synced d' = dm_synced d"

lemma pwrite_written:
  assumes "pwrite_exact (relation_path (key_relation key)) p (key_page_id key * PAGE_SIZE) d1 = (res, d')"
    and "disk_eq d d1"
  shows "res = Inr ()" and "page_written d key p d'"
proof -
  show "res = Inr ()" using assms(1) by (simp add: pwrite_exact_def)
  have "rel_bytes d1 = rel_bytes d" using disk_eqD [OF assms(2)] by simp
  then show "page_written d key p d'"
    using assms disk_eqD [OF assms(2)]
    by (auto simp: pwrite_exact_def page_written_def rel_bytes_def disk_contents_def fun_eq_iff)
qed

lemma py_slice_pwrite_same:
  "py_slice (file_pwrite contents off p) off (off + length p) = p"
  by (simp add: file_pwrite_def py_slice_def)

lemma py_slice_pwrite_other:
  assumes "b \<le> off \<and> b \<le> length contents \<or> off + length p \<le> a"
  shows "py_slice (file_pwrite contents off p) a b = py_slice contents a b"
proof (cases "b \<le> off \<and> b \<le> length contents")
  case True
  then have "take b (file_pwrite contents off p) = take b contents"
    by (simp add: file_pwrite_def min_def)
  then show ?thesis by (simp add: py_slice_def flip: drop_take)
next
  case False
  then have a: "off + length p \<le> a" using assms by blast
  have "length (take off (contents @ replicate (off - length contents) 0)) = off" by simp
  then have "drop a (file_pwrite contents off p) = drop a contents"
    unfolding file_pwrite_def using a by (simp del: length_take take_append)
  then show ?thesis by (simp add: py_slice_def)
qed

lemma page_written_same:
  assumes "page_written d key p d'" and "length p = PAGE_SIZE"
  shows "raw_page d' key = p"
  using assms py_slice_pwrite_same [of _ "key_page_id key * PAGE_SIZE" p]
  by (simp add: page_written_def raw_page_def)

lemma page_written_other:
  assumes w: "page_written d key p d'" and "length p = PAGE_SIZE" and "key' \<noteq> key"
    and "key_relation key' \<noteq> key_relation key \<or> key_page_id key < key_page_id key'
      \<or> Suc (key_page_id key') * PAGE_SIZE \<le> length (rel_bytes d (key_relation key'))"
  shows "raw_page d' key' = raw_page d key'"
proof (cases "key_relation key' = key_relation key")
  case False
  then show ?thesis using w by (simp add: page_written_def raw_page_def)
next
  case True
  then have ne: "key_page_id key' \<noteq> key_page_id key"
    using assms(3) by (metis page_key.exhaust_sel)
  define a where "a = key_page_id key' * PAGE_SIZE"
  define off where "off = key_page_id key * PAGE_SIZE"
  define L where "L = length (rel_bytes d (key_relation key'))"
  have suc: "m < n \<Longrightarrow> m * PAGE_SIZE + PAGE_SIZE \<le> n * PAGE_SIZE" for m n :: nat
    by (metis Suc_leI add.commute mult_Suc mult_le_mono1)
  have "a + PAGE_SIZE \<le> off \<and> a + PAGE_SIZE \<le> L \<or> off + PAGE_SIZE \<le> a"
    using suc [of "key_page_id key'" "key_page_id key"] suc [of "key_page_id key" "key_page_id key'"]
      ne assms(4) True unfolding a_def off_def L_def by (auto simp: linorder_neq_iff)
  then have "py_slice (file_pwrite (rel_bytes d (key_relation key)) off p) a (a + PAGE_SIZE)
      = py_slice (rel_bytes d (key_relation key)) a (a + PAGE_SIZE)"
    using assms(2) True by (intro py_slice_pwrite_other) (simp add: L_def)
  then show ?thesis
    using w True by (simp add: page_written_def raw_page_def a_def off_def)
qed

lemma page_written_length:
  "page_written d key p d' \<Longrightarrow> length (rel_bytes d' (key_relation key)) =
     max (length (rel_bytes d (key_relation key))) (key_page_id key * PAGE_SIZE + length p)"
  by (simp add: page_written_def length_file_pwrite)

text \<open>The writing operations.\<close>

lemma disk_repair_page_cases:
  assumes "disk_repair_page key p d = (res, d')" and "\<not> dm_closed d" and "decode_page key p = Inr x"
  shows "res = Inr ()" and "page_written d key p d'"
proof -
  obtain d1 where d1: "disk_descriptor (key_relation key) d = (Inr (relation_path (key_relation key)), d1)"
    using disk_descriptor_open [OF assms(2)] by blast
  then have "pwrite_exact (relation_path (key_relation key)) p (key_page_id key * PAGE_SIZE) d1 = (res, d')"
    using assms by (simp add: disk_repair_page_def sm_bind_def)
  then show "res = Inr ()" and "page_written d key p d'"
    using disk_descriptor_eq [OF d1] by (rule pwrite_written)+
qed

lemma disk_write_page_cases:
  assumes "disk_write_page key p d = (res, d')" and "decode_page key p = Inr x"
  shows "(case res of
      Inl e \<Rightarrow> disk_eq d d' \<and> (dm_closed d \<or> \<not> whole_pages d (key_relation key)
                 \<or> disk_pages d (key_relation key) \<le> key_page_id key)
    | Inr _ \<Rightarrow> page_written d key p d' \<and> \<not> dm_closed d \<and> whole_pages d (key_relation key)
                 \<and> key_page_id key < disk_pages d (key_relation key))"
proof -
  obtain r1 d1 where c: "disk_page_count (key_relation key) d = (r1, d1)" by fastforce
  note c' = disk_page_count_cases [OF c]
  show ?thesis
  proof (cases "\<not> dm_closed d \<and> whole_pages d (key_relation key)
      \<and> key_page_id key < disk_pages d (key_relation key)")
    case True
    then have "\<not> dm_closed d1" using disk_eqD [OF c'(1)] by simp
    then obtain d2 where d2: "disk_descriptor (key_relation key) d1 = (Inr (relation_path (key_relation key)), d2)"
      by (rule disk_descriptor_open)
    have "pwrite_exact (relation_path (key_relation key)) p (key_page_id key * PAGE_SIZE) d2 = (res, d')"
      using assms c c'(2) d2 True by (simp add: disk_write_page_def sm_bind_def)
    from pwrite_written [OF this disk_eq_trans [OF c'(1) disk_descriptor_eq [OF d2]]]
    show ?thesis using True by simp
  next
    case False
    then have "(\<exists>e. res = Inl e) \<and> d' = d1"
      using assms c c'(2) by (auto simp: disk_write_page_def sm_bind_def split: if_splits)
    then show ?thesis using c'(1) False by auto
  qed
qed

lemma disk_allocate_page_cases:
  assumes "disk_allocate_page r kind d = (res, d')" and "rel_object_id r < 2 ^ 64"
  shows "(case res of
      Inl e \<Rightarrow> disk_eq d d' \<and> (dm_closed d \<or> \<not> whole_pages d r \<or> 2 ^ 64 \<le> disk_pages d r)
    | Inr key \<Rightarrow> key = PageKey r (disk_pages d r) \<and> valid_page_key key \<and> \<not> dm_closed d \<and> whole_pages d r
        \<and> (\<exists>p. encode_page key (default_page_kind r kind) 0 [] = Inr p \<and> page_written d key p d'))"
proof -
  obtain r1 d1 where c: "disk_page_count r d = (r1, d1)" by fastforce
  note c' = disk_page_count_cases [OF c]
  define key where "key = PageKey r (disk_pages d r)"
  show ?thesis
  proof (cases "\<not> dm_closed d \<and> whole_pages d r \<and> disk_pages d r < 2 ^ 64")
    case True
    have v: "valid_page_key key" using True assms(2) by (simp add: valid_page_key_def key_def)
    obtain p where p: "encode_page key (default_page_kind r kind) 0 [] = Inr p"
      using encode_page_eq [OF v, of 0 "[]"] by auto
    have "\<not> dm_closed d1" using disk_eqD [OF c'(1)] True by simp
    then obtain d2 where d2: "disk_descriptor r d1 = (Inr (relation_path r), d2)" by (rule disk_descriptor_open)
    obtain r3 d3 where w: "pwrite_exact (relation_path (key_relation key)) p (key_page_id key * PAGE_SIZE) d2 = (r3, d3)"
      by fastforce
    note w' = pwrite_written [OF w disk_eq_trans [OF c'(1) disk_descriptor_eq [OF d2]]]
    have "res = Inr key \<and> d' = d3"
      using assms c c'(2) True p d2 w w'(1)
      by (simp add: disk_allocate_page_def sm_bind_def mk_page_key_def validate_uint64_def key_def)
    then show ?thesis using w'(2) v p True by (simp add: key_def)
  next
    case False
    then have "(\<exists>e. res = Inl e) \<and> d' = d1"
      using assms c c'(2)
      by (auto simp: disk_allocate_page_def sm_bind_def mk_page_key_def validate_uint64_def split: if_splits)
    then show ?thesis using c'(1) False by auto
  qed
qed

section \<open>The interface the buffer pool relies on\<close>

text \<open>
  What the buffer pool needs of its page disk (the protocols \<open>PageDisk\<close> and
  \<open>AllocatingPageDisk\<close>): reading returns the page at its address or fails, a write
  changes that page only, an allocated page is fresh and empty, and no failing operation
  changes a page.
\<close>

locale page_disk =
  fixes inv :: "'d \<Rightarrow> bool" and view :: "'d \<Rightarrow> page_key \<Rightarrow> bytes option"
    and reads :: "page_key \<Rightarrow> ('d, bytes) sm" and writes :: "page_key \<Rightarrow> bytes \<Rightarrow> ('d, unit) sm"
    and allocates :: "relation_id \<Rightarrow> page_kind option \<Rightarrow> ('d, page_key) sm"
  assumes read_keeps: "inv d \<Longrightarrow> reads k d = (res, d') \<Longrightarrow> inv d' \<and> view d' = view d"
    and read_result: "inv d \<Longrightarrow> reads k d = (res, d') \<Longrightarrow>
      res = (case view d k of None \<Rightarrow> Inl CorruptPage | Some p \<Rightarrow> Inr p)"
    and write_ok: "inv d \<Longrightarrow> decode_page k p = Inr x \<Longrightarrow> writes k p d = (Inr u, d') \<Longrightarrow>
      inv d' \<and> view d' = (view d)(k \<mapsto> p)"
    and write_err: "inv d \<Longrightarrow> decode_page k p = Inr x \<Longrightarrow> writes k p d = (Inl e, d') \<Longrightarrow>
      inv d' \<and> view d' = view d \<and> view d k = None"
    and allocate_ok: "inv d \<Longrightarrow> rel_object_id r < 2 ^ 64 \<Longrightarrow> allocates r kind d = (Inr k, d') \<Longrightarrow>
      inv d' \<and> view d k = None \<and> valid_page_key k \<and> key_relation k = r
      \<and> (\<exists>p. encode_page k (default_page_kind r kind) 0 [] = Inr p \<and> view d' = (view d)(k \<mapsto> p))"
    and allocate_err: "inv d \<Longrightarrow> rel_object_id r < 2 ^ 64 \<Longrightarrow> allocates r kind d = (Inl e, d') \<Longrightarrow>
      inv d' \<and> view d' = view d"
    and view_decodes: "view d k = Some p \<Longrightarrow> \<exists>x. decode_page k p = Inr x"
begin

lemma write_succeeds:
  assumes "inv d" and "decode_page k p = Inr x" and "view d k = Some q"
  obtains d' where "writes k p d = (Inr (), d')" and "inv d'" and "view d' = (view d)(k \<mapsto> p)"
proof (cases "writes k p d")
  case (Pair res d')
  then show thesis
    using assms that write_ok [of d k p x "()" d'] write_err [of d k p x _ d'] by (cases res) auto
qed

lemma read_after_write:
  assumes "inv d" and "decode_page k p = Inr x" and "writes k p d = (Inr u, d1)"
    and "reads k' d1 = (res, d2)"
  shows "res = (if k' = k then Inr p else (case view d k' of None \<Rightarrow> Inl CorruptPage | Some q \<Rightarrow> Inr q))"
  using write_ok [OF assms(1-3)] read_result [of d1 k' res d2] assms(4) by auto

lemma read_after_allocate:
  assumes "inv d" and "rel_object_id r < 2 ^ 64" and "allocates r kind d = (Inr k, d1)"
    and "reads k d1 = (res, d2)"
  shows "\<exists>p. res = Inr p \<and> encode_page k (default_page_kind r kind) 0 [] = Inr p"
  using allocate_ok [OF assms(1-3)] read_result [of d1 k res d2] assms(4) by auto

end

text \<open>An open disk whose relation files hold whole pages.\<close>

definition disk_inv :: "disk_manager \<Rightarrow> bool" where
  "disk_inv d \<longleftrightarrow> \<not> dm_closed d \<and> (\<forall>r. whole_pages d r)"

lemma disk_inv_eq: "disk_eq d d' \<Longrightarrow> disk_inv d \<Longrightarrow> disk_inv d'"
  using disk_eqD [of d d'] by (simp add: disk_inv_def)

lemma written_whole:
  assumes "disk_inv d" and "page_written d key p d'" and "length p = PAGE_SIZE"
    and "key_page_id key \<le> disk_pages d (key_relation key)"
  shows "disk_inv d'"
proof -
  obtain n where n: "length (rel_bytes d (key_relation key)) = n * PAGE_SIZE"
    using assms(1) unfolding disk_inv_def whole_pages_def by (metis mod_eq_0_iff_dvd dvd_def mult.commute)
  have "length (rel_bytes d' (key_relation key)) = max n (Suc (key_page_id key)) * PAGE_SIZE"
    using page_written_length [OF assms(2)] assms(3) n by (simp add: max_def) (simp add: add.commute flip: mult_Suc)
  then have "whole_pages d' (key_relation key)" by (simp add: whole_pages_def)
  then show ?thesis
    using assms(1,2) unfolding disk_inv_def page_written_def whole_pages_def by metis
qed

lemma disk_page_beyond: "disk_pages d (key_relation k) \<le> key_page_id k \<Longrightarrow> disk_page d k = None"
proof -
  assume a: "disk_pages d (key_relation k) \<le> key_page_id k"
  have "length (rel_bytes d (key_relation k)) < key_page_id k * PAGE_SIZE + PAGE_SIZE"
    using a unfolding disk_pages_def
    by (metis PAGE_SIZE_pos add.commute div_less_iff_less_mult le_imp_less_Suc mult_Suc)
  then have "length (raw_page d k) < PAGE_SIZE" using PAGE_SIZE_pos by (simp add: raw_page_def less_diff_conv2 del: PAGE_SIZE_pos)
  then show ?thesis
    using disk_page_SomeD [of d k] by (cases "disk_page d k") auto
qed

lemma written_view:
  assumes "disk_inv d" and w: "page_written d key p d'" and "decode_page key p = Inr x"
    and "key_page_id key \<le> disk_pages d (key_relation key)"
  shows "disk_page d' = (disk_page d)(key \<mapsto> p)"
proof (rule ext)
  fix k
  have len: "length p = PAGE_SIZE" using assms(3) by (rule decode_page_length)
  show "disk_page d' k = ((disk_page d)(key \<mapsto> p)) k"
  proof (cases "k = key")
    case True
    then show ?thesis using page_written_same [OF w len] assms(3) by (simp add: disk_page_def)
  next
    case False
    have "Suc (key_page_id k) * PAGE_SIZE \<le> length (rel_bytes d (key_relation k))"
      if "key_relation k = key_relation key" "key_page_id k < key_page_id key"
    proof -
      have "Suc (key_page_id k) \<le> disk_pages d (key_relation k)" using that assms(4) by simp
      then show ?thesis unfolding disk_pages_def by (simp add: less_eq_div_iff_mult_less_eq)
    qed
    then have "raw_page d' k = raw_page d k"
      using False by (intro page_written_other [OF w len]) (auto simp: page_key_eq_iff relation_id.expand linorder_neq_iff)
    then show ?thesis using False by (simp add: disk_page_def split: sum.splits)
  qed
qed

interpretation disk: page_disk disk_inv disk_page disk_read_page disk_write_page disk_allocate_page
proof
  fix d d' :: disk_manager and k p x u e r kind and bres :: "bytes result"
  {
    assume "disk_inv d" "disk_read_page k d = (bres, d')"
    then show "disk_inv d' \<and> disk_page d' = disk_page d"
      using disk_read_page_cases(1) disk_inv_eq disk_eqD(2) by blast
  next
    assume "disk_inv d" "disk_read_page k d = (bres, d')"
    then show "bres = (case disk_page d k of None \<Rightarrow> Inl CorruptPage | Some p \<Rightarrow> Inr p)"
      using disk_read_page_cases(2) [of k d bres d'] by (simp add: disk_inv_def)
  next
    assume "disk_inv d" "decode_page k p = Inr x" "disk_write_page k p d = (Inr u, d')"
    then show "disk_inv d' \<and> disk_page d' = (disk_page d)(k \<mapsto> p)"
      using disk_write_page_cases [of k p d "Inr u" d' x] written_whole written_view decode_page_length
      by fastforce
  next
    assume "disk_inv d" "decode_page k p = Inr x" "disk_write_page k p d = (Inl e, d')"
    then show "disk_inv d' \<and> disk_page d' = disk_page d \<and> disk_page d k = None"
      using disk_write_page_cases [of k p d "Inl e" d' x] disk_inv_eq disk_eqD(2) disk_page_beyond
      by (auto simp: disk_inv_def)
  next
    assume a: "disk_inv d" "rel_object_id r < 2 ^ 64" "disk_allocate_page r kind d = (Inr k, d')"
    then obtain p where p: "k = PageKey r (disk_pages d r)" "valid_page_key k"
        "encode_page k (default_page_kind r kind) 0 [] = Inr p" "page_written d k p d'"
      using disk_allocate_page_cases [OF a(3,2)] by auto
    have "length p = PAGE_SIZE" using p(3) by (rule encode_page_length)
    then show "disk_inv d' \<and> disk_page d k = None \<and> valid_page_key k \<and> key_relation k = r
        \<and> (\<exists>p. encode_page k (default_page_kind r kind) 0 [] = Inr p \<and> disk_page d' = (disk_page d)(k \<mapsto> p))"
      using p written_whole [OF a(1) p(4)] written_view [OF a(1) p(4) encode_page_decode [OF p(3,2)]]
        disk_page_beyond [of d k] by auto
  next
    assume "disk_inv d" "rel_object_id r < 2 ^ 64" "disk_allocate_page r kind d = (Inl e, d')"
    then show "disk_inv d' \<and> disk_page d' = disk_page d"
      using disk_allocate_page_cases [of r kind d "Inl e" d'] disk_inv_eq disk_eqD(2) by auto
  next
    assume "disk_page d k = Some p"
    then show "\<exists>x. decode_page k p = Inr x" using disk_page_SomeD by blast
  }
qed

section \<open>Reading after writing\<close>

text \<open>
  On an open disk whose files hold whole pages, writing a valid page succeeds exactly
  when the page is allocated, keeps the files whole, and afterwards every page of every
  relation reads as before, except the written page, which reads as the bytes written.
\<close>

lemma disk_write_read:
  assumes "disk_inv d" and "decode_page key p = Inr x" and "disk_write_page key p d = (res, d')"
  shows "disk_inv d'
    \<and> (res = Inr () \<longleftrightarrow> key_page_id key < disk_pages d (key_relation key))
    \<and> (\<forall>key'. fst (disk_read_page key' d') =
          (if res = Inr () \<and> key' = key then Inr p else fst (disk_read_page key' d)))"
proof -
  have reads: "fst (disk_read_page k e) = (case disk_page e k of None \<Rightarrow> Inl CorruptPage | Some q \<Rightarrow> Inr q)"
    if "disk_inv e" for k e
    using disk.read_result [OF that, of k] by (cases "disk_read_page k e") auto
  have iff: "res = Inr () \<longleftrightarrow> key_page_id key < disk_pages d (key_relation key)"
    using disk_write_page_cases [OF assms(3,2)] assms(1) by (cases res) (auto simp: disk_inv_def)
  show ?thesis
  proof (cases res)
    case (Inl e)
    then have "disk_inv d'" "disk_page d' = disk_page d"
      using disk.write_err [OF assms(1,2)] assms(3) by auto
    then show ?thesis using iff Inl reads assms(1) by simp
  next
    case (Inr u)
    then have "disk_inv d'" "disk_page d' = (disk_page d)(key \<mapsto> p)"
      using disk.write_ok [OF assms(1,2)] assms(3) by auto
    then show ?thesis using iff Inr reads assms(1) by simp
  qed
qed

text \<open>An empty database directory.\<close>

definition fresh_disk :: disk_manager where
  "fresh_disk = disk_open Map.empty Map.empty"

lemma fresh_disk_inv: "disk_inv fresh_disk"
  by (simp add: fresh_disk_def disk_open_def disk_inv_def whole_pages_def rel_bytes_def disk_contents_def)

lemma fresh_disk_allocate:
  obtains d where "disk_allocate_page (heap_relation 7) None fresh_disk = (Inr (heap_page_key 7 0), d)"
    and "disk_inv d" and "disk_pages d (heap_relation 7) = 1"
proof -
  obtain res d where a: "disk_allocate_page (heap_relation 7) None fresh_disk = (res, d)" by fastforce
  have z: "disk_pages fresh_disk r = 0" "\<not> dm_closed fresh_disk" "whole_pages fresh_disk r" for r
    by (simp_all add: fresh_disk_def disk_open_def disk_pages_def rel_bytes_def disk_contents_def whole_pages_def)
  note c = disk_allocate_page_cases [OF a, unfolded heap_relation_def]
  obtain p where p: "res = Inr (heap_page_key 7 0)" "encode_page (heap_page_key 7 0) KindHEAP 0 [] = Inr p"
    "page_written fresh_disk (heap_page_key 7 0) p d"
    using c z by (cases res)
      (auto simp: heap_page_key_def heap_relation_def default_page_kind_def)
  have "length (rel_bytes d (heap_relation 7)) = PAGE_SIZE"
    using page_written_length [OF p(3)] encode_page_length [OF p(2)]
    by (simp add: heap_page_key_def fresh_disk_def disk_open_def rel_bytes_def disk_contents_def)
  then have "disk_pages d (heap_relation 7) = 1" by (simp add: disk_pages_def PAGE_SIZE_def)
  moreover have "disk_inv d"
    using disk.allocate_ok [OF fresh_disk_inv, of "heap_relation 7" None "heap_page_key 7 0" d] a p(1)
    by (simp add: heap_relation_def)
  ultimately show thesis using that a p(1) by simp
qed

end
