(* ===== verification/Replacer.thy ===== *)
theory Replacer
  imports Prelude
begin

text \<open>
  \<open>storage/replacer.py\<close>: the clock sweep that chooses the frame to evict. Shows that the
  bounded loop computes the second-chance policy: the first evictable frame from the hand that
  was not referenced, or else the first evictable one, and nothing exactly when no frame is
  evictable.
\<close>

record clock_replacer =
  ck_referenced :: "bool list"
  ck_evictable :: "bool list"
  ck_hand :: nat

definition mk_clock :: "int \<Rightarrow> clock_replacer result" where
  "mk_clock frame_count =
     (if frame_count \<le> 0 then Inl PyValueError
      else Inr \<lparr>ck_referenced = replicate (nat frame_count) False,
                ck_evictable = replicate (nat frame_count) False, ck_hand = 0\<rparr>)"

definition validate_frame_id :: "nat \<Rightarrow> (clock_replacer, unit) sm" where
  "validate_frame_id frame_id ck = (res_require (frame_id < length (ck_evictable ck)) PyIndexError, ck)"

definition record_access :: "nat \<Rightarrow> (clock_replacer, unit) sm" where
  "record_access frame_id =
     sm_bind (validate_frame_id frame_id) (\<lambda>_.
     sm_modify (\<lambda>ck. ck\<lparr>ck_referenced := (ck_referenced ck)[frame_id := True]\<rparr>))"

definition mark_evictable :: "nat \<Rightarrow> bool \<Rightarrow> (clock_replacer, unit) sm" where
  "mark_evictable frame_id evictable =
     sm_bind (validate_frame_id frame_id) (\<lambda>_.
     sm_modify (\<lambda>ck. ck\<lparr>ck_evictable := (ck_evictable ck)[frame_id := evictable]\<rparr>))"

text \<open>The loop \<open>for _ in range(n)\<close>, one frame per round.\<close>

fun evict_loop :: "nat \<Rightarrow> clock_replacer \<Rightarrow> nat option \<times> clock_replacer" where
  "evict_loop 0 ck = (None, ck)"
| "evict_loop (Suc n) ck =
     (let frame_id = ck_hand ck;
          ck1 = ck\<lparr>ck_hand := (ck_hand ck + 1) mod length (ck_evictable ck)\<rparr>
      in if \<not> ck_evictable ck ! frame_id then evict_loop n ck1
         else if ck_referenced ck ! frame_id
              then evict_loop n (ck1\<lparr>ck_referenced := (ck_referenced ck)[frame_id := False]\<rparr>)
              else (Some frame_id, ck1\<lparr>ck_evictable := (ck_evictable ck)[frame_id := False]\<rparr>))"

definition evict :: "clock_replacer \<Rightarrow> nat option \<times> clock_replacer" where
  "evict ck = evict_loop (length (ck_evictable ck) * 2) ck"

section \<open>The policy\<close>

definition clock_wf :: "clock_replacer \<Rightarrow> bool" where
  "clock_wf ck \<longleftrightarrow>
     length (ck_referenced ck) = length (ck_evictable ck) \<and> ck_hand ck < length (ck_evictable ck)"

text \<open>The frames in the order the hand meets them, and the second-chance choice among them.\<close>

definition sweep_order :: "clock_replacer \<Rightarrow> nat list" where
  "sweep_order ck =
     map (\<lambda>i. (ck_hand ck + i) mod length (ck_evictable ck)) [0..<length (ck_evictable ck)]"

definition second_chance :: "clock_replacer \<Rightarrow> nat option" where
  "second_chance ck =
     (case find (\<lambda>f. ck_evictable ck ! f \<and> \<not> ck_referenced ck ! f) (sweep_order ck) of
        Some f \<Rightarrow> Some f
      | None \<Rightarrow> find (\<lambda>f. ck_evictable ck ! f) (sweep_order ck))"

lemma set_sweep_order:
  assumes "clock_wf ck"
  shows "set (sweep_order ck) = {0..<length (ck_evictable ck)}"
proof -
  define n where "n = length (ck_evictable ck)"
  have h: "ck_hand ck < n" using assms by (simp add: clock_wf_def n_def)
  have "f \<in> (\<lambda>i. (ck_hand ck + i) mod n) ` {0..<n}" if "f < n" for f
  proof (intro image_eqI [of _ _ "(f + (n - ck_hand ck)) mod n"])
    have "(ck_hand ck + (f + (n - ck_hand ck)) mod n) mod n = (f + n) mod n"
      using h by (simp add: mod_add_right_eq)
    then show "f = (ck_hand ck + (f + (n - ck_hand ck)) mod n) mod n" using that by simp
    show "(f + (n - ck_hand ck)) mod n \<in> {0..<n}" using h by simp
  qed
  then show ?thesis using h by (auto simp: sweep_order_def n_def [symmetric])
qed

lemma sweep_positions_distinct:
  assumes "i < k" and "k < n" and "h < n"
  shows "(h + i) mod n \<noteq> (h + k) mod (n :: nat)"
proof
  assume "(h + i) mod n = (h + k) mod n"
  then have "n dvd (h + k) - (h + i)" using assms by (intro mod_eq_dvd_iff_nat [THEN iffD1]) auto
  then have "n dvd k - i" by simp
  then show False using assms by (auto dest: dvd_imp_le)
qed

text \<open>The clock after \<open>k\<close> rounds in which no frame was chosen.\<close>

definition swept :: "nat \<Rightarrow> clock_replacer \<Rightarrow> clock_replacer" where
  "swept k ck = ck\<lparr>
     ck_hand := (ck_hand ck + k) mod length (ck_evictable ck),
     ck_referenced := map (\<lambda>j. ck_referenced ck ! j
        \<and> \<not> (ck_evictable ck ! j \<and> (\<exists>i<k. (ck_hand ck + i) mod length (ck_evictable ck) = j)))
        [0..<length (ck_evictable ck)]\<rparr>"

lemma swept_simps [simp]:
  "ck_evictable (swept k ck) = ck_evictable ck"
  "ck_hand (swept k ck) = (ck_hand ck + k) mod length (ck_evictable ck)"
  by (simp_all add: swept_def)

lemma swept_0: "clock_wf ck \<Longrightarrow> swept 0 ck = ck"
  by (cases ck) (auto simp: swept_def clock_wf_def map_nth cong: map_cong intro!: nth_equalityI)

lemma swept_referenced:
  "j < length (ck_evictable ck) \<Longrightarrow> ck_referenced (swept k ck) ! j \<longleftrightarrow> ck_referenced ck ! j
     \<and> \<not> (ck_evictable ck ! j \<and> (\<exists>i<k. (ck_hand ck + i) mod length (ck_evictable ck) = j))"
  by (simp add: swept_def)

lemma swept_wf: "clock_wf ck \<Longrightarrow> clock_wf (swept k ck)"
  by (auto simp: clock_wf_def swept_def intro!: mod_less_divisor)

lemma evict_loop_swept:
  assumes wf: "clock_wf ck" and "k \<le> length (ck_evictable ck)"
    and "\<And>i. i < k \<Longrightarrow> ck_evictable ck ! ((ck_hand ck + i) mod length (ck_evictable ck)) \<Longrightarrow>
      ck_referenced ck ! ((ck_hand ck + i) mod length (ck_evictable ck))"
  shows "evict_loop (k + m) ck = evict_loop m (swept k ck)"
  using assms(2,3)
proof (induction k arbitrary: m)
  case 0
  then show ?case by (simp add: swept_0 [OF wf])
next
  case (Suc k)
  define n where "n = length (ck_evictable ck)"
  define f where "f = (ck_hand ck + k) mod n"
  have n: "ck_hand ck < n" "length (ck_referenced ck) = n" using wf by (auto simp: clock_wf_def n_def)
  have fn: "f < n" using n by (simp add: f_def)
  have "evict_loop (Suc k + m) ck = evict_loop (Suc m) (swept k ck)"
    using Suc.IH [of "Suc m"] Suc.prems by simp
  also have "\<dots> = evict_loop m (swept (Suc k) ck)"
  proof -
    have nodup: "(ck_hand ck + i) mod n \<noteq> f" if "i < k" for i
      using sweep_positions_distinct [of i k n "ck_hand ck"] that Suc.prems(1) n by (simp add: f_def n_def)
    then have still: "ck_referenced (swept k ck) ! f = ck_referenced ck ! f"
      using swept_referenced [of f ck k] fn by (auto simp: n_def)
    have hand: "Suc ((ck_hand ck + k) mod n) mod n = Suc (ck_hand ck + k) mod n" by (simp add: mod_Suc_eq)
    have nochange: "swept k ck\<lparr>ck_hand := Suc (ck_hand ck + k) mod n\<rparr> = swept (Suc k) ck"
      if "\<not> ck_evictable ck ! f"
    proof -
      have "ck_referenced (swept k ck) = ck_referenced (swept (Suc k) ck)"
        using that by (intro nth_equalityI) (auto simp: swept_def f_def n_def [symmetric] less_Suc_eq)
      then show ?thesis by (simp add: swept_def n_def)
    qed
    have cleared: "(ck_referenced (swept k ck))[f := False] = ck_referenced (swept (Suc k) ck)"
      if "ck_evictable ck ! f"
      using that fn
      by (intro nth_equalityI)
        (auto simp: swept_def f_def n_def [symmetric] less_Suc_eq nth_list_update)
    have clear: "swept k ck\<lparr>ck_hand := Suc (ck_hand ck + k) mod n, ck_referenced := (ck_referenced (swept k ck))[f := False]\<rparr>
        = swept (Suc k) ck"
      if "ck_evictable ck ! f"
      unfolding cleared [OF that] by (simp add: swept_def n_def)
    show ?thesis
      using Suc.prems(2) [of k] still nochange clear hand
      by (simp add: Let_def f_def n_def [symmetric])
  qed
  finally show ?case .
qed

text \<open>A round that chooses.\<close>

lemma evict_loop_hit:
  "ck_evictable ck ! ck_hand ck \<Longrightarrow> \<not> ck_referenced ck ! ck_hand ck \<Longrightarrow>
   evict_loop (Suc m) ck = (Some (ck_hand ck),
     ck\<lparr>ck_hand := (ck_hand ck + 1) mod length (ck_evictable ck),
        ck_evictable := (ck_evictable ck)[ck_hand ck := False]\<rparr>)"
  by (simp add: Let_def)

lemma find_map_upt_None:
  "find P (map g [0..<n]) = None \<longleftrightarrow> (\<forall>i<n. \<not> P (g i))"
  by (auto simp: find_None_iff)

lemma find_map_upt_Some:
  "find P (map g [0..<n]) = Some x \<Longrightarrow> \<exists>k<n. x = g k \<and> P (g k) \<and> (\<forall>i<k. \<not> P (g i))"
  by (auto simp: find_Some_iff)

text \<open>The result of the sweep, with the clock it leaves.\<close>

lemma evict_result:
  assumes wf: "clock_wf ck"
  shows "\<exists>ck'. evict ck = (second_chance ck, ck') \<and> clock_wf ck'
    \<and> ck_evictable ck' = (case second_chance ck of None \<Rightarrow> ck_evictable ck
                          | Some f \<Rightarrow> (ck_evictable ck)[f := False])"
proof -
  define n where "n = length (ck_evictable ck)"
  define g where "g = (\<lambda>i. (ck_hand ck + i) mod n)"
  have n: "ck_hand ck < n" using wf by (simp add: clock_wf_def n_def)
  have order: "sweep_order ck = map g [0..<n]" by (simp add: sweep_order_def g_def n_def)
  have hit: "\<exists>ck'. evict_loop (Suc m) c = (Some f, ck') \<and> clock_wf ck' \<and> ck_evictable ck' = (ck_evictable ck)[f := False]"
    if "clock_wf c" "ck_evictable c = ck_evictable ck" "ck_hand c = f" "ck_evictable ck ! f" "\<not> ck_referenced c ! f" for m c f
    using that evict_loop_hit [of c m] n by (auto simp: clock_wf_def n_def intro!: mod_less_divisor)
  show ?thesis
  proof (cases "find (\<lambda>f. ck_evictable ck ! f \<and> \<not> ck_referenced ck ! f) (sweep_order ck)")
    case (Some f)
    obtain k where k: "k < n" "f = g k" "ck_evictable ck ! f" "\<not> ck_referenced ck ! f"
      "\<forall>i<k. \<not> (ck_evictable ck ! g i \<and> \<not> ck_referenced ck ! g i)"
      using find_map_upt_Some [OF Some [unfolded order]] by auto
    have s: "n * 2 = k + Suc (n * 2 - k - 1)" using k(1) by simp
    have "evict ck = evict_loop (Suc (n * 2 - k - 1)) (swept k ck)"
      unfolding evict_def n_def [symmetric]
      by (subst s, rule evict_loop_swept [OF wf]) (use k(1,5) in \<open>auto simp: n_def g_def\<close>)
    moreover have "\<not> ck_referenced (swept k ck) ! f"
      using k n by (subst swept_referenced) (auto simp: g_def n_def intro!: mod_less_divisor)
    ultimately show ?thesis
      using hit [of "swept k ck" f] swept_wf [OF wf] k Some
      by (auto simp: second_chance_def g_def n_def)
  next
    case None
    then have refd: "\<forall>i<n. ck_evictable ck ! g i \<longrightarrow> ck_referenced ck ! g i"
      unfolding order find_map_upt_None by blast
    define c where "c = swept n ck"
    have c: "clock_wf c" "ck_evictable c = ck_evictable ck" "ck_hand c = ck_hand ck"
      using swept_wf [OF wf] n by (auto simp: c_def n_def)
    have loop: "evict ck = evict_loop n c"
      unfolding evict_def n_def [symmetric] c_def mult_2_right
      by (rule evict_loop_swept [OF wf]) (use refd in \<open>auto simp: n_def g_def\<close>)
    have clear: "\<not> ck_referenced c ! g i" if "i < n" "ck_evictable ck ! g i" for i
      using that n unfolding c_def by (subst swept_referenced) (auto simp: g_def n_def intro!: mod_less_divisor)
    have sc: "second_chance ck = find (\<lambda>f. ck_evictable ck ! f) (map g [0..<n])"
      using None by (simp add: second_chance_def order)
    show ?thesis
    proof (cases "find (\<lambda>f. ck_evictable ck ! f) (map g [0..<n])")
      case (Some f)
      obtain k where k: "k < n" "f = g k" "ck_evictable ck ! f" "\<forall>i<k. \<not> ck_evictable ck ! g i"
        using find_map_upt_Some [OF Some] by auto
      have s: "n = k + Suc (n - k - 1)" using k(1) by simp
      have "evict_loop n c = evict_loop (Suc (n - k - 1)) (swept k c)"
        by (subst s, rule evict_loop_swept [OF c(1)]) (use k(1,4) c in \<open>auto simp: n_def g_def\<close>)
      moreover have "\<not> ck_referenced (swept k c) ! f"
        using k c n clear by (subst swept_referenced) (auto simp: g_def n_def intro!: mod_less_divisor)
      ultimately show ?thesis
        using hit [of "swept k c" f] swept_wf [OF c(1)] k c Some sc loop
        by (auto simp: g_def n_def)
    next
      case None
      then have "\<forall>i<n. \<not> ck_evictable ck ! g i" unfolding find_map_upt_None .
      then have "evict_loop (n + 0) c = evict_loop 0 (swept n c)"
        by (intro evict_loop_swept [OF c(1)]) (use c in \<open>auto simp: n_def g_def\<close>)
      then show ?thesis using None sc loop swept_wf [OF c(1)] c(2) by simp
    qed
  qed
qed

lemma second_chance_Some:
  assumes "clock_wf ck" and "second_chance ck = Some f"
  shows "f < length (ck_evictable ck)" and "ck_evictable ck ! f"
    and "ck_referenced ck ! f \<Longrightarrow> g < length (ck_evictable ck) \<Longrightarrow> ck_evictable ck ! g \<Longrightarrow> ck_referenced ck ! g"
proof -
  have "f \<in> set (sweep_order ck) \<and> ck_evictable ck ! f"
    using assms(2) by (auto simp: second_chance_def find_Some_iff split: option.splits)
  then show "f < length (ck_evictable ck)" and "ck_evictable ck ! f"
    using set_sweep_order [OF assms(1)] by auto
  show "ck_referenced ck ! g"
    if "ck_referenced ck ! f" "g < length (ck_evictable ck)" "ck_evictable ck ! g"
  proof -
    have "find (\<lambda>f. ck_evictable ck ! f \<and> \<not> ck_referenced ck ! f) (sweep_order ck) = None"
      using assms(2) that(1) by (auto simp: second_chance_def find_Some_iff split: option.splits)
    then show ?thesis using that set_sweep_order [OF assms(1)] by (auto simp: find_None_iff)
  qed
qed

lemma second_chance_None:
  assumes "clock_wf ck"
  shows "second_chance ck = None \<longleftrightarrow> (\<forall>f < length (ck_evictable ck). \<not> ck_evictable ck ! f)"
proof (cases "second_chance ck")
  case None
  then show ?thesis
    using set_sweep_order [OF assms] by (auto simp: second_chance_def find_None_iff split: option.splits)
next
  case (Some f)
  then show ?thesis using second_chance_Some(1,2) [OF assms Some] by auto
qed

text \<open>
  Claim C23. Within two sweeps the clock picks the second-chance victim: the first evictable frame
  from the hand whose reference bit is clear, and if every evictable frame was referenced the
  first evictable one. The victim is never a pinned frame, it stops being evictable and no other
  frame changes eligibility, and no victim is found exactly when no frame is evictable.
\<close>

theorem clock_evict_second_chance:
  assumes "clock_wf ck"
  shows "\<exists>ck'. evict ck = (second_chance ck, ck') \<and> clock_wf ck'
    \<and> (case second_chance ck of
         None \<Rightarrow> ck_evictable ck' = ck_evictable ck \<and> (\<forall>f < length (ck_evictable ck). \<not> ck_evictable ck ! f)
       | Some f \<Rightarrow> f < length (ck_evictable ck) \<and> ck_evictable ck ! f
           \<and> ck_evictable ck' = (ck_evictable ck)[f := False]
           \<and> (ck_referenced ck ! f \<longrightarrow>
                (\<forall>g < length (ck_evictable ck). ck_evictable ck ! g \<longrightarrow> ck_referenced ck ! g)))"
  using evict_result [OF assms] second_chance_Some [OF assms] second_chance_None [OF assms]
  by (cases "second_chance ck") auto

theorem clock_evict_second_chance_witness:
  "\<exists>ck'. evict \<lparr>ck_referenced = [True, True, False], ck_evictable = [True, False, True], ck_hand = 0\<rparr> = (Some 2, ck')
     \<and> ck_evictable ck' = [True, False, False]"
proof -
  define ck where "ck = \<lparr>ck_referenced = [True, True, False], ck_evictable = [True, False, True], ck_hand = 0\<rparr>"
  have "clock_wf ck" by (simp add: ck_def clock_wf_def)
  moreover have "second_chance ck = Some 2"
    by (simp add: second_chance_def sweep_order_def ck_def upt_rec numeral_2_eq_2)
  ultimately show ?thesis
    using clock_evict_second_chance [of ck] by (auto simp: ck_def)
qed

end
