(* ===== verification/Buffer.thy ===== *)
theory Buffer
  imports Disk Replacer Wal_Manager
begin

text \<open>
  \<open>storage/buffer.py\<close>: the pool of page frames between the clients and the disk. One method
  call is atomic (the pool's lock is held throughout). The disk is the model of
  \<open>storage/disk.py\<close> and the flush gate is the log's \<open>flush\<close>, as the engine wires it,
  or the default gate of a pool without a log; crash-injection points do nothing.
  Shows that the pool implements an array of pages: fetching, evicting and flushing never change
  the logical contents, a pinned frame keeps its page, publishing changes exactly one page, and a
  page reaches the disk only after the log records up to its LSN are durable.
\<close>

section \<open>State\<close>

record frame =
  fr_key :: "page_key option"
  fr_bytes :: bytes
  fr_lsn :: nat
  fr_pin :: nat
  fr_dirty :: bool

record buffer_pool =
  bp_disk :: disk_manager
  bp_wal :: "wal_manager option"
  bp_frames :: "frame list"
  bp_table :: "(page_key \<times> nat) list"
  bp_free :: "nat list"
  bp_clock :: clock_replacer

record page_guard =
  pg_frame_id :: nat
  pg_key :: page_key
  pg_released :: bool

record frame_snapshot =
  fs_frame_id :: nat
  fs_key :: page_key
  fs_lsn :: nat
  fs_pin :: nat
  fs_dirty :: bool

text \<open>Running a component's operation inside the pool, and \<open>except BaseException: h; raise\<close>.\<close>

definition on_disk :: "(disk_manager, 'a) sm \<Rightarrow> (buffer_pool, 'a) sm" where
  "on_disk m b = (case m (bp_disk b) of (r, d) \<Rightarrow> (r, b\<lparr>bp_disk := d\<rparr>))"

definition on_clock :: "(clock_replacer, 'a) sm \<Rightarrow> (buffer_pool, 'a) sm" where
  "on_clock m b = (case m (bp_clock b) of (r, c) \<Rightarrow> (r, b\<lparr>bp_clock := c\<rparr>))"

definition sm_cleanup :: "('s, 'a) sm \<Rightarrow> ('s, unit) sm \<Rightarrow> ('s, 'a) sm" where
  "sm_cleanup m h s =
     (case m s of
        (Inr x, s') \<Rightarrow> (Inr x, s')
      | (Inl e, s') \<Rightarrow> (case h s' of (Inl e', t) \<Rightarrow> (Inl e', t) | (Inr _, t) \<Rightarrow> (Inl e, t)))"

definition frame_at :: "nat \<Rightarrow> (buffer_pool, frame) sm" where
  "frame_at i b = (if i < length (bp_frames b) then (Inr (bp_frames b ! i), b) else (Inl PyIndexError, b))"

definition put_frame :: "nat \<Rightarrow> frame \<Rightarrow> buffer_pool \<Rightarrow> buffer_pool" where
  "put_frame i fr b = b\<lparr>bp_frames := (bp_frames b)[i := fr]\<rparr>"

section \<open>Operations\<close>

definition empty_frame :: frame where
  "empty_frame = \<lparr>fr_key = None, fr_bytes = [], fr_lsn = 0, fr_pin = 0, fr_dirty = False\<rparr>"

definition mk_buffer_pool :: "disk_manager \<Rightarrow> int \<Rightarrow> wal_manager option \<Rightarrow> buffer_pool result" where
  "mk_buffer_pool disk frame_count wal =
     (if frame_count \<le> 0 then Inl PyValueError
      else res_bind (mk_clock frame_count) (\<lambda>clock.
        Inr \<lparr>bp_disk = disk, bp_wal = wal, bp_frames = replicate (nat frame_count) empty_frame,
             bp_table = [], bp_free = [0..<nat frame_count], bp_clock = clock\<rparr>))"

definition resident_page_count :: "buffer_pool \<Rightarrow> nat" where
  "resident_page_count b = length (bp_table b)"

definition bp_page_count :: "relation_id \<Rightarrow> (buffer_pool, nat) sm" where
  "bp_page_count relation = on_disk (disk_page_count relation)"

text \<open>The flush gate: \<open>WalManager.flush\<close>, or \<open>_no_wal_yet\<close> for a pool without a log.\<close>

definition wal_flush_gate :: "nat \<Rightarrow> (buffer_pool, unit) sm" where
  "wal_flush_gate lsn b =
     (case bp_wal b of
        None \<Rightarrow> (res_require (lsn = 0) PyRuntimeError, b)
      | Some w \<Rightarrow> (case wal_flush (Some lsn) w of (r, w') \<Rightarrow> (r, b\<lparr>bp_wal := Some w'\<rparr>)))"

definition flush_frame :: "nat \<Rightarrow> (buffer_pool, unit) sm" where
  "flush_frame i =
     sm_bind (frame_at i) (\<lambda>fr.
     if \<not> fr_dirty fr then sm_return ()
     else
       case fr_key fr of
         None \<Rightarrow> sm_raise PyAssertionError
       | Some key \<Rightarrow>
           sm_bind (wal_flush_gate (fr_lsn fr)) (\<lambda>_.
           sm_bind (on_disk (disk_write_page key (fr_bytes fr))) (\<lambda>_.
           sm_modify (put_frame i (fr\<lparr>fr_dirty := False\<rparr>)))))"

definition select_frame :: "(buffer_pool, nat \<times> bool) sm" where
  "select_frame b =
     (case bp_free b of
        f # rest \<Rightarrow> (Inr (f, True), b\<lparr>bp_free := rest\<rparr>)
      | [] \<Rightarrow>
          (case evict (bp_clock b) of
             (None, c) \<Rightarrow> (Inl BufferPoolFull, b\<lparr>bp_clock := c\<rparr>)
           | (Some victim, c) \<Rightarrow> (Inr (victim, False), b\<lparr>bp_clock := c\<rparr>)))"

text \<open>The body of the \<open>try\<close> in \<open>fetch_page\<close>, and its handler.\<close>

definition load_page :: "nat \<Rightarrow> page_key \<Rightarrow> (buffer_pool, bytes \<times> decoded_page) sm" where
  "load_page i key =
     sm_bind (frame_at i) (\<lambda>fr.
     sm_bind (if fr_key fr \<noteq> None then flush_frame i else sm_return ()) (\<lambda>_.
     sm_bind (on_disk (disk_read_page key)) (\<lambda>page_bytes.
     sm_bind (sm_lift (decode_page key page_bytes)) (\<lambda>decoded.
     sm_return (page_bytes, decoded)))))"

definition undo_select :: "nat \<Rightarrow> bool \<Rightarrow> (buffer_pool, unit) sm" where
  "undo_select i from_free_list =
     (if from_free_list then sm_modify (\<lambda>b. b\<lparr>bp_free := i # bp_free b\<rparr>)
      else on_clock (mark_evictable i True))"

definition forget_key :: "page_key option \<Rightarrow> (buffer_pool, unit) sm" where
  "forget_key k b =
     (case k of
        None \<Rightarrow> (Inr (), b)
      | Some key \<Rightarrow>
          (if map_of (bp_table b) key = None then (Inl PyKeyError, b)
           else (Inr (), b\<lparr>bp_table := AList.delete key (bp_table b)\<rparr>)))"

definition fetch_page :: "page_key \<Rightarrow> (buffer_pool, page_guard) sm" where
  "fetch_page key =
     sm_bind (sm_get (\<lambda>b. map_of (bp_table b) key)) (\<lambda>resident.
     case resident of
       Some i \<Rightarrow>
         sm_bind (frame_at i) (\<lambda>fr.
         sm_bind (sm_modify (put_frame i (fr\<lparr>fr_pin := fr_pin fr + 1\<rparr>))) (\<lambda>_.
         sm_bind (on_clock (mark_evictable i False)) (\<lambda>_.
         sm_bind (on_clock (record_access i)) (\<lambda>_.
         sm_return \<lparr>pg_frame_id = i, pg_key = key, pg_released = False\<rparr>))))
     | None \<Rightarrow>
         sm_bind select_frame (\<lambda>(i, from_free_list).
         sm_bind (sm_cleanup (load_page i key) (undo_select i from_free_list)) (\<lambda>(page_bytes, decoded).
         sm_bind (frame_at i) (\<lambda>fr.
         sm_bind (forget_key (fr_key fr)) (\<lambda>_.
         sm_bind (sm_modify (put_frame i \<lparr>fr_key = Some key, fr_bytes = page_bytes,
           fr_lsn = dp_lsn decoded, fr_pin = 1, fr_dirty = False\<rparr>)) (\<lambda>_.
         sm_bind (sm_modify (\<lambda>b. b\<lparr>bp_table := AList.update key i (bp_table b)\<rparr>)) (\<lambda>_.
         sm_bind (on_clock (record_access i)) (\<lambda>_.
         sm_bind (on_clock (mark_evictable i False)) (\<lambda>_.
         sm_return \<lparr>pg_frame_id = i, pg_key = key, pg_released = False\<rparr>)))))))))"

definition new_page :: "relation_id \<Rightarrow> page_kind option \<Rightarrow> (buffer_pool, page_guard) sm" where
  "new_page relation kind = sm_bind (on_disk (disk_allocate_page relation kind)) fetch_page"

definition resident_frame :: "page_key \<Rightarrow> (buffer_pool, nat) sm" where
  "resident_frame key b =
     (case map_of (bp_table b) key of None \<Rightarrow> (Inl PyKeyError, b) | Some i \<Rightarrow> (Inr i, b))"

definition bp_pin_count :: "page_key \<Rightarrow> (buffer_pool, nat) sm" where
  "bp_pin_count key =
     sm_bind (resident_frame key) (\<lambda>i. sm_bind (frame_at i) (\<lambda>fr. sm_return (fr_pin fr)))"

definition bp_frame :: "page_key \<Rightarrow> (buffer_pool, frame_snapshot) sm" where
  "bp_frame key =
     sm_bind (resident_frame key) (\<lambda>i.
     sm_bind (frame_at i) (\<lambda>fr.
     case fr_key fr of
       None \<Rightarrow> sm_raise PyAssertionError
     | Some k \<Rightarrow> sm_return \<lparr>fs_frame_id = i, fs_key = k, fs_lsn = fr_lsn fr, fs_pin = fr_pin fr,
                            fs_dirty = fr_dirty fr\<rparr>))"

definition flush_page :: "page_key \<Rightarrow> (buffer_pool, unit) sm" where
  "flush_page key = sm_bind (resident_frame key) flush_frame"

text \<open>\<open>for frame in self._frames: if frame.key is not None: self._flush_frame(frame)\<close>\<close>

fun flush_frames :: "nat list \<Rightarrow> (buffer_pool, unit) sm" where
  "flush_frames [] = sm_return ()"
| "flush_frames (i # is) =
     sm_bind (frame_at i) (\<lambda>fr.
     sm_bind (if fr_key fr \<noteq> None then flush_frame i else sm_return ()) (\<lambda>_.
     flush_frames is))"

definition flush_all :: "(buffer_pool, unit) sm" where
  "flush_all b = flush_frames [0..<length (bp_frames b)] b"

definition guarded_frame :: "nat \<Rightarrow> page_key \<Rightarrow> (buffer_pool, frame) sm" where
  "guarded_frame i key =
     sm_bind (frame_at i) (\<lambda>fr.
     if fr_key fr \<noteq> Some key \<or> fr_pin fr \<le> 0 then sm_raise DatabaseClosed else sm_return fr)"

definition guard_page_bytes :: "nat \<Rightarrow> page_key \<Rightarrow> (buffer_pool, bytes) sm" where
  "guard_page_bytes i key = sm_bind (guarded_frame i key) (\<lambda>fr. sm_return (fr_bytes fr))"

definition guard_replace_bytes :: "nat \<Rightarrow> page_key \<Rightarrow> bytes \<Rightarrow> (buffer_pool, unit) sm" where
  "guard_replace_bytes i key page_bytes =
     sm_bind (guarded_frame i key) (\<lambda>fr.
     sm_bind (sm_lift (decode_page key page_bytes)) (\<lambda>decoded.
     if dp_lsn decoded < fr_lsn fr then sm_raise PyValueError
     else sm_modify (put_frame i (fr\<lparr>fr_bytes := page_bytes, fr_lsn := dp_lsn decoded\<rparr>))))"

definition guard_mark_dirty :: "nat \<Rightarrow> page_key \<Rightarrow> nat \<Rightarrow> (buffer_pool, unit) sm" where
  "guard_mark_dirty i key lsn =
     sm_bind (guarded_frame i key) (\<lambda>fr.
     if lsn < fr_lsn fr then sm_raise PyValueError
     else
       sm_bind (sm_lift (decode_page key (fr_bytes fr))) (\<lambda>decoded.
       sm_bind (sm_lift (encode_page key (dp_kind decoded) lsn (dp_body decoded))) (\<lambda>page_bytes.
       sm_modify (put_frame i (fr\<lparr>fr_bytes := page_bytes, fr_lsn := lsn, fr_dirty := True\<rparr>)))))"

definition release_guard :: "nat \<Rightarrow> page_key \<Rightarrow> (buffer_pool, unit) sm" where
  "release_guard i key =
     sm_bind (guarded_frame i key) (\<lambda>fr.
     if fr_pin fr \<le> 0 then sm_raise PyRuntimeError
     else
       sm_bind (sm_modify (put_frame i (fr\<lparr>fr_pin := fr_pin fr - 1\<rparr>))) (\<lambda>_.
       if fr_pin fr - 1 = 0 then on_clock (mark_evictable i True) else sm_return ()))"

text \<open>The methods of \<open>PageGuard\<close>; \<open>release\<close> also returns the guard it leaves.\<close>

definition guard_ensure_active :: "page_guard \<Rightarrow> unit result" where
  "guard_ensure_active g = res_require (\<not> pg_released g) DatabaseClosed"

definition pg_page_bytes :: "page_guard \<Rightarrow> (buffer_pool, bytes) sm" where
  "pg_page_bytes g =
     sm_bind (sm_lift (guard_ensure_active g)) (\<lambda>_. guard_page_bytes (pg_frame_id g) (pg_key g))"

definition pg_replace_bytes :: "page_guard \<Rightarrow> bytes \<Rightarrow> (buffer_pool, unit) sm" where
  "pg_replace_bytes g page_bytes =
     sm_bind (sm_lift (guard_ensure_active g)) (\<lambda>_. guard_replace_bytes (pg_frame_id g) (pg_key g) page_bytes)"

definition pg_mark_dirty :: "page_guard \<Rightarrow> nat \<Rightarrow> (buffer_pool, unit) sm" where
  "pg_mark_dirty g lsn =
     sm_bind (sm_lift (guard_ensure_active g)) (\<lambda>_. guard_mark_dirty (pg_frame_id g) (pg_key g) lsn)"

definition pg_release :: "page_guard \<Rightarrow> (buffer_pool, page_guard) sm" where
  "pg_release g =
     (if pg_released g then sm_return g
      else sm_bind (release_guard (pg_frame_id g) (pg_key g)) (\<lambda>_. sm_return (g\<lparr>pg_released := True\<rparr>)))"

text \<open>
  How the heap and the B+Tree change a page they hold a guard of
  (\<open>guard.replace_bytes(encoded); guard.mark_dirty(page_lsn)\<close>).
\<close>

definition publish_bytes :: "page_guard \<Rightarrow> bytes \<Rightarrow> nat \<Rightarrow> (buffer_pool, unit) sm" where
  "publish_bytes g page_bytes lsn =
     sm_bind (pg_replace_bytes g page_bytes) (\<lambda>_. pg_mark_dirty g lsn)"

section \<open>Invariant and logical contents\<close>

text \<open>
  Every resident page decodes at its key with the LSN of its frame, is allocated on disk, and is
  on disk as it is in the frame unless the frame is dirty.
\<close>

definition frame_ok :: "disk_manager \<Rightarrow> frame \<Rightarrow> bool" where
  "frame_ok d fr \<longleftrightarrow>
     (case fr_key fr of
        None \<Rightarrow> \<not> fr_dirty fr \<and> fr_pin fr = 0
      | Some k \<Rightarrow> valid_page_key k \<and> disk_page d k \<noteq> None
          \<and> (\<exists>x. decode_page k (fr_bytes fr) = Inr x \<and> dp_lsn x = fr_lsn fr)
          \<and> (\<not> fr_dirty fr \<longrightarrow> disk_page d k = Some (fr_bytes fr)))"

definition table_ok :: "buffer_pool \<Rightarrow> bool" where
  "table_ok b \<longleftrightarrow>
     distinct (map fst (bp_table b))
     \<and> (\<forall>k i. map_of (bp_table b) k = Some i \<longleftrightarrow>
          i < length (bp_frames b) \<and> fr_key (bp_frames b ! i) = Some k)"

definition bp_core :: "buffer_pool \<Rightarrow> bool" where
  "bp_core b \<longleftrightarrow>
     disk_inv (bp_disk b) \<and> table_ok b
     \<and> (\<forall>i < length (bp_frames b). frame_ok (bp_disk b) (bp_frames b ! i))"

definition free_ok :: "buffer_pool \<Rightarrow> bool" where
  "free_ok b \<longleftrightarrow>
     distinct (bp_free b)
     \<and> (\<forall>i. i \<in> set (bp_free b) \<longleftrightarrow> i < length (bp_frames b) \<and> fr_key (bp_frames b ! i) = None)"

text \<open>A frame is offered to the clock exactly when it holds a page nobody has pinned.\<close>

definition pins_ok :: "buffer_pool \<Rightarrow> bool" where
  "pins_ok b \<longleftrightarrow>
     clock_wf (bp_clock b) \<and> length (ck_evictable (bp_clock b)) = length (bp_frames b)
     \<and> (\<forall>i < length (bp_frames b). ck_evictable (bp_clock b) ! i \<longleftrightarrow>
          fr_key (bp_frames b ! i) \<noteq> None \<and> fr_pin (bp_frames b ! i) = 0)"

definition bp_inv :: "buffer_pool \<Rightarrow> bool" where
  "bp_inv b \<longleftrightarrow> bp_core b \<and> free_ok b \<and> pins_ok b"

text \<open>The logical contents of a page: the resident copy, or the copy on disk.\<close>

definition bp_view :: "buffer_pool \<Rightarrow> page_key \<Rightarrow> bytes option" where
  "bp_view b k =
     (case map_of (bp_table b) k of
        Some i \<Rightarrow> Some (fr_bytes (bp_frames b ! i))
      | None \<Rightarrow> disk_page (bp_disk b) k)"

lemma table_okD:
  assumes "table_ok b"
  shows "distinct (map fst (bp_table b))"
    and "map_of (bp_table b) k = Some i \<longleftrightarrow> i < length (bp_frames b) \<and> fr_key (bp_frames b ! i) = Some k"
  using assms by (auto simp: table_ok_def)

lemma bp_core_cong:
  "bp_core b \<Longrightarrow> bp_disk b' = bp_disk b \<Longrightarrow> bp_frames b' = bp_frames b \<Longrightarrow> bp_table b' = bp_table b \<Longrightarrow> bp_core b'"
  unfolding bp_core_def table_ok_def by metis

lemma table_ok_unique:
  "table_ok b \<Longrightarrow> i < length (bp_frames b) \<Longrightarrow> j < length (bp_frames b) \<Longrightarrow>
   fr_key (bp_frames b ! i) = Some k \<Longrightarrow> fr_key (bp_frames b ! j) = Some k \<Longrightarrow> i = j"
  using table_okD(2) [of b k i] table_okD(2) [of b k j] by simp

text \<open>Nothing but the disk, the log and dirty bits differ.\<close>

definition same_pages :: "buffer_pool \<Rightarrow> buffer_pool \<Rightarrow> bool" where
  "same_pages b b' \<longleftrightarrow>
     bp_table b' = bp_table b \<and> bp_free b' = bp_free b \<and> bp_clock b' = bp_clock b
     \<and> length (bp_frames b') = length (bp_frames b)
     \<and> (\<forall>i < length (bp_frames b). fr_key (bp_frames b' ! i) = fr_key (bp_frames b ! i)
          \<and> fr_bytes (bp_frames b' ! i) = fr_bytes (bp_frames b ! i)
          \<and> fr_lsn (bp_frames b' ! i) = fr_lsn (bp_frames b ! i)
          \<and> fr_pin (bp_frames b' ! i) = fr_pin (bp_frames b ! i))
     \<and> (\<forall>k. map_of (bp_table b) k = None \<longrightarrow> disk_page (bp_disk b') k = disk_page (bp_disk b) k)"

lemma same_pages_refl [simp]: "same_pages b b"
  by (simp add: same_pages_def)

lemma same_pagesD:
  assumes "same_pages b b'"
  shows "bp_table b' = bp_table b" "bp_free b' = bp_free b" "bp_clock b' = bp_clock b"
    "length (bp_frames b') = length (bp_frames b)"
    "i < length (bp_frames b) \<Longrightarrow> fr_key (bp_frames b' ! i) = fr_key (bp_frames b ! i)"
    "i < length (bp_frames b) \<Longrightarrow> fr_bytes (bp_frames b' ! i) = fr_bytes (bp_frames b ! i)"
    "i < length (bp_frames b) \<Longrightarrow> fr_lsn (bp_frames b' ! i) = fr_lsn (bp_frames b ! i)"
    "i < length (bp_frames b) \<Longrightarrow> fr_pin (bp_frames b' ! i) = fr_pin (bp_frames b ! i)"
    "map_of (bp_table b) k = None \<Longrightarrow> disk_page (bp_disk b') k = disk_page (bp_disk b) k"
  using assms by (simp_all add: same_pages_def)

lemma same_pages_trans: "same_pages a b \<Longrightarrow> same_pages b c \<Longrightarrow> same_pages a c"
  by (simp add: same_pages_def)

lemma same_pages_view:
  assumes "table_ok b" and "same_pages b b'"
  shows "bp_view b' = bp_view b"
proof (rule ext)
  fix k
  show "bp_view b' k = bp_view b k"
  proof (cases "map_of (bp_table b) k")
    case None
    then show ?thesis using same_pagesD [OF assms(2)] by (simp add: bp_view_def)
  next
    case (Some i)
    then have "i < length (bp_frames b)" using table_okD(2) [OF assms(1)] by blast
    then show ?thesis using Some same_pagesD [OF assms(2)] by (simp add: bp_view_def)
  qed
qed

lemma same_pages_table: "table_ok b \<Longrightarrow> same_pages b b' \<Longrightarrow> table_ok b'"
  using same_pagesD [of b b'] unfolding table_ok_def by auto

lemma same_pages_free: "free_ok b \<Longrightarrow> same_pages b b' \<Longrightarrow> free_ok b'"
  using same_pagesD [of b b'] unfolding free_ok_def by auto

lemma same_pages_pins: "pins_ok b \<Longrightarrow> same_pages b b' \<Longrightarrow> pins_ok b'"
  using same_pagesD [of b b'] unfolding pins_ok_def by auto

section \<open>Flushing a frame\<close>

lemma wal_flush_gate_frame:
  assumes "wal_flush_gate lsn b = (res, b')"
  shows "b' = b\<lparr>bp_wal := bp_wal b'\<rparr>"
  using assms by (auto simp: wal_flush_gate_def split: option.splits prod.splits)

text \<open>A flush writes the frame's page and clears its dirty bit, or changes no page.\<close>

lemma flush_frame_cases:
  assumes core: "bp_core b" and i: "i < length (bp_frames b)" and f: "flush_frame i b = (res, b')"
  shows "bp_core b'" and "same_pages b b'"
    and "res = Inr () \<Longrightarrow> \<not> fr_dirty (bp_frames b' ! i)"
proof -
  define fr where "fr = bp_frames b ! i"
  have ok: "frame_ok (bp_disk b) fr" using core i by (simp add: bp_core_def fr_def)
  have "bp_core b' \<and> same_pages b b' \<and> (res = Inr () \<longrightarrow> \<not> fr_dirty (bp_frames b' ! i))"
  proof (cases "fr_dirty fr")
    case False
    then have "b' = b" using f i by (simp add: flush_frame_def sm_bind_def frame_at_def fr_def)
    then show ?thesis using core False by (simp add: fr_def)
  next
    case True
    then obtain k x where k: "fr_key fr = Some k" "decode_page k (fr_bytes fr) = Inr x" "disk_page (bp_disk b) k \<noteq> None"
      "valid_page_key k" "dp_lsn x = fr_lsn fr"
      using ok by (auto simp: frame_ok_def split: option.splits)
    obtain r1 b1 where g: "wal_flush_gate (fr_lsn fr) b = (r1, b1)" by fastforce
    have b1: "b1 = b\<lparr>bp_wal := bp_wal b1\<rparr>" using wal_flush_gate_frame [OF g] .
    have b1s: "bp_disk b1 = bp_disk b" "bp_frames b1 = bp_frames b" "bp_table b1 = bp_table b"
      "bp_free b1 = bp_free b" "bp_clock b1 = bp_clock b"
      by (subst b1, simp)+
    show ?thesis
    proof (cases r1)
      case (Inl e)
      then have "b' = b1" "res = Inl e"
        using f i True k g by (simp_all add: flush_frame_def sm_bind_def frame_at_def fr_def)
      then show ?thesis
        using core b1s by (auto simp: bp_core_def table_ok_def same_pages_def)
    next
      case (Inr u)
      have inv: "disk_inv (bp_disk b)" using core by (simp add: bp_core_def)
      obtain q where "disk_page (bp_disk b) k = Some q" using k(3) by blast
      then obtain d' where d': "disk_write_page k (fr_bytes fr) (bp_disk b) = (Inr (), d')" "disk_inv d'"
        "disk_page d' = (disk_page (bp_disk b))(k \<mapsto> fr_bytes fr)"
        using disk.write_succeeds [OF inv k(2)] by blast
      have b': "b' = put_frame i (fr\<lparr>fr_dirty := False\<rparr>) (b1\<lparr>bp_disk := d'\<rparr>)" and res: "res = Inr ()"
        using f i True k g Inr d'(1) b1s by (simp_all add: flush_frame_def sm_bind_def frame_at_def fr_def on_disk_def)
      have b's: "bp_disk b' = d'" "bp_frames b' = (bp_frames b)[i := fr\<lparr>fr_dirty := False\<rparr>]"
        "bp_table b' = bp_table b" "bp_free b' = bp_free b" "bp_clock b' = bp_clock b"
        by (simp_all add: b' put_frame_def b1s)
      have t: "table_ok b" using core by (simp add: bp_core_def)
      have tk: "map_of (bp_table b) k = Some i" using table_okD(2) [OF t] i k(1) by (simp add: fr_def)
      have same: "same_pages b b'"
        unfolding same_pages_def b's using i tk d'(3)
        by (auto simp: nth_list_update fr_def)
      have "frame_ok d' (bp_frames b' ! j)" if j: "j < length (bp_frames b)" for j
      proof (cases "j = i")
        case True
        then show ?thesis using i k d'(3) by (simp add: b's frame_ok_def)
      next
        case False
        then have "fr_key (bp_frames b ! j) \<noteq> Some k"
          using table_ok_unique [OF t j i] k(1) by (auto simp: fr_def)
        moreover have "frame_ok (bp_disk b) (bp_frames b ! j)" using core j by (simp add: bp_core_def)
        ultimately show ?thesis
          using False d'(3) by (simp add: b's frame_ok_def split: option.splits)
      qed
      then have "bp_core b'"
        using same_pages_table [OF t same] d'(2) b's by (simp add: bp_core_def)
      then show ?thesis using same i by (simp add: b's)
    qed
  qed
  then show "bp_core b'" "same_pages b b'" "res = Inr () \<Longrightarrow> \<not> fr_dirty (bp_frames b' ! i)" by auto
qed

section \<open>Fetching\<close>

lemma disk_eq_core:
  assumes "bp_core b" and "disk_inv d" and "disk_page d = disk_page (bp_disk b)"
  shows "bp_core (b\<lparr>bp_disk := d\<rparr>)" and "same_pages b (b\<lparr>bp_disk := d\<rparr>)"
  using assms by (auto simp: bp_core_def table_ok_def frame_ok_def same_pages_def split: option.splits)

text \<open>Loading: the old page of the frame is flushed, the new one read; nothing else changes.\<close>

lemma load_page_cases:
  assumes core: "bp_core b" and i: "i < length (bp_frames b)" and f: "load_page i key b = (res, b')"
  shows "bp_core b'" and "same_pages b b'"
    and "\<And>p x. res = Inr (p, x) \<Longrightarrow>
      disk_page (bp_disk b') key = Some p \<and> decode_page key p = Inr x \<and> \<not> fr_dirty (bp_frames b' ! i)"
proof -
  define fr where "fr = bp_frames b ! i"
  obtain r1 b1 where fl: "(if fr_key fr \<noteq> None then flush_frame i else sm_return ()) b = (r1, b1)"
    by fastforce
  have nokey: "fr_key fr = None \<Longrightarrow> \<not> fr_dirty fr"
    using core i by (auto simp: bp_core_def frame_ok_def fr_def split: option.splits)
  have c1: "bp_core b1" "same_pages b b1" "r1 = Inr () \<Longrightarrow> \<not> fr_dirty (bp_frames b1 ! i)"
  proof -
    have "bp_core b1 \<and> same_pages b b1 \<and> (r1 = Inr () \<longrightarrow> \<not> fr_dirty (bp_frames b1 ! i))"
    proof (cases "fr_key fr")
      case None
      then show ?thesis using fl core nokey by (auto simp: fr_def)
    next
      case (Some k)
      then have "flush_frame i b = (r1, b1)" using fl by simp
      then show ?thesis using flush_frame_cases [OF core i] by blast
    qed
    then show "bp_core b1" "same_pages b b1" "r1 = Inr () \<Longrightarrow> \<not> fr_dirty (bp_frames b1 ! i)" by auto
  qed
  obtain r2 d2 where rd: "disk_read_page key (bp_disk b1) = (r2, d2)" by fastforce
  have inv: "disk_inv (bp_disk b1)" using c1(1) by (simp add: bp_core_def)
  note d2 = disk.read_keeps [OF inv rd] disk.read_result [OF inv rd]
  have run: "load_page i key b = (case r1 of Inl e \<Rightarrow> (Inl e, b1) | Inr _ \<Rightarrow>
      (case r2 of Inl e \<Rightarrow> (Inl e, b1\<lparr>bp_disk := d2\<rparr>) | Inr p \<Rightarrow>
        (case decode_page key p of Inl e \<Rightarrow> (Inl e, b1\<lparr>bp_disk := d2\<rparr>) | Inr x \<Rightarrow> (Inr (p, x), b1\<lparr>bp_disk := d2\<rparr>))))"
    using i fl rd
    by (auto simp: load_page_def sm_bind_def frame_at_def fr_def on_disk_def split: sum.splits)
  have b': "b' = b1 \<or> b' = b1\<lparr>bp_disk := d2\<rparr>"
    using f unfolding run by (auto split: sum.splits)
  note e = disk_eq_core [OF c1(1) conjunct1 [OF d2(1)] conjunct2 [OF d2(1)]]
  show "bp_core b'" and "same_pages b b'"
    using b' c1(1,2) e same_pages_trans [OF c1(2) e(2)] by auto
  show "disk_page (bp_disk b') key = Some p \<and> decode_page key p = Inr x \<and> \<not> fr_dirty (bp_frames b' ! i)"
    if "res = Inr (p, x)" for p x
    using that f d2 c1(3) unfolding run by (auto split: sum.splits option.splits)
qed

lemma on_clock_mark: "i < length (ck_evictable (bp_clock b)) \<Longrightarrow>
  on_clock (mark_evictable i v) b
    = (Inr (), b\<lparr>bp_clock := (bp_clock b)\<lparr>ck_evictable := (ck_evictable (bp_clock b))[i := v]\<rparr>\<rparr>)"
  by (simp add: on_clock_def mark_evictable_def validate_frame_id_def sm_bind_def)

lemma on_clock_access: "i < length (ck_evictable (bp_clock b)) \<Longrightarrow>
  on_clock (record_access i) b
    = (Inr (), b\<lparr>bp_clock := (bp_clock b)\<lparr>ck_referenced := (ck_referenced (bp_clock b))[i := True]\<rparr>\<rparr>)"
  by (simp add: on_clock_def record_access_def validate_frame_id_def sm_bind_def)

text \<open>Choosing a frame: a free one, or an unpinned one, which the clock no longer offers.\<close>

lemma select_frame_cases:
  assumes inv: "bp_inv b" and f: "select_frame b = (res, b1)"
  shows "bp_core b1" and "bp_view b1 = bp_view b" and "bp_frames b1 = bp_frames b" and "bp_table b1 = bp_table b"
    and "bp_wal b1 = bp_wal b" and "bp_disk b1 = bp_disk b"
    and "case res of
        Inl e \<Rightarrow> e = BufferPoolFull \<and> bp_inv b1
          \<and> (\<forall>i < length (bp_frames b). fr_key (bp_frames b ! i) \<noteq> None \<and> 0 < fr_pin (bp_frames b ! i))
      | Inr (i, from_free) \<Rightarrow> i < length (bp_frames b) \<and> fr_pin (bp_frames b ! i) = 0
          \<and> clock_wf (bp_clock b1) \<and> length (ck_evictable (bp_clock b1)) = length (bp_frames b)
          \<and> (if from_free
             then bp_free b = i # bp_free b1 \<and> ck_evictable (bp_clock b1) = ck_evictable (bp_clock b)
             else bp_free b1 = bp_free b \<and> bp_free b = [] \<and> fr_key (bp_frames b ! i) \<noteq> None
                  \<and> ck_evictable (bp_clock b1) = (ck_evictable (bp_clock b))[i := False])"
proof -
  have core: "bp_core b" and fo: "free_ok b" and po: "pins_ok b" using inv by (auto simp: bp_inv_def)
  have wf: "clock_wf (bp_clock b)" and len: "length (ck_evictable (bp_clock b)) = length (bp_frames b)"
    using po by (auto simp: pins_ok_def)
  obtain c where c: "evict (bp_clock b) = (second_chance (bp_clock b), c)" "clock_wf c"
    "ck_evictable c = (case second_chance (bp_clock b) of None \<Rightarrow> ck_evictable (bp_clock b)
       | Some f \<Rightarrow> (ck_evictable (bp_clock b))[f := False])"
    using evict_result [OF wf] by blast
  have ev: "\<And>i. i < length (bp_frames b) \<Longrightarrow> ck_evictable (bp_clock b) ! i \<longleftrightarrow>
      fr_key (bp_frames b ! i) \<noteq> None \<and> fr_pin (bp_frames b ! i) = 0"
    using po by (simp add: pins_ok_def)
  have b1: "b1 = b\<lparr>bp_free := bp_free b1, bp_clock := bp_clock b1\<rparr>"
    using f by (cases b) (auto simp: select_frame_def split: list.splits prod.splits option.splits)
  show same: "bp_frames b1 = bp_frames b" "bp_table b1 = bp_table b" "bp_wal b1 = bp_wal b" "bp_disk b1 = bp_disk b"
    by (subst b1, simp)+
  show "bp_core b1" using core same by (simp add: bp_core_def table_ok_def)
  show "bp_view b1 = bp_view b" using same by (simp add: bp_view_def fun_eq_iff split: option.splits)
  show "case res of
        Inl e \<Rightarrow> e = BufferPoolFull \<and> bp_inv b1
          \<and> (\<forall>i < length (bp_frames b). fr_key (bp_frames b ! i) \<noteq> None \<and> 0 < fr_pin (bp_frames b ! i))
      | Inr (i, from_free) \<Rightarrow> i < length (bp_frames b) \<and> fr_pin (bp_frames b ! i) = 0
          \<and> clock_wf (bp_clock b1) \<and> length (ck_evictable (bp_clock b1)) = length (bp_frames b)
          \<and> (if from_free
             then bp_free b = i # bp_free b1 \<and> ck_evictable (bp_clock b1) = ck_evictable (bp_clock b)
             else bp_free b1 = bp_free b \<and> bp_free b = [] \<and> fr_key (bp_frames b ! i) \<noteq> None
                  \<and> ck_evictable (bp_clock b1) = (ck_evictable (bp_clock b))[i := False])"
  proof (cases "bp_free b")
    case (Cons i rest)
    then have i: "i < length (bp_frames b)" "fr_key (bp_frames b ! i) = None" using fo by (auto simp: free_ok_def)
    then have "fr_pin (bp_frames b ! i) = 0" using core by (auto simp: bp_core_def frame_ok_def split: option.splits)
    then show ?thesis using f Cons i wf len by (auto simp: select_frame_def)
  next
    case Nil
    then have keyed: "fr_key (bp_frames b ! i) \<noteq> None" if "i < length (bp_frames b)" for i
      using fo that by (auto simp: free_ok_def)
    show ?thesis
    proof (cases "second_chance (bp_clock b)")
      case None
      then have r: "res = Inl BufferPoolFull" and bb: "b1 = b\<lparr>bp_clock := c\<rparr>"
        using f c(1) Nil by (auto simp: select_frame_def)
      have "\<forall>i < length (bp_frames b). \<not> ck_evictable (bp_clock b) ! i"
        using None second_chance_None [OF wf] len by simp
      then have "\<forall>i < length (bp_frames b). fr_key (bp_frames b ! i) \<noteq> None \<and> 0 < fr_pin (bp_frames b ! i)"
        using ev keyed by auto
      moreover have "bp_inv b1"
        using inv bb c(2,3) None by (simp add: bp_inv_def bp_core_def table_ok_def free_ok_def pins_ok_def)
      ultimately show ?thesis using r by simp
    next
      case (Some v)
      then have r: "res = Inr (v, False)" and bb: "b1 = b\<lparr>bp_clock := c\<rparr>"
        using f c(1) Nil by (auto simp: select_frame_def)
      show ?thesis
        using r bb second_chance_Some(1,2) [OF wf Some] len ev [of v] c(2,3) Some Nil by simp
    qed
  qed
qed

text \<open>What a pin-holder of another page sees of an operation: nothing.\<close>

definition pins_kept :: "buffer_pool \<Rightarrow> buffer_pool \<Rightarrow> bool" where
  "pins_kept b b' \<longleftrightarrow>
     length (bp_frames b') = length (bp_frames b)
     \<and> (\<forall>i < length (bp_frames b). 0 < fr_pin (bp_frames b ! i) \<longrightarrow>
          fr_key (bp_frames b' ! i) = fr_key (bp_frames b ! i)
          \<and> fr_bytes (bp_frames b' ! i) = fr_bytes (bp_frames b ! i)
          \<and> fr_pin (bp_frames b ! i) \<le> fr_pin (bp_frames b' ! i))"

lemma same_pages_pins_kept: "same_pages b b' \<Longrightarrow> pins_kept b b'"
  by (simp add: same_pages_def pins_kept_def)

text \<open>A failed load gives the chosen frame back.\<close>

lemma undo_select_inv:
  assumes inv: "bp_inv b" and sel: "select_frame b = (Inr (i, from_free), b1)"
    and core: "bp_core b2" and same: "same_pages b1 b2" and u: "undo_select i from_free b2 = (ru, b3)"
  shows "ru = Inr ()" and "bp_inv b3" and "bp_view b3 = bp_view b2" and "bp_frames b3 = bp_frames b2"
    and "bp_wal b3 = bp_wal b2" and "bp_disk b3 = bp_disk b2"
proof -
  note s = select_frame_cases [OF inv sel]
  have frames: "bp_frames b1 = bp_frames b" by (rule s(3))
  have i: "i < length (bp_frames b)" using s(7) by simp
  have i2: "i < length (ck_evictable (bp_clock b2))" using s(7) same_pagesD(3) [OF same] by simp
  have "b3 = b2\<lparr>bp_free := bp_free b\<rparr> \<and> ru = Inr ()" if from_free
    using that u s(7) same_pagesD(2) [OF same] by (simp add: undo_select_def)
  moreover have "b3 = b2\<lparr>bp_clock := (bp_clock b2)\<lparr>ck_evictable := (ck_evictable (bp_clock b2))[i := True]\<rparr>\<rparr> \<and> ru = Inr ()"
    if "\<not> from_free"
    using that u on_clock_mark [OF i2] by (simp add: undo_select_def)
  ultimately have b3: "b3 = (if from_free then b2\<lparr>bp_free := bp_free b\<rparr>
      else b2\<lparr>bp_clock := (bp_clock b2)\<lparr>ck_evictable := (ck_evictable (bp_clock b2))[i := True]\<rparr>\<rparr>)"
    and "ru = Inr ()" by (cases from_free; simp)+
  then show "ru = Inr ()" by simp
  show fr: "bp_frames b3 = bp_frames b2" and "bp_wal b3 = bp_wal b2" "bp_disk b3 = bp_disk b2"
    and "bp_view b3 = bp_view b2"
    by (simp_all add: b3 bp_view_def fun_eq_iff split: option.splits)
  have c3: "bp_core b3" using core by (rule bp_core_cong) (simp_all add: b3)
  have free3: "bp_free b3 = bp_free b" using s(7) same_pagesD(2) [OF same] by (auto simp: b3 split: if_splits)
  have f3: "free_ok b3"
    using inv free3 fr same_pagesD(4,5) [OF same] frames by (auto simp: bp_inv_def free_ok_def)
  have ev: "ck_evictable (bp_clock b3) = ck_evictable (bp_clock b)"
  proof (cases from_free)
    case True
    then show ?thesis using s(7) same_pagesD(3) [OF same] by (simp add: b3)
  next
    case False
    have "ck_evictable (bp_clock b) ! i"
      using False s(7) inv i by (auto simp: bp_inv_def pins_ok_def)
    then show ?thesis using False s(7) same_pagesD(3) [OF same] by (simp add: b3) (metis list_update_id)
  qed
  have "clock_wf (bp_clock b3)"
    using s(7) same_pagesD(3) [OF same] by (auto simp: b3 clock_wf_def split: if_splits)
  then have "pins_ok b3"
    using inv ev fr same_pagesD(4,5,8) [OF same] frames by (simp add: bp_inv_def pins_ok_def)
  then show "bp_inv b3" using c3 f3 by (simp add: bp_inv_def)
qed

text \<open>A successful load installs the page in the chosen frame.\<close>

definition installed :: "nat \<Rightarrow> page_key \<Rightarrow> bytes \<Rightarrow> nat \<Rightarrow> buffer_pool \<Rightarrow> buffer_pool" where
  "installed i key p lsn b = b\<lparr>
     bp_frames := (bp_frames b)[i := \<lparr>fr_key = Some key, fr_bytes = p, fr_lsn = lsn, fr_pin = 1, fr_dirty = False\<rparr>],
     bp_table := AList.update key i
       (case fr_key (bp_frames b ! i) of None \<Rightarrow> bp_table b | Some k \<Rightarrow> AList.delete k (bp_table b)),
     bp_clock := (bp_clock b)\<lparr>ck_referenced := (ck_referenced (bp_clock b))[i := True],
       ck_evictable := (ck_evictable (bp_clock b))[i := False]\<rparr>\<rparr>"

lemma installed_table:
  assumes "table_ok b" and "map_of (bp_table b) key = None" and "i < length (bp_frames b)"
  shows "map_of (bp_table (installed i key p lsn b)) =
    (\<lambda>k. if k = key then Some i else if fr_key (bp_frames b ! i) = Some k then None else map_of (bp_table b) k)"
    and "table_ok (installed i key p lsn b)"
proof -
  show m: "map_of (bp_table (installed i key p lsn b)) =
    (\<lambda>k. if k = key then Some i else if fr_key (bp_frames b ! i) = Some k then None else map_of (bp_table b) k)"
    by (auto simp: installed_def AList.update_conv' AList.delete_conv' fun_eq_iff split: option.splits)
  have "fr_key (bp_frames b ! j) \<noteq> Some key" if "j < length (bp_frames b)" for j
    using assms(2) table_okD(2) [OF assms(1), of key j] that by simp
  moreover have "k = key \<or> fr_key (bp_frames b ! j) \<noteq> Some k \<or> j = i"
    if "fr_key (bp_frames b ! i) = Some k" "j < length (bp_frames b)" for j k
    using table_ok_unique [OF assms(1) assms(3) that(2) that(1)] by auto
  moreover have "distinct (map fst (bp_table (installed i key p lsn b)))"
    using table_okD(1) [OF assms(1)]
    by (auto simp: installed_def AList.distinct_update AList.distinct_delete split: option.splits)
  ultimately show "table_ok (installed i key p lsn b)"
    unfolding table_ok_def m using assms(3) table_okD(2) [OF assms(1)]
    by (auto simp: installed_def nth_list_update)
qed

lemma installed_inv:
  assumes inv: "bp_inv b" and sel: "select_frame b = (Inr (i, from_free), b1)"
    and core: "bp_core b2" and same: "same_pages b1 b2" and "map_of (bp_table b) key = None"
    and p: "disk_page (bp_disk b2) key = Some p" "decode_page key p = Inr x" and clean: "\<not> fr_dirty (bp_frames b2 ! i)"
    and "valid_page_key key"
  defines "b3 \<equiv> installed i key p (dp_lsn x) b2"
  shows "bp_inv b3" and "bp_view b3 = bp_view b2" and "pins_kept b b3"
    and "bp_view b key = Some p"
proof -
  note s = select_frame_cases [OF inv sel]
  note q = same_pagesD [OF same, unfolded s(3,4)]
  have i: "i < length (bp_frames b)" "i < length (bp_frames b2)" using s(7) q(4) by auto
  have t2: "table_ok b2" using core by (simp add: bp_core_def)
  have none: "map_of (bp_table b2) key = None" using assms(5) q(1) by simp
  note t3 = installed_table [OF t2 none i(2), of p "dp_lsn x", folded b3_def]
  have fr3: "bp_frames b3 = (bp_frames b2)[i := \<lparr>fr_key = Some key, fr_bytes = p, fr_lsn = dp_lsn x, fr_pin = 1, fr_dirty = False\<rparr>]"
    and disk3: "bp_disk b3 = bp_disk b2" and free3: "bp_free b3 = bp_free b2"
    and ev3: "ck_evictable (bp_clock b3) = (ck_evictable (bp_clock b2))[i := False]"
    by (simp_all add: b3_def installed_def)
  have "frame_ok (bp_disk b3) (bp_frames b3 ! j)" if "j < length (bp_frames b2)" for j
    using that core i(2) p assms(9)
    by (cases "j = i") (auto simp: fr3 disk3 bp_core_def frame_ok_def)
  then have core3: "bp_core b3" using core t3(2) by (simp add: bp_core_def disk3 fr3)
  have free: "set (bp_free b3) = set (bp_free b) - {i}" "distinct (bp_free b3)"
    using s(7) q(2) free3 inv i by (auto simp: bp_inv_def free_ok_def split: if_splits)
  have f3: "free_ok b3"
    using inv free i q(4,5) by (auto simp: bp_inv_def free_ok_def fr3 nth_list_update)
  have "ck_evictable (bp_clock b2) = (ck_evictable (bp_clock b))[i := False] \<or> ck_evictable (bp_clock b2) = ck_evictable (bp_clock b)"
    using s(7) q(3) by (auto split: if_splits)
  then have ev: "ck_evictable (bp_clock b3) = (ck_evictable (bp_clock b))[i := False]"
    by (auto simp: ev3)
  have "clock_wf (bp_clock b3)"
    using s(7) q(3) by (simp add: b3_def installed_def clock_wf_def)
  moreover have "length (ck_evictable (bp_clock b)) = length (bp_frames b)"
    and "\<And>j. j < length (bp_frames b) \<Longrightarrow> ck_evictable (bp_clock b) ! j \<longleftrightarrow>
        fr_key (bp_frames b ! j) \<noteq> None \<and> fr_pin (bp_frames b ! j) = 0"
    using inv by (auto simp: bp_inv_def pins_ok_def)
  ultimately have p3: "pins_ok b3"
    unfolding pins_ok_def ev using i q(4,5,8) by (auto simp: fr3 nth_list_update)
  show "bp_inv b3" using core3 f3 p3 by (simp add: bp_inv_def)
  show "pins_kept b b3"
    using s(7) i q by (auto simp: pins_kept_def fr3 nth_list_update)
  show "bp_view b3 = bp_view b2"
  proof (rule ext)
    fix k
    have ok: "frame_ok (bp_disk b2) (bp_frames b2 ! i)" using core i(2) by (simp add: bp_core_def)
    consider (key) "k = key" | (old) "k \<noteq> key" "fr_key (bp_frames b2 ! i) = Some k"
      | (other) "k \<noteq> key" "fr_key (bp_frames b2 ! i) \<noteq> Some k" by blast
    then show "bp_view b3 k = bp_view b2 k"
    proof cases
      case key
      then show ?thesis using none p i by (simp add: bp_view_def t3(1) fr3)
    next
      case old
      then have "map_of (bp_table b2) k = Some i" using table_okD(2) [OF t2] i by simp
      then show ?thesis using old ok clean by (simp add: bp_view_def t3(1) disk3 frame_ok_def)
    next
      case other
      show ?thesis
      proof (cases "map_of (bp_table b2) k")
        case None
        then show ?thesis using other by (simp add: bp_view_def t3(1) disk3)
      next
        case (Some j)
        then have "j \<noteq> i" using table_okD(2) [OF t2, of k j] other by auto
        then show ?thesis using Some other by (simp add: bp_view_def t3(1) fr3)
      qed
    qed
  qed
  show "bp_view b key = Some p"
    using assms(5) p(1) q(9) [of key] s(6) by (simp add: bp_view_def)
qed

text \<open>The whole of \<open>fetch_page\<close>.\<close>

lemma fetch_page_cases:
  assumes inv: "bp_inv b" and v: "valid_page_key key" and f: "fetch_page key b = (res, b')"
  shows "bp_inv b'" and "bp_view b' = bp_view b" and "pins_kept b b'"
    and "\<And>g. res = Inr g \<Longrightarrow> pg_key g = key \<and> \<not> pg_released g \<and> pg_frame_id g < length (bp_frames b')
      \<and> fr_key (bp_frames b' ! pg_frame_id g) = Some key \<and> 0 < fr_pin (bp_frames b' ! pg_frame_id g)
      \<and> bp_view b key = Some (fr_bytes (bp_frames b' ! pg_frame_id g))"
proof -
  have t: "table_ok b" and po: "pins_ok b" using inv by (auto simp: bp_inv_def bp_core_def)
  have "bp_inv b' \<and> bp_view b' = bp_view b \<and> pins_kept b b' \<and>
    (\<forall>g. res = Inr g \<longrightarrow> pg_key g = key \<and> \<not> pg_released g \<and> pg_frame_id g < length (bp_frames b')
      \<and> fr_key (bp_frames b' ! pg_frame_id g) = Some key \<and> 0 < fr_pin (bp_frames b' ! pg_frame_id g)
      \<and> bp_view b key = Some (fr_bytes (bp_frames b' ! pg_frame_id g)))"
  proof (cases "map_of (bp_table b) key")
    case (Some i)
    then have i: "i < length (bp_frames b)" "fr_key (bp_frames b ! i) = Some key" using table_okD(2) [OF t] by auto
    have ie: "i < length (ck_evictable (bp_clock b))" using po i by (simp add: pins_ok_def)
    define fr where "fr = (bp_frames b ! i)\<lparr>fr_pin := fr_pin (bp_frames b ! i) + 1\<rparr>"
    have b': "b' = b\<lparr>bp_frames := (bp_frames b)[i := fr],
        bp_clock := (bp_clock b)\<lparr>ck_evictable := (ck_evictable (bp_clock b))[i := False],
          ck_referenced := (ck_referenced (bp_clock b))[i := True]\<rparr>\<rparr>"
      and res: "res = Inr \<lparr>pg_frame_id = i, pg_key = key, pg_released = False\<rparr>"
      using f Some i ie
      by (simp_all add: fetch_page_def sm_bind_def frame_at_def on_clock_mark on_clock_access put_frame_def fr_def)
    have "table_ok b'"
      using t i unfolding table_ok_def b' by (auto simp: nth_list_update fr_def)
    then have "bp_core b'"
      using inv i by (auto simp: bp_inv_def bp_core_def b' nth_list_update fr_def frame_ok_def)
    moreover have "free_ok b'" using inv i by (auto simp: bp_inv_def free_ok_def b' nth_list_update fr_def)
    moreover have "pins_ok b'"
      using po i by (auto simp: pins_ok_def b' nth_list_update fr_def clock_wf_def)
    ultimately have "bp_inv b'" by (simp add: bp_inv_def)
    moreover have "bp_view b' = bp_view b"
      using i by (auto simp: bp_view_def fun_eq_iff b' nth_list_update fr_def split: option.split)
    moreover have "pins_kept b b'" using i by (auto simp: pins_kept_def b' nth_list_update fr_def)
    moreover have "bp_view b key = Some (fr_bytes (bp_frames b ! i))" using Some by (simp add: bp_view_def)
    ultimately show ?thesis using i res by (simp add: b' fr_def)
  next
    case None
    obtain r1 b1 where sel: "select_frame b = (r1, b1)" by fastforce
    note s = select_frame_cases [OF inv sel]
    show ?thesis
    proof (cases r1)
      case (Inl e)
      then have "b' = b1" "res = Inl e" using f None sel by (simp_all add: fetch_page_def sm_bind_def)
      then show ?thesis using s Inl by (simp add: pins_kept_def)
    next
      case (Inr r)
      then obtain i ff where sel': "select_frame b = (Inr (i, ff), b1)" using sel by (cases r) auto
      note s = select_frame_cases [OF inv sel']
      have i1: "i < length (bp_frames b1)" using s by simp
      obtain r2 b2 where ld: "load_page i key b1 = (r2, b2)" by fastforce
      note l = load_page_cases [OF s(1) i1 ld]
      have t1: "table_ok b1" using s(1) by (simp add: bp_core_def)
      have view2: "bp_view b2 = bp_view b" using same_pages_view [OF t1 l(2)] s(2) by simp
      show ?thesis
      proof (cases r2)
        case (Inl e)
        obtain ru b3 where u: "undo_select i ff b2 = (ru, b3)" by fastforce
        note n = undo_select_inv [OF inv sel' l(1,2) u]
        have "b' = b3" "res = Inl e"
          using f None sel' ld Inl u n(1) by (simp_all add: fetch_page_def sm_bind_def sm_cleanup_def)
        moreover have "pins_kept b b3"
          using same_pages_pins_kept [OF l(2)] n(4) s(3) by (simp add: pins_kept_def)
        ultimately show ?thesis using n view2 by simp
      next
        case (Inr px)
        obtain p x where px: "px = (p, x)" by fastforce
        note l3 = l(3) [OF Inr [unfolded px]]
        have i2: "i < length (bp_frames b2)" "i < length (ck_evictable (bp_clock b2))"
          using i1 same_pagesD(3,4) [OF l(2)] s(3,7) by auto
        have "map_of (bp_table b2) k \<noteq> None" if "fr_key (bp_frames b2 ! i) = Some k" for k
          using l(1) that i2 by (auto simp: bp_core_def dest: table_okD(2) [THEN iffD2])
        then have "b' = installed i key p (dp_lsn x) b2" and
          res: "res = Inr \<lparr>pg_frame_id = i, pg_key = key, pg_released = False\<rparr>"
          using f None sel' ld Inr px i2
          by (auto simp: fetch_page_def sm_bind_def sm_cleanup_def frame_at_def forget_key_def put_frame_def
              on_clock_mark on_clock_access installed_def split: option.splits)
        then show ?thesis
          using installed_inv [OF inv sel' l(1,2) None] l3 v view2 i2 by (simp add: installed_def)
      qed
    qed
  qed
  then show "bp_inv b'" "bp_view b' = bp_view b" "pins_kept b b'"
    "\<And>g. res = Inr g \<Longrightarrow> pg_key g = key \<and> \<not> pg_released g \<and> pg_frame_id g < length (bp_frames b')
      \<and> fr_key (bp_frames b' ! pg_frame_id g) = Some key \<and> 0 < fr_pin (bp_frames b' ! pg_frame_id g)
      \<and> bp_view b key = Some (fr_bytes (bp_frames b' ! pg_frame_id g))"
    by blast+
qed

section \<open>The other operations\<close>

lemma allocate_inv:
  assumes inv: "bp_inv b" and "rel_object_id r < 2 ^ 64" and f: "on_disk (disk_allocate_page r kind) b = (res, b')"
  shows "bp_inv b'" and "pins_kept b b'"
    and "\<And>e. res = Inl e \<Longrightarrow> bp_view b' = bp_view b"
    and "\<And>k. res = Inr k \<Longrightarrow> valid_page_key k \<and> key_relation k = r \<and> bp_view b k = None
      \<and> (\<exists>p. encode_page k (default_page_kind r kind) 0 [] = Inr p \<and> bp_view b' = (bp_view b)(k \<mapsto> p))"
proof -
  have core: "bp_core b" and d: "disk_inv (bp_disk b)" and t: "table_ok b" using inv by (auto simp: bp_inv_def bp_core_def)
  obtain r1 d' where a: "disk_allocate_page r kind (bp_disk b) = (r1, d')" by fastforce
  have b': "b' = b\<lparr>bp_disk := d'\<rparr>" "res = r1" using f a by (simp_all add: on_disk_def)
  have nores: "map_of (bp_table b) k = None" if "disk_page (bp_disk b) k = None" for k
  proof (rule ccontr)
    assume "map_of (bp_table b) k \<noteq> None"
    then obtain i where "i < length (bp_frames b)" "fr_key (bp_frames b ! i) = Some k" using table_okD(2) [OF t] by blast
    then show False using core that by (auto simp: bp_core_def frame_ok_def)
  qed
  have view: "bp_view b' k = (case map_of (bp_table b) k of Some i \<Rightarrow> Some (fr_bytes (bp_frames b ! i)) | None \<Rightarrow> disk_page d' k)" for k
    by (simp add: b' bp_view_def split: option.split)
  have keep: "bp_inv b'" if "disk_inv d'" "\<And>k. disk_page (bp_disk b) k \<noteq> None \<Longrightarrow> disk_page d' k = disk_page (bp_disk b) k"
  proof -
    have "frame_ok d' (bp_frames b ! i)" if "i < length (bp_frames b)" for i
      using core that \<open>\<And>k. disk_page (bp_disk b) k \<noteq> None \<Longrightarrow> disk_page d' k = disk_page (bp_disk b) k\<close>
      by (auto simp: bp_core_def frame_ok_def split: option.splits)
    then show ?thesis
      using inv that(1) t by (simp add: b' bp_inv_def bp_core_def free_ok_def pins_ok_def table_ok_def)
  qed
  show "pins_kept b b'" by (simp add: b' pins_kept_def)
  show "bp_inv b'"
  proof (cases r1)
    case (Inl e)
    then show ?thesis using disk.allocate_err [OF d assms(2)] a keep by simp
  next
    case (Inr k)
    then show ?thesis using disk.allocate_ok [OF d assms(2)] a keep by fastforce
  qed
  show "bp_view b' = bp_view b" if "res = Inl e" for e
    using that disk.allocate_err [OF d assms(2)] a b' by (simp add: bp_view_def fun_eq_iff split: option.splits)
  show "valid_page_key k \<and> key_relation k = r \<and> bp_view b k = None
      \<and> (\<exists>p. encode_page k (default_page_kind r kind) 0 [] = Inr p \<and> bp_view b' = (bp_view b)(k \<mapsto> p))"
    if k: "res = Inr k" for k
  proof -
    obtain p where p: "disk_page (bp_disk b) k = None" "valid_page_key k" "key_relation k = r"
      "encode_page k (default_page_kind r kind) 0 [] = Inr p" "disk_page d' = (disk_page (bp_disk b))(k \<mapsto> p)"
      using disk.allocate_ok [OF d assms(2)] a k b'(2) by blast
    have "bp_view b' = (bp_view b)(k \<mapsto> p)"
      using nores [OF p(1)] p(5) by (auto simp: b' fun_eq_iff bp_view_def split: option.split)
    then show ?thesis using p nores [OF p(1)] by (auto simp: bp_view_def)
  qed
qed

lemma flush_frames_cases:
  assumes "bp_core b" and "set is \<subseteq> {0..<length (bp_frames b)}" and "flush_frames is b = (res, b')"
  shows "bp_core b' \<and> same_pages b b'
    \<and> (res = Inr () \<longrightarrow> (\<forall>i < length (bp_frames b). i \<in> set is \<or> \<not> fr_dirty (bp_frames b ! i)
          \<longrightarrow> \<not> fr_dirty (bp_frames b' ! i)))"
  using assms
proof (induction "is" arbitrary: b)
  case Nil
  then show ?case by simp
next
  case (Cons i "is")
  have i: "i < length (bp_frames b)" using Cons.prems(2) by simp
  obtain r1 b1 where f1: "(if fr_key (bp_frames b ! i) \<noteq> None then flush_frame i else sm_return ()) b = (r1, b1)"
    by fastforce
  have nokey: "fr_key (bp_frames b ! i) = None \<Longrightarrow> \<not> fr_dirty (bp_frames b ! i)"
    using Cons.prems(1) i by (auto simp: bp_core_def frame_ok_def split: option.splits)
  have c1: "bp_core b1" "same_pages b b1" "r1 = Inr () \<longrightarrow> \<not> fr_dirty (bp_frames b1 ! i)"
    using f1 flush_frame_cases [OF Cons.prems(1) i] nokey Cons.prems(1) by (auto split: if_splits)
  have others: "bp_frames b1 ! j = bp_frames b ! j" if "j \<noteq> i" for j
    using f1 that wal_flush_gate_frame
    by (auto simp: flush_frame_def sm_bind_def frame_at_def on_disk_def put_frame_def wal_flush_gate_def
        split: if_splits option.splits prod.splits sum.splits)
  have len: "length (bp_frames b1) = length (bp_frames b)" using same_pagesD(4) [OF c1(2)] .
  show ?case
  proof (cases r1)
    case (Inl e)
    then have "res = Inl e" "b' = b1" using Cons.prems(3) f1 i by (auto simp: sm_bind_def frame_at_def)
    then show ?thesis using c1 by simp
  next
    case (Inr u)
    then have rest: "flush_frames is b1 = (res, b')" using Cons.prems(3) f1 i by (auto simp: sm_bind_def frame_at_def)
    have ih: "bp_core b' \<and> same_pages b1 b' \<and> (res = Inr () \<longrightarrow> (\<forall>i < length (bp_frames b1). i \<in> set is \<or> \<not> fr_dirty (bp_frames b1 ! i)
          \<longrightarrow> \<not> fr_dirty (bp_frames b' ! i)))"
      using Cons.IH [OF c1(1) _ rest] Cons.prems(2) len by simp
    have "\<not> fr_dirty (bp_frames b1 ! j)" if "j = i \<or> \<not> fr_dirty (bp_frames b ! j)" for j
      using that c1(3) Inr others [of j] by (cases "j = i") auto
    then show ?thesis using ih same_pages_trans [OF c1(2)] len by auto
  qed
qed

text \<open>After \<open>flush_all\<close> every page on disk is the logical page.\<close>

lemma flush_all_cases:
  assumes inv: "bp_inv b" and f: "flush_all b = (res, b')"
  shows "bp_inv b'" and "bp_view b' = bp_view b" and "pins_kept b b'"
    and "res = Inr () \<Longrightarrow> disk_page (bp_disk b') = bp_view b"
proof -
  have core: "bp_core b" using inv by (simp add: bp_inv_def)
  then have t: "table_ok b" by (simp add: bp_core_def)
  have c: "bp_core b'" "same_pages b b'" "res = Inr () \<Longrightarrow> \<forall>i < length (bp_frames b). \<not> fr_dirty (bp_frames b' ! i)"
    using flush_frames_cases [OF core _ f [unfolded flush_all_def]] by auto
  show "bp_inv b'" using inv c(1) same_pages_free [OF _ c(2)] same_pages_pins [OF _ c(2)] by (simp add: bp_inv_def)
  show v: "bp_view b' = bp_view b" by (rule same_pages_view [OF t c(2)])
  show "pins_kept b b'" by (rule same_pages_pins_kept [OF c(2)])
  show "disk_page (bp_disk b') = bp_view b" if "res = Inr ()"
    unfolding v [symmetric]
  proof (rule ext)
    fix k
    have t': "table_ok b'" using c(1) by (simp add: bp_core_def)
    show "disk_page (bp_disk b') k = bp_view b' k"
    proof (cases "map_of (bp_table b') k")
      case (Some i)
      then have i: "i < length (bp_frames b')" "fr_key (bp_frames b' ! i) = Some k" using table_okD(2) [OF t'] by auto
      then have "\<not> fr_dirty (bp_frames b' ! i)" using c(3) [OF that] same_pagesD(4) [OF c(2)] by simp
      then show ?thesis using c(1) i Some by (auto simp: bp_core_def frame_ok_def bp_view_def)
    qed (simp add: bp_view_def)
  qed
qed

lemma flush_page_cases:
  assumes inv: "bp_inv b" and f: "flush_page key b = (res, b')"
  shows "bp_inv b'" and "bp_view b' = bp_view b" and "pins_kept b b'"
proof -
  have core: "bp_core b" and t: "table_ok b" using inv by (auto simp: bp_inv_def bp_core_def)
  have c: "bp_core b' \<and> same_pages b b'"
  proof (cases "map_of (bp_table b) key")
    case None
    then show ?thesis using f core by (auto simp: flush_page_def sm_bind_def resident_frame_def)
  next
    case (Some i)
    then have "i < length (bp_frames b)" using table_okD(2) [OF t] by blast
    moreover have "flush_frame i b = (res, b')" using f Some by (simp add: flush_page_def sm_bind_def resident_frame_def)
    ultimately show ?thesis using flush_frame_cases [OF core] by blast
  qed
  then have same: "same_pages b b'" by blast
  show "bp_inv b'"
    using inv c same_pages_free [OF _ same] same_pages_pins [OF _ same] by (simp add: bp_inv_def)
  show "bp_view b' = bp_view b" "pins_kept b b'"
    by (rule same_pages_view [OF t same], rule same_pages_pins_kept [OF same])
qed

text \<open>Exchanging the contents or the pins of one frame that keeps its page.\<close>

lemma put_frame_inv:
  assumes inv: "bp_inv b" and i: "i < length (bp_frames b)" and k: "fr_key (bp_frames b ! i) = Some k"
    and fr: "fr_key fr = Some k" "frame_ok (bp_disk b) fr"
    and b': "b' = put_frame i fr (b\<lparr>bp_clock := (bp_clock b)\<lparr>ck_evictable := (ck_evictable (bp_clock b))[i := fr_pin fr = 0]\<rparr>\<rparr>)"
  shows "bp_inv b'" and "bp_view b' = (bp_view b)(k \<mapsto> fr_bytes fr)"
proof -
  have core: "bp_core b" and t: "table_ok b" and free: "free_ok b" and pins: "pins_ok b"
    using inv by (auto simp: bp_inv_def bp_core_def)
  have "table_ok b'" using t i k fr(1) unfolding table_ok_def b' put_frame_def by (auto simp: nth_list_update)
  then have "bp_core b'" using core i fr(2) by (auto simp: bp_core_def b' put_frame_def nth_list_update)
  moreover have "free_ok b'" using free i k fr(1) by (auto simp: free_ok_def b' put_frame_def nth_list_update)
  moreover have "pins_ok b'" using pins i fr(1) by (auto simp: pins_ok_def b' put_frame_def nth_list_update clock_wf_def)
  ultimately show "bp_inv b'" by (simp add: bp_inv_def)
  have tk: "map_of (bp_table b) k = Some i" using table_okD(2) [OF t] i k by simp
  show "bp_view b' = (bp_view b)(k \<mapsto> fr_bytes fr)"
  proof (rule ext)
    fix k'
    show "bp_view b' k' = ((bp_view b)(k \<mapsto> fr_bytes fr)) k'"
    proof (cases "k' = k")
      case True
      then show ?thesis using tk i by (simp add: bp_view_def b' put_frame_def)
    next
      case False
      then have "map_of (bp_table b) k' \<noteq> Some i" using table_okD(2) [OF t, of k' i] k by auto
      then show ?thesis using False by (auto simp: bp_view_def b' put_frame_def nth_list_update split: option.split)
    qed
  qed
qed

lemma guarded_frame_cases:
  "guarded_frame i key b =
     (if \<not> i < length (bp_frames b) then (Inl PyIndexError, b)
      else if fr_key (bp_frames b ! i) \<noteq> Some key \<or> fr_pin (bp_frames b ! i) = 0 then (Inl DatabaseClosed, b)
      else (Inr (bp_frames b ! i), b))"
  by (auto simp: guarded_frame_def sm_bind_def frame_at_def)

lemma release_guard_cases:
  assumes inv: "bp_inv b" and f: "release_guard i key b = (res, b')"
  shows "bp_inv b'" and "bp_view b' = bp_view b"
    and "res = Inr () \<longleftrightarrow> i < length (bp_frames b) \<and> fr_key (bp_frames b ! i) = Some key \<and> 0 < fr_pin (bp_frames b ! i)"
    and "\<And>j. j \<noteq> i \<Longrightarrow> bp_frames b' ! j = bp_frames b ! j" and "length (bp_frames b') = length (bp_frames b)"
    and "res = Inr () \<Longrightarrow> bp_frames b' ! i = (bp_frames b ! i)\<lparr>fr_pin := fr_pin (bp_frames b ! i) - 1\<rparr>"
    and "bp_wal b' = bp_wal b" and "bp_disk b' = bp_disk b" and "res \<noteq> Inr () \<Longrightarrow> b' = b"
proof -
  have "bp_inv b' \<and> bp_view b' = bp_view b
    \<and> (res = Inr () \<longleftrightarrow> i < length (bp_frames b) \<and> fr_key (bp_frames b ! i) = Some key \<and> 0 < fr_pin (bp_frames b ! i))
    \<and> (\<forall>j. j \<noteq> i \<longrightarrow> bp_frames b' ! j = bp_frames b ! j) \<and> length (bp_frames b') = length (bp_frames b)
    \<and> (res = Inr () \<longrightarrow> bp_frames b' ! i = (bp_frames b ! i)\<lparr>fr_pin := fr_pin (bp_frames b ! i) - 1\<rparr>)
    \<and> bp_wal b' = bp_wal b \<and> bp_disk b' = bp_disk b \<and> (res \<noteq> Inr () \<longrightarrow> b' = b)"
  proof (cases "i < length (bp_frames b) \<and> fr_key (bp_frames b ! i) = Some key \<and> 0 < fr_pin (bp_frames b ! i)")
    case False
    then have "b' = b \<and> res \<noteq> Inr ()"
      using f by (auto simp: release_guard_def sm_bind_def guarded_frame_cases split: if_splits)
    then show ?thesis using inv False by simp
  next
    case True
    define fr where "fr = (bp_frames b ! i)\<lparr>fr_pin := fr_pin (bp_frames b ! i) - 1\<rparr>"
    have ev: "i < length (ck_evictable (bp_clock b))" "\<not> ck_evictable (bp_clock b) ! i"
      using inv True by (auto simp: bp_inv_def pins_ok_def)
    have b': "b' = put_frame i fr (b\<lparr>bp_clock := (bp_clock b)\<lparr>ck_evictable := (ck_evictable (bp_clock b))[i := fr_pin fr = 0]\<rparr>\<rparr>)"
      and res: "res = Inr ()"
    proof -
      show "res = Inr ()"
        using f True ev by (auto simp: release_guard_def sm_bind_def guarded_frame_cases on_clock_mark put_frame_def split: if_splits)
      have "(ck_evictable (bp_clock b))[i := False] = ck_evictable (bp_clock b)"
        using ev(2) by (metis (full_types) list_update_id)
      then show "b' = put_frame i fr (b\<lparr>bp_clock := (bp_clock b)\<lparr>ck_evictable := (ck_evictable (bp_clock b))[i := fr_pin fr = 0]\<rparr>\<rparr>)"
        using f True ev
        by (cases b) (auto simp: release_guard_def sm_bind_def guarded_frame_cases on_clock_mark put_frame_def fr_def split: if_splits)
    qed
    have ok: "frame_ok (bp_disk b) fr"
      using inv True by (auto simp: bp_inv_def bp_core_def frame_ok_def fr_def)
    have "bp_view b key = Some (fr_bytes fr)"
      using True inv table_okD(2) [of b key i] by (auto simp: bp_view_def bp_inv_def bp_core_def fr_def)
    then have "(bp_view b)(key \<mapsto> fr_bytes fr) = bp_view b" by (simp add: fun_upd_idem)
    then show ?thesis
      using put_frame_inv [OF inv _ _ _ ok b'] True res by (simp add: fr_def b' put_frame_def)
  qed
  then show "bp_inv b'" and "bp_view b' = bp_view b"
    and "res = Inr () \<longleftrightarrow> i < length (bp_frames b) \<and> fr_key (bp_frames b ! i) = Some key \<and> 0 < fr_pin (bp_frames b ! i)"
    and "\<And>j. j \<noteq> i \<Longrightarrow> bp_frames b' ! j = bp_frames b ! j" and "length (bp_frames b') = length (bp_frames b)"
    and "res = Inr () \<Longrightarrow> bp_frames b' ! i = (bp_frames b ! i)\<lparr>fr_pin := fr_pin (bp_frames b ! i) - 1\<rparr>"
    and "bp_wal b' = bp_wal b" and "bp_disk b' = bp_disk b" and "res \<noteq> Inr () \<Longrightarrow> b' = b"
    by blast+
qed

text \<open>Publishing an encoded page: it becomes the logical page, or nothing changes.\<close>

definition live_guard :: "buffer_pool \<Rightarrow> page_guard \<Rightarrow> bool" where
  "live_guard b g \<longleftrightarrow>
     \<not> pg_released g \<and> pg_frame_id g < length (bp_frames b)
     \<and> fr_key (bp_frames b ! pg_frame_id g) = Some (pg_key g) \<and> 0 < fr_pin (bp_frames b ! pg_frame_id g)"

lemma publish_cases:
  assumes inv: "bp_inv b" and enc: "encode_page (pg_key g) kind lsn body = Inr p"
    and f: "publish_bytes g p lsn b = (res, b')"
  shows "if live_guard b g \<and> fr_lsn (bp_frames b ! pg_frame_id g) \<le> lsn
     then res = Inr () \<and> bp_inv b' \<and> bp_view b' = (bp_view b)(pg_key g \<mapsto> p)
       \<and> b' = put_frame (pg_frame_id g)
            ((bp_frames b ! pg_frame_id g)\<lparr>fr_bytes := p, fr_lsn := lsn, fr_dirty := True\<rparr>) b
     else (\<exists>e. res = Inl e) \<and> b' = b"
proof (cases "live_guard b g \<and> fr_lsn (bp_frames b ! pg_frame_id g) \<le> lsn")
  case False
  have "valid_page_key (pg_key g)" if "live_guard b g"
    using inv that by (auto simp: live_guard_def bp_inv_def bp_core_def frame_ok_def)
  then show ?thesis
    using f False encode_page_decode [OF enc]
    by (auto simp: publish_bytes_def pg_replace_bytes_def guard_ensure_active_def guard_replace_bytes_def
        sm_bind_def guarded_frame_cases live_guard_def res_require_def split: if_splits sum.splits)
next
  case True
  define i where "i = pg_frame_id g"
  define fr where "fr = (bp_frames b ! i)\<lparr>fr_bytes := p, fr_lsn := lsn, fr_dirty := True\<rparr>"
  have i: "i < length (bp_frames b)" "fr_key (bp_frames b ! i) = Some (pg_key g)" "0 < fr_pin (bp_frames b ! i)"
    and nr: "\<not> pg_released g" and lsn: "fr_lsn (bp_frames b ! i) \<le> lsn"
    using True by (auto simp: live_guard_def i_def)
  have ok0: "frame_ok (bp_disk b) (bp_frames b ! i)" using inv i by (simp add: bp_inv_def bp_core_def)
  then have v: "valid_page_key (pg_key g)" using i by (simp add: frame_ok_def)
  note dec = encode_page_decode [OF enc v]
  have ev: "i < length (ck_evictable (bp_clock b))" "\<not> ck_evictable (bp_clock b) ! i"
    using inv i by (auto simp: bp_inv_def pins_ok_def)
  have run: "res = Inr ()" "b' = put_frame i fr b"
    using f i nr lsn dec enc
    by (simp_all add: publish_bytes_def pg_replace_bytes_def pg_mark_dirty_def guard_ensure_active_def
        guard_replace_bytes_def guard_mark_dirty_def sm_bind_def guarded_frame_cases put_frame_def fr_def i_def)
  have "(ck_evictable (bp_clock b))[i := False] = ck_evictable (bp_clock b)"
    using ev(2) by (metis (full_types) list_update_id)
  then have b': "b' = put_frame i fr (b\<lparr>bp_clock := (bp_clock b)\<lparr>ck_evictable := (ck_evictable (bp_clock b))[i := fr_pin fr = 0]\<rparr>\<rparr>)"
    using run(2) i(3) by (cases b) (simp add: fr_def put_frame_def)
  have "frame_ok (bp_disk b) fr" using ok0 i dec by (simp add: frame_ok_def fr_def)
  then show ?thesis
    using put_frame_inv [OF inv i(1,2) _ _ b'] i True run by (simp add: fr_def i_def)
qed

section \<open>Write-ahead logging\<close>

text \<open>
  A page LSN is the start of the log record that carries the page image, or zero for a page that
  was never logged. It is durable when every record that starts at or before it is.
\<close>

definition lsn_durable :: "wal_manager \<Rightarrow> nat \<Rightarrow> bool" where
  "lsn_durable w lsn \<longleftrightarrow>
     lsn = 0 \<or> lsn < wm_end_lsn w \<and> (\<forall>e \<in> set (wm_entries w). wr_lsn e \<le> lsn \<longrightarrow> wr_end_lsn e \<le> wm_flushed_lsn w)"

definition lsn_logged :: "wal_manager \<Rightarrow> nat \<Rightarrow> bool" where
  "lsn_logged w lsn \<longleftrightarrow> lsn = 0 \<or> lsn < wm_end_lsn w"

definition pool_logged :: "buffer_pool \<Rightarrow> bool" where
  "pool_logged b \<longleftrightarrow>
     disk_inv (bp_disk b)
     \<and> (\<exists>w. bp_wal b = Some w \<and> wal_inv w \<and> wal_durable w
          \<and> (\<forall>k p x. disk_page (bp_disk b) k = Some p \<longrightarrow> decode_page k p = Inr x \<longrightarrow> lsn_durable w (dp_lsn x))
          \<and> (\<forall>i < length (bp_frames b). lsn_logged w (fr_lsn (bp_frames b ! i))))
     \<and> (\<forall>i < length (bp_frames b). \<forall>k x. fr_key (bp_frames b ! i) = Some k \<longrightarrow>
          decode_page k (fr_bytes (bp_frames b ! i)) = Inr x \<longrightarrow> dp_lsn x = fr_lsn (bp_frames b ! i))"

lemma lsn_durable_logged: "lsn_durable w l \<Longrightarrow> lsn_logged w l"
  by (auto simp: lsn_durable_def lsn_logged_def)

lemma pool_loggedI:
  assumes "disk_inv (bp_disk b)" and "bp_wal b = Some w" and "wal_inv w" and "wal_durable w"
    and "\<And>k p x. disk_page (bp_disk b) k = Some p \<Longrightarrow> decode_page k p = Inr x \<Longrightarrow> lsn_durable w (dp_lsn x)"
    and "\<And>i. i < length (bp_frames b) \<Longrightarrow> lsn_logged w (fr_lsn (bp_frames b ! i))"
    and "\<And>i k x. i < length (bp_frames b) \<Longrightarrow> fr_key (bp_frames b ! i) = Some k \<Longrightarrow>
      decode_page k (fr_bytes (bp_frames b ! i)) = Inr x \<Longrightarrow> dp_lsn x = fr_lsn (bp_frames b ! i)"
  shows "pool_logged b"
  using assms by (simp add: pool_logged_def)

lemma pool_loggedD:
  assumes "pool_logged b"
  obtains w where "disk_inv (bp_disk b)" and "bp_wal b = Some w" and "wal_inv w" and "wal_durable w"
    and "\<And>k p x. disk_page (bp_disk b) k = Some p \<Longrightarrow> decode_page k p = Inr x \<Longrightarrow> lsn_durable w (dp_lsn x)"
    and "\<And>i. i < length (bp_frames b) \<Longrightarrow> lsn_logged w (fr_lsn (bp_frames b ! i))"
    and "\<And>i k x. i < length (bp_frames b) \<Longrightarrow> fr_key (bp_frames b ! i) = Some k \<Longrightarrow>
      decode_page k (fr_bytes (bp_frames b ! i)) = Inr x \<Longrightarrow> dp_lsn x = fr_lsn (bp_frames b ! i)"
  using assms by (auto simp: pool_logged_def)

lemma log_at_lsn_less:
  "log_at lsn ds contents \<Longrightarrow> d \<in> set ds \<Longrightarrow> wr_lsn d < lsn + length contents"
proof (induction ds arbitrary: lsn contents)
  case (Cons a ds)
  then obtain enc rest where e: "encode_record lsn (wr_xid a) (wr_record a) = Inr enc" "wr_lsn a = lsn"
    "contents = enc @ rest" "log_at (lsn + length enc) ds rest" by auto
  have "36 \<le> length enc" using e(1) by (rule encode_record_length)
  then show ?case using Cons.IH [OF e(4)] Cons.prems(2) e(2,3) by fastforce
qed simp

text \<open>Flushing to the end makes every logged LSN durable, and never unmakes one.\<close>

lemma flushed_durable:
  assumes "wal_inv w" and "wm_flushed_lsn w = wm_end_lsn w" and "lsn_logged w lsn"
  shows "lsn_durable w lsn"
proof -
  have "wr_end_lsn e \<le> wm_end_lsn w" if "e \<in> set (wm_entries w)" for e
    using assms(1) that log_at_end_gt [of 0 "wm_entries w" "wm_file w" e] by (simp add: wal_inv_def)
  then show ?thesis using assms by (auto simp: lsn_durable_def lsn_logged_def)
qed

text \<open>Operations that leave the disk's pages, the log and the frames' contents alone.\<close>

lemma pool_logged_cong:
  assumes "pool_logged b" and "disk_inv (bp_disk b')" and "disk_page (bp_disk b') = disk_page (bp_disk b)"
    and "bp_wal b' = bp_wal b" and "length (bp_frames b') = length (bp_frames b)"
    and "\<And>i. i < length (bp_frames b) \<Longrightarrow> fr_key (bp_frames b' ! i) = fr_key (bp_frames b ! i)
      \<and> fr_bytes (bp_frames b' ! i) = fr_bytes (bp_frames b ! i) \<and> fr_lsn (bp_frames b' ! i) = fr_lsn (bp_frames b ! i)"
  shows "pool_logged b'"
  using assms unfolding pool_logged_def by simp

lemma pool_logged_clock: "pool_logged b \<Longrightarrow> pool_logged (b\<lparr>bp_clock := c\<rparr>)"
  by (frule pool_logged_cong [of b "b\<lparr>bp_clock := c\<rparr>"]) (auto simp: pool_logged_def)

lemma on_clock_keeps: "sm_spec pool_logged (on_clock m) (\<lambda>_. pool_logged) pool_logged"
  by (rule sm_specI) (auto simp: on_clock_def pool_logged_clock split: prod.splits)

lemma frame_at_spec:
  "sm_spec P (frame_at i) (\<lambda>fr b. P b \<and> i < length (bp_frames b) \<and> fr = bp_frames b ! i) P"
  by (rule sm_specI) (auto simp: frame_at_def split: if_splits)

lemma flush_frame_logged: "sm_spec pool_logged (flush_frame i) (\<lambda>_. pool_logged) pool_logged"
proof -
  have "pool_logged b'" if b: "pool_logged b" and f: "flush_frame i b = (res, b')" for b res b'
  proof (cases "i < length (bp_frames b) \<and> fr_dirty (bp_frames b ! i) \<and> fr_key (bp_frames b ! i) \<noteq> None")
    case False
    then have "b' = b" using f by (auto simp: flush_frame_def sm_bind_def frame_at_def split: if_splits)
    then show ?thesis using b by simp
  next
    case True
    define fr where "fr = bp_frames b ! i"
    obtain k where k: "fr_key fr = Some k" using True by (auto simp: fr_def)
    obtain w where w: "disk_inv (bp_disk b)" "bp_wal b = Some w" "wal_inv w" "wal_durable w"
      and pages: "\<And>k p x. disk_page (bp_disk b) k = Some p \<Longrightarrow> decode_page k p = Inr x \<Longrightarrow> lsn_durable w (dp_lsn x)"
      and lsns: "\<And>i. i < length (bp_frames b) \<Longrightarrow> lsn_logged w (fr_lsn (bp_frames b ! i))"
      and dec: "\<And>i k x. i < length (bp_frames b) \<Longrightarrow> fr_key (bp_frames b ! i) = Some k \<Longrightarrow>
        decode_page k (fr_bytes (bp_frames b ! i)) = Inr x \<Longrightarrow> dp_lsn x = fr_lsn (bp_frames b ! i)"
      using b by (rule pool_loggedD) auto
    obtain r1 w1 where g: "wal_flush (Some (fr_lsn fr)) w = (r1, w1)" by fastforce
    show ?thesis
    proof (cases r1)
      case (Inl e)
      then have "b' = b\<lparr>bp_wal := Some w1\<rparr>" "w1 = w"
        using f True k g w(2) wal_flush_err
        by (auto simp: flush_frame_def sm_bind_def frame_at_def fr_def wal_flush_gate_def)
      then show ?thesis using b w(2) by (cases b) simp
    next
      case (Inr u)
      note fl = wal_flush_ok [OF w(3,4) g [unfolded Inr]]
      have logged: "lsn_logged w1 l \<longleftrightarrow> lsn_logged w l" for l using fl(5) by (simp add: lsn_logged_def)
      have dur: "lsn_durable w1 l" if "lsn_logged w l" for l
        using flushed_durable [OF fl(1)] fl(3,5) that logged by simp
      obtain r2 d2 where wr: "disk_write_page k (fr_bytes fr) (bp_disk b) = (r2, d2)" by fastforce
      have b': "b' = (case r2 of Inl e \<Rightarrow> b\<lparr>bp_wal := Some w1, bp_disk := d2\<rparr>
          | Inr _ \<Rightarrow> put_frame i (fr\<lparr>fr_dirty := False\<rparr>) (b\<lparr>bp_wal := Some w1, bp_disk := d2\<rparr>))"
        using f True k g w(2) Inr wr
        by (auto simp: flush_frame_def sm_bind_def frame_at_def fr_def wal_flush_gate_def on_disk_def split: sum.splits)
      have "disk_inv d2 \<and> (\<forall>k' p x. disk_page d2 k' = Some p \<longrightarrow> decode_page k' p = Inr x \<longrightarrow> lsn_logged w (dp_lsn x))"
      proof (cases "decode_page k (fr_bytes fr)")
        case (Inl e)
        then have "d2 = bp_disk b" using wr by (simp add: disk_write_page_def sm_bind_def)
        then show ?thesis using w(1) pages lsn_durable_logged by blast
      next
        case x: (Inr x)
        have lx: "lsn_logged w (dp_lsn x)" using dec [OF _ _ x [unfolded fr_def]] lsns [of i] True k by (auto simp: fr_def)
        show ?thesis
        proof (cases r2)
          case (Inl e)
          then have "disk_inv d2" "disk_page d2 = disk_page (bp_disk b)"
            using disk.write_err [OF w(1) x] wr by auto
          then show ?thesis using pages lsn_durable_logged by auto
        next
          case (Inr u)
          then have "disk_inv d2" "disk_page d2 = (disk_page (bp_disk b))(k \<mapsto> fr_bytes fr)"
            using disk.write_ok [OF w(1) x] wr by auto
          then show ?thesis using pages lsn_durable_logged lx x by (auto split: if_splits)
        qed
      qed
      then show ?thesis
        using fl(1,2) dur lsns logged dec True
        by (intro pool_loggedI [of _ w1]) (auto simp: b' put_frame_def fr_def nth_list_update split: sum.splits if_splits)
    qed
  qed
  then show ?thesis by (intro sm_specI) blast+
qed

lemma read_spec:
  "sm_spec pool_logged (on_disk (disk_read_page key))
     (\<lambda>p b. pool_logged b \<and> disk_page (bp_disk b) key = Some p) pool_logged"
proof (rule sm_specI)
  fix b r b' assume b: "pool_logged b"
  have d: "disk_inv (bp_disk b)" using b by (simp add: pool_logged_def)
  have keep: "pool_logged b' \<and> (\<forall>p. r = Inr p \<longrightarrow> disk_page (bp_disk b') key = Some p)"
    if f: "on_disk (disk_read_page key) b = (r, b')" for r b'
  proof -
    obtain d' where rd: "disk_read_page key (bp_disk b) = (r, d')" and b': "b' = b\<lparr>bp_disk := d'\<rparr>"
      using f by (auto simp: on_disk_def split: prod.splits)
    have "disk_inv d'" "disk_page d' = disk_page (bp_disk b)" using disk.read_keeps [OF d rd] by auto
    then show ?thesis
      using b b' disk.read_result [OF d rd] pool_logged_cong [OF b, of b'] by (auto split: option.splits)
  qed
  show "pool_logged b' \<and> disk_page (bp_disk b') key = Some r" if "on_disk (disk_read_page key) b = (Inr r, b')"
    using keep [OF that] by simp
  show "pool_logged b'" if "on_disk (disk_read_page key) b = (Inl e, b')" for e using keep [OF that] by simp
qed

lemma load_page_logged:
  "sm_spec pool_logged (load_page i key)
     (\<lambda>(p, x) b. pool_logged b \<and> disk_page (bp_disk b) key = Some p \<and> decode_page key p = Inr x) pool_logged"
  unfolding load_page_def
  by (intro sm_spec_bind [OF frame_at_spec] sm_spec_bind [OF _ sm_spec_bind [OF read_spec]]
      sm_spec_bind [where Q = "\<lambda>x b. pool_logged b \<and> disk_page (bp_disk b) key = Some p \<and> decode_page key p = Inr x" for p]
      sm_spec_if sm_spec_pre [OF flush_frame_logged] sm_spec_basic) auto

lemma sm_spec_cleanup:
  assumes m: "sm_spec P m Q E'" and h: "sm_spec E' h (\<lambda>_. E) E"
  shows "sm_spec P (sm_cleanup m h) Q E"
proof -
  have "case sm_cleanup m h s of (Inr x, s') \<Rightarrow> Q x s' | (Inl e, s') \<Rightarrow> E s'" if P: "P s" for s
  proof (cases "m s")
    case (Pair r s1)
    show ?thesis
    proof (cases r)
      case (Inr x)
      then show ?thesis using Pair sm_specD(1) [OF m P] by (simp add: sm_cleanup_def)
    next
      case (Inl e)
      then have "E' s1" using Pair sm_specD(2) [OF m P] by simp
      then show ?thesis
        using Pair Inl sm_specD [OF h, of s1] by (cases "h s1", cases "fst (h s1)") (auto simp: sm_cleanup_def)
    qed
  qed
  then show ?thesis by (simp add: sm_spec_def)
qed

lemma fetch_page_logged: "sm_spec pool_logged (fetch_page key) (\<lambda>_. pool_logged) pool_logged"
proof -
  have sel: "sm_spec pool_logged select_frame (\<lambda>_. pool_logged) pool_logged"
    by (rule sm_specI)
      (auto simp: select_frame_def pool_logged_def split: list.splits prod.splits option.splits)
  have undo: "sm_spec pool_logged (undo_select i ff) (\<lambda>_. pool_logged) pool_logged" for i ff
    unfolding undo_select_def
    by (intro sm_spec_if on_clock_keeps sm_spec_modify) (simp add: pool_logged_def)
  have cleanup: "sm_spec pool_logged (sm_cleanup (load_page i key) (undo_select i ff))
      (\<lambda>(p, x) b. pool_logged b \<and> disk_page (bp_disk b) key = Some p \<and> decode_page key p = Inr x) pool_logged" for i ff
    by (rule sm_spec_cleanup [OF load_page_logged undo])
  have forget: "sm_spec P (forget_key k) (\<lambda>_. P) P"
    if "\<And>b t. P b \<Longrightarrow> P (b\<lparr>bp_table := t\<rparr>)" for P :: "buffer_pool \<Rightarrow> bool" and k
    using that by (intro sm_specI) (auto simp: forget_key_def split: option.splits if_splits)
  have pin: "pool_logged (put_frame i (fr\<lparr>fr_pin := n\<rparr>) b)" if "pool_logged b" "i < length (bp_frames b)" "fr = bp_frames b ! i" for i fr n b
    using that by (intro pool_logged_cong [OF that(1)]) (auto simp: put_frame_def nth_list_update pool_logged_def)
  have install: "pool_logged (put_frame i \<lparr>fr_key = Some key, fr_bytes = p, fr_lsn = dp_lsn x, fr_pin = 1, fr_dirty = False\<rparr> b)"
    if b: "pool_logged b" and p: "disk_page (bp_disk b) key = Some p" "decode_page key p = Inr x" for i p x b
    using b p lsn_durable_logged
    by (elim pool_loggedD, intro pool_loggedI) (auto simp: put_frame_def nth_list_update_if split: if_splits)
  have table: "pool_logged (b\<lparr>bp_table := t\<rparr>)" if "pool_logged b" for b t
    by (rule pool_logged_cong [OF that]) (use that in \<open>auto simp: pool_logged_def\<close>)
  have res: "sm_spec pool_logged
      (sm_bind (frame_at i) (\<lambda>fr.
         sm_bind (sm_modify (put_frame i (fr\<lparr>fr_pin := fr_pin fr + 1\<rparr>))) (\<lambda>_.
         sm_bind (on_clock (mark_evictable i False)) (\<lambda>_.
         sm_bind (on_clock (record_access i)) (\<lambda>_. sm_return g))))) (\<lambda>_. pool_logged) pool_logged" for i and g :: page_guard
    by (intro sm_spec_bind [OF frame_at_spec] sm_spec_bind [where Q = "\<lambda>_. pool_logged", OF sm_spec_modify] sm_spec_bind [OF on_clock_keeps] sm_spec_return)
      (auto intro: pin)
  have load: "sm_spec pool_logged
      (sm_bind (sm_cleanup (load_page i key) (undo_select i ff)) (\<lambda>(page_bytes, decoded).
         sm_bind (frame_at i) (\<lambda>fr.
         sm_bind (forget_key (fr_key fr)) (\<lambda>_.
         sm_bind (sm_modify (put_frame i \<lparr>fr_key = Some key, fr_bytes = page_bytes,
           fr_lsn = dp_lsn decoded, fr_pin = 1, fr_dirty = False\<rparr>)) (\<lambda>_.
         sm_bind (sm_modify (\<lambda>b. b\<lparr>bp_table := AList.update key i (bp_table b)\<rparr>)) (\<lambda>_.
         sm_bind (on_clock (record_access i)) (\<lambda>_.
         sm_bind (on_clock (mark_evictable i False)) (\<lambda>_. sm_return g)))))))) (\<lambda>_. pool_logged) pool_logged" for i ff and g :: page_guard
  proof (rule sm_spec_bind [OF cleanup], clarify)
    fix p x
    define P where "P = (\<lambda>b. pool_logged b \<and> disk_page (bp_disk b) key = Some p \<and> decode_page key p = Inr x)"
    have tabP: "P (b\<lparr>bp_table := t\<rparr>)" if "P b" for b t using that table by (simp add: P_def)
    have fa: "sm_spec P (frame_at i) (\<lambda>_. P) pool_logged"
      by (rule sm_spec_post [OF frame_at_spec [of P]]) (simp_all add: P_def)
    have "sm_spec P (forget_key k) (\<lambda>_. P) P" for k by (rule forget) (rule tabP)
    then have fk: "sm_spec P (forget_key k) (\<lambda>_. P) pool_logged" for k
      by (rule sm_spec_post) (simp_all add: P_def)
    have tail: "sm_spec P
        (sm_bind (frame_at i) (\<lambda>fr.
         sm_bind (forget_key (fr_key fr)) (\<lambda>_.
         sm_bind (sm_modify (put_frame i \<lparr>fr_key = Some key, fr_bytes = p,
           fr_lsn = dp_lsn x, fr_pin = 1, fr_dirty = False\<rparr>)) (\<lambda>_.
         sm_bind (sm_modify (\<lambda>b. b\<lparr>bp_table := AList.update key i (bp_table b)\<rparr>)) (\<lambda>_.
         sm_bind (on_clock (record_access i)) (\<lambda>_.
         sm_bind (on_clock (mark_evictable i False)) (\<lambda>_. sm_return g))))))) (\<lambda>_. pool_logged) pool_logged"
      by (intro sm_spec_bind [OF fa] sm_spec_bind [OF fk] sm_spec_bind [where Q = "\<lambda>_. pool_logged", OF sm_spec_modify] sm_spec_bind [OF on_clock_keeps] sm_spec_return)
        (auto simp: P_def intro: table install [unfolded One_nat_def])
    show "sm_spec (\<lambda>b. pool_logged b \<and> disk_page (bp_disk b) key = Some p \<and> decode_page key p = Inr x)
        (sm_bind (frame_at i) (\<lambda>fr.
         sm_bind (forget_key (fr_key fr)) (\<lambda>_.
         sm_bind (sm_modify (put_frame i \<lparr>fr_key = Some key, fr_bytes = p,
           fr_lsn = dp_lsn x, fr_pin = 1, fr_dirty = False\<rparr>)) (\<lambda>_.
         sm_bind (sm_modify (\<lambda>b. b\<lparr>bp_table := AList.update key i (bp_table b)\<rparr>)) (\<lambda>_.
         sm_bind (on_clock (record_access i)) (\<lambda>_.
         sm_bind (on_clock (mark_evictable i False)) (\<lambda>_. sm_return g))))))) (\<lambda>_. pool_logged) pool_logged"
      using tail by (simp add: P_def)
  qed
  have "pool_logged b'" if b: "pool_logged b" and f: "fetch_page key b = (r, b')" for b r b'
  proof (cases "map_of (bp_table b) key")
    case (Some i)
    then show ?thesis using f sm_spec_keeps [OF res b] by (simp add: fetch_page_def sm_bind_def [of "sm_get _"])
  next
    case None
    have all: "sm_spec pool_logged (sm_bind select_frame (\<lambda>(i, ff).
      sm_bind (sm_cleanup (load_page i key) (undo_select i ff)) (\<lambda>(page_bytes, decoded).
         sm_bind (frame_at i) (\<lambda>fr.
         sm_bind (forget_key (fr_key fr)) (\<lambda>_.
         sm_bind (sm_modify (put_frame i \<lparr>fr_key = Some key, fr_bytes = page_bytes,
           fr_lsn = dp_lsn decoded, fr_pin = 1, fr_dirty = False\<rparr>)) (\<lambda>_.
         sm_bind (sm_modify (\<lambda>b. b\<lparr>bp_table := AList.update key i (bp_table b)\<rparr>)) (\<lambda>_.
         sm_bind (on_clock (record_access i)) (\<lambda>_.
         sm_bind (on_clock (mark_evictable i False)) (\<lambda>_.
         sm_return \<lparr>pg_frame_id = i, pg_key = key, pg_released = False\<rparr>))))))))) (\<lambda>_. pool_logged) pool_logged"
      by (rule sm_spec_bind [OF sel], simp only: split_paired_all prod.case, rule load)
    then show ?thesis using f None sm_spec_keeps [OF all b] by (simp add: fetch_page_def sm_bind_def [of "sm_get _"])
  qed
  then show ?thesis by (intro sm_specI) blast+
qed

lemma flush_frames_logged: "sm_spec pool_logged (flush_frames is) (\<lambda>_. pool_logged) pool_logged"
proof (induction "is")
  case Nil
  show ?case unfolding flush_frames.simps by (rule sm_spec_return)
next
  case (Cons i "is")
  have fa: "sm_spec pool_logged (frame_at i) (\<lambda>_. pool_logged) pool_logged"
    by (rule sm_spec_post [OF frame_at_spec [of pool_logged]]) simp_all
  show ?case
    unfolding flush_frames.simps
    by (intro sm_spec_bind [OF fa] sm_spec_bind [OF _ Cons.IH] sm_spec_if flush_frame_logged sm_spec_return) simp
qed

section \<open>Runs of the pool\<close>

text \<open>
  One step is one call of the pool by a client, or an append to the log or a flush of it. A client
  publishes a page with the LSN of a record it has appended, or with LSN zero for an unlogged
  page, as the heap and the B+Tree do.
\<close>

inductive bp_step :: "buffer_pool \<Rightarrow> buffer_pool \<Rightarrow> bool" where
  bp_fetch: "valid_page_key key \<Longrightarrow> fetch_page key b = (rg, b') \<Longrightarrow> bp_step b b'"
| bp_new: "rel_object_id r < 2 ^ 64 \<Longrightarrow> new_page r kind b = (rg, b') \<Longrightarrow> bp_step b b'"
| bp_flush_page: "flush_page key b = (ru, b') \<Longrightarrow> bp_step b b'"
| bp_flush_all: "flush_all b = (ru, b') \<Longrightarrow> bp_step b b'"
| bp_release: "release_guard i key b = (ru, b') \<Longrightarrow> bp_step b b'"
| bp_publish: "encode_page (pg_key g) kind lsn body = Inr p \<Longrightarrow>
    lsn = 0 \<or> (\<exists>w. bp_wal b = Some w \<and> (\<exists>e \<in> set (wm_entries w). wr_lsn e = lsn)) \<Longrightarrow>
    publish_bytes g p lsn b = (ru, b') \<Longrightarrow> bp_step b b'"
| bp_append: "bp_wal b = Some w \<Longrightarrow> valid_record rec \<Longrightarrow> wal_append xid rec w = (rn, w') \<Longrightarrow>
    bp_step b (b\<lparr>bp_wal := Some w'\<rparr>)"
| bp_log_flush: "bp_wal b = Some w \<Longrightarrow> wal_flush req w = (ru, w') \<Longrightarrow> bp_step b (b\<lparr>bp_wal := Some w'\<rparr>)"

inductive_cases bp_stepE: "bp_step b b'"

lemma new_page_inv:
  assumes inv: "bp_inv b" and r: "rel_object_id r < 2 ^ 64" and f: "new_page r kind b = (res, b')"
  shows "bp_inv b'" and "pins_kept b b'"
    and "\<And>g. res = Inr g \<Longrightarrow> live_guard b' g \<and> key_relation (pg_key g) = r \<and> bp_view b (pg_key g) = None
      \<and> (\<exists>p. encode_page (pg_key g) (default_page_kind r kind) 0 [] = Inr p \<and> bp_view b' = (bp_view b)(pg_key g \<mapsto> p))"
proof -
  obtain r1 b1 where a: "on_disk (disk_allocate_page r kind) b = (r1, b1)" by fastforce
  note a' = allocate_inv [OF inv r a]
  have "bp_inv b' \<and> pins_kept b b' \<and> (\<forall>g. res = Inr g \<longrightarrow> live_guard b' g \<and> key_relation (pg_key g) = r \<and> bp_view b (pg_key g) = None
      \<and> (\<exists>p. encode_page (pg_key g) (default_page_kind r kind) 0 [] = Inr p \<and> bp_view b' = (bp_view b)(pg_key g \<mapsto> p)))"
  proof (cases r1)
    case (Inl e)
    then show ?thesis using f a a'(1,2) by (auto simp: new_page_def sm_bind_def)
  next
    case (Inr k)
    then have fe: "fetch_page k b1 = (res, b')" using f a by (simp add: new_page_def sm_bind_def)
    note k = a'(4) [OF Inr]
    note c = fetch_page_cases [OF a'(1) _ fe]
    have kept: "pins_kept b b'"
      using a'(2) c(3) k unfolding pins_kept_def by (metis order_trans less_le_trans)
    show ?thesis using c k kept by (auto simp: live_guard_def)
  qed
  then show "bp_inv b'" "pins_kept b b'"
    "\<And>g. res = Inr g \<Longrightarrow> live_guard b' g \<and> key_relation (pg_key g) = r \<and> bp_view b (pg_key g) = None
      \<and> (\<exists>p. encode_page (pg_key g) (default_page_kind r kind) 0 [] = Inr p \<and> bp_view b' = (bp_view b)(pg_key g \<mapsto> p))"
    by blast+
qed

lemma bp_inv_wal: "bp_inv (b\<lparr>bp_wal := w\<rparr>) \<longleftrightarrow> bp_inv b"
  by (simp add: bp_inv_def bp_core_def table_ok_def free_ok_def pins_ok_def)

lemma bp_step_inv: "bp_step b b' \<Longrightarrow> bp_inv b \<Longrightarrow> bp_inv b'"
proof (induction rule: bp_step.induct)
  case (bp_publish g kind lsn body p b ru b')
  then show ?case using publish_cases [OF bp_publish.prems bp_publish.hyps(1,3)] by (auto split: if_splits)
qed (blast intro: fetch_page_cases(1) new_page_inv(1) flush_page_cases(1) flush_all_cases(1)
    release_guard_cases(1) bp_inv_wal [THEN iffD2])+

lemma allocate_logged:
  assumes b: "pool_logged b" and "rel_object_id r < 2 ^ 64" and f: "on_disk (disk_allocate_page r kind) b = (res, b')"
  shows "pool_logged b'"
proof -
  obtain w where w: "disk_inv (bp_disk b)" "bp_wal b = Some w" "wal_inv w" "wal_durable w"
    and pages: "\<And>k p x. disk_page (bp_disk b) k = Some p \<Longrightarrow> decode_page k p = Inr x \<Longrightarrow> lsn_durable w (dp_lsn x)"
    and rest: "\<And>i. i < length (bp_frames b) \<Longrightarrow> lsn_logged w (fr_lsn (bp_frames b ! i))"
      "\<And>i k x. i < length (bp_frames b) \<Longrightarrow> fr_key (bp_frames b ! i) = Some k \<Longrightarrow>
        decode_page k (fr_bytes (bp_frames b ! i)) = Inr x \<Longrightarrow> dp_lsn x = fr_lsn (bp_frames b ! i)"
    using b by (rule pool_loggedD) auto
  obtain d' where a: "disk_allocate_page r kind (bp_disk b) = (res, d')" and b': "b' = b\<lparr>bp_disk := d'\<rparr>"
    using f by (auto simp: on_disk_def split: prod.splits)
  show ?thesis
  proof (cases res)
    case (Inl e)
    then have "disk_inv d' \<and> disk_page d' = disk_page (bp_disk b)" using disk.allocate_err [OF w(1) assms(2)] a by simp
    then show ?thesis using pool_logged_cong [OF b, of b'] b' by simp
  next
    case (Inr k)
    then obtain p where p: "disk_inv d'" "valid_page_key k" "encode_page k (default_page_kind r kind) 0 [] = Inr p"
      "disk_page d' = (disk_page (bp_disk b))(k \<mapsto> p)"
      using disk.allocate_ok [OF w(1) assms(2)] a by blast
    have "lsn_durable w (dp_lsn x)" if "disk_page d' k' = Some q" "decode_page k' q = Inr x" for k' q x
      using that pages p(4) encode_page_decode [OF p(3,2)] by (cases "k' = k") (auto simp: lsn_durable_def)
    then show ?thesis using p(1) w rest by (intro pool_loggedI [of _ w]) (auto simp: b')
  qed
qed

lemma publish_logged:
  assumes b: "pool_logged b" and inv: "bp_inv b" and enc: "encode_page (pg_key g) kind lsn body = Inr p"
    and src: "lsn = 0 \<or> (\<exists>w. bp_wal b = Some w \<and> (\<exists>e \<in> set (wm_entries w). wr_lsn e = lsn))"
    and f: "publish_bytes g p lsn b = (res, b')"
  shows "pool_logged b'"
proof (cases "live_guard b g \<and> fr_lsn (bp_frames b ! pg_frame_id g) \<le> lsn")
  case False
  then show ?thesis using publish_cases [OF inv enc f] b by auto
next
  case True
  then have b': "b' = put_frame (pg_frame_id g) ((bp_frames b ! pg_frame_id g)\<lparr>fr_bytes := p, fr_lsn := lsn, fr_dirty := True\<rparr>) b"
    using publish_cases [OF inv enc f] by simp
  have g: "pg_frame_id g < length (bp_frames b)" "fr_key (bp_frames b ! pg_frame_id g) = Some (pg_key g)"
    using True by (auto simp: live_guard_def)
  then have "valid_page_key (pg_key g)" using inv by (auto simp: bp_inv_def bp_core_def frame_ok_def)
  note dec = encode_page_decode [OF enc this]
  obtain w where w: "disk_inv (bp_disk b)" "bp_wal b = Some w" "wal_inv w" "wal_durable w"
    and pages: "\<And>k p x. disk_page (bp_disk b) k = Some p \<Longrightarrow> decode_page k p = Inr x \<Longrightarrow> lsn_durable w (dp_lsn x)"
    and rest: "\<And>i. i < length (bp_frames b) \<Longrightarrow> lsn_logged w (fr_lsn (bp_frames b ! i))"
      "\<And>i k x. i < length (bp_frames b) \<Longrightarrow> fr_key (bp_frames b ! i) = Some k \<Longrightarrow>
        decode_page k (fr_bytes (bp_frames b ! i)) = Inr x \<Longrightarrow> dp_lsn x = fr_lsn (bp_frames b ! i)"
    using b by (rule pool_loggedD) auto
  have "lsn_logged w lsn" using src w log_at_lsn_less [of 0 "wm_entries w" "wm_file w"] by (auto simp: lsn_logged_def wal_inv_def)
  then show ?thesis
    using w pages rest g dec
    by (intro pool_loggedI [of _ w]) (auto simp: b' put_frame_def nth_list_update_if split: if_splits)
qed

lemma append_logged:
  assumes b: "pool_logged b" and w: "bp_wal b = Some w" and v: "valid_record rec" and a: "wal_append xid rec w = (rn, w')"
  shows "pool_logged (b\<lparr>bp_wal := Some w'\<rparr>)"
proof -
  have i: "disk_inv (bp_disk b)" "wal_inv w" "wal_durable w"
    and pages: "\<And>k p x. disk_page (bp_disk b) k = Some p \<Longrightarrow> decode_page k p = Inr x \<Longrightarrow> lsn_durable w (dp_lsn x)"
    and rest: "\<And>i. i < length (bp_frames b) \<Longrightarrow> lsn_logged w (fr_lsn (bp_frames b ! i))"
      "\<And>i k x. i < length (bp_frames b) \<Longrightarrow> fr_key (bp_frames b ! i) = Some k \<Longrightarrow>
        decode_page k (fr_bytes (bp_frames b ! i)) = Inr x \<Longrightarrow> dp_lsn x = fr_lsn (bp_frames b ! i)"
    using b w by (auto elim!: pool_loggedD)
  show ?thesis
  proof (cases rn)
    case (Inl e)
    then have "w' = w" using wal_append_err(1) a v by blast
    then show ?thesis using b w by (cases b) simp
  next
    case (Inr lsn)
    note ok = wal_append_ok [OF i(2) a [unfolded Inr] v]
    have dur: "lsn_durable w' l" if "lsn_durable w l" for l
      using that ok by (auto simp: lsn_durable_def)
    have "lsn_logged w' l" if "lsn_logged w l" for l using that ok by (auto simp: lsn_logged_def)
    moreover have "wal_durable w'" using wal_append_durable [OF i(2) a [unfolded Inr] v i(3)] .
    ultimately show ?thesis using i(1) ok(1) dur pages rest by (intro pool_loggedI [of _ w']) auto
  qed
qed

lemma log_flush_logged:
  assumes b: "pool_logged b" and w: "bp_wal b = Some w" and a: "wal_flush req w = (ru, w')"
  shows "pool_logged (b\<lparr>bp_wal := Some w'\<rparr>)"
proof -
  have i: "disk_inv (bp_disk b)" "wal_inv w" "wal_durable w"
    and pages: "\<And>k p x. disk_page (bp_disk b) k = Some p \<Longrightarrow> decode_page k p = Inr x \<Longrightarrow> lsn_durable w (dp_lsn x)"
    and rest: "\<And>i. i < length (bp_frames b) \<Longrightarrow> lsn_logged w (fr_lsn (bp_frames b ! i))"
      "\<And>i k x. i < length (bp_frames b) \<Longrightarrow> fr_key (bp_frames b ! i) = Some k \<Longrightarrow>
        decode_page k (fr_bytes (bp_frames b ! i)) = Inr x \<Longrightarrow> dp_lsn x = fr_lsn (bp_frames b ! i)"
    using b w by (auto elim!: pool_loggedD)
  show ?thesis
  proof (cases ru)
    case (Inl e)
    then have "w' = w" using wal_flush_err a by blast
    then show ?thesis using b w by (cases b) simp
  next
    case (Inr u)
    note ok = wal_flush_ok [OF i(2,3) a [unfolded Inr]]
    have l: "lsn_logged w' l \<longleftrightarrow> lsn_logged w l" for l using ok by (simp add: lsn_logged_def)
    have "lsn_durable w' l" if "lsn_durable w l" for l
      using flushed_durable [OF ok(1)] ok(3,5) l lsn_durable_logged [OF that] by simp
    then show ?thesis using i(1) ok(1,2) pages rest l by (intro pool_loggedI [of _ w']) auto
  qed
qed

lemma bp_step_logged: "bp_step b b' \<Longrightarrow> bp_inv b \<Longrightarrow> pool_logged b \<Longrightarrow> pool_logged b'"
proof (induction rule: bp_step.induct)
  case (bp_fetch key b rg b')
  show ?case by (rule sm_spec_keeps [OF fetch_page_logged bp_fetch.prems(2) bp_fetch.hyps(2)])
next
  case (bp_new r kind b rg b')
  obtain r1 b1 where a: "on_disk (disk_allocate_page r kind) b = (r1, b1)" by fastforce
  have b1: "pool_logged b1" using allocate_logged [OF bp_new.prems(2) bp_new.hyps(1) a] .
  then show ?case
    using bp_new.hyps(2) a sm_spec_keeps [OF fetch_page_logged b1]
    by (cases r1) (auto simp: new_page_def sm_bind_def)
next
  case (bp_flush_page key b ru b')
  have k: "sm_spec pool_logged (flush_page key) (\<lambda>_. pool_logged) pool_logged"
    unfolding flush_page_def
    by (rule sm_spec_bind [OF _ flush_frame_logged]) (auto simp: sm_spec_def resident_frame_def split: option.split)
  show ?case by (rule sm_spec_keeps [OF k bp_flush_page.prems(2) bp_flush_page.hyps])
next
  case (bp_flush_all b ru b')
  then show ?case
    using sm_spec_keeps [OF flush_frames_logged bp_flush_all.prems(2)] by (simp add: flush_all_def)
next
  case (bp_release i key b ru b')
  note c = release_guard_cases [OF bp_release.prems(1) bp_release.hyps]
  have "fr_key (bp_frames b' ! j) = fr_key (bp_frames b ! j) \<and> fr_bytes (bp_frames b' ! j) = fr_bytes (bp_frames b ! j)
    \<and> fr_lsn (bp_frames b' ! j) = fr_lsn (bp_frames b ! j)" for j
    using c(4) [of j] c(6,9) by (cases "j = i"; cases "ru = Inr ()") simp_all
  then show ?case using pool_logged_cong [OF bp_release.prems(2)] c(5,7,8) bp_release.prems(2) by (simp add: pool_logged_def)
qed (blast intro: publish_logged append_logged log_flush_logged)+

lemma bp_steps_keep:
  "bp_step\<^sup>*\<^sup>* b b' \<Longrightarrow> bp_inv b \<Longrightarrow> pool_logged b \<Longrightarrow> bp_inv b' \<and> pool_logged b'"
  by (induction rule: rtranclp_induct) (blast dest: bp_step_inv bp_step_logged)+

lemma mk_buffer_pool_inv:
  assumes "mk_buffer_pool d n wal = Inr b" and "disk_inv d"
  shows "bp_inv b" and "bp_view b = disk_page d"
    and "\<And>w. wal = Some w \<Longrightarrow> wal_inv w \<Longrightarrow> wal_durable w \<Longrightarrow>
      (\<And>k p x. disk_page d k = Some p \<Longrightarrow> decode_page k p = Inr x \<Longrightarrow> lsn_durable w (dp_lsn x)) \<Longrightarrow> pool_logged b"
proof -
  have n: "0 < n" and b: "b = \<lparr>bp_disk = d, bp_wal = wal, bp_frames = replicate (nat n) empty_frame,
      bp_table = [], bp_free = [0..<nat n], bp_clock = \<lparr>ck_referenced = replicate (nat n) False,
        ck_evictable = replicate (nat n) False, ck_hand = 0\<rparr>\<rparr>"
    using assms(1) by (auto simp: mk_buffer_pool_def mk_clock_def split: if_splits)
  show "bp_inv b"
    using assms(2) n
    by (auto simp: b bp_inv_def bp_core_def table_ok_def free_ok_def pins_ok_def clock_wf_def frame_ok_def empty_frame_def)
  show "bp_view b = disk_page d" by (simp add: b bp_view_def fun_eq_iff)
  show "pool_logged b" if "wal = Some w" "wal_inv w" "wal_durable w"
    "\<And>k p x. disk_page d k = Some p \<Longrightarrow> decode_page k p = Inr x \<Longrightarrow> lsn_durable w (dp_lsn x)" for w
    using that assms(2) by (intro pool_loggedI [of _ w]) (auto simp: b empty_frame_def lsn_logged_def)
qed

section \<open>Availability\<close>

lemma wal_flush_logged:
  "lsn_logged w l \<Longrightarrow> \<not> wm_closed w \<Longrightarrow> \<exists>w'. wal_flush (Some l) w = (Inr (), w')"
  by (auto simp: lsn_logged_def wal_flush_def sm_bind_def wal_ensure_open_def)

lemma flush_frame_succeeds:
  assumes core: "bp_core b" and log: "pool_logged b" and w: "bp_wal b = Some w" "\<not> wm_closed w"
    and i: "i < length (bp_frames b)"
  shows "\<exists>b'. flush_frame i b = (Inr (), b')"
proof (cases "fr_dirty (bp_frames b ! i)")
  case False
  then show ?thesis using i by (simp add: flush_frame_def sm_bind_def frame_at_def)
next
  case True
  have "frame_ok (bp_disk b) (bp_frames b ! i)" using core i by (simp add: bp_core_def)
  then obtain k x q where k: "fr_key (bp_frames b ! i) = Some k" "decode_page k (fr_bytes (bp_frames b ! i)) = Inr x"
    "disk_page (bp_disk b) k = Some q"
    using True by (auto simp: frame_ok_def split: option.splits)
  have "lsn_logged w (fr_lsn (bp_frames b ! i))" using log w i by (auto elim!: pool_loggedD)
  then obtain w' where w': "wal_flush (Some (fr_lsn (bp_frames b ! i))) w = (Inr (), w')"
    using wal_flush_logged w(2) by blast
  have "disk_inv (bp_disk b)" using core by (simp add: bp_core_def)
  then obtain d' where "disk_write_page k (fr_bytes (bp_frames b ! i)) (bp_disk b) = (Inr (), d')"
    using disk.write_succeeds [OF _ k(2,3)] by metis
  then show ?thesis
    using True k(1) w(1) w' i
    by (simp add: flush_frame_def sm_bind_def frame_at_def wal_flush_gate_def on_disk_def)
qed

lemma load_page_succeeds:
  assumes core: "bp_core b" and log: "pool_logged b" and w: "bp_wal b = Some w" "\<not> wm_closed w"
    and i: "i < length (bp_frames b)" and p: "disk_page (bp_disk b) key = Some p"
    and none: "map_of (bp_table b) key = None"
  shows "\<exists>r b'. load_page i key b = (Inr r, b')"
proof -
  obtain b1 where f1: "(if fr_key (bp_frames b ! i) \<noteq> None then flush_frame i else sm_return ()) b = (Inr (), b1)"
  proof (cases "fr_key (bp_frames b ! i) = None")
    case True
    then show thesis using that [of b] by simp
  next
    case False
    then show thesis using that flush_frame_succeeds [OF core log w i] by auto
  qed
  have c1: "bp_core b1 \<and> same_pages b b1" using f1 flush_frame_cases [OF core i] core by (auto split: if_splits)
  have d1: "disk_inv (bp_disk b1)" "disk_page (bp_disk b1) key = Some p"
    using c1 p none same_pagesD(9) [of b b1 key] by (auto simp: bp_core_def)
  obtain d2 where "disk_read_page key (bp_disk b1) = (Inr p, d2)"
    using disk.read_result [OF d1(1), of key] d1(2) by (cases "disk_read_page key (bp_disk b1)") auto
  moreover obtain x where "decode_page key p = Inr x" using disk.view_decodes p by blast
  ultimately show ?thesis
    using i f1 by (auto simp: load_page_def sm_bind_def frame_at_def on_disk_def)
qed

lemma fetch_page_succeeds:
  assumes inv: "bp_inv b" and log: "pool_logged b" and w: "bp_wal b = Some w" "\<not> wm_closed w"
    and v: "valid_page_key key" and p: "bp_view b key = Some p"
    and room: "map_of (bp_table b) key \<noteq> None \<or> (\<exists>i < length (bp_frames b). fr_pin (bp_frames b ! i) = 0)"
  shows "\<exists>g b'. fetch_page key b = (Inr g, b')"
proof (cases "map_of (bp_table b) key")
  case (Some i)
  have "i < length (bp_frames b)" "length (ck_evictable (bp_clock b)) = length (bp_frames b)"
    using inv Some table_okD(2) [of b key i] by (auto simp: bp_inv_def bp_core_def pins_ok_def)
  then show ?thesis
    using Some by (simp add: fetch_page_def sm_bind_def frame_at_def on_clock_mark on_clock_access put_frame_def)
next
  case None
  obtain r1 b1 where sel: "select_frame b = (r1, b1)" by fastforce
  note s = select_frame_cases [OF inv sel]
  obtain i ff where r1: "r1 = Inr (i, ff)"
    using s(7) room None by (cases r1) auto
  note s = select_frame_cases [OF inv sel [unfolded r1]]
  have i1: "i < length (bp_frames b1)" using s by simp
  have log1: "pool_logged b1"
    using pool_logged_cong [OF log, of b1] s(3,5,6) log by (simp add: pool_logged_def)
  have "disk_page (bp_disk b1) key = Some p" "map_of (bp_table b1) key = None" "bp_wal b1 = Some w"
    using p None s(4,5,6) w(1) by (auto simp: bp_view_def)
  then obtain px b2 where ld: "load_page i key b1 = (Inr px, b2)"
    using load_page_succeeds [OF s(1) log1 _ w(2) i1, of key p] by blast
  note l = load_page_cases [OF s(1) i1 ld]
  have i2: "i < length (bp_frames b2)" "i < length (ck_evictable (bp_clock b2))"
    using i1 same_pagesD(3,4) [OF l(2)] s(3,7) by auto
  have "map_of (bp_table b2) k \<noteq> None" if "fr_key (bp_frames b2 ! i) = Some k" for k
    using l(1) that i2 by (auto simp: bp_core_def dest: table_okD(2) [THEN iffD2])
  then show ?thesis
    using None sel r1 ld i2
    by (cases px) (auto simp: fetch_page_def sm_bind_def sm_cleanup_def frame_at_def forget_key_def put_frame_def
        on_clock_mark on_clock_access split: option.splits)
qed

section \<open>Properties\<close>

text \<open>
  Claim C7. Fetching a page, including any eviction and write-back it needs, changes no logical page
  and neither moves nor alters a pinned page, whether or not it succeeds; on success the guard
  holds a pin and reads the logical contents of the page.
\<close>

theorem fetch_page_spec:
  assumes "bp_inv b" and "valid_page_key key" and "fetch_page key b = (res, b')"
  shows "bp_inv b' \<and> bp_view b' = bp_view b \<and> pins_kept b b'
    \<and> (\<forall>g. res = Inr g \<longrightarrow> live_guard b' g \<and> pg_key g = key
         \<and> (\<exists>p. bp_view b key = Some p \<and> pg_page_bytes g b' = (Inr p, b')))"
proof -
  note c = fetch_page_cases [OF assms]
  have "live_guard b' g \<and> pg_key g = key \<and> (\<exists>p. bp_view b key = Some p \<and> pg_page_bytes g b' = (Inr p, b'))"
    if "res = Inr g" for g
    using c(4) [OF that]
    by (auto simp: live_guard_def pg_page_bytes_def guard_ensure_active_def guard_page_bytes_def sm_bind_def
        guarded_frame_cases)
  then show ?thesis using c(1-3) by blast
qed

text \<open>
  Claim C20. With an open log, fetching a page succeeds exactly when the page exists and it is already
  resident or some frame is unpinned: neither a dirty victim nor the write-ahead rule can block it.
\<close>

theorem fetch_page_available:
  assumes "bp_inv b" and "pool_logged b" and "bp_wal b = Some w" and "\<not> wm_closed w" and "valid_page_key key"
  shows "(\<exists>g b'. fetch_page key b = (Inr g, b')) \<longleftrightarrow>
    bp_view b key \<noteq> None
    \<and> (map_of (bp_table b) key \<noteq> None \<or> (\<exists>i < length (bp_frames b). fr_pin (bp_frames b ! i) = 0))"
proof
  assume "\<exists>g b'. fetch_page key b = (Inr g, b')"
  then obtain g b' where f: "fetch_page key b = (Inr g, b')" by blast
  have "map_of (bp_table b) key \<noteq> None \<or> (\<exists>i < length (bp_frames b). fr_pin (bp_frames b ! i) = 0)"
  proof (cases "map_of (bp_table b) key")
    case None
    obtain r1 b1 where sel: "select_frame b = (r1, b1)" by fastforce
    then obtain i ff where "r1 = Inr (i, ff)"
      using f None by (cases r1) (auto simp: fetch_page_def sm_bind_def)
    then show ?thesis using select_frame_cases(7) [OF assms(1) sel] by auto
  qed simp
  then show "bp_view b key \<noteq> None
    \<and> (map_of (bp_table b) key \<noteq> None \<or> (\<exists>i < length (bp_frames b). fr_pin (bp_frames b ! i) = 0))"
    using fetch_page_cases(4) [OF assms(1,5) f] by auto
next
  assume "bp_view b key \<noteq> None
    \<and> (map_of (bp_table b) key \<noteq> None \<or> (\<exists>i < length (bp_frames b). fr_pin (bp_frames b ! i) = 0))"
  then show "\<exists>g b'. fetch_page key b = (Inr g, b')"
    using fetch_page_succeeds [OF assms] by blast
qed

text \<open>
  Claim C26. Publishing an encoded page through a guard replaces exactly that logical page when the guard
  still holds its pin and the LSN does not go backwards; otherwise it raises and nothing changes.
\<close>

theorem publish_spec:
  assumes "bp_inv b" and "encode_page (pg_key g) kind lsn body = Inr p"
  shows "\<exists>res b'. publish_bytes g p lsn b = (res, b') \<and> bp_inv b'
    \<and> (if live_guard b g \<and> fr_lsn (bp_frames b ! pg_frame_id g) \<le> lsn
       then res = Inr () \<and> bp_view b' = (bp_view b)(pg_key g \<mapsto> p)
       else (\<exists>e. res = Inl e) \<and> b' = b)"
proof -
  obtain res b' where "publish_bytes g p lsn b = (res, b')" by fastforce
  then show ?thesis using publish_cases [OF assms] assms(1) by (auto split: if_splits)
qed

text \<open>
  Claim C1. Write-ahead logging. Start the pool on a disk whose page LSNs are durable in the log, and
  run any sequence of fetches, allocations, releases, publications, flushes and log appends: every
  page on disk with a nonzero LSN has all log records that start at or before that LSN in the
  durable part of the log file, and the pool's invariant holds.
\<close>

theorem wal_before_data:
  assumes "disk_inv d" and "wal_inv w" and "wal_durable w"
    and "\<And>k p x. disk_page d k = Some p \<Longrightarrow> decode_page k p = Inr x \<Longrightarrow> lsn_durable w (dp_lsn x)"
    and "mk_buffer_pool d n (Some w) = Inr b0" and "bp_step\<^sup>*\<^sup>* b0 b"
  shows "bp_inv b \<and> (\<exists>w'. bp_wal b = Some w'
    \<and> (\<forall>k p x e. disk_page (bp_disk b) k = Some p \<longrightarrow> decode_page k p = Inr x \<longrightarrow> dp_lsn x \<noteq> 0 \<longrightarrow>
         e \<in> set (wm_entries w') \<longrightarrow> wr_lsn e \<le> dp_lsn x \<longrightarrow> wr_end_lsn e \<le> wm_synced w'))"
proof -
  have s: "bp_inv b \<and> pool_logged b"
    using bp_steps_keep [OF assms(6)] mk_buffer_pool_inv [OF assms(5,1)] assms(2-4) by blast
  then obtain w' where w': "bp_wal b = Some w'" "wal_durable w'"
    and pages: "\<And>k p x. disk_page (bp_disk b) k = Some p \<Longrightarrow> decode_page k p = Inr x \<Longrightarrow> lsn_durable w' (dp_lsn x)"
    by (auto elim: pool_loggedD)
  have "wr_end_lsn e \<le> wm_synced w'"
    if "disk_page (bp_disk b) k = Some p" "decode_page k p = Inr x" "dp_lsn x \<noteq> 0" "e \<in> set (wm_entries w')"
      "wr_lsn e \<le> dp_lsn x" for k p x e
    using pages [OF that(1,2)] that(3-5) w'(2) by (fastforce simp: lsn_durable_def wal_durable_def)
  then show ?thesis using s w'(1) by blast
qed

text \<open>
  Claim C27. A successful \<open>flush_all\<close> leaves on disk exactly the logical pages.
\<close>

theorem flush_all_spec:
  assumes "bp_inv b" and "flush_all b = (Inr (), b')"
  shows "disk_page (bp_disk b') = bp_view b \<and> bp_view b' = bp_view b \<and> bp_inv b' \<and> pins_kept b b'"
  using flush_all_cases [OF assms] by simp

section \<open>A pool at work\<close>

text \<open>A pool of one frame over an empty database, with an empty log.\<close>

lemma fresh_disk_page: "disk_page fresh_disk k = None"
  by (rule disk_page_beyond) (simp add: fresh_disk_def disk_open_def disk_pages_def rel_bytes_def disk_contents_def)

lemma fresh_pool:
  obtains b where "mk_buffer_pool fresh_disk 1 (Some empty_log) = Inr b" and "bp_inv b" and "pool_logged b"
    and "bp_view b = Map.empty" and "bp_wal b = Some empty_log" and "length (bp_frames b) = 1"
    and "fr_pin (bp_frames b ! 0) = 0"
proof -
  obtain b where b: "mk_buffer_pool fresh_disk 1 (Some empty_log) = Inr b" "bp_wal b = Some empty_log"
    "length (bp_frames b) = 1" "fr_pin (bp_frames b ! 0) = 0"
    by (auto simp: mk_buffer_pool_def mk_clock_def empty_frame_def)
  note m = mk_buffer_pool_inv [OF b(1) fresh_disk_inv]
  have "bp_view b = Map.empty" using m(2) fresh_disk_page by (simp add: fun_eq_iff)
  then show thesis using that b m(1) m(3) [OF refl empty_log_ok(1,2)] fresh_disk_page by simp
qed

text \<open>Allocating the first heap page of table 7 in that pool.\<close>

lemma one_page_pool:
  obtains b0 b g p where "mk_buffer_pool fresh_disk 1 (Some empty_log) = Inr b0" and "bp_step\<^sup>*\<^sup>* b0 b"
    and "bp_inv b" and "pool_logged b" and "bp_wal b = Some empty_log" and "live_guard b g"
    and "valid_page_key (pg_key g)" and "fr_lsn (bp_frames b ! pg_frame_id g) = 0" and "bp_view b (pg_key g) = Some p"
proof -
  obtain b0 where b0: "mk_buffer_pool fresh_disk 1 (Some empty_log) = Inr b0" "bp_inv b0" "pool_logged b0"
    "bp_view b0 = Map.empty" "bp_wal b0 = Some empty_log" "length (bp_frames b0) = 1" "fr_pin (bp_frames b0 ! 0) = 0"
    by (rule fresh_pool)
  have r: "rel_object_id (heap_relation 7) < 2 ^ 64" by (simp add: heap_relation_def)
  obtain d where d: "disk_allocate_page (heap_relation 7) None fresh_disk = (Inr (heap_page_key 7 0), d)" by (rule fresh_disk_allocate)
  define b1 where "b1 = b0\<lparr>bp_disk := d\<rparr>"
  have "bp_disk b0 = fresh_disk" using b0(1) by (auto simp: mk_buffer_pool_def mk_clock_def)
  then have a: "on_disk (disk_allocate_page (heap_relation 7) None) b0 = (Inr (heap_page_key 7 0), b1)"
    using d by (simp add: on_disk_def b1_def)
  note a' = allocate_inv [OF b0(2) r a] allocate_logged [OF b0(3) r a]
  obtain p where k: "valid_page_key (heap_page_key 7 0)" "bp_view b1 (heap_page_key 7 0) = Some p"
    "encode_page (heap_page_key 7 0) (default_page_kind (heap_relation 7) None) 0 [] = Inr p"
    using a'(4) [OF refl] by auto
  have w1: "bp_wal b1 = Some empty_log" "length (bp_frames b1) = 1" "fr_pin (bp_frames b1 ! 0) = 0"
    using b0 by (simp_all add: b1_def)
  obtain g b where f: "fetch_page (heap_page_key 7 0) b1 = (Inr g, b)"
    using fetch_page_succeeds [OF a'(1,5) w1(1) empty_log_ok(3) k(1,2)] w1 by auto
  have n: "new_page (heap_relation 7) None b0 = (Inr g, b)" using a f by (simp add: new_page_def sm_bind_def)
  have step: "bp_step b0 b" by (rule bp_new [OF r n])
  note c = fetch_page_cases [OF a'(1) k(1) f]
  have g: "live_guard b g" "pg_key g = heap_page_key 7 0" using c(4) [OF refl] by (auto simp: live_guard_def)
  have bytes: "fr_bytes (bp_frames b ! pg_frame_id g) = p" using c(4) [OF refl] k(2) by simp
  have "\<exists>x. decode_page (heap_page_key 7 0) p = Inr x \<and> dp_lsn x = fr_lsn (bp_frames b ! pg_frame_id g)"
    using c(1) g bytes by (auto simp: live_guard_def bp_inv_def bp_core_def frame_ok_def)
  then have "fr_lsn (bp_frames b ! pg_frame_id g) = 0" using encode_page_decode [OF k(3,1)] by auto
  moreover have "bp_wal b = Some empty_log"
  proof -
    have fr: "bp_free b1 = [0]" "bp_table b1 = []" "bp_frames b1 = [empty_frame]"
      using b0(1) by (auto simp: b1_def mk_buffer_pool_def mk_clock_def)
    then show ?thesis
      using f w1(1)
      by (auto simp: fetch_page_def sm_bind_def sm_cleanup_def select_frame_def load_page_def frame_at_def
          on_disk_def on_clock_def forget_key_def put_frame_def empty_frame_def split: prod.splits sum.splits)
  qed
  ultimately show thesis
    using that [OF b0(1) r_into_rtranclp [where r = bp_step, OF step] c(1) bp_step_logged [OF step b0(2,3)]] g k(1,2) c(2) by simp
qed

theorem fetch_page_spec_witness:
  "\<exists>b key g b' p. fetch_page key b = (Inr g, b') \<and> bp_view b key = Some p \<and> pg_page_bytes g b' = (Inr p, b')"
proof -
  obtain b g p where b: "bp_inv b" "pool_logged b" "bp_wal b = Some empty_log" "live_guard b g"
    "valid_page_key (pg_key g)" "bp_view b (pg_key g) = Some p" by (rule one_page_pool)
  have "map_of (bp_table b) (pg_key g) \<noteq> None"
    using b(1,4) table_okD(2) [of b "pg_key g" "pg_frame_id g"] by (auto simp: live_guard_def bp_inv_def bp_core_def)
  then obtain g' b' where f: "fetch_page (pg_key g) b = (Inr g', b')"
    using fetch_page_succeeds [OF b(1-3) empty_log_ok(3) b(5,6)] by blast
  show ?thesis using fetch_page_spec [OF b(1,5) f] f by blast
qed

theorem fetch_page_available_witness:
  "\<exists>b key. bp_view b key \<noteq> None \<and> (\<exists>g b'. fetch_page key b = (Inr g, b'))"
proof -
  obtain b g p where b: "bp_inv b" "pool_logged b" "bp_wal b = Some empty_log" "live_guard b g"
    "valid_page_key (pg_key g)" "bp_view b (pg_key g) = Some p" by (rule one_page_pool)
  have "map_of (bp_table b) (pg_key g) \<noteq> None"
    using b(1,4) table_okD(2) [of b "pg_key g" "pg_frame_id g"] by (auto simp: live_guard_def bp_inv_def bp_core_def)
  then show ?thesis using fetch_page_available [OF b(1-3) empty_log_ok(3) b(5)] b(6) by blast
qed

theorem publish_spec_witness:
  "\<exists>b g p b'. publish_bytes g p 0 b = (Inr (), b') \<and> bp_view b' (pg_key g) = Some p"
proof -
  obtain b g where b: "bp_inv b" "live_guard b g" "valid_page_key (pg_key g)" "fr_lsn (bp_frames b ! pg_frame_id g) = 0"
    by (rule one_page_pool)
  obtain p where p: "encode_page (pg_key g) KindHEAP 0 [1, 2] = Inr p"
    using encode_page_eq [OF b(3), of 0 "[1, 2]"] by (auto simp: page_sizes)
  obtain b' where "publish_bytes g p 0 b = (Inr (), b')" "bp_view b' = (bp_view b)(pg_key g \<mapsto> p)"
    using publish_spec [OF b(1) p] b(2,4) by auto
  then show ?thesis by (metis fun_upd_same)
qed

theorem wal_before_data_witness: "\<exists>b0 b. bp_step\<^sup>*\<^sup>* b0 b \<and> bp_inv b \<and> bp_wal b \<noteq> None"
proof -
  obtain b0 b where b: "mk_buffer_pool fresh_disk 1 (Some empty_log) = Inr b0" "bp_step\<^sup>*\<^sup>* b0 b"
    by (rule one_page_pool)
  show ?thesis
    using wal_before_data [OF fresh_disk_inv empty_log_ok(1,2) _ b] fresh_disk_page b(2) by auto
qed

theorem flush_all_spec_witness: "\<exists>b b'. flush_all b = (Inr (), b') \<and> disk_page (bp_disk b') = bp_view b"
proof -
  obtain b0 where b0: "mk_buffer_pool fresh_disk 1 (Some empty_log) = Inr b0" "bp_inv b0" by (rule fresh_pool)
  have "flush_all b0 = (Inr (), b0)"
    using b0(1) by (auto simp: mk_buffer_pool_def mk_clock_def flush_all_def frame_at_def sm_bind_def empty_frame_def)
  then show ?thesis using flush_all_spec [OF b0(2)] by blast
qed

end
