(* ===== verification/Recovery.thy ===== *)
theory Recovery
  imports Buffer Mvcc
begin

text \<open>
  \<open>wal/recovery.py\<close>, \<open>wal/checkpoint.py\<close> and \<open>wal/control_file.py\<close>: replaying the logged
  page images over the pages found on disk, deciding the outcome of every transaction, and the
  order of a sharp checkpoint. Shows that replay succeeds, that every page ends as the last
  image logged for it even if the disk copy was torn or stale, that exactly the transactions
  with a commit record are committed and every other known one aborted; and that a crash at any
  point of a checkpoint finds the new control record only when every logical page is on disk and
  the CHECKPOINT record is durable.
\<close>

section \<open>Redo\<close>

text \<open>
  \<open>while disk.page_count(...) <= page_id: disk.allocate_page(...)\<close>. Every round adds one page,
  so \<open>page_id + 2\<close> rounds of fuel are never used up.
\<close>

fun extend_relation :: "nat \<Rightarrow> page_key \<Rightarrow> page_kind \<Rightarrow> (disk_manager, unit) sm" where
  "extend_relation 0 key kind = sm_raise PyRecursionError"
| "extend_relation (Suc n) key kind =
     sm_bind (disk_page_count (key_relation key)) (\<lambda>c.
     if c \<le> key_page_id key
     then sm_bind (disk_allocate_page (key_relation key) (Some kind)) (\<lambda>_. extend_relation n key kind)
     else sm_return ())"

text \<open>The body of the \<open>try\<close>: whether the page on disk is older than the image.\<close>

definition page_is_older :: "page_key \<Rightarrow> decoded_page \<Rightarrow> (disk_manager, bool) sm" where
  "page_is_older key decoded_image =
     sm_bind (extend_relation (key_page_id key + 2) key (dp_kind decoded_image)) (\<lambda>_.
     sm_bind (disk_read_page key) (\<lambda>encoded.
     sm_bind (sm_lift (decode_page key encoded)) (\<lambda>current.
     sm_return (dp_lsn current < dp_lsn decoded_image))))"

text \<open>One image: repair a page that is missing, unreadable or older; returns how many pages were redone.\<close>

definition redo_image :: "page_key \<Rightarrow> bytes \<Rightarrow> (disk_manager, nat) sm" where
  "redo_image key img =
     sm_bind (sm_lift (decode_page key img)) (\<lambda>decoded_image d.
     case page_is_older key decoded_image d of
       (Inl e, d') \<Rightarrow>
         if e = CorruptPage then sm_bind (disk_repair_page key img) (\<lambda>_. sm_return 1) d' else (Inl e, d')
     | (Inr needs_redo, d') \<Rightarrow>
         if needs_redo then sm_bind (disk_repair_page key img) (\<lambda>_. sm_return 1) d' else (Inr 0, d'))"

fun redo_images :: "(page_key \<times> bytes) list \<Rightarrow> (disk_manager, nat) sm" where
  "redo_images [] = sm_return 0"
| "redo_images ((key, img) # rest) =
     sm_bind (redo_image key img) (\<lambda>n. sm_bind (redo_images rest) (\<lambda>m. sm_return (n + m)))"

section \<open>Recovery\<close>

record recovery_state =
  rc_disk :: disk_manager
  rc_statuses :: status_table
  rc_begun :: "nat list"
  rc_maximum_xid :: int
  rc_redone :: nat

record recovery_result =
  rr_statuses :: status_table
  rr_next_xid :: int
  rr_redone_pages :: nat

definition rc_set_status :: "nat \<Rightarrow> transaction_status \<Rightarrow> (recovery_state, unit) sm" where
  "rc_set_status xid status s =
     (case status_set xid status (rc_statuses s) of (r, tbl) \<Rightarrow> (r, s\<lparr>rc_statuses := tbl\<rparr>))"

definition recover_entry :: "nat \<Rightarrow> decoded_wal_record \<Rightarrow> (recovery_state, unit) sm" where
  "recover_entry start_lsn entry =
     sm_bind (sm_modify (\<lambda>s. s\<lparr>rc_maximum_xid := max (rc_maximum_xid s) (int (wr_xid entry))\<rparr>)) (\<lambda>_.
     case wr_record entry of
       BeginRecord \<Rightarrow> sm_modify (\<lambda>s. s\<lparr>rc_begun := List.insert (wr_xid entry) (rc_begun s)\<rparr>)
     | CommitRecord \<Rightarrow> rc_set_status (wr_xid entry) StCOMMITTED
     | AbortRecord \<Rightarrow> rc_set_status (wr_xid entry) StABORTED
     | HeapPageImagesRecord imgs \<Rightarrow>
         (\<lambda>s. if start_lsn \<le> wr_lsn entry then
             (case redo_images imgs (rc_disk s) of
                (Inl e, d) \<Rightarrow> (Inl e, s\<lparr>rc_disk := d\<rparr>)
              | (Inr n, d) \<Rightarrow> (Inr (), s\<lparr>rc_disk := d, rc_redone := rc_redone s + n\<rparr>))
           else (Inr (), s))
     | CheckpointRecord l \<Rightarrow> sm_return ())"

fun recover_entries :: "nat \<Rightarrow> decoded_wal_record list \<Rightarrow> (recovery_state, unit) sm" where
  "recover_entries start_lsn [] = sm_return ()"
| "recover_entries start_lsn (e # es) = sm_bind (recover_entry start_lsn e) (\<lambda>_. recover_entries start_lsn es)"

text \<open>Both closing loops: abort what is still in progress among the given transactions.\<close>

fun abort_open :: "nat list \<Rightarrow> (recovery_state, unit) sm" where
  "abort_open [] = sm_return ()"
| "abort_open (xid # xids) =
     sm_bind (\<lambda>s. if status_get (rc_statuses s) xid = StIN_PROGRESS then rc_set_status xid StABORTED s else (Inr (), s)) (\<lambda>_.
     abort_open xids)"

definition recover_run :: "nat \<Rightarrow> decoded_wal_record list \<Rightarrow> (recovery_state, unit) sm" where
  "recover_run start_lsn entries =
     sm_bind (recover_entries start_lsn entries) (\<lambda>_.
     sm_bind (\<lambda>s. abort_open (rc_begun s) s) (\<lambda>_.
     (\<lambda>s. abort_open (map fst (filter (\<lambda>(xid, st). st = StIN_PROGRESS) (status_snapshot (rc_statuses s)))) s)))"

definition recover ::
    "wal_manager \<Rightarrow> nat \<Rightarrow> (nat \<times> transaction_status) list \<Rightarrow> int \<Rightarrow> (disk_manager, recovery_result) sm" where
  "recover wal start_lsn initial_statuses next_xid d =
     (case wal_scan 0 wal of
        (Inl e, _) \<Rightarrow> (Inl e, d)
      | (Inr entries, _) \<Rightarrow>
          (case recover_run start_lsn entries
             \<lparr>rc_disk = d, rc_statuses = dict_of initial_statuses, rc_begun = [],
              rc_maximum_xid = next_xid - 1, rc_redone = 0\<rparr> of
             (Inl e, s) \<Rightarrow> (Inl e, rc_disk s)
           | (Inr _, s) \<Rightarrow>
               (Inr \<lparr>rr_statuses = rc_statuses s, rr_next_xid = rc_maximum_xid s + 1,
                     rr_redone_pages = rc_redone s\<rparr>, rc_disk s)))"

section \<open>Redo restores the last image\<close>

lemma decode_page_valid: 
  assumes "decode_page key p = Inr x" shows "valid_page_key key"
proof -
  have "uint_at p 8 8 = rel_object_id (key_relation key)" "uint_at p 16 8 = key_page_id key"
    using assms by (auto simp: decode_page_def Let_def res_simps split: if_splits)
  moreover have "uint_at p a 8 < 2 ^ 64" for a
  proof -
    have "length (py_slice p a (a + 8)) \<le> 8" by (simp add: py_slice_def)
    then have "(256::nat) ^ length (py_slice p a (a + 8)) \<le> 256 ^ 8" by (rule power_increasing) simp
    then show ?thesis using of_be_less [of "py_slice p a (a + 8)"] by (simp add: uint_at_def)
  qed
  ultimately show ?thesis by (metis valid_page_key_def)
qed

text \<open>A page that was allocated while the relation was extended: empty, with LSN zero.\<close>

definition blank :: "page_key \<Rightarrow> bytes option \<Rightarrow> bool" where
  "blank k v \<longleftrightarrow> (\<exists>p x. v = Some p \<and> decode_page k p = Inr x \<and> dp_lsn x = 0)"

definition only_blank :: "disk_manager \<Rightarrow> disk_manager \<Rightarrow> bool" where
  "only_blank d d' \<longleftrightarrow> (\<forall>k. disk_page d' k = disk_page d k \<or> disk_page d k = None \<and> blank k (disk_page d' k))"

lemma only_blank_refl [simp]: "only_blank d d" by (simp add: only_blank_def)

lemma only_blank_trans: "only_blank a b \<Longrightarrow> only_blank b c \<Longrightarrow> only_blank a c"
  unfolding only_blank_def by metis

lemma allocate_one:
  assumes "disk_inv d" and "rel_object_id r < 2 ^ 64" and "disk_pages d r < 2 ^ 64"
    and "disk_allocate_page r kind d = (res, d')"
  shows "(\<exists>k. res = Inr k) \<and> disk_inv d' \<and> disk_pages d' r = Suc (disk_pages d r) \<and> only_blank d d'"
proof -
  have "\<exists>k. res = Inr k"
    using disk_allocate_page_cases [OF assms(4,2)] assms(1,3) by (cases res) (auto simp: disk_inv_def)
  then obtain k where k: "res = Inr k" by blast
  obtain p where p: "k = PageKey r (disk_pages d r)" "encode_page k (default_page_kind r kind) 0 [] = Inr p" "page_written d k p d'"
    using disk_allocate_page_cases [OF assms(4,2)] k by auto
  note a = disk.allocate_ok [OF assms(1,2) assms(4) [unfolded k]]
  obtain q where q: "encode_page k (default_page_kind r kind) 0 [] = Inr q" "disk_page d' = (disk_page d)(k \<mapsto> q)"
    using a by blast
  have b: "blank k (Some q)" using encode_page_decode [OF q(1)] a by (auto simp: blank_def)
  have "disk_page d' k' = disk_page d k' \<or> disk_page d k' = None \<and> blank k' (disk_page d' k')" for k'
    using q(2) a b by (cases "k' = k") auto
  then have ob: "only_blank d d'" by (simp add: only_blank_def)
  have "length (rel_bytes d r) = disk_pages d r * PAGE_SIZE"
    using assms(1) by (simp add: disk_inv_def whole_pages_def disk_pages_def) (metis div_mult_mod_eq add.right_neutral)
  then have "length (rel_bytes d' r) = Suc (disk_pages d r) * PAGE_SIZE"
    using page_written_length [OF p(3)] encode_page_length [OF p(2)] p(1) by simp
  then have "disk_pages d' r = Suc (disk_pages d r)" by (simp add: disk_pages_def)
  then show ?thesis using k a ob by blast
qed

lemma page_count_ok:
  assumes "disk_inv d" and "disk_page_count r d = (res, d')"
  shows "res = Inr (disk_pages d r) \<and> disk_inv d' \<and> disk_eq d d'"
  using disk_page_count_cases [OF assms(2)] assms(1) disk_inv_eq by (auto simp: disk_inv_def)

lemma only_blank_eq: "disk_eq d d' \<Longrightarrow> only_blank d d'"
  using disk_eqD(2) by (simp add: only_blank_def)

lemma extend_relation_ok:
  assumes "valid_page_key key"
  shows "disk_inv d \<Longrightarrow> key_page_id key + 1 < n + disk_pages d (key_relation key) \<Longrightarrow> 0 < n \<Longrightarrow> extend_relation n key kind d = (res, d') \<Longrightarrow>
    res = Inr () \<and> disk_inv d' \<and> key_page_id key < disk_pages d' (key_relation key) \<and> only_blank d d'"
proof (induction n arbitrary: d res d')
  case 0
  then show ?case by simp
next
  case (Suc n)
  let ?r = "key_relation key"
  obtain r1 d1 where c: "disk_page_count ?r d = (r1, d1)" by fastforce
  note c1 = page_count_ok [OF Suc.prems(1) c]
  have pages: "disk_pages d1 ?r = disk_pages d ?r" using c1 disk_eqD(3) [of d d1] by simp
  show ?case
  proof (cases "disk_pages d ?r \<le> key_page_id key")
    case False
    then show ?thesis using Suc.prems(4) c c1 pages only_blank_eq by (auto simp: sm_bind_def)
  next
    case True
    obtain r2 d2 where a: "disk_allocate_page ?r (Some kind) d1 = (r2, d2)" by fastforce
    have "disk_pages d1 ?r < 2 ^ 64" "rel_object_id ?r < 2 ^ 64"
      using True assms pages by (simp_all add: valid_page_key_def)
    from allocate_one [OF _ this(2,1) a] c1 obtain k where k: "r2 = Inr k" "disk_inv d2"
      "disk_pages d2 ?r = Suc (disk_pages d ?r)" "only_blank d1 d2" by (auto simp: pages)
    have "extend_relation n key kind d2 = (res, d')" using Suc.prems(4) c c1 True a k(1) by (auto simp: sm_bind_def)
    moreover have "0 < n" using Suc.prems(2) True by simp
    ultimately have "res = Inr () \<and> disk_inv d' \<and> key_page_id key < disk_pages d' ?r \<and> only_blank d2 d'"
      using Suc.IH [OF k(2)] Suc.prems(2) k(3) by simp
    then show ?thesis using only_blank_trans only_blank_eq c1 k(4) by blast
  qed
qed

text \<open>The disk's page after an image was considered.\<close>

lemma redo_image_ok:
  assumes inv: "disk_inv d" and img: "decode_page key img = Inr x" and pos: "0 < dp_lsn x"
    and run: "redo_image key img d = (res, d')"
  shows "(\<exists>n. res = Inr n) \<and> disk_inv d'
    \<and> disk_page d' key = (case disk_page d key of
         None \<Rightarrow> Some img
       | Some p \<Rightarrow> (case decode_page key p of Inr y \<Rightarrow> if dp_lsn y < dp_lsn x then Some img else Some p | Inl e \<Rightarrow> Some img))
    \<and> (\<forall>k. k \<noteq> key \<longrightarrow> disk_page d' k = disk_page d k \<or> disk_page d k = None \<and> blank k (disk_page d' k))"
proof -
  have v: "valid_page_key key" by (rule decode_page_valid [OF img])
  obtain r1 d1 where e: "extend_relation (key_page_id key + 2) key (dp_kind x) d = (r1, d1)" by fastforce
  have e1: "r1 = Inr ()" "disk_inv d1" "key_page_id key < disk_pages d1 (key_relation key)" "only_blank d d1"
    using extend_relation_ok [OF v inv _ _ e] by simp_all
  obtain r2 d2 where rd: "disk_read_page key d1 = (r2, d2)" by fastforce
  have r2: "r2 = (case disk_page d1 key of None \<Rightarrow> Inl CorruptPage | Some p \<Rightarrow> Inr p)" "disk_inv d2" "disk_page d2 = disk_page d1"
    using disk.read_result [OF e1(2) rd] disk.read_keeps [OF e1(2) rd] by auto
  have "disk_eq d1 d2" using disk_read_page_cases(1) [OF rd] .
  then have p2: "key_page_id key < disk_pages d2 (key_relation key)" using e1(3) disk_eqD(3) [of d1 d2] by simp
  have repair: "disk_repair_page key img d2 = (r3, d3) \<Longrightarrow> r3 = Inr () \<and> disk_inv d3 \<and> disk_page d3 = (disk_page d2)(key \<mapsto> img)" for r3 d3
    using disk_repair_page_cases [of key img d2 r3 d3 x] img r2(2) written_whole [of d2 key img d3] written_view [of d2 key img d3 x]
      decode_page_length [OF img] p2 by (auto simp: disk_inv_def)
  obtain r3 d3 where rp: "disk_repair_page key img d2 = (r3, d3)" by fastforce
  note rp' = repair [OF rp]
  have old: "page_is_older key x d = (case disk_page d1 key of None \<Rightarrow> (Inl CorruptPage, d2)
      | Some p \<Rightarrow> (case decode_page key p of Inl er \<Rightarrow> (Inl er, d2) | Inr y \<Rightarrow> (Inr (dp_lsn y < dp_lsn x), d2)))"
    using e e1(1) rd r2(1) by (auto simp: page_is_older_def sm_bind_def split: option.splits sum.splits)
  have others: "disk_page d1 k = disk_page d k \<or> disk_page d k = None \<and> blank k (disk_page d1 k)" for k
    using e1(4) by (simp add: only_blank_def)
  define redo where "redo \<longleftrightarrow> (case disk_page d1 key of None \<Rightarrow> True | Some p \<Rightarrow> (case decode_page key p of Inl er \<Rightarrow> True | Inr y \<Rightarrow> dp_lsn y < dp_lsn x))"
  have out: "(\<exists>n. res = Inr n) \<and> d' = (if redo then d3 else d2)"
    using run img old rp rp' decode_page_Inl
    by (auto simp: redo_image_def sm_bind_def redo_def split: option.splits sum.splits if_splits)
  have "redo" if "disk_page d key = None"
    using others [of key] that pos by (auto simp: redo_def blank_def)
  moreover have "disk_page d1 key = disk_page d key" if "disk_page d key \<noteq> None" using others [of key] that by simp
  ultimately have page: "disk_page d' key = (case disk_page d key of
         None \<Rightarrow> Some img
       | Some p \<Rightarrow> (case decode_page key p of Inr y \<Rightarrow> if dp_lsn y < dp_lsn x then Some img else Some p | Inl e \<Rightarrow> Some img))"
    using out rp' r2(3) by (auto simp: redo_def split: option.splits sum.splits)
  have "disk_page d' k = disk_page d1 k" if "k \<noteq> key" for k using out rp' r2(3) that by simp
  then show ?thesis using out rp' r2(2) page others by auto
qed

text \<open>Every image is a page of its key with a positive LSN.\<close>

definition images_ok :: "(page_key \<times> bytes) list \<Rightarrow> bool" where
  "images_ok imgs \<longleftrightarrow> list_all (\<lambda>(k, i). case decode_page k i of Inl e \<Rightarrow> False | Inr x \<Rightarrow> 0 < dp_lsn x) imgs"

text \<open>The image of \<open>K\<close> that every other image of \<open>K\<close> is older than.\<close>

definition older_than :: "page_key \<Rightarrow> bytes \<Rightarrow> bytes \<Rightarrow> bool" where
  "older_than K i img \<longleftrightarrow>
     (case (decode_page K i, decode_page K img) of (Inr y, Inr x) \<Rightarrow> dp_lsn y < dp_lsn x | _ \<Rightarrow> False)"

definition newest_of :: "(page_key \<times> bytes) list \<Rightarrow> page_key \<Rightarrow> bytes \<Rightarrow> bool" where
  "newest_of imgs K img \<longleftrightarrow> (\<forall>(k, i) \<in> set imgs. k = K \<longrightarrow> i = img \<or> older_than K i img)"

text \<open>What a crash may leave on disk for \<open>K\<close>: nothing readable, an older page, or the image itself.\<close>

definition crash_page :: "disk_manager \<Rightarrow> page_key \<Rightarrow> bytes \<Rightarrow> bool" where
  "crash_page d K img \<longleftrightarrow> (case disk_page d K of None \<Rightarrow> True | Some p \<Rightarrow> p = img \<or> older_than K p img)"

lemma blank_older: "decode_page K img = Inr x \<Longrightarrow> 0 < dp_lsn x \<Longrightarrow> blank K (Some p) \<Longrightarrow> older_than K p img"
  by (auto simp: blank_def older_than_def)

lemma redo_image_newest:
  assumes inv: "disk_inv d" and run: "redo_image key i d = (res, d')"
    and i: "decode_page key i = Inr y" "0 < dp_lsn y"
    and K: "decode_page K img = Inr x" "0 < dp_lsn x" "key = K \<longrightarrow> i = img \<or> older_than K i img"
    and crash: "crash_page d K img"
  shows "crash_page d' K img \<and> ((key, i) = (K, img) \<or> disk_page d K = Some img \<longrightarrow> disk_page d' K = Some img)"
proof (cases "key = K")
  case False
  then have "disk_page d' K = disk_page d K \<or> disk_page d K = None \<and> blank K (disk_page d' K)"
    using redo_image_ok [OF inv i run] by auto
  then show ?thesis
    using crash False blank_older [OF K(1,2)] by (auto simp: crash_page_def blank_def split: option.splits)
next
  case True
  note ok = redo_image_ok [OF inv i run]
  show ?thesis
    using ok True K crash i(1)
    by (auto simp: crash_page_def older_than_def split: option.splits sum.splits if_splits)
qed

lemma redo_images_ok:
  assumes "images_ok imgs" and "disk_inv d" and "redo_images imgs d = (res, d')"
  shows "(\<exists>n. res = Inr n) \<and> disk_inv d'
     \<and> (\<forall>K img. (\<exists>x. decode_page K img = Inr x \<and> 0 < dp_lsn x) \<and> newest_of imgs K img \<and> crash_page d K img \<longrightarrow>
          crash_page d' K img \<and> ((K, img) \<in> set imgs \<or> disk_page d K = Some img \<longrightarrow> disk_page d' K = Some img))
     \<and> (\<forall>K. K \<notin> fst ` set imgs \<longrightarrow> disk_page d' K = disk_page d K \<or> disk_page d K = None \<and> blank K (disk_page d' K))"
  using assms
proof (induction imgs arbitrary: d res d')
  case Nil
  then show ?case by auto
next
  case (Cons ki imgs)
  obtain key i where ki: "ki = (key, i)" by (cases ki)
  obtain y where y: "decode_page key i = Inr y" "0 < dp_lsn y"
    using Cons.prems(1) by (auto simp: images_ok_def ki split: sum.splits)
  obtain r1 d1 where r1: "redo_image key i d = (r1, d1)" by fastforce
  note ok = redo_image_ok [OF Cons.prems(2) y r1]
  obtain n where n: "r1 = Inr n" using ok by blast
  obtain r2 d2 where r2: "redo_images imgs d1 = (r2, d2)" by fastforce
  have imgs: "images_ok imgs" using Cons.prems(1) by (simp add: images_ok_def)
  have inv1: "disk_inv d1" using ok by blast
  note IH = Cons.IH [OF imgs inv1 r2]
  obtain m where m: "r2 = Inr m" using IH by blast
  have out: "res = Inr (n + m)" "d' = d2" using Cons.prems(3) by (simp_all add: ki sm_bind_def r1 n r2 m)
  have pages: "crash_page d2 K img \<and> ((K, img) \<in> set (ki # imgs) \<or> disk_page d K = Some img \<longrightarrow> disk_page d2 K = Some img)"
    if K: "\<exists>x. decode_page K img = Inr x \<and> 0 < dp_lsn x" "newest_of (ki # imgs) K img" "crash_page d K img" for K img
  proof -
    obtain x where x: "decode_page K img = Inr x" "0 < dp_lsn x" using K(1) by blast
    have new: "key = K \<longrightarrow> i = img \<or> older_than K i img" "newest_of imgs K img"
      using K(2) by (simp_all add: newest_of_def ki)
    note one = redo_image_newest [OF Cons.prems(2) r1 y x new(1) K(3)]
    have "crash_page d2 K img \<and> ((K, img) \<in> set imgs \<or> disk_page d1 K = Some img \<longrightarrow> disk_page d2 K = Some img)"
      using IH new(2) x one by blast
    then show ?thesis using one by (auto simp: ki)
  qed
  have "disk_page d2 K = disk_page d K \<or> disk_page d K = None \<and> blank K (disk_page d2 K)"
    if "K \<notin> fst ` set (ki # imgs)" for K
  proof -
    have "disk_page d1 K = disk_page d K \<or> disk_page d K = None \<and> blank K (disk_page d1 K)"
      using ok that by (simp add: ki)
    moreover have "disk_page d2 K = disk_page d1 K \<or> disk_page d1 K = None \<and> blank K (disk_page d2 K)"
      using IH that by simp
    ultimately show ?thesis by auto
  qed
  then show ?case using out IH pages by blast
qed

section \<open>Outcomes\<close>

definition replayed :: "nat \<Rightarrow> decoded_wal_record list \<Rightarrow> (page_key \<times> bytes) list" where
  "replayed start_lsn es =
     concat (map (\<lambda>e. case wr_record e of HeapPageImagesRecord imgs \<Rightarrow> if start_lsn \<le> wr_lsn e then imgs else [] | _ \<Rightarrow> []) es)"

definition with_record :: "wal_record \<Rightarrow> decoded_wal_record list \<Rightarrow> nat set" where
  "with_record r es = {wr_xid e | e. e \<in> set es \<and> wr_record e = r}"

text \<open>The log and the checkpointed statuses do not contradict each other.\<close>

definition outcomes_consistent :: "status_table \<Rightarrow> decoded_wal_record list \<Rightarrow> bool" where
  "outcomes_consistent tbl es \<longleftrightarrow>
     (\<forall>e \<in> set es. (wr_record e = CommitRecord \<longrightarrow> wr_xid e \<notin> with_record AbortRecord es \<and> status_get tbl (wr_xid e) \<noteq> StABORTED)
       \<and> (wr_record e = AbortRecord \<longrightarrow> status_get tbl (wr_xid e) \<noteq> StCOMMITTED))"

lemma with_record_Cons: "with_record r (e # es) = (if wr_record e = r then insert (wr_xid e) (with_record r es) else with_record r es)"
  by (auto simp: with_record_def)

definition outcome :: "status_table \<Rightarrow> decoded_wal_record list \<Rightarrow> nat \<Rightarrow> transaction_status" where
  "outcome tbl es xid =
     (if xid \<in> with_record CommitRecord es then StCOMMITTED
      else if xid \<in> with_record AbortRecord es then StABORTED else status_get tbl xid)"

lemma rc_set_status_ok:
  assumes "status_get (rc_statuses s) xid = StIN_PROGRESS \<or> status_get (rc_statuses s) xid = st"
  shows "rc_set_status xid st s = (Inr (), s\<lparr>rc_statuses := AList.update xid st (rc_statuses s)\<rparr>)"
  using assms by (auto simp: rc_set_status_def status_set_def Let_def)

text \<open>What the entries do to the recovery state, apart from the pages.\<close>

definition entries_done :: "decoded_wal_record list \<Rightarrow> recovery_state \<Rightarrow> recovery_state \<Rightarrow> bool" where
  "entries_done es s s' \<longleftrightarrow>
     (\<forall>xid. status_get (rc_statuses s') xid = outcome (rc_statuses s) es xid)
     \<and> set (rc_begun s') = set (rc_begun s) \<union> with_record BeginRecord es
     \<and> (\<forall>e \<in> set es. int (wr_xid e) \<le> rc_maximum_xid s') \<and> rc_maximum_xid s \<le> rc_maximum_xid s'
     \<and> (distinct (map fst (rc_statuses s)) \<longrightarrow> distinct (map fst (rc_statuses s')))"

lemma redo_images_append:
  "redo_images (xs @ ys) = sm_bind (redo_images xs) (\<lambda>n. sm_bind (redo_images ys) (\<lambda>m. sm_return (n + m)))"
proof (induction xs)
  case Nil
  show ?case by (auto simp: fun_eq_iff sm_bind_def split: prod.splits sum.splits)
next
  case (Cons ki xs)
  obtain k i where "ki = (k, i)" by (cases ki)
  then show ?case using Cons by (auto simp: fun_eq_iff sm_bind_def add.assoc split: prod.splits sum.splits)
qed

lemma recover_entry_ok:
  assumes img: "images_ok (replayed start [e])" and inv: "disk_inv (rc_disk s)" and con: "outcomes_consistent (rc_statuses s) [e]"
  shows "\<exists>s' n. recover_entry start e s = (Inr (), s') \<and> entries_done [e] s s'
     \<and> redo_images (replayed start [e]) (rc_disk s) = (Inr n, rc_disk s')"
proof -
  let ?s = "s\<lparr>rc_maximum_xid := max (rc_maximum_xid s) (int (wr_xid e))\<rparr>"
  show ?thesis
  proof (cases "wr_record e")
    case BeginRecord
    then show ?thesis
      by (auto simp: recover_entry_def sm_bind_def entries_done_def outcome_def with_record_Cons with_record_def replayed_def)
  next
    case (HeapPageImagesRecord imgs)
    show ?thesis
    proof (cases "start \<le> wr_lsn e")
      case True
      obtain r d where rd: "redo_images imgs (rc_disk s) = (r, d)" by fastforce
      moreover have "\<exists>n. r = Inr n"
        using redo_images_ok [OF _ inv rd] img True HeapPageImagesRecord by (simp add: replayed_def)
      ultimately show ?thesis
        using True HeapPageImagesRecord
        by (auto simp: recover_entry_def sm_bind_def entries_done_def outcome_def with_record_Cons with_record_def replayed_def)
    next
      case False
      then show ?thesis
        using HeapPageImagesRecord
        by (auto simp: recover_entry_def sm_bind_def entries_done_def outcome_def with_record_Cons with_record_def replayed_def)
    qed
  next
    case CommitRecord
    have "status_get (rc_statuses ?s) (wr_xid e) = StIN_PROGRESS \<or> status_get (rc_statuses ?s) (wr_xid e) = StCOMMITTED"
      using con CommitRecord by (cases "status_get (rc_statuses s) (wr_xid e)") (auto simp: outcomes_consistent_def)
    from rc_set_status_ok [OF this] show ?thesis
      using CommitRecord
      by (auto simp: recover_entry_def sm_bind_def entries_done_def outcome_def with_record_Cons with_record_def replayed_def
          status_get_update distinct_update)
  next
    case AbortRecord
    have "status_get (rc_statuses ?s) (wr_xid e) = StIN_PROGRESS \<or> status_get (rc_statuses ?s) (wr_xid e) = StABORTED"
      using con AbortRecord by (cases "status_get (rc_statuses s) (wr_xid e)") (auto simp: outcomes_consistent_def)
    from rc_set_status_ok [OF this] show ?thesis
      using AbortRecord
      by (auto simp: recover_entry_def sm_bind_def entries_done_def outcome_def with_record_Cons with_record_def replayed_def
          status_get_update distinct_update)
  next
    case (CheckpointRecord l)
    then show ?thesis
      by (auto simp: recover_entry_def sm_bind_def entries_done_def outcome_def with_record_Cons with_record_def replayed_def)
  qed
qed

lemma replayed_Cons: "replayed start (e # es) = replayed start [e] @ replayed start es"
  by (simp add: replayed_def)

lemma images_ok_append [simp]: "images_ok (xs @ ys) \<longleftrightarrow> images_ok xs \<and> images_ok ys"
  by (simp add: images_ok_def)

lemma with_record_iff: "xid \<in> with_record r es \<longleftrightarrow> (\<exists>e \<in> set es. wr_record e = r \<and> wr_xid e = xid)"
  by (auto simp: with_record_def)

lemma outcome_single:
  "outcome tbl [e] xid = (if wr_xid e = xid \<and> wr_record e = CommitRecord then StCOMMITTED
     else if wr_xid e = xid \<and> wr_record e = AbortRecord then StABORTED else status_get tbl xid)"
  by (simp add: outcome_def with_record_iff conj_commute)

lemma outcomes_consistent_tail:
  assumes con: "outcomes_consistent (rc_statuses s) (e # es)" and "entries_done [e] s s'"
  shows "outcomes_consistent (rc_statuses s') es"
  unfolding outcomes_consistent_def
proof
  fix f assume f: "f \<in> set es"
  have st: "status_get (rc_statuses s') (wr_xid f) = outcome (rc_statuses s) [e] (wr_xid f)"
    using assms(2) by (simp add: entries_done_def)
  have c: "wr_record f = CommitRecord \<Longrightarrow> wr_xid f \<notin> with_record AbortRecord (e # es) \<and> status_get (rc_statuses s) (wr_xid f) \<noteq> StABORTED"
    and ab: "wr_record f = AbortRecord \<Longrightarrow> status_get (rc_statuses s) (wr_xid f) \<noteq> StCOMMITTED"
    and e: "wr_record e = CommitRecord \<Longrightarrow> wr_xid e \<notin> with_record AbortRecord (e # es)"
    using con f by (auto simp: outcomes_consistent_def)
  show "(wr_record f = CommitRecord \<longrightarrow> wr_xid f \<notin> with_record AbortRecord es \<and> status_get (rc_statuses s') (wr_xid f) \<noteq> StABORTED)
      \<and> (wr_record f = AbortRecord \<longrightarrow> status_get (rc_statuses s') (wr_xid f) \<noteq> StCOMMITTED)"
  proof (intro conjI impI)
    assume "wr_record f = CommitRecord"
    note c = c [OF this]
    then show "wr_xid f \<notin> with_record AbortRecord es" by (auto simp: with_record_iff)
    have "\<not> (wr_xid e = wr_xid f \<and> wr_record e = AbortRecord)" using c by (auto simp: with_record_iff)
    then show "status_get (rc_statuses s') (wr_xid f) \<noteq> StABORTED" using c st by (auto simp: outcome_single)
  next
    assume fa: "wr_record f = AbortRecord"
    then have "\<not> (wr_xid e = wr_xid f \<and> wr_record e = CommitRecord)" using e f by (auto simp: with_record_iff)
    then show "status_get (rc_statuses s') (wr_xid f) \<noteq> StCOMMITTED" using ab [OF fa] st by (auto simp: outcome_single)
  qed
qed

lemma entries_done_Cons:
  assumes "entries_done [e] s s1" and "entries_done es s1 s2"
    and con: "outcomes_consistent (rc_statuses s) (e # es)"
  shows "entries_done (e # es) s s2"
proof -
  have "outcome (rc_statuses s1) es xid = outcome (rc_statuses s) (e # es) xid" for xid
  proof -
    have st: "status_get (rc_statuses s1) xid = outcome (rc_statuses s) [e] xid" using assms(1) by (simp add: entries_done_def)
    have "wr_record e = CommitRecord \<and> wr_xid e = xid \<Longrightarrow> xid \<notin> with_record AbortRecord es"
      using con by (auto simp: outcomes_consistent_def with_record_iff)
    then show ?thesis unfolding outcome_def [of _ es] outcome_def [of _ "e # es"] st outcome_single
      by (auto simp: with_record_Cons)
  qed
  moreover have "with_record BeginRecord (e # es) = with_record BeginRecord [e] \<union> with_record BeginRecord es"
    by (auto simp: with_record_iff)
  ultimately show ?thesis using assms(1,2) unfolding entries_done_def by auto
qed

lemma recover_entries_ok:
  "images_ok (replayed start es) \<Longrightarrow> disk_inv (rc_disk s) \<Longrightarrow> outcomes_consistent (rc_statuses s) es \<Longrightarrow>
   \<exists>s' n. recover_entries start es s = (Inr (), s') \<and> entries_done es s s'
     \<and> redo_images (replayed start es) (rc_disk s) = (Inr n, rc_disk s')"
proof (induction es arbitrary: s)
  case Nil
  then show ?case by (simp add: entries_done_def outcome_def with_record_def replayed_def)
next
  case (Cons e es)
  have imgs: "images_ok (replayed start [e])" "images_ok (replayed start es)"
    using Cons.prems(1) unfolding replayed_Cons [of start e es] by simp_all
  have "outcomes_consistent (rc_statuses s) [e]"
    using Cons.prems(3) by (auto simp: outcomes_consistent_def with_record_def)
  from recover_entry_ok [OF imgs(1) Cons.prems(2) this] obtain s1 n1 where
    s1: "recover_entry start e s = (Inr (), s1)" "entries_done [e] s s1" "redo_images (replayed start [e]) (rc_disk s) = (Inr n1, rc_disk s1)"
    by blast
  have "disk_inv (rc_disk s1)" using redo_images_ok [OF imgs(1) Cons.prems(2) s1(3)] by blast
  from Cons.IH [OF imgs(2) this outcomes_consistent_tail [OF Cons.prems(3) s1(2)]] obtain s2 n2 where
    s2: "recover_entries start es s1 = (Inr (), s2)" "entries_done es s1 s2" "redo_images (replayed start es) (rc_disk s1) = (Inr n2, rc_disk s2)"
    by blast
  have "recover_entries start (e # es) s = (Inr (), s2)" using s1(1) s2(1) by (simp add: sm_bind_def)
  moreover have "redo_images (replayed start (e # es)) (rc_disk s) = (Inr (n1 + n2), rc_disk s2)"
    unfolding replayed_Cons [of start e es] redo_images_append using s1(3) s2(3) by (simp add: sm_bind_def)
  ultimately show ?case using entries_done_Cons [OF s1(2) s2(2) Cons.prems(3)] by blast
qed

lemma subset_through: "A \<subseteq> insert x C \<Longrightarrow> B \<subseteq> A \<union> set xs \<Longrightarrow> B \<subseteq> C \<union> set (x # xs)"
  by auto

text \<open>Aborting what is left open changes only those statuses.\<close>

lemma abort_open_ok:
  "\<exists>s'. abort_open xids s = (Inr (), s') \<and> rc_disk s' = rc_disk s \<and> rc_maximum_xid s' = rc_maximum_xid s
     \<and> (\<forall>x. status_get (rc_statuses s') x =
          (if x \<in> set xids \<and> status_get (rc_statuses s) x = StIN_PROGRESS then StABORTED else status_get (rc_statuses s) x))
     \<and> (distinct (map fst (rc_statuses s)) \<longrightarrow> distinct (map fst (rc_statuses s')))
     \<and> fst ` set (rc_statuses s') \<subseteq> fst ` set (rc_statuses s) \<union> set xids"
proof (induction xids arbitrary: s)
  case Nil
  show ?case by simp
next
  case (Cons xid xids)
  define s1 where "s1 = (if status_get (rc_statuses s) xid = StIN_PROGRESS
    then s\<lparr>rc_statuses := AList.update xid StABORTED (rc_statuses s)\<rparr> else s)"
  have step: "abort_open (xid # xids) s = abort_open xids s1"
    using rc_set_status_ok [of s xid StABORTED] by (simp add: sm_bind_def s1_def)
  obtain s' where s': "abort_open xids s1 = (Inr (), s')" "rc_disk s' = rc_disk s1" "rc_maximum_xid s' = rc_maximum_xid s1"
    "\<forall>x. status_get (rc_statuses s') x =
          (if x \<in> set xids \<and> status_get (rc_statuses s1) x = StIN_PROGRESS then StABORTED else status_get (rc_statuses s1) x)"
    "distinct (map fst (rc_statuses s1)) \<longrightarrow> distinct (map fst (rc_statuses s'))"
    "fst ` set (rc_statuses s') \<subseteq> fst ` set (rc_statuses s1) \<union> set xids"
    using Cons [of s1] by blast
  have "status_get (rc_statuses s') x =
      (if x \<in> set (xid # xids) \<and> status_get (rc_statuses s) x = StIN_PROGRESS then StABORTED else status_get (rc_statuses s) x)" for x
    using s'(4) by (auto simp: s1_def status_get_update)
  moreover have "distinct (map fst (rc_statuses s)) \<longrightarrow> distinct (map fst (rc_statuses s'))"
    using s'(5) by (auto simp: s1_def distinct_update)
  moreover have "fst ` set (rc_statuses s1) \<subseteq> insert xid (fst ` set (rc_statuses s))"
    by (auto simp: s1_def dom_update)
  then have "fst ` set (rc_statuses s') \<subseteq> fst ` set (rc_statuses s) \<union> set (xid # xids)" using s'(6) by (rule subset_through)
  moreover have "rc_disk s1 = rc_disk s" "rc_maximum_xid s1 = rc_maximum_xid s" by (simp_all add: s1_def)
  ultimately show ?case using s'(1-3) unfolding step by (intro exI [of _ s']) simp
qed

lemma status_get_entry: "distinct (map fst tbl) \<Longrightarrow> (x, v) \<in> set tbl \<Longrightarrow> status_get tbl x = v"
  by (simp add: status_get_def)

lemma recover_run_ok:
  assumes img: "images_ok (replayed start es)" and inv: "disk_inv (rc_disk s)" and con: "outcomes_consistent (rc_statuses s) es"
    and dist: "distinct (map fst (rc_statuses s))" and begun: "rc_begun s = []"
  shows "\<exists>s' n. recover_run start es s = (Inr (), s') \<and> redo_images (replayed start es) (rc_disk s) = (Inr n, rc_disk s')
     \<and> (\<forall>x. status_get (rc_statuses s') x = StCOMMITTED \<longleftrightarrow> outcome (rc_statuses s) es x = StCOMMITTED)
     \<and> (\<forall>x \<in> with_record BeginRecord es. status_get (rc_statuses s') x \<noteq> StIN_PROGRESS)
     \<and> (\<forall>(x, v) \<in> set (rc_statuses s'). v \<noteq> StIN_PROGRESS)
     \<and> (\<forall>e \<in> set es. int (wr_xid e) \<le> rc_maximum_xid s') \<and> rc_maximum_xid s \<le> rc_maximum_xid s'"
proof -
  obtain s1 n where s1: "recover_entries start es s = (Inr (), s1)" "entries_done es s s1"
    "redo_images (replayed start es) (rc_disk s) = (Inr n, rc_disk s1)"
    using recover_entries_ok [OF img inv con] by blast
  obtain s2 where s2: "abort_open (rc_begun s1) s1 = (Inr (), s2)" "rc_disk s2 = rc_disk s1" "rc_maximum_xid s2 = rc_maximum_xid s1"
    "\<forall>x. status_get (rc_statuses s2) x =
       (if x \<in> set (rc_begun s1) \<and> status_get (rc_statuses s1) x = StIN_PROGRESS then StABORTED else status_get (rc_statuses s1) x)"
    "distinct (map fst (rc_statuses s1)) \<longrightarrow> distinct (map fst (rc_statuses s2))"
    using abort_open_ok [of "rc_begun s1" s1] by blast
  define xs where "xs = map fst (filter (\<lambda>(xid, st). st = StIN_PROGRESS) (status_snapshot (rc_statuses s2)))"
  obtain s3 where s3: "abort_open xs s2 = (Inr (), s3)" "rc_disk s3 = rc_disk s2" "rc_maximum_xid s3 = rc_maximum_xid s2"
    "\<forall>x. status_get (rc_statuses s3) x =
       (if x \<in> set xs \<and> status_get (rc_statuses s2) x = StIN_PROGRESS then StABORTED else status_get (rc_statuses s2) x)"
    "distinct (map fst (rc_statuses s2)) \<longrightarrow> distinct (map fst (rc_statuses s3))"
    "fst ` set (rc_statuses s3) \<subseteq> fst ` set (rc_statuses s2) \<union> set xs"
    using abort_open_ok [of xs s2] by blast
  have run: "recover_run start es s = (Inr (), s3)"
    using s1(1) s2(1) s3(1) by (simp add: recover_run_def sm_bind_def xs_def)
  have d: "distinct (map fst (rc_statuses s2))" "distinct (map fst (rc_statuses s3))"
    using dist s1(2) s2(5) s3(5) by (auto simp: entries_done_def)
  have xs: "x \<in> set xs \<longleftrightarrow> (x, StIN_PROGRESS) \<in> set (rc_statuses s2)" for x
    by (force simp: xs_def status_snapshot_def)
  have none: "v \<noteq> StIN_PROGRESS" if e: "(x, v) \<in> set (rc_statuses s3)" for x v
  proof
    assume "v = StIN_PROGRESS"
    then have g: "status_get (rc_statuses s3) x = StIN_PROGRESS" using status_get_entry [OF d(2) e] by simp
    then have n: "x \<notin> set xs" "status_get (rc_statuses s2) x = StIN_PROGRESS" using s3(4) by (auto split: if_splits)
    then obtain w where "(x, w) \<in> set (rc_statuses s2)" using e s3(6) by force
    then show False using status_get_entry [OF d(1)] n xs by auto
  qed
  have st1: "status_get (rc_statuses s1) x = outcome (rc_statuses s) es x" for x using s1(2) by (simp add: entries_done_def)
  have "status_get (rc_statuses s3) x = StCOMMITTED \<longleftrightarrow> outcome (rc_statuses s) es x = StCOMMITTED" for x
    using s2(4) s3(4) st1 by auto
  moreover have "status_get (rc_statuses s3) x \<noteq> StIN_PROGRESS" if "x \<in> with_record BeginRecord es" for x
    using that s1(2) s2(4) s3(4) by (auto simp: entries_done_def begun)
  ultimately show ?thesis using run s1 s2(2,3) s3(2,3) none by (auto simp: entries_done_def)
qed

lemma distinct_dict_of: "distinct (map fst (dict_of kvs))"
proof -
  have "distinct (map fst d) \<Longrightarrow> distinct (map fst (fold (\<lambda>(k, v) d. AList.update k v d) kvs d))" for d
    by (induction kvs arbitrary: d) (auto simp: distinct_update)
  then show ?thesis by (simp add: dict_of_def)
qed

text \<open>
  Claim C3. Recovery succeeds on every log whose page images are readable and whose outcomes do not
  contradict the checkpointed ones, and leaves: for every page, the newest image logged since the
  checkpoint, although the disk copy was unreadable, older or already that image; every page without an
  image as it was (or newly allocated and blank); committed exactly the transactions that have a commit
  record or were committed at the checkpoint, none in progress; and a next transaction id above all ids in use.
\<close>

theorem recover_correct:
  assumes "disk_inv d" and "\<not> wm_closed wal"
    and "images_ok (replayed start_lsn (wm_entries wal))"
    and "outcomes_consistent (dict_of initial_statuses) (wm_entries wal)"
  shows "\<exists>result d'. recover wal start_lsn initial_statuses next_xid d = (Inr result, d') \<and> disk_inv d'
     \<and> (\<forall>K img. (K, img) \<in> set (replayed start_lsn (wm_entries wal))
          \<and> newest_of (replayed start_lsn (wm_entries wal)) K img \<and> crash_page d K img \<longrightarrow> disk_page d' K = Some img)
     \<and> (\<forall>K. K \<notin> fst ` set (replayed start_lsn (wm_entries wal)) \<longrightarrow>
          disk_page d' K = disk_page d K \<or> disk_page d K = None \<and> blank K (disk_page d' K))
     \<and> (\<forall>x. status_get (rr_statuses result) x = StCOMMITTED \<longleftrightarrow>
          x \<in> with_record CommitRecord (wm_entries wal)
          \<or> x \<notin> with_record AbortRecord (wm_entries wal) \<and> status_get (dict_of initial_statuses) x = StCOMMITTED)
     \<and> (\<forall>x \<in> with_record BeginRecord (wm_entries wal). status_get (rr_statuses result) x \<noteq> StIN_PROGRESS)
     \<and> (\<forall>(x, v) \<in> set (rr_statuses result). v \<noteq> StIN_PROGRESS)
     \<and> (\<forall>e \<in> set (wm_entries wal). int (wr_xid e) < rr_next_xid result) \<and> next_xid \<le> rr_next_xid result"
proof -
  let ?es = "wm_entries wal"
  let ?s = "\<lparr>rc_disk = d, rc_statuses = dict_of initial_statuses, rc_begun = [], rc_maximum_xid = next_xid - 1, rc_redone = 0\<rparr>"
  obtain s' n where s': "recover_run start_lsn ?es ?s = (Inr (), s')"
    "redo_images (replayed start_lsn ?es) d = (Inr n, rc_disk s')"
    "\<forall>x. status_get (rc_statuses s') x = StCOMMITTED \<longleftrightarrow> outcome (dict_of initial_statuses) ?es x = StCOMMITTED"
    "\<forall>x \<in> with_record BeginRecord ?es. status_get (rc_statuses s') x \<noteq> StIN_PROGRESS"
    "\<forall>(x, v) \<in> set (rc_statuses s'). v \<noteq> StIN_PROGRESS"
    "\<forall>e \<in> set ?es. int (wr_xid e) \<le> rc_maximum_xid s'" "next_xid - 1 \<le> rc_maximum_xid s'"
    using recover_run_ok [of start_lsn ?es ?s] assms by (auto simp: distinct_dict_of)
  have scan: "wal_scan 0 wal = (Inr ?es, wal)"
    using assms(2) by (simp add: wal_scan_def sm_bind_def wal_ensure_open_def)
  have run: "recover wal start_lsn initial_statuses next_xid d =
      (Inr \<lparr>rr_statuses = rc_statuses s', rr_next_xid = rc_maximum_xid s' + 1, rr_redone_pages = rc_redone s'\<rparr>, rc_disk s')"
    by (simp add: recover_def scan s'(1))
  note pages = redo_images_ok [OF assms(3,1) s'(2)]
  have imgs: "\<exists>x. decode_page K img = Inr x \<and> 0 < dp_lsn x" if "(K, img) \<in> set (replayed start_lsn ?es)" for K img
    using assms(3) that by (cases "decode_page K img") (fastforce simp: images_ok_def list_all_iff)+
  have "disk_page (rc_disk s') K = Some img" if "(K, img) \<in> set (replayed start_lsn ?es)"
      "newest_of (replayed start_lsn ?es) K img" "crash_page d K img" for K img
    using pages imgs [OF that(1)] that by blast
  then show ?thesis
    unfolding run using pages s'(3-7) by (intro exI conjI) (auto simp: outcome_def split: if_splits)
qed

definition demo_log :: "bytes \<Rightarrow> wal_manager" where
  "demo_log img = \<lparr>wm_file = [], wm_synced = 0,
     wm_entries = [\<lparr>wr_lsn = 0, wr_end_lsn = 1, wr_xid = 2, wr_record = BeginRecord\<rparr>,
       \<lparr>wr_lsn = 1, wr_end_lsn = 2, wr_xid = 2, wr_record = HeapPageImagesRecord [(heap_page_key 7 0, img)]\<rparr>,
       \<lparr>wr_lsn = 2, wr_end_lsn = 3, wr_xid = 2, wr_record = CommitRecord\<rparr>],
     wm_end_lsn = 3, wm_flushed_lsn = 3, wm_closed = False\<rparr>"

theorem recover_correct_witness:
  "\<exists>img result d'. recover (demo_log img) 0 [] 2 fresh_disk = (Inr result, d')
     \<and> disk_page d' (heap_page_key 7 0) = Some img \<and> status_get (rr_statuses result) 2 = StCOMMITTED"
proof -
  let ?K = "heap_page_key 7 0"
  have v: "valid_page_key ?K" by (simp add: valid_page_key_def heap_page_key_def heap_relation_def)
  obtain img where img: "encode_page ?K KindHEAP 5 [1, 2] = Inr img"
    using encode_page_eq [OF v, of 5 "[1, 2]"] by (auto simp: page_sizes)
  note dec = encode_page_decode [OF img v]
  have rep: "replayed 0 (wm_entries (demo_log img)) = [(?K, img)]" by (simp add: replayed_def demo_log_def)
  have "images_ok [(?K, img)]" "newest_of [(?K, img)] ?K img" "crash_page fresh_disk ?K img"
    using dec by (simp_all add: images_ok_def newest_of_def crash_page_def fresh_disk_page)
  moreover have "outcomes_consistent (dict_of []) (wm_entries (demo_log img))"
    by (auto simp: outcomes_consistent_def demo_log_def dict_of_def status_get_def with_record_def)
  moreover have "2 \<in> with_record CommitRecord (wm_entries (demo_log img))" by (auto simp: with_record_iff demo_log_def)
  ultimately show ?thesis
    using recover_correct [OF fresh_disk_inv, of "demo_log img" 0 "[]" 2] unfolding rep by (fastforce simp: demo_log_def)
qed

section \<open>Sharp checkpoint\<close>

text \<open>
  The control file's contents; its file is replaced atomically, so it is modelled by the state
  it holds (the JSON payload and its checksum are not spelt out), and storing by whether its
  writing fails before or after the replacement. The log is the one the buffer pool's flush gate
  uses.
\<close>

record control_state =
  cs_checkpoint_lsn :: nat
  cs_clean_shutdown :: bool
  cs_next_xid :: int
  cs_statuses :: "(nat \<times> transaction_status) list"

record storage_state =
  st_pool :: buffer_pool
  st_control :: control_state

definition on_pool :: "(buffer_pool, 'a) sm \<Rightarrow> (storage_state, 'a) sm" where
  "on_pool m s = (case m (st_pool s) of (r, b) \<Rightarrow> (r, s\<lparr>st_pool := b\<rparr>))"

definition pool_wal :: "(wal_manager, 'a) sm \<Rightarrow> (buffer_pool, 'a) sm" where
  "pool_wal m b =
     (case bp_wal b of
        None \<Rightarrow> (Inl PyAssertionError, b)
      | Some w \<Rightarrow> (case m w of (r, w') \<Rightarrow> (r, b\<lparr>bp_wal := Some w'\<rparr>)))"

definition flush_to_end :: "(wal_manager, unit) sm" where
  "flush_to_end w = wal_flush (Some (wm_end_lsn w)) w"

fun sync_relations :: "relation_id list \<Rightarrow> (disk_manager, unit) sm" where
  "sync_relations [] = sm_return ()"
| "sync_relations (r # rs) = sm_bind (disk_sync_relation r) (\<lambda>_. sync_relations rs)"

definition sync_order :: "relation_id list \<Rightarrow> relation_id list" where
  "sync_order relations = sort_key (\<lambda>r. (fork_kind_value (rel_fork r), rel_object_id r)) (remdups relations)"

definition control_store :: "io_outcome \<Rightarrow> control_state \<Rightarrow> (storage_state, unit) sm" where
  "control_store io state s =
     (case io of
        IoOk \<Rightarrow> (Inr (), s\<lparr>st_control := state\<rparr>)
      | IoFailsBefore \<Rightarrow> (Inl PyOSError, s)
      | IoFailsAfter \<Rightarrow> (Inl PyOSError, s\<lparr>st_control := state\<rparr>))"

text \<open>The calls of a checkpoint, with the states that a crash after each of them finds.\<close>

definition checkpoint_steps ::
    "io_outcome \<Rightarrow> relation_id list \<Rightarrow> int \<Rightarrow> (nat \<times> transaction_status) list \<Rightarrow> bool \<Rightarrow> (storage_state, nat) traced" where
  "checkpoint_steps io relations next_xid statuses clean_shutdown =
     tr_bind (tr_call (on_pool (pool_wal flush_to_end))) (\<lambda>_.
     tr_bind (tr_call (on_pool flush_all)) (\<lambda>_.
     tr_bind (tr_call (on_pool (on_disk (sync_relations (sync_order relations))))) (\<lambda>_.
     tr_bind (tr_call (on_pool (pool_wal (\<lambda>w. wal_append 0 (CheckpointRecord (wm_end_lsn w)) w)))) (\<lambda>checkpoint_lsn.
     tr_bind (tr_call (on_pool (pool_wal flush_to_end))) (\<lambda>_.
     tr_bind (tr_call (control_store io \<lparr>cs_checkpoint_lsn = checkpoint_lsn, cs_clean_shutdown = clean_shutdown,
         cs_next_xid = next_xid, cs_statuses = statuses\<rparr>)) (\<lambda>_.
     tr_return checkpoint_lsn))))))"

definition sharp_checkpoint ::
    "io_outcome \<Rightarrow> relation_id list \<Rightarrow> int \<Rightarrow> (nat \<times> transaction_status) list \<Rightarrow> bool \<Rightarrow> (storage_state, nat) sm" where
  "sharp_checkpoint io relations next_xid statuses clean_shutdown =
     tr_run (checkpoint_steps io relations next_xid statuses clean_shutdown)"

lemma disk_sync_relation_eq:
  assumes "disk_sync_relation r d = (res, d')"
  shows "disk_page d' = disk_page d \<and> rel_bytes d' = rel_bytes d"
    and "res = Inr () \<Longrightarrow> dm_synced d' = (dm_synced d)(relation_path r \<mapsto> rel_bytes d r)"
proof -
  obtain r1 d1 where d1: "disk_descriptor r d = (r1, d1)" by fastforce
  note eq = disk_eqD [OF disk_descriptor_eq [OF d1]]
  show "disk_page d' = disk_page d \<and> rel_bytes d' = rel_bytes d"
  proof -
    have "rel_bytes (d1\<lparr>dm_synced := sy\<rparr>) = rel_bytes d1" for sy by (simp add: rel_bytes_def disk_contents_def fun_eq_iff)
    then have b: "rel_bytes d' = rel_bytes d"
      using assms d1 eq(6) by (cases r1) (auto simp: disk_sync_relation_def sm_bind_def)
    then have raw: "raw_page d' = raw_page d" by (simp add: raw_page_def fun_eq_iff)
    have "disk_page d' k = disk_page d k" for k unfolding disk_page_def raw ..
    then show ?thesis using b by (simp add: fun_eq_iff)
  qed
  show "dm_synced d' = (dm_synced d)(relation_path r \<mapsto> rel_bytes d r)" if "res = Inr ()"
    using assms d1 eq that disk_descriptor_ok(1) [of r d] by (cases r1)
      (auto simp: disk_sync_relation_def sm_bind_def rel_bytes_def fun_eq_iff)
qed

lemma sync_relations_ok:
  assumes "sync_relations rs d = (res, d')"
  shows "disk_page d' = disk_page d \<and> rel_bytes d' = rel_bytes d
    \<and> (res = Inr () \<longrightarrow> (\<forall>r. dm_synced d' (relation_path r) =
          (if r \<in> set rs then Some (rel_bytes d r) else dm_synced d (relation_path r))))"
  using assms
proof (induction rs arbitrary: d)
  case Nil
  then show ?case by simp
next
  case (Cons r rs)
  obtain r1 d1 where d1: "disk_sync_relation r d = (r1, d1)" by fastforce
  note one = disk_sync_relation_eq [OF d1]
  show ?case
  proof (cases r1)
    case (Inl e)
    then show ?thesis using Cons.prems d1 one by (auto simp: sm_bind_def)
  next
    case (Inr u)
    then have "sync_relations rs d1 = (res, d')" using Cons.prems d1 by (simp add: sm_bind_def)
    from Cons.IH [OF this] show ?thesis using one Inr by auto
  qed
qed

lemma on_pool_cases: "on_pool m s = (res, s') \<longleftrightarrow> (\<exists>b. m (st_pool s) = (res, b) \<and> s' = s\<lparr>st_pool := b\<rparr>)"
  by (auto simp: on_pool_def split: prod.splits)

lemma pool_wal_pool:
  assumes "pool_wal m b = (res, b')"
  shows "b' = b\<lparr>bp_wal := bp_wal b'\<rparr>"
  using assms by (auto simp: pool_wal_def split: option.splits prod.splits)

lemma bp_view_wal [simp]: "bp_view (b\<lparr>bp_wal := w\<rparr>) = bp_view b"
  by (auto simp: bp_view_def fun_eq_iff split: option.splits)

text \<open>The stages of a checkpoint.\<close>

definition log_fine :: "buffer_pool \<Rightarrow> bool" where
  "log_fine b \<longleftrightarrow> (\<exists>w. bp_wal b = Some w \<and> wal_inv w \<and> wal_durable w)"

definition pages_saved :: "relation_id list \<Rightarrow> (page_key \<rightharpoonup> bytes) \<Rightarrow> buffer_pool \<Rightarrow> bool" where
  "pages_saved relations view b \<longleftrightarrow>
     disk_page (bp_disk b) = view
     \<and> (\<forall>r \<in> set relations. dm_synced (bp_disk b) (relation_path r) = Some (rel_bytes (bp_disk b) r))"

definition checkpoint_entry :: "nat \<Rightarrow> wal_manager \<Rightarrow> decoded_wal_record \<Rightarrow> bool" where
  "checkpoint_entry lsn w d \<longleftrightarrow> d \<in> set (wm_entries w) \<and> wr_lsn d = lsn \<and> wr_record d = CheckpointRecord lsn"

text \<open>The log has the checkpoint record, whatever part of its file survives a crash.\<close>

definition record_survives :: "nat \<Rightarrow> buffer_pool \<Rightarrow> bool" where
  "record_survives lsn b \<longleftrightarrow>
     (\<exists>w. bp_wal b = Some w \<and> (\<forall>m. wm_synced w \<le> m \<longrightarrow> m \<le> length (wm_file w) \<longrightarrow>
        (\<exists>w' d. wal_open (take m (wm_file w)) m = Inr w' \<and> checkpoint_entry lsn w' d)))"

lemma pool_logged_fine: "pool_logged b \<Longrightarrow> log_fine b"
  by (auto simp: pool_logged_def log_fine_def)

lemma pool_flush:
  assumes "log_fine b" and f: "pool_wal flush_to_end b = (res, b')"
  shows "log_fine b'" and "b' = b\<lparr>bp_wal := bp_wal b'\<rparr>"
    and "res = Inr () \<Longrightarrow> bp_wal b = Some w \<Longrightarrow> checkpoint_entry lsn w d \<Longrightarrow> record_survives lsn b'"
proof -
  obtain w0 where w0: "bp_wal b = Some w0" "wal_inv w0" "wal_durable w0" using assms(1) by (auto simp: log_fine_def)
  obtain w1 where w1: "wal_flush (Some (wm_end_lsn w0)) w0 = (res, w1)" "b' = b\<lparr>bp_wal := Some w1\<rparr>"
    using f w0(1) by (auto simp: pool_wal_def flush_to_end_def split: prod.splits)
  have i1: "wal_inv w1" "wal_durable w1" using wal.flush_inv [OF _ w1(1)] w0 by auto
  then show "log_fine b'" "b' = b\<lparr>bp_wal := bp_wal b'\<rparr>" using w1(2) by (simp_all add: log_fine_def)
  assume r: "res = Inr ()" and w: "bp_wal b = Some w" and d: "checkpoint_entry lsn w d"
  note fo = wal_flush_ok [OF w0(2,3) w1(1) [unfolded r]]
  have d': "d \<in> set (wm_entries w1)" using d w w0(1) fo(4) by (simp add: checkpoint_entry_def)
  have l1: "log_at 0 (wm_entries w1) (wm_file w1)" "wm_end_lsn w1 = length (wm_file w1)" using i1(1) by (simp_all add: wal_inv_def)
  have e: "wr_end_lsn d \<le> wm_synced w1"
    using log_at_end_gt [OF l1(1) d'] l1(2) fo(3,5) i1(2) by (simp add: wal_durable_def)
  have "\<exists>w' d. wal_open (take m (wm_file w1)) m = Inr w' \<and> checkpoint_entry lsn w' d"
    if m: "wm_synced w1 \<le> m" "m \<le> length (wm_file w1)" for m
  proof -
    obtain w' where "wal_open (take m (wm_file w1)) m = Inr w'" "wm_entries w' = filter (\<lambda>d. wr_end_lsn d \<le> m) (wm_entries w1)"
      using wal_open_prefix [OF l1(1) m(2), of m] by blast
    then show ?thesis using d d' e m(1) by (fastforce simp: checkpoint_entry_def)
  qed
  then show "record_survives lsn b'" using w1(2) by (simp add: record_survives_def)
qed

lemma pool_append:
  assumes "log_fine b" and f: "pool_wal (\<lambda>w. wal_append 0 (CheckpointRecord (wm_end_lsn w)) w) b = (res, b')"
  shows "log_fine b'" and "b' = b\<lparr>bp_wal := bp_wal b'\<rparr>"
    and "res = Inr lsn \<Longrightarrow> \<exists>w d. bp_wal b' = Some w \<and> checkpoint_entry lsn w d"
proof -
  obtain w0 where w0: "bp_wal b = Some w0" "wal_inv w0" "wal_durable w0" using assms(1) by (auto simp: log_fine_def)
  obtain w1 where w1: "wal_append 0 (CheckpointRecord (wm_end_lsn w0)) w0 = (res, w1)" "b' = b\<lparr>bp_wal := Some w1\<rparr>"
    using f w0(1) by (auto simp: pool_wal_def split: prod.splits)
  have i1: "wal_inv w1" "wal_durable w1" using wal.app_inv [OF _ _ w1(1)] w0 by auto
  then show "log_fine b'" "b' = b\<lparr>bp_wal := bp_wal b'\<rparr>" using w1(2) by (simp_all add: log_fine_def)
  assume r: "res = Inr lsn"
  note ao = wal_append_ok [OF w0(2) w1(1) [unfolded r]]
  show "\<exists>w d. bp_wal b' = Some w \<and> checkpoint_entry lsn w d"
    using ao(2,3) w1(2) by (auto simp: checkpoint_entry_def)
qed

lemma pages_saved_wal [simp]: "pages_saved relations view (b\<lparr>bp_wal := w\<rparr>) = pages_saved relations view b"
  by (simp add: pages_saved_def)

lemma sync_saves:
  assumes "disk_page (bp_disk b) = view" and "on_disk (sync_relations (sync_order relations)) b = (res, b')"
  shows "bp_wal b' = bp_wal b" and "res = Inr () \<Longrightarrow> pages_saved relations view b'"
proof -
  obtain d where d: "sync_relations (sync_order relations) (bp_disk b) = (res, d)" "b' = b\<lparr>bp_disk := d\<rparr>"
    using assms(2) by (auto simp: on_disk_def split: prod.splits)
  note sync = sync_relations_ok [OF d(1)]
  have "set (sync_order relations) = set relations" by (simp add: sync_order_def)
  then show "bp_wal b' = bp_wal b" and "res = Inr () \<Longrightarrow> pages_saved relations view b'"
    using sync d(2) assms(1) by (simp_all add: pages_saved_def)
qed

lemma pool_flush_keeps:
  assumes "pool_wal flush_to_end b = (res, b')" and "bp_inv b" and "pool_logged b"
  shows "bp_inv b'" "pool_logged b'" "bp_view b' = bp_view b"
proof -
  obtain w where w: "bp_wal b = Some w" using assms(3) by (auto simp: pool_logged_def)
  obtain w1 where w1: "wal_flush (Some (wm_end_lsn w)) w = (res, w1)" "b' = b\<lparr>bp_wal := Some w1\<rparr>"
    using assms(1) w by (auto simp: pool_wal_def flush_to_end_def split: prod.splits)
  show "bp_inv b'" "bp_view b' = bp_view b" using assms(2) w1(2) by (simp_all add: bp_inv_wal)
  show "pool_logged b'" using bp_step_logged [OF bp_log_flush [OF w w1(1)] assms(2,3)] w1(2) by simp
qed

lemma flush_all_saves:
  assumes "flush_all b = (Inr (), b')" and "bp_inv b" and "pool_logged b"
  shows "log_fine b'" "disk_page (bp_disk b') = bp_view b"
  using flush_all_cases(4) [OF assms(2,1)] pool_logged_fine [OF bp_step_logged [OF bp_flush_all [OF assms(1)] assms(2,3)]]
  by simp_all

text \<open>What a published checkpoint promises: its pages are saved and its record survives.\<close>

definition checkpoint_done ::
    "relation_id list \<Rightarrow> int \<Rightarrow> (nat \<times> transaction_status) list \<Rightarrow> bool \<Rightarrow> (page_key \<rightharpoonup> bytes) \<Rightarrow> nat \<Rightarrow> storage_state \<Rightarrow> bool" where
  "checkpoint_done relations next_xid statuses clean_shutdown view lsn c \<longleftrightarrow>
     st_control c = \<lparr>cs_checkpoint_lsn = lsn, cs_clean_shutdown = clean_shutdown, cs_next_xid = next_xid, cs_statuses = statuses\<rparr>
     \<and> pages_saved relations view (st_pool c) \<and> record_survives lsn (st_pool c)"

text \<open>A call on the pool keeps the control record, so a crash after it finds the old one.\<close>

lemma pool_call:
  assumes "\<And>b x b'. P b \<Longrightarrow> m b = (Inr x, b') \<Longrightarrow> Q x b'"
    and "\<And>c. st_control c = old \<Longrightarrow> C c" and "\<And>e c. st_control c = old \<Longrightarrow> E e c"
  shows "tr_spec (\<lambda>c. st_control c = old \<and> P (st_pool c)) (tr_call (on_pool m))
     (\<lambda>x c. st_control c = old \<and> Q x (st_pool c)) E C"
  by (rule tr_spec_call) (use assms in \<open>auto simp: on_pool_cases\<close>)

lemma checkpoint_steps_spec:
  fixes s relations next_xid statuses clean_shutdown
  assumes "bp_inv (st_pool s)" and "pool_logged (st_pool s)"
  defines "published \<equiv> checkpoint_done relations next_xid statuses clean_shutdown (bp_view (st_pool s))"
  shows "tr_spec (\<lambda>c. c = s) (checkpoint_steps io relations next_xid statuses clean_shutdown)
     (\<lambda>lsn c. published lsn c) (\<lambda>e c. st_control c = st_control s \<or> io = IoFailsAfter \<and> (\<exists>lsn. published lsn c))
     (\<lambda>c. st_control c = st_control s \<or> (\<exists>lsn. published lsn c))"
    (is "tr_spec _ _ ?Q ?E ?C")
proof -
  let ?view = "bp_view (st_pool s)"
  define P1 where "P1 b \<longleftrightarrow> bp_inv b \<and> pool_logged b \<and> bp_view b = ?view" for b
  define P2 where "P2 b \<longleftrightarrow> log_fine b \<and> disk_page (bp_disk b) = ?view" for b
  define P3 where "P3 b \<longleftrightarrow> log_fine b \<and> pages_saved relations ?view b" for b
  define P4 where "P4 lsn b \<longleftrightarrow> P3 b \<and> (\<exists>w d. bp_wal b = Some w \<and> checkpoint_entry lsn w d)" for lsn b
  define P5 where "P5 lsn b \<longleftrightarrow> P3 b \<and> record_survives lsn b" for lsn b
  let ?at = "\<lambda>P c. st_control c = st_control s \<and> P (st_pool c)"
  have 1: "tr_spec (?at P1) (tr_call (on_pool (pool_wal flush_to_end))) (\<lambda>_. ?at P1) ?E ?C"
    by (rule pool_call) (auto simp: P1_def pool_flush_keeps)
  have 2: "tr_spec (?at P1) (tr_call (on_pool flush_all)) (\<lambda>_. ?at P2) ?E ?C"
    by (rule pool_call) (auto simp: P1_def P2_def flush_all_saves)
  have 3: "tr_spec (?at P2) (tr_call (on_pool (on_disk (sync_relations (sync_order relations))))) (\<lambda>_. ?at P3) ?E ?C"
    by (rule pool_call) (auto simp: P2_def P3_def log_fine_def dest: sync_saves)
  have 4: "tr_spec (?at P3) (tr_call (on_pool (pool_wal (\<lambda>w. wal_append 0 (CheckpointRecord (wm_end_lsn w)) w))))
      (\<lambda>lsn. ?at (P4 lsn)) ?E ?C"
  proof (rule pool_call)
    fix b lsn b' assume "P3 b" and f: "pool_wal (\<lambda>w. wal_append 0 (CheckpointRecord (wm_end_lsn w)) w) b = (Inr lsn, b')"
    then show "P4 lsn b'"
      using pool_append [OF _ f] pages_saved_wal [where relations = relations and view = ?view and b = b and w = "bp_wal b'"] unfolding P3_def P4_def by metis
  qed auto
  have 5: "tr_spec (?at (P4 lsn)) (tr_call (on_pool (pool_wal flush_to_end))) (\<lambda>_. ?at (P5 lsn)) ?E ?C" for lsn
  proof (rule pool_call)
    fix b u b' assume p: "P4 lsn b" and f: "pool_wal flush_to_end b = (Inr u, b')"
    then show "P5 lsn b'"
      using pool_flush [OF _ f] pages_saved_wal [where relations = relations and view = ?view and b = b and w = "bp_wal b'"]
      unfolding P3_def P4_def P5_def by (metis (full_types) old.unit.exhaust)
  qed auto
  have 6: "tr_spec (?at (P5 lsn)) (tr_call (control_store io \<lparr>cs_checkpoint_lsn = lsn, cs_clean_shutdown = clean_shutdown,
         cs_next_xid = next_xid, cs_statuses = statuses\<rparr>)) (\<lambda>_. published lsn) ?E ?C" for lsn
    by (rule tr_spec_call)
      (auto simp: control_store_def P5_def P3_def published_def checkpoint_done_def split: io_outcome.splits)
  have "tr_spec (?at P1) (checkpoint_steps io relations next_xid statuses clean_shutdown) ?Q ?E ?C"
    unfolding checkpoint_steps_def
    by (rule tr_spec_bind [OF 1] tr_spec_bind [OF 2] tr_spec_bind [OF 3] tr_spec_bind [OF 4] tr_spec_bind [OF 5]
        tr_spec_bind [OF 6] tr_spec_return)+ simp
  then show ?thesis using assms(1,2) by (auto simp: tr_spec_def P1_def)
qed

text \<open>
  Claim C28. A checkpoint publishes its control record last. A crash after any of its calls finds
  the old control record, or the new one, and then the disk has exactly the logical pages the
  pool had, every given relation is synchronised with those contents, and whatever part of the
  log file survives the crash, the reopened log has the CHECKPOINT record at the published
  position. A checkpoint that succeeds has published its position; one that fails has left the
  old control record, unless it failed in making the replaced control file durable.
\<close>

theorem checkpoint_ordering:
  assumes "bp_inv (st_pool s)" and "pool_logged (st_pool s)"
    and "checkpoint_steps io relations next_xid statuses clean_shutdown s = ((res, s'), crashes)"
  shows "(\<forall>c \<in> set crashes. st_control c = st_control s
        \<or> (\<exists>lsn. checkpoint_done relations next_xid statuses clean_shutdown (bp_view (st_pool s)) lsn c))
    \<and> sharp_checkpoint io relations next_xid statuses clean_shutdown s = (res, s')
    \<and> (case res of
        Inl e \<Rightarrow> st_control s' = st_control s \<or> io = IoFailsAfter
      | Inr lsn \<Rightarrow> checkpoint_done relations next_xid statuses clean_shutdown (bp_view (st_pool s)) lsn s')"
  using checkpoint_steps_spec [OF assms(1,2), of io relations next_xid statuses clean_shutdown] assms(3)
  by (auto simp: tr_spec_def sharp_checkpoint_def tr_run_def split: sum.splits)

text \<open>A checkpoint of an empty database with one relation, over an empty log.\<close>

lemma first_checkpoint:
  assumes b: "mk_buffer_pool fresh_disk 1 (Some empty_log) = Inr b"
  shows "\<exists>s' crashes. checkpoint_steps IoOk [heap_relation 1] 2 [] False \<lparr>st_pool = b, st_control = old\<rparr>
      = ((Inr 0, s'), crashes) \<and> s' \<in> set crashes \<and> length crashes = 6"
proof -
  have b': "bp_wal b = Some empty_log" "bp_frames b = [empty_frame]" "bp_disk b = fresh_disk"
    using b by (auto simp: mk_buffer_pool_def mk_clock_def)
  have self: "b\<lparr>bp_wal := Some empty_log\<rparr> = b" using b'(1) by (cases b) simp
  have 1: "pool_wal flush_to_end b = (Inr (), b)"
    using b'(1) self by (simp add: pool_wal_def flush_to_end_def wal_flush_def sm_bind_def wal_ensure_open_def empty_log_def)
  have 2: "flush_all b = (Inr (), b)"
    using b'(2) by (simp add: flush_all_def sm_bind_def frame_at_def empty_frame_def)
  obtain d where "disk_sync_relation (heap_relation 1) fresh_disk = (Inr (), d)"
    by (simp add: disk_sync_relation_def disk_descriptor_def disk_ensure_open_def sm_bind_def fresh_disk_def disk_open_def Let_def)
  then have 3: "on_disk (sync_relations (sync_order [heap_relation 1])) b = (Inr (), b\<lparr>bp_disk := d\<rparr>)"
    using b'(3) by (simp add: on_disk_def sync_order_def sm_bind_def)
  obtain w1 where w1: "wal_append 0 (CheckpointRecord 0) empty_log = (Inr 0, w1)"
    using wal_append_checkpoint [of empty_log 0 0] empty_log_ok(3) by (auto simp: empty_log_def)
  have "\<not> wm_closed w1" using wal_append_ok(7) [OF empty_log_ok(1) w1] empty_log_ok(3) by simp
  then obtain w2 where w2: "wal_flush (Some (wm_end_lsn w1)) w1 = (Inr (), w2)" using wal_flush_end by blast
  have 4: "pool_wal (\<lambda>w. wal_append 0 (CheckpointRecord (wm_end_lsn w)) w) (b\<lparr>bp_disk := d\<rparr>)
      = (Inr 0, b\<lparr>bp_disk := d, bp_wal := Some w1\<rparr>)"
    using b'(1) w1 by (simp add: pool_wal_def empty_log_def)
  have 5: "pool_wal flush_to_end (b\<lparr>bp_disk := d, bp_wal := Some w1\<rparr>) = (Inr (), b\<lparr>bp_disk := d, bp_wal := Some w2\<rparr>)"
    using w2 by (simp add: pool_wal_def flush_to_end_def)
  show ?thesis
    using 1 2 3 4 5 by (simp add: checkpoint_steps_def tr_bind_def tr_call_def tr_return_def on_pool_def control_store_def)
qed

theorem checkpoint_ordering_witness:
  "\<exists>s s' crashes. checkpoint_steps IoOk [heap_relation 1] 2 [] False s = ((Inr 0, s'), crashes)
     \<and> length crashes = 6 \<and> st_control s' \<noteq> st_control s
     \<and> checkpoint_done [heap_relation 1] 2 [] False Map.empty 0 s' \<and> record_survives 0 (st_pool s')"
proof -
  obtain b where b: "mk_buffer_pool fresh_disk 1 (Some empty_log) = Inr b" "bp_inv b" "pool_logged b" "bp_view b = Map.empty"
    by (rule fresh_pool)
  let ?s = "\<lparr>st_pool = b, st_control = \<lparr>cs_checkpoint_lsn = 0, cs_clean_shutdown = True, cs_next_xid = 2, cs_statuses = []\<rparr>\<rparr>"
  obtain s' crashes where run: "checkpoint_steps IoOk [heap_relation 1] 2 [] False ?s = ((Inr 0, s'), crashes)"
    "length crashes = 6"
    using first_checkpoint [OF b(1)] by blast
  have "checkpoint_done [heap_relation 1] 2 [] False Map.empty 0 s'"
    using checkpoint_ordering [OF _ _ run(1)] b by simp
  then show ?thesis
    using run by (intro exI [of _ ?s] exI [of _ s'] exI [of _ crashes]) (simp add: checkpoint_done_def)
qed

end
