(* ===== verification/Sql_Lexer.thy ===== *)
theory Sql_Lexer
  imports Catalog_Model
begin

text \<open>
  \<open>sql/tokens.py\<close> and \<open>sql/lexer.py\<close>: from SQL text, a list of code points, to
  tokens. The character classes of \<open>str\<close> and its \<open>upper\<close> are fixed on ASCII; beyond it
  they are read from the Unicode tables of the interpreter, a parameter of the lexer. Positions
  are kept in the tokens; messages are not modelled. Shows that the tokens cover the text
  without loss, that string and integer literals are read back to the values they denote, and
  which errors the lexer can raise.
\<close>

section \<open>Characters\<close>

record unicode =
  uc_alpha :: "nat \<Rightarrow> bool"
  uc_numeric :: "nat \<Rightarrow> bool"
  uc_digit :: "nat \<Rightarrow> bool"
  uc_space :: "nat \<Rightarrow> bool"
  uc_decimal :: "nat \<Rightarrow> nat option"
  uc_upper :: "nat \<Rightarrow> pystr"

definition is_digit :: "unicode \<Rightarrow> nat \<Rightarrow> bool" where
  "is_digit u c = (if c < 128 then 48 \<le> c \<and> c \<le> 57 else uc_digit u c)"

definition is_alpha :: "unicode \<Rightarrow> nat \<Rightarrow> bool" where
  "is_alpha u c = (if c < 128 then 65 \<le> c \<and> c \<le> 90 \<or> 97 \<le> c \<and> c \<le> 122 else uc_alpha u c)"

definition is_alnum :: "unicode \<Rightarrow> nat \<Rightarrow> bool" where
  "is_alnum u c \<longleftrightarrow> is_alpha u c \<or> is_digit u c \<or> 128 \<le> c \<and> uc_numeric u c"

definition is_space :: "unicode \<Rightarrow> nat \<Rightarrow> bool" where
  "is_space u c = (if c < 128 then 9 \<le> c \<and> c \<le> 13 \<or> 28 \<le> c \<and> c \<le> 32 else uc_space u c)"

text \<open>The digit \<open>int\<close> and \<open>float\<close> read from a character, if it is a decimal digit.\<close>

definition decimal_digit :: "unicode \<Rightarrow> nat \<Rightarrow> nat option" where
  "decimal_digit u c =
     (if c < 128 then (if 48 \<le> c \<and> c \<le> 57 then Some (c - 48) else None) else uc_decimal u c)"

definition str_upper :: "unicode \<Rightarrow> pystr \<Rightarrow> pystr" where
  "str_upper u s =
     concat (map (\<lambda>c. if c < 128 then [if 97 \<le> c \<and> c \<le> 122 then c - 32 else c] else uc_upper u c) s)"

text \<open>The value of a run of decimal digits, and \<open>int(s)\<close> with the interpreter's length limit.\<close>

fun digits_value :: "unicode \<Rightarrow> pystr \<Rightarrow> nat \<Rightarrow> nat option" where
  "digits_value u [] acc = Some acc"
| "digits_value u (c # s) acc =
     (case decimal_digit u c of None \<Rightarrow> None | Some d \<Rightarrow> digits_value u s (acc * 10 + d))"

definition INT_MAX_STR_DIGITS :: nat where "INT_MAX_STR_DIGITS = 4300"

definition py_int :: "unicode \<Rightarrow> pystr \<Rightarrow> int result" where
  "py_int u s =
     (case digits_value u s 0 of
        None \<Rightarrow> Inl PyValueError
      | Some n \<Rightarrow> if INT_MAX_STR_DIGITS < length s then Inl PyValueError else Inr (int n))"

text \<open>\<open>float(whole + "." + frac)\<close>: the double nearest to the decimal fraction.\<close>

definition py_float_literal :: "unicode \<Rightarrow> pystr \<Rightarrow> pystr \<Rightarrow> float64 result" where
  "py_float_literal u whole frac =
     (case digits_value u (whole @ frac) 0 of
        None \<Rightarrow> Inl PyValueError
      | Some n \<Rightarrow> Inr (f64_make False (round_magnitude (n * 2 ^ 1074) (10 ^ length frac))))"

section \<open>Tokens\<close>

datatype (plugins only: code) token_kind =
    TkIDENT | TkINTEGER | TkFLOAT | TkSTRING | TkCREATE | TkTABLE | TkINDEX | TkUNIQUE | TkON
    | TkINSERT | TkINTO | TkVALUES | TkSELECT | TkUPDATE | TkSET | TkDELETE | TkFROM | TkWHERE
    | TkINNER | TkJOIN | TkAS | TkGROUP | TkBY | TkORDER | TkASC | TkDESC | TkNULLS | TkFIRST
    | TkLAST | TkLIMIT | TkEXPLAIN | TkANALYZE | TkVACUUM | TkBEGIN | TkCOMMIT | TkROLLBACK | TkAND
    | TkOR | TkNOT | TkIS | TkNULL | TkTRUE | TkFALSE | TkPRIMARY | TkKEY | TkINT | TkINTEGER_TYPE
    | TkBIGINT | TkFLOAT_TYPE | TkBOOLEAN | TkTEXT | TkCOMMA | TkDOT | TkSEMICOLON | TkLPAREN
    | TkRPAREN | TkSTAR | TkPLUS | TkMINUS | TkSLASH | TkEQ | TkNEQ | TkLT | TkLTE | TkGT | TkGTE
    | TkEOF

definition KEYWORDS :: "(pystr \<times> token_kind) list" where
  "KEYWORDS =
     [(lit ''ANALYZE'', TkANALYZE), (lit ''AND'', TkAND), (lit ''AS'', TkAS), (lit ''ASC'', TkASC)
      , (lit ''BEGIN'', TkBEGIN), (lit ''BIGINT'', TkBIGINT), (lit ''BOOLEAN'', TkBOOLEAN)
      , (lit ''BY'', TkBY), (lit ''COMMIT'', TkCOMMIT), (lit ''CREATE'', TkCREATE)
      , (lit ''DELETE'', TkDELETE), (lit ''DESC'', TkDESC), (lit ''EXPLAIN'', TkEXPLAIN)
      , (lit ''FALSE'', TkFALSE), (lit ''FIRST'', TkFIRST), (lit ''FLOAT'', TkFLOAT_TYPE)
      , (lit ''FROM'', TkFROM), (lit ''GROUP'', TkGROUP), (lit ''INDEX'', TkINDEX)
      , (lit ''INNER'', TkINNER), (lit ''INSERT'', TkINSERT), (lit ''INT'', TkINT)
      , (lit ''INTEGER'', TkINTEGER_TYPE), (lit ''INTO'', TkINTO), (lit ''IS'', TkIS)
      , (lit ''JOIN'', TkJOIN), (lit ''KEY'', TkKEY), (lit ''LAST'', TkLAST)
      , (lit ''LIMIT'', TkLIMIT), (lit ''NOT'', TkNOT), (lit ''NULL'', TkNULL)
      , (lit ''NULLS'', TkNULLS), (lit ''ON'', TkON), (lit ''OR'', TkOR), (lit ''ORDER'', TkORDER)
      , (lit ''PRIMARY'', TkPRIMARY), (lit ''ROLLBACK'', TkROLLBACK), (lit ''SELECT'', TkSELECT)
      , (lit ''SET'', TkSET), (lit ''TABLE'', TkTABLE), (lit ''TEXT'', TkTEXT)
      , (lit ''TRUE'', TkTRUE), (lit ''UNIQUE'', TkUNIQUE), (lit ''UPDATE'', TkUPDATE)
      , (lit ''VACUUM'', TkVACUUM), (lit ''VALUES'', TkVALUES), (lit ''WHERE'', TkWHERE)]"

record token =
  tok_kind :: token_kind
  tok_lexeme :: pystr
  tok_value :: scalar
  tok_line :: nat
  tok_column :: nat

section \<open>The lexer\<close>

text \<open>The state: the part of the source from the current offset on, and the position.\<close>

record lexer =
  lx_rest :: pystr
  lx_line :: nat
  lx_column :: nat

text \<open>\<open>_advance\<close> at a position that is not the end; \<open>_peek\<close> yields no character at the end.\<close>

definition lx_advance :: "lexer \<Rightarrow> lexer" where
  "lx_advance lx =
     (case lx_rest lx of
        [] \<Rightarrow> lx
      | c # cs \<Rightarrow>
          if c = 10 then \<lparr>lx_rest = cs, lx_line = lx_line lx + 1, lx_column = 1\<rparr>
          else \<lparr>lx_rest = cs, lx_line = lx_line lx, lx_column = lx_column lx + 1\<rparr>)"

definition lx_peek :: "lexer \<Rightarrow> nat \<Rightarrow> nat option" where
  "lx_peek lx distance = (if distance < length (lx_rest lx) then Some (lx_rest lx ! distance) else None)"

definition peek_is :: "(nat \<Rightarrow> bool) \<Rightarrow> lexer \<Rightarrow> nat \<Rightarrow> bool" where
  "peek_is P lx distance = (case lx_peek lx distance of None \<Rightarrow> False | Some c \<Rightarrow> P c)"

text \<open>\<open>while P(self._peek()): self._advance()\<close>\<close>

function skip_while :: "(nat \<Rightarrow> bool) \<Rightarrow> lexer \<Rightarrow> lexer" where
  "skip_while P lx = (if peek_is P lx 0 then skip_while P (lx_advance lx) else lx)"
  by auto
termination
  by (relation "measure (\<lambda>(P, lx). length (lx_rest lx))")
    (auto simp: peek_is_def lx_peek_def lx_advance_def split: list.splits if_splits)

declare skip_while.simps [simp del]

text \<open>\<open>self._source[start : self._offset]\<close>\<close>

definition lexeme_between :: "lexer \<Rightarrow> lexer \<Rightarrow> pystr" where
  "lexeme_between start lx = take (length (lx_rest start) - length (lx_rest lx)) (lx_rest start)"

definition lex_identifier :: "unicode \<Rightarrow> lexer \<Rightarrow> (token \<times> lexer) result" where
  "lex_identifier u start =
     (let lx = skip_while (\<lambda>c. is_alnum u c \<or> c = 95) start;
          lexeme = lexeme_between start lx;
          kind = (case map_of KEYWORDS (str_upper u lexeme) of None \<Rightarrow> TkIDENT | Some k \<Rightarrow> k);
          val = (if kind = TkIDENT then ScStr lexeme else ScNone)
      in Inr (\<lparr>tok_kind = kind, tok_lexeme = lexeme, tok_value = val,
               tok_line = lx_line start, tok_column = lx_column start\<rparr>, lx))"

definition lex_number :: "unicode \<Rightarrow> lexer \<Rightarrow> (token \<times> lexer) result" where
  "lex_number u start =
     (let lx1 = skip_while (is_digit u) start
      in if peek_is (\<lambda>c. c = 46) lx1 0 \<and> peek_is (is_digit u) lx1 1 then
           let lx2 = lx_advance lx1; lx = skip_while (is_digit u) lx2
           in res_bind (py_float_literal u (lexeme_between start lx1) (lexeme_between lx2 lx)) (\<lambda>f.
              if f64_is_nan f \<or> f64_is_inf f then Inl SqlSyntaxError
              else Inr (\<lparr>tok_kind = TkFLOAT, tok_lexeme = lexeme_between start lx, tok_value = ScFloat f,
                         tok_line = lx_line start, tok_column = lx_column start\<rparr>, lx))
         else
           res_bind (py_int u (lexeme_between start lx1)) (\<lambda>i.
           Inr (\<lparr>tok_kind = TkINTEGER, tok_lexeme = lexeme_between start lx1, tok_value = ScInt i,
                  tok_line = lx_line start, tok_column = lx_column start\<rparr>, lx1)))"

text \<open>The loop of \<open>_string\<close> after the opening quote.\<close>

function string_body :: "lexer \<Rightarrow> pystr \<Rightarrow> (pystr \<times> lexer) result" where
  "string_body lx decoded =
     (case lx_rest lx of
        [] \<Rightarrow> Inl SqlSyntaxError
      | c # cs \<Rightarrow>
          if c = 0 then Inl SqlSyntaxError
          else if c \<noteq> 39 then string_body (lx_advance lx) (decoded @ [c])
          else if peek_is (\<lambda>d. d = 39) (lx_advance lx) 0
               then string_body (lx_advance (lx_advance lx)) (decoded @ [39])
               else Inr (decoded, lx_advance lx))"
  by auto
termination
  by (relation "measure (\<lambda>(lx, decoded). length (lx_rest lx))")
    (auto simp: lx_advance_def split: list.splits)

declare string_body.simps [simp del]

definition lex_string :: "lexer \<Rightarrow> (token \<times> lexer) result" where
  "lex_string start =
     res_bind (string_body (lx_advance start) []) (\<lambda>(decoded, lx).
     Inr (\<lparr>tok_kind = TkSTRING, tok_lexeme = lexeme_between start lx, tok_value = ScStr decoded,
            tok_line = lx_line start, tok_column = lx_column start\<rparr>, lx))"

definition single_symbols :: "(nat \<times> token_kind) list" where
  "single_symbols =
     [(44, TkCOMMA), (46, TkDOT), (59, TkSEMICOLON), (40, TkLPAREN), (41, TkRPAREN), (42, TkSTAR),
      (43, TkPLUS), (45, TkMINUS), (47, TkSLASH), (61, TkEQ)]"

definition lex_symbol :: "lexer \<Rightarrow> (token \<times> lexer) result" where
  "lex_symbol start =
     (let c = hd (lx_rest start); lx = lx_advance start;
          mk = (\<lambda>kind lx. Inr (\<lparr>tok_kind = kind, tok_lexeme = lexeme_between start lx, tok_value = ScNone,
                                 tok_line = lx_line start, tok_column = lx_column start\<rparr>, lx))
      in case map_of single_symbols c of
           Some kind \<Rightarrow> mk kind lx
         | None \<Rightarrow>
             if c = 60 then
               (if peek_is (\<lambda>d. d = 61) lx 0 then mk TkLTE (lx_advance lx)
                else if peek_is (\<lambda>d. d = 62) lx 0 then mk TkNEQ (lx_advance lx)
                else mk TkLT lx)
             else if c = 62 then
               (if peek_is (\<lambda>d. d = 61) lx 0 then mk TkGTE (lx_advance lx) else mk TkGT lx)
             else if c = 33 \<and> peek_is (\<lambda>d. d = 61) lx 0 then mk TkNEQ (lx_advance lx)
             else Inl SqlSyntaxError)"

text \<open>The branch of \<open>scan\<close> that the first character selects.\<close>

definition lex_token :: "unicode \<Rightarrow> lexer \<Rightarrow> (token \<times> lexer) result" where
  "lex_token u lx =
     (let c = hd (lx_rest lx)
      in if is_alpha u c \<or> c = 95 then lex_identifier u lx
         else if is_digit u c then lex_number u lx
         else if c = 39 then lex_string lx
         else lex_symbol lx)"

section \<open>What a lexing step consumes\<close>

text \<open>The position after a text, and the state after it was consumed.\<close>

fun pos_from :: "nat \<times> nat \<Rightarrow> pystr \<Rightarrow> nat \<times> nat" where
  "pos_from p [] = p"
| "pos_from (l, k) (c # cs) = pos_from (if c = 10 then (l + 1, 1) else (l, k + 1)) cs"

definition lx_after :: "pystr \<Rightarrow> lexer \<Rightarrow> lexer \<Rightarrow> bool" where
  "lx_after s start lx \<longleftrightarrow>
     lx_rest start = s @ lx_rest lx \<and> (lx_line lx, lx_column lx) = pos_from (lx_line start, lx_column start) s"

lemma pos_from_append: "pos_from p (s @ t) = pos_from (pos_from p s) t"
  by (induction p s rule: pos_from.induct) auto

lemma lx_after_refl: "lx_after [] lx lx"
  by (simp add: lx_after_def)

lemma lx_after_trans: "lx_after s a b \<Longrightarrow> lx_after t b c \<Longrightarrow> lx_after (s @ t) a c"
  by (auto simp: lx_after_def pos_from_append)

lemma lx_after_advance: "lx_rest lx = c # cs \<Longrightarrow> lx_after [c] lx (lx_advance lx)"
  by (simp add: lx_after_def lx_advance_def)

lemma lx_after_lexeme: "lx_after s start lx \<Longrightarrow> lexeme_between start lx = s"
  by (simp add: lx_after_def lexeme_between_def)

lemma lx_after_length: "lx_after s a b \<Longrightarrow> length (lx_rest a) = length s + length (lx_rest b)"
  by (simp add: lx_after_def)

lemma peek_is_0: "peek_is P lx 0 \<longleftrightarrow> (\<exists>c cs. lx_rest lx = c # cs \<and> P c)"
  by (cases "lx_rest lx") (auto simp: peek_is_def lx_peek_def)

lemma lx_advance_rest [simp]: "lx_rest (lx_advance lx) = tl (lx_rest lx)"
  by (auto simp: lx_advance_def split: list.splits)

text \<open>The loop takes the longest prefix of matching characters.\<close>

lemma skip_while_after: "lx_after (takeWhile P (lx_rest lx)) lx (skip_while P lx)"
proof (induction P lx rule: skip_while.induct)
  case (1 P lx)
  show ?case
  proof (cases "peek_is P lx 0")
    case True
    then obtain c cs where c: "lx_rest lx = c # cs" "P c" by (auto simp: peek_is_0)
    have "lx_after ([c] @ takeWhile P cs) lx (skip_while P (lx_advance lx))"
      using lx_after_trans [OF lx_after_advance [OF c(1)] 1 [OF True]] c by simp
    then show ?thesis using c True by (simp add: skip_while.simps [of P lx])
  next
    case False
    then have "takeWhile P (lx_rest lx) = []" by (cases "lx_rest lx") (auto simp: peek_is_0)
    then show ?thesis using False by (simp add: skip_while.simps [of P lx] lx_after_refl)
  qed
qed

lemma skip_while_rest: "lx_rest (skip_while P lx) = dropWhile P (lx_rest lx)"
  using skip_while_after [of P lx] by (simp add: lx_after_def) (metis append_eq_append_conv takeWhile_dropWhile_id)

lemma lexeme_skip_while: "lexeme_between lx (skip_while P lx) = takeWhile P (lx_rest lx)"
  by (rule lx_after_lexeme [OF skip_while_after])

text \<open>Tokens start where the lexer stood and hold what it consumed.\<close>

definition token_ok :: "lexer \<Rightarrow> token \<times> lexer \<Rightarrow> bool" where
  "token_ok start r \<longleftrightarrow>
     (case r of (t, lx) \<Rightarrow> tok_lexeme t \<noteq> [] \<and> lx_after (tok_lexeme t) start lx
        \<and> tok_line t = lx_line start \<and> tok_column t = lx_column start)"

lemma lex_identifier_ok:
  assumes "lx_rest lx = c # cs" and "is_alpha u c \<or> c = 95" and "lex_identifier u lx = Inr r"
  shows "token_ok lx r"
proof -
  have "is_alnum u c \<or> c = 95" using assms(2) by (auto simp: is_alnum_def)
  then show ?thesis
    using assms skip_while_after [of "\<lambda>c. is_alnum u c \<or> c = 95" lx]
    by (auto simp: lex_identifier_def Let_def token_ok_def lexeme_skip_while)
qed

lemma lex_number_ok:
  assumes "lx_rest lx = c # cs" and "is_digit u c" and f: "lex_number u lx = Inr r"
  shows "token_ok lx r"
proof -
  define lx1 where "lx1 = skip_while (is_digit u) lx"
  have a1: "lx_after (takeWhile (is_digit u) (lx_rest lx)) lx lx1" unfolding lx1_def by (rule skip_while_after)
  have ne: "takeWhile (is_digit u) (lx_rest lx) \<noteq> []" using assms by simp
  show ?thesis
  proof (cases "peek_is (\<lambda>c. c = 46) lx1 0 \<and> peek_is (is_digit u) lx1 1")
    case True
    then obtain cs' where cs': "lx_rest lx1 = 46 # cs'" by (auto simp: peek_is_0)
    define lx2 where "lx2 = lx_advance lx1"
    define lx3 where "lx3 = skip_while (is_digit u) lx2"
    have "lx_after ((takeWhile (is_digit u) (lx_rest lx) @ [46]) @ takeWhile (is_digit u) (lx_rest lx2)) lx lx3"
      using lx_after_trans [OF lx_after_trans [OF a1 lx_after_advance [OF cs'], folded lx2_def] skip_while_after]
      by (simp add: lx3_def)
    then show ?thesis
      using f True ne lx_after_lexeme
      by (fastforce simp: lex_number_def Let_def lx1_def [symmetric] lx2_def [symmetric] lx3_def [symmetric]
          res_bind_eq_Inr_iff token_ok_def split: if_splits)
  next
    case False
    then show ?thesis
      using f a1 ne lx_after_lexeme [OF a1]
      by (auto simp: lex_number_def Let_def lx1_def [symmetric] res_bind_eq_Inr_iff token_ok_def)
  qed
qed

lemma string_body_after: "string_body lx decoded = Inr (d, lx') \<Longrightarrow> \<exists>s. lx_after s lx lx'"
proof (induction lx decoded rule: string_body.induct)
  case (1 lx decoded)
  show ?case
  proof (cases "lx_rest lx")
    case Nil
    then show ?thesis using 1(3) by (simp add: string_body.simps [of lx])
  next
    case (Cons c cs)
    note adv = lx_after_advance [OF Cons]
    consider (other) "c \<noteq> 39" | (quote) "c = 39" "peek_is (\<lambda>d. d = 39) (lx_advance lx) 0"
      | (close) "c = 39" "\<not> peek_is (\<lambda>d. d = 39) (lx_advance lx) 0" by blast
    then show ?thesis
    proof cases
      case other
      then have "c \<noteq> 0" "string_body (lx_advance lx) (decoded @ [c]) = Inr (d, lx')"
        using 1(3) Cons by (auto simp: string_body.simps [of lx] split: if_splits)
      then show ?thesis using 1(1) [OF Cons] other lx_after_trans [OF adv] by blast
    next
      case quote
      then obtain cs' where cs': "lx_rest (lx_advance lx) = 39 # cs'" unfolding peek_is_0 by blast
      have "string_body (lx_advance (lx_advance lx)) (decoded @ [39]) = Inr (d, lx')"
        using quote 1(3) Cons by (simp add: string_body.simps [of lx])
      then show ?thesis
        using 1(2) [OF Cons] quote lx_after_trans [OF lx_after_trans [OF adv lx_after_advance [OF cs']]] by auto
    next
      case close
      then have "lx' = lx_advance lx" using 1(3) Cons by (simp add: string_body.simps [of lx])
      then show ?thesis using adv by blast
    qed
  qed
qed

lemma lex_string_ok:
  assumes "lx_rest lx = c # cs" and "lex_string lx = Inr r"
  shows "token_ok lx r"
proof -
  obtain d lx' where b: "string_body (lx_advance lx) [] = Inr (d, lx')"
    and r: "r = (\<lparr>tok_kind = TkSTRING, tok_lexeme = lexeme_between lx lx', tok_value = ScStr d,
      tok_line = lx_line lx, tok_column = lx_column lx\<rparr>, lx')"
    using assms(2) by (auto simp: lex_string_def res_bind_eq_Inr_iff)
  obtain s where "lx_after ([c] @ s) lx lx'"
    using string_body_after [OF b] lx_after_trans [OF lx_after_advance [OF assms(1)]] by blast
  then show ?thesis using lx_after_lexeme by (fastforce simp: r token_ok_def)
qed

lemma lex_symbol_ok:
  assumes c: "lx_rest lx = c # cs" and f: "lex_symbol lx = Inr r"
  shows "token_ok lx r"
proof -
  have one: "lx_after [c] lx (lx_advance lx)" by (rule lx_after_advance [OF c])
  have two: "lx_after ([c] @ [d]) lx (lx_advance (lx_advance lx))" if pk: "peek_is (\<lambda>x. x = d) (lx_advance lx) 0" for d
  proof -
    obtain cs' where "lx_rest (lx_advance lx) = d # cs'" using pk unfolding peek_is_0 by blast
    then show ?thesis by (rule lx_after_trans [OF one lx_after_advance])
  qed
  show ?thesis
    using f one two lx_after_lexeme [OF one] lx_after_lexeme [OF two]
    by (auto simp: lex_symbol_def Let_def token_ok_def c split: option.splits if_splits)
qed

lemma lex_token_ok:
  assumes "lx_rest lx = c # cs" and "lex_token u lx = Inr r"
  shows "token_ok lx r"
  using assms lex_identifier_ok lex_number_ok lex_string_ok lex_symbol_ok
  by (auto simp: lex_token_def Let_def split: if_splits)

lemma lex_token_shorter:
  "lx_rest lx \<noteq> [] \<Longrightarrow> lex_token u lx = Inr (t, lx') \<Longrightarrow> length (lx_rest lx') < length (lx_rest lx)"
  using lx_after_length [of "tok_lexeme t" lx lx'] lex_token_ok [of lx "hd (lx_rest lx)" "tl (lx_rest lx)" u "(t, lx')"]
  by (auto simp: token_ok_def)

section \<open>Scanning a text\<close>

function scan_tokens :: "unicode \<Rightarrow> lexer \<Rightarrow> token list \<Rightarrow> token list result" where
  "scan_tokens u lx tokens =
     (if lx_rest lx = [] then
        Inr (tokens @ [\<lparr>tok_kind = TkEOF, tok_lexeme = [], tok_value = ScNone,
                        tok_line = lx_line lx, tok_column = lx_column lx\<rparr>])
      else if hd (lx_rest lx) = 0 then Inl SqlSyntaxError
      else if is_space u (hd (lx_rest lx)) then scan_tokens u (lx_advance lx) tokens
      else
        case lex_token u lx of
          Inl e \<Rightarrow> Inl e
        | Inr (t, lx') \<Rightarrow> scan_tokens u lx' (tokens @ [t]))"
  by auto
termination
  by (relation "measure (\<lambda>(u, lx, tokens). length (lx_rest lx))") (auto simp: lex_token_shorter)

declare scan_tokens.simps [simp del]

definition lex :: "unicode \<Rightarrow> pystr \<Rightarrow> token list result" where
  "lex u source = scan_tokens u \<lparr>lx_rest = source, lx_line = 1, lx_column = 1\<rparr> []"

text \<open>
  The tokens cover the text from a position on: white space, then the lexeme, at the position
  the token records, and so on to the end-of-input token.
\<close>

fun covers :: "unicode \<Rightarrow> nat \<times> nat \<Rightarrow> pystr \<Rightarrow> token list \<Rightarrow> bool" where
  "covers u p rest [] \<longleftrightarrow> False"
| "covers u p rest [t] \<longleftrightarrow>
     tok_kind t = TkEOF \<and> tok_lexeme t = [] \<and> (\<forall>c \<in> set rest. is_space u c)
     \<and> (tok_line t, tok_column t) = pos_from p rest"
| "covers u p rest (t # ts) \<longleftrightarrow>
     (\<exists>gap more. rest = gap @ tok_lexeme t @ more \<and> (\<forall>c \<in> set gap. is_space u c) \<and> tok_lexeme t \<noteq> []
        \<and> (tok_line t, tok_column t) = pos_from p gap
        \<and> covers u (pos_from p (gap @ tok_lexeme t)) more ts)"

lemma covers_Cons: "ts \<noteq> [] \<Longrightarrow> covers u p rest (t # ts) \<longleftrightarrow>
     (\<exists>gap more. rest = gap @ tok_lexeme t @ more \<and> (\<forall>c \<in> set gap. is_space u c) \<and> tok_lexeme t \<noteq> []
        \<and> (tok_line t, tok_column t) = pos_from p gap
        \<and> covers u (pos_from p (gap @ tok_lexeme t)) more ts)"
  by (cases ts) auto

lemma covers_space:
  assumes "covers u (pos_from p [c]) rest ts" and "is_space u c"
  shows "covers u p (c # rest) ts"
proof (cases ts)
  case Nil
  then show ?thesis using assms by simp
next
  case (Cons t ts')
  have p: "pos_from (pos_from p [c]) s = pos_from p (c # s)" for s
    using pos_from_append [of p "[c]" s] by simp
  show ?thesis
  proof (cases "ts' = []")
    case True
    then show ?thesis using assms Cons p [of rest] by simp
  next
    case False
    then obtain gap more where g: "rest = gap @ tok_lexeme t @ more" "\<forall>c \<in> set gap. is_space u c" "tok_lexeme t \<noteq> []"
      "(tok_line t, tok_column t) = pos_from (pos_from p [c]) gap"
      "covers u (pos_from (pos_from p [c]) (gap @ tok_lexeme t)) more ts'"
      using assms(1) Cons covers_Cons [OF False] by blast
    have "covers u p (c # rest) (t # ts')"
      unfolding covers_Cons [OF False]
      using g assms(2) p [of gap] p [of "gap @ tok_lexeme t"]
      by (intro exI [of _ "c # gap"] exI [of _ more]) simp
    then show ?thesis by (simp add: Cons)
  qed
qed

lemma scan_tokens_covers:
  "scan_tokens u lx acc = Inr ts \<Longrightarrow> \<exists>new. ts = acc @ new \<and> covers u (lx_line lx, lx_column lx) (lx_rest lx) new"
proof (induction u lx acc rule: scan_tokens.induct)
  case (1 u lx acc)
  show ?case
  proof (cases "lx_rest lx")
    case Nil
    then show ?thesis using 1(3) by (auto simp: scan_tokens.simps [of u lx acc])
  next
    case (Cons c cs)
    then have nz: "c \<noteq> 0" using 1(3) by (auto simp: scan_tokens.simps [of u lx acc] split: if_splits)
    show ?thesis
    proof (cases "is_space u c")
      case True
      have "scan_tokens u (lx_advance lx) acc = Inr ts"
        using 1(3) Cons nz True by (simp add: scan_tokens.simps [of u lx acc])
      then obtain new where "ts = acc @ new" "covers u (lx_line (lx_advance lx), lx_column (lx_advance lx)) cs new"
        using 1(1) Cons nz True by auto
      moreover have "(lx_line (lx_advance lx), lx_column (lx_advance lx)) = pos_from (lx_line lx, lx_column lx) [c]"
        using lx_after_advance [OF Cons] by (simp add: lx_after_def)
      ultimately show ?thesis using covers_space [of u _ c cs new] True Cons by auto
    next
      case False
      obtain t lx' where t: "lex_token u lx = Inr (t, lx')" and rest: "scan_tokens u lx' (acc @ [t]) = Inr ts"
        using 1(3) Cons nz False by (auto simp: scan_tokens.simps [of u lx acc] split: sum.splits)
      obtain new where new: "ts = acc @ t # new" "covers u (lx_line lx', lx_column lx') (lx_rest lx') new"
        using 1(2) [OF _ _ _ t refl rest] Cons nz False by auto
      have "new \<noteq> []" using new(2) by auto
      moreover have "token_ok lx (t, lx')" using lex_token_ok [OF Cons t] .
      ultimately have "covers u (lx_line lx, lx_column lx) (lx_rest lx) (t # new)"
        using new(2) unfolding covers_Cons [OF \<open>new \<noteq> []\<close>]
        by (intro exI [of _ "[]"] exI [of _ "lx_rest lx'"]) (auto simp: token_ok_def lx_after_def)
      then show ?thesis using new(1) by blast
    qed
  qed
qed

section \<open>Literals\<close>

text \<open>A text as an SQL string literal: quotes doubled, in quotes.\<close>

definition escape_quotes :: "pystr \<Rightarrow> pystr" where
  "escape_quotes s = concat (map (\<lambda>c. if c = 39 then [39, 39] else [c]) s)"

definition sql_quote :: "pystr \<Rightarrow> pystr" where
  "sql_quote s = 39 # escape_quotes s @ [39]"

lemma escape_quotes_Cons:
  "escape_quotes (c # s) = (if c = 39 then [39, 39] else [c]) @ escape_quotes s"
  by (simp add: escape_quotes_def)

lemma string_body_escaped:
  "lx_rest lx = escape_quotes s @ 39 # rest \<Longrightarrow> 0 \<notin> set s \<Longrightarrow> (\<And>cs. rest \<noteq> 39 # cs) \<Longrightarrow>
   \<exists>lx'. string_body lx acc = Inr (acc @ s, lx') \<and> lx_rest lx' = rest"
proof (induction s arbitrary: lx acc)
  case Nil
  have "\<not> peek_is (\<lambda>d. d = 39) (lx_advance lx) 0" using Nil by (auto simp: peek_is_0 escape_quotes_def)
  then show ?case using Nil by (simp add: string_body.simps [of lx] escape_quotes_def)
next
  case (Cons c s)
  show ?case
  proof (cases "c = 39")
    case True
    then have r: "lx_rest lx = 39 # 39 # escape_quotes s @ 39 # rest" using Cons.prems(1) by (simp add: escape_quotes_Cons)
    then have "peek_is (\<lambda>d. d = 39) (lx_advance lx) 0" by (simp add: peek_is_0)
    then have "string_body lx acc = string_body (lx_advance (lx_advance lx)) (acc @ [39])"
      using r by (simp add: string_body.simps [of lx])
    then show ?thesis
      using Cons.IH [of "lx_advance (lx_advance lx)" "acc @ [39]"] Cons.prems(2,3) r True by simp
  next
    case False
    then have r: "lx_rest lx = c # escape_quotes s @ 39 # rest" using Cons.prems(1) by (simp add: escape_quotes_Cons)
    then have "string_body lx acc = string_body (lx_advance lx) (acc @ [c])"
      using False Cons.prems(2) by (auto simp: string_body.simps [of lx])
    then show ?thesis
      using Cons.IH [of "lx_advance lx" "acc @ [c]"] Cons.prems(2,3) r by simp
  qed
qed

lemma scan_end: "lx_rest lx = [] \<Longrightarrow> scan_tokens u lx acc = Inr (acc @ [\<lparr>tok_kind = TkEOF, tok_lexeme = [],
    tok_value = ScNone, tok_line = lx_line lx, tok_column = lx_column lx\<rparr>])"
  by (simp add: scan_tokens.simps)

lemma scan_token: "lx_rest lx = c # cs \<Longrightarrow> c \<noteq> 0 \<Longrightarrow> \<not> is_space u c \<Longrightarrow>
    scan_tokens u lx acc = (case lex_token u lx of Inl e \<Rightarrow> Inl e | Inr (t, lx') \<Rightarrow> scan_tokens u lx' (acc @ [t]))"
  by (simp add: scan_tokens.simps [of u lx acc])

lemma lex_one_token:
  assumes "src = c # cs" and "c \<noteq> 0" and "\<not> is_space u c"
    and "lex_token u \<lparr>lx_rest = src, lx_line = 1, lx_column = 1\<rparr> = Inr (t, lx')" and "lx_rest lx' = []"
  shows "\<exists>toks. lex u src = Inr toks \<and> map (\<lambda>t. (tok_kind t, tok_value t)) toks
    = [(tok_kind t, tok_value t), (TkEOF, ScNone)]"
  using assms scan_token [of "\<lparr>lx_rest = src, lx_line = 1, lx_column = 1\<rparr>" c cs u] scan_end [of lx']
  by (simp add: lex_def)

lemma digits_value_ascii:
  "(\<forall>c \<in> set s. 48 \<le> c \<and> c \<le> 57) \<Longrightarrow> digits_value u s acc = Some (foldl (\<lambda>a c. a * 10 + (c - 48)) acc s)"
  by (induction s arbitrary: acc) (auto simp: decimal_digit_def)

section \<open>Properties\<close>

text \<open>
  Claim C38. Lexing loses nothing: the text is the lexemes of the tokens in order, separated by white
  space only, every token but the last has a lexeme, and each token's line and column are the
  position of its first character; the last token is the end of input.
\<close>

theorem lex_covers_source:
  assumes "lex u source = Inr tokens"
  shows "covers u (1, 1) source tokens"
  using scan_tokens_covers [OF assms [unfolded lex_def]] by simp

definition ascii_only :: unicode where
  "ascii_only = \<lparr>uc_alpha = (\<lambda>_. False), uc_numeric = (\<lambda>_. False), uc_digit = (\<lambda>_. False),
     uc_space = (\<lambda>_. False), uc_decimal = (\<lambda>_. None), uc_upper = (\<lambda>c. [c])\<rparr>"

text \<open>
  A string literal denotes the string it was made from: any text without NUL, quoted with its
  quotes doubled, lexes to one string token with that text as its value.
\<close>

lemma lex_string_literal:
  assumes "0 \<notin> set s"
  shows "\<exists>toks. lex u (sql_quote s) = Inr toks
    \<and> map (\<lambda>t. (tok_kind t, tok_value t)) toks = [(TkSTRING, ScStr s), (TkEOF, ScNone)]"
proof -
  define lx where "lx = \<lparr>lx_rest = sql_quote s, lx_line = 1, lx_column = 1\<rparr>"
  obtain lx' where b: "string_body (lx_advance lx) [] = Inr (s, lx')" and r: "lx_rest lx' = []"
    using string_body_escaped [of "lx_advance lx" s "[]" "[]"] assms by (auto simp: lx_def sql_quote_def)
  have "lex_token u lx = lex_string lx"
    by (simp add: lex_token_def Let_def lx_def sql_quote_def is_alpha_def is_digit_def)
  then have "lex_token u lx = Inr (\<lparr>tok_kind = TkSTRING, tok_lexeme = lexeme_between lx lx', tok_value = ScStr s,
      tok_line = lx_line lx, tok_column = lx_column lx\<rparr>, lx')"
    using b by (simp add: lex_string_def)
  then show ?thesis
    using lex_one_token [of "sql_quote s" 39 "escape_quotes s @ [39]" u _ lx'] r
    by (simp add: lx_def sql_quote_def is_space_def)
qed

text \<open>
  A run of decimal digits lexes to one integer token with its value when it has at most 4300
  digits; a longer one makes the lexer raise \<open>ValueError\<close>, not a syntax error.
\<close>

lemma lex_integer_literal:
  assumes "ds \<noteq> []" and "\<forall>c \<in> set ds. 48 \<le> c \<and> c \<le> 57"
  shows "if length ds \<le> 4300
    then \<exists>toks. lex u ds = Inr toks \<and> map (\<lambda>t. (tok_kind t, tok_value t)) toks
      = [(TkINTEGER, ScInt (int (foldl (\<lambda>a c. a * 10 + (c - 48)) 0 ds))), (TkEOF, ScNone)]
    else lex u ds = Inl PyValueError"
proof -
  define lx where "lx = \<lparr>lx_rest = ds, lx_line = 1, lx_column = 1\<rparr>"
  define lx1 where "lx1 = skip_while (is_digit u) lx"
  obtain c cs where ds: "ds = c # cs" "48 \<le> c" "c \<le> 57" using assms by (cases ds) auto
  have dig: "\<forall>c \<in> set ds. is_digit u c" using assms(2) by (auto simp: is_digit_def)
  have r: "lx_rest lx1 = []" "lexeme_between lx lx1 = ds"
    using dig by (simp_all add: lx1_def skip_while_rest lexeme_skip_while lx_def)
  have "lex_token u lx = lex_number u lx"
    using ds by (simp add: lex_token_def Let_def lx_def is_alpha_def is_digit_def)
  moreover have "lex_number u lx = res_bind (py_int u ds) (\<lambda>i. Inr (\<lparr>tok_kind = TkINTEGER, tok_lexeme = ds, tok_value = ScInt i,
      tok_line = 1, tok_column = 1\<rparr>, lx1))"
    using r by (simp add: lex_number_def Let_def lx1_def [symmetric] peek_is_0) (simp add: lx_def)
  moreover have "py_int u ds = (if length ds \<le> 4300 then Inr (int (foldl (\<lambda>a c. a * 10 + (c - 48)) 0 ds)) else Inl PyValueError)"
    using digits_value_ascii [OF assms(2)] by (simp add: py_int_def INT_MAX_STR_DIGITS_def)
  ultimately have t: "lex_token u lx = (if length ds \<le> 4300
      then Inr (\<lparr>tok_kind = TkINTEGER, tok_lexeme = ds, tok_value = ScInt (int (foldl (\<lambda>a c. a * 10 + (c - 48)) 0 ds)),
        tok_line = 1, tok_column = 1\<rparr>, lx1) else Inl PyValueError)" by simp
  have "c \<noteq> 0" "\<not> is_space u c" using ds by (auto simp: is_space_def)
  then show ?thesis
    using t lex_one_token [OF ds(1), of u _ lx1] r scan_token [of lx c cs u] ds(1)
    by (auto simp: lex_def lx_def)
qed

text \<open>The lexer raises nothing but syntax errors and the \<open>ValueError\<close> of a number conversion.\<close>

lemma string_body_Inl: "string_body lx acc = Inl e \<Longrightarrow> e = SqlSyntaxError"
proof (induction lx acc rule: string_body.induct)
  case (1 lx decoded)
  show ?case
    using 1(3)
    by (subst (asm) string_body.simps) (auto split: list.splits if_splits dest: 1(1,2))
qed

lemma lex_token_Inl: "lex_token u lx = Inl e \<Longrightarrow> e = SqlSyntaxError \<or> e = PyValueError"
  by (auto simp: lex_token_def lex_identifier_def lex_number_def lex_string_def lex_symbol_def Let_def
      res_bind_eq_Inl_iff py_float_literal_def py_int_def
      split: if_splits option.splits dest: string_body_Inl)

lemma scan_tokens_Inl: "scan_tokens u lx acc = Inl e \<Longrightarrow> e = SqlSyntaxError \<or> e = PyValueError"
proof (induction u lx acc rule: scan_tokens.induct)
  case (1 u lx acc)
  show ?case
    using 1(3)
    by (subst (asm) scan_tokens.simps) (auto split: if_splits sum.splits prod.splits dest: 1(1,2) lex_token_Inl)
qed

text \<open>The values the parser relies on.\<close>

definition token_wf :: "token \<Rightarrow> bool" where
  "token_wf t \<longleftrightarrow>
     (tok_kind t = TkIDENT \<longrightarrow> (\<exists>s. tok_value t = ScStr s)) \<and> (tok_kind t = TkINTEGER \<longrightarrow> (\<exists>i. tok_value t = ScInt i))"

lemma keywords_not_literals: "map_of KEYWORDS s = Some k \<Longrightarrow> k \<noteq> TkIDENT \<and> k \<noteq> TkINTEGER"
proof -
  assume "map_of KEYWORDS s = Some k"
  then have "k \<in> snd ` set KEYWORDS" by (force dest: map_of_SomeD)
  then show ?thesis by (auto simp: KEYWORDS_def)
qed

lemma symbols_not_literals: "map_of single_symbols c = Some k \<Longrightarrow> k \<noteq> TkIDENT \<and> k \<noteq> TkINTEGER"
proof -
  assume "map_of single_symbols c = Some k"
  then have "k \<in> snd ` set single_symbols" by (force dest: map_of_SomeD)
  then show ?thesis by (auto simp: single_symbols_def)
qed

lemma lex_token_wf: "lex_token u lx = Inr (t, lx') \<Longrightarrow> token_wf t"
  by (auto simp: lex_token_def lex_identifier_def lex_number_def lex_string_def lex_symbol_def Let_def
      res_bind_eq_Inr_iff token_wf_def
      split: if_splits option.splits dest: keywords_not_literals symbols_not_literals)

lemma scan_tokens_wf:
  "scan_tokens u lx acc = Inr ts \<Longrightarrow> \<forall>t \<in> set acc. token_wf t \<Longrightarrow>
   ts \<noteq> [] \<and> (\<forall>t \<in> set ts. token_wf t) \<and> tok_kind (last ts) = TkEOF"
proof (induction u lx acc rule: scan_tokens.induct)
  case (1 u lx acc)
  consider (fin) "lx_rest lx = []" | (space) "lx_rest lx \<noteq> []" "hd (lx_rest lx) \<noteq> 0" "is_space u (hd (lx_rest lx))"
    | (tok) t lx' where "lx_rest lx \<noteq> []" "hd (lx_rest lx) \<noteq> 0" "\<not> is_space u (hd (lx_rest lx))" "lex_token u lx = Inr (t, lx')"
    using 1(3) by (subst (asm) scan_tokens.simps) (auto split: if_splits sum.splits)
  then show ?case
  proof cases
    case fin
    then show ?thesis using 1(3,4) by (auto simp: scan_end token_wf_def)
  next
    case space
    then show ?thesis using 1(1) [OF space] 1(3,4) by (simp add: scan_tokens.simps [of u lx acc])
  next
    case tok
    have "\<forall>x \<in> set (acc @ [t]). token_wf x" using 1(4) lex_token_wf [OF tok(4)] by simp
    then show ?thesis using 1(2) [OF tok refl] 1(3) tok by (simp add: scan_tokens.simps [of u lx acc])
  qed
qed

theorem lex_covers_source_witness:
  "\<exists>toks. lex ascii_only [97, 32, 43, 10, 49] = Inr toks \<and> covers ascii_only (1, 1) [97, 32, 43, 10, 49] toks"
proof -
  have "\<exists>toks. lex ascii_only [97, 32, 43, 10, 49] = Inr toks"
    by (simp add: lex_def scan_tokens.simps lex_token_def lex_identifier_def lex_number_def lex_symbol_def Let_def
        skip_while.simps peek_is_def lx_peek_def lx_advance_def is_alpha_def is_alnum_def is_digit_def is_space_def
        single_symbols_def lexeme_between_def py_int_def decimal_digit_def INT_MAX_STR_DIGITS_def)
  then show ?thesis using lex_covers_source by blast
qed

end
