(* ===== verification/Sql_Parser.thy ===== *)
theory Sql_Parser
  imports Sql_Lexer
begin

text \<open>
  \<open>sql/ast.py\<close> and \<open>sql/parser.py\<close>: the syntax tree and the recursive-descent parser.
  The parser's state is the list of tokens from its index on; a method is a state-passing
  function. The recursion of expressions through parentheses and calls is bounded by an
  explicit depth and every \<open>while\<close> loop by the number of remaining tokens; running out of
  either is reported as \<open>RecursionError\<close>, and the bounds chosen are shown to be enough. The
  interpreter's own limit on the call stack is outside the model.
\<close>

section \<open>Syntax trees\<close>

datatype expr =
    Literal scalar
  | ColumnRef pystr "pystr option"
  | Star "pystr option"
  | UnaryExpr string expr
  | BinaryExpr expr string expr
  | IsNullExpr expr bool
  | FunctionCall pystr "expr list"

record column_definition =
  cd_name :: pystr
  cd_type_name :: string
  cd_nullable :: bool
  cd_primary_key :: bool
  cd_unique :: bool

datatype table_ref = TableRef (tr_name: pystr) (tr_alias: "pystr option")

datatype join_clause = JoinClause (jc_table: table_ref) (jc_condition: expr)

datatype select_item = SelectItem (si_expression: expr) (si_alias: "pystr option")

datatype order_item = OrderItem (oi_expression: expr) (oi_direction: string) (oi_nulls: "string option")

datatype assignment = Assignment (as_column: pystr) (as_expression: expr)

record select_stmt =
  ss_items :: "select_item list"
  ss_from :: "table_ref option"
  ss_joins :: "join_clause list"
  ss_where :: "expr option"
  ss_group_by :: "expr list"
  ss_order_by :: "order_item list"
  ss_limit :: "int option"

datatype statement =
    CreateTableStmt pystr "column_definition list"
  | CreateIndexStmt pystr pystr "pystr list" bool
  | InsertStmt pystr "pystr list option" "expr list list"
  | UpdateStmt pystr "assignment list" "expr option"
  | DeleteStmt pystr "expr option"
  | SelectStmt select_stmt
  | ExplainStmt statement bool
  | AnalyzeStmt "pystr option"
  | VacuumStmt "pystr option"
  | BeginStmt
  | CommitStmt
  | RollbackStmt

section \<open>Token stream\<close>

type_synonym 'a parser = "(token list, 'a) sm"

definition current_kind :: "token list \<Rightarrow> token_kind" where
  "current_kind ts = (case ts of [] \<Rightarrow> TkEOF | t # _ \<Rightarrow> tok_kind t)"

definition p_at :: "token_kind list \<Rightarrow> bool parser" where
  "p_at kinds = sm_get (\<lambda>ts. current_kind ts \<in> set kinds)"

definition p_advance :: "token parser" where
  "p_advance ts =
     (case ts of
        [] \<Rightarrow> (Inl PyIndexError, ts)
      | t # rest \<Rightarrow> (Inr t, if tok_kind t \<noteq> TkEOF then rest else ts))"

definition p_match :: "token_kind list \<Rightarrow> token option parser" where
  "p_match kinds =
     sm_bind (p_at kinds) (\<lambda>here.
     if here then sm_bind p_advance (\<lambda>t. sm_return (Some t)) else sm_return None)"

definition p_expect :: "token_kind \<Rightarrow> token parser" where
  "p_expect kind =
     sm_bind (p_match [kind]) (\<lambda>m. case m of None \<Rightarrow> sm_raise SqlSyntaxError | Some t \<Rightarrow> sm_return t)"

definition p_identifier :: "pystr parser" where
  "p_identifier =
     sm_bind (p_expect TkIDENT) (\<lambda>t. case tok_value t of ScStr s \<Rightarrow> sm_return s | _ \<Rightarrow> sm_raise PyAssertionError)"

text \<open>\<open>if self._match(kind): m else: m'\<close>\<close>

definition p_if :: "token_kind list \<Rightarrow> 'a parser \<Rightarrow> 'a parser \<Rightarrow> 'a parser" where
  "p_if kinds m m' = sm_bind (p_match kinds) (\<lambda>t. case t of None \<Rightarrow> m' | Some _ \<Rightarrow> m)"

text \<open>The loops \<open>values = [item()]; while self._match(COMMA): values.append(item())\<close>.\<close>

fun comma_rest :: "nat \<Rightarrow> 'a parser \<Rightarrow> 'a list \<Rightarrow> 'a list parser" where
  "comma_rest 0 item xs = sm_raise PyRecursionError"
| "comma_rest (Suc n) item xs =
     p_if [TkCOMMA] (sm_bind item (\<lambda>x. comma_rest n item (xs @ [x]))) (sm_return xs)"

definition comma_list :: "'a parser \<Rightarrow> 'a list parser" where
  "comma_list item = sm_bind item (\<lambda>x ts. comma_rest (Suc (length ts)) item [x] ts)"

section \<open>Expressions\<close>

text \<open>Continuing with the outcome of a call; \<open>sm_bind m f s\<close> is \<open>sm_cont (m s) f\<close>.\<close>

definition sm_cont :: "'a result \<times> 's \<Rightarrow> ('a \<Rightarrow> ('s, 'b) sm) \<Rightarrow> 'b result \<times> 's" where
  "sm_cont r f = (case r of (Inl e, s) \<Rightarrow> (Inl e, s) | (Inr x, s) \<Rightarrow> f x s)"

lemma sm_cont_bind: "sm_cont (m s) f = sm_bind m f s"
  by (simp add: sm_cont_def sm_bind_def)

definition pystr_string :: "pystr \<Rightarrow> string" where
  "pystr_string s = map char_of s"

definition COMPARISONS :: "(token_kind \<times> string) list" where
  "COMPARISONS = [(TkEQ, ''=''), (TkNEQ, ''!=''), (TkLT, ''<''), (TkLTE, ''<=''), (TkGT, ''>''), (TkGTE, ''>='')]"

text \<open>
  \<open>while self._match(kinds): expression = BinaryExpr(expression, op, sub())\<close>, the operator
  read from the matched token.
\<close>

fun binary_loop :: "nat \<Rightarrow> token_kind list \<Rightarrow> (token \<Rightarrow> string) \<Rightarrow> expr parser \<Rightarrow> expr \<Rightarrow> expr parser" where
  "binary_loop 0 kinds op sub e = sm_raise PyRecursionError"
| "binary_loop (Suc n) kinds op sub e =
     sm_bind (p_match kinds) (\<lambda>m.
     case m of
       None \<Rightarrow> sm_return e
     | Some t \<Rightarrow> sm_bind sub (\<lambda>r. binary_loop n kinds op sub (BinaryExpr e (op t) r)))"

definition binary_level :: "token_kind list \<Rightarrow> (token \<Rightarrow> string) \<Rightarrow> expr parser \<Rightarrow> expr parser" where
  "binary_level kinds op sub = sm_bind sub (\<lambda>e ts. binary_loop (Suc (length ts)) kinds op sub e ts)"

definition p_call :: "unicode \<Rightarrow> expr parser \<Rightarrow> pystr \<Rightarrow> expr parser" where
  "p_call u ex name =
     sm_bind (p_at [TkRPAREN]) (\<lambda>empty.
     sm_bind (if empty then sm_return [] else comma_list ex) (\<lambda>arguments.
     sm_bind (p_expect TkRPAREN) (\<lambda>_.
     sm_return (FunctionCall (str_upper u name) arguments))))"

definition p_name :: "unicode \<Rightarrow> expr parser \<Rightarrow> expr parser" where
  "p_name u ex =
     sm_bind p_identifier (\<lambda>name.
     p_if [TkLPAREN] (p_call u ex name)
     (p_if [TkDOT]
        (p_if [TkSTAR] (sm_return (Star (Some name)))
           (sm_bind p_identifier (\<lambda>column. sm_return (ColumnRef column (Some name)))))
        (sm_return (ColumnRef name None))))"

definition p_primary :: "unicode \<Rightarrow> expr parser \<Rightarrow> expr parser" where
  "p_primary u ex =
     sm_bind (p_match [TkINTEGER, TkFLOAT, TkSTRING]) (\<lambda>m.
     case m of
       Some t \<Rightarrow> sm_return (Literal (tok_value t))
     | None \<Rightarrow>
         p_if [TkNULL] (sm_return (Literal ScNone))
         (p_if [TkTRUE] (sm_return (Literal (ScBool True)))
         (p_if [TkFALSE] (sm_return (Literal (ScBool False)))
         (p_if [TkSTAR] (sm_return (Star None))
         (p_if [TkLPAREN]
            (sm_bind ex (\<lambda>e. sm_bind (p_expect TkRPAREN) (\<lambda>_. sm_return e)))
            (sm_bind (p_at [TkIDENT]) (\<lambda>here.
             if here then p_name u ex else sm_raise SqlSyntaxError)))))))"

fun p_unary :: "unicode \<Rightarrow> expr parser \<Rightarrow> expr parser" where
  "p_unary u ex [] = p_primary u ex []"
| "p_unary u ex (t # ts) =
     (if tok_kind t \<in> {TkPLUS, TkMINUS}
      then sm_cont (p_unary u ex ts) (\<lambda>e. sm_return (UnaryExpr (pystr_string (tok_lexeme t)) e))
      else p_primary u ex (t # ts))"

definition lexeme_op :: "token \<Rightarrow> string" where
  "lexeme_op t = pystr_string (tok_lexeme t)"

definition p_multiplicative :: "unicode \<Rightarrow> expr parser \<Rightarrow> expr parser" where
  "p_multiplicative u ex = binary_level [TkSTAR, TkSLASH] lexeme_op (p_unary u ex)"

definition p_additive :: "unicode \<Rightarrow> expr parser \<Rightarrow> expr parser" where
  "p_additive u ex = binary_level [TkPLUS, TkMINUS] lexeme_op (p_multiplicative u ex)"

definition p_comparison :: "unicode \<Rightarrow> expr parser \<Rightarrow> expr parser" where
  "p_comparison u ex =
     sm_bind (p_additive u ex) (\<lambda>e.
     p_if [TkIS]
       (sm_bind (p_match [TkNOT]) (\<lambda>m.
        sm_bind (p_expect TkNULL) (\<lambda>_.
        sm_return (IsNullExpr e (m \<noteq> None)))))
       (sm_bind (sm_get (\<lambda>ts. map_of COMPARISONS (current_kind ts))) (\<lambda>operator.
        case operator of
          None \<Rightarrow> sm_return e
        | Some op \<Rightarrow>
            sm_bind p_advance (\<lambda>_.
            sm_bind (p_additive u ex) (\<lambda>r.
            sm_bind (p_at (map fst COMPARISONS @ [TkIS])) (\<lambda>chained.
            if chained then sm_raise SqlSyntaxError else sm_return (BinaryExpr e op r)))))))"

fun p_not :: "unicode \<Rightarrow> expr parser \<Rightarrow> expr parser" where
  "p_not u ex [] = p_comparison u ex []"
| "p_not u ex (t # ts) =
     (if tok_kind t = TkNOT then sm_cont (p_not u ex ts) (\<lambda>e. sm_return (UnaryExpr ''NOT'' e))
      else p_comparison u ex (t # ts))"

definition p_and :: "unicode \<Rightarrow> expr parser \<Rightarrow> expr parser" where
  "p_and u ex = binary_level [TkAND] (\<lambda>_. ''AND'') (p_not u ex)"

definition p_or :: "unicode \<Rightarrow> expr parser \<Rightarrow> expr parser" where
  "p_or u ex = binary_level [TkOR] (\<lambda>_. ''OR'') (p_and u ex)"

text \<open>\<open>_expression\<close>, with the depth of nested parentheses and calls bounded.\<close>

fun p_expression :: "unicode \<Rightarrow> nat \<Rightarrow> expr parser" where
  "p_expression u 0 = sm_raise PyRecursionError"
| "p_expression u (Suc n) = p_or u (p_expression u n)"

section \<open>Statements\<close>

definition p_where :: "expr parser \<Rightarrow> expr option parser" where
  "p_where ex = p_if [TkWHERE] (sm_bind ex (\<lambda>e. sm_return (Some e))) (sm_return None)"

definition p_identifier_list :: "pystr list parser" where
  "p_identifier_list = comma_list p_identifier"

definition p_expression_list :: "expr parser \<Rightarrow> expr list parser" where
  "p_expression_list ex = comma_list ex"

definition TYPE_NAMES :: "(token_kind \<times> string) list" where
  "TYPE_NAMES = [(TkINT, ''INT64''), (TkINTEGER_TYPE, ''INT64''), (TkBIGINT, ''INT64''),
     (TkFLOAT_TYPE, ''FLOAT64''), (TkBOOLEAN, ''BOOLEAN''), (TkTEXT, ''TEXT'')]"

text \<open>The constraint loop; \<open>seen\<close> holds the constraint families met so far.\<close>

fun p_constraints :: "nat \<Rightarrow> string list \<Rightarrow> column_definition \<Rightarrow> column_definition parser" where
  "p_constraints 0 seen cd = sm_raise PyRecursionError"
| "p_constraints (Suc n) seen cd =
     p_if [TkNOT]
       (if ''nullability'' \<in> set seen then sm_raise SqlSyntaxError
        else sm_bind (p_expect TkNULL) (\<lambda>_.
             p_constraints n (''nullability'' # seen) (cd\<lparr>cd_nullable := False\<rparr>)))
     (p_if [TkPRIMARY]
       (if ''primary'' \<in> set seen then sm_raise SqlSyntaxError
        else sm_bind (p_expect TkKEY) (\<lambda>_.
             p_constraints n (''primary'' # seen)
               (cd\<lparr>cd_primary_key := True, cd_nullable := False, cd_unique := True\<rparr>)))
     (p_if [TkUNIQUE]
       (if ''unique'' \<in> set seen then sm_raise SqlSyntaxError
        else p_constraints n (''unique'' # seen) (cd\<lparr>cd_unique := True\<rparr>))
       (sm_return cd)))"

definition p_column_definition :: "column_definition parser" where
  "p_column_definition =
     sm_bind p_identifier (\<lambda>name.
     sm_bind (sm_get (\<lambda>ts. map_of TYPE_NAMES (current_kind ts))) (\<lambda>type_name.
     case type_name of
       None \<Rightarrow> sm_raise SqlSyntaxError
     | Some ty \<Rightarrow>
         sm_bind p_advance (\<lambda>_ ts.
         p_constraints (Suc (length ts)) []
           \<lparr>cd_name = name, cd_type_name = ty, cd_nullable = True, cd_primary_key = False, cd_unique = False\<rparr> ts)))"

definition p_create_table :: "statement parser" where
  "p_create_table =
     sm_bind p_identifier (\<lambda>name.
     sm_bind (p_expect TkLPAREN) (\<lambda>_.
     sm_bind (comma_list p_column_definition) (\<lambda>columns.
     sm_bind (p_expect TkRPAREN) (\<lambda>_.
     sm_return (CreateTableStmt name columns)))))"

definition p_create :: "statement parser" where
  "p_create =
     p_if [TkTABLE] p_create_table
       (sm_bind (p_match [TkUNIQUE]) (\<lambda>unique.
        sm_bind (p_expect TkINDEX) (\<lambda>_.
        sm_bind p_identifier (\<lambda>name.
        sm_bind (p_expect TkON) (\<lambda>_.
        sm_bind p_identifier (\<lambda>tab.
        sm_bind (p_expect TkLPAREN) (\<lambda>_.
        sm_bind p_identifier_list (\<lambda>columns.
        sm_bind (p_expect TkRPAREN) (\<lambda>_.
        sm_return (CreateIndexStmt name tab columns (unique \<noteq> None)))))))))))"

definition p_expression_row :: "expr parser \<Rightarrow> expr list parser" where
  "p_expression_row ex =
     sm_bind (p_expect TkLPAREN) (\<lambda>_.
     sm_bind (comma_list ex) (\<lambda>expressions.
     sm_bind (p_expect TkRPAREN) (\<lambda>_. sm_return expressions)))"

definition p_insert :: "expr parser \<Rightarrow> statement parser" where
  "p_insert ex =
     sm_bind (p_expect TkINTO) (\<lambda>_.
     sm_bind p_identifier (\<lambda>tab.
     sm_bind (p_if [TkLPAREN]
                (sm_bind p_identifier_list (\<lambda>columns.
                 sm_bind (p_expect TkRPAREN) (\<lambda>_. sm_return (Some columns))))
                (sm_return None)) (\<lambda>columns.
     sm_bind (p_expect TkVALUES) (\<lambda>_.
     sm_bind (comma_list (p_expression_row ex)) (\<lambda>rows.
     sm_return (InsertStmt tab columns rows))))))"

definition p_assignment :: "expr parser \<Rightarrow> assignment parser" where
  "p_assignment ex =
     sm_bind p_identifier (\<lambda>column.
     sm_bind (p_expect TkEQ) (\<lambda>_.
     sm_bind ex (\<lambda>e. sm_return (Assignment column e))))"

definition p_update :: "expr parser \<Rightarrow> statement parser" where
  "p_update ex =
     sm_bind p_identifier (\<lambda>tab.
     sm_bind (p_expect TkSET) (\<lambda>_.
     sm_bind (comma_list (p_assignment ex)) (\<lambda>assignments.
     sm_bind (p_where ex) (\<lambda>condition.
     sm_return (UpdateStmt tab assignments condition)))))"

definition p_delete :: "expr parser \<Rightarrow> statement parser" where
  "p_delete ex =
     sm_bind (p_expect TkFROM) (\<lambda>_.
     sm_bind p_identifier (\<lambda>tab.
     sm_bind (p_where ex) (\<lambda>condition.
     sm_return (DeleteStmt tab condition))))"

text \<open>\<open>if self._match(AS) or self._at(IDENT): alias = self._identifier()\<close>\<close>

definition p_alias :: "pystr option parser" where
  "p_alias =
     sm_bind (p_match [TkAS]) (\<lambda>m.
     sm_bind (p_at [TkIDENT]) (\<lambda>here.
     if m \<noteq> None \<or> here then sm_bind p_identifier (\<lambda>a. sm_return (Some a)) else sm_return None))"

definition p_select_item :: "expr parser \<Rightarrow> select_item parser" where
  "p_select_item ex = sm_bind ex (\<lambda>e. sm_bind p_alias (\<lambda>a. sm_return (SelectItem e a)))"

definition p_table_ref :: "table_ref parser" where
  "p_table_ref = sm_bind p_identifier (\<lambda>name. sm_bind p_alias (\<lambda>a. sm_return (TableRef name a)))"

definition p_order_item :: "expr parser \<Rightarrow> order_item parser" where
  "p_order_item ex =
     sm_bind ex (\<lambda>e.
     sm_bind (p_if [TkASC] (sm_return ''ASC'') (p_if [TkDESC] (sm_return ''DESC'') (sm_return ''ASC''))) (\<lambda>direction.
     sm_bind (p_if [TkNULLS]
                (p_if [TkFIRST] (sm_return (Some ''FIRST''))
                   (p_if [TkLAST] (sm_return (Some ''LAST'')) (sm_raise SqlSyntaxError)))
                (sm_return None)) (\<lambda>nulls.
     sm_return (OrderItem e direction nulls))))"

fun p_joins :: "nat \<Rightarrow> expr parser \<Rightarrow> join_clause list \<Rightarrow> join_clause list parser" where
  "p_joins 0 ex joins = sm_raise PyRecursionError"
| "p_joins (Suc n) ex joins =
     sm_bind (p_at [TkINNER, TkJOIN]) (\<lambda>more.
     if more then
       sm_bind (p_match [TkINNER]) (\<lambda>_.
       sm_bind (p_expect TkJOIN) (\<lambda>_.
       sm_bind p_table_ref (\<lambda>tab.
       sm_bind (p_expect TkON) (\<lambda>_.
       sm_bind ex (\<lambda>condition.
       p_joins n ex (joins @ [JoinClause tab condition]))))))
     else sm_return joins)"

definition p_from :: "expr parser \<Rightarrow> (table_ref option \<times> join_clause list) parser" where
  "p_from ex =
     p_if [TkFROM]
       (sm_bind p_table_ref (\<lambda>tab.
        sm_bind (\<lambda>ts. p_joins (Suc (length ts)) ex [] ts) (\<lambda>joins.
        sm_return (Some tab, joins))))
       (sm_return (None, []))"

definition p_limit :: "int option parser" where
  "p_limit =
     p_if [TkLIMIT]
       (sm_bind (p_expect TkINTEGER) (\<lambda>t.
        case tok_value t of ScInt i \<Rightarrow> sm_return (Some i) | _ \<Rightarrow> sm_raise PyAssertionError))
       (sm_return None)"

definition p_select :: "expr parser \<Rightarrow> statement parser" where
  "p_select ex =
     sm_bind (comma_list (p_select_item ex)) (\<lambda>items.
     sm_bind (p_from ex) (\<lambda>(from_table, joins).
     sm_bind (p_where ex) (\<lambda>condition.
     sm_bind (p_if [TkGROUP] (sm_bind (p_expect TkBY) (\<lambda>_. p_expression_list ex)) (sm_return [])) (\<lambda>group_by.
     sm_bind (p_if [TkORDER] (sm_bind (p_expect TkBY) (\<lambda>_. comma_list (p_order_item ex))) (sm_return [])) (\<lambda>order_by.
     sm_bind p_limit (\<lambda>limit.
     sm_return (SelectStmt \<lparr>ss_items = items, ss_from = from_table, ss_joins = joins, ss_where = condition,
       ss_group_by = group_by, ss_order_by = order_by, ss_limit = limit\<rparr>)))))))"

text \<open>\<open>None if self._at_statement_end else self._identifier("table name")\<close>\<close>

definition p_optional_table :: "pystr option parser" where
  "p_optional_table =
     sm_bind (p_at [TkSEMICOLON, TkEOF]) (\<lambda>at_statement_end.
     if at_statement_end then sm_return None else sm_bind p_identifier (\<lambda>t. sm_return (Some t)))"

fun p_statement :: "expr parser \<Rightarrow> statement parser" where
  "p_statement ex [] = (Inl SqlSyntaxError, [])"
| "p_statement ex (t # ts) =
     (if tok_kind t = TkCREATE then p_create ts
      else if tok_kind t = TkINSERT then p_insert ex ts
      else if tok_kind t = TkSELECT then p_select ex ts
      else if tok_kind t = TkUPDATE then p_update ex ts
      else if tok_kind t = TkDELETE then p_delete ex ts
      else if tok_kind t = TkEXPLAIN then
        (let analyze = (current_kind ts = TkANALYZE)
         in sm_cont (p_statement ex (if analyze then tl ts else ts)) (\<lambda>s. sm_return (ExplainStmt s analyze)))
      else if tok_kind t = TkANALYZE then sm_bind p_optional_table (\<lambda>n. sm_return (AnalyzeStmt n)) ts
      else if tok_kind t = TkVACUUM then sm_bind p_optional_table (\<lambda>n. sm_return (VacuumStmt n)) ts
      else if tok_kind t = TkBEGIN then (Inr BeginStmt, ts)
      else if tok_kind t = TkCOMMIT then (Inr CommitStmt, ts)
      else if tok_kind t = TkROLLBACK then (Inr RollbackStmt, ts)
      else (Inl SqlSyntaxError, t # ts))"

definition parse_tokens :: "expr parser \<Rightarrow> statement parser" where
  "parse_tokens ex =
     sm_bind (p_at [TkEOF]) (\<lambda>empty.
     if empty then sm_raise SqlSyntaxError
     else
       sm_bind (p_statement ex) (\<lambda>s.
       sm_bind (p_match [TkSEMICOLON]) (\<lambda>_.
       sm_bind (p_at [TkEOF]) (\<lambda>at_end.
       if at_end then sm_return s else sm_raise SqlSyntaxError))))"

definition parse :: "unicode \<Rightarrow> pystr \<Rightarrow> statement result" where
  "parse u source =
     res_bind (lex u source) (\<lambda>tokens. fst (parse_tokens (p_expression u (Suc (length tokens))) tokens))"

section \<open>The bounds are enough\<close>

text \<open>
  A token stream as the lexer makes it, and parsers that on such a stream of at most \<open>k\<close>
  tokens either return a stream that is no longer, or raise a syntax error.
\<close>

definition stream_ok :: "token list \<Rightarrow> bool" where
  "stream_ok ts \<longleftrightarrow> ts \<noteq> [] \<and> (\<forall>t \<in> set ts. token_wf t) \<and> tok_kind (last ts) = TkEOF"

definition outcome_ok :: "nat \<Rightarrow> 'a result \<times> token list \<Rightarrow> bool" where
  "outcome_ok n r \<longleftrightarrow>
     (case r of (Inr _, ts) \<Rightarrow> stream_ok ts \<and> length ts \<le> n | (Inl e, _) \<Rightarrow> e = SqlSyntaxError)"

definition parses :: "nat \<Rightarrow> 'a parser \<Rightarrow> bool" where
  "parses k m \<longleftrightarrow> (\<forall>ts. stream_ok ts \<longrightarrow> length ts \<le> k \<longrightarrow> outcome_ok (length ts) (m ts))"

lemma parsesI: "(\<And>ts. stream_ok ts \<Longrightarrow> length ts \<le> k \<Longrightarrow> outcome_ok (length ts) (m ts)) \<Longrightarrow> parses k m"
  by (simp add: parses_def)

lemma parsesD: "parses k m \<Longrightarrow> stream_ok ts \<Longrightarrow> length ts \<le> k \<Longrightarrow> outcome_ok (length ts) (m ts)"
  by (simp add: parses_def)

lemma parses_mono: "parses k m \<Longrightarrow> j \<le> k \<Longrightarrow> parses j m"
  by (simp add: parses_def)

lemma outcome_ok_cont:
  assumes "outcome_ok n r" and "\<And>x ts. r = (Inr x, ts) \<Longrightarrow> stream_ok ts \<Longrightarrow> length ts \<le> n \<Longrightarrow> outcome_ok n' (f x ts)"
  shows "outcome_ok n' (sm_cont r f)"
  using assms by (cases r; cases "fst r") (auto simp: sm_cont_def outcome_ok_def)

lemma outcome_ok_mono: "outcome_ok n r \<Longrightarrow> n \<le> n' \<Longrightarrow> outcome_ok n' r"
  by (auto simp: outcome_ok_def split: prod.splits sum.splits)

lemma parses_bind:
  assumes "parses k m" and "\<And>x. parses k (f x)"
  shows "parses k (sm_bind m f)"
proof (rule parsesI)
  fix ts assume t: "stream_ok ts" "length ts \<le> k"
  show "outcome_ok (length ts) (sm_bind m f ts)"
    unfolding sm_cont_bind [symmetric]
    by (rule outcome_ok_cont [OF parsesD [OF assms(1) t]])
      (rule outcome_ok_mono [OF parsesD [OF assms(2)]], use t in auto)
qed

lemma parses_return: "parses k (sm_return x)"
  by (rule parsesI) (simp add: outcome_ok_def)

lemma parses_raise: "parses k (sm_raise SqlSyntaxError)"
  by (rule parsesI) (simp add: outcome_ok_def)

lemma parses_get: "parses k (sm_get f)"
  by (rule parsesI) (simp add: outcome_ok_def)

lemma parses_at: "parses k (p_at kinds)"
  by (simp add: p_at_def parses_get)

lemma stream_ok_tl: "stream_ok (t # ts) \<Longrightarrow> tok_kind t \<noteq> TkEOF \<Longrightarrow> stream_ok ts"
  by (auto simp: stream_ok_def split: if_splits)

lemma parses_advance: "parses k p_advance"
  by (rule parsesI)
    (auto simp: outcome_ok_def p_advance_def dest: stream_ok_tl split: list.splits, simp add: stream_ok_def)

text \<open>Matching a kind other than the end of input consumes a token.\<close>

lemma p_match_run:
  assumes "stream_ok ts" and "TkEOF \<notin> set kinds"
  obtains (none) "p_match kinds ts = (Inr None, ts)" and "current_kind ts \<notin> set kinds"
    | (some) t rest where "ts = t # rest" and "tok_kind t \<in> set kinds" and "p_match kinds ts = (Inr (Some t), rest)" and "stream_ok rest"
proof (cases ts)
  case Nil
  then show thesis using assms by (simp add: stream_ok_def)
next
  case (Cons t rest)
  show thesis
  proof (cases "tok_kind t \<in> set kinds")
    case True
    then have "tok_kind t \<noteq> TkEOF" using assms(2) by metis
    then show thesis
      using some Cons True assms(1) stream_ok_tl
      by (simp add: p_match_def sm_bind_def p_at_def current_kind_def p_advance_def)
  next
    case False
    then show thesis using none Cons by (simp add: p_match_def sm_bind_def p_at_def current_kind_def)
  qed
qed

lemma parses_match_bind:
  assumes "TkEOF \<notin> set kinds" and "\<And>t. parses (k - 1) (f (Some t))" and "parses k (f None)"
  shows "parses k (sm_bind (p_match kinds) f)"
proof (rule parsesI)
  fix ts assume t: "stream_ok ts" "length ts \<le> k"
  from t(1) assms(1) show "outcome_ok (length ts) (sm_bind (p_match kinds) f ts)"
  proof (cases rule: p_match_run)
    case none
    then show ?thesis using parsesD [OF assms(3) t] by (simp add: sm_bind_def)
  next
    case (some t' rest)
    then have "outcome_ok (length rest) (f (Some t') rest)" using t by (intro parsesD [OF assms(2)]) auto
    then show ?thesis using some outcome_ok_mono [of "length rest" _ "length ts"] by (simp add: sm_bind_def)
  qed
qed

lemma parses_if:
  assumes "TkEOF \<notin> set kinds" and "parses (k - 1) m" and "parses k m'"
  shows "parses k (p_if kinds m m')"
  unfolding p_if_def by (rule parses_match_bind) (use assms in simp_all)

lemma parses_match: "TkEOF \<notin> set kinds \<Longrightarrow> parses k (p_match kinds)"
  using parses_match_bind [of kinds k sm_return] parses_return by (auto simp: sm_bind_def parses_def outcome_ok_def split: prod.splits sum.splits)

lemma parses_expect: "kind \<noteq> TkEOF \<Longrightarrow> parses k (p_expect kind)"
  unfolding p_expect_def by (rule parses_match_bind) (auto simp: parses_return parses_raise)

lemma p_expect_run:
  assumes "p_expect kind ts = (Inr t, ts')" and "stream_ok ts"
  shows "t \<in> set ts" and "tok_kind t = kind"
  using assms
  by (auto simp: p_expect_def p_match_def sm_bind_def p_at_def current_kind_def p_advance_def stream_ok_def
      split: list.splits if_splits)

lemma parses_identifier: "parses k p_identifier"
proof (rule parsesI)
  fix ts assume t: "stream_ok ts" "length ts \<le> k"
  have e: "outcome_ok (length ts) (p_expect TkIDENT ts)" using t by (intro parsesD [OF parses_expect]) simp_all
  show "outcome_ok (length ts) (p_identifier ts)"
    unfolding p_identifier_def sm_cont_bind [symmetric]
  proof (rule outcome_ok_cont [OF e])
    fix x ts' assume r: "p_expect TkIDENT ts = (Inr x, ts')" and t': "stream_ok ts'" "length ts' \<le> length ts"
    obtain s where "tok_value x = ScStr s"
      using p_expect_run [OF r t(1)] t(1) by (auto simp: stream_ok_def token_wf_def)
    then show "outcome_ok (length ts) ((case tok_value x of ScStr s \<Rightarrow> sm_return s | _ \<Rightarrow> sm_raise PyAssertionError) ts')"
      using t' by (simp add: outcome_ok_def)
  qed
qed

text \<open>The loops, with a bound above the number of tokens.\<close>

lemma comma_rest_ok:
  assumes "parses k item"
  shows "stream_ok ts \<Longrightarrow> length ts \<le> k \<Longrightarrow> length ts < n \<Longrightarrow> outcome_ok (length ts) (comma_rest n item xs ts)"
proof (induction n arbitrary: ts xs)
  case (Suc n)
  have "TkEOF \<notin> set [TkCOMMA]" by simp
  with Suc.prems(1) show ?case
  proof (cases rule: p_match_run)
    case none
    then show ?thesis using Suc.prems by (simp add: p_if_def sm_bind_def outcome_ok_def)
  next
    case (some t rest)
    have i: "outcome_ok (length rest) (item rest)" using parsesD [OF assms some(4)] some(1) Suc.prems(2) by simp
    have "outcome_ok (length rest) (sm_cont (item rest) (\<lambda>x. comma_rest n item (xs @ [x])))"
      by (rule outcome_ok_cont [OF i], rule outcome_ok_mono [OF Suc.IH]) (use some(1) Suc.prems in auto)
    then show ?thesis
      using some outcome_ok_mono [of "length rest" _ "length ts"]
      by (simp add: p_if_def sm_bind_def [of "p_match _"] sm_cont_bind)
  qed
qed simp

lemma parses_comma_list: "parses k item \<Longrightarrow> parses k (comma_list item)"
  unfolding comma_list_def by (rule parses_bind, assumption, rule parsesI, rule comma_rest_ok) simp_all

lemma binary_loop_ok:
  assumes "parses k sub" and "TkEOF \<notin> set kinds"
  shows "stream_ok ts \<Longrightarrow> length ts \<le> k \<Longrightarrow> length ts < n \<Longrightarrow> outcome_ok (length ts) (binary_loop n kinds op sub e ts)"
proof (induction n arbitrary: ts e)
  case (Suc n)
  from Suc.prems(1) assms(2) show ?case
  proof (cases rule: p_match_run)
    case none
    then show ?thesis using Suc.prems by (simp add: sm_bind_def outcome_ok_def)
  next
    case (some t rest)
    have i: "outcome_ok (length rest) (sub rest)" using parsesD [OF assms(1) some(4)] some(1) Suc.prems(2) by simp
    have "outcome_ok (length rest) (sm_cont (sub rest) (\<lambda>r. binary_loop n kinds op sub (BinaryExpr e (op t) r)))"
      by (rule outcome_ok_cont [OF i], rule outcome_ok_mono [OF Suc.IH]) (use some(1) Suc.prems in auto)
    then show ?thesis
      using some outcome_ok_mono [of "length rest" _ "length ts"]
      by (simp add: sm_bind_def [of "p_match _"] sm_cont_bind)
  qed
qed simp

lemma parses_binary_level: "parses k sub \<Longrightarrow> TkEOF \<notin> set kinds \<Longrightarrow> parses k (binary_level kinds op sub)"
  unfolding binary_level_def by (rule parses_bind, assumption, rule parsesI, rule binary_loop_ok) simp_all

lemmas parses_rules = parses_return parses_raise parses_get parses_at parses_advance parses_match parses_identifier
  parses_expect parses_if parses_comma_list parses_match_bind parses_bind

text \<open>Expressions: parentheses and calls consume a token before they nest.\<close>

lemma parses_primary:
  assumes "parses (k - 1) ex"
  shows "parses k (p_primary u ex)"
proof -
  have call: "parses (k - 1) (p_call u ex name)" for name
    unfolding p_call_def by (intro parses_bind parses_at parses_expect parses_return)
      (use parses_comma_list [OF assms] in \<open>auto intro: parses_return\<close>)
  have name: "parses k (p_name u ex)"
    unfolding p_name_def by (intro parses_rules call) simp_all
  have nested: "parses (k - 1) (sm_bind ex (\<lambda>e. sm_bind (p_expect TkRPAREN) (\<lambda>_. sm_return e)))"
    by (intro parses_bind assms parses_expect parses_return) simp
  show ?thesis
    unfolding p_primary_def
    by (rule parses_match_bind)
      (auto intro!: parses_if parses_bind parses_at parses_return parses_raise name nested)
qed

lemma parses_unary:
  assumes "parses (k - 1) ex"
  shows "parses k (p_unary u ex)"
proof (rule parsesI)
  fix ts show "stream_ok ts \<Longrightarrow> length ts \<le> k \<Longrightarrow> outcome_ok (length ts) (p_unary u ex ts)"
  proof (induction ts)
    case (Cons t ts)
    show ?case
    proof (cases "tok_kind t \<in> {TkPLUS, TkMINUS}")
      case True
      then have "stream_ok ts" using Cons.prems(1) stream_ok_tl by auto
      then have i: "outcome_ok (length ts) (p_unary u ex ts)" using Cons by simp
      have "outcome_ok (length (t # ts)) (sm_cont (p_unary u ex ts) (\<lambda>e. sm_return (UnaryExpr (pystr_string (tok_lexeme t)) e)))"
        by (rule outcome_ok_cont [OF i]) (simp add: outcome_ok_def)
      then show ?thesis using True by simp
    next
      case False
      then show ?thesis using parsesD [OF parses_primary [OF assms] Cons.prems] by simp
    qed
  qed (simp add: stream_ok_def)
qed

lemma comparisons_not_eof: "TkEOF \<notin> set (map fst COMPARISONS)"
  by (simp add: COMPARISONS_def)

lemma parses_not:
  assumes "parses (k - 1) ex"
  shows "parses k (p_not u ex)"
proof -
  have add: "parses k (p_additive u ex)"
    unfolding p_additive_def p_multiplicative_def by (intro parses_binary_level parses_unary assms) simp_all
  have "parses k (case operator of None \<Rightarrow> sm_return e | Some op \<Rightarrow>
      sm_bind p_advance (\<lambda>_. sm_bind (p_additive u ex) (\<lambda>r.
        sm_bind (p_at (map fst COMPARISONS @ [TkIS])) (\<lambda>chained.
        if chained then sm_raise SqlSyntaxError else sm_return (BinaryExpr e op r)))))" for operator e
    by (cases operator) (auto intro!: parses_bind parses_advance parses_at parses_return parses_raise add)
  then have cmp: "parses k (p_comparison u ex)"
    unfolding p_comparison_def
    by (intro parses_bind add parses_if parses_get parses_match parses_expect parses_return) simp_all
  show ?thesis
  proof (rule parsesI)
    fix ts show "stream_ok ts \<Longrightarrow> length ts \<le> k \<Longrightarrow> outcome_ok (length ts) (p_not u ex ts)"
    proof (induction ts)
      case (Cons t ts)
      show ?case
      proof (cases "tok_kind t = TkNOT")
        case True
        then have "stream_ok ts" using Cons.prems(1) stream_ok_tl by auto
        then have i: "outcome_ok (length ts) (p_not u ex ts)" using Cons by simp
        have "outcome_ok (length (t # ts)) (sm_cont (p_not u ex ts) (\<lambda>e. sm_return (UnaryExpr ''NOT'' e)))"
          by (rule outcome_ok_cont [OF i]) (simp add: outcome_ok_def)
        then show ?thesis using True by simp
      next
        case False
        then show ?thesis using parsesD [OF cmp Cons.prems] by simp
      qed
    qed (simp add: stream_ok_def)
  qed
qed

lemma parses_expression: "k < n \<Longrightarrow> parses k (p_expression u n)"
proof (induction n arbitrary: k)
  case (Suc n)
  have "parses (k - 1) (p_expression u n)"
  proof (cases "k = 0")
    case True
    then show ?thesis by (auto simp: parses_def stream_ok_def)
  next
    case False
    then show ?thesis using Suc by simp
  qed
  then show ?case
    by (simp add: p_or_def p_and_def) (intro parses_binary_level parses_not; simp)
qed simp

text \<open>Statements.\<close>

lemma p_constraints_ok:
  "stream_ok ts \<Longrightarrow> length ts < n \<Longrightarrow> outcome_ok (length ts) (p_constraints n seen cd ts)"
proof (induction n arbitrary: ts seen cd)
  case (Suc n)
  have lt: "length ts - 1 < n" using Suc.prems by (cases ts) (auto simp: stream_ok_def)
  have step: "parses (length ts - 1) (p_constraints n seen' cd')" for seen' cd'
    using lt by (intro parsesI Suc.IH) (auto intro: le_less_trans)
  have step': "parses (length ts - 1) (sm_bind (p_expect kind) (\<lambda>_. p_constraints n seen' cd'))" if "kind \<noteq> TkEOF" for kind seen' cd'
    using that by (intro parses_bind parses_expect step)
  have "parses (length ts) (p_constraints (Suc n) seen cd)"
    unfolding p_constraints.simps
    by (intro parses_if parses_return) (use step step' in \<open>auto intro: parses_raise\<close>)
  then show ?case using Suc.prems by (intro parsesD) auto
qed simp

lemma p_joins_ok:
  assumes "parses k ex"
  shows "stream_ok ts \<Longrightarrow> length ts \<le> k \<Longrightarrow> length ts < n \<Longrightarrow> outcome_ok (length ts) (p_joins n ex joins ts)"
proof (induction n arbitrary: ts joins)
  case (Suc n)
  define tail where "tail = (\<lambda>_ :: token. sm_bind p_table_ref (\<lambda>tab. sm_bind (p_expect TkON) (\<lambda>_.
      sm_bind ex (\<lambda>condition. p_joins n ex (joins @ [JoinClause tab condition])))))"
  have als: "parses j p_alias" for j
    unfolding p_alias_def by (intro parses_bind parses_match parses_at) (auto intro: parses_bind parses_identifier parses_return)
  have lt: "length ts - 1 < n" using Suc.prems by (cases ts) (auto simp: stream_ok_def)
  have next_joins: "parses (length ts - 1) (p_joins n ex js)" for js
    using Suc.prems lt by (intro parsesI Suc.IH) (auto intro: le_less_trans le_trans)
  have weak: "parses (length ts - 1) ex" by (rule parses_mono [OF assms]) (use Suc.prems in simp)
  have rest: "parses (length ts - 1) (tail t)" for t
    unfolding tail_def p_table_ref_def
    by (intro parses_bind parses_identifier als parses_return parses_expect weak next_joins) simp
  have "parses (length ts - 1) (sm_bind (p_expect TkJOIN) tail)"
    by (intro parses_bind parses_expect rest) simp
  moreover have "parses (length ts) (sm_bind (p_expect TkJOIN) tail)"
  proof -
    have "parses (length ts) (\<lambda>s. sm_bind (p_match [TkJOIN]) (\<lambda>m. case m of None \<Rightarrow> sm_raise SqlSyntaxError | Some t \<Rightarrow> tail t) s)"
      by (rule parses_match_bind) (auto intro: parses_raise rest [simplified])
    moreover have "sm_bind (p_expect TkJOIN) tail = (\<lambda>s. sm_bind (p_match [TkJOIN]) (\<lambda>m. case m of None \<Rightarrow> sm_raise SqlSyntaxError | Some t \<Rightarrow> tail t) s)"
      by (auto simp: p_expect_def sm_bind_def fun_eq_iff split: prod.splits sum.splits option.splits)
    ultimately show ?thesis by simp
  qed
  ultimately have "parses (length ts) (sm_bind (p_match [TkINNER]) (\<lambda>_. sm_bind (p_expect TkJOIN) tail))"
    by (intro parses_match_bind) simp_all
  then have "parses (length ts) (p_joins (Suc n) ex joins)"
    unfolding p_joins.simps tail_def by (intro parses_bind parses_at) (auto intro: parses_return)
  then show ?case using Suc.prems(1) by (rule parsesD) simp
qed simp

lemma parses_alias: "parses k p_alias"
  unfolding p_alias_def by (intro parses_bind parses_match parses_at) (auto intro: parses_bind parses_identifier parses_return)

lemma parses_limit: "parses k p_limit"
proof -
  have "parses j (sm_bind (p_expect TkINTEGER) (\<lambda>t. case tok_value t of ScInt i \<Rightarrow> sm_return (Some i) | _ \<Rightarrow> sm_raise PyAssertionError))" for j
  proof (rule parsesI)
    fix ts assume t: "stream_ok ts" "length ts \<le> j"
    have e: "outcome_ok (length ts) (p_expect TkINTEGER ts)" using t by (intro parsesD [OF parses_expect]) simp_all
    show "outcome_ok (length ts) (sm_bind (p_expect TkINTEGER) (\<lambda>t. case tok_value t of ScInt i \<Rightarrow> sm_return (Some i) | _ \<Rightarrow> sm_raise PyAssertionError) ts)"
      unfolding sm_cont_bind [symmetric]
    proof (rule outcome_ok_cont [OF e])
      fix x ts' assume r: "p_expect TkINTEGER ts = (Inr x, ts')" and t': "stream_ok ts'" "length ts' \<le> length ts"
      obtain i where "tok_value x = ScInt i"
        using p_expect_run [OF r t(1)] t(1) by (auto simp: stream_ok_def token_wf_def)
      then show "outcome_ok (length ts) ((case tok_value x of ScInt i \<Rightarrow> sm_return (Some i) | _ \<Rightarrow> sm_raise PyAssertionError) ts')"
        using t' by (simp add: outcome_ok_def)
    qed
  qed
  then show ?thesis unfolding p_limit_def by (intro parses_if parses_return) simp
qed

lemma parses_where: "parses k ex \<Longrightarrow> parses k (p_where ex)"
  unfolding p_where_def
  by (intro parses_if parses_bind parses_return) (auto intro: parses_mono)

lemma parses_case_prod: "(\<And>f j. parses k (m f j)) \<Longrightarrow> parses k (case fj of (f, j) \<Rightarrow> m f j)"
  by (cases fj) simp

lemma parses_select:
  assumes "parses k ex"
  shows "parses k (p_select ex)"
proof -
  have weak: "parses (k - 1) ex" by (rule parses_mono [OF assms]) simp
  have joins: "parses (k - 1) (\<lambda>ts. p_joins (Suc (length ts)) ex [] ts)"
    by (rule parsesI, rule p_joins_ok [OF weak]) simp_all
  have "parses k (p_from ex)"
    unfolding p_from_def p_table_ref_def
    by (intro parses_if parses_bind parses_identifier parses_alias parses_return joins) simp
  moreover have "parses (k - 1) (p_order_item ex)"
    unfolding p_order_item_def
    by (intro parses_bind parses_if parses_return parses_raise weak) simp_all
  moreover have "parses k (p_select_item ex)"
    unfolding p_select_item_def by (intro parses_bind assms parses_alias parses_return)
  ultimately show ?thesis
    unfolding p_select_def p_expression_list_def
    by (intro parses_bind parses_case_prod parses_comma_list parses_where parses_if parses_return parses_expect parses_limit assms weak) simp_all
qed

lemma parses_statement_parts:
  assumes "parses k ex"
  shows "parses k p_create" and "parses k (p_insert ex)" and "parses k (p_update ex)" and "parses k (p_delete ex)"
    and "parses k p_optional_table"
proof -
  have col: "parses j p_column_definition" for j
  proof -
    have "parses j (case ty of None \<Rightarrow> sm_raise SqlSyntaxError | Some ty \<Rightarrow> sm_bind p_advance (\<lambda>_ ts.
        p_constraints (Suc (length ts)) [] (cd ty) ts))" for ty and cd :: "string \<Rightarrow> column_definition"
    proof (cases ty)
      case None
      then show ?thesis by (simp add: parses_raise)
    next
      case (Some a)
      have "parses j (\<lambda>ts. p_constraints (Suc (length ts)) [] (cd a) ts)"
        by (rule parsesI, rule p_constraints_ok) simp_all
      then show ?thesis unfolding Some option.case by (rule parses_bind [OF parses_advance])
    qed
    then show ?thesis unfolding p_column_definition_def by (intro parses_bind parses_identifier parses_get)
  qed
  have table: "parses j p_create_table" for j
    unfolding p_create_table_def by (intro parses_bind parses_identifier parses_expect parses_comma_list col parses_return) simp_all
  show "parses k p_create"
    unfolding p_create_def p_identifier_list_def
    by (intro parses_if table parses_bind parses_match parses_expect parses_identifier parses_comma_list parses_return) simp_all
  show "parses k (p_insert ex)"
    unfolding p_insert_def p_expression_row_def p_identifier_list_def
    by (intro parses_bind parses_expect parses_identifier parses_if parses_comma_list parses_return assms) simp_all
  show "parses k (p_update ex)"
    unfolding p_update_def p_assignment_def
    by (intro parses_bind parses_identifier parses_expect parses_comma_list parses_where parses_return assms) simp_all
  show "parses k (p_delete ex)"
    unfolding p_delete_def by (intro parses_bind parses_identifier parses_expect parses_where parses_return assms) simp_all
  show "parses k p_optional_table"
    unfolding p_optional_table_def by (intro parses_bind parses_at) (auto intro: parses_return parses_bind parses_identifier)
qed

lemma p_statement_ok:
  assumes ex: "parses k ex"
  shows "stream_ok ts \<Longrightarrow> length ts \<le> k \<Longrightarrow> outcome_ok (length ts) (p_statement ex ts)"
proof (induction "length ts" arbitrary: ts rule: less_induct)
  case less
  show ?case
  proof (cases ts)
    case Nil
    then show ?thesis using less.prems by (simp add: stream_ok_def)
  next
    case (Cons t rest)
    show ?thesis
    proof (cases "tok_kind t = TkEOF")
      case True
      then show ?thesis using Cons by (simp add: outcome_ok_def)
    next
      case False
      then have r: "stream_ok rest" "length rest \<le> k" "length rest < length ts"
        using less.prems Cons stream_ok_tl by auto
      have sub: "outcome_ok (length ts) (m rest)" if "parses k m" for m :: "'b parser"
        using outcome_ok_mono [OF parsesD [OF that r(1,2)]] Cons by simp
      note parts = parses_statement_parts [OF ex] parses_select [OF ex]
      have opt: "outcome_ok (length ts) (sm_bind p_optional_table (\<lambda>n. sm_return (f n)) rest)" for f :: "pystr option \<Rightarrow> statement"
        using parsesD [OF parses_bind [OF parts(5) parses_return] r(1,2)] outcome_ok_mono Cons by (metis length_Cons le_SucI order_refl)
      have explain: "outcome_ok (length ts) (sm_cont (p_statement ex (if a then tl rest else rest)) (\<lambda>s. sm_return (ExplainStmt s a)))"
        if "a \<longrightarrow> current_kind rest = TkANALYZE" for a
      proof -
        have "stream_ok (if a then tl rest else rest)"
          using that r(1) by (cases rest) (auto simp: current_kind_def intro: stream_ok_tl)
        moreover have len: "length (if a then tl rest else rest) \<le> length rest" by simp
        ultimately have i: "outcome_ok (length (if a then tl rest else rest)) (p_statement ex (if a then tl rest else rest))"
          using less.hyps r by (meson le_less_trans le_trans)
        show ?thesis
          by (rule outcome_ok_cont [OF i]) (use len r(3) in \<open>auto simp: outcome_ok_def\<close>)
      qed
      show ?thesis
        using Cons r opt explain [of "current_kind rest = TkANALYZE"]
          outcome_ok_mono [OF parsesD [OF parts(1) r(1,2)], of "length ts"]
          outcome_ok_mono [OF parsesD [OF parts(2) r(1,2)], of "length ts"]
          outcome_ok_mono [OF parsesD [OF parts(3) r(1,2)], of "length ts"]
          outcome_ok_mono [OF parsesD [OF parts(4) r(1,2)], of "length ts"]
          outcome_ok_mono [OF parsesD [OF parts(6) r(1,2)], of "length ts"]
        by (simp add: Let_def) (simp add: outcome_ok_def)
    qed
  qed
qed

text \<open>
  Claim C36. The parser is total: on every text it returns a statement or raises a syntax error, apart
  from the \<open>ValueError\<close> of an unreadable number; in particular its loops end, the nesting
  bound is never reached, no assertion fails and no token index is out of range.
\<close>

theorem parse_total:
  "case parse u source of Inr statement \<Rightarrow> True | Inl e \<Rightarrow> e = SqlSyntaxError \<or> e = PyValueError"
proof (cases "lex u source")
  case (Inl e)
  then show ?thesis using scan_tokens_Inl by (auto simp: parse_def lex_def)
next
  case (Inr tokens)
  have ok: "stream_ok tokens"
    using scan_tokens_wf [of u _ "[]" tokens] Inr by (auto simp: lex_def stream_ok_def)
  have ex: "parses (length tokens) (p_expression u (Suc (length tokens)))"
    by (rule parses_expression) simp
  have st: "parses (length tokens) (p_statement (p_expression u (Suc (length tokens))))"
    by (rule parsesI, rule p_statement_ok [OF ex])
  have "parses (length tokens) (parse_tokens (p_expression u (Suc (length tokens))))"
    unfolding parse_tokens_def
    by (intro parses_bind parses_at) (auto intro!: parses_raise parses_bind st parses_match parses_at parses_return simp del: p_expression.simps)
  then have "outcome_ok (length tokens) (parse_tokens (p_expression u (Suc (length tokens))) tokens)"
    using ok by (intro parsesD) auto
  then show ?thesis
    using Inr by (auto simp: parse_def outcome_ok_def simp del: p_expression.simps split: prod.splits sum.splits)
qed

end
