(* ===== verification/Sql_Unparse.thy ===== *)
theory Sql_Unparse
  imports Sql_Parser
begin

text \<open>
  The grammar of expressions, stated independently of the parser: a printer that emits the
  tokens of an expression with parentheses only where precedence and associativity require
  them. Shows that the recursive-descent parser inverts it, so it implements exactly the
  precedence \<open>OR < AND < NOT < comparison < additive < multiplicative < unary\<close>, with
  left-associative binary operators and non-associative comparisons.
\<close>

section \<open>Printing\<close>

definition tk :: "token_kind \<Rightarrow> pystr \<Rightarrow> scalar \<Rightarrow> token" where
  "tk kind lexeme v = \<lparr>tok_kind = kind, tok_lexeme = lexeme, tok_value = v, tok_line = 1, tok_column = 1\<rparr>"

definition kw :: "token_kind \<Rightarrow> token" where
  "kw kind = tk kind [] ScNone"

definition ident :: "pystr \<Rightarrow> token" where
  "ident s = tk TkIDENT s (ScStr s)"

definition op_kind :: "string \<Rightarrow> token_kind" where
  "op_kind op =
     (if op = ''OR'' then TkOR else if op = ''AND'' then TkAND else if op = ''='' then TkEQ
      else if op = ''!='' then TkNEQ else if op = ''<'' then TkLT else if op = ''<='' then TkLTE
      else if op = ''>'' then TkGT else if op = ''>='' then TkGTE else if op = ''+'' then TkPLUS
      else if op = ''-'' then TkMINUS else if op = ''*'' then TkSTAR else TkSLASH)"

definition comparison_ops :: "string list" where
  "comparison_ops = [''='', ''!='', ''<'', ''<='', ''>'', ''>='']"

definition op_token :: "string \<Rightarrow> token" where
  "op_token op = tk (op_kind op) (lit op) ScNone"

definition op_level :: "string \<Rightarrow> nat" where
  "op_level op =
     (if op = ''OR'' then 0 else if op = ''AND'' then 1 else if op \<in> set comparison_ops then 3
      else if op = ''+'' \<or> op = ''-'' then 4 else 5)"

fun expr_level :: "expr \<Rightarrow> nat" where
  "expr_level (BinaryExpr l op r) = op_level op"
| "expr_level (UnaryExpr op e) = (if op = ''NOT'' then 2 else 6)"
| "expr_level (IsNullExpr e negated) = 3"
| "expr_level _ = 7"

definition parens :: "nat \<Rightarrow> expr \<Rightarrow> token list \<Rightarrow> token list" where
  "parens k e ts = (if expr_level e < k then kw TkLPAREN # ts @ [kw TkRPAREN] else ts)"

fun literal_token :: "scalar \<Rightarrow> token" where
  "literal_token ScNone = kw TkNULL"
| "literal_token (ScBool b) = kw (if b then TkTRUE else TkFALSE)"
| "literal_token (ScInt i) = tk TkINTEGER [] (ScInt i)"
| "literal_token (ScFloat f) = tk TkFLOAT [] (ScFloat f)"
| "literal_token (ScStr s) = tk TkSTRING [] (ScStr s)"

fun separated :: "token list list \<Rightarrow> token list" where
  "separated [] = []"
| "separated [ts] = ts"
| "separated (ts # tss) = ts @ kw TkCOMMA # separated tss"

text \<open>The left operand of a comparison is additive; of any other operator, of its own level.\<close>

definition left_level :: "string \<Rightarrow> nat" where
  "left_level op = (if op_level op = 3 then 4 else op_level op)"

fun unparse :: "expr \<Rightarrow> token list" where
  "unparse (Literal v) = [literal_token v]"
| "unparse (ColumnRef name None) = [ident name]"
| "unparse (ColumnRef name (Some t)) = [ident t, kw TkDOT, ident name]"
| "unparse (Star None) = [kw TkSTAR]"
| "unparse (Star (Some t)) = [ident t, kw TkDOT, kw TkSTAR]"
| "unparse (UnaryExpr op e) =
     (if op = ''NOT'' then kw TkNOT # parens 2 e (unparse e) else op_token op # parens 6 e (unparse e))"
| "unparse (BinaryExpr l op r) =
     parens (left_level op) l (unparse l) @ op_token op # parens (Suc (op_level op)) r (unparse r)"
| "unparse (IsNullExpr e negated) =
     parens 4 e (unparse e) @ kw TkIS # (if negated then [kw TkNOT] else []) @ [kw TkNULL]"
| "unparse (FunctionCall name arguments) =
     ident name # kw TkLPAREN # separated (map unparse arguments) @ [kw TkRPAREN]"

text \<open>The trees the grammar can express: known operators, and function names in upper case.\<close>

fun expressible :: "unicode \<Rightarrow> expr \<Rightarrow> bool" where
  "expressible u (UnaryExpr op e) \<longleftrightarrow> op \<in> {''NOT'', ''+'', ''-''} \<and> expressible u e"
| "expressible u (BinaryExpr l op r) \<longleftrightarrow>
     op \<in> {''OR'', ''AND'', ''+'', ''-'', ''*'', ''/''} \<union> set comparison_ops \<and> expressible u l \<and> expressible u r"
| "expressible u (IsNullExpr e negated) \<longleftrightarrow> expressible u e"
| "expressible u (FunctionCall name arguments) \<longleftrightarrow> str_upper u name = name \<and> list_all (expressible u) arguments"
| "expressible u _ \<longleftrightarrow> True"

section \<open>Parsing levels\<close>

definition level :: "unicode \<Rightarrow> expr parser \<Rightarrow> nat \<Rightarrow> expr parser" where
  "level u ex k =
     (if k = 0 then p_or u ex else if k = 1 then p_and u ex else if k = 2 then p_not u ex
      else if k = 3 then p_comparison u ex else if k = 4 then p_additive u ex
      else if k = 5 then p_multiplicative u ex else if k = 6 then p_unary u ex else p_primary u ex)"

text \<open>The tokens that a parser of level \<open>k\<close> would not leave behind.\<close>

definition continues :: "nat \<Rightarrow> token_kind list" where
  "continues k = [TkLPAREN, TkDOT] @ (if k \<le> 5 then [TkSTAR, TkSLASH] else [])
     @ (if k \<le> 4 then [TkPLUS, TkMINUS] else []) @ (if k \<le> 3 then TkIS # map fst COMPARISONS else [])
     @ (if k \<le> 1 then [TkAND] else []) @ (if k = 0 then [TkOR] else [])"

definition follows :: "nat \<Rightarrow> token list \<Rightarrow> bool" where
  "follows k rest \<longleftrightarrow> current_kind rest \<notin> set (continues k)"

lemma follows_mono: "follows j rest \<Longrightarrow> j \<le> k \<Longrightarrow> follows k rest"
  by (auto simp: follows_def continues_def split: if_splits)

lemma tk_simps [simp]:
  "tok_kind (tk k l v) = k" "tok_lexeme (tk k l v) = l" "tok_value (tk k l v) = v" "tok_kind (kw k) = k"
  "tok_kind (ident s) = TkIDENT" "tok_value (ident s) = ScStr s" "tok_kind (op_token op) = op_kind op"
  "tok_lexeme (op_token op) = lit op"
  by (simp_all add: tk_def kw_def ident_def op_token_def)

lemma pystr_string_lit [simp]: "pystr_string (lit s) = s"
  by (simp add: pystr_string_def lit_def)

lemma current_kind_Cons [simp]: "current_kind (t # ts) = tok_kind t"
  by (simp add: current_kind_def)

lemma p_match_hit: "tok_kind t \<in> set kinds \<Longrightarrow> tok_kind t \<noteq> TkEOF \<Longrightarrow> p_match kinds (t # ts) = (Inr (Some t), ts)"
  by (simp add: p_match_def sm_bind_def p_at_def p_advance_def)

lemma p_match_miss: "current_kind ts \<notin> set kinds \<Longrightarrow> p_match kinds ts = (Inr None, ts)"
  by (simp add: p_match_def sm_bind_def p_at_def)

lemma p_if_hit: "tok_kind t \<in> set kinds \<Longrightarrow> tok_kind t \<noteq> TkEOF \<Longrightarrow> p_if kinds m m' (t # ts) = m ts"
  by (simp add: p_if_def sm_bind_def p_match_hit)

lemma p_if_miss: "current_kind ts \<notin> set kinds \<Longrightarrow> p_if kinds m m' ts = m' ts"
  by (simp add: p_if_def sm_bind_def p_match_miss)

lemma p_expect_hit: "tok_kind t = kind \<Longrightarrow> kind \<noteq> TkEOF \<Longrightarrow> p_expect kind (t # ts) = (Inr t, ts)"
  by (simp add: p_expect_def sm_bind_def p_match_hit)

lemma p_identifier_ident: "p_identifier (ident s # ts) = (Inr s, ts)"
  by (simp add: p_identifier_def sm_bind_def p_expect_hit)

lemmas run_simps = p_match_hit p_match_miss p_if_hit p_if_miss p_expect_hit p_identifier_ident sm_bind_def p_at_def

text \<open>First tokens: an operand of comparison level or tighter does not start with \<open>NOT\<close>, and a
  primary does not start with a sign.\<close>

lemma parens_Suc: "expr_level e \<noteq> k \<Longrightarrow> parens k e ts = parens (Suc k) e ts"
  by (auto simp: parens_def)

lemma op_level_cases:
  "op_level op = 0 \<longleftrightarrow> op = ''OR''" "op_level op = 1 \<longleftrightarrow> op = ''AND''" "op_level op \<noteq> 2"
  "op_level op = 3 \<longleftrightarrow> op \<in> set comparison_ops" "op_level op = 4 \<longleftrightarrow> op = ''+'' \<or> op = ''-''" "op_level op \<le> 5"
  by (auto simp: op_level_def comparison_ops_def)

lemma unparse_nonempty: "unparse e \<noteq> []"
  by (cases e rule: unparse.cases) auto

lemma parens_nonempty: "parens k e (unparse e) \<noteq> []"
  by (simp add: parens_def unparse_nonempty)

lemma op_kind_not: "op_kind op \<noteq> TkNOT"
  by (simp add: op_kind_def)

lemma literal_kind: "tok_kind (literal_token v) \<in> {TkNULL, TkTRUE, TkFALSE, TkINTEGER, TkFLOAT, TkSTRING}"
  by (cases v) auto

lemma head_not_NOT: "3 \<le> expr_level e \<Longrightarrow> tok_kind (hd (unparse e)) \<noteq> TkNOT"
proof (induction e rule: unparse.induct)
  case (1 v)
  then show ?case using literal_kind [of v] by auto
next
  case (7 l op r)
  have "3 \<le> left_level op" using 7(3) by (simp add: left_level_def)
  then have "tok_kind (hd (parens (left_level op) l (unparse l))) \<noteq> TkNOT"
    using 7(1) by (auto simp: parens_def)
  then show ?case using parens_nonempty [of "left_level op" l] by (simp add: hd_append)
next
  case (8 e negated)
  have "tok_kind (hd (parens 4 e (unparse e))) \<noteq> TkNOT" using 8(1) by (auto simp: parens_def)
  then show ?case using parens_nonempty [of 4 e] by (simp add: hd_append)
qed (auto simp: op_kind_not)

lemma head_parens_not_NOT: "3 \<le> k \<Longrightarrow> tok_kind (hd (parens k e (unparse e))) \<noteq> TkNOT"
  using head_not_NOT [of e] by (auto simp: parens_def)

lemma primary_cases:
  assumes "7 \<le> expr_level e"
  obtains v where "e = Literal v" | name t where "e = ColumnRef name t" | t where "e = Star t"
    | name args where "e = FunctionCall name args"
proof (cases e)
  case (BinaryExpr l op r)
  then show thesis using assms op_level_cases(6) [of op] by simp
next
  case (UnaryExpr op x)
  then show thesis using assms by (simp split: if_splits)
qed (use assms that in auto)

lemma head_primary_not_sign: "tok_kind (hd (parens 7 e (unparse e))) \<notin> {TkPLUS, TkMINUS}"
proof (cases "expr_level e < 7")
  case True
  then show ?thesis by (simp add: parens_def)
next
  case False
  then have "7 \<le> expr_level e" by simp
  then have "tok_kind (hd (unparse e)) \<notin> {TkPLUS, TkMINUS}"
  proof (cases rule: primary_cases)
    case (1 v)
    then show ?thesis using literal_kind [of v] by auto
  next
    case (2 name t)
    then show ?thesis by (cases t) auto
  next
    case (3 t)
    then show ?thesis by (cases t) auto
  qed auto
  then show ?thesis using False by (simp add: parens_def)
qed

section \<open>Inversion, level by level\<close>

text \<open>The nested parser reads back every expression smaller than a bound.\<close>

definition reads_below :: "unicode \<Rightarrow> expr parser \<Rightarrow> nat \<Rightarrow> bool" where
  "reads_below u ex m \<longleftrightarrow>
     (\<forall>e rest. size e < m \<longrightarrow> expressible u e \<longrightarrow> follows 0 rest \<longrightarrow> ex (unparse e @ rest) = (Inr e, rest))"

definition reads :: "unicode \<Rightarrow> expr parser \<Rightarrow> nat \<Rightarrow> expr \<Rightarrow> bool" where
  "reads u ex k e \<longleftrightarrow> (\<forall>rest. follows k rest \<longrightarrow> level u ex k (parens k e (unparse e) @ rest) = (Inr e, rest))"

lemma reads_belowD:
  "reads_below u ex m \<Longrightarrow> size e < m \<Longrightarrow> expressible u e \<Longrightarrow> follows 0 rest \<Longrightarrow> ex (unparse e @ rest) = (Inr e, rest)"
  by (simp add: reads_below_def)

lemma reads_below_mono: "reads_below u ex m \<Longrightarrow> j \<le> m \<Longrightarrow> reads_below u ex j"
  by (simp add: reads_below_def)

text \<open>Arguments of a call.\<close>

lemma comma_rest_reads:
  assumes "\<And>e rest. e \<in> set es \<Longrightarrow> follows 0 rest \<Longrightarrow> ex (unparse e @ rest) = (Inr e, rest)"
    and "length es < n" and "current_kind rest = TkRPAREN"
  shows "comma_rest n ex xs (concat (map (\<lambda>e. kw TkCOMMA # unparse e) es) @ rest) = (Inr (xs @ es), rest)"
  using assms(1,2)
proof (induction es arbitrary: n xs)
  case Nil
  then show ?case using assms(3) by (cases n) (simp_all add: run_simps)
next
  case (Cons e es)
  obtain m where n: "n = Suc m" using Cons.prems(2) by (cases n) auto
  define more where "more = concat (map (\<lambda>e. kw TkCOMMA # unparse e) es) @ rest"
  have "follows 0 more"
    using assms(3) by (cases es) (simp_all add: more_def follows_def continues_def COMPARISONS_def)
  then have "ex (unparse e @ more) = (Inr e, more)" using Cons.prems(1) by simp
  moreover have "comma_rest m ex (xs @ [e]) more = (Inr ((xs @ [e]) @ es), rest)"
    unfolding more_def using Cons.prems n by (intro Cons.IH) auto
  ultimately show ?case by (simp add: n run_simps more_def)
qed

lemma separated_concat:
  "separated (map f (e # es)) = f e @ concat (map (\<lambda>e. kw TkCOMMA # f e) es)"
  by (induction es arbitrary: e) auto

lemma comma_list_reads:
  assumes "\<And>e rest. e \<in> set es \<Longrightarrow> follows 0 rest \<Longrightarrow> ex (unparse e @ rest) = (Inr e, rest)"
    and "es \<noteq> []" and "current_kind rest = TkRPAREN"
  shows "comma_list ex (separated (map unparse es) @ rest) = (Inr es, rest)"
proof -
  obtain e es' where es: "es = e # es'" using assms(2) by (cases es) auto
  define more where "more = concat (map (\<lambda>e. kw TkCOMMA # unparse e) es') @ rest"
  have "follows 0 more"
    using assms(3) by (cases es') (simp_all add: more_def follows_def continues_def COMPARISONS_def)
  then have "ex (unparse e @ more) = (Inr e, more)" using assms(1) es by simp
  moreover have "length es' < Suc (length more)"
  proof -
    have "length es' \<le> length (concat (map (\<lambda>e. kw TkCOMMA # unparse e) es'))" by (induction es') auto
    then show ?thesis by (simp add: more_def)
  qed
  then have "comma_rest (Suc (length more)) ex [e] more = (Inr ([e] @ es'), rest)"
    unfolding more_def using assms(1,3) es by (intro comma_rest_reads) auto
  ultimately show ?thesis
    unfolding es separated_concat comma_list_def by (simp add: sm_bind_def more_def del: comma_rest.simps)
qed

lemma size_argument: "e \<in> set es \<Longrightarrow> size e < size_list size es + 1"
  by (induction es) auto

text \<open>Primaries: parenthesised expressions, literals, names and calls.\<close>

lemma follows_rparen: "current_kind rest = TkRPAREN \<Longrightarrow> follows k rest"
  by (simp add: follows_def continues_def COMPARISONS_def)

lemma head_ident_start: "tok_kind (hd (separated (map unparse (e # es)))) = tok_kind (hd (unparse e))"
  unfolding separated_concat using unparse_nonempty [of e] by (simp add: hd_append)

lemma head_not_rparen: "tok_kind (hd (unparse e)) \<noteq> TkRPAREN"
proof (induction e rule: unparse.induct)
  case (1 v)
  then show ?case using literal_kind [of v] by auto
next
  case (6 op e)
  then show ?case by (simp add: op_kind_def)
next
  case (7 l op r)
  then show ?case using parens_nonempty [of "left_level op" l] by (auto simp: hd_append parens_def)
next
  case (8 e negated)
  then show ?case using parens_nonempty [of 4 e] by (auto simp: hd_append parens_def)
qed auto

lemma reads_primary:
  assumes "reads_below u ex (size e)" and "expressible u e" and nested: "expr_level e < 7 \<Longrightarrow> reads_below u ex (Suc (size e))"
  shows "reads u ex 7 e"
  unfolding reads_def
proof (intro allI impI)
  fix rest assume f: "follows 7 rest"
  show "level u ex 7 (parens 7 e (unparse e) @ rest) = (Inr e, rest)"
  proof (cases "expr_level e < 7")
    case True
    have "ex (unparse e @ kw TkRPAREN # rest) = (Inr e, kw TkRPAREN # rest)"
      using assms(2) by (intro reads_belowD [OF nested [OF True]]) (auto intro: follows_rparen)
    then show ?thesis using True by (simp add: level_def parens_def p_primary_def run_simps)
  next
    case False
    then have p: "parens 7 e (unparse e) = unparse e" by (simp add: parens_def)
    have nx: "current_kind rest \<noteq> TkLPAREN" "current_kind rest \<noteq> TkDOT"
      using f by (auto simp: follows_def continues_def)
    have "7 \<le> expr_level e" using False by simp
    then have "p_primary u ex (unparse e @ rest) = (Inr e, rest)"
    proof (cases rule: primary_cases)
      case (1 v)
      then show ?thesis by (cases v) (auto simp: p_primary_def run_simps)
    next
      case (2 name t)
      then show ?thesis using nx by (cases t) (auto simp: p_primary_def p_name_def run_simps)
    next
      case (3 t)
      then show ?thesis using nx by (cases t) (auto simp: p_primary_def p_name_def run_simps)
    next
      case (4 name args)
      have up: "str_upper u name = name" "list_all (expressible u) args" using assms(2) 4 by auto
      have "ex (unparse a @ rest') = (Inr a, rest')" if "a \<in> set args" "follows 0 rest'" for a rest'
        using up(2) that size_argument [OF that(1)]
        by (intro reads_belowD [OF assms(1)]) (auto simp: 4 list_all_iff)
      then have l: "args \<noteq> [] \<Longrightarrow> comma_list ex (separated (map unparse args) @ kw TkRPAREN # rest) = (Inr args, kw TkRPAREN # rest)"
        by (intro comma_list_reads) auto
      show ?thesis
      proof (cases args)
        case Nil
        then show ?thesis using up(1) by (simp add: 4 p_primary_def p_name_def p_call_def run_simps)
      next
        case (Cons a as)
        obtain t ts where t: "unparse a = t # ts" using unparse_nonempty [of a] by (cases "unparse a") auto
        define inner where "inner = separated (map unparse args) @ kw TkRPAREN # rest"
        have h: "current_kind inner \<noteq> TkRPAREN"
          using head_not_rparen [of a] unfolding inner_def Cons separated_concat by (simp add: t)
        have "comma_list ex inner = (Inr args, kw TkRPAREN # rest)" using l Cons by (simp add: inner_def)
        then have "p_call u ex name inner = (Inr e, rest)" using h up(1) by (simp add: 4 p_call_def run_simps)
        then show ?thesis by (simp add: 4 p_primary_def p_name_def run_simps inner_def)
      qed
    qed
    then show ?thesis by (simp add: p level_def)
  qed
qed

text \<open>A sign before an operand, and \<open>NOT\<close>.\<close>

lemma reads_unary:
  assumes "expr_level e \<noteq> 6 \<Longrightarrow> reads u ex 7 e" and "\<And>op x. e = UnaryExpr op x \<Longrightarrow> op \<noteq> ''NOT'' \<Longrightarrow> reads u ex 6 x"
    and "expressible u e"
  shows "reads u ex 6 e"
  unfolding reads_def
proof (intro allI impI)
  fix rest assume f: "follows 6 rest"
  show "level u ex 6 (parens 6 e (unparse e) @ rest) = (Inr e, rest)"
  proof (cases "expr_level e = 6")
    case True
    then obtain op x where e: "e = UnaryExpr op x" "op \<noteq> ''NOT''"
    proof (cases e)
      case (BinaryExpr l op r)
      then show thesis using True op_level_cases(6) [of op] by simp
    qed (auto split: if_splits)
    then have "op = ''+'' \<or> op = ''-''" using assms(3) by auto
    then have "tok_kind (op_token op) \<in> {TkPLUS, TkMINUS}" by (auto simp: op_kind_def)
    moreover have "p_unary u ex (parens 6 x (unparse x) @ rest) = (Inr x, rest)"
      using assms(2) [OF e] f by (simp add: reads_def level_def)
    ultimately show ?thesis using e by (auto simp: parens_def level_def sm_cont_def)
  next
    case False
    then have p: "parens 6 e (unparse e) = parens 7 e (unparse e)" using parens_Suc [of e 6] by simp
    have "follows 7 rest" using f follows_mono by simp
    then have "p_primary u ex (parens 7 e (unparse e) @ rest) = (Inr e, rest)"
      using assms(1) [OF False] by (simp add: reads_def level_def)
    moreover obtain t ts where "parens 7 e (unparse e) = t # ts"
      using parens_nonempty [of 7 e] by (cases "parens 7 e (unparse e)") auto
    ultimately show ?thesis using head_primary_not_sign [of e] p by (simp add: level_def)
  qed
qed

lemma reads_not:
  assumes "expr_level e \<noteq> 2 \<Longrightarrow> reads u ex 3 e" and "\<And>x. e = UnaryExpr ''NOT'' x \<Longrightarrow> reads u ex 2 x"
  shows "reads u ex 2 e"
  unfolding reads_def
proof (intro allI impI)
  fix rest assume f: "follows 2 rest"
  show "level u ex 2 (parens 2 e (unparse e) @ rest) = (Inr e, rest)"
  proof (cases "expr_level e = 2")
    case True
    then obtain x where e: "e = UnaryExpr ''NOT'' x"
      using op_level_cases(3) by (cases e) (auto split: if_splits)
    have "p_not u ex (parens 2 x (unparse x) @ rest) = (Inr x, rest)"
      using assms(2) [OF e] f by (simp add: reads_def level_def)
    then show ?thesis using e by (simp add: parens_def level_def sm_cont_def)
  next
    case False
    then have p: "parens 2 e (unparse e) = parens 3 e (unparse e)" using parens_Suc [of e 2] by (simp add: numeral_3_eq_3 numeral_2_eq_2)
    have "follows 3 rest" using f follows_mono by simp
    then have "p_comparison u ex (parens 3 e (unparse e) @ rest) = (Inr e, rest)"
      using assms(1) [OF False] by (simp add: reads_def level_def)
    moreover obtain t ts where "parens 3 e (unparse e) = t # ts"
      using parens_nonempty [of 3 e] by (cases "parens 3 e (unparse e)") auto
    ultimately show ?thesis using head_parens_not_NOT [of 3 e] p by (simp add: level_def)
  qed
qed

text \<open>
  Left-associative levels: reading an operand of the level leaves the loop with the operand as
  its accumulator, whatever follows.
\<close>

definition loops :: "token_kind list \<Rightarrow> (token \<Rightarrow> string) \<Rightarrow> expr parser \<Rightarrow> nat \<Rightarrow> expr \<Rightarrow> bool" where
  "loops kinds op sub k e \<longleftrightarrow>
     (\<forall>rest. follows (Suc k) rest \<longrightarrow>
        (\<exists>n > length rest. binary_level kinds op sub (parens k e (unparse e) @ rest) = binary_loop n kinds op sub e rest))"

lemma loops_operand:
  assumes "\<And>rest. follows (Suc k) rest \<Longrightarrow> sub (parens (Suc k) e (unparse e) @ rest) = (Inr e, rest)"
    and "expr_level e \<noteq> k"
  shows "loops kinds op sub k e"
  unfolding loops_def
proof (intro allI impI exI conjI)
  fix rest assume "follows (Suc k) rest"
  then show "binary_level kinds op sub (parens k e (unparse e) @ rest) = binary_loop (Suc (length rest)) kinds op sub e rest"
    using assms parens_Suc [OF assms(2)] by (simp add: binary_level_def sm_bind_def del: binary_loop.simps)
qed simp

lemma loops_operator:
  assumes l: "loops kinds op sub k l"
    and r: "\<And>rest. follows (Suc k) rest \<Longrightarrow> sub (parens (Suc k) r (unparse r) @ rest) = (Inr r, rest)"
    and q: "op_level q = k" "k \<noteq> 3" "op_kind q \<in> set kinds" "op_kind q \<noteq> TkEOF" "op (op_token q) = q"
      "op_kind q \<notin> set (continues (Suc k))"
  shows "loops kinds op sub k (BinaryExpr l q r)"
  unfolding loops_def
proof (intro allI impI)
  fix rest assume f: "follows (Suc k) rest"
  define more where "more = op_token q # parens (Suc k) r (unparse r) @ rest"
  have "follows (Suc k) more" using q(6) by (simp add: more_def follows_def)
  then obtain n where n: "n > length more"
    "binary_level kinds op sub (parens k l (unparse l) @ more) = binary_loop n kinds op sub l more"
    using l by (auto simp: loops_def)
  obtain m where m: "n = Suc m" using n(1) by (cases n) auto
  have "binary_loop n kinds op sub l more = binary_loop m kinds op sub (BinaryExpr l q r) rest"
    using r [OF f] q by (simp add: m more_def p_match_hit sm_bind_def)
  moreover have "length rest < m" using n(1) m by (simp add: more_def)
  moreover have "parens k (BinaryExpr l q r) (unparse (BinaryExpr l q r)) @ rest = parens k l (unparse l) @ more"
    using q by (simp add: parens_def left_level_def more_def)
  ultimately show "\<exists>n>length rest. binary_level kinds op sub (parens k (BinaryExpr l q r) (unparse (BinaryExpr l q r)) @ rest)
      = binary_loop n kinds op sub (BinaryExpr l q r) rest"
    using n(2) by auto
qed

lemma loops_reads:
  assumes "loops kinds op sub k e" and "level u ex k = binary_level kinds op sub" and "set kinds \<subseteq> set (continues k)"
  shows "reads u ex k e"
  unfolding reads_def
proof (intro allI impI)
  fix rest assume f: "follows k rest"
  obtain n where n: "n > length rest"
    "binary_level kinds op sub (parens k e (unparse e) @ rest) = binary_loop n kinds op sub e rest"
    using assms(1) follows_mono [OF f, of "Suc k"] by (auto simp: loops_def)
  obtain m where "n = Suc m" using n(1) by (cases n) auto
  moreover have "current_kind rest \<notin> set kinds" using f assms(3) by (auto simp: follows_def)
  ultimately show "level u ex k (parens k e (unparse e) @ rest) = (Inr e, rest)"
    using n(2) assms(2) by (simp add: p_match_miss sm_bind_def)
qed

text \<open>The whole of one left-associative level, from the level above it.\<close>

lemma reads_binary:
  assumes lv: "level u ex k = binary_level kinds op (level u ex (Suc k))" and k: "k \<noteq> 3" "set kinds \<subseteq> set (continues k)"
    and up: "expr_level e \<noteq> k \<Longrightarrow> reads u ex (Suc k) e"
    and sub: "\<And>l q r. e = BinaryExpr l q r \<Longrightarrow> op_level q = k \<Longrightarrow>
      loops kinds op (level u ex (Suc k)) k l \<and> reads u ex (Suc k) r \<and> op_kind q \<in> set kinds \<and> op_kind q \<noteq> TkEOF
      \<and> op (op_token q) = q \<and> op_kind q \<notin> set (continues (Suc k))"
    and binary: "expr_level e = k \<Longrightarrow> \<exists>l q r. e = BinaryExpr l q r"
  shows "loops kinds op (level u ex (Suc k)) k e" and "reads u ex k e"
proof -
  show loops: "loops kinds op (level u ex (Suc k)) k e"
  proof (cases "expr_level e = k")
    case True
    then obtain l q r where e: "e = BinaryExpr l q r" "op_level q = k" using binary by auto
    show ?thesis
      unfolding e(1) using sub [OF e] k(1) e(2)
      by (intro loops_operator) (auto simp: reads_def)
  next
    case False
    then show ?thesis using up by (intro loops_operand) (auto simp: reads_def)
  qed
  show "reads u ex k e" by (rule loops_reads [OF loops lv k(2)])
qed

text \<open>Comparisons.\<close>

lemma reads_comparison:
  assumes up: "expr_level e \<noteq> 3 \<Longrightarrow> reads u ex 4 e" and ex: "expressible u e"
    and cmp: "\<And>l q r. e = BinaryExpr l q r \<Longrightarrow> op_level q = 3 \<Longrightarrow> reads u ex 4 l \<and> reads u ex 4 r"
    and isn: "\<And>x n. e = IsNullExpr x n \<Longrightarrow> reads u ex 4 x"
  shows "reads u ex 3 e"
  unfolding reads_def
proof (intro allI impI)
  fix rest assume f: "follows 3 rest"
  have f4: "follows 4 rest" using f follows_mono by simp
  have nx: "current_kind rest \<noteq> TkIS" "current_kind rest \<notin> set (map fst COMPARISONS)"
    using f by (auto simp: follows_def continues_def)
  have add: "p_additive u ex (parens 4 x (unparse x) @ s) = (Inr x, s)" if "reads u ex 4 x" "follows 4 s" for x s
    using that by (simp add: reads_def level_def)
  consider (cmp) l q r where "e = BinaryExpr l q r" "op_level q = 3" | (isn) x n where "e = IsNullExpr x n"
    | (other) "expr_level e \<noteq> 3"
    by (cases e) (auto split: if_splits)
  then show "level u ex 3 (parens 3 e (unparse e) @ rest) = (Inr e, rest)"
  proof cases
    case cmp
    then have q: "q \<in> set comparison_ops" using op_level_cases(4) by blast
    then have k: "map_of COMPARISONS (op_kind q) = Some q" "op_kind q \<noteq> TkEOF" "op_kind q \<noteq> TkIS"
      by (auto simp: comparison_ops_def COMPARISONS_def op_kind_def)
    have "follows 4 (op_token q # s)" for s
      using q by (auto simp: comparison_ops_def follows_def continues_def op_kind_def)
    then show ?thesis
      using cmp assms(3) [OF cmp] add f4 nx k
      by (simp add: level_def parens_def left_level_def p_comparison_def run_simps p_advance_def)
  next
    case isn
    have "follows 4 (kw TkIS # s)" for s by (simp add: follows_def continues_def)
    then show ?thesis
      using isn assms(4) [OF isn] add
      by (cases n) (simp_all add: level_def parens_def p_comparison_def run_simps)
  next
    case other
    have "parens 3 e (unparse e) = parens 4 e (unparse e)" using parens_Suc [OF other] by simp
    moreover have "map_of COMPARISONS (current_kind rest) = None" using nx(2) by (simp add: map_of_eq_None_iff)
    ultimately show ?thesis
      using add [OF up [OF other] f4] nx by (simp add: level_def p_comparison_def run_simps)
  qed
qed

section \<open>Expressions\<close>

lemma level_unfold:
  "level u ex 0 = binary_level [TkOR] (\<lambda>_. ''OR'') (level u ex (Suc 0))"
  "level u ex (Suc 0) = binary_level [TkAND] (\<lambda>_. ''AND'') (level u ex (Suc (Suc 0)))"
  "level u ex 4 = binary_level [TkPLUS, TkMINUS] lexeme_op (level u ex (Suc 4))"
  "level u ex 5 = binary_level [TkSTAR, TkSLASH] lexeme_op (level u ex (Suc 5))"
  by (simp_all add: level_def p_or_def p_and_def p_additive_def p_multiplicative_def)

lemma binary_of_level:
  assumes "expr_level e = k" and "k \<in> {0, 1, 4, 5}"
  shows "\<exists>l q r. e = BinaryExpr l q r"
  using assms by (cases e) (auto split: if_splits)

lemma op_of_level:
  assumes "q \<in> {''OR'', ''AND'', ''+'', ''-'', ''*'', ''/''} \<union> set comparison_ops"
  shows "op_level q = 0 \<Longrightarrow> q = ''OR''" and "op_level q = 1 \<Longrightarrow> q = ''AND''"
    and "op_level q = 4 \<Longrightarrow> q = ''+'' \<or> q = ''-''" and "op_level q = 5 \<Longrightarrow> q = ''*'' \<or> q = ''/''"
  using assms by (auto simp: op_level_def comparison_ops_def)

text \<open>
  All levels of an expression. A level above its own puts it in parentheses, which the nested
  parser must then read.
\<close>

definition reads_upto :: "unicode \<Rightarrow> expr parser \<Rightarrow> nat \<Rightarrow> expr \<Rightarrow> bool" where
  "reads_upto u ex m e \<longleftrightarrow>
     (\<forall>k \<le> m. reads u ex k e)
     \<and> loops [TkOR] (\<lambda>_. ''OR'') (level u ex (Suc 0)) 0 e
     \<and> (1 \<le> m \<longrightarrow> loops [TkAND] (\<lambda>_. ''AND'') (level u ex (Suc (Suc 0))) (Suc 0) e)
     \<and> (4 \<le> m \<longrightarrow> loops [TkPLUS, TkMINUS] lexeme_op (level u ex (Suc 4)) 4 e)
     \<and> (5 \<le> m \<longrightarrow> loops [TkSTAR, TkSLASH] lexeme_op (level u ex (Suc 5)) 5 e)"

lemma reads_levels:
  assumes below: "reads_below u ex (size e)" and ex: "expressible u e"
    and IH: "\<And>x. size x < size e \<Longrightarrow> expressible u x \<Longrightarrow> reads_upto u ex 7 x"
    and m: "m \<le> 7" "m \<le> expr_level e \<or> reads_below u ex (Suc (size e))"
  shows "reads_upto u ex m e"
proof -
  have bin: "reads_upto u ex 7 l \<and> reads_upto u ex 7 r \<and> q \<in> {''OR'', ''AND'', ''+'', ''-'', ''*'', ''/''} \<union> set comparison_ops"
    if "e = BinaryExpr l q r" for l q r
    using that ex IH [of l] IH [of r] by auto
  define need where "need = (\<lambda>k. k \<le> expr_level e \<or> reads_below u ex (Suc (size e)))"
  have next_need: "need (Suc k)" if "need k" "expr_level e \<noteq> k" for k using that by (auto simp: need_def)
  have r7: "reads u ex 7 e" if "need 7"
    by (rule reads_primary [OF below ex]) (use that in \<open>auto simp: need_def\<close>)
  have r6: "reads u ex 6 e" if "need 6"
    by (rule reads_unary [OF _ _ ex]) (use next_need [OF that] r7 ex IH in \<open>auto simp: reads_upto_def\<close>)
  have r5: "loops [TkSTAR, TkSLASH] lexeme_op (level u ex (Suc 5)) 5 e \<and> reads u ex 5 e" if n: "need 5"
  proof -
    have s: "loops [TkSTAR, TkSLASH] lexeme_op (level u ex (Suc 5)) 5 l \<and> reads u ex (Suc 5) r \<and> op_kind q \<in> set [TkSTAR, TkSLASH]
        \<and> op_kind q \<noteq> TkEOF \<and> lexeme_op (op_token q) = q \<and> op_kind q \<notin> set (continues (Suc 5))"
      if "e = BinaryExpr l q r" "op_level q = 5" for l q r
      using bin [OF that(1)] op_of_level(4) [of q] that(2)
      by (auto simp: reads_upto_def op_kind_def lexeme_op_def continues_def)
    have "expr_level e \<noteq> 5 \<Longrightarrow> reads u ex (Suc 5) e" using r6 next_need [OF n] by simp
    then show ?thesis
      using reads_binary [OF level_unfold(4), where e = e] s binary_of_level [of e 5] by (simp add: continues_def)
  qed
  have r4: "loops [TkPLUS, TkMINUS] lexeme_op (level u ex (Suc 4)) 4 e \<and> reads u ex 4 e" if n: "need 4"
  proof -
    have s: "loops [TkPLUS, TkMINUS] lexeme_op (level u ex (Suc 4)) 4 l \<and> reads u ex (Suc 4) r \<and> op_kind q \<in> set [TkPLUS, TkMINUS]
        \<and> op_kind q \<noteq> TkEOF \<and> lexeme_op (op_token q) = q \<and> op_kind q \<notin> set (continues (Suc 4))"
      if "e = BinaryExpr l q r" "op_level q = 4" for l q r
      using bin [OF that(1)] op_of_level(3) [of q] that(2)
      by (auto simp: reads_upto_def op_kind_def lexeme_op_def continues_def)
    have "expr_level e \<noteq> 4 \<Longrightarrow> reads u ex (Suc 4) e" using r5 next_need [OF n] by simp
    then show ?thesis
      using reads_binary [OF level_unfold(3), where e = e] s binary_of_level [of e 4] by (simp add: continues_def)
  qed
  have r3: "reads u ex 3 e" if "need 3"
    by (rule reads_comparison [OF _ ex]) (use next_need [OF that] r4 bin ex IH in \<open>auto simp: reads_upto_def\<close>)
  have r2: "reads u ex 2 e" if "need 2"
    by (rule reads_not) (use next_need [OF that] r3 ex IH in \<open>auto simp: reads_upto_def\<close>)
  have r1: "loops [TkAND] (\<lambda>_. ''AND'') (level u ex (Suc (Suc 0))) (Suc 0) e \<and> reads u ex (Suc 0) e" if n: "need (Suc 0)"
  proof -
    have s: "loops [TkAND] (\<lambda>_. ''AND'') (level u ex (Suc (Suc 0))) (Suc 0) l \<and> reads u ex (Suc (Suc 0)) r \<and> op_kind q \<in> set [TkAND]
        \<and> op_kind q \<noteq> TkEOF \<and> ''AND'' = q \<and> op_kind q \<notin> set (continues (Suc (Suc 0)))"
      if "e = BinaryExpr l q r" "op_level q = Suc 0" for l q r
      using bin [OF that(1)] op_of_level(2) [of q] that(2)
      by (auto simp: reads_upto_def op_kind_def continues_def COMPARISONS_def)
    have "expr_level e \<noteq> Suc 0 \<Longrightarrow> reads u ex (Suc (Suc 0)) e" using r2 next_need [OF n] by (simp add: numeral_2_eq_2)
    note up = this
    have c: "Suc 0 \<noteq> 3" "set [TkAND] \<subseteq> set (continues (Suc 0))" by (simp_all add: continues_def)
    have b: "\<exists>l q r. e = BinaryExpr l q r" if "expr_level e = Suc 0" using binary_of_level [OF that] by simp
    show ?thesis using reads_binary [OF level_unfold(2) c up s b] by blast
  qed
  have r0: "loops [TkOR] (\<lambda>_. ''OR'') (level u ex (Suc 0)) 0 e \<and> reads u ex 0 e"
  proof -
    have s: "loops [TkOR] (\<lambda>_. ''OR'') (level u ex (Suc 0)) 0 l \<and> reads u ex (Suc 0) r \<and> op_kind q \<in> set [TkOR]
        \<and> op_kind q \<noteq> TkEOF \<and> ''OR'' = q \<and> op_kind q \<notin> set (continues (Suc 0))"
      if "e = BinaryExpr l q r" "op_level q = 0" for l q r
      using bin [OF that(1)] op_of_level(1) [of q] that(2)
      by (auto simp: reads_upto_def op_kind_def continues_def COMPARISONS_def)
    have "need 0" by (simp add: need_def)
    then have "expr_level e \<noteq> 0 \<Longrightarrow> reads u ex (Suc 0) e" using r1 next_need by blast
    note up = this
    have c: "(0::nat) \<noteq> 3" "set [TkOR] \<subseteq> set (continues (0))" by (simp_all add: continues_def)
    have b: "\<exists>l q r. e = BinaryExpr l q r" if "expr_level e = 0" using binary_of_level [OF that] by simp
    show ?thesis using reads_binary [OF level_unfold(1) c up s b] by blast
  qed
  have needs: "need k" if "k \<le> m" for k using that m(2) by (auto simp: need_def)
  have "reads u ex k e" if "k \<le> m" for k
  proof -
    have "k \<in> {0, Suc 0, 2, 3, 4, 5, 6, 7}" using that m(1) by (auto simp: le_Suc_eq numeral_eq_Suc)
    then show ?thesis using r0 r1 r2 r3 r4 r5 r6 r7 needs [OF that] by auto
  qed
  then show ?thesis using r0 r1 r4 r5 needs by (simp add: reads_upto_def)
qed

lemma reads_nested: "reads_below u ex (Suc (size e)) \<Longrightarrow> expressible u e \<Longrightarrow> reads_upto u ex 7 e"
proof (induction "size e" arbitrary: e rule: less_induct)
  case less
  show ?case
  proof (rule reads_levels [OF _ less.prems(2)])
    show "reads_below u ex (size e)" using less.prems(1) by (rule reads_below_mono) simp
    show "reads_upto u ex 7 x" if "size x < size e" "expressible u x" for x
      using that less.prems(1) by (intro less.hyps) (auto elim: reads_below_mono)
  qed (use less.prems in auto)
qed

lemma expression_reads_below: "reads_below u (p_expression u n) n"
proof (induction n)
  case 0
  show ?case by (simp add: reads_below_def)
next
  case (Suc n)
  show ?case
    unfolding reads_below_def
  proof (intro allI impI)
    fix e rest assume e: "size e < Suc n" "expressible u e" "follows 0 rest"
    have "reads_upto u (p_expression u n) 0 e"
    proof (rule reads_levels [OF _ e(2)])
      show "reads_below u (p_expression u n) (size e)" using Suc.IH by (rule reads_below_mono) (use e(1) in simp)
      show "reads_upto u (p_expression u n) 7 x" if "size x < size e" "expressible u x" for x
        using that e(1) by (intro reads_nested reads_below_mono [OF Suc.IH]) auto
    qed auto
    then have "level u (p_expression u n) 0 (parens 0 e (unparse e) @ rest) = (Inr e, rest)"
      using e(3) by (simp add: reads_upto_def reads_def)
    then show "p_expression u (Suc n) (unparse e @ rest) = (Inr e, rest)" by (simp add: level_def parens_def)
  qed
qed

text \<open>
  Claim C17. Precedence and associativity. Print any expression with parentheses only where the grammar
  needs them and follow it with anything that cannot continue an expression: the parser reads
  back exactly that expression and stops there.
\<close>

theorem parse_unparse_expression:
  assumes "expressible u e" and "size e < n" and "follows 0 rest"
  shows "p_expression u n (unparse e @ rest) = (Inr e, rest)"
  using expression_reads_below [of u n] assms by (simp add: reads_below_def)

theorem parse_unparse_expression_witness:
  "let e = BinaryExpr (BinaryExpr (Literal (ScInt 1)) ''-'' (Literal (ScInt 2))) ''*''
             (UnaryExpr ''-'' (ColumnRef [97] None));
       ts = [kw TkLPAREN, literal_token (ScInt 1), op_token ''-'', literal_token (ScInt 2), kw TkRPAREN,
             op_token ''*'', op_token ''-'', ident [97], kw TkEOF]
   in p_expression ascii_only 10 ts = (Inr e, [kw TkEOF])"
  using parse_unparse_expression [of ascii_only "BinaryExpr (BinaryExpr (Literal (ScInt 1)) ''-'' (Literal (ScInt 2))) ''*''
             (UnaryExpr ''-'' (ColumnRef [97] None))" 10 "[kw TkEOF]"]
  by (simp add: Let_def parens_def left_level_def op_level_def comparison_ops_def follows_def continues_def COMPARISONS_def
      del: p_expression.simps)

end
