(* ===== verification/Sql_Bound.thy ===== *)
theory Sql_Bound
  imports Sql_Parser
begin

text \<open>
  \<open>sql/bound.py\<close> and the execution rows of \<open>row.py\<close>: the catalog-resolved, typed
  statements the binder produces, Python's structural equality of typed expressions, and the
  rows the executor evaluates them on. Shows that this equality is symmetric and never
  identifies expressions of different type or nullability, and what merging two rows yields.
\<close>

section \<open>Typed expressions\<close>

datatype bound_expr =
    BoundLiteral scalar "data_type option" bool
  | BoundColumn column_binding pystr data_type bool
  | BoundCast bound_expr data_type bool
  | BoundUnary string bound_expr data_type bool
  | BoundBinary bound_expr string bound_expr data_type bool
  | BoundIsNull bound_expr bool
  | BoundFunction pystr "bound_expr list" data_type bool bool

text \<open>The fields \<open>data_type\<close> and \<open>nullable\<close> every typed expression has.\<close>

fun bx_type :: "bound_expr \<Rightarrow> data_type option" where
  "bx_type (BoundLiteral v t n) = t"
| "bx_type (BoundColumn b c t n) = Some t"
| "bx_type (BoundCast e t n) = Some t"
| "bx_type (BoundUnary q e t n) = Some t"
| "bx_type (BoundBinary l q r t n) = Some t"
| "bx_type (BoundIsNull e negated) = Some BOOLEAN"
| "bx_type (BoundFunction f args t n star) = Some t"

fun bx_nullable :: "bound_expr \<Rightarrow> bool" where
  "bx_nullable (BoundLiteral v t n) = n"
| "bx_nullable (BoundColumn b c t n) = n"
| "bx_nullable (BoundCast e t n) = n"
| "bx_nullable (BoundUnary q e t n) = n"
| "bx_nullable (BoundBinary l q r t n) = n"
| "bx_nullable (BoundIsNull e negated) = False"
| "bx_nullable (BoundFunction f args t n star) = n"

section \<open>Statements\<close>

datatype bound_table = BoundTable (bt_metadata: table_metadata) (bt_alias: pystr)

datatype bound_join = BoundJoin (bj_table: bound_table) (bj_condition: bound_expr)

datatype bound_select_item = BoundSelectItem (bsi_expression: bound_expr) (bsi_name: pystr)

datatype bound_order_item =
  BoundOrderItem (boi_expression: bound_expr) (boi_direction: string) (boi_nulls: "string option")

datatype bound_assignment = BoundAssignment (ba_column: column) (ba_expression: bound_expr)

record bound_select =
  bs_items :: "bound_select_item list"
  bs_from :: "bound_table option"
  bs_joins :: "bound_join list"
  bs_where :: "bound_expr option"
  bs_group_by :: "bound_expr list"
  bs_order_by :: "bound_order_item list"
  bs_limit :: "int option"

datatype bound_statement =
    BoundSelect bound_select
  | BoundInsert table_metadata "column list" "bound_expr list list"
  | BoundUpdate table_metadata "bound_assignment list" "bound_expr option"
  | BoundDelete table_metadata "bound_expr option"
  | BoundCreateTable pystr "column_definition list"
  | BoundCreateIndex pystr table_metadata "column list" bool
  | BoundExplain bound_statement bool
  | BoundAnalyze "table_metadata option"
  | BoundVacuum "table_metadata option"
  | BoundBegin
  | BoundCommit
  | BoundRollback

section \<open>Equality\<close>

text \<open>
  Python's \<open>==\<close> on two scalars of any types: booleans are the integers 0 and 1, an
  integer equals a double of the same value, both zeros are equal. (\<open>NaN\<close> is equal to
  nothing here; Python's shortcut for identical objects does not matter, since no literal is
  a \<open>NaN\<close>.)
\<close>

fun int_value :: "scalar \<Rightarrow> int option" where
  "int_value (ScInt i) = Some i"
| "int_value (ScBool b) = Some (if b then 1 else 0)"
| "int_value _ = None"

definition int_float_eq :: "int \<Rightarrow> float64 \<Rightarrow> bool" where
  "int_float_eq i f \<longleftrightarrow> \<not> f64_is_nan f \<and> \<not> f64_is_inf f \<and> f64_scaled f = i * 2 ^ 1074"

fun scalar_eq :: "scalar \<Rightarrow> scalar \<Rightarrow> bool" where
  "scalar_eq ScNone b = (b = ScNone)"
| "scalar_eq (ScStr s) b = (b = ScStr s)"
| "scalar_eq (ScFloat f) (ScFloat g) = f64_eq f g"
| "scalar_eq (ScFloat f) b = (case int_value b of None \<Rightarrow> False | Some i \<Rightarrow> int_float_eq i f)"
| "scalar_eq a (ScFloat g) = (case int_value a of None \<Rightarrow> False | Some i \<Rightarrow> int_float_eq i g)"
| "scalar_eq a b = (case int_value b of None \<Rightarrow> False | Some i \<Rightarrow> int_value a = Some i)"

text \<open>The equality that \<open>@dataclass\<close> generates: the same class, and equal fields.\<close>

fun bound_eq :: "bound_expr \<Rightarrow> bound_expr \<Rightarrow> bool" and bound_eqs :: "bound_expr list \<Rightarrow> bound_expr list \<Rightarrow> bool" where
  "bound_eq (BoundLiteral v t n) (BoundLiteral v' t' n') = (scalar_eq v v' \<and> t = t' \<and> n = n')"
| "bound_eq (BoundColumn b c t n) (BoundColumn b' c' t' n') = (b = b' \<and> c = c' \<and> t = t' \<and> n = n')"
| "bound_eq (BoundCast e t n) (BoundCast e' t' n') = (bound_eq e e' \<and> t = t' \<and> n = n')"
| "bound_eq (BoundUnary q e t n) (BoundUnary q' e' t' n') = (q = q' \<and> bound_eq e e' \<and> t = t' \<and> n = n')"
| "bound_eq (BoundBinary l q r t n) (BoundBinary l' q' r' t' n') =
     (bound_eq l l' \<and> q = q' \<and> bound_eq r r' \<and> t = t' \<and> n = n')"
| "bound_eq (BoundIsNull e g) (BoundIsNull e' g') = (bound_eq e e' \<and> g = g')"
| "bound_eq (BoundFunction f args t n star) (BoundFunction f' args' t' n' star') =
     (f = f' \<and> bound_eqs args args' \<and> t = t' \<and> n = n' \<and> star = star')"
| "bound_eq _ _ = False"
| "bound_eqs [] [] = True"
| "bound_eqs (e # es) (e' # es') = (bound_eq e e' \<and> bound_eqs es es')"
| "bound_eqs _ _ = False"

lemma bound_eq_fields: "bound_eq e e' \<Longrightarrow> bx_type e = bx_type e' \<and> bx_nullable e = bx_nullable e'"
  by (cases e; cases e') auto

lemma scalar_eq_sym: "scalar_eq a b = scalar_eq b a"
  by (cases a; cases b) (auto simp: f64_eq_def)

lemma bound_eq_sym: "bound_eq e e' \<Longrightarrow> bound_eq e' e" and bound_eqs_sym: "bound_eqs es es' \<Longrightarrow> bound_eqs es' es"
  by (induction e e' and es es' rule: bound_eq_bound_eqs.induct) (auto simp: scalar_eq_sym)

section \<open>Execution rows\<close>

text \<open>
  The keys of \<open>computed\<close>: expressions already evaluated below, and output positions
  (\<open>OutputSlot\<close> of \<open>executor/base.py\<close>).
\<close>

datatype row_key = KeyExpr bound_expr | OutputSlot nat

fun key_eq :: "row_key \<Rightarrow> row_key \<Rightarrow> bool" where
  "key_eq (KeyExpr e) (KeyExpr e') = bound_eq e e'"
| "key_eq (OutputSlot i) (OutputSlot j) = (i = j)"
| "key_eq _ _ = False"

text \<open>Dictionaries in insertion order; \<open>computed\<close> is looked up by Python's equality.\<close>

record execution_row =
  er_cells :: "(column_binding \<times> scalar) list"
  er_tids :: "(int \<times> tid) list"
  er_computed :: "(row_key \<times> scalar) list"

definition computed_get :: "(row_key \<times> scalar) list \<Rightarrow> row_key \<Rightarrow> scalar option" where
  "computed_get computed k = map_option snd (find (\<lambda>(k', v). key_eq k k') computed)"

text \<open>\<open>computed[key] = value\<close>: an equal key keeps its place and its key object.\<close>

fun computed_set :: "(row_key \<times> scalar) list \<Rightarrow> row_key \<Rightarrow> scalar \<Rightarrow> (row_key \<times> scalar) list" where
  "computed_set [] k v = [(k, v)]"
| "computed_set ((k', v') # rest) k v =
     (if key_eq k k' then (k', v) # rest else (k', v') # computed_set rest k v)"

definition row_merge :: "execution_row \<Rightarrow> execution_row \<Rightarrow> execution_row result" where
  "row_merge a b =
     (if list_ex (\<lambda>(k, _). k \<in> fst ` set (er_cells b)) (er_cells a) then Inl PyValueError
      else if list_ex (\<lambda>(k, _). k \<in> fst ` set (er_tids b)) (er_tids a) then Inl PyValueError
      else if list_ex (\<lambda>(k, _). computed_get (er_computed b) k \<noteq> None) (er_computed a) then Inl PyValueError
      else Inr \<lparr>er_cells = er_cells a @ er_cells b, er_tids = er_tids a @ er_tids b,
               er_computed = er_computed a @ er_computed b\<rparr>)"

lemma computed_get_Nil [simp]: "computed_get [] k = None"
  by (simp add: computed_get_def)

lemma computed_get_Cons [simp]:
  "computed_get ((k', v) # rest) k = (if key_eq k k' then Some v else computed_get rest k)"
  by (simp add: computed_get_def)

lemma computed_get_append:
  "computed_get (c @ d) k = (case computed_get c k of None \<Rightarrow> computed_get d k | Some v \<Rightarrow> Some v)"
  by (induction c) auto

lemma computed_get_Some: "computed_get c k = Some v \<Longrightarrow> \<exists>k'. (k', v) \<in> set c \<and> key_eq k k'"
  by (induction c) (auto split: if_splits)

lemma row_merge_cells:
  assumes "row_merge a b = Inr r"
  shows "map_of (er_cells r) k = (case map_of (er_cells a) k of None \<Rightarrow> map_of (er_cells b) k | Some v \<Rightarrow> Some v)"
  using assms by (auto simp: row_merge_def map_add_def split: if_splits option.splits)

end
