(* ===== verification/Expressions.thy ===== *)
theory Expressions
  imports Sql_Bound
begin

text \<open>
  \<open>executor/expressions.py\<close>: evaluation of a typed expression on an execution row, with
  the Python operators it applies defined on every scalar. Shows type soundness: on a row that
  supplies its columns, a well-typed expression yields a value of its static type or fails, and
  fails exactly when a divisor is zero or an integer result does not fit in 64 bits, with the
  error of the first such operation; and the exact value of 64-bit integer arithmetic.
\<close>

section \<open>Python's operators on scalars\<close>

text \<open>
  \<open>float(value)\<close>. What \<open>float\<close> makes of a text is the parameter \<open>float_text\<close>; typed
  expressions never ask for it.
\<close>

fun to_float :: "(pystr \<Rightarrow> float64 result) \<Rightarrow> scalar \<Rightarrow> float64 result" where
  "to_float float_text (ScFloat f) = Inr f"
| "to_float float_text (ScInt i) = f64_of_int i"
| "to_float float_text (ScBool b) = f64_of_int (if b then 1 else 0)"
| "to_float float_text (ScStr s) = float_text s"
| "to_float float_text ScNone = Inl PyTypeError"

text \<open>An operand of an operation in which the other operand is a float.\<close>

definition float_operand :: "scalar \<Rightarrow> float64 result" where
  "float_operand = to_float (\<lambda>_. Inl PyTypeError)"

definition py_arith :: "(int \<Rightarrow> int \<Rightarrow> int) \<Rightarrow> (float64 \<Rightarrow> float64 \<Rightarrow> float64) \<Rightarrow> scalar \<Rightarrow> scalar \<Rightarrow> scalar result" where
  "py_arith int_op float_op l r =
     (case (int_value l, int_value r) of
        (Some a, Some b) \<Rightarrow> Inr (ScInt (int_op a b))
      | _ \<Rightarrow> res_bind (float_operand l) (\<lambda>a. res_bind (float_operand r) (\<lambda>b. Inr (ScFloat (float_op a b)))))"

definition py_add :: "scalar \<Rightarrow> scalar \<Rightarrow> scalar result" where
  "py_add l r = (case (l, r) of (ScStr s, ScStr t) \<Rightarrow> Inr (ScStr (s @ t)) | _ \<Rightarrow> py_arith (+) f64_add l r)"

definition py_sub :: "scalar \<Rightarrow> scalar \<Rightarrow> scalar result" where
  "py_sub l r = py_arith (-) f64_sub l r"

definition str_repeat :: "pystr \<Rightarrow> int \<Rightarrow> pystr" where
  "str_repeat s n = concat (replicate (nat n) s)"

definition py_mul :: "scalar \<Rightarrow> scalar \<Rightarrow> scalar result" where
  "py_mul l r =
     (case (l, int_value l, r, int_value r) of
        (ScStr s, _, _, Some n) \<Rightarrow> Inr (ScStr (str_repeat s n))
      | (_, Some n, ScStr s, _) \<Rightarrow> Inr (ScStr (str_repeat s n))
      | _ \<Rightarrow> py_arith (*) f64_mul l r)"

text \<open>\<open>l / r\<close>; two integers are divided exactly, then rounded.\<close>

definition f64_is_zero :: "float64 \<Rightarrow> bool" where
  "f64_is_zero f \<longleftrightarrow> f64_magnitude f = 0"

definition py_truediv :: "scalar \<Rightarrow> scalar \<Rightarrow> scalar result" where
  "py_truediv l r =
     (case (int_value l, int_value r) of
        (Some a, Some b) \<Rightarrow>
          if b = 0 then Inl PyZeroDivisionError
          else (let mag = round_magnitude (nat \<bar>a\<bar> * 2 ^ 1074) (nat \<bar>b\<bar>)
           in if mag = f64_inf_magnitude then Inl PyOverflowError
              else Inr (ScFloat (f64_make ((a < 0) \<noteq> (b < 0)) mag)))
      | _ \<Rightarrow> res_bind (float_operand l) (\<lambda>a. res_bind (float_operand r) (\<lambda>b.
          if f64_is_zero b then Inl PyZeroDivisionError else Inr (ScFloat (f64_div a b)))))"

text \<open>
  The quotient of the magnitudes with the sign put back. On a float the quotient is a float,
  which the check that follows rejects.
\<close>

definition truncated_div :: "scalar \<Rightarrow> scalar \<Rightarrow> scalar result" where
  "truncated_div l r =
     (case (int_value l, int_value r) of
        (Some a, Some b) \<Rightarrow>
          if b = 0 then Inl PyZeroDivisionError
          else (let magnitude = \<bar>a\<bar> div \<bar>b\<bar>
           in Inr (ScInt (if (a < 0) \<noteq> (b < 0) then - magnitude else magnitude)))
      | _ \<Rightarrow> res_bind (float_operand l) (\<lambda>a. res_bind (float_operand r) (\<lambda>b.
          if f64_is_zero b then Inl PyZeroDivisionError else Inl TypeMismatch)))"

fun py_neg :: "scalar \<Rightarrow> scalar result" where
  "py_neg (ScInt i) = Inr (ScInt (- i))"
| "py_neg (ScBool b) = Inr (ScInt (if b then - 1 else 0))"
| "py_neg (ScFloat f) = Inr (ScFloat (f64_neg f))"
| "py_neg _ = Inl PyTypeError"

section \<open>Evaluation\<close>

text \<open>\<open>_unary\<close> and \<open>_binary\<close>, once their operands have been evaluated.\<close>

definition unary_value :: "string \<Rightarrow> data_type \<Rightarrow> scalar \<Rightarrow> scalar result" where
  "unary_value operator data_type v =
     (if operator = ''NOT'' then sql_not v
      else if v = ScNone then Inr ScNone
      else if operator = ''+'' then Inr v
      else if operator = ''-'' then
        (if data_type = INT64 then res_bind (py_neg v) validate_int64 else py_neg v)
      else Inl TypeMismatch)"

definition comparison_operators :: "string list" where
  "comparison_operators = [''='', ''!='', ''<>'', ''<'', ''<='', ''>'', ''>='']"

definition arithmetic_value :: "string \<Rightarrow> data_type \<Rightarrow> scalar \<Rightarrow> scalar \<Rightarrow> scalar result" where
  "arithmetic_value operator data_type l r =
     (if operator = ''+'' then py_add l r
      else if operator = ''-'' then py_sub l r
      else if operator = ''*'' then py_mul l r
      else if operator = ''/'' then
        (if data_type = INT64 then truncated_div l r else py_truediv l r)
      else Inl TypeMismatch)"

definition binary_value :: "(pystr \<Rightarrow> float64 result) \<Rightarrow> string \<Rightarrow> data_type \<Rightarrow> scalar \<Rightarrow> scalar \<Rightarrow> scalar result" where
  "binary_value float_text operator data_type l r =
     (if operator = ''AND'' then sql_and l r
      else if operator = ''OR'' then sql_or l r
      else if operator \<in> set comparison_operators then compare_values operator l r
      else if l = ScNone \<or> r = ScNone then Inr ScNone
      else if operator = ''/'' \<and> scalar_eq r (ScInt 0) then Inl TypeMismatch
      else res_bind (arithmetic_value operator data_type l r) (\<lambda>v.
           if data_type = INT64 then validate_int64 v
           else res_bind (to_float float_text v) (\<lambda>f. Inr (ScFloat f))))"

text \<open>A value already computed for the expression wins over evaluating it.\<close>

definition memo :: "execution_row \<Rightarrow> bound_expr \<Rightarrow> scalar result \<Rightarrow> scalar result" where
  "memo row e r = (case computed_get (er_computed row) (KeyExpr e) of Some v \<Rightarrow> Inr v | None \<Rightarrow> r)"

fun evaluate :: "(pystr \<Rightarrow> float64 result) \<Rightarrow> execution_row \<Rightarrow> bound_expr \<Rightarrow> scalar result" where
  "evaluate ft row (BoundLiteral v t n) = memo row (BoundLiteral v t n) (Inr v)"
| "evaluate ft row (BoundColumn b c t n) = memo row (BoundColumn b c t n)
     (case map_of (er_cells row) b of None \<Rightarrow> Inl TypeMismatch | Some v \<Rightarrow> Inr v)"
| "evaluate ft row (BoundCast e t n) = memo row (BoundCast e t n)
     (res_bind (evaluate ft row e) (\<lambda>v.
      if v = ScNone then Inr ScNone
      else if t = FLOAT64 then res_bind (to_float ft v) (\<lambda>f. Inr (ScFloat f))
      else Inl TypeMismatch))"
| "evaluate ft row (BoundUnary q e t n) = memo row (BoundUnary q e t n)
     (res_bind (evaluate ft row e) (unary_value q t))"
| "evaluate ft row (BoundBinary l q r t n) = memo row (BoundBinary l q r t n)
     (res_bind (evaluate ft row l) (\<lambda>a. res_bind (evaluate ft row r) (\<lambda>b. binary_value ft q t a b)))"
| "evaluate ft row (BoundIsNull e negated) = memo row (BoundIsNull e negated)
     (res_bind (evaluate ft row e) (\<lambda>v. Inr (ScBool ((v = ScNone) \<noteq> negated))))"
| "evaluate ft row (BoundFunction f args t n star) = memo row (BoundFunction f args t n star) (Inl TypeMismatch)"

section \<open>Typing\<close>

text \<open>A value of a static type: \<open>NULL\<close> where that is allowed, an integer within 64 bits.\<close>

definition fits :: "data_type option \<Rightarrow> bool \<Rightarrow> scalar \<Rightarrow> bool" where
  "fits t n v \<longleftrightarrow>
     (if v = ScNone then n
      else infer_type v = t \<and> (case v of ScInt i \<Rightarrow> in_int64 i | _ \<Rightarrow> True))"

fun typed :: "bound_expr \<Rightarrow> bool" where
  "typed (BoundLiteral v t n) = fits t n v"
| "typed (BoundColumn b c t n) = True"
| "typed (BoundCast e t n) = (typed e \<and> bx_type e = Some INT64 \<and> t = FLOAT64 \<and> (bx_nullable e \<longrightarrow> n))"
| "typed (BoundUnary q e t n) =
     (typed e \<and> bx_type e = Some t \<and> (bx_nullable e \<longrightarrow> n)
      \<and> (if q = ''NOT'' then t = BOOLEAN else q \<in> {''+'', ''-''} \<and> is_numeric t))"
| "typed (BoundBinary l q r t n) =
     (typed l \<and> typed r \<and> (bx_nullable l \<or> bx_nullable r \<longrightarrow> n)
      \<and> (if q \<in> {''AND'', ''OR''} then t = BOOLEAN \<and> bx_type l = Some BOOLEAN \<and> bx_type r = Some BOOLEAN
         else if q \<in> set comparison_operators then t = BOOLEAN \<and> bx_type l = bx_type r
         else q \<in> {''+'', ''-'', ''*'', ''/''} \<and> is_numeric t \<and> bx_type l = Some t \<and> bx_type r = Some t))"
| "typed (BoundIsNull e negated) = typed e"
| "typed (BoundFunction f args t n star) =
     (if star then args = [] else case args of [a] \<Rightarrow> typed a | _ \<Rightarrow> False)"

text \<open>
  The row has what the expression needs: every part is computed already, or its columns have
  cells of their types. Computed values must fit the expressions they stand for.
\<close>

fun supplied :: "execution_row \<Rightarrow> bound_expr \<Rightarrow> bool" where
  "supplied row (BoundLiteral v t n) = True"
| "supplied row (BoundColumn b c t n) =
     (computed_get (er_computed row) (KeyExpr (BoundColumn b c t n)) \<noteq> None
      \<or> (case map_of (er_cells row) b of None \<Rightarrow> False | Some v \<Rightarrow> fits (Some t) n v))"
| "supplied row (BoundCast e t n) =
     (computed_get (er_computed row) (KeyExpr (BoundCast e t n)) \<noteq> None \<or> supplied row e)"
| "supplied row (BoundUnary q e t n) =
     (computed_get (er_computed row) (KeyExpr (BoundUnary q e t n)) \<noteq> None \<or> supplied row e)"
| "supplied row (BoundBinary l q r t n) =
     (computed_get (er_computed row) (KeyExpr (BoundBinary l q r t n)) \<noteq> None \<or> supplied row l \<and> supplied row r)"
| "supplied row (BoundIsNull e negated) =
     (computed_get (er_computed row) (KeyExpr (BoundIsNull e negated)) \<noteq> None \<or> supplied row e)"
| "supplied row (BoundFunction f args t n star) =
     (computed_get (er_computed row) (KeyExpr (BoundFunction f args t n star)) \<noteq> None)"

definition computed_fits :: "execution_row \<Rightarrow> bool" where
  "computed_fits row \<longleftrightarrow>
     list_all (\<lambda>(k, v). case k of KeyExpr e \<Rightarrow> fits (bx_type e) (bx_nullable e) v | OutputSlot i \<Rightarrow> True) (er_computed row)"

lemma computed_get_fits:
  assumes "computed_fits row" and "computed_get (er_computed row) (KeyExpr e) = Some v"
  shows "fits (bx_type e) (bx_nullable e) v"
proof -
  obtain k' where k': "(k', v) \<in> set (er_computed row)" "key_eq (KeyExpr e) k'"
    using computed_get_Some [OF assms(2)] by blast
  then obtain e' where e': "k' = KeyExpr e'" "bound_eq e e'" by (cases k') auto
  have "case k' of KeyExpr e \<Rightarrow> fits (bx_type e) (bx_nullable e) v | OutputSlot i \<Rightarrow> True"
    using assms(1) k'(1) by (auto simp: computed_fits_def list_all_iff)
  then show ?thesis using e' bound_eq_fields by auto
qed

section \<open>Widening never overflows\<close>

lemma excess_bits_less: "q \<noteq> 0 \<Longrightarrow> p < 2 ^ (53 + excess_bits p q) * q"
proof (induction p q rule: excess_bits.induct)
  case (1 p q)
  show ?case
  proof (cases "p < 2 ^ 53 * q")
    case True
    then show ?thesis by (simp add: excess_bits.simps [of p q])
  next
    case False
    then have "p < 2 ^ (53 + excess_bits p (2 * q)) * (2 * q)" using 1 by simp
    then show ?thesis using False 1(2) by (simp add: excess_bits.simps [of p q] mult_ac power_add)
  qed
qed

lemma excess_bits_le: "p < 2 ^ (53 + m) * q \<Longrightarrow> excess_bits p q \<le> m"
proof (induction m arbitrary: q)
  case 0
  then show ?case by (simp add: excess_bits.simps [of p q])
next
  case (Suc m)
  show ?case
  proof (cases "q = 0 \<or> p < 2 ^ 53 * q")
    case False
    have "p < 2 ^ (53 + m) * (2 * q)" using Suc.prems by (simp add: mult_ac power_add)
    then show ?thesis using Suc.IH [of "2 * q"] False by (simp add: excess_bits.simps [of p q])
  qed (simp add: excess_bits.simps [of p q])
qed

lemma div_half_even_le: "div_half_even p q \<le> Suc (p div q)"
  by (simp add: div_half_even_def Let_def)

lemma round_magnitude_finite:
  assumes "p < 2 ^ (53 + m)" and "m \<le> 2044"
  shows "round_magnitude p 1 < f64_inf_magnitude"
proof -
  define k where "k = excess_bits p (Suc 0)"
  have k: "k \<le> 2044" using excess_bits_le [of p m "Suc 0"] assms unfolding k_def by simp
  have "p < 2 ^ (53 + k)" using excess_bits_less [of "Suc 0" p] unfolding k_def by simp
  then have "p div 2 ^ k < 2 ^ 53" by (simp add: less_mult_imp_div_less power_add)
  then have "div_half_even p (2 ^ k) \<le> 2 ^ 53" using div_half_even_le [of p "2 ^ k"] by simp
  moreover have "k * 2 ^ 52 \<le> 2044 * 2 ^ 52" using k by simp
  ultimately have "k * 2 ^ 52 + div_half_even p (2 ^ k) < 2047 * 2 ^ 52" by simp
  then show ?thesis by (simp add: round_magnitude_def Let_def k_def [symmetric] f64_inf_magnitude_def)
qed

lemma f64_of_int64: assumes "in_int64 i" shows "\<exists>f. f64_of_int i = Inr f"
proof -
  have "nat \<bar>i\<bar> \<le> 2 ^ 63"
    using assms by (auto simp: in_int64_def INT64_MIN_def INT64_MAX_def)
  then have "nat \<bar>i\<bar> * 2 ^ 1074 \<le> 2 ^ 63 * 2 ^ (1074::nat)" by (rule mult_right_mono) simp
  also have "\<dots> < 2 ^ (53 + 1085)" unfolding power_add [symmetric] by (rule power_strict_increasing) simp_all
  finally have "round_magnitude (nat \<bar>i\<bar> * 2 ^ 1074) 1 < f64_inf_magnitude"
    by (rule round_magnitude_finite) simp
  then show ?thesis by (simp add: f64_of_int_def Let_def)
qed

section \<open>Type soundness\<close>

text \<open>The mathematical result of an operator, with division truncated toward zero.\<close>

definition exact_result :: "string \<Rightarrow> int \<Rightarrow> int \<Rightarrow> int option" where
  "exact_result q a b =
     (if q = ''+'' then Some (a + b) else if q = ''-'' then Some (a - b) else if q = ''*'' then Some (a * b)
      else if q = ''/'' \<and> b \<noteq> 0 then Some (sgn a * sgn b * (\<bar>a\<bar> div \<bar>b\<bar>)) else None)"

text \<open>
  The operations that have no result: a division by zero, an arithmetic result that is no 64-bit
  integer. \<open>NULL\<close> operands make every arithmetic result \<open>NULL\<close>.
\<close>

fun is_zero :: "scalar \<Rightarrow> bool" where
  "is_zero (ScInt i) = (i = 0)"
| "is_zero (ScFloat f) = f64_is_zero f"
| "is_zero _ = False"

definition range_fault :: "int \<Rightarrow> pg_error option" where
  "range_fault k = (if in_int64 k then None else Some NumericOverflow)"

definition unary_fault :: "string \<Rightarrow> scalar \<Rightarrow> pg_error option" where
  "unary_fault q v = (case v of ScInt i \<Rightarrow> if q = ''-'' then range_fault (- i) else None | _ \<Rightarrow> None)"

definition binary_fault :: "string \<Rightarrow> scalar \<Rightarrow> scalar \<Rightarrow> pg_error option" where
  "binary_fault q a b =
     (if q \<notin> {''+'', ''-'', ''*'', ''/''} \<or> a = ScNone \<or> b = ScNone then None
      else if q = ''/'' \<and> is_zero b then Some TypeMismatch
      else case (a, b) of
        (ScInt i, ScInt j) \<Rightarrow> (case exact_result q i j of Some k \<Rightarrow> range_fault k | None \<Rightarrow> None)
      | _ \<Rightarrow> None)"

text \<open>
  The error of the first operation without a result, in the order of evaluation: the parts from
  left to right, then the operator on their values. Nothing is evaluated for a computed value.
\<close>

definition then_fault :: "pg_error option \<Rightarrow> scalar result \<Rightarrow> (scalar \<Rightarrow> pg_error option) \<Rightarrow> pg_error option" where
  "then_fault earlier r later =
     (case earlier of Some err \<Rightarrow> Some err | None \<Rightarrow> (case r of Inr v \<Rightarrow> later v | Inl err \<Rightarrow> None))"

definition unless_computed :: "execution_row \<Rightarrow> bound_expr \<Rightarrow> pg_error option \<Rightarrow> pg_error option" where
  "unless_computed row e fo = (if computed_get (er_computed row) (KeyExpr e) = None then fo else None)"

fun fault :: "(pystr \<Rightarrow> float64 result) \<Rightarrow> execution_row \<Rightarrow> bound_expr \<Rightarrow> pg_error option" where
  "fault ft row (BoundLiteral v t n) = None"
| "fault ft row (BoundColumn b c t n) = None"
| "fault ft row (BoundCast e t n) = unless_computed row (BoundCast e t n) (fault ft row e)"
| "fault ft row (BoundUnary q e t n) = unless_computed row (BoundUnary q e t n)
     (then_fault (fault ft row e) (evaluate ft row e) (unary_fault q))"
| "fault ft row (BoundBinary l q r t n) = unless_computed row (BoundBinary l q r t n)
     (then_fault (fault ft row l) (evaluate ft row l) (\<lambda>a.
      then_fault (fault ft row r) (evaluate ft row r) (\<lambda>b. binary_fault q a b)))"
| "fault ft row (BoundIsNull e negated) = unless_computed row (BoundIsNull e negated) (fault ft row e)"
| "fault ft row (BoundFunction f args t n star) = None"

text \<open>What an evaluation ends with: a value of the static type if there is no fault, else its error.\<close>

definition sound :: "data_type option \<Rightarrow> bool \<Rightarrow> pg_error option \<Rightarrow> scalar result \<Rightarrow> bool" where
  "sound t n fo r = (case r of Inr v \<Rightarrow> fits t n v \<and> fo = None | Inl err \<Rightarrow> fo = Some err)"

lemma sound_Inr [simp]: "sound t n fo (Inr v) \<longleftrightarrow> fits t n v \<and> fo = None"
  by (simp add: sound_def)

lemma sound_Inl [simp]: "sound t n fo (Inl err) \<longleftrightarrow> fo = Some err"
  by (simp add: sound_def)

lemma sound_nullable: "sound t n fo r \<Longrightarrow> (n \<Longrightarrow> n') \<Longrightarrow> sound t n' fo r"
  by (auto simp: sound_def fits_def split: sum.splits if_splits)

lemma sound_bind:
  "sound t n fo r \<Longrightarrow> (\<And>v. fits t n v \<Longrightarrow> sound t' n' (later v) (f v)) \<Longrightarrow>
   sound t' n' (then_fault fo r later) (res_bind r f)"
  by (cases r) (auto simp: then_fault_def)

lemma then_fault_none [simp]: "then_fault fo r (\<lambda>_. None) = fo"
  by (simp add: then_fault_def split: option.splits sum.splits)

lemma fits_NoneI [simp]: "fits t n ScNone = n"
  by (simp add: fits_def)

lemma fits_cases:
  "fits (Some INT64) n v \<Longrightarrow> v \<noteq> ScNone \<Longrightarrow> \<exists>i. v = ScInt i \<and> in_int64 i"
  "fits (Some FLOAT64) n v \<Longrightarrow> v \<noteq> ScNone \<Longrightarrow> \<exists>f. v = ScFloat f"
  "fits (Some BOOLEAN) n v \<Longrightarrow> v \<noteq> ScNone \<Longrightarrow> \<exists>b. v = ScBool b"
  "fits (Some TEXT) n v \<Longrightarrow> v \<noteq> ScNone \<Longrightarrow> \<exists>s. v = ScStr s"
  "fits None n v \<Longrightarrow> v = ScNone"
  by (cases v; simp add: fits_def)+

lemma fits_simps [simp]:
  "fits t n (ScInt i) = (t = Some INT64 \<and> in_int64 i)" "fits t n (ScFloat f) = (t = Some FLOAT64)"
  "fits t n (ScBool b) = (t = Some BOOLEAN)" "fits t n (ScStr s) = (t = Some TEXT)"
  by (auto simp: fits_def)

lemma validate_int64_sound [simp]: "sound (Some INT64) n (range_fault i) (validate_int64 (ScInt i))"
  by (auto simp: in_int64_def range_fault_def)

lemma to_float_sound: "fits (Some INT64) n v \<Longrightarrow> v \<noteq> ScNone \<Longrightarrow> \<exists>f. to_float ft v = Inr f"
  using fits_cases(1) [of n v] f64_of_int64 by fastforce

lemma unary_sound:
  assumes "fits (Some t) n v" and "if q = ''NOT'' then t = BOOLEAN else q \<in> {''+'', ''-''} \<and> is_numeric t"
  shows "sound (Some t) n (unary_fault q v) (unary_value q t v)"
proof (cases "v = ScNone")
  case True
  then show ?thesis using assms by (simp add: unary_value_def unary_fault_def sql_not_def split: if_splits)
next
  case False
  then show ?thesis
    using assms by (cases t)
      (auto simp: unary_value_def unary_fault_def sql_not_def is_numeric_def split: if_splits dest: fits_cases
        simp del: validate_int64.simps)
qed

lemma logic_sound:
  assumes "fits (Some BOOLEAN) n v" and "fits (Some BOOLEAN) m w"
  shows "sound (Some BOOLEAN) (n \<or> m) None (sql_and v w)" and "sound (Some BOOLEAN) (n \<or> m) None (sql_or v w)"
  using assms by (cases v; cases w; simp add: sql_and_def sql_or_def)+

lemma compare_operator_sound:
  "q \<in> set comparison_operators \<Longrightarrow> sound (Some BOOLEAN) n None (compare_operator q l r)"
  by (auto simp: comparison_operators_def compare_operator_def)

lemma comparison_sound:
  assumes "fits t n v" and "fits t m w" and q: "q \<in> set comparison_operators"
  shows "sound (Some BOOLEAN) (n \<or> m) None (compare_values q v w)"
proof (cases "v = ScNone \<or> w = ScNone")
  case True
  then show ?thesis using assms by (cases v; cases w) (auto simp: compare_values_def)
next
  case False
  then show ?thesis
    using assms(1,2) compare_operator_sound [OF q]
    by (cases v; cases w) (auto simp: compare_values_def widen_numeric_pair_def is_numeric_def in_int64_def)
qed

lemma binary_value_arithmetic:
  assumes "q \<in> {''+'', ''-'', ''*'', ''/''}"
  shows "binary_value ft q t l r =
     (if l = ScNone \<or> r = ScNone then Inr ScNone
      else if q = ''/'' \<and> scalar_eq r (ScInt 0) then Inl TypeMismatch
      else res_bind (arithmetic_value q t l r) (\<lambda>v.
           if t = INT64 then validate_int64 v else res_bind (to_float ft v) (\<lambda>f. Inr (ScFloat f))))"
proof -
  have "q \<noteq> ''AND''" "q \<noteq> ''OR''" "q \<notin> set comparison_operators"
    using assms by (auto simp: comparison_operators_def)
  then show ?thesis by (simp add: binary_value_def)
qed

lemma float_eq_zero: "scalar_eq (ScFloat f) (ScInt 0) = f64_is_zero f"
  by (auto simp: int_float_eq_def f64_scaled_def f64_is_zero_def f64_is_nan_def f64_is_inf_def f64_inf_magnitude_def)

lemma integer_value:
  assumes "q \<in> {''+'', ''-'', ''*'', ''/''}"
  shows "binary_value ft q INT64 (ScInt a) (ScInt b) =
     (case exact_result q a b of
        None \<Rightarrow> Inl TypeMismatch
      | Some c \<Rightarrow> if in_int64 c then Inr (ScInt c) else Inl NumericOverflow)"
proof (cases "q = ''/''")
  case True
  have "(if (a < 0) \<noteq> (b < 0) then - (\<bar>a\<bar> div \<bar>b\<bar>) else \<bar>a\<bar> div \<bar>b\<bar>) = sgn a * sgn b * (\<bar>a\<bar> div \<bar>b\<bar>)" if "b \<noteq> 0"
    using that by (cases "a = 0") (auto simp: sgn_if)
  then show ?thesis
    using True by (auto simp: binary_value_arithmetic arithmetic_value_def truncated_div_def exact_result_def Let_def
        in_int64_def)
next
  case False
  then show ?thesis
    using assms by (auto simp: binary_value_arithmetic arithmetic_value_def exact_result_def py_add_def py_sub_def
        py_mul_def py_arith_def in_int64_def)
qed

lemma arithmetic_sound:
  assumes "fits (Some t) n v" and "fits (Some t) m w" and "is_numeric t" and q: "q \<in> {''+'', ''-'', ''*'', ''/''}"
  shows "sound (Some t) (n \<or> m) (binary_fault q v w) (binary_value ft q t v w)"
proof (cases "v = ScNone \<or> w = ScNone")
  case True
  then show ?thesis
    unfolding binary_value_arithmetic [OF q] binary_fault_def using assms(1,2) by auto
next
  case False
  consider "t = INT64" | "t = FLOAT64" using assms(3) by (auto simp: is_numeric_def)
  then show ?thesis
  proof cases
    case 1
    then obtain i j where v: "v = ScInt i" "w = ScInt j" using False assms(1,2) fits_cases(1) by metis
    have none: "exact_result q i j = None \<longleftrightarrow> q = ''/'' \<and> j = 0" using q by (auto simp: exact_result_def)
    show ?thesis
      unfolding v 1 integer_value [OF q] binary_fault_def using q none
      by (auto simp: range_fault_def split: option.splits)
  next
    case 2
    then obtain f g where v: "v = ScFloat f" "w = ScFloat g" using False assms(1,2) fits_cases(2) by metis
    show ?thesis
      unfolding binary_value_arithmetic [OF q] v float_eq_zero binary_fault_def using q 2
      by (auto simp: arithmetic_value_def py_add_def py_sub_def py_mul_def
          py_truediv_def py_arith_def float_operand_def)
  qed
qed

lemma binary_sound:
  assumes "typed (BoundBinary l q r t n)" and "fits (bx_type l) (bx_nullable l) a" and "fits (bx_type r) (bx_nullable r) b"
  shows "sound (Some t) n (binary_fault q a b) (binary_value ft q t a b)"
proof -
  have n: "bx_nullable l \<or> bx_nullable r \<Longrightarrow> n" using assms(1) by auto
  have "sound (Some t) (bx_nullable l \<or> bx_nullable r) (binary_fault q a b) (binary_value ft q t a b)"
  proof (cases "q \<in> {''AND'', ''OR''}")
    case True
    then have "binary_fault q a b = None" by (auto simp: binary_fault_def)
    then show ?thesis
      using True assms logic_sound [of "bx_nullable l" a "bx_nullable r" b] by (auto simp: binary_value_def)
  next
    case logic: False
    show ?thesis
    proof (cases "q \<in> set comparison_operators")
      case True
      then have "binary_fault q a b = None" by (auto simp: binary_fault_def comparison_operators_def)
      then show ?thesis
        using True logic assms comparison_sound [OF _ _ True, of "bx_type r" "bx_nullable l" a "bx_nullable r" b]
        by (simp add: binary_value_def)
    next
      case False
      then show ?thesis
        using logic assms by (intro arithmetic_sound) auto
    qed
  qed
  then show ?thesis by (rule sound_nullable) (use n in auto)
qed

lemma memo_sound:
  assumes "computed_fits row" and "computed_get (er_computed row) (KeyExpr e) = None \<Longrightarrow> sound (bx_type e) (bx_nullable e) fo r"
  shows "sound (bx_type e) (bx_nullable e) (unless_computed row e fo) (memo row e r)"
  using assms by (auto simp: memo_def unless_computed_def computed_get_fits split: option.splits)

lemma unless_computed_None [simp]: "unless_computed row e None = None"
  by (simp add: unless_computed_def)

lemma evaluate_sound_aux:
  assumes row: "computed_fits row"
  shows "typed e \<Longrightarrow> supplied row e \<Longrightarrow> sound (bx_type e) (bx_nullable e) (fault ft row e) (evaluate ft row e)"
proof (induction e)
  case (BoundLiteral v t n)
  then show ?case using memo_sound [OF row, of "BoundLiteral v t n" None "Inr v"] by simp
next
  case (BoundColumn b c t n)
  then show ?case
    using memo_sound [OF row, of "BoundColumn b c t n" None
        "case map_of (er_cells row) b of None \<Rightarrow> Inl TypeMismatch | Some v \<Rightarrow> Inr v"]
    by (auto split: option.splits)
next
  case (BoundCast e t n)
  show ?case
    unfolding evaluate.simps fault.simps
  proof (rule memo_sound [OF row])
    assume "computed_get (er_computed row) (KeyExpr (BoundCast e t n)) = None"
    then have s: "sound (Some INT64) (bx_nullable e) (fault ft row e) (evaluate ft row e)"
      using BoundCast by simp
    have "sound (Some FLOAT64) n None (if v = ScNone then Inr ScNone
        else if t = FLOAT64 then res_bind (to_float ft v) (\<lambda>f. Inr (ScFloat f)) else Inl TypeMismatch)"
      if "fits (Some INT64) (bx_nullable e) v" for v
      using that BoundCast.prems(1) to_float_sound [of "bx_nullable e" v ft] by fastforce
    then have "sound (Some FLOAT64) n (then_fault (fault ft row e) (evaluate ft row e) (\<lambda>_. None))
        (res_bind (evaluate ft row e) (\<lambda>v. if v = ScNone then Inr ScNone
           else if t = FLOAT64 then res_bind (to_float ft v) (\<lambda>f. Inr (ScFloat f)) else Inl TypeMismatch))"
      by (rule sound_bind [OF s])
    then show "sound (bx_type (BoundCast e t n)) (bx_nullable (BoundCast e t n)) (fault ft row e)
        (res_bind (evaluate ft row e) (\<lambda>v. if v = ScNone then Inr ScNone
           else if t = FLOAT64 then res_bind (to_float ft v) (\<lambda>f. Inr (ScFloat f)) else Inl TypeMismatch))"
      using BoundCast.prems(1) by simp
  qed
next
  case (BoundUnary q e t n)
  show ?case
    unfolding evaluate.simps fault.simps
  proof (rule memo_sound [OF row])
    assume "computed_get (er_computed row) (KeyExpr (BoundUnary q e t n)) = None"
    then have s: "sound (Some t) (bx_nullable e) (fault ft row e) (evaluate ft row e)"
      using BoundUnary by simp
    have "sound (Some t) (bx_nullable e) (unary_fault q v) (unary_value q t v)" if "fits (Some t) (bx_nullable e) v" for v
      using that BoundUnary.prems(1) by (intro unary_sound) auto
    then have "sound (Some t) (bx_nullable e) (then_fault (fault ft row e) (evaluate ft row e) (unary_fault q))
        (res_bind (evaluate ft row e) (unary_value q t))"
      by (rule sound_bind [OF s])
    then show "sound (bx_type (BoundUnary q e t n)) (bx_nullable (BoundUnary q e t n))
        (then_fault (fault ft row e) (evaluate ft row e) (unary_fault q)) (res_bind (evaluate ft row e) (unary_value q t))"
      using BoundUnary.prems(1) by (auto elim: sound_nullable)
  qed
next
  case (BoundBinary l q r t n)
  show ?case
    unfolding evaluate.simps fault.simps
  proof (rule memo_sound [OF row])
    assume "computed_get (er_computed row) (KeyExpr (BoundBinary l q r t n)) = None"
    then have lr: "sound (bx_type l) (bx_nullable l) (fault ft row l) (evaluate ft row l)"
      "sound (bx_type r) (bx_nullable r) (fault ft row r) (evaluate ft row r)"
      using BoundBinary by auto
    show "sound (bx_type (BoundBinary l q r t n)) (bx_nullable (BoundBinary l q r t n))
        (then_fault (fault ft row l) (evaluate ft row l) (\<lambda>a.
         then_fault (fault ft row r) (evaluate ft row r) (\<lambda>b. binary_fault q a b)))
        (res_bind (evaluate ft row l) (\<lambda>a. res_bind (evaluate ft row r) (\<lambda>b. binary_value ft q t a b)))"
      by (rule sound_bind [OF lr(1)], rule sound_bind [OF lr(2)])
        (simp add: binary_sound [OF BoundBinary.prems(1)])
  qed
next
  case (BoundIsNull e negated)
  show ?case
    unfolding evaluate.simps fault.simps
  proof (rule memo_sound [OF row])
    assume "computed_get (er_computed row) (KeyExpr (BoundIsNull e negated)) = None"
    then have s: "sound (bx_type e) (bx_nullable e) (fault ft row e) (evaluate ft row e)" using BoundIsNull by simp
    show "sound (bx_type (BoundIsNull e negated)) (bx_nullable (BoundIsNull e negated)) (fault ft row e)
        (res_bind (evaluate ft row e) (\<lambda>v. Inr (ScBool ((v = ScNone) \<noteq> negated))))"
      using sound_bind [OF s, of "Some BOOLEAN" False "\<lambda>_. None" "\<lambda>v. Inr (ScBool ((v = ScNone) \<noteq> negated))"] by simp
  qed
next
  case (BoundFunction f args t n star)
  then obtain v where v: "computed_get (er_computed row) (KeyExpr (BoundFunction f args t n star)) = Some v" by auto
  then show ?case using computed_get_fits [OF row v] by (simp add: memo_def)
qed

text \<open>
  Claim C13. Type soundness. On a row that supplies its columns and aggregates, a well-typed
  expression evaluates to a value of its static type (64-bit integers included), \<open>NULL\<close> only
  where its type allows it, if no operation on the way divides by zero or leaves the 64-bit
  integers; otherwise it fails with the error of the first that does, a type mismatch for a zero
  divisor and an overflow for the range.
\<close>

theorem evaluate_sound:
  assumes "typed e" and "supplied row e" and "computed_fits row"
  shows "case evaluate float_text row e of
           Inr v \<Rightarrow> fits (bx_type e) (bx_nullable e) v \<and> fault float_text row e = None
         | Inl err \<Rightarrow> fault float_text row e = Some err"
  using evaluate_sound_aux [OF assms(3,1,2)] by (simp add: sound_def)

theorem evaluate_sound_witness:
  "let e = \<lambda>d. BoundBinary (BoundColumn (ColumnBinding 1 0) [97] INT64 True) ''/'' (BoundLiteral (ScInt d) (Some INT64) False) INT64 True;
       row = \<lparr>er_cells = [(ColumnBinding 1 0, ScInt (- 7))], er_tids = [], er_computed = []\<rparr>
   in evaluate (\<lambda>_. Inl PyValueError) row (e 2) = Inr (ScInt (- 3)) \<and> fault (\<lambda>_. Inl PyValueError) row (e 2) = None
      \<and> evaluate (\<lambda>_. Inl PyValueError) row (e 0) = Inl TypeMismatch
      \<and> fault (\<lambda>_. Inl PyValueError) row (e 0) = Some TypeMismatch"
proof -
  let ?e = "\<lambda>d. BoundBinary (BoundColumn (ColumnBinding 1 0) [97] INT64 True) ''/'' (BoundLiteral (ScInt d) (Some INT64) False) INT64 True"
  let ?row = "\<lparr>er_cells = [(ColumnBinding 1 0, ScInt (- 7))], er_tids = [], er_computed = []\<rparr>"
  let ?ft = "\<lambda>_. Inl PyValueError"
  have ev: "evaluate ?ft ?row (?e 2) = Inr (ScInt (- 3))" "evaluate ?ft ?row (?e 0) = Inl TypeMismatch"
    by (simp_all add: memo_def binary_value_def comparison_operators_def arithmetic_value_def truncated_div_def
        INT64_MIN_def INT64_MAX_def)
  have "case evaluate ?ft ?row (?e d) of
      Inr v \<Rightarrow> fits (bx_type (?e d)) (bx_nullable (?e d)) v \<and> fault ?ft ?row (?e d) = None
    | Inl err \<Rightarrow> fault ?ft ?row (?e d) = Some err" if "d = 0 \<or> d = 2" for d
    by (rule evaluate_sound)
      (use that in \<open>auto simp: computed_fits_def comparison_operators_def is_numeric_def in_int64_def INT64_MIN_def INT64_MAX_def\<close>)
  from this [of 2] this [of 0] show ?thesis using ev by simp
qed

section \<open>Integer arithmetic\<close>

text \<open>
  Claim C37. 64-bit integer arithmetic is exact or refused: the operators return the mathematical
  result, truncated toward zero for division, when it is a 64-bit integer, overflow when it is
  not (so the least integer divided by minus one overflows), and a division by zero is an error.
\<close>

theorem integer_arithmetic_exact:
  assumes "q \<in> {''+'', ''-'', ''*'', ''/''}"
  shows "binary_value float_text q INT64 (ScInt a) (ScInt b) =
     (case exact_result q a b of
        None \<Rightarrow> Inl TypeMismatch
      | Some c \<Rightarrow> if in_int64 c then Inr (ScInt c) else Inl NumericOverflow)"
  by (rule integer_value [OF assms])

theorem integer_arithmetic_exact_witness:
  "binary_value (\<lambda>_. Inl PyValueError) ''/'' INT64 (ScInt INT64_MIN) (ScInt (- 1)) = Inl NumericOverflow"
  using integer_arithmetic_exact [of "''/''" "\<lambda>_. Inl PyValueError" INT64_MIN "- 1"]
  by (simp add: exact_result_def in_int64_def INT64_MIN_def INT64_MAX_def)

end
