(* ===== verification/Catalog_Store.thy ===== *)
theory Catalog_Store
  imports Catalog_Model
begin

text \<open>
  \<open>catalog/catalog.py\<close>: the catalog's identities and names, the publication of tables and
  indexes, and the atomically replaced file. The file is modelled by the JSON document it holds
  (the text format of the \<open>json\<close> module, whose keys are written sorted and read back as
  they are, is not spelt out), and an operating-system failure while persisting is an input of
  the operation. Shows the catalog invariant, that a reopened catalog is the published one
  after any history of publications and failures before the replacement, and what a failure
  after the replacement does.
\<close>

section \<open>State\<close>

definition CATALOG_FORMAT_VERSION :: int where
  "CATALOG_FORMAT_VERSION = 1"

text \<open>What \<open>catalog.json\<close> holds: nothing, a text that is not JSON, or a document.\<close>

datatype catalog_file = NoFile | NotJson | Document json

record catalog =
  ct_next_table_id :: int
  ct_next_index_id :: int
  ct_tables :: "(int \<times> table_metadata) list"
  ct_table_names :: "(pystr \<times> int) list"
  ct_indexes :: "(int \<times> index_metadata) list"
  ct_index_names :: "(pystr \<times> int) list"
  ct_file :: catalog_file

definition catalog_int :: "(pystr \<times> json) list \<Rightarrow> string \<Rightarrow> int result" where
  "catalog_int document key =
     (case map_of document (lit key) of
        None \<Rightarrow> Inl CatalogError
      | Some v \<Rightarrow> required_int v)"

definition catalog_init ::
    "(pystr \<Rightarrow> pystr) \<Rightarrow> catalog_file \<Rightarrow> int \<Rightarrow> int \<Rightarrow> table_metadata list \<Rightarrow> index_metadata list \<Rightarrow> catalog result" where
  "catalog_init casefold file next_table_id next_index_id tables indexes =
     (let tables_by_id = dict_of (map (\<lambda>t. (tm_table_id t, t)) tables);
          table_names = dict_of (map (\<lambda>t. (casefold (tm_name t), tm_table_id t)) tables);
          indexes_by_id = dict_of (map (\<lambda>i. (im_index_id i, i)) indexes);
          index_names = dict_of (map (\<lambda>i. (casefold (im_name i), im_index_id i)) indexes)
      in if length tables_by_id \<noteq> length tables \<or> length table_names \<noteq> length tables then Inl CatalogError
         else if length indexes_by_id \<noteq> length indexes \<or> length index_names \<noteq> length indexes then Inl CatalogError
         else if list_ex (\<lambda>i. case map_of tables_by_id (im_table_id i) of
                    None \<Rightarrow> True
                  | Some table \<Rightarrow> im_column_ids i = []
                      \<or> list_ex (\<lambda>c. c < 0 \<or> int (length (columns (tm_schema table))) \<le> c) (im_column_ids i)) indexes
              then Inl CatalogError
         else Inr \<lparr>ct_next_table_id = next_table_id, ct_next_index_id = next_index_id,
                   ct_tables = tables_by_id, ct_table_names = table_names,
                   ct_indexes = indexes_by_id, ct_index_names = index_names, ct_file = file\<rparr>)"

section \<open>Opening\<close>

fun table_of_item :: "(pystr \<Rightarrow> pystr) \<Rightarrow> json \<Rightarrow> table_metadata result" where
  "table_of_item casefold (JDict d) = table_from_document casefold d"
| "table_of_item casefold _ = Inl CatalogError"

fun index_of_item :: "json \<Rightarrow> index_metadata result" where
  "index_of_item (JDict d) = index_from_document d"
| "index_of_item _ = Inl CatalogError"

definition load_document :: "(pystr \<Rightarrow> pystr) \<Rightarrow> (pystr \<times> json) list \<Rightarrow> catalog result" where
  "load_document casefold d =
     res_bind (catalog_int d ''format_version'') (\<lambda>version.
     if version \<noteq> CATALOG_FORMAT_VERSION then Inl CatalogError
     else res_rethrow PyKeyError CatalogError
       (res_bind (json_get d ''tables'') (\<lambda>raw_tables.
        res_bind (json_get d ''indexes'') (\<lambda>raw_indexes.
        res_bind (json_list raw_tables) (\<lambda>table_documents.
        res_bind (json_list raw_indexes) (\<lambda>index_documents.
        res_bind (res_mapM (table_of_item casefold) table_documents) (\<lambda>tables.
        res_bind (res_mapM index_of_item index_documents) (\<lambda>indexes.
        res_bind (catalog_int d ''next_table_id'') (\<lambda>next_table_id.
        res_bind (catalog_int d ''next_index_id'') (\<lambda>next_index_id.
        catalog_init casefold (Document (JDict d)) next_table_id next_index_id tables indexes))))))))))"

fun catalog_open :: "(pystr \<Rightarrow> pystr) \<Rightarrow> catalog_file \<Rightarrow> catalog result" where
  "catalog_open casefold NoFile = catalog_init casefold NoFile 1 1 [] []"
| "catalog_open casefold NotJson = Inl CatalogError"
| "catalog_open casefold (Document (JDict d)) = load_document casefold d"
| "catalog_open casefold (Document _) = Inl CatalogError"

section \<open>Lookups\<close>

definition ct_table_by_id :: "catalog \<Rightarrow> int \<Rightarrow> table_metadata result" where
  "ct_table_by_id c i = (case map_of (ct_tables c) i of None \<Rightarrow> Inl CatalogError | Some t \<Rightarrow> Inr t)"

definition ct_table :: "(pystr \<Rightarrow> pystr) \<Rightarrow> catalog \<Rightarrow> pystr \<Rightarrow> table_metadata result" where
  "ct_table casefold c name =
     (case map_of (ct_table_names c) (casefold name) of
        None \<Rightarrow> Inl CatalogError
      | Some i \<Rightarrow> ct_table_by_id c i)"

definition ct_all_tables :: "catalog \<Rightarrow> table_metadata list" where
  "ct_all_tables c = map snd (ct_tables c)"

definition ct_index_by_id :: "catalog \<Rightarrow> int \<Rightarrow> index_metadata result" where
  "ct_index_by_id c i = (case map_of (ct_indexes c) i of None \<Rightarrow> Inl CatalogError | Some m \<Rightarrow> Inr m)"

definition ct_index :: "(pystr \<Rightarrow> pystr) \<Rightarrow> catalog \<Rightarrow> pystr \<Rightarrow> index_metadata result" where
  "ct_index casefold c name =
     (case map_of (ct_index_names c) (casefold name) of
        None \<Rightarrow> Inl CatalogError
      | Some i \<Rightarrow> ct_index_by_id c i)"

definition ct_all_indexes :: "catalog \<Rightarrow> int option \<Rightarrow> index_metadata list" where
  "ct_all_indexes c table_id =
     filter (\<lambda>m. case table_id of None \<Rightarrow> True | Some t \<Rightarrow> im_table_id m = t) (map snd (ct_indexes c))"

section \<open>Persistence\<close>

definition catalog_document :: "catalog \<Rightarrow> json" where
  "catalog_document c = JDict
     [(lit ''format_version'', JInt CATALOG_FORMAT_VERSION),
      (lit ''indexes'', JList (map index_to_document (ct_all_indexes c None))),
      (lit ''next_index_id'', JInt (ct_next_index_id c)),
      (lit ''next_table_id'', JInt (ct_next_table_id c)),
      (lit ''tables'', JList (map table_to_document (ct_all_tables c)))]"

text \<open>Every string of the document can be encoded (\<open>str.encode\<close> refuses lone surrogates).\<close>

fun json_encodable :: "json \<Rightarrow> bool" and json_encodable_fields :: "(pystr \<times> json) list \<Rightarrow> bool"
  and json_encodable_items :: "json list \<Rightarrow> bool" where
  "json_encodable (JStr s) = (case utf8_encode s of Inr b \<Rightarrow> True | Inl e \<Rightarrow> False)"
| "json_encodable (JList js) = json_encodable_items js"
| "json_encodable (JDict d) = json_encodable_fields d"
| "json_encodable _ = True"
| "json_encodable_fields [] = True"
| "json_encodable_fields ((k, j) # d) = ((case utf8_encode k of Inr b \<Rightarrow> True | Inl e \<Rightarrow> False) \<and> json_encodable j \<and> json_encodable_fields d)"
| "json_encodable_items [] = True"
| "json_encodable_items (j # js) = (json_encodable j \<and> json_encodable_items js)"

text \<open>
  The outcome of write, fsync, replace and fsync of the directory decides which file is in
  place afterwards.
\<close>

definition ct_persist :: "io_outcome \<Rightarrow> (catalog, unit) sm" where
  "ct_persist io c =
     (let document = catalog_document c; written = c\<lparr>ct_file := Document document\<rparr>
      in if \<not> json_encodable document then (Inl PyUnicodeError, c)
         else case io of
           IoOk \<Rightarrow> (Inr (), written)
         | IoFailsBefore \<Rightarrow> (Inl CatalogError, c)
         | IoFailsAfter \<Rightarrow> (Inl CatalogError, written))"

text \<open>\<open>try: m except Exception: undo; raise\<close>\<close>

definition sm_undo :: "('s, 'a) sm \<Rightarrow> ('s \<Rightarrow> 's) \<Rightarrow> ('s, 'a) sm" where
  "sm_undo m undo s = (case m s of (Inl e, s') \<Rightarrow> (Inl e, undo s') | r \<Rightarrow> r)"

section \<open>Publication\<close>

definition prepare_table :: "(pystr \<Rightarrow> pystr) \<Rightarrow> catalog \<Rightarrow> pystr \<Rightarrow> column list \<Rightarrow> table_metadata result" where
  "prepare_table casefold c name cols =
     (if name = [] \<or> 0 \<in> set name then Inl CatalogError
      else if map_of (ct_table_names c) (casefold name) \<noteq> None then Inl CatalogError
      else res_bind (schema_create casefold cols) (\<lambda>s.
           Inr \<lparr>tm_table_id = ct_next_table_id c, tm_name = name, tm_schema = s\<rparr>))"

definition publish_table :: "(pystr \<Rightarrow> pystr) \<Rightarrow> io_outcome \<Rightarrow> table_metadata \<Rightarrow> (catalog, unit) sm" where
  "publish_table casefold io metadata c =
     (let normalized = casefold (tm_name metadata); i = tm_table_id metadata
      in if i \<noteq> ct_next_table_id c then (Inl CatalogError, c)
         else if map_of (ct_table_names c) normalized \<noteq> None then (Inl CatalogError, c)
         else sm_undo (ct_persist io)
           (\<lambda>c. c\<lparr>ct_next_table_id := ct_next_table_id c - 1, ct_tables := AList.delete i (ct_tables c),
                  ct_table_names := AList.delete normalized (ct_table_names c)\<rparr>)
           (c\<lparr>ct_tables := AList.update i metadata (ct_tables c),
              ct_table_names := AList.update normalized i (ct_table_names c),
              ct_next_table_id := ct_next_table_id c + 1\<rparr>))"

definition ct_create_table :: "(pystr \<Rightarrow> pystr) \<Rightarrow> io_outcome \<Rightarrow> pystr \<Rightarrow> column list \<Rightarrow> (catalog, table_metadata) sm" where
  "ct_create_table casefold io name cols c =
     (case prepare_table casefold c name cols of
        Inl e \<Rightarrow> (Inl e, c)
      | Inr metadata \<Rightarrow> sm_bind (publish_table casefold io metadata) (\<lambda>_. sm_return metadata) c)"

definition prepare_index ::
    "(pystr \<Rightarrow> pystr) \<Rightarrow> catalog \<Rightarrow> pystr \<Rightarrow> int \<Rightarrow> int list \<Rightarrow> bool \<Rightarrow> index_metadata result" where
  "prepare_index casefold c name table_id column_ids unique =
     (if name = [] \<or> 0 \<in> set name then Inl CatalogError
      else if map_of (ct_index_names c) (casefold name) \<noteq> None then Inl CatalogError
      else res_bind (ct_table_by_id c table_id) (\<lambda>table.
           if column_ids = [] then Inl CatalogError
           else if length (remdups column_ids) \<noteq> length column_ids then Inl CatalogError
           else res_bind (res_mapM (schema_column_by_id (tm_schema table)) column_ids) (\<lambda>_.
             Inr \<lparr>im_index_id = ct_next_index_id c, im_table_id = table_id, im_name = name,
                  im_column_ids = column_ids, im_unique = unique\<rparr>)))"

definition publish_index :: "(pystr \<Rightarrow> pystr) \<Rightarrow> io_outcome \<Rightarrow> index_metadata \<Rightarrow> (catalog, unit) sm" where
  "publish_index casefold io metadata c =
     (let normalized = casefold (im_name metadata); i = im_index_id metadata
      in if i \<noteq> ct_next_index_id c then (Inl CatalogError, c)
         else if map_of (ct_index_names c) normalized \<noteq> None then (Inl CatalogError, c)
         else case ct_table_by_id c (im_table_id metadata) of
           Inl e \<Rightarrow> (Inl e, c)
         | Inr table \<Rightarrow> sm_undo (ct_persist io)
             (\<lambda>c. c\<lparr>ct_next_index_id := ct_next_index_id c - 1, ct_indexes := AList.delete i (ct_indexes c),
                    ct_index_names := AList.delete normalized (ct_index_names c)\<rparr>)
             (c\<lparr>ct_indexes := AList.update i metadata (ct_indexes c),
                ct_index_names := AList.update normalized i (ct_index_names c),
                ct_next_index_id := ct_next_index_id c + 1\<rparr>))"

section \<open>Dictionaries with new keys\<close>

lemma map_of_map_snd:
  assumes "distinct (map f xs)" and "x \<in> set xs"
  shows "map_of (map (\<lambda>y. (f y, g y)) xs) (f x) = Some (g x)"
  using assms by (induction xs) (auto simp: image_iff)

section \<open>The catalog invariant\<close>

definition wf_table :: "(pystr \<Rightarrow> pystr) \<Rightarrow> table_metadata \<Rightarrow> bool" where
  "wf_table casefold t \<longleftrightarrow> tm_name t \<noteq> [] \<and> wf_schema casefold (tm_schema t)"

text \<open>An index of an existing table, on some of its columns.\<close>

definition wf_index :: "catalog \<Rightarrow> index_metadata \<Rightarrow> bool" where
  "wf_index c m \<longleftrightarrow> im_name m \<noteq> [] \<and> im_column_ids m \<noteq> []
     \<and> (\<exists>t. map_of (ct_tables c) (im_table_id m) = Some t
           \<and> list_all (\<lambda>i. 0 \<le> i \<and> i < int (length (columns (tm_schema t)))) (im_column_ids m))"

definition tables_inv :: "(pystr \<Rightarrow> pystr) \<Rightarrow> catalog \<Rightarrow> bool" where
  "tables_inv casefold c \<longleftrightarrow>
     list_all (\<lambda>(i, t). i = tm_table_id t \<and> 0 < i \<and> i < ct_next_table_id c \<and> wf_table casefold t) (ct_tables c)
     \<and> ct_table_names c = map (\<lambda>(i, t). (casefold (tm_name t), i)) (ct_tables c)
     \<and> distinct (map fst (ct_tables c)) \<and> distinct (map fst (ct_table_names c))
     \<and> 0 < ct_next_table_id c"

definition indexes_inv :: "(pystr \<Rightarrow> pystr) \<Rightarrow> catalog \<Rightarrow> bool" where
  "indexes_inv casefold c \<longleftrightarrow>
     list_all (\<lambda>(i, m). i = im_index_id m \<and> 0 < i \<and> i < ct_next_index_id c \<and> wf_index c m) (ct_indexes c)
     \<and> ct_index_names c = map (\<lambda>(i, m). (casefold (im_name m), i)) (ct_indexes c)
     \<and> distinct (map fst (ct_indexes c)) \<and> distinct (map fst (ct_index_names c))
     \<and> 0 < ct_next_index_id c"

definition ct_inv :: "(pystr \<Rightarrow> pystr) \<Rightarrow> catalog \<Rightarrow> bool" where
  "ct_inv casefold c \<longleftrightarrow> tables_inv casefold c \<and> indexes_inv casefold c"

lemma ct_tables_new_id: "tables_inv casefold c \<Longrightarrow> ct_next_table_id c \<notin> fst ` set (ct_tables c)"
  by (auto simp: tables_inv_def list_all_iff)

lemma ct_indexes_new_id: "indexes_inv casefold c \<Longrightarrow> ct_next_index_id c \<notin> fst ` set (ct_indexes c)"
  by (auto simp: indexes_inv_def list_all_iff)

lemma map_of_None_keys: "map_of d k = None \<longleftrightarrow> k \<notin> fst ` set d"
  by (simp add: map_of_eq_None_iff)

text \<open>A publication either appends exactly the new metadata and writes it, or changes nothing.\<close>

lemma publish_table_cases:
  assumes inv: "tables_inv casefold c" and io: "io \<noteq> IoFailsAfter"
    and run: "publish_table casefold io t c = (r, c')"
  shows "c' = c \<and> r \<noteq> Inr () \<or>
     (r = Inr () \<and> tm_table_id t = ct_next_table_id c \<and> casefold (tm_name t) \<notin> fst ` set (ct_table_names c)
      \<and> (\<exists>d. c' = d\<lparr>ct_file := Document (catalog_document d)\<rparr>
        \<and> d = c\<lparr>ct_tables := ct_tables c @ [(tm_table_id t, t)],
               ct_table_names := ct_table_names c @ [(casefold (tm_name t), tm_table_id t)],
               ct_next_table_id := ct_next_table_id c + 1\<rparr>))"
proof (cases "tm_table_id t = ct_next_table_id c \<and> map_of (ct_table_names c) (casefold (tm_name t)) = None")
  case False
  then show ?thesis using run by (auto simp: publish_table_def Let_def split: if_splits)
next
  case True
  then have new: "tm_table_id t \<notin> fst ` set (ct_tables c)" "casefold (tm_name t) \<notin> fst ` set (ct_table_names c)"
    using ct_tables_new_id [OF inv] by (simp_all add: map_of_None_keys)
  show ?thesis
    using run io True new
    by (cases io) (auto simp: publish_table_def Let_def sm_undo_def ct_persist_def update_new delete_new split: if_splits)
qed

lemma publish_index_cases:
  assumes inv: "indexes_inv casefold c" and io: "io \<noteq> IoFailsAfter"
    and run: "publish_index casefold io m c = (r, c')"
  shows "c' = c \<and> r \<noteq> Inr () \<or>
     (r = Inr () \<and> im_index_id m = ct_next_index_id c \<and> casefold (im_name m) \<notin> fst ` set (ct_index_names c)
      \<and> (\<exists>d. c' = d\<lparr>ct_file := Document (catalog_document d)\<rparr>
        \<and> d = c\<lparr>ct_indexes := ct_indexes c @ [(im_index_id m, m)],
               ct_index_names := ct_index_names c @ [(casefold (im_name m), im_index_id m)],
               ct_next_index_id := ct_next_index_id c + 1\<rparr>))"
proof (cases "im_index_id m = ct_next_index_id c \<and> map_of (ct_index_names c) (casefold (im_name m)) = None")
  case False
  then show ?thesis using run by (auto simp: publish_index_def Let_def split: if_splits)
next
  case True
  then have new: "im_index_id m \<notin> fst ` set (ct_indexes c)" "casefold (im_name m) \<notin> fst ` set (ct_index_names c)"
    using ct_indexes_new_id [OF inv] by (simp_all add: map_of_None_keys)
  show ?thesis
    using run io True new
    by (cases io) (auto simp: publish_index_def Let_def sm_undo_def ct_persist_def update_new delete_new
        split: if_splits sum.splits)
qed

lemma ct_all_simps [simp]:
  "ct_all_tables (c\<lparr>ct_tables := ts\<rparr>) = map snd ts" "ct_all_tables (c\<lparr>ct_table_names := ns\<rparr>) = ct_all_tables c"
  "ct_all_tables (c\<lparr>ct_next_table_id := i\<rparr>) = ct_all_tables c" "ct_all_tables (c\<lparr>ct_file := f\<rparr>) = ct_all_tables c"
  "ct_all_tables (c\<lparr>ct_indexes := ms\<rparr>) = ct_all_tables c" "ct_all_tables (c\<lparr>ct_index_names := ns\<rparr>) = ct_all_tables c"
  "ct_all_tables (c\<lparr>ct_next_index_id := i\<rparr>) = ct_all_tables c"
  by (simp_all add: ct_all_tables_def)

lemma ct_all_indexes_None: "ct_all_indexes c None = map snd (ct_indexes c)"
  by (simp add: ct_all_indexes_def)

lemma wf_index_more_tables:
  assumes "wf_index c m" and "\<And>i t. map_of (ct_tables c) i = Some t \<Longrightarrow> map_of (ct_tables c') i = Some t"
  shows "wf_index c' m"
  using assms by (auto simp: wf_index_def)

lemma wf_index_file [simp]: "wf_index (c\<lparr>ct_file := f\<rparr>) m = wf_index c m"
  by (simp add: wf_index_def)

lemma ct_inv_file [simp]: "ct_inv casefold (c\<lparr>ct_file := f\<rparr>) = ct_inv casefold c"
  by (simp add: ct_inv_def tables_inv_def indexes_inv_def)

lemma ct_inv_add_table:
  assumes inv: "ct_inv casefold c" and t: "tm_table_id t = ct_next_table_id c" "wf_table casefold t"
    and new: "casefold (tm_name t) \<notin> fst ` set (ct_table_names c)"
    and d: "d = c\<lparr>ct_tables := ct_tables c @ [(tm_table_id t, t)],
               ct_table_names := ct_table_names c @ [(casefold (tm_name t), tm_table_id t)],
               ct_next_table_id := ct_next_table_id c + 1\<rparr>"
  shows "ct_inv casefold d" and "\<And>m. wf_index c m \<Longrightarrow> wf_index d m"
proof -
  have ti: "tables_inv casefold c" and ii: "indexes_inv casefold c" using inv by (simp_all add: ct_inv_def)
  show keep: "wf_index d m" if "wf_index c m" for m
    using that by (rule wf_index_more_tables) (auto simp: d map_add_def split: option.splits)
  have "tables_inv casefold d"
    using ti t new ct_tables_new_id [OF ti] by (auto simp: tables_inv_def list_all_iff d)
  moreover have "indexes_inv casefold d"
    using ii keep by (auto simp: indexes_inv_def list_all_iff) (auto simp: d)
  ultimately show "ct_inv casefold d" by (simp add: ct_inv_def)
qed

lemma ct_inv_add_index:
  assumes inv: "ct_inv casefold c" and m: "im_index_id m = ct_next_index_id c" "wf_index c m"
    and new: "casefold (im_name m) \<notin> fst ` set (ct_index_names c)"
    and d: "d = c\<lparr>ct_indexes := ct_indexes c @ [(im_index_id m, m)],
               ct_index_names := ct_index_names c @ [(casefold (im_name m), im_index_id m)],
               ct_next_index_id := ct_next_index_id c + 1\<rparr>"
  shows "ct_inv casefold d" and "\<And>m. wf_index c m \<Longrightarrow> wf_index d m"
proof -
  have ti: "tables_inv casefold c" and ii: "indexes_inv casefold c" using inv by (simp_all add: ct_inv_def)
  show keep: "wf_index d m" if "wf_index c m" for m
    using that by (rule wf_index_more_tables) (auto simp: d)
  have wf: "list_all (\<lambda>(i, m). i = im_index_id m \<and> 0 < i \<and> i < ct_next_index_id d \<and> wf_index d m) (ct_indexes d)"
    using ii m keep [of m] keep by (auto simp: indexes_inv_def list_all_iff d)
  have "indexes_inv casefold d"
    unfolding indexes_inv_def using wf ii m new ct_indexes_new_id [OF ii]
    by (auto simp: indexes_inv_def d)
  moreover have "tables_inv casefold d = tables_inv casefold c" by (simp add: tables_inv_def d)
  ultimately show "ct_inv casefold d" using ti by (simp add: ct_inv_def)
qed

section \<open>Reopening\<close>

lemma table_document_roundtrip:
  assumes "wf_table casefold t" and "0 < tm_table_id t"
  shows "table_of_item casefold (table_to_document t) = Inr t"
proof -
  have "schema_create casefold (columns (tm_schema t)) = Inr (tm_schema t)"
    using assms(1) by (intro schema_create_self) (simp add: wf_table_def)
  then have "schema_from_document casefold (schema_to_document (tm_schema t)) = Inr (tm_schema t)"
    by (rule schema_document_inverse)
  then show ?thesis
    using assms by (simp add: table_to_document_def table_from_document_def json_get_def wf_table_def)
qed

lemma index_document_roundtrip:
  assumes "im_name m \<noteq> []" and "0 < im_index_id m" and "0 < im_table_id m"
  shows "index_of_item (index_to_document m) = Inr m"
proof -
  have "res_mapM required_int (map JInt (im_column_ids m)) = Inr (im_column_ids m)"
    by (simp add: res_mapM_Inr_iff)
  then show ?thesis using assms by (simp add: index_to_document_def index_from_document_def json_get_def)
qed

lemma catalog_init_inv:
  assumes inv: "ct_inv casefold c"
  shows "catalog_init casefold file (ct_next_table_id c) (ct_next_index_id c) (ct_all_tables c) (ct_all_indexes c None)
     = Inr (c\<lparr>ct_file := file\<rparr>)"
proof -
  have ti: "tables_inv casefold c" and ii: "indexes_inv casefold c" using inv by (simp_all add: ct_inv_def)
  have t1: "map (\<lambda>t. (tm_table_id t, t)) (ct_all_tables c) = ct_tables c"
    using ti by (auto simp: ct_all_tables_def tables_inv_def list_all_iff intro!: map_idI)
  have t2: "map (\<lambda>t. (casefold (tm_name t), tm_table_id t)) (ct_all_tables c) = ct_table_names c"
    using ti by (auto simp: ct_all_tables_def tables_inv_def list_all_iff)
  have i1: "map (\<lambda>m. (im_index_id m, m)) (ct_all_indexes c None) = ct_indexes c"
    using ii by (auto simp: ct_all_indexes_None indexes_inv_def list_all_iff intro!: map_idI)
  have i2: "map (\<lambda>m. (casefold (im_name m), im_index_id m)) (ct_all_indexes c None) = ct_index_names c"
    using ii by (auto simp: ct_all_indexes_None indexes_inv_def list_all_iff)
  have dicts: "dict_of (ct_tables c) = ct_tables c" "dict_of (ct_table_names c) = ct_table_names c"
    "dict_of (ct_indexes c) = ct_indexes c" "dict_of (ct_index_names c) = ct_index_names c"
    using ti ii by (auto simp: tables_inv_def indexes_inv_def intro: dict_of_distinct)
  have lens: "length (ct_table_names c) = length (ct_tables c)" "length (ct_index_names c) = length (ct_indexes c)"
    using ti ii by (simp_all add: tables_inv_def indexes_inv_def)
  have "\<not> list_ex (\<lambda>i. case map_of (ct_tables c) (im_table_id i) of
            None \<Rightarrow> True
          | Some table \<Rightarrow> im_column_ids i = []
              \<or> list_ex (\<lambda>c. c < 0 \<or> int (length (columns (tm_schema table))) \<le> c) (im_column_ids i)) (ct_all_indexes c None)"
    using ii by (fastforce simp: ct_all_indexes_None indexes_inv_def list_all_iff list_ex_iff wf_index_def)
  then show ?thesis
    unfolding catalog_init_def Let_def t1 t2 i1 i2 dicts
    by (simp add: lens) (simp add: ct_all_tables_def ct_all_indexes_None)
qed

lemma catalog_reopen:
  assumes inv: "ct_inv casefold c"
  shows "catalog_open casefold (Document (catalog_document c)) = Inr (c\<lparr>ct_file := Document (catalog_document c)\<rparr>)"
proof -
  have ti: "tables_inv casefold c" and ii: "indexes_inv casefold c" using inv by (simp_all add: ct_inv_def)
  have "table_of_item casefold (table_to_document t) = Inr t" if "t \<in> set (ct_all_tables c)" for t
    using ti that by (intro table_document_roundtrip) (auto simp: tables_inv_def ct_all_tables_def list_all_iff)
  then have ts: "res_mapM (table_of_item casefold) (map table_to_document (ct_all_tables c)) = Inr (ct_all_tables c)"
    by (simp add: res_mapM_Inr_iff)
  have "index_of_item (index_to_document m) = Inr m" if "m \<in> set (ct_all_indexes c None)" for m
  proof (rule index_document_roundtrip)
    have m: "(im_index_id m, m) \<in> set (ct_indexes c)" "0 < im_index_id m" "wf_index c m"
      using ii that by (auto simp: indexes_inv_def ct_all_indexes_None list_all_iff)
    then show "im_name m \<noteq> []" "0 < im_index_id m" by (simp_all add: wf_index_def)
    obtain t where "(im_table_id m, t) \<in> set (ct_tables c)"
      using m(3) by (auto simp: wf_index_def dest: map_of_SomeD)
    then show "0 < im_table_id m" using ti by (auto simp: tables_inv_def list_all_iff)
  qed
  then have ms: "res_mapM index_of_item (map index_to_document (ct_all_indexes c None)) = Inr (ct_all_indexes c None)"
    by (simp add: res_mapM_Inr_iff)
  show ?thesis
    using ts ms catalog_init_inv [OF inv]
    by (simp add: catalog_document_def load_document_def catalog_int_def json_get_def)
qed

section \<open>Histories\<close>

text \<open>
  Any interleaving of preparations and publications: metadata may be prepared long before it
  is published, and a publication may fail before the file is replaced.
\<close>

inductive ct_run :: "(pystr \<Rightarrow> pystr) \<Rightarrow> catalog \<Rightarrow> table_metadata list \<Rightarrow> index_metadata list \<Rightarrow> bool"
  for casefold where
  ct_start: "catalog_open casefold NoFile = Inr c \<Longrightarrow> ct_run casefold c [] []"
| ct_prepare_table: "ct_run casefold c ts ms \<Longrightarrow> prepare_table casefold c name cols = Inr t \<Longrightarrow> ct_run casefold c (t # ts) ms"
| ct_prepare_index: "ct_run casefold c ts ms \<Longrightarrow> prepare_index casefold c name table_id column_ids unique = Inr m
    \<Longrightarrow> ct_run casefold c ts (m # ms)"
| ct_publish_table: "ct_run casefold c ts ms \<Longrightarrow> t \<in> set ts \<Longrightarrow> io \<noteq> IoFailsAfter \<Longrightarrow> publish_table casefold io t c = (r, c')
    \<Longrightarrow> ct_run casefold c' ts ms"
| ct_publish_index: "ct_run casefold c ts ms \<Longrightarrow> m \<in> set ms \<Longrightarrow> io \<noteq> IoFailsAfter \<Longrightarrow> publish_index casefold io m c = (r, c')
    \<Longrightarrow> ct_run casefold c' ts ms"

definition catalog_ok :: "(pystr \<Rightarrow> pystr) \<Rightarrow> catalog \<Rightarrow> table_metadata list \<Rightarrow> index_metadata list \<Rightarrow> bool" where
  "catalog_ok casefold c ts ms \<longleftrightarrow>
     ct_inv casefold c \<and> list_all (wf_table casefold) ts \<and> list_all (wf_index c) ms
     \<and> catalog_open casefold (ct_file c) = Inr c"

lemma prepare_table_wf: "prepare_table casefold c name cols = Inr t \<Longrightarrow> wf_table casefold t"
  using schema_create_wf by (fastforce simp: prepare_table_def wf_table_def res_simps split: if_splits)

lemma prepare_index_wf:
  assumes "prepare_index casefold c name table_id column_ids unique = Inr m"
  shows "wf_index c m"
proof -
  obtain t cs where t: "ct_table_by_id c table_id = Inr t" "name \<noteq> []" "column_ids \<noteq> []"
    "res_mapM (schema_column_by_id (tm_schema t)) column_ids = Inr cs"
    and m: "m = \<lparr>im_index_id = ct_next_index_id c, im_table_id = table_id, im_name = name,
                  im_column_ids = column_ids, im_unique = unique\<rparr>"
    using assms by (auto simp: prepare_index_def res_simps split: if_splits)
  have "list_all (\<lambda>i. 0 \<le> i \<and> i < int (length (columns (tm_schema t)))) column_ids"
    using t(4) by (fastforce simp: res_mapM_Inr_iff list_all_length schema_column_by_id_def split: if_splits)
  then show ?thesis using t by (auto simp: wf_index_def m ct_table_by_id_def split: option.splits)
qed

lemma catalog_ok_run: "ct_run casefold c ts ms \<Longrightarrow> catalog_ok casefold c ts ms"
proof (induction rule: ct_run.induct)
  case (ct_start c)
  then have "c = \<lparr>ct_next_table_id = 1, ct_next_index_id = 1, ct_tables = [], ct_table_names = [],
      ct_indexes = [], ct_index_names = [], ct_file = NoFile\<rparr>"
    by (simp add: catalog_init_def dict_of_def)
  with ct_start show ?case by (simp add: catalog_ok_def ct_inv_def tables_inv_def indexes_inv_def)
next
  case (ct_prepare_table c ts ms name cols t)
  then show ?case by (simp add: catalog_ok_def prepare_table_wf)
next
  case (ct_prepare_index c ts ms name table_id column_ids unique m)
  then show ?case by (simp add: catalog_ok_def prepare_index_wf)
next
  case (ct_publish_table c ts ms t io r c')
  then have ok: "ct_inv casefold c" "wf_table casefold t" "tables_inv casefold c" "list_all (wf_index c) ms"
    by (auto simp: catalog_ok_def list_all_iff ct_inv_def)
  from publish_table_cases [OF ok(3) ct_publish_table.hyps(3,4)] show ?case
  proof (elim disjE conjE exE)
    assume "c' = c"
    then show ?thesis using ct_publish_table.IH by simp
  next
    fix d assume *: "tm_table_id t = ct_next_table_id c" "casefold (tm_name t) \<notin> fst ` set (ct_table_names c)"
      "c' = d\<lparr>ct_file := Document (catalog_document d)\<rparr>"
      "d = c\<lparr>ct_tables := ct_tables c @ [(tm_table_id t, t)],
             ct_table_names := ct_table_names c @ [(casefold (tm_name t), tm_table_id t)],
             ct_next_table_id := ct_next_table_id c + 1\<rparr>"
    note d = ct_inv_add_table [OF ok(1) *(1) ok(2) *(2,4)]
    have "list_all (wf_index d) ms" using ok(4) d(2) by (auto simp: list_all_iff)
    then show ?thesis
      using d(1) catalog_reopen [OF d(1)] ct_publish_table.IH by (simp add: catalog_ok_def *(3) list_all_iff)
  qed
next
  case (ct_publish_index c ts ms m io r c')
  then have ok: "ct_inv casefold c" "wf_index c m" "indexes_inv casefold c" "list_all (wf_index c) ms"
    by (auto simp: catalog_ok_def list_all_iff ct_inv_def)
  from publish_index_cases [OF ok(3) ct_publish_index.hyps(3,4)] show ?case
  proof (elim disjE conjE exE)
    assume "c' = c"
    then show ?thesis using ct_publish_index.IH by simp
  next
    fix d assume *: "im_index_id m = ct_next_index_id c" "casefold (im_name m) \<notin> fst ` set (ct_index_names c)"
      "c' = d\<lparr>ct_file := Document (catalog_document d)\<rparr>"
      "d = c\<lparr>ct_indexes := ct_indexes c @ [(im_index_id m, m)],
             ct_index_names := ct_index_names c @ [(casefold (im_name m), im_index_id m)],
             ct_next_index_id := ct_next_index_id c + 1\<rparr>"
    note d = ct_inv_add_index [OF ok(1) *(1) ok(2) *(2,4)]
    have "list_all (wf_index d) ms" using ok(4) d(2) by (auto simp: list_all_iff)
    then show ?thesis
      using d(1) catalog_reopen [OF d(1)] ct_publish_index.IH by (simp add: catalog_ok_def *(3) list_all_iff)
  qed
qed

lemma ct_table_of_entry:
  assumes inv: "tables_inv casefold c" and t: "t \<in> set (ct_all_tables c)"
    and name: "casefold name = casefold (tm_name t)"
  shows "ct_table casefold c name = Inr t"
proof -
  obtain i where i: "(i, t) \<in> set (ct_tables c)" using t by (auto simp: ct_all_tables_def)
  then have "(casefold (tm_name t), i) \<in> set (ct_table_names c)" using inv by (auto simp: tables_inv_def)
  then have "map_of (ct_table_names c) (casefold name) = Some i"
    using inv name by (metis map_of_is_SomeI tables_inv_def)
  moreover have "map_of (ct_tables c) i = Some t" using inv i by (metis map_of_is_SomeI tables_inv_def)
  ultimately show ?thesis by (simp add: ct_table_def ct_table_by_id_def)
qed

text \<open>
  Claim C14. After any history of preparing and publishing tables and indexes, failures before the
  replacement included, opening the catalog file gives back exactly the catalog in memory;
  every published table is found under every name that folds to its own and under no other id,
  and a new table gets an id no table has had.
\<close>

theorem catalog_durable:
  assumes "ct_run casefold c ts ms"
  shows "catalog_open casefold (ct_file c) = Inr c
     \<and> (\<forall>t \<in> set (ct_all_tables c). \<forall>name. casefold name = casefold (tm_name t) \<longrightarrow> ct_table casefold c name = Inr t)
     \<and> (\<forall>name cols t. prepare_table casefold c name cols = Inr t \<longrightarrow>
          (\<forall>t' \<in> set (ct_all_tables c). tm_table_id t' < tm_table_id t \<and> casefold (tm_name t') \<noteq> casefold (tm_name t)))"
proof (intro conjI ballI allI impI)
  have ok: "catalog_ok casefold c ts ms" by (rule catalog_ok_run [OF assms])
  then have ti: "tables_inv casefold c" by (simp add: catalog_ok_def ct_inv_def)
  show "catalog_open casefold (ct_file c) = Inr c" using ok by (simp add: catalog_ok_def)
  show "ct_table casefold c name = Inr t" if "t \<in> set (ct_all_tables c)" "casefold name = casefold (tm_name t)" for t name
    by (rule ct_table_of_entry [OF ti that])
  fix name cols t t' assume p: "prepare_table casefold c name cols = Inr t" and t': "t' \<in> set (ct_all_tables c)"
  have t: "tm_table_id t = ct_next_table_id c" "tm_name t = name" "map_of (ct_table_names c) (casefold name) = None"
    using p by (auto simp: prepare_table_def res_simps split: if_splits)
  show "tm_table_id t' < tm_table_id t" using ti t' t(1) by (auto simp: tables_inv_def ct_all_tables_def list_all_iff)
  show "casefold (tm_name t') \<noteq> casefold (tm_name t)"
    using ct_table_of_entry [OF ti t', of name] t(2,3) by (auto simp: ct_table_def)
qed

text \<open>A catalog with one published table, reached from an empty directory.\<close>

definition demo_columns :: "column list" where
  "demo_columns = [\<lparr>col_name = [97], col_data_type = INT64, col_nullable = True, col_primary_key = False,
     col_unique = False, col_column_id = -1\<rparr>]"

definition demo_table :: table_metadata where
  "demo_table = \<lparr>tm_table_id = 1, tm_name = [116],
     tm_schema = \<lparr>columns = [\<lparr>col_name = [97], col_data_type = INT64, col_nullable = True, col_primary_key = False,
       col_unique = False, col_column_id = 0\<rparr>]\<rparr>\<rparr>"

definition empty_catalog :: catalog where
  "empty_catalog = \<lparr>ct_next_table_id = 1, ct_next_index_id = 1, ct_tables = [], ct_table_names = [],
      ct_indexes = [], ct_index_names = [], ct_file = NoFile\<rparr>"

definition demo_catalog :: catalog where
  "demo_catalog = (let d = empty_catalog\<lparr>ct_tables := [(1, demo_table)], ct_table_names := [([116], 1)], ct_next_table_id := 2\<rparr>
     in d\<lparr>ct_file := Document (catalog_document d)\<rparr>)"

lemma open_empty_catalog: "catalog_open id NoFile = Inr empty_catalog"
  by (simp add: catalog_init_def dict_of_def empty_catalog_def)

lemma prepare_demo_table: "prepare_table id empty_catalog [116] demo_columns = Inr demo_table"
  by (simp add: prepare_table_def empty_catalog_def demo_columns_def demo_table_def schema_create_def
      column_with_id_def column_post_init_def)

lemma publish_demo_table: "publish_table id IoOk demo_table empty_catalog = (Inr (), demo_catalog)"
  by (simp add: publish_table_def demo_table_def empty_catalog_def demo_catalog_def sm_undo_def ct_persist_def
      catalog_document_def ct_all_tables_def ct_all_indexes_def table_to_document_def schema_to_document_def
      column_to_document_def lit_def utf8_encode_def valid_cp_def)

lemma demo_run: "ct_run id demo_catalog [demo_table] []"
  by (rule ct_publish_table [OF ct_prepare_table [OF ct_start [OF open_empty_catalog] prepare_demo_table] _ _ publish_demo_table])
    simp_all

theorem catalog_durable_witness:
  "catalog_open id (ct_file demo_catalog) = Inr demo_catalog \<and> ct_table id demo_catalog [116] = Inr demo_table"
proof -
  have "demo_table \<in> set (ct_all_tables demo_catalog)" "tm_name demo_table = [116]"
    by (simp_all add: demo_catalog_def ct_all_tables_def demo_table_def Let_def)
  then show ?thesis using catalog_durable [OF demo_run] by force
qed

text \<open>
  A failed synchronisation of the directory, after the replacement, undoes the publication in
  memory only: the caller gets an error, yet the table is in the file.
\<close>

theorem catalog_failed_sync_diverges:
  "\<exists>c. publish_table id IoFailsAfter demo_table empty_catalog = (Inl CatalogError, c)
     \<and> ct_all_tables c = [] \<and> (\<exists>d. catalog_open id (ct_file c) = Inr d \<and> ct_all_tables d = [demo_table])"
proof -
  have pub: "publish_table id IoFailsAfter demo_table empty_catalog =
      (Inl CatalogError, empty_catalog\<lparr>ct_file := ct_file demo_catalog\<rparr>)"
    by (simp add: publish_table_def demo_table_def empty_catalog_def demo_catalog_def sm_undo_def ct_persist_def
        catalog_document_def ct_all_tables_def ct_all_indexes_def table_to_document_def schema_to_document_def
        column_to_document_def lit_def utf8_encode_def valid_cp_def)
  have "catalog_ok id demo_catalog [demo_table] []" by (rule catalog_ok_run [OF demo_run])
  then have "catalog_open id (ct_file demo_catalog) = Inr demo_catalog" by (simp add: catalog_ok_def)
  then show ?thesis using pub by (auto simp: ct_all_tables_def empty_catalog_def demo_catalog_def Let_def)
qed

end
