(* ===== verification/Binder.thy ===== *)
theory Binder
  imports Expressions Catalog_Store
begin

text \<open>
  \<open>sql/binder.py\<close>: resolution of names against the catalog, typing, the one implicit
  widening, and the grouping rules. The scope is passed explicitly; the nesting depth of
  aggregates, which the code increments and restores around their argument, is an argument
  too. Shows that everything the binder accepts is well typed and refers to columns in scope,
  so that its evaluation cannot go wrong, and that a grouped query's output depends only on
  the group keys and aggregates.
\<close>

section \<open>Names\<close>

datatype scope_entry = ScopeEntry (sc_table: bound_table) (sc_names: "pystr list")

definition NUMERIC :: "data_type option list" where
  "NUMERIC = [Some INT64, Some FLOAT64]"

definition AGGREGATES :: "pystr list" where
  "AGGREGATES = [lit ''COUNT'', lit ''SUM'', lit ''AVG'', lit ''MIN'', lit ''MAX'']"

text \<open>\<open>except CatalogError: raise BindError\<close>\<close>

definition bind_table :: "(pystr \<Rightarrow> pystr) \<Rightarrow> catalog \<Rightarrow> pystr \<Rightarrow> table_metadata result" where
  "bind_table casefold c name = res_rethrow CatalogError BindError (ct_table casefold c name)"

definition bind_column :: "(pystr \<Rightarrow> pystr) \<Rightarrow> table_metadata \<Rightarrow> pystr \<Rightarrow> column result" where
  "bind_column casefold t name = res_rethrow CatalogError BindError (schema_column_by_name casefold (tm_schema t) name)"

text \<open>Python's \<open>a or b\<close> for an optional string: an empty one counts as absent.\<close>

definition str_or :: "pystr option \<Rightarrow> pystr \<Rightarrow> pystr" where
  "str_or a b = (case a of None \<Rightarrow> b | Some s \<Rightarrow> if s = [] then b else s)"

definition bind_table_ref ::
    "(pystr \<Rightarrow> pystr) \<Rightarrow> catalog \<Rightarrow> scope_entry list \<Rightarrow> table_ref \<Rightarrow> (bound_table \<times> scope_entry list) result" where
  "bind_table_ref casefold c scope reference =
     res_bind (bind_table casefold c (tr_name reference)) (\<lambda>metadata.
     let alias_name = str_or (tr_alias reference) (tr_name reference)
     in if list_ex (\<lambda>entry. tm_table_id (bt_metadata (sc_table entry)) = tm_table_id metadata
              \<or> casefold alias_name \<in> set (sc_names entry)) scope
        then Inl BindError
        else let table = BoundTable metadata alias_name
             in Inr (table, scope @ [ScopeEntry table [casefold alias_name]]))"

text \<open>The constructor of \<open>ColumnBinding\<close> with its check.\<close>

definition mk_binding :: "int \<Rightarrow> int \<Rightarrow> column_binding result" where
  "mk_binding table_id column_id =
     (if table_id < 0 \<or> column_id < 0 then Inl PyValueError else Inr (ColumnBinding (nat table_id) (nat column_id)))"

definition column_expr :: "table_metadata \<Rightarrow> column \<Rightarrow> bound_expr result" where
  "column_expr t col =
     res_bind (mk_binding (tm_table_id t) (col_column_id col)) (\<lambda>b.
     Inr (BoundColumn b (col_name col) (col_data_type col) (col_nullable col)))"

text \<open>The entries a table name or alias selects.\<close>

definition scope_entries :: "(pystr \<Rightarrow> pystr) \<Rightarrow> scope_entry list \<Rightarrow> pystr option \<Rightarrow> scope_entry list result" where
  "scope_entries casefold scope table =
     (case table of
        None \<Rightarrow> Inr scope
      | Some name \<Rightarrow>
          (case filter (\<lambda>entry. casefold name \<in> set (sc_names entry)) scope of
             [] \<Rightarrow> Inl BindError
           | entries \<Rightarrow> Inr entries))"

definition column_matches :: "(pystr \<Rightarrow> pystr) \<Rightarrow> scope_entry list \<Rightarrow> pystr \<Rightarrow> (table_metadata \<times> column) list" where
  "column_matches casefold entries name =
     concat (map (\<lambda>entry. let t = bt_metadata (sc_table entry)
       in case schema_column_by_name casefold (tm_schema t) name of Inl e \<Rightarrow> [] | Inr col \<Rightarrow> [(t, col)]) entries)"

definition resolve_column :: "(pystr \<Rightarrow> pystr) \<Rightarrow> scope_entry list \<Rightarrow> pystr \<Rightarrow> pystr option \<Rightarrow> bound_expr result" where
  "resolve_column casefold scope name table =
     res_bind (scope_entries casefold scope table) (\<lambda>entries.
     case column_matches casefold entries name of
       [(t, col)] \<Rightarrow> column_expr t col
     | _ \<Rightarrow> Inl BindError)"

definition expand_star :: "(pystr \<Rightarrow> pystr) \<Rightarrow> scope_entry list \<Rightarrow> pystr option \<Rightarrow> bound_expr list result" where
  "expand_star casefold scope table =
     res_bind (scope_entries casefold scope table) (\<lambda>entries.
     if entries = [] then Inl BindError
     else res_mapM (\<lambda>(t, col). column_expr t col)
       (concat (map (\<lambda>entry. let t = bt_metadata (sc_table entry) in map (Pair t) (columns (tm_schema t))) entries)))"

section \<open>Types\<close>

definition require_numeric :: "bound_expr \<Rightarrow> unit result" where
  "require_numeric e = res_require (bx_type e \<in> set NUMERIC) TypeMismatch"

definition coerce :: "bound_expr \<Rightarrow> data_type \<Rightarrow> bound_expr result" where
  "coerce e target =
     (case bx_type e of
        None \<Rightarrow>
          (case e of
             BoundLiteral v t n \<Rightarrow> if v \<noteq> ScNone then Inl TypeMismatch else Inr (BoundLiteral ScNone (Some target) True)
           | _ \<Rightarrow> Inl TypeMismatch)
      | Some t \<Rightarrow>
          if t = target then Inr e
          else if t = INT64 \<and> target = FLOAT64 then Inr (BoundCast e target (bx_nullable e))
          else Inl TypeMismatch)"

definition numeric_pair :: "bound_expr \<Rightarrow> bound_expr \<Rightarrow> (bound_expr \<times> bound_expr \<times> data_type) result" where
  "numeric_pair l r =
     res_bind (require_numeric l) (\<lambda>_. res_bind (require_numeric r) (\<lambda>_.
     if bx_type l = Some FLOAT64 \<or> bx_type r = Some FLOAT64 then
       res_bind (coerce l FLOAT64) (\<lambda>l'. res_bind (coerce r FLOAT64) (\<lambda>r'. Inr (l', r', FLOAT64)))
     else Inr (l, r, INT64)))"

definition comparable_pair :: "bound_expr \<Rightarrow> bound_expr \<Rightarrow> (bound_expr \<times> bound_expr) result" where
  "comparable_pair l r =
     (case (bx_type l, bx_type r) of
        (None, None) \<Rightarrow> Inr (l, r)
      | (None, Some t) \<Rightarrow> res_bind (coerce l t) (\<lambda>l'. Inr (l', r))
      | (Some t, None) \<Rightarrow> res_bind (coerce r t) (\<lambda>r'. Inr (l, r'))
      | (Some t, Some t') \<Rightarrow>
          if t = t' then Inr (l, r)
          else if bx_type l \<in> set NUMERIC \<and> bx_type r \<in> set NUMERIC then
            res_bind (numeric_pair l r) (\<lambda>(l', r', _). Inr (l', r'))
          else Inl TypeMismatch)"

definition mk_binary :: "bound_expr \<Rightarrow> string \<Rightarrow> bound_expr \<Rightarrow> data_type \<Rightarrow> bound_expr" where
  "mk_binary l q r t = BoundBinary l q r t (bx_nullable l \<or> bx_nullable r)"

text \<open>\<open>_bind_binary\<close>, once the operands are bound.\<close>

definition bind_binary :: "bound_expr \<Rightarrow> string \<Rightarrow> bound_expr \<Rightarrow> bound_expr result" where
  "bind_binary l q r =
     (if q \<in> {''AND'', ''OR''} then
        (if bx_type l \<noteq> Some BOOLEAN \<or> bx_type r \<noteq> Some BOOLEAN then Inl TypeMismatch
         else Inr (mk_binary l q r BOOLEAN))
      else if q \<in> {''+'', ''-'', ''*'', ''/''} then
        res_bind (numeric_pair l r) (\<lambda>(l', r', t). Inr (mk_binary l' q r' t))
      else res_bind (comparable_pair l r) (\<lambda>(l', r'). Inr (mk_binary l' q r' BOOLEAN)))"

definition bind_unary :: "string \<Rightarrow> bound_expr \<Rightarrow> bound_expr result" where
  "bind_unary q e =
     (if q = ''NOT'' then
        (if bx_type e \<noteq> Some BOOLEAN then Inl TypeMismatch
         else Inr (BoundUnary ''NOT'' e BOOLEAN (bx_nullable e)))
      else res_bind (require_numeric e) (\<lambda>_.
        case bx_type e of
          None \<Rightarrow> Inl PyAssertionError
        | Some t \<Rightarrow> Inr (BoundUnary q e t (bx_nullable e))))"

text \<open>\<open>_bind_function\<close>, once its argument is bound.\<close>

definition bind_aggregate :: "pystr \<Rightarrow> bound_expr \<Rightarrow> bound_expr result" where
  "bind_aggregate name argument =
     (if name = lit ''COUNT'' then Inr (BoundFunction name [argument] INT64 False False)
      else res_bind (if name = lit ''SUM'' \<or> name = lit ''AVG'' then require_numeric argument else Inr ()) (\<lambda>_.
        case bx_type argument of
          None \<Rightarrow> Inl TypeMismatch
        | Some t \<Rightarrow> Inr (BoundFunction name [argument] (if name = lit ''AVG'' then FLOAT64 else t) True False)))"

section \<open>Expressions\<close>

fun is_star :: "expr \<Rightarrow> bool" where
  "is_star (Star table) = True"
| "is_star _ = False"

fun bind_expression_inner ::
    "unicode \<Rightarrow> (pystr \<Rightarrow> pystr) \<Rightarrow> scope_entry list \<Rightarrow> bool \<Rightarrow> nat \<Rightarrow> expr \<Rightarrow> bound_expr result" where
  "bind_expression_inner u cf scope allow_aggregate depth (Literal v) =
     (case infer_type v of
        Some INT64 \<Rightarrow> res_bind (validate_int64 v) (\<lambda>_. Inr (BoundLiteral v (Some INT64) (v = ScNone)))
      | t \<Rightarrow> Inr (BoundLiteral v t (v = ScNone)))"
| "bind_expression_inner u cf scope allow_aggregate depth (ColumnRef name table) = resolve_column cf scope name table"
| "bind_expression_inner u cf scope allow_aggregate depth (Star table) = Inl BindError"
| "bind_expression_inner u cf scope allow_aggregate depth (UnaryExpr q e) =
     res_bind (bind_expression_inner u cf scope allow_aggregate depth e) (bind_unary q)"
| "bind_expression_inner u cf scope allow_aggregate depth (BinaryExpr l q r) =
     res_bind (bind_expression_inner u cf scope allow_aggregate depth l) (\<lambda>l'.
     res_bind (bind_expression_inner u cf scope allow_aggregate depth r) (\<lambda>r'. bind_binary l' q r'))"
| "bind_expression_inner u cf scope allow_aggregate depth (IsNullExpr e negated) =
     res_bind (bind_expression_inner u cf scope allow_aggregate depth e) (\<lambda>e'. Inr (BoundIsNull e' negated))"
| "bind_expression_inner u cf scope allow_aggregate depth (FunctionCall f args) =
     (let name = str_upper u f
      in if name \<notin> set AGGREGATES then Inl BindError
         else if \<not> allow_aggregate then Inl BindError
         else if depth \<noteq> 0 then Inl BindError
         else case args of
           [argument] \<Rightarrow>
             if is_star argument then
               (if name \<noteq> lit ''COUNT'' then Inl BindError else Inr (BoundFunction name [] INT64 False True))
             else res_bind (bind_expression_inner u cf scope True (Suc depth) argument) (bind_aggregate name)
         | _ \<Rightarrow> Inl BindError)"

definition bind_expression :: "unicode \<Rightarrow> (pystr \<Rightarrow> pystr) \<Rightarrow> scope_entry list \<Rightarrow> bool \<Rightarrow> expr \<Rightarrow> bound_expr result" where
  "bind_expression u cf scope allow_aggregate e = bind_expression_inner u cf scope allow_aggregate 0 e"

definition bind_predicate :: "unicode \<Rightarrow> (pystr \<Rightarrow> pystr) \<Rightarrow> scope_entry list \<Rightarrow> expr \<Rightarrow> bound_expr result" where
  "bind_predicate u cf scope e =
     res_bind (bind_expression u cf scope False e) (\<lambda>b.
     case b of
       BoundLiteral ScNone t n \<Rightarrow> Inr (BoundLiteral ScNone (Some BOOLEAN) True)
     | _ \<Rightarrow> if bx_type b \<noteq> Some BOOLEAN then Inl TypeMismatch else Inr b)"

definition bind_where :: "unicode \<Rightarrow> (pystr \<Rightarrow> pystr) \<Rightarrow> scope_entry list \<Rightarrow> expr option \<Rightarrow> bound_expr option result" where
  "bind_where u cf scope w =
     (case w of None \<Rightarrow> Inr None | Some e \<Rightarrow> res_bind (bind_predicate u cf scope e) (\<lambda>b. Inr (Some b)))"

section \<open>Grouping\<close>

fun contains_aggregate :: "bound_expr \<Rightarrow> bool" where
  "contains_aggregate (BoundFunction f args t n star) = True"
| "contains_aggregate (BoundUnary q e t n) = contains_aggregate e"
| "contains_aggregate (BoundBinary l q r t n) = (contains_aggregate l \<or> contains_aggregate r)"
| "contains_aggregate (BoundCast e t n) = contains_aggregate e"
| "contains_aggregate (BoundIsNull e negated) = contains_aggregate e"
| "contains_aggregate _ = False"

definition in_group :: "bound_expr \<Rightarrow> bound_expr list \<Rightarrow> bool" where
  "in_group e group_by \<longleftrightarrow> list_ex (bound_eq e) group_by"

fun ungrouped_columns :: "bound_expr \<Rightarrow> bound_expr list \<Rightarrow> bool \<Rightarrow> bound_expr list" where
  "ungrouped_columns (BoundFunction f args t n star) group_by inside_aggregate = []"
| "ungrouped_columns (BoundColumn b c t n) group_by inside_aggregate =
     (if in_group (BoundColumn b c t n) group_by \<and> \<not> inside_aggregate then []
      else if inside_aggregate then [] else [BoundColumn b c t n])"
| "ungrouped_columns (BoundUnary q e t n) group_by inside_aggregate =
     (if in_group (BoundUnary q e t n) group_by \<and> \<not> inside_aggregate then []
      else ungrouped_columns e group_by inside_aggregate)"
| "ungrouped_columns (BoundBinary l q r t n) group_by inside_aggregate =
     (if in_group (BoundBinary l q r t n) group_by \<and> \<not> inside_aggregate then []
      else ungrouped_columns l group_by inside_aggregate @ ungrouped_columns r group_by inside_aggregate)"
| "ungrouped_columns (BoundCast e t n) group_by inside_aggregate =
     (if in_group (BoundCast e t n) group_by \<and> \<not> inside_aggregate then []
      else ungrouped_columns e group_by inside_aggregate)"
| "ungrouped_columns (BoundIsNull e negated) group_by inside_aggregate =
     (if in_group (BoundIsNull e negated) group_by \<and> \<not> inside_aggregate then []
      else ungrouped_columns e group_by inside_aggregate)"
| "ungrouped_columns (BoundLiteral v t n) group_by inside_aggregate = []"

definition require_grouped :: "bound_expr list \<Rightarrow> bound_expr \<Rightarrow> unit result" where
  "require_grouped group_by e = res_require (ungrouped_columns e group_by False = []) BindError"

section \<open>Statements\<close>

fun default_output_name :: "(pystr \<Rightarrow> pystr) \<Rightarrow> expr \<Rightarrow> pystr" where
  "default_output_name cf (ColumnRef name table) = name"
| "default_output_name cf (FunctionCall f args) = cf f"
| "default_output_name cf _ = lit ''?column?''"

fun bind_join_tables ::
    "(pystr \<Rightarrow> pystr) \<Rightarrow> catalog \<Rightarrow> scope_entry list \<Rightarrow> join_clause list \<Rightarrow> (bound_table list \<times> scope_entry list) result" where
  "bind_join_tables cf c scope [] = Inr ([], scope)"
| "bind_join_tables cf c scope (j # js) =
     res_bind (bind_table_ref cf c scope (jc_table j)) (\<lambda>(t, scope').
     res_bind (bind_join_tables cf c scope' js) (\<lambda>(ts, scope''). Inr (t # ts, scope'')))"

definition bind_select_item :: "unicode \<Rightarrow> (pystr \<Rightarrow> pystr) \<Rightarrow> scope_entry list \<Rightarrow> select_item \<Rightarrow> bound_select_item list result" where
  "bind_select_item u cf scope item =
     (case si_expression item of
        Star table \<Rightarrow>
          res_bind (expand_star cf scope table) (\<lambda>cols.
          Inr (map (\<lambda>b. BoundSelectItem b (case b of BoundColumn _ name _ _ \<Rightarrow> name | _ \<Rightarrow> [])) cols))
      | e \<Rightarrow>
          res_bind (bind_expression u cf scope True e) (\<lambda>b.
          Inr [BoundSelectItem b (str_or (si_alias item) (default_output_name cf e))]))"

definition bind_order_item ::
    "unicode \<Rightarrow> (pystr \<Rightarrow> pystr) \<Rightarrow> scope_entry list \<Rightarrow> (pystr \<times> bound_expr) list \<Rightarrow> order_item \<Rightarrow> bound_order_item result" where
  "bind_order_item u cf scope aliases item =
     res_bind (case oi_expression item of
         ColumnRef name None \<Rightarrow>
           (case map_of aliases (cf name) of
              Some b \<Rightarrow> Inr b
            | None \<Rightarrow> bind_expression u cf scope True (oi_expression item))
       | _ \<Rightarrow> bind_expression u cf scope True (oi_expression item)) (\<lambda>b.
     Inr (BoundOrderItem b (oi_direction item) (oi_nulls item)))"

definition bind_select :: "unicode \<Rightarrow> (pystr \<Rightarrow> pystr) \<Rightarrow> catalog \<Rightarrow> select_stmt \<Rightarrow> bound_select result" where
  "bind_select u cf c s =
     res_bind (case ss_from s of
         None \<Rightarrow> Inr (None, [])
       | Some r \<Rightarrow> res_bind (bind_table_ref cf c [] r) (\<lambda>(t, scope). Inr (Some t, scope))) (\<lambda>(from_table, scope0).
     res_bind (bind_join_tables cf c scope0 (ss_joins s)) (\<lambda>(join_tables, scope).
     res_bind (res_mapM (\<lambda>(j, t). res_bind (bind_predicate u cf scope (jc_condition j)) (\<lambda>b. Inr (BoundJoin t b)))
         (zip (ss_joins s) join_tables)) (\<lambda>joins.
     res_bind (bind_where u cf scope (ss_where s)) (\<lambda>where_expr.
     res_bind (res_mapM (bind_expression u cf scope False) (ss_group_by s)) (\<lambda>group_by.
     res_bind (res_mapM (bind_select_item u cf scope) (ss_items s)) (\<lambda>item_lists.
     let items = concat item_lists;
         aliases = map (\<lambda>i. (cf (bsi_name i), bsi_expression i)) items
     in res_bind (res_mapM (bind_order_item u cf scope aliases) (ss_order_by s)) (\<lambda>order_by.
        let has_aggregate = list_ex (\<lambda>i. contains_aggregate (bsi_expression i)) items
              \<or> list_ex (\<lambda>i. contains_aggregate (boi_expression i)) order_by
        in res_bind (if has_aggregate \<or> group_by \<noteq> [] then
               res_bind (res_mapM (\<lambda>i. require_grouped group_by (bsi_expression i)) items) (\<lambda>_.
               res_mapM (\<lambda>i. require_grouped group_by (boi_expression i)) order_by)
             else Inr []) (\<lambda>_.
        Inr \<lparr>bs_items = items, bs_from = from_table, bs_joins = joins, bs_where = where_expr,
             bs_group_by = group_by, bs_order_by = order_by, bs_limit = ss_limit s\<rparr>))))))))"

fun insert_columns :: "(pystr \<Rightarrow> pystr) \<Rightarrow> table_metadata \<Rightarrow> pystr list \<Rightarrow> pystr list \<Rightarrow> column list result" where
  "insert_columns cf t seen [] = Inr []"
| "insert_columns cf t seen (name # names) =
     (if cf name \<in> set seen then Inl BindError
      else res_bind (bind_column cf t name) (\<lambda>col.
           res_bind (insert_columns cf t (cf name # seen) names) (\<lambda>cols. Inr (col # cols))))"

definition bind_insert_row ::
    "unicode \<Rightarrow> (pystr \<Rightarrow> pystr) \<Rightarrow> column list \<Rightarrow> expr list \<Rightarrow> bound_expr list result" where
  "bind_insert_row u cf target_columns row =
     (if length row \<noteq> length target_columns then Inl BindError
      else res_mapM (\<lambda>(e, col). res_bind (bind_expression u cf [] False e) (\<lambda>b. coerce b (col_data_type col)))
             (zip row target_columns))"

definition bind_insert ::
    "unicode \<Rightarrow> (pystr \<Rightarrow> pystr) \<Rightarrow> catalog \<Rightarrow> pystr \<Rightarrow> pystr list option \<Rightarrow> expr list list \<Rightarrow> bound_statement result" where
  "bind_insert u cf c table_name names rows =
     res_bind (bind_table cf c table_name) (\<lambda>t.
     res_bind (case names of None \<Rightarrow> Inr (columns (tm_schema t)) | Some ns \<Rightarrow> insert_columns cf t [] ns) (\<lambda>target_columns.
     res_bind (res_mapM (bind_insert_row u cf target_columns) rows) (\<lambda>bound_rows.
     Inr (BoundInsert t target_columns bound_rows))))"

fun bind_assignments ::
    "unicode \<Rightarrow> (pystr \<Rightarrow> pystr) \<Rightarrow> scope_entry list \<Rightarrow> table_metadata \<Rightarrow> pystr list \<Rightarrow> assignment list \<Rightarrow> bound_assignment list result" where
  "bind_assignments u cf scope t seen [] = Inr []"
| "bind_assignments u cf scope t seen (a # as) =
     res_bind (bind_column cf t (as_column a)) (\<lambda>col.
     if cf (col_name col) \<in> set seen then Inl BindError
     else res_bind (bind_expression u cf scope False (as_expression a)) (\<lambda>b.
          res_bind (coerce b (col_data_type col)) (\<lambda>b'.
          res_bind (bind_assignments u cf scope t (cf (col_name col) # seen) as) (\<lambda>bs.
          Inr (BoundAssignment col b' # bs)))))"

definition bind_update ::
    "unicode \<Rightarrow> (pystr \<Rightarrow> pystr) \<Rightarrow> catalog \<Rightarrow> pystr \<Rightarrow> assignment list \<Rightarrow> expr option \<Rightarrow> bound_statement result" where
  "bind_update u cf c table_name assignments w =
     res_bind (bind_table cf c table_name) (\<lambda>t.
     res_bind (bind_table_ref cf c [] (TableRef (tm_name t) None)) (\<lambda>(_, scope).
     res_bind (bind_assignments u cf scope t [] assignments) (\<lambda>bound_assignments.
     res_bind (bind_where u cf scope w) (\<lambda>where_expr.
     Inr (BoundUpdate t bound_assignments where_expr)))))"

definition bind_delete :: "unicode \<Rightarrow> (pystr \<Rightarrow> pystr) \<Rightarrow> catalog \<Rightarrow> pystr \<Rightarrow> expr option \<Rightarrow> bound_statement result" where
  "bind_delete u cf c table_name w =
     res_bind (bind_table cf c table_name) (\<lambda>t.
     res_bind (bind_table_ref cf c [] (TableRef (tm_name t) None)) (\<lambda>(_, scope).
     res_bind (bind_where u cf scope w) (\<lambda>where_expr. Inr (BoundDelete t where_expr))))"

definition bind_optional_table :: "(pystr \<Rightarrow> pystr) \<Rightarrow> catalog \<Rightarrow> pystr option \<Rightarrow> table_metadata option result" where
  "bind_optional_table cf c name =
     (case name of None \<Rightarrow> Inr None | Some n \<Rightarrow> res_bind (bind_table cf c n) (\<lambda>t. Inr (Some t)))"

fun bind :: "unicode \<Rightarrow> (pystr \<Rightarrow> pystr) \<Rightarrow> catalog \<Rightarrow> statement \<Rightarrow> bound_statement result" where
  "bind u cf c (SelectStmt s) = res_bind (bind_select u cf c s) (\<lambda>b. Inr (BoundSelect b))"
| "bind u cf c (InsertStmt table names rows) = bind_insert u cf c table names rows"
| "bind u cf c (UpdateStmt table assignments w) = bind_update u cf c table assignments w"
| "bind u cf c (DeleteStmt table w) = bind_delete u cf c table w"
| "bind u cf c (CreateTableStmt name cols) = Inr (BoundCreateTable name cols)"
| "bind u cf c (CreateIndexStmt name table names unique) =
     res_bind (bind_table cf c table) (\<lambda>t.
     res_bind (res_mapM (bind_column cf t) names) (\<lambda>cols. Inr (BoundCreateIndex name t cols unique)))"
| "bind u cf c (ExplainStmt s analyze) = res_bind (bind u cf c s) (\<lambda>b. Inr (BoundExplain b analyze))"
| "bind u cf c (AnalyzeStmt table) = res_bind (bind_optional_table cf c table) (\<lambda>t. Inr (BoundAnalyze t))"
| "bind u cf c (VacuumStmt table) = res_bind (bind_optional_table cf c table) (\<lambda>t. Inr (BoundVacuum t))"
| "bind u cf c BeginStmt = Inr BoundBegin"
| "bind u cf c CommitStmt = Inr BoundCommit"
| "bind u cf c RollbackStmt = Inr BoundRollback"

section \<open>Accepted expressions are well typed\<close>

text \<open>The operators the grammar has.\<close>

fun ast_ok :: "expr \<Rightarrow> bool" where
  "ast_ok (UnaryExpr q e) = (q \<in> {''NOT'', ''+'', ''-''} \<and> ast_ok e)"
| "ast_ok (BinaryExpr l q r) =
     (q \<in> {''AND'', ''OR'', ''+'', ''-'', ''*'', ''/''} \<union> set comparison_operators \<and> ast_ok l \<and> ast_ok r)"
| "ast_ok (IsNullExpr e negated) = ast_ok e"
| "ast_ok (FunctionCall f args) = (\<forall>a \<in> set args. ast_ok a)"
| "ast_ok _ = True"

text \<open>A column reference names a column of a table in scope, with that column's type.\<close>

definition scope_column :: "bound_table list \<Rightarrow> column_binding \<Rightarrow> pystr \<Rightarrow> data_type \<Rightarrow> bool \<Rightarrow> bool" where
  "scope_column tables b name t n \<longleftrightarrow>
     (\<exists>table \<in> set tables. \<exists>col \<in> set (columns (tm_schema (bt_metadata table))).
        mk_binding (tm_table_id (bt_metadata table)) (col_column_id col) = Inr b
        \<and> name = col_name col \<and> t = col_data_type col \<and> n = col_nullable col)"

fun in_scope :: "bound_table list \<Rightarrow> bound_expr \<Rightarrow> bool" where
  "in_scope tables (BoundLiteral v t n) = True"
| "in_scope tables (BoundColumn b c t n) = scope_column tables b c t n"
| "in_scope tables (BoundCast e t n) = in_scope tables e"
| "in_scope tables (BoundUnary q e t n) = in_scope tables e"
| "in_scope tables (BoundBinary l q r t n) = (in_scope tables l \<and> in_scope tables r)"
| "in_scope tables (BoundIsNull e negated) = in_scope tables e"
| "in_scope tables (BoundFunction f args t n star) = (\<forall>a \<in> set args. in_scope tables a)"

definition good :: "bound_table list \<Rightarrow> bool \<Rightarrow> bound_expr \<Rightarrow> bool" where
  "good tables aggregates b \<longleftrightarrow> typed b \<and> in_scope tables b \<and> (contains_aggregate b \<longrightarrow> aggregates)"

lemma schema_column_by_name_set: "schema_column_by_name cf s name = Inr col \<Longrightarrow> col \<in> set (columns s)"
  by (auto simp: schema_column_by_name_def find_Some_iff split: option.splits)

lemma scope_entries_subset: "scope_entries cf scope table = Inr entries \<Longrightarrow> set entries \<subseteq> set scope"
  by (force simp: scope_entries_def split: option.splits list.splits)

lemma column_expr_good:
  assumes "column_expr (bt_metadata (sc_table entry)) col = Inr b" and "entry \<in> set scope"
    and "col \<in> set (columns (tm_schema (bt_metadata (sc_table entry))))"
  shows "good (map sc_table scope) agg b"
proof -
  obtain binding where "mk_binding (tm_table_id (bt_metadata (sc_table entry))) (col_column_id col) = Inr binding"
    "b = BoundColumn binding (col_name col) (col_data_type col) (col_nullable col)"
    using assms(1) by (auto simp: column_expr_def res_simps)
  then show ?thesis using assms(2,3) by (auto simp: good_def scope_column_def)
qed

lemma column_matches_set:
  assumes "(t, col) \<in> set (column_matches cf entries name)"
  shows "\<exists>entry \<in> set entries. t = bt_metadata (sc_table entry) \<and> col \<in> set (columns (tm_schema t))"
  using assms by (auto simp: column_matches_def Let_def split: sum.splits intro: schema_column_by_name_set [OF sym])

lemma resolve_column_good: 
  assumes "resolve_column cf scope name table = Inr b"
  shows "good (map sc_table scope) agg b"
proof -
  obtain entries t col where e: "scope_entries cf scope table = Inr entries"
    and m: "column_matches cf entries name = [(t, col)]" and b: "column_expr t col = Inr b"
  proof -
    obtain entries where e: "scope_entries cf scope table = Inr entries"
      and r: "(case column_matches cf entries name of [(t, col)] \<Rightarrow> column_expr t col | _ \<Rightarrow> Inl BindError) = Inr b"
      using assms by (auto simp: resolve_column_def res_simps)
    then obtain p where "column_matches cf entries name = [p]" by (auto split: list.splits)
    then show thesis using that [OF e, of "fst p" "snd p"] r by (simp add: case_prod_beta)
  qed
  obtain entry where "entry \<in> set entries" "t = bt_metadata (sc_table entry)" "col \<in> set (columns (tm_schema t))"
    using column_matches_set [of t col cf entries name] m by auto
  then show ?thesis using scope_entries_subset [OF e] b column_expr_good by blast
qed

lemma expand_star_good:
  assumes "expand_star cf scope table = Inr bs" and "b \<in> set bs"
  shows "good (map sc_table scope) agg b"
proof -
  obtain entries where e: "scope_entries cf scope table = Inr entries"
    and bs: "res_mapM (\<lambda>(t, col). column_expr t col)
       (concat (map (\<lambda>entry. let t = bt_metadata (sc_table entry) in map (Pair t) (columns (tm_schema t))) entries)) = Inr bs"
    using assms by (auto simp: expand_star_def res_simps split: if_splits)
  obtain t col where p: "(t, col) \<in> set (concat (map (\<lambda>entry. let t = bt_metadata (sc_table entry) in map (Pair t) (columns (tm_schema t))) entries))"
    "column_expr t col = Inr b"
    using res_mapM_Inr_set [OF bs assms(2)] by auto
  then obtain entry where "entry \<in> set entries" "t = bt_metadata (sc_table entry)" "col \<in> set (columns (tm_schema t))"
    by (auto simp: Let_def)
  then show ?thesis using scope_entries_subset [OF e] p(2) column_expr_good by blast
qed

lemma typed_untyped: "typed e \<Longrightarrow> bx_type e = None \<Longrightarrow> \<exists>t n. e = BoundLiteral ScNone t n"
  by (cases e) (auto dest: fits_cases(5))

lemma typed_null: "typed (BoundLiteral ScNone t n) \<Longrightarrow> n"
  by simp

lemma coerce_good:
  assumes "coerce e t = Inr e'" and "good scope agg e"
  shows "good scope agg e' \<and> bx_type e' = Some t"
proof (cases "bx_type e")
  case None
  then show ?thesis
    using assms by (auto simp: coerce_def good_def split: bound_expr.splits if_splits)
next
  case (Some s)
  then show ?thesis using assms by (auto simp: coerce_def good_def split: if_splits)
qed

lemma numeric_pair_good:
  assumes "numeric_pair l r = Inr (l', r', t)" and "good scope agg l" and "good scope agg r"
  shows "good scope agg l' \<and> good scope agg r' \<and> bx_type l' = Some t \<and> bx_type r' = Some t \<and> is_numeric t"
  using assms coerce_good
  by (fastforce simp: numeric_pair_def require_numeric_def NUMERIC_def is_numeric_def res_simps split: if_splits)

lemma comparable_pair_good:
  assumes "comparable_pair l r = Inr (l', r')" and l: "good scope agg l" and r: "good scope agg r"
  shows "good scope agg l' \<and> good scope agg r' \<and> bx_type l' = bx_type r'"
proof (cases "bx_type l"; cases "bx_type r")
  fix t t' assume t: "bx_type l = Some t" "bx_type r = Some t'"
  show ?thesis
  proof (cases "t = t'")
    case True
    then show ?thesis using assms t by (simp add: comparable_pair_def)
  next
    case False
    then obtain s where "numeric_pair l r = Inr (l', r', s)"
      using assms(1) t by (auto simp: comparable_pair_def res_simps split: if_splits)
    from numeric_pair_good [OF this l r] show ?thesis by simp
  qed
qed (use assms coerce_good in \<open>auto simp: comparable_pair_def res_simps\<close>)

lemma mk_binary_good:
  assumes "good scope agg l" "good scope agg r"
    and "if q \<in> {''AND'', ''OR''} then t = BOOLEAN \<and> bx_type l = Some BOOLEAN \<and> bx_type r = Some BOOLEAN
         else if q \<in> set comparison_operators then t = BOOLEAN \<and> bx_type l = bx_type r
         else q \<in> {''+'', ''-'', ''*'', ''/''} \<and> is_numeric t \<and> bx_type l = Some t \<and> bx_type r = Some t"
  shows "good scope agg (mk_binary l q r t)"
  using assms by (simp add: good_def mk_binary_def)

lemma bind_binary_good:
  assumes b: "bind_binary l q r = Inr b" and l: "good scope agg l" and r: "good scope agg r"
    and q: "q \<in> {''AND'', ''OR'', ''+'', ''-'', ''*'', ''/''} \<union> set comparison_operators"
  shows "good scope agg b"
proof -
  have "q \<notin> {''AND'', ''OR''} \<and> q \<notin> set comparison_operators" if "q \<in> {''+'', ''-'', ''*'', ''/''}"
    using that by (auto simp: comparison_operators_def)
  then consider (logic) "q \<in> {''AND'', ''OR''}"
    | (arith) "q \<in> {''+'', ''-'', ''*'', ''/''}" "q \<notin> {''AND'', ''OR''}" "q \<notin> set comparison_operators"
    | (cmp) "q \<in> set comparison_operators" "q \<notin> {''AND'', ''OR''}" "q \<notin> {''+'', ''-'', ''*'', ''/''}"
    using q by (cases "q \<in> {''+'', ''-'', ''*'', ''/''}"; cases "q \<in> {''AND'', ''OR''}") simp_all
  then show ?thesis
  proof cases
    case logic
    then have "b = mk_binary l q r BOOLEAN" "bx_type l = Some BOOLEAN" "bx_type r = Some BOOLEAN"
      using b by (auto simp: bind_binary_def split: if_splits)
    then show ?thesis using mk_binary_good [OF l r, of q BOOLEAN] logic by simp
  next
    case arith
    then obtain l' r' t where p: "numeric_pair l r = Inr (l', r', t)" "b = mk_binary l' q r' t"
      using b by (auto simp: bind_binary_def res_simps)
    from numeric_pair_good [OF p(1) l r] show ?thesis using p(2) arith mk_binary_good [of scope agg l' r' q t] by simp
  next
    case cmp
    then obtain l' r' where p: "comparable_pair l r = Inr (l', r')" "b = mk_binary l' q r' BOOLEAN"
      using b by (auto simp: bind_binary_def res_simps)
    from comparable_pair_good [OF p(1) l r] show ?thesis using p(2) cmp mk_binary_good [of scope agg l' r' q BOOLEAN] by simp
  qed
qed

lemma bind_unary_good:
  assumes "bind_unary q e = Inr b" and "good scope agg e" and "q \<in> {''NOT'', ''+'', ''-''}"
  shows "good scope agg b"
  using assms by (auto simp: bind_unary_def good_def require_numeric_def NUMERIC_def is_numeric_def res_simps split: if_splits)

lemma bind_aggregate_good:
  assumes "bind_aggregate name a = Inr b" and "good scope agg a"
  shows "good scope True b"
  using assms by (auto simp: bind_aggregate_def good_def res_simps split: if_splits option.splits)

lemma literal_good:
  "bind_expression_inner u cf scope allow depth (Literal v) = Inr b \<Longrightarrow> good (map sc_table scope) agg b"
  by (cases v) (auto simp: good_def in_int64_def res_simps split: if_splits)

lemma bind_expression_inner_good:
  "ast_ok e \<Longrightarrow> bind_expression_inner u cf scope allow depth e = Inr b \<Longrightarrow> good (map sc_table scope) (allow \<and> depth = 0) b"
proof (induction u cf scope allow depth e arbitrary: b rule: bind_expression_inner.induct)
  case (1 u cf scope allow depth v)
  then show ?case using literal_good by blast
next
  case (2 u cf scope allow depth name table)
  then show ?case using resolve_column_good by simp
next
  case (4 u cf scope allow depth q e)
  then obtain a where "bind_expression_inner u cf scope allow depth e = Inr a" "bind_unary q a = Inr b"
    by (auto simp: res_simps)
  then show ?case using bind_unary_good 4(1,2) by simp
next
  case (5 u cf scope allow depth l q r)
  then show ?case by (auto simp: res_simps intro: bind_binary_good)
next
  case (7 u cf scope allow depth f args)
  then obtain argument where args: "args = [argument]" and agg: "str_upper u f \<in> set AGGREGATES" "allow" "depth = 0"
    by (auto simp: Let_def split: if_splits list.splits)
  show ?case
  proof (cases "is_star argument")
    case True
    then show ?thesis using 7(3) args agg by (auto simp: good_def Let_def split: if_splits)
  next
    case False
    then obtain a where a: "bind_expression_inner u cf scope True (Suc depth) argument = Inr a"
      "bind_aggregate (str_upper u f) a = Inr b"
      using 7(3) args agg by (auto simp: res_simps Let_def)
    have "good (map sc_table scope) (True \<and> Suc depth = 0) a"
      using 7(1) [of "str_upper u f" argument "[]" a] args agg a(1) 7(2) False by simp
    then show ?thesis using bind_aggregate_good [OF a(2)] agg by simp
  qed
qed (auto simp: res_simps good_def)

section \<open>Accepted statements are well typed\<close>

lemma bind_table_ref_scope:
  "bind_table_ref cf c scope r = Inr (t, scope') \<Longrightarrow> map sc_table scope' = map sc_table scope @ [t]"
  by (auto simp: bind_table_ref_def Let_def res_simps split: if_splits)

lemma bind_join_tables_scope:
  "bind_join_tables cf c scope js = Inr (ts, scope') \<Longrightarrow>
     length ts = length js \<and> map sc_table scope' = map sc_table scope @ ts"
proof (induction js arbitrary: scope ts scope')
  case Nil
  then show ?case by simp
next
  case (Cons j js)
  then obtain t sc1 ts' where "bind_table_ref cf c scope (jc_table j) = Inr (t, sc1)"
    "bind_join_tables cf c sc1 js = Inr (ts', scope')" "ts = t # ts'"
    by (auto simp: res_simps)
  then show ?case using Cons.IH bind_table_ref_scope by fastforce
qed

lemma bind_expression_good:
  "ast_ok e \<Longrightarrow> bind_expression u cf scope allow e = Inr b \<Longrightarrow> good (map sc_table scope) allow b"
  using bind_expression_inner_good [of e u cf scope allow 0 b] by (simp add: bind_expression_def)

lemma bind_predicate_good:
  assumes "ast_ok e" and "bind_predicate u cf scope e = Inr b"
  shows "good (map sc_table scope) False b \<and> bx_type b = Some BOOLEAN"
proof -
  obtain b0 where b0: "bind_expression u cf scope False e = Inr b0"
    and b: "b = BoundLiteral ScNone (Some BOOLEAN) True \<or> b = b0 \<and> bx_type b0 = Some BOOLEAN"
  proof (cases "bind_expression u cf scope False e")
    case (Inr b0)
    then have "b = BoundLiteral ScNone (Some BOOLEAN) True \<or> b = b0 \<and> bx_type b0 = Some BOOLEAN"
      using assms(2) unfolding bind_predicate_def
      by (cases b0) (auto split: scalar.splits if_splits)
    then show thesis using that Inr by blast
  qed (use assms(2) in \<open>simp add: bind_predicate_def\<close>)
  have "good (map sc_table scope) False b0" by (rule bind_expression_good [OF assms(1) b0])
  then show ?thesis using b by (auto simp: good_def)
qed

definition predicate_ok :: "bound_table list \<Rightarrow> bound_expr \<Rightarrow> bool" where
  "predicate_ok tables b \<longleftrightarrow> good tables False b \<and> bx_type b = Some BOOLEAN"

definition where_ok :: "bound_table list \<Rightarrow> bound_expr option \<Rightarrow> bool" where
  "where_ok tables w \<longleftrightarrow> (case w of None \<Rightarrow> True | Some b \<Rightarrow> predicate_ok tables b)"

definition where_ast_ok :: "expr option \<Rightarrow> bool" where
  "where_ast_ok w \<longleftrightarrow> (case w of None \<Rightarrow> True | Some e \<Rightarrow> ast_ok e)"

lemma bind_where_ok: "where_ast_ok w \<Longrightarrow> bind_where u cf scope w = Inr b \<Longrightarrow> where_ok (map sc_table scope) b"
  using bind_predicate_good by (cases w) (fastforce simp: bind_where_def where_ok_def where_ast_ok_def predicate_ok_def res_simps)+

definition select_tables :: "bound_select \<Rightarrow> bound_table list" where
  "select_tables s = (case bs_from s of None \<Rightarrow> [] | Some t \<Rightarrow> [t]) @ map bj_table (bs_joins s)"

definition grouped :: "bound_select \<Rightarrow> bool" where
  "grouped s \<longleftrightarrow> bs_group_by s \<noteq> [] \<or> list_ex (\<lambda>i. contains_aggregate (bsi_expression i)) (bs_items s)
     \<or> list_ex (\<lambda>i. contains_aggregate (boi_expression i)) (bs_order_by s)"

definition select_ok :: "bound_select \<Rightarrow> bool" where
  "select_ok s \<longleftrightarrow> (let ts = select_tables s in
     list_all (\<lambda>j. predicate_ok ts (bj_condition j)) (bs_joins s) \<and> where_ok ts (bs_where s)
     \<and> list_all (good ts False) (bs_group_by s)
     \<and> list_all (\<lambda>i. good ts True (bsi_expression i)) (bs_items s)
     \<and> list_all (\<lambda>i. good ts True (boi_expression i)) (bs_order_by s)
     \<and> (grouped s \<longrightarrow> list_all (\<lambda>i. ungrouped_columns (bsi_expression i) (bs_group_by s) False = []) (bs_items s)
          \<and> list_all (\<lambda>i. ungrouped_columns (boi_expression i) (bs_group_by s) False = []) (bs_order_by s)))"

definition assigned_ok :: "bound_table list \<Rightarrow> column \<Rightarrow> bound_expr \<Rightarrow> bool" where
  "assigned_ok tables col b \<longleftrightarrow> good tables False b \<and> bx_type b = Some (col_data_type col)"

fun bound_ok :: "bound_statement \<Rightarrow> bool" where
  "bound_ok (BoundSelect s) = select_ok s"
| "bound_ok (BoundInsert t cols rows) =
     (set cols \<subseteq> set (columns (tm_schema t)) \<and> list_all (list_all2 (assigned_ok []) cols) rows)"
| "bound_ok (BoundUpdate t as w) =
     (list_all (\<lambda>a. ba_column a \<in> set (columns (tm_schema t))
          \<and> (\<exists>name. assigned_ok [BoundTable t name] (ba_column a) (ba_expression a))) as
      \<and> distinct (map ba_column as) \<and> (\<exists>name. where_ok [BoundTable t name] w))"
| "bound_ok (BoundDelete t w) = (\<exists>name. where_ok [BoundTable t name] w)"
| "bound_ok (BoundCreateIndex name t cols unique) = (set cols \<subseteq> set (columns (tm_schema t)))"
| "bound_ok (BoundExplain s analyze) = bound_ok s"
| "bound_ok _ = True"

fun statement_ast_ok :: "statement \<Rightarrow> bool" where
  "statement_ast_ok (SelectStmt s) =
     (list_all (\<lambda>i. ast_ok (si_expression i)) (ss_items s) \<and> list_all (\<lambda>j. ast_ok (jc_condition j)) (ss_joins s)
      \<and> where_ast_ok (ss_where s) \<and> list_all ast_ok (ss_group_by s)
      \<and> list_all (\<lambda>i. ast_ok (oi_expression i)) (ss_order_by s))"
| "statement_ast_ok (InsertStmt table names rows) = list_all (list_all ast_ok) rows"
| "statement_ast_ok (UpdateStmt table as w) = (list_all (\<lambda>a. ast_ok (as_expression a)) as \<and> where_ast_ok w)"
| "statement_ast_ok (DeleteStmt table w) = where_ast_ok w"
| "statement_ast_ok (ExplainStmt s analyze) = statement_ast_ok s"
| "statement_ast_ok _ = True"

lemma bind_select_item_good:
  assumes "ast_ok (si_expression item)" and "bind_select_item u cf scope item = Inr items" and "i \<in> set items"
  shows "good (map sc_table scope) True (bsi_expression i)"
proof (cases "\<exists>table. si_expression item = Star table")
  case True
  then obtain cols where "expand_star cf scope (case si_expression item of Star table \<Rightarrow> table | _ \<Rightarrow> None) = Inr cols"
    "bsi_expression i \<in> set cols"
    using assms(2,3) by (auto simp: bind_select_item_def res_simps)
  then show ?thesis by (rule expand_star_good)
next
  case False
  then obtain b where "bind_expression u cf scope True (si_expression item) = Inr b" "bsi_expression i = b"
    using assms(2,3) by (cases "si_expression item") (auto simp: bind_select_item_def res_simps)
  then show ?thesis using bind_expression_good [OF assms(1)] by simp
qed

lemma bind_order_item_good:
  assumes "ast_ok (oi_expression item)" and "bind_order_item u cf scope aliases item = Inr i"
    and "\<And>n b. (n, b) \<in> set aliases \<Longrightarrow> good (map sc_table scope) True b"
  shows "good (map sc_table scope) True (boi_expression i)"
proof -
  have "bind_expression u cf scope True (oi_expression item) = Inr (boi_expression i) \<or> (\<exists>n. (n, boi_expression i) \<in> set aliases)"
    using assms(2) by (auto simp: bind_order_item_def res_simps split: expr.splits option.splits dest!: map_of_SomeD)
  then show ?thesis using bind_expression_good [OF assms(1)] assms(3) by blast
qed

lemma bind_column_set: "bind_column cf t name = Inr col \<Longrightarrow> col \<in> set (columns (tm_schema t))"
  by (simp add: bind_column_def schema_column_by_name_set)

lemma insert_columns_set: "insert_columns cf t seen names = Inr cols \<Longrightarrow> set cols \<subseteq> set (columns (tm_schema t))"
proof (induction names arbitrary: seen cols)
  case (Cons name names)
  then obtain col cols' where "bind_column cf t name = Inr col" "insert_columns cf t (cf name # seen) names = Inr cols'"
    "cols = col # cols'" by (auto simp: res_simps split: if_splits)
  then show ?case using Cons.IH bind_column_set by fastforce
qed simp

lemma bind_insert_row_ok:
  assumes "list_all ast_ok row" and "bind_insert_row u cf cols row = Inr bs"
  shows "list_all2 (assigned_ok []) cols bs"
proof -
  have len: "length row = length cols"
    and m: "res_mapM (\<lambda>(e, col). res_bind (bind_expression u cf [] False e) (\<lambda>b. coerce b (col_data_type col))) (zip row cols) = Inr bs"
    using assms(2) by (auto simp: bind_insert_row_def split: if_splits)
  have "assigned_ok [] (cols ! i) (bs ! i)" if i: "i < length cols" for i
  proof -
    obtain b where "bind_expression u cf [] False (row ! i) = Inr b" "coerce b (col_data_type (cols ! i)) = Inr (bs ! i)"
      using m i len by (auto simp: res_mapM_Inr_iff res_simps)
    moreover have "ast_ok (row ! i)" using assms(1) i len by (simp add: list_all_length)
    ultimately show ?thesis
      using bind_expression_good [of "row ! i" u cf "[]" False b] coerce_good by (auto simp: assigned_ok_def)
  qed
  then show ?thesis using m len by (auto simp: list_all2_conv_all_nth res_mapM_Inr_iff)
qed

lemma bind_assignments_ok:
  assumes "bind_assignments u cf scope t seen as = Inr bs" and "list_all (\<lambda>a. ast_ok (as_expression a)) as"
  shows "list_all (\<lambda>a. ba_column a \<in> set (columns (tm_schema t)) \<and> assigned_ok (map sc_table scope) (ba_column a) (ba_expression a)
       \<and> cf (col_name (ba_column a)) \<notin> set seen) bs \<and> distinct (map ba_column bs)"
  using assms
proof (induction as arbitrary: seen bs)
  case Nil
  then show ?case by simp
next
  case (Cons a as)
  then obtain col b b' bs' where *: "bind_column cf t (as_column a) = Inr col" "cf (col_name col) \<notin> set seen"
    "bind_expression u cf scope False (as_expression a) = Inr b" "coerce b (col_data_type col) = Inr b'"
    "bind_assignments u cf scope t (cf (col_name col) # seen) as = Inr bs'" "bs = BoundAssignment col b' # bs'"
    by (auto simp: res_simps split: if_splits)
  have "assigned_ok (map sc_table scope) col b'"
    using bind_expression_good [OF _ *(3)] coerce_good [OF *(4)] Cons.prems(2) by (auto simp: assigned_ok_def)
  then show ?case using Cons.IH [OF *(5)] Cons.prems(2) * bind_column_set by (auto simp: list_all_iff)
qed

lemma bind_joins_ok:
  assumes "res_mapM (\<lambda>(j, t). res_bind (bind_predicate u cf scope (jc_condition j)) (\<lambda>b. Inr (BoundJoin t b))) (zip js ts) = Inr joins"
    and "list_all (\<lambda>j. ast_ok (jc_condition j)) js" and "length ts = length js"
  shows "list_all (\<lambda>j. predicate_ok (map sc_table scope) (bj_condition j)) joins \<and> map bj_table joins = ts"
proof -
  have len: "length joins = length js" using res_mapM_Inr_length [OF assms(1)] assms(3) by simp
  have "predicate_ok (map sc_table scope) (bj_condition (joins ! i)) \<and> bj_table (joins ! i) = ts ! i" if i: "i < length js" for i
  proof -
    obtain b where "bind_predicate u cf scope (jc_condition (js ! i)) = Inr b" "joins ! i = BoundJoin (ts ! i) b"
      using assms(1,3) i by (auto simp: res_mapM_Inr_iff res_simps)
    moreover have "ast_ok (jc_condition (js ! i))" using assms(2) i by (simp add: list_all_length)
    ultimately show ?thesis using bind_predicate_good by (simp add: predicate_ok_def)
  qed
  then show ?thesis using len assms(3) by (auto simp: list_all_length list_eq_iff_nth_eq)
qed

lemma require_grouped_all:
  "res_mapM (\<lambda>i. require_grouped gb (f i)) xs = Inr us \<Longrightarrow> list_all (\<lambda>i. ungrouped_columns (f i) gb False = []) xs"
  by (auto simp: list_all_iff require_grouped_def dest!: res_mapM_Inr_all)

lemma bind_select_ok:
  assumes ok: "statement_ast_ok (SelectStmt s)" and b: "bind_select u cf c s = Inr b"
  shows "select_ok b"
proof -
  obtain from_table scope0 join_tables scope joins where_expr group_by item_lists order_by us where
    f: "(case ss_from s of None \<Rightarrow> Inr (None, [])
       | Some r \<Rightarrow> res_bind (bind_table_ref cf c [] r) (\<lambda>(t, scope). Inr (Some t, scope))) = Inr (from_table, scope0)"
    and j: "bind_join_tables cf c scope0 (ss_joins s) = Inr (join_tables, scope)"
    and js: "res_mapM (\<lambda>(j, t). res_bind (bind_predicate u cf scope (jc_condition j)) (\<lambda>b. Inr (BoundJoin t b)))
         (zip (ss_joins s) join_tables) = Inr joins"
    and w: "bind_where u cf scope (ss_where s) = Inr where_expr"
    and g: "res_mapM (bind_expression u cf scope False) (ss_group_by s) = Inr group_by"
    and i: "res_mapM (bind_select_item u cf scope) (ss_items s) = Inr item_lists"
    and os: "res_mapM (bind_order_item u cf scope (map (\<lambda>i. (cf (bsi_name i), bsi_expression i)) (concat item_lists))) (ss_order_by s) = Inr order_by"
    and r: "(if (list_ex (\<lambda>i. contains_aggregate (bsi_expression i)) (concat item_lists)
              \<or> list_ex (\<lambda>i. contains_aggregate (boi_expression i)) order_by) \<or> group_by \<noteq> [] then
               res_bind (res_mapM (\<lambda>i. require_grouped group_by (bsi_expression i)) (concat item_lists)) (\<lambda>_.
               res_mapM (\<lambda>i. require_grouped group_by (boi_expression i)) order_by)
             else Inr []) = Inr us"
    and bb: "b = \<lparr>bs_items = concat item_lists, bs_from = from_table, bs_joins = joins, bs_where = where_expr,
             bs_group_by = group_by, bs_order_by = order_by, bs_limit = ss_limit s\<rparr>"
    using b unfolding bind_select_def Let_def by (auto simp only: res_bind_eq_Inr_iff prod.case sum.inject split_paired_Ex)
  let ?ts = "map sc_table scope"
  have scope0: "map sc_table scope0 = (case from_table of None \<Rightarrow> [] | Some t \<Rightarrow> [t])"
    using f by (auto simp: res_simps split: option.splits dest: bind_table_ref_scope)
  note jt = bind_join_tables_scope [OF j]
  have joins: "list_all (\<lambda>j. predicate_ok ?ts (bj_condition j)) joins" "map bj_table joins = join_tables"
    using bind_joins_ok [OF js] ok jt by simp_all
  have ts: "select_tables b = ?ts" using jt scope0 joins(2) by (simp add: select_tables_def bb)
  have wh: "where_ok ?ts where_expr" using bind_where_ok [OF _ w] ok by simp
  have gb: "list_all (good ?ts False) group_by"
    using g ok by (auto simp: list_all_iff dest!: res_mapM_Inr_set intro: bind_expression_good)
  have items: "list_all (\<lambda>i. good ?ts True (bsi_expression i)) (concat item_lists)"
    unfolding list_all_iff
  proof
    fix x assume "x \<in> set (concat item_lists)"
    then obtain xs where "xs \<in> set item_lists" "x \<in> set xs" by auto
    moreover obtain item where "item \<in> set (ss_items s)" "bind_select_item u cf scope item = Inr xs"
      using res_mapM_Inr_set [OF i \<open>xs \<in> set item_lists\<close>] by blast
    ultimately show "good ?ts True (bsi_expression x)"
      using ok by (intro bind_select_item_good) (auto simp: list_all_iff)
  qed
  have orders: "list_all (\<lambda>i. good ?ts True (boi_expression i)) order_by"
    unfolding list_all_iff
  proof
    fix x assume "x \<in> set order_by"
    then obtain item where "item \<in> set (ss_order_by s)"
      "bind_order_item u cf scope (map (\<lambda>i. (cf (bsi_name i), bsi_expression i)) (concat item_lists)) item = Inr x"
      using res_mapM_Inr_set [OF os] by blast
    then show "good ?ts True (boi_expression x)"
      using ok items by (intro bind_order_item_good) (auto simp: list_all_iff)
  qed
  have "list_all (\<lambda>i. ungrouped_columns (bsi_expression i) group_by False = []) (concat item_lists)
      \<and> list_all (\<lambda>i. ungrouped_columns (boi_expression i) group_by False = []) order_by" if "grouped b"
    using r that by (auto simp only: grouped_def bb bound_select.simps res_bind_eq_Inr_iff if_True if_False
        dest!: require_grouped_all split: if_splits)
  then show ?thesis
    unfolding select_ok_def Let_def ts using joins(1) wh gb items orders by (simp add: bb)
qed

lemma own_table_scope:
  assumes "tables_inv cf c" and "bind_table cf c name = Inr t" and "bind_table_ref cf c [] (TableRef (tm_name t) None) = Inr (bt, scope)"
  shows "\<exists>n. map sc_table scope = [BoundTable t n]"
proof -
  have "t \<in> set (ct_all_tables c)"
    using assms(2) by (auto simp: bind_table_def ct_table_def ct_table_by_id_def ct_all_tables_def split: option.splits
        dest!: map_of_SomeD intro: rev_image_eqI)
  then have "ct_table cf c (tm_name t) = Inr t" using ct_table_of_entry [OF assms(1)] by simp
  then show ?thesis using assms(3) by (auto simp: bind_table_ref_def bind_table_def Let_def str_or_def)
qed

text \<open>
  Claim C11. Whatever the binder accepts is well typed: every expression refers only to columns of
  the statement's tables with their types, every condition is Boolean, every inserted or
  assigned value has its column's type, aggregates appear only where they are allowed, and in
  a grouped query every output is built from group keys and aggregates.
\<close>

theorem bind_well_typed:
  assumes "tables_inv casefold c" and "statement_ast_ok st" and "bind u casefold c st = Inr b"
  shows "bound_ok b"
  using assms(2,3)
proof (induction st arbitrary: b)
  case (SelectStmt s)
  then show ?case using bind_select_ok by (auto simp: res_simps)
next
  case (InsertStmt table names rows)
  then obtain t cols bs where *: "b = BoundInsert t cols bs" "res_mapM (bind_insert_row u casefold cols) rows = Inr bs"
    "(case names of None \<Rightarrow> Inr (columns (tm_schema t)) | Some ns \<Rightarrow> insert_columns casefold t [] ns) = Inr cols"
    by (auto simp: bind_insert_def res_simps)
  have "set cols \<subseteq> set (columns (tm_schema t))"
    using *(3) insert_columns_set by (auto split: option.splits)
  moreover have "list_all (list_all2 (assigned_ok []) cols) bs"
    unfolding list_all_iff
  proof
    fix x assume "x \<in> set bs"
    then obtain row where "row \<in> set rows" "bind_insert_row u casefold cols row = Inr x"
      using res_mapM_Inr_set [OF *(2)] by blast
    then show "list_all2 (assigned_ok []) cols x" using InsertStmt.prems(1) by (intro bind_insert_row_ok) (auto simp: list_all_iff)
  qed
  ultimately show ?case by (simp add: *(1))
next
  case (UpdateStmt table as w)
  then obtain t bt scope bas bw where *: "b = BoundUpdate t bas bw" "bind_table casefold c table = Inr t"
    "bind_table_ref casefold c [] (TableRef (tm_name t) None) = Inr (bt, scope)"
    "bind_assignments u casefold scope t [] as = Inr bas" "bind_where u casefold scope w = Inr bw"
    by (auto simp: bind_update_def res_simps)
  obtain n where "map sc_table scope = [BoundTable t n]" by (rule exE [OF own_table_scope [OF assms(1) *(2,3)]]) (rule that)
  then show ?case
    using bind_assignments_ok [OF *(4)] bind_where_ok [OF _ *(5)] UpdateStmt.prems(1) by (auto simp: *(1) list_all_iff)
next
  case (DeleteStmt table w)
  then obtain t bt scope bw where *: "b = BoundDelete t bw" "bind_table casefold c table = Inr t"
    "bind_table_ref casefold c [] (TableRef (tm_name t) None) = Inr (bt, scope)" "bind_where u casefold scope w = Inr bw"
    by (auto simp: bind_delete_def res_simps)
  obtain n where "map sc_table scope = [BoundTable t n]" by (rule exE [OF own_table_scope [OF assms(1) *(2,3)]]) (rule that)
  then show ?case using bind_where_ok [OF _ *(4)] DeleteStmt.prems(1) by (auto simp: *(1))
next
  case (CreateIndexStmt name table names unique)
  then obtain t cols where t: "b = BoundCreateIndex name t cols unique" "res_mapM (bind_column casefold t) names = Inr cols"
    by (auto simp: res_simps)
  then show ?case using res_mapM_Inr_set [OF t(2)] bind_column_set by fastforce
qed (auto simp: res_simps)

text \<open>\<open>SELECT a + 1 FROM t WHERE a < 2\<close> on the catalog with the table \<open>t(a INT64)\<close>.\<close>

definition demo_select :: select_stmt where
  "demo_select = \<lparr>ss_items = [SelectItem (BinaryExpr (ColumnRef [97] None) ''+'' (Literal (ScInt 1))) None],
     ss_from = Some (TableRef [116] None), ss_joins = [],
     ss_where = Some (BinaryExpr (ColumnRef [97] None) ''<'' (Literal (ScInt 2))),
     ss_group_by = [], ss_order_by = [], ss_limit = None\<rparr>"

definition demo_column :: bound_expr where
  "demo_column = BoundColumn (ColumnBinding 1 0) [97] INT64 True"

definition demo_bound :: bound_select where
  "demo_bound = \<lparr>bs_items = [BoundSelectItem (BoundBinary demo_column ''+'' (BoundLiteral (ScInt 1) (Some INT64) False) INT64 True) (lit ''?column?'')],
     bs_from = Some (BoundTable demo_table [116]), bs_joins = [],
     bs_where = Some (BoundBinary demo_column ''<'' (BoundLiteral (ScInt 2) (Some INT64) False) BOOLEAN True),
     bs_group_by = [], bs_order_by = [], bs_limit = None\<rparr>"

lemmas bind_simps = bind_select_def bind_table_ref_def bind_table_def ct_table_def ct_table_by_id_def Let_def str_or_def
  bind_where_def bind_predicate_def bind_expression_def resolve_column_def scope_entries_def column_matches_def
  schema_column_by_name_def column_expr_def mk_binding_def bind_binary_def comparable_pair_def numeric_pair_def
  require_numeric_def NUMERIC_def mk_binary_def bind_select_item_def INT64_MIN_def INT64_MAX_def

lemma bind_demo_select: "bind_select u id demo_catalog demo_select = Inr demo_bound"
  by (simp add: bind_simps demo_select_def demo_catalog_def empty_catalog_def demo_table_def demo_bound_def demo_column_def)

lemma demo_tables_inv: "tables_inv id demo_catalog"
  using catalog_ok_run [OF demo_run] by (simp add: catalog_ok_def ct_inv_def)

theorem bind_well_typed_witness: "bind ascii_only id demo_catalog (SelectStmt demo_select) = Inr (BoundSelect demo_bound) \<and> select_ok demo_bound"
proof -
  have b: "bind ascii_only id demo_catalog (SelectStmt demo_select) = Inr (BoundSelect demo_bound)" by (simp add: bind_demo_select)
  have "statement_ast_ok (SelectStmt demo_select)" by (simp add: demo_select_def where_ast_ok_def comparison_operators_def)
  from bind_well_typed [OF demo_tables_inv this b] show ?thesis using b by simp
qed

section \<open>Accepted conditions can be evaluated\<close>

text \<open>A row that holds, for every table in scope, a value of every column that conforms to it.\<close>

definition row_for :: "bound_table list \<Rightarrow> execution_row \<Rightarrow> bool" where
  "row_for tables row \<longleftrightarrow> list_all (\<lambda>t. list_all (\<lambda>col.
     case map_of (er_cells row) (ColumnBinding (nat (tm_table_id (bt_metadata t))) (nat (col_column_id col))) of
       None \<Rightarrow> False | Some v \<Rightarrow> conforms col v) (columns (tm_schema (bt_metadata t)))) tables"

lemma conforms_fits: "conforms col v \<Longrightarrow> fits (Some (col_data_type col)) (col_nullable col) v"
  by (cases v) (auto simp: conforms_def fits_def split: option.splits)

lemma row_for_column:
  assumes "row_for tables row" and "scope_column tables b name t n"
  shows "\<exists>v. map_of (er_cells row) b = Some v \<and> fits (Some t) n v"
proof -
  obtain table col where tc: "table \<in> set tables" "col \<in> set (columns (tm_schema (bt_metadata table)))"
    "mk_binding (tm_table_id (bt_metadata table)) (col_column_id col) = Inr b" "t = col_data_type col" "n = col_nullable col"
    using assms(2) by (auto simp: scope_column_def)
  have b: "b = ColumnBinding (nat (tm_table_id (bt_metadata table))) (nat (col_column_id col))"
    using tc(3) by (auto simp: mk_binding_def split: if_splits)
  have "case map_of (er_cells row) b of None \<Rightarrow> False | Some v \<Rightarrow> conforms col v"
    using assms(1) tc(1,2) unfolding b by (auto simp: row_for_def list_all_iff)
  then show ?thesis using tc(4,5) conforms_fits by (auto split: option.splits)
qed

lemma in_scope_supplied:
  "row_for tables row \<Longrightarrow> in_scope tables b \<Longrightarrow> \<not> contains_aggregate b \<Longrightarrow> supplied row b"
  by (induction b) (auto dest: row_for_column)

text \<open>
  Claim C12. A condition the binder accepted (in \<open>WHERE\<close> or \<open>ON\<close>) evaluates, on every row with
  conforming values for the tables in scope, to true, false or unknown, unless an operation on
  the way divides by zero or leaves the 64-bit integers: then it fails with the error of the
  first that does.
\<close>

theorem condition_evaluates:
  assumes "ast_ok e" and "bind_predicate u casefold scope e = Inr b"
    and "row_for (map sc_table scope) row" and "er_computed row = []"
  shows "case evaluate float_text row b of
           Inr v \<Rightarrow> sql_bool v \<and> fault float_text row b = None
         | Inl err \<Rightarrow> fault float_text row b = Some err"
proof -
  have g: "good (map sc_table scope) False b" "bx_type b = Some BOOLEAN" using bind_predicate_good [OF assms(1,2)] by auto
  have "sound (bx_type b) (bx_nullable b) (fault float_text row b) (evaluate float_text row b)"
    using g in_scope_supplied [OF assms(3)] assms(4)
    by (intro evaluate_sound_aux) (auto simp: good_def computed_fits_def)
  moreover have "sql_bool v" if "fits (Some BOOLEAN) n v" for n v
    using that fits_cases(3) [of n v] by (cases "v = ScNone") (auto simp: sql_bool_def)
  ultimately show ?thesis using g(2) by (auto simp: sound_def split: sum.splits)
qed

theorem condition_evaluates_witness:
  "let b = \<lambda>d. BoundBinary (BoundBinary (BoundLiteral (ScInt 6) (Some INT64) False) ''/'' (BoundLiteral (ScInt d) (Some INT64) False) INT64 False)
         ''<'' demo_column BOOLEAN True;
       row = \<lparr>er_cells = [(ColumnBinding 1 0, ScInt 4)], er_tids = [], er_computed = []\<rparr>
   in evaluate (\<lambda>_. Inl PyValueError) row (b 2) = Inr (ScBool True) \<and> fault (\<lambda>_. Inl PyValueError) row (b 2) = None
      \<and> evaluate (\<lambda>_. Inl PyValueError) row (b 0) = Inl TypeMismatch
      \<and> fault (\<lambda>_. Inl PyValueError) row (b 0) = Some TypeMismatch"
proof -
  let ?scope = "[ScopeEntry (BoundTable demo_table [116]) [[116]]]"
  let ?b = "\<lambda>d. BoundBinary (BoundBinary (BoundLiteral (ScInt 6) (Some INT64) False) ''/'' (BoundLiteral (ScInt d) (Some INT64) False) INT64 False)
         ''<'' demo_column BOOLEAN True"
  let ?ast = "\<lambda>d. BinaryExpr (BinaryExpr (Literal (ScInt 6)) ''/'' (Literal (ScInt d))) ''<'' (ColumnRef [97] None)"
  let ?row = "\<lparr>er_cells = [(ColumnBinding 1 0, ScInt 4)], er_tids = [], er_computed = []\<rparr>"
  let ?ft = "\<lambda>_. Inl PyValueError"
  have b: "bind_predicate ascii_only id ?scope (?ast d) = Inr (?b d)" if "d = 0 \<or> d = 2" for d
    using that by (auto simp: bind_simps demo_table_def demo_column_def)
  have row: "row_for (map sc_table ?scope) ?row"
    by (simp add: row_for_def demo_table_def conforms_def in_int64_def INT64_MIN_def INT64_MAX_def)
  have ev: "evaluate ?ft ?row (?b 2) = Inr (ScBool True)" "evaluate ?ft ?row (?b 0) = Inl TypeMismatch"
    by (simp_all add: memo_def demo_column_def binary_value_def comparison_operators_def compare_values_def
        arithmetic_value_def truncated_div_def INT64_MIN_def INT64_MAX_def widen_numeric_pair_def compare_operator_def)
  have "case evaluate ?ft ?row (?b d) of Inr v \<Rightarrow> sql_bool v \<and> fault ?ft ?row (?b d) = None
      | Inl err \<Rightarrow> fault ?ft ?row (?b d) = Some err" if "d = 0 \<or> d = 2" for d
    by (rule condition_evaluates [OF _ b row]) (use that in \<open>auto simp: comparison_operators_def\<close>)
  from this [of 2] this [of 0] show ?thesis using ev by simp
qed

section \<open>Grouped output\<close>

lemma f64_eq_inf: "f64_eq f g \<Longrightarrow> f64_is_inf f = f64_is_inf g"
proof -
  assume "f64_eq f g"
  then have "magnitude_value (f64_magnitude f) = magnitude_value (f64_magnitude g)"
    by (auto simp: f64_eq_def f64_scaled_def split: if_splits)
  then have "f64_magnitude f = f64_magnitude g"
    using magnitude_value_mono by (metis less_irrefl linorder_neqE_nat)
  then show ?thesis by (simp add: f64_is_inf_def)
qed

text \<open>The value of a number, with the infinities kept apart from the finite values.\<close>

definition finite_value :: "int \<Rightarrow> bool \<times> int" where
  "finite_value i = (False, i * 2 ^ 1074)"

fun number_value :: "scalar \<Rightarrow> (bool \<times> int) option" where
  "number_value (ScInt i) = Some (finite_value i)"
| "number_value (ScBool b) = Some (finite_value (if b then 1 else 0))"
| "number_value (ScFloat f) = (if f64_is_nan f then None else Some (f64_is_inf f, f64_scaled f))"
| "number_value _ = None"

lemma finite_value_eq [simp]: "finite_value i = finite_value j \<longleftrightarrow> i = j"
proof -
  have "(False, i * k) = (False, j * k) \<longleftrightarrow> i = j" if "k \<noteq> 0" for k :: int using that by simp
  from this [OF power_not_zero [OF numeral_neq_zero]] show ?thesis unfolding finite_value_def .
qed

lemma int_float_eq_value: "int_float_eq i f \<longleftrightarrow> \<not> f64_is_nan f \<and> finite_value i = (f64_is_inf f, f64_scaled f)"
proof -
  have "(\<not> nan \<and> \<not> inf \<and> s = v) \<longleftrightarrow> (\<not> nan \<and> (False, v) = (inf, s))" for nan inf :: bool and s v :: int by auto
  then show ?thesis unfolding int_float_eq_def finite_value_def .
qed

lemma f64_eq_value: "f64_eq f g \<longleftrightarrow> \<not> f64_is_nan f \<and> \<not> f64_is_nan g \<and> (f64_is_inf f, f64_scaled f) = (f64_is_inf g, f64_scaled g)"
  using f64_eq_inf [of f g] by (auto simp: f64_eq_def)

lemma scalar_eq_value:
  "scalar_eq a b \<longleftrightarrow> a = b \<and> (a = ScNone \<or> (\<exists>s. a = ScStr s)) \<or> number_value a \<noteq> None \<and> number_value a = number_value b"
  by (cases a; cases b) (auto simp: f64_eq_value int_float_eq_value)

lemma scalar_eq_trans: "scalar_eq a b \<Longrightarrow> scalar_eq b c \<Longrightarrow> scalar_eq a c"
  unfolding scalar_eq_value by auto

lemma bound_eqs_list_all2: "bound_eqs as bs = list_all2 bound_eq as bs"
proof (induction as arbitrary: bs)
  case Nil
  show ?case by (cases bs) auto
next
  case (Cons a as)
  then show ?case by (cases bs) auto
qed

lemma bound_eq_trans: "bound_eq a b \<Longrightarrow> bound_eq b c \<Longrightarrow> bound_eq a c"
proof (induction a arbitrary: b c)
  case (BoundLiteral v t n)
  then show ?case by (cases b; cases c) (auto intro: scalar_eq_trans)
next
  case (BoundFunction f args t n star)
  obtain bs where b: "b = BoundFunction f bs t n star" and l1: "list_all2 bound_eq args bs"
    using BoundFunction.prems(1) by (cases b) (simp_all add: bound_eqs_list_all2)
  obtain cs where c: "c = BoundFunction f cs t n star" and l2: "list_all2 bound_eq bs cs"
    using BoundFunction.prems(2) unfolding b by (cases c) (simp_all add: bound_eqs_list_all2)
  note l = l1 l2
  have "bound_eq (args ! i) (cs ! i)" if "i < length args" for i
    using that l BoundFunction.IH [of "args ! i" "bs ! i" "cs ! i"] by (auto simp: list_all2_conv_all_nth)
  then show ?case using l by (simp add: b c bound_eqs_list_all2 list_all2_conv_all_nth)
next
  case (BoundBinary l q r t n)
  then show ?case by (cases b; cases c) auto
next
  case (BoundColumn x1 x2 x3 x4)
  then show ?case by (cases b; cases c) auto
next
  case (BoundCast e t n)
  then show ?case by (cases b; cases c) auto
next
  case (BoundUnary q e t n)
  then show ?case by (cases b; cases c) auto
next
  case (BoundIsNull e negated)
  then show ?case by (cases b; cases c) auto
qed

lemma computed_get_eq:
  assumes "bound_eq e g" and "computed_get computed (KeyExpr g) = Some v"
  shows "\<exists>w. computed_get computed (KeyExpr e) = Some w"
  using assms(2)
proof (induction computed)
  case (Cons kv rest)
  obtain k w where kv: "kv = (k, w)" by (cases kv)
  have "key_eq (KeyExpr g) k \<Longrightarrow> key_eq (KeyExpr e) k" using assms(1) bound_eq_trans by (cases k) auto
  then show ?case using Cons by (auto simp: kv split: if_splits)
qed simp

definition keys_computed :: "execution_row \<Rightarrow> bound_expr list \<Rightarrow> bool" where
  "keys_computed row group_by \<longleftrightarrow> list_all (\<lambda>g. computed_get (er_computed row) (KeyExpr g) \<noteq> None) group_by"

lemma memo_cong:
  assumes "er_computed r1 = er_computed r2" and "computed_get (er_computed r1) (KeyExpr e) = None \<Longrightarrow> x = y"
  shows "memo r1 e x = memo r2 e y"
  using assms by (auto simp: memo_def split: option.splits)

lemma grouped_evaluate:
  assumes c: "er_computed r1 = er_computed r2" and k: "keys_computed r1 group_by"
  shows "ungrouped_columns e group_by False = [] \<Longrightarrow> evaluate ft r1 e = evaluate ft r2 e"
proof -
  have key: "computed_get (er_computed r1) (KeyExpr e) \<noteq> None" if "in_group e group_by" for e
    using that k computed_get_eq by (fastforce simp: in_group_def keys_computed_def list_ex_iff list_all_iff)
  show "ungrouped_columns e group_by False = [] \<Longrightarrow> evaluate ft r1 e = evaluate ft r2 e"
  proof (induction e)
    case (BoundColumn b n t m)
    then have "in_group (BoundColumn b n t m) group_by" by (auto split: if_splits)
    from key [OF this] show ?case using c by (auto intro!: memo_cong)
  qed (auto intro!: memo_cong [OF c] dest: key split: if_splits)
qed

text \<open>
  Claim C15. In a query with aggregates or \<open>GROUP BY\<close> that the binder accepted, every output and
  ordering expression has one value per group: two rows that agree on the computed group keys
  and aggregates give the same result, whatever their other columns hold.
\<close>

theorem grouped_output_determined:
  assumes "statement_ast_ok (SelectStmt s)" and "bind_select u casefold c s = Inr b" and "grouped b"
    and "e \<in> set (map bsi_expression (bs_items b) @ map boi_expression (bs_order_by b))"
    and "er_computed row1 = er_computed row2" and "keys_computed row1 (bs_group_by b)"
  shows "evaluate float_text row1 e = evaluate float_text row2 e"
proof -
  have "ungrouped_columns e (bs_group_by b) False = []"
    using bind_select_ok [OF assms(1,2)] assms(3,4) by (auto simp: select_ok_def Let_def list_all_iff)
  then show ?thesis by (rule grouped_evaluate [OF assms(5,6)])
qed

text \<open>\<open>SELECT a, COUNT(*) FROM t GROUP BY a\<close>.\<close>

definition demo_grouped :: select_stmt where
  "demo_grouped = \<lparr>ss_items = [SelectItem (ColumnRef [97] None) None, SelectItem (FunctionCall (lit ''COUNT'') [Star None]) None],
     ss_from = Some (TableRef [116] None), ss_joins = [], ss_where = None,
     ss_group_by = [ColumnRef [97] None], ss_order_by = [], ss_limit = None\<rparr>"

definition demo_grouped_bound :: bound_select where
  "demo_grouped_bound = \<lparr>bs_items = [BoundSelectItem demo_column [97],
       BoundSelectItem (BoundFunction (lit ''COUNT'') [] INT64 False True) (lit ''COUNT'')],
     bs_from = Some (BoundTable demo_table [116]), bs_joins = [], bs_where = None,
     bs_group_by = [demo_column], bs_order_by = [], bs_limit = None\<rparr>"

theorem grouped_output_determined_witness:
  "let computed = [(KeyExpr demo_column, ScInt 5)]
   in evaluate (\<lambda>_. Inl PyValueError) \<lparr>er_cells = [], er_tids = [], er_computed = computed\<rparr> demo_column
    = evaluate (\<lambda>_. Inl PyValueError) \<lparr>er_cells = [(ColumnBinding 1 0, ScInt 9)], er_tids = [], er_computed = computed\<rparr> demo_column"
proof -
  have b: "bind_select ascii_only id demo_catalog demo_grouped = Inr demo_grouped_bound"
    by (simp add: bind_simps demo_grouped_def demo_catalog_def empty_catalog_def demo_table_def demo_grouped_bound_def
        demo_column_def AGGREGATES_def str_upper_def lit_def require_grouped_def in_group_def)
  show ?thesis
    unfolding Let_def
    by (rule grouped_output_determined [OF _ b])
      (simp_all add: demo_grouped_def where_ast_ok_def grouped_def demo_grouped_bound_def keys_computed_def demo_column_def)
qed

end
