(* ===== verification/Key_Codec.thy ===== *)
theory Key_Codec
  imports Catalog_Model
begin

text \<open>
  \<open>index/key.py\<close>: the composite key encoding of the B+tree. Shows that it is injective and
  order-preserving (the byte order of encoded keys is the lexicographic SQL order of the
  tuples, with nothing in between that could be mistaken for a prefix), and where the two
  orders part: the two zeros are equal values with different keys.
\<close>

section \<open>Encoding\<close>

text \<open>\<open>~bits & mask\<close> for a negative pattern, \<open>bits ^ sign\<close> for the others.\<close>

definition sortable_bits :: "float64 \<Rightarrow> 64 word" where
  "sortable_bits bits =
     (if bit bits 63 then Bit_Operations.not bits else Bit_Operations.xor bits (push_bit 63 1))"

text \<open>A zero byte of a text is followed by 255, so that two zero bytes can end it.\<close>

fun escape_zeros :: "bytes \<Rightarrow> bytes" where
  "escape_zeros [] = []"
| "escape_zeros (b # bs) = (if b = 0 then [0, 255] else [b]) @ escape_zeros bs"

definition encode_component :: "data_type \<Rightarrow> scalar \<Rightarrow> bytes result" where
  "encode_component t v =
     (if v = ScNone then Inl TypeMismatch
      else case t of
        INT64 \<Rightarrow>
          (case v of
             ScInt i \<Rightarrow> res_bind (validate_int64 v) (\<lambda>_. Inr (1 # to_be 8 (nat (i + 2 ^ 63))))
           | _ \<Rightarrow> Inl TypeMismatch)
      | FLOAT64 \<Rightarrow>
          (case v of
             ScFloat f \<Rightarrow> if f64_is_nan f then Inl TypeMismatch else Inr (2 # to_be 8 (unat (sortable_bits f)))
           | _ \<Rightarrow> Inl TypeMismatch)
      | BOOLEAN \<Rightarrow> (case v of ScBool b \<Rightarrow> Inr [3, if b then 1 else 0] | _ \<Rightarrow> Inl TypeMismatch)
      | TEXT \<Rightarrow>
          (case v of
             ScStr s \<Rightarrow> res_bind (utf8_encode s) (\<lambda>bs. Inr (4 # escape_zeros bs @ [0, 0]))
           | _ \<Rightarrow> Inl TypeMismatch))"

fun encode_components :: "data_type list \<Rightarrow> scalar list \<Rightarrow> bytes result" where
  "encode_components (t # ts) (v # vs) =
     res_bind (encode_component t v) (\<lambda>a. res_bind (encode_components ts vs) (\<lambda>b. Inr (a @ b)))"
| "encode_components _ _ = Inr []"

definition mk_key_codec :: "data_type list \<Rightarrow> data_type list result" where
  "mk_key_codec data_types = (if data_types = [] then Inl PyValueError else Inr data_types)"

definition key_encode :: "data_type list \<Rightarrow> scalar list \<Rightarrow> bytes result" where
  "key_encode data_types vs =
     (if length vs \<noteq> length data_types then Inl TypeMismatch else encode_components data_types vs)"

section \<open>Order of the fields\<close>

text \<open>The first key is smaller whatever follows: the bytes differ before either ends.\<close>

definition separates :: "bytes \<Rightarrow> bytes \<Rightarrow> bool" where
  "separates a b \<longleftrightarrow> (\<forall>s t. a @ s < b @ t)"

lemma separatesD: "separates a b \<Longrightarrow> a @ s < b @ t"
  by (simp add: separates_def)

lemma separates_Cons [simp]: "separates (x # a) (x # b) = separates a b"
  by (simp add: separates_def)

lemma separates_less: "length a = length b \<Longrightarrow> a < b \<Longrightarrow> separates a b"
  by (simp add: separates_def append_less_append)

lemma to_be_less: "m < n \<Longrightarrow> n < 256 ^ k \<Longrightarrow> to_be k m < to_be k n"
proof (induction k arbitrary: m n)
  case 0
  then show ?case by simp
next
  case (Suc k)
  show ?case
  proof (cases "m div 256 < n div 256")
    case True
    have "n div 256 < 256 ^ k" using Suc.prems(2) by (simp add: less_mult_imp_div_less mult.commute)
    then show ?thesis using Suc.IH [OF True] by (simp add: append_less_append)
  next
    case False
    then have eq: "m div 256 = n div 256" using Suc.prems(1) by (meson div_le_mono le_antisym linorder_not_less less_imp_le_nat)
    then have "m mod 256 < n mod 256"
      using Suc.prems(1) by (metis add_less_cancel_left div_mult_mod_eq)
    then have "(of_nat (m mod 256) :: byte) < of_nat (n mod 256)" by (simp add: word_less_nat_alt unat_of_nat)
    moreover have "p @ [x] < p @ [y]" if "x < y" for p :: bytes and x y using that by (induction p) auto
    ultimately show ?thesis using eq by simp
  qed
qed

lemma to_be_separates: "m < n \<Longrightarrow> n < 256 ^ k \<Longrightarrow> separates (to_be k m) (to_be k n)"
  by (simp add: separates_less to_be_less)

lemma bit_63: "bit (w :: float64) 63 \<longleftrightarrow> f64_negative w"
proof -
  have "unat w < 2 ^ 64" using unsigned_less [of w, where 'a = nat] by simp
  then have "unat w div 2 ^ 63 < 2" by (simp add: less_mult_imp_div_less)
  moreover have "bit w 63 \<longleftrightarrow> odd (unat w div 2 ^ 63)" 
    using bit_iff_odd [of "unat w" 63] by (simp add: bit_unsigned_iff)
  ultimately show ?thesis
    by (auto simp: f64_negative_def less_2_cases_iff div_eq_0_iff)
qed

lemma sortable_bits_key: "unat (sortable_bits w) = f64_sort_key w"
proof (cases "f64_negative w")
  case True
  have "unat (Bit_Operations.not w) = 2 ^ 64 - 1 - unat w"
  proof -
    have "Bit_Operations.not w + w = - 1" by (simp add: not_eq_complement)
    then have "Bit_Operations.not w = - 1 - w" by (simp add: eq_diff_eq)
    moreover have "unat (- 1 :: float64) = 2 ^ 64 - 1" by (simp add: unsigned_minus_1_eq_mask mask_eq_exp_minus_1)
    moreover have "w \<le> - 1" by (simp add: word_order.extremum)
    ultimately show ?thesis by (simp add: unat_sub)
  qed
  then show ?thesis using True by (simp add: sortable_bits_def bit_63 f64_sort_key_def)
next
  case False
  have "Bit_Operations.and w (push_bit n 1) = 0" if "\<not> bit w n" for n
    by (rule bit_word_eqI) (use that in \<open>auto simp: bit_and_iff bit_exp_iff\<close>)
  from this [of 63] have "Bit_Operations.xor w (push_bit 63 1) = w + push_bit 63 1"
    using False by (simp only: bit_63 disjunctive_xor_eq_or disjunctive_add_eq_or not_False_eq_True simp_thms)
  moreover have "unat (push_bit 63 1 :: float64) = 2 ^ 63" by simp
  moreover have "unat w < 2 ^ 63" using False by (simp add: f64_negative_def)
  ultimately have "unat (Bit_Operations.xor w (push_bit 63 1)) = unat w + 2 ^ 63"
    by (simp add: unat_word_ariths(1))
  then show ?thesis using False by (simp add: sortable_bits_def bit_63 f64_sort_key_def)
qed

lemma escape_zeros_separates: "a < b \<Longrightarrow> separates (escape_zeros a @ [0, 0]) (escape_zeros b @ [0, 0])"
proof (induction a arbitrary: b)
  case Nil
  then obtain c b' where "b = c # b'" by (cases b) auto
  then show ?case by (simp add: separates_def word_neq_0_conv)
next
  case (Cons x a)
  then obtain y b' where b: "b = y # b'" by (cases b) auto
  show ?case
  proof (cases "x = y")
    case True
    then show ?thesis using Cons b by simp
  next
    case False
    then have "x < y" using Cons.prems b by simp
    then show ?thesis using b by (auto simp: separates_def)
  qed
qed

section \<open>Order of the keys\<close>

text \<open>The pattern of \<open>-0.0\<close>, the only value that is equal to another one.\<close>

definition negative_zero :: float64 where
  "negative_zero = f64_make True 0"

text \<open>Python's order of tuples: the first components that are not equal decide.\<close>

fun py_tuple_lt :: "scalar list \<Rightarrow> scalar list \<Rightarrow> bool" where
  "py_tuple_lt (v # vs) (w # ws) = (if py_eq v w then py_tuple_lt vs ws else py_lt v w)"
| "py_tuple_lt [] (w # ws) = True"
| "py_tuple_lt _ [] = False"

lemma f64_eq_cases:
  assumes "\<not> f64_lt a b" and "\<not> f64_lt b a" and "\<not> f64_is_nan a" and "\<not> f64_is_nan b"
    and "a \<noteq> negative_zero" and "b \<noteq> negative_zero"
  shows "a = b"
proof -
  have nz: "f64_magnitude w \<noteq> 0" if "f64_negative w" "w \<noteq> negative_zero" for w
  proof
    assume "f64_magnitude w = 0"
    then have "unat w = 2 ^ 63" using that unat_f64 [of w] by simp
    then have "w = of_nat (2 ^ 63)" by (metis of_nat_unat ucast_id)
    then show False using that by (simp add: negative_zero_def f64_make_def)
  qed
  have eq: "f64_scaled a = f64_scaled b" using assms by (simp add: f64_lt_def)
  have mono: "magnitude_value x = magnitude_value y \<longleftrightarrow> x = y" for x y
    using magnitude_value_mono [of x y] magnitude_value_mono [of y x] by (metis linorder_neq_iff)
  have "f64_negative a = f64_negative b \<and> f64_magnitude a = f64_magnitude b"
    using eq nz [of a] nz [of b] assms(5,6) magnitude_value_eq_0 [of "f64_magnitude a"] magnitude_value_eq_0 [of "f64_magnitude b"]
    by (auto simp: f64_scaled_def mono simp del: magnitude_value_eq_0 split: if_splits)
  then have "unat a = unat b" using unat_f64 [of a] unat_f64 [of b] by simp
  then show ?thesis by (simp add: word_unat_eq_iff)
qed

lemma component_separates:
  assumes "encode_component t v = Inr a" and "encode_component t w = Inr b" and "py_lt v w"
  shows "separates a b"
proof (cases t)
  case INT64
  then obtain i j where v: "v = ScInt i" "w = ScInt j" using assms by (auto simp: encode_component_def split: if_splits scalar.splits)
  then have r: "- (2 ^ 63) \<le> i" "j < 2 ^ 63" "i < j"
    using assms INT64 by (auto simp: encode_component_def validate_int64.simps INT64_MIN_def INT64_MAX_def res_simps split: if_splits)
  have "separates (to_be 8 (nat (i + 2 ^ 63))) (to_be 8 (nat (j + 2 ^ 63)))"
    by (rule to_be_separates) (use r in simp_all)
  then show ?thesis using assms v INT64 by (auto simp: encode_component_def res_simps)
next
  case FLOAT64
  then obtain x y where v: "v = ScFloat x" "w = ScFloat y" "\<not> f64_is_nan x" "\<not> f64_is_nan y"
    using assms by (auto simp: encode_component_def split: if_splits scalar.splits)
  have "separates (to_be 8 (f64_sort_key x)) (to_be 8 (f64_sort_key y))"
  proof (rule to_be_separates)
    show "f64_sort_key x < f64_sort_key y" using f64_sort_key_less [of x y] v assms(3) by simp
    show "f64_sort_key y < 256 ^ 8" using unsigned_less [of "sortable_bits y", where 'a = nat] by (simp add: sortable_bits_key)
  qed
  then show ?thesis using assms v FLOAT64 by (auto simp: encode_component_def sortable_bits_key)
next
  case BOOLEAN
  then show ?thesis using assms by (auto simp: encode_component_def separates_def split: if_splits scalar.splits)
next
  case TEXT
  then obtain x y where v: "v = ScStr x" "w = ScStr y" using assms by (auto simp: encode_component_def split: if_splits scalar.splits)
  then obtain p q where e: "utf8_encode x = Inr p" "utf8_encode y = Inr q"
    and ab: "a = 4 # escape_zeros p @ [0, 0]" "b = 4 # escape_zeros q @ [0, 0]"
    using assms TEXT by (auto simp: encode_component_def res_simps)
  have "p < q" using utf8_encode_less [OF e] assms(3) v by simp
  then show ?thesis using escape_zeros_separates ab by simp
qed

lemma component_trichotomy:
  assumes "encode_component t v = Inr a" and "encode_component t w = Inr b"
    and "v \<noteq> ScFloat negative_zero" and "w \<noteq> ScFloat negative_zero"
  shows "if py_eq v w then v = w \<and> a = b else py_lt v w \<or> py_lt w v"
proof -
  have eq: "f64_eq x x" if "\<not> f64_is_nan x" for x using that by (simp add: f64_eq_def)
  show ?thesis
  proof (cases t)
    case FLOAT64
    then obtain x y where v: "v = ScFloat x" "w = ScFloat y" "\<not> f64_is_nan x" "\<not> f64_is_nan y"
      using assms by (auto simp: encode_component_def split: if_splits scalar.splits)
    have "f64_eq x y \<longleftrightarrow> \<not> f64_lt x y \<and> \<not> f64_lt y x" using v by (auto simp: f64_eq_def f64_lt_def)
    then show ?thesis using f64_eq_cases [of x y] v assms by auto
  qed (use assms in \<open>auto simp: encode_component_def split: if_splits scalar.splits\<close>)
qed

lemma py_eq_sym: "py_eq v w = py_eq w v"
  by (cases v; cases w) (auto simp: f64_eq_def)

lemma py_lt_asym: "py_lt v w \<Longrightarrow> \<not> py_eq v w \<and> \<not> py_lt w v"
  by (cases v; cases w) (auto simp: f64_lt_def f64_eq_def)

lemma encode_components_order:
  assumes "encode_components ts vs = Inr a" and "encode_components ts ws = Inr b"
    and "length vs = length ts" and "length ws = length ts"
    and "ScFloat negative_zero \<notin> set vs \<union> set ws"
  shows "(py_tuple_lt vs ws \<longrightarrow> separates a b) \<and> (vs = ws \<or> py_tuple_lt vs ws \<or> py_tuple_lt ws vs)"
  using assms
proof (induction ts arbitrary: vs ws a b)
  case Nil
  then show ?case by simp
next
  case (Cons t ts)
  obtain v vs' w ws' where vs: "vs = v # vs'" and ws: "ws = w # ws'"
    using Cons.prems(3,4) by (cases vs; cases ws) auto
  obtain p p' where a: "encode_component t v = Inr p" "encode_components ts vs' = Inr p'" "a = p @ p'"
    using Cons.prems(1) vs by (auto simp: res_simps)
  obtain q q' where b: "encode_component t w = Inr q" "encode_components ts ws' = Inr q'" "b = q @ q'"
    using Cons.prems(2) ws by (auto simp: res_simps)
  have IH: "(py_tuple_lt vs' ws' \<longrightarrow> separates p' q') \<and> (vs' = ws' \<or> py_tuple_lt vs' ws' \<or> py_tuple_lt ws' vs')"
    by (rule Cons.IH [OF a(2) b(2)]) (use Cons.prems vs ws in auto)
  have tri: "if py_eq v w then v = w \<and> p = q else py_lt v w \<or> py_lt w v"
    by (rule component_trichotomy [OF a(1) b(1)]) (use Cons.prems vs ws in auto)
  have app: "separates (r @ x) (r @ y)" if "separates x y" for r x y
    using that by (induction r) auto
  have ext: "separates (x @ x') (y @ y')" if "separates x y" for x x' y y'
    using that by (simp add: separates_def)
  show ?case
  proof (cases "py_eq v w")
    case True
    then have "v = w" "p = q" using tri by auto
    then show ?thesis using IH True app vs ws a b by simp
  next
    case False
    then have "\<not> py_eq w v" by (simp add: py_eq_sym)
    then show ?thesis using tri False py_lt_asym ext [OF component_separates [OF a(1) b(1)]] vs ws a b by auto
  qed
qed

lemma separates_imp_less: "separates a b \<Longrightarrow> a < b"
  using separatesD [of a b "[]" "[]"] by simp

text \<open>
  Claim C34. Byte order of encoded keys is SQL order of the key tuples: for two tuples that the codec
  of an index accepts, none of whose components is \<open>-0.0\<close>, the first key is smaller exactly when the
  first tuple is smaller in Python's (hence SQL's) tuple order, and the keys are equal exactly
  when the tuples are. A smaller key stays smaller whatever bytes follow either of them.
\<close>

theorem key_order_preserved:
  assumes "key_encode ts vs = Inr a" and "key_encode ts ws = Inr b"
    and "ScFloat negative_zero \<notin> set vs \<union> set ws"
  shows "(a < b \<longleftrightarrow> py_tuple_lt vs ws) \<and> (a = b \<longleftrightarrow> vs = ws) \<and> (a < b \<longrightarrow> (\<forall>s t. a @ s < b @ t))"
proof -
  have enc: "encode_components ts vs = Inr a" "encode_components ts ws = Inr b"
    and len: "length vs = length ts" "length ws = length ts"
    using assms by (auto simp: key_encode_def split: if_splits)
  note lt = encode_components_order [OF enc len assms(3)]
  have gt: "(py_tuple_lt ws vs \<longrightarrow> separates b a)"
    using encode_components_order [OF enc(2,1) len(2,1)] assms(3) by auto
  have irrefl: "\<not> py_tuple_lt vs vs"
    using encode_components_order [OF enc(1,1) len(1,1)] assms(3) separates_imp_less [of a a] by auto
  show ?thesis
    using lt gt irrefl enc separates_imp_less [of a b] separates_imp_less [of b a]
    by (auto simp: separates_def)
qed

theorem key_order_preserved_witness:
  "\<exists>a b. key_encode [INT64, TEXT] [ScInt (-5), ScStr [97, 0]] = Inr a
     \<and> key_encode [INT64, TEXT] [ScInt (-5), ScStr [97, 0, 98]] = Inr b \<and> a < b"
proof -
  obtain a b where "key_encode [INT64, TEXT] [ScInt (-5), ScStr [97, 0]] = Inr a"
      "key_encode [INT64, TEXT] [ScInt (-5), ScStr [97, 0, 98]] = Inr b"
    by (simp add: key_encode_def encode_component_def validate_int64.simps INT64_MIN_def INT64_MAX_def
        utf8_encode_def valid_cp_def)
  moreover from this have "a < b"
    using key_order_preserved [of "[INT64, TEXT]" "[ScInt (-5), ScStr [97, 0]]" a "[ScInt (-5), ScStr [97, 0, 98]]" b]
    by simp
  ultimately show ?thesis by blast
qed

text \<open>
  Claim C40. The two zeros are equal to every comparison of the evaluator and still get different
  keys, so an index probe for one does not find the other.
\<close>

theorem key_splits_zeros:
  "\<exists>a b. key_encode [FLOAT64] [ScFloat negative_zero] = Inr a \<and> key_encode [FLOAT64] [ScFloat 0] = Inr b
     \<and> compare_values ''='' (ScFloat negative_zero) (ScFloat 0) = Inr (ScBool True) \<and> a \<noteq> b"
proof -
  have u: "unat negative_zero = 2 ^ 63" by (simp add: negative_zero_def f64_make_def)
  have nan: "\<not> f64_is_nan negative_zero" "\<not> f64_is_nan 0"
    by (simp_all add: f64_is_nan_def f64_magnitude_def u f64_inf_magnitude_def)
  have s: "f64_scaled negative_zero = 0" "f64_scaled 0 = 0"
    by (simp_all add: f64_scaled_def f64_magnitude_def u)
  have k: "f64_sort_key negative_zero = 2 ^ 63 - 1" "f64_sort_key 0 = 2 ^ 63"
    by (simp_all add: f64_sort_key_def f64_negative_def u)
  have "to_be 8 (2 ^ 63 - 1) \<noteq> to_be 8 (2 ^ 63)" using to_be_less [of "2 ^ 63 - 1" "2 ^ 63" 8] by auto
  then show ?thesis
    using nan s k
    by (simp add: key_encode_def encode_component_def sortable_bits_key compare_values_def widen_numeric_pair_def
        compare_operator_def f64_eq_def is_numeric_def)
qed

end
