(* ===== verification/Coordinator.thy ===== *)
theory Coordinator
  imports Prelude
begin

text \<open>
  \<open>maintenance/coordinator.py\<close>: exclusion between the writers of a table and its physical
  maintenance. A stretch of code between two waits on the condition variable runs under its
  lock and is one step. Shows, for every interleaving, that a table never has a maintenance
  lease beside another lease, that no writer enters while maintenance waits, and that no release
  of a live lease fails.
\<close>

section \<open>State and operations\<close>

record table_state =
  writers :: nat
  maintenance_active :: bool
  maintenance_waiters :: nat

record maintenance_lease =
  lease_table :: nat
  lease_maintenance :: bool
  lease_released :: bool

type_synonym coordinator = "nat \<rightharpoonup> table_state"

text \<open>\<open>self._states.setdefault(table_id, _TableState())\<close>\<close>

definition state_of :: "nat \<Rightarrow> coordinator \<Rightarrow> table_state" where
  "state_of table_id c =
     (case c table_id of
        Some s \<Rightarrow> s
      | None \<Rightarrow> \<lparr>writers = 0, maintenance_active = False, maintenance_waiters = 0\<rparr>)"

text \<open>
  \<open>acquire_writer\<close> up to its wait: with the predicate false the thread sleeps (\<open>None\<close>) and
  runs the same stretch again when it is woken.
\<close>

definition acquire_writer :: "nat \<Rightarrow> coordinator \<Rightarrow> maintenance_lease option \<times> coordinator" where
  "acquire_writer table_id c =
     (let s = state_of table_id c
      in if \<not> maintenance_active s \<and> maintenance_waiters s = 0
         then (Some \<lparr>lease_table = table_id, lease_maintenance = False, lease_released = False\<rparr>,
               c(table_id \<mapsto> s\<lparr>writers := writers s + 1\<rparr>))
         else (None, c(table_id \<mapsto> s)))"

text \<open>
  \<open>acquire_maintenance\<close>: announcing the request, the wait, and (in the \<open>finally\<close> clause)
  withdrawing the request, after the lease was granted or when the wait raised.
\<close>

definition request_maintenance :: "nat \<Rightarrow> coordinator \<Rightarrow> coordinator" where
  "request_maintenance table_id c =
     (let s = state_of table_id c in c(table_id \<mapsto> s\<lparr>maintenance_waiters := maintenance_waiters s + 1\<rparr>))"

definition withdraw_maintenance :: "nat \<Rightarrow> coordinator \<Rightarrow> coordinator" where
  "withdraw_maintenance table_id c =
     (let s = state_of table_id c in c(table_id \<mapsto> s\<lparr>maintenance_waiters := maintenance_waiters s - 1\<rparr>))"

definition acquire_maintenance :: "nat \<Rightarrow> coordinator \<Rightarrow> maintenance_lease option \<times> coordinator" where
  "acquire_maintenance table_id c =
     (let s = state_of table_id c
      in if \<not> maintenance_active s \<and> writers s = 0
         then (Some \<lparr>lease_table = table_id, lease_maintenance = True, lease_released = False\<rparr>,
               withdraw_maintenance table_id (c(table_id \<mapsto> s\<lparr>maintenance_active := True\<rparr>)))
         else (None, c))"

definition release_lease :: "nat \<Rightarrow> bool \<Rightarrow> (coordinator, unit) sm" where
  "release_lease table_id maintenance c =
     (let s = state_of table_id c
      in if maintenance then
           (if \<not> maintenance_active s then (Inl PyRuntimeError, c(table_id \<mapsto> s))
            else (Inr (), c(table_id \<mapsto> s\<lparr>maintenance_active := False\<rparr>)))
         else
           (if writers s \<le> 0 then (Inl PyRuntimeError, c(table_id \<mapsto> s))
            else (Inr (), c(table_id \<mapsto> s\<lparr>writers := writers s - 1\<rparr>))))"

text \<open>
  \<open>MaintenanceLease.release\<close> (also run by \<open>__exit__\<close>): idempotent. Only \<open>release_lease\<close> runs under
  the condition; the flag is tested before and set after it without a lock. It is private to the
  lease, and a lease stays with the thread whose \<open>with\<close> block acquired it, so no other thread
  reads the flag in between and the three parts count as one step, taken where \<open>release_lease\<close>
  runs. Two threads that released one lease at the same time are not modelled.
\<close>

definition lease_release :: "maintenance_lease \<Rightarrow> (coordinator, maintenance_lease) sm" where
  "lease_release l =
     (if lease_released l then sm_return l
      else sm_bind (release_lease (lease_table l) (lease_maintenance l)) (\<lambda>_.
           sm_return (l\<lparr>lease_released := True\<rparr>)))"

section \<open>Interleavings\<close>

text \<open>The coordinator, every lease handed out, and the tables with a maintenance thread asleep.\<close>

record coordinator_world =
  cw_states :: coordinator
  cw_leases :: "maintenance_lease list"
  cw_waiting :: "nat list"

definition new_coordinator :: coordinator_world where
  "new_coordinator = \<lparr>cw_states = Map.empty, cw_leases = [], cw_waiting = []\<rparr>"

inductive coordinator_step :: "coordinator_world \<Rightarrow> coordinator_world \<Rightarrow> bool" where
  writer_enters: "acquire_writer t (cw_states w) = (Some l, c) \<Longrightarrow>
    coordinator_step w (w\<lparr>cw_states := c, cw_leases := cw_leases w @ [l]\<rparr>)"
| writer_sleeps: "acquire_writer t (cw_states w) = (None, c) \<Longrightarrow> coordinator_step w (w\<lparr>cw_states := c\<rparr>)"
| maintenance_requests: "coordinator_step w
    (w\<lparr>cw_states := request_maintenance t (cw_states w), cw_waiting := t # cw_waiting w\<rparr>)"
| maintenance_enters: "t \<in> set (cw_waiting w) \<Longrightarrow> acquire_maintenance t (cw_states w) = (Some l, c) \<Longrightarrow>
    coordinator_step w (w\<lparr>cw_states := c, cw_leases := cw_leases w @ [l], cw_waiting := remove1 t (cw_waiting w)\<rparr>)"
| maintenance_interrupted: "t \<in> set (cw_waiting w) \<Longrightarrow> coordinator_step w
    (w\<lparr>cw_states := withdraw_maintenance t (cw_states w), cw_waiting := remove1 t (cw_waiting w)\<rparr>)"
| lease_ends: "i < length (cw_leases w) \<Longrightarrow> lease_release (cw_leases w ! i) (cw_states w) = (Inr l, c) \<Longrightarrow>
    coordinator_step w (w\<lparr>cw_states := c, cw_leases := (cw_leases w)[i := l]\<rparr>)"
| lease_fails: "i < length (cw_leases w) \<Longrightarrow> lease_release (cw_leases w ! i) (cw_states w) = (Inl e, c) \<Longrightarrow>
    coordinator_step w (w\<lparr>cw_states := c\<rparr>)"

inductive_cases coordinator_stepE: "coordinator_step w w'"

definition live_leases :: "bool \<Rightarrow> nat \<Rightarrow> coordinator_world \<Rightarrow> nat set" where
  "live_leases m t w = {i. i < length (cw_leases w) \<and> lease_maintenance (cw_leases w ! i) = m
     \<and> lease_table (cw_leases w ! i) = t \<and> \<not> lease_released (cw_leases w ! i)}"

text \<open>The counters count the live leases and the sleeping requests.\<close>

definition coordinator_inv :: "coordinator_world \<Rightarrow> bool" where
  "coordinator_inv w \<longleftrightarrow> (\<forall>t. let s = state_of t (cw_states w) in
     writers s = card (live_leases False t w)
     \<and> card (live_leases True t w) = (if maintenance_active s then 1 else 0)
     \<and> maintenance_waiters s = count_list (cw_waiting w) t
     \<and> (maintenance_active s \<longrightarrow> writers s = 0))"

lemma finite_live_leases [simp]: "finite (live_leases m t w)"
  by (simp add: live_leases_def)

lemma live_leases_states [simp]:
  "live_leases m t (w\<lparr>cw_states := c\<rparr>) = live_leases m t w"
  "live_leases m t (w\<lparr>cw_states := c, cw_waiting := ws\<rparr>) = live_leases m t w"
  by (simp_all add: live_leases_def)

lemma live_leases_snoc:
  assumes "\<not> lease_released l"
  shows "live_leases m t (w\<lparr>cw_states := c, cw_leases := cw_leases w @ [l]\<rparr>) =
    live_leases m t w \<union> (if lease_maintenance l = m \<and> lease_table l = t then {length (cw_leases w)} else {})"
    and "live_leases m t (w\<lparr>cw_states := c, cw_leases := cw_leases w @ [l], cw_waiting := ws\<rparr>) =
    live_leases m t w \<union> (if lease_maintenance l = m \<and> lease_table l = t then {length (cw_leases w)} else {})"
  using assms by (auto simp: live_leases_def nth_append less_Suc_eq)

lemma live_leases_fresh: "length (cw_leases w) \<notin> live_leases m t w"
  by (simp add: live_leases_def)

lemma card_live_snoc:
  assumes "\<not> lease_released l"
  shows "card (live_leases m t (w\<lparr>cw_states := c, cw_leases := cw_leases w @ [l]\<rparr>)) =
    card (live_leases m t w) + (if lease_maintenance l = m \<and> lease_table l = t then 1 else 0)"
    and "card (live_leases m t (w\<lparr>cw_states := c, cw_leases := cw_leases w @ [l], cw_waiting := ws\<rparr>)) =
    card (live_leases m t w) + (if lease_maintenance l = m \<and> lease_table l = t then 1 else 0)"
  using live_leases_fresh by (simp_all add: live_leases_snoc [OF assms])

lemma live_leases_release:
  assumes "i < length (cw_leases w)" and "\<not> lease_released (cw_leases w ! i)"
  shows "live_leases m t (w\<lparr>cw_states := c, cw_leases := (cw_leases w)[i := (cw_leases w ! i)\<lparr>lease_released := True\<rparr>]\<rparr>) =
    live_leases m t w - {i}"
  using assms by (auto simp: live_leases_def nth_list_update)

lemma state_of_upd [simp]: "state_of t (c(t' \<mapsto> s)) = (if t = t' then s else state_of t c)"
  by (simp add: state_of_def)

lemma coordinator_invD:
  assumes "coordinator_inv w"
  shows "writers (state_of t (cw_states w)) = card (live_leases False t w)"
    and "card (live_leases True t w) = (if maintenance_active (state_of t (cw_states w)) then 1 else 0)"
    and "maintenance_waiters (state_of t (cw_states w)) = count_list (cw_waiting w) t"
    and "maintenance_active (state_of t (cw_states w)) \<Longrightarrow> writers (state_of t (cw_states w)) = 0"
  using assms by (auto simp: coordinator_inv_def Let_def)

lemma count_list_remove1: "count_list (remove1 x xs) y = count_list xs y - (if x = y then 1 else 0)"
  by (induction xs) (auto simp: count_list_0_iff)

lemma release_live:
  assumes "coordinator_inv w" and "i < length (cw_leases w)" and "\<not> lease_released (cw_leases w ! i)"
  defines "l \<equiv> cw_leases w ! i"
  shows "release_lease (lease_table l) (lease_maintenance l) (cw_states w) =
    (let s = state_of (lease_table l) (cw_states w)
     in (Inr (), (cw_states w)(lease_table l \<mapsto>
          (if lease_maintenance l then s\<lparr>maintenance_active := False\<rparr> else s\<lparr>writers := writers s - 1\<rparr>))))"
proof -
  have i: "i \<in> live_leases (lease_maintenance l) (lease_table l) w"
    using assms by (simp add: live_leases_def)
  then have "card (live_leases (lease_maintenance l) (lease_table l) w) \<noteq> 0" by auto
  then show ?thesis
    using coordinator_invD(1,2) [OF assms(1), of "lease_table l"]
    by (cases "lease_maintenance l") (auto simp: release_lease_def Let_def split: if_splits)
qed

lemma coordinator_step_inv:
  assumes "coordinator_step w w'" and inv: "coordinator_inv w"
  shows "coordinator_inv w'"
  using assms(1)
proof cases
  case (writer_enters t l c)
  then have "\<not> maintenance_active (state_of t (cw_states w))" "\<not> lease_released l" "\<not> lease_maintenance l" "lease_table l = t"
      "c = (cw_states w)(t \<mapsto> (state_of t (cw_states w))\<lparr>writers := writers (state_of t (cw_states w)) + 1\<rparr>)"
    by (auto simp: acquire_writer_def Let_def split: if_splits)
  then show ?thesis
    using inv writer_enters(1) by (auto simp: coordinator_inv_def Let_def card_live_snoc)
next
  case (writer_sleeps t c)
  then have "c = (cw_states w)(t \<mapsto> state_of t (cw_states w))"
    by (auto simp: acquire_writer_def Let_def split: if_splits)
  then show ?thesis using inv writer_sleeps(1) by (auto simp: coordinator_inv_def Let_def)
next
  case (maintenance_requests t)
  then show ?thesis using inv by (auto simp: coordinator_inv_def Let_def request_maintenance_def)
next
  case (maintenance_enters t l c)
  then have "\<not> maintenance_active (state_of t (cw_states w))" "writers (state_of t (cw_states w)) = 0"
      "\<not> lease_released l" "lease_maintenance l" "lease_table l = t"
      "c = withdraw_maintenance t ((cw_states w)(t \<mapsto> (state_of t (cw_states w))\<lparr>maintenance_active := True\<rparr>))"
    by (auto simp: acquire_maintenance_def Let_def split: if_splits)
  then show ?thesis
    using inv maintenance_enters(1)
    by (auto simp: coordinator_inv_def Let_def card_live_snoc withdraw_maintenance_def count_list_remove1)
next
  case (maintenance_interrupted t)
  then show ?thesis using inv by (auto simp: coordinator_inv_def Let_def withdraw_maintenance_def count_list_remove1)
next
  case (lease_ends i l c)
  show ?thesis
  proof (cases "lease_released (cw_leases w ! i)")
    case True
    then have "w' = w" using lease_ends by (cases w) (auto simp: lease_release_def)
    then show ?thesis using inv by simp
  next
    case False
    note rel = release_live [OF inv lease_ends(2) False]
    let ?l = "cw_leases w ! i"
    have l: "l = ?l\<lparr>lease_released := True\<rparr>"
      and c: "c = (cw_states w)(lease_table ?l \<mapsto> (if lease_maintenance ?l then (state_of (lease_table ?l) (cw_states w))\<lparr>maintenance_active := False\<rparr>
          else (state_of (lease_table ?l) (cw_states w))\<lparr>writers := writers (state_of (lease_table ?l) (cw_states w)) - 1\<rparr>))"
      using lease_ends(3) False by (auto simp: lease_release_def sm_bind_def rel Let_def)
    have mem: "i \<in> live_leases m t w \<longleftrightarrow> lease_maintenance ?l = m \<and> lease_table ?l = t" for m t
      using lease_ends(2) False by (simp add: live_leases_def)
    have card: "card (live_leases m t w - {i}) =
        card (live_leases m t w) - (if lease_maintenance ?l = m \<and> lease_table ?l = t then 1 else 0)" for m t
      using mem [of m t] by (simp add: card_Diff_singleton_if)
    show ?thesis
      unfolding lease_ends(1) l c
      using inv by (auto simp: coordinator_inv_def Let_def live_leases_release [OF lease_ends(2) False] card)
  qed
next
  case (lease_fails i e c)
  show ?thesis
  proof (cases "lease_released (cw_leases w ! i)")
    case True
    then show ?thesis using lease_fails by (simp add: lease_release_def)
  next
    case False
    then show ?thesis
      using lease_fails release_live [OF inv lease_fails(2) False] by (simp add: lease_release_def sm_bind_def Let_def)
  qed
qed

lemma coordinator_reachable_inv:
  assumes "coordinator_step\<^sup>*\<^sup>* new_coordinator w"
  shows "coordinator_inv w"
  using assms
proof induction
  case base
  show ?case by (simp add: coordinator_inv_def new_coordinator_def Let_def state_of_def live_leases_def)
next
  case (step w w')
  then show ?case by (blast intro: coordinator_step_inv)
qed

text \<open>
  Claim C33. In every state that any interleaving of writers and maintenance reaches: two live
  leases on one table, one of which is a maintenance lease, are the same lease; releasing any
  live lease succeeds; while maintenance waits for a table no writer enters it; and a waiting
  maintenance thread can enter as soon as no lease on its table is live.
\<close>

theorem maintenance_exclusion:
  assumes "coordinator_step\<^sup>*\<^sup>* new_coordinator w"
  shows "(\<forall>i j t m. i \<in> live_leases True t w \<and> j \<in> live_leases m t w \<longrightarrow> i = j)
    \<and> (\<forall>i m t. i \<in> live_leases m t w \<longrightarrow> (\<exists>l c. lease_release (cw_leases w ! i) (cw_states w) = (Inr l, c) \<and> lease_released l))
    \<and> (\<forall>t \<in> set (cw_waiting w). fst (acquire_writer t (cw_states w)) = None)
    \<and> (\<forall>t. live_leases True t w \<union> live_leases False t w = {} \<longrightarrow> fst (acquire_maintenance t (cw_states w)) \<noteq> None)"
proof (intro conjI allI ballI impI)
  have inv: "coordinator_inv w" by (rule coordinator_reachable_inv [OF assms])
  note d = coordinator_invD [OF inv]
  show "i = j" if "i \<in> live_leases True t w \<and> j \<in> live_leases m t w" for i j t m
  proof -
    have c: "card (live_leases True t w) = 1" "maintenance_active (state_of t (cw_states w))"
      using that d(2) [of t] by (auto split: if_splits)
    then have "live_leases False t w = {}" using d(1,4) [of t] by simp
    then have "m" using that by (cases m) auto
    then show ?thesis using that c(1) by (auto simp: card_1_singleton_iff)
  qed
  show "\<exists>l c. lease_release (cw_leases w ! i) (cw_states w) = (Inr l, c) \<and> lease_released l"
    if "i \<in> live_leases m t w" for i m t
  proof -
    have i: "i < length (cw_leases w)" "\<not> lease_released (cw_leases w ! i)" using that by (auto simp: live_leases_def)
    then show ?thesis using release_live [OF inv i] by (simp add: lease_release_def sm_bind_def Let_def)
  qed
  show "fst (acquire_writer t (cw_states w)) = None" if "t \<in> set (cw_waiting w)" for t
  proof -
    have "maintenance_waiters (state_of t (cw_states w)) \<noteq> 0" using that d(3) [of t] by (simp add: count_list_0_iff)
    then show ?thesis by (simp add: acquire_writer_def Let_def)
  qed
  show "fst (acquire_maintenance t (cw_states w)) \<noteq> None" if "live_leases True t w \<union> live_leases False t w = {}" for t
    using that d(1,2) [of t] by (auto simp: acquire_maintenance_def Let_def split: if_splits)
qed

theorem maintenance_exclusion_witness:
  "\<exists>w. coordinator_step\<^sup>*\<^sup>* new_coordinator w \<and> 5 \<in> set (cw_waiting w) \<and> 0 \<in> live_leases False 5 w
     \<and> fst (acquire_writer 5 (cw_states w)) = None"
proof -
  let ?l = "\<lparr>lease_table = 5, lease_maintenance = False, lease_released = False\<rparr>"
  obtain c where c: "acquire_writer 5 (cw_states new_coordinator) = (Some ?l, c)"
    by (simp add: acquire_writer_def new_coordinator_def state_of_def)
  define w1 where "w1 = new_coordinator\<lparr>cw_states := c, cw_leases := cw_leases new_coordinator @ [?l]\<rparr>"
  define w2 where "w2 = w1\<lparr>cw_states := request_maintenance 5 (cw_states w1), cw_waiting := 5 # cw_waiting w1\<rparr>"
  have "coordinator_step new_coordinator w1" unfolding w1_def by (rule coordinator_step.writer_enters [OF c])
  moreover have "coordinator_step w1 w2" unfolding w2_def by (rule coordinator_step.maintenance_requests)
  ultimately have r: "coordinator_step\<^sup>*\<^sup>* new_coordinator w2" by (meson converse_rtranclp_into_rtranclp r_into_rtranclp)
  moreover have "5 \<in> set (cw_waiting w2)" "0 \<in> live_leases False 5 w2"
    by (simp_all add: w2_def w1_def new_coordinator_def live_leases_def)
  moreover from this(1) have "fst (acquire_writer 5 (cw_states w2)) = None"
    using maintenance_exclusion [OF r] by blast
  ultimately show ?thesis by blast
qed

end
