(* ===== verification/Btree_Pages.thy ===== *)
theory Btree_Pages
  imports Page
begin

text \<open>
  \<open>index/pages.py\<close>: the bodies of the B+tree's metapage, internal pages and leaf pages. Shows
  exactly which pages can be encoded, with the error of every other one, and that an encoded
  page reads back.
\<close>

section \<open>Pages\<close>

definition META_MAGIC :: bytes where "META_MAGIC = ascii ''BTM1''"
definition INTERNAL_MAGIC :: bytes where "INTERNAL_MAGIC = ascii ''BTI1''"
definition LEAF_MAGIC :: bytes where "LEAF_MAGIC = ascii ''BTL1''"
definition NO_PAGE :: nat where "NO_PAGE = 2 ^ 64 - 1"

record meta_page =
  mp_root_page_id :: nat
  mp_height :: nat

record internal_page =
  ip_keys :: "bytes list"
  ip_children :: "nat list"

datatype leaf_entry = LeafEntry (le_key: bytes) (le_tid: tid)

record leaf_page =
  lp_entries :: "leaf_entry list"
  lp_left :: "nat option"
  lp_right :: "nat option"

definition entry_order :: "leaf_entry \<Rightarrow> bytes \<times> nat \<times> nat" where
  "entry_order e = (le_key e, tid_page (le_tid e), tid_slot (le_tid e))"

section \<open>Encoding\<close>

definition check_page_id :: "nat \<Rightarrow> nat result" where
  "check_page_id v = (if NO_PAGE \<le> v then Inl CorruptPage else Inr v)"

definition append_key :: "bytes \<Rightarrow> bytes result" where
  "append_key key =
     (if 65535 < length key then Inl PageFull
      else res_bind (pack_uint 2 (length key)) (\<lambda>n. Inr (n @ key)))"

fun encode_sibling :: "nat option \<Rightarrow> nat result" where
  "encode_sibling None = Inr NO_PAGE"
| "encode_sibling (Some page_id) = check_page_id page_id"

definition decode_sibling :: "nat \<Rightarrow> nat option" where
  "decode_sibling encoded = (if encoded = NO_PAGE then None else Some encoded)"

definition bounded :: "bytes \<Rightarrow> bytes result" where
  "bounded encoded = (if PAGE_BODY_SIZE < length encoded then Inl PageFull else Inr encoded)"

text \<open>\<open>any(left > right for left, right in pairwise(xs))\<close>\<close>

definition out_of_order :: "'a :: linorder list \<Rightarrow> bool" where
  "out_of_order xs \<longleftrightarrow> list_ex (\<lambda>(l, r). r < l) (zip xs (tl xs))"

definition encode_meta :: "meta_page \<Rightarrow> bytes result" where
  "encode_meta page =
     res_bind (check_page_id (mp_root_page_id page)) (\<lambda>_.
     if mp_height page \<le> 0 \<or> 65535 < mp_height page then Inl CorruptPage
     else res_bind (pack_fields [(8, mp_root_page_id page), (2, mp_height page), (2, 0)]) (\<lambda>fields.
          Inr (META_MAGIC @ fields)))"

definition encode_child :: "bytes \<times> nat \<Rightarrow> bytes result" where
  "encode_child kc =
     res_bind (append_key (fst kc)) (\<lambda>k.
     res_bind (check_page_id (snd kc)) (\<lambda>child.
     res_bind (pack_uint 8 child) (\<lambda>c. Inr (k @ c))))"

definition encode_internal :: "internal_page \<Rightarrow> bytes result" where
  "encode_internal page =
     (if length (ip_children page) \<noteq> length (ip_keys page) + 1 then Inl CorruptPage
      else if ip_children page = [] then Inl CorruptPage
      else if out_of_order (ip_keys page) then Inl CorruptPage
      else
        res_bind (check_page_id (ip_children page ! 0)) (\<lambda>first.
        res_bind (pack_fields [(2, length (ip_keys page)), (2, 0), (8, first)]) (\<lambda>fields.
        res_bind (res_mapM encode_child (zip (ip_keys page) (tl (ip_children page)))) (\<lambda>parts.
        bounded (INTERNAL_MAGIC @ fields @ concat parts)))))"

definition encode_entry :: "leaf_entry \<Rightarrow> bytes result" where
  "encode_entry e =
     res_bind (append_key (le_key e)) (\<lambda>k.
     res_bind (check_page_id (tid_page (le_tid e))) (\<lambda>_.
     if 2 ^ 32 - 1 < tid_slot (le_tid e) then Inl CorruptPage
     else res_bind (pack_fields [(8, tid_page (le_tid e)), (4, tid_slot (le_tid e))]) (\<lambda>t.
          Inr (k @ t))))"

definition encode_leaf :: "leaf_page \<Rightarrow> bytes result" where
  "encode_leaf page =
     (if out_of_order (map entry_order (lp_entries page)) then Inl CorruptPage
      else
        res_bind (encode_sibling (lp_left page)) (\<lambda>left.
        res_bind (encode_sibling (lp_right page)) (\<lambda>right.
        res_bind (pack_fields [(8, left), (8, right), (2, length (lp_entries page)), (2, 0)]) (\<lambda>fields.
        res_bind (res_mapM encode_entry (lp_entries page)) (\<lambda>parts.
        bounded (LEAF_MAGIC @ fields @ concat parts))))))"

section \<open>Decoding\<close>

definition decode_meta :: "bytes \<Rightarrow> meta_page result" where
  "decode_meta body =
     (if length body \<noteq> 16 then Inl CorruptPage
      else if py_slice body 0 4 \<noteq> META_MAGIC then Inl CorruptPage
      else
        let page = \<lparr>mp_root_page_id = uint_at body 4 8, mp_height = uint_at body 12 2\<rparr>
        in res_bind (encode_meta page) (\<lambda>_. Inr page))"

definition read_key :: "bytes \<Rightarrow> nat \<Rightarrow> (bytes \<times> nat) result" where
  "read_key body cursor =
     (let length_end = cursor + 2
      in if length body < length_end then Inl CorruptPage
         else
           let fin = length_end + uint_at body cursor 2
           in if length body < fin then Inl CorruptPage else Inr (py_slice body length_end fin, fin))"

fun decode_children :: "bytes \<Rightarrow> nat \<Rightarrow> nat \<Rightarrow> ((bytes \<times> nat) list \<times> nat) result" where
  "decode_children body 0 cursor = Inr ([], cursor)"
| "decode_children body (Suc n) cursor =
     res_bind (read_key body cursor) (\<lambda>(key, c).
     if length body < c + 8 then Inl CorruptPage
     else res_bind (decode_children body n (c + 8)) (\<lambda>(rest, fin).
          Inr ((key, uint_at body c 8) # rest, fin)))"

definition decode_internal :: "bytes \<Rightarrow> internal_page result" where
  "decode_internal body =
     (if length body < 16 then Inl CorruptPage
      else if py_slice body 0 4 \<noteq> INTERNAL_MAGIC then Inl CorruptPage
      else
        res_bind (decode_children body (uint_at body 4 2) 16) (\<lambda>(pairs, cursor).
        if cursor \<noteq> length body then Inl CorruptPage
        else
          let page = \<lparr>ip_keys = map fst pairs, ip_children = uint_at body 8 8 # map snd pairs\<rparr>
          in res_bind (encode_internal page) (\<lambda>_. Inr page)))"

fun decode_entries :: "bytes \<Rightarrow> nat \<Rightarrow> nat \<Rightarrow> (leaf_entry list \<times> nat) result" where
  "decode_entries body 0 cursor = Inr ([], cursor)"
| "decode_entries body (Suc n) cursor =
     res_bind (read_key body cursor) (\<lambda>(key, c).
     if length body < c + 12 then Inl CorruptPage
     else res_bind (decode_entries body n (c + 12)) (\<lambda>(rest, fin).
          Inr (LeafEntry key (TID (uint_at body c 8) (uint_at body (c + 8) 4)) # rest, fin)))"

definition decode_leaf :: "bytes \<Rightarrow> leaf_page result" where
  "decode_leaf body =
     (if length body < 24 then Inl CorruptPage
      else if py_slice body 0 4 \<noteq> LEAF_MAGIC then Inl CorruptPage
      else
        res_bind (decode_entries body (uint_at body 20 2) 24) (\<lambda>(entries, cursor).
        if cursor \<noteq> length body then Inl CorruptPage
        else
          let page = \<lparr>lp_entries = entries, lp_left = decode_sibling (uint_at body 4 8),
                      lp_right = decode_sibling (uint_at body 12 8)\<rparr>
          in res_bind (encode_leaf page) (\<lambda>_. Inr page)))"

section \<open>What can be encoded\<close>

lemma out_of_order_iff: "out_of_order xs \<longleftrightarrow> \<not> sorted xs"
proof (induction xs)
  case Nil
  show ?case by (simp add: out_of_order_def)
next
  case (Cons x xs)
  show ?case
  proof (cases xs)
    case Nil
    then show ?thesis by (simp add: out_of_order_def)
  next
    case (Cons y ys)
    then have "out_of_order (x # xs) \<longleftrightarrow> y < x \<or> out_of_order xs" by (simp add: out_of_order_def)
    moreover have "sorted (x # xs) \<longleftrightarrow> x \<le> y \<and> sorted xs" using Cons by (auto intro: order_trans)
    ultimately show ?thesis using Cons.IH by auto
  qed
qed

text \<open>Sizes: the fixed header, and per entry its key with length and the fixed pointer.\<close>

definition leaf_body_size :: "leaf_entry list \<Rightarrow> nat" where
  "leaf_body_size entries = 24 + sum_list (map (\<lambda>e. 2 + length (le_key e) + 12) entries)"

definition internal_body_size :: "bytes list \<Rightarrow> nat" where
  "internal_body_size keys = 16 + sum_list (map (\<lambda>k. 2 + length k + 8) keys)"

definition entry_ok :: "leaf_entry \<Rightarrow> bool" where
  "entry_ok e \<longleftrightarrow> tid_page (le_tid e) < NO_PAGE \<and> tid_slot (le_tid e) < 2 ^ 32"

definition sibling_ok :: "nat option \<Rightarrow> bool" where
  "sibling_ok s \<longleftrightarrow> (case s of None \<Rightarrow> True | Some p \<Rightarrow> p < NO_PAGE)"

text \<open>The pages the format can hold.\<close>

definition leaf_ok :: "leaf_page \<Rightarrow> bool" where
  "leaf_ok p \<longleftrightarrow> sorted (map entry_order (lp_entries p)) \<and> list_all entry_ok (lp_entries p)
     \<and> sibling_ok (lp_left p) \<and> sibling_ok (lp_right p)"

definition internal_ok :: "internal_page \<Rightarrow> bool" where
  "internal_ok p \<longleftrightarrow> length (ip_children p) = length (ip_keys p) + 1 \<and> sorted (ip_keys p)
     \<and> list_all (\<lambda>c. c < NO_PAGE) (ip_children p)"

definition entry_bytes :: "leaf_entry \<Rightarrow> bytes" where
  "entry_bytes e = to_be 2 (length (le_key e)) @ le_key e @ to_be 8 (tid_page (le_tid e)) @ to_be 4 (tid_slot (le_tid e))"

definition child_bytes :: "bytes \<times> nat \<Rightarrow> bytes" where
  "child_bytes kc = to_be 2 (length (fst kc)) @ fst kc @ to_be 8 (snd kc)"

lemma NO_PAGE_less: "v < NO_PAGE \<Longrightarrow> v < 256 ^ 8" "NO_PAGE < 256 ^ 8"
  by (simp_all add: NO_PAGE_def)

lemma append_key_small: "length k \<le> 65535 \<Longrightarrow> append_key k = Inr (to_be 2 (length k) @ k)"
  by (simp add: append_key_def)

lemma encode_entry_small: "entry_ok e \<Longrightarrow> length (le_key e) \<le> 65535 \<Longrightarrow> encode_entry e = Inr (entry_bytes e)"
  using NO_PAGE_less(1) [of "tid_page (le_tid e)"]
  by (simp add: encode_entry_def entry_ok_def append_key_small check_page_id_def entry_bytes_def
      pack_fields_eq fields_ok_def fields_bytes_def)

lemma encode_child_small: "snd kc < NO_PAGE \<Longrightarrow> length (fst kc) \<le> 65535 \<Longrightarrow> encode_child kc = Inr (child_bytes kc)"
  using NO_PAGE_less(1) [of "snd kc"]
  by (simp add: encode_child_def append_key_small check_page_id_def child_bytes_def)

lemma sum_bound: "x \<in> set xs \<Longrightarrow> f x \<le> sum_list (map f xs)" for f :: "'a \<Rightarrow> nat"
  by (induction xs) auto

lemma length_le_sum: "(\<And>x. 1 \<le> f x) \<Longrightarrow> length xs \<le> sum_list (map f xs)" for f :: "'a \<Rightarrow> nat"
proof (induction xs)
  case (Cons x xs)
  then have "1 \<le> f x" "length xs \<le> sum_list (map f xs)" by auto
  then show ?case by simp
qed simp

lemma length_concat_entries: "length (concat (map entry_bytes es)) = sum_list (map (\<lambda>e. 2 + length (le_key e) + 12) es)"
  by (induction es) (simp_all add: entry_bytes_def)

lemma length_concat_children: "length (concat (map child_bytes kcs)) = sum_list (map (\<lambda>k. 2 + length k + 8) (map fst kcs))"
  by (induction kcs) (simp_all add: child_bytes_def)

definition leaf_bytes :: "leaf_page \<Rightarrow> bytes" where
  "leaf_bytes p = LEAF_MAGIC @ fields_bytes [(8, case lp_left p of None \<Rightarrow> NO_PAGE | Some s \<Rightarrow> s),
     (8, case lp_right p of None \<Rightarrow> NO_PAGE | Some s \<Rightarrow> s), (2, length (lp_entries p)), (2, 0)]
     @ concat (map entry_bytes (lp_entries p))"

definition internal_bytes :: "internal_page \<Rightarrow> bytes" where
  "internal_bytes p = INTERNAL_MAGIC @ fields_bytes [(2, length (ip_keys p)), (2, 0), (8, hd (ip_children p))]
     @ concat (map child_bytes (zip (ip_keys p) (tl (ip_children p))))"

lemma length_leaf_bytes: "length (leaf_bytes p) = leaf_body_size (lp_entries p)"
  by (simp add: leaf_bytes_def length_concat_entries leaf_body_size_def length_fields_bytes LEAF_MAGIC_def)

lemma length_internal_bytes:
  "length (ip_children p) = length (ip_keys p) + 1 \<Longrightarrow> length (internal_bytes p) = internal_body_size (ip_keys p)"
  by (simp add: internal_bytes_def length_concat_children internal_body_size_def length_fields_bytes INTERNAL_MAGIC_def)

lemma encode_sibling_ok: "sibling_ok s \<Longrightarrow> encode_sibling s = Inr (case s of None \<Rightarrow> NO_PAGE | Some p \<Rightarrow> p)"
  by (auto simp: sibling_ok_def check_page_id_def split: option.splits)

lemma encode_leaf_fits:
  assumes "leaf_ok p" and "leaf_body_size (lp_entries p) \<le> PAGE_BODY_SIZE"
  shows "encode_leaf p = Inr (leaf_bytes p)"
proof -
  have sz: "sum_list (map (\<lambda>e. 2 + length (le_key e) + 12) (lp_entries p)) \<le> 8148"
    using assms(2) by (simp add: leaf_body_size_def page_sizes)
  have key: "length (le_key e) \<le> 65535" if "e \<in> set (lp_entries p)" for e
    using sum_bound [OF that, of "\<lambda>e. 2 + length (le_key e) + 12"] sz by simp
  have len: "length (lp_entries p) \<le> 8148"
    using length_le_sum [of "\<lambda>e. 2 + length (le_key e) + 12" "lp_entries p"] sz by simp
  have ents: "res_mapM encode_entry (lp_entries p) = Inr (map entry_bytes (lp_entries p))"
    by (rule res_mapM_Inr_map) (use assms(1) key in \<open>auto simp: leaf_ok_def list_all_iff intro: encode_entry_small\<close>)
  have sib: "(case s of None \<Rightarrow> NO_PAGE | Some p \<Rightarrow> p) < 256 ^ 8" if "sibling_ok s" for s
    using that NO_PAGE_less by (auto simp: sibling_ok_def split: option.splits)
  have "fields_ok [(8, case lp_left p of None \<Rightarrow> NO_PAGE | Some s \<Rightarrow> s),
     (8, case lp_right p of None \<Rightarrow> NO_PAGE | Some s \<Rightarrow> s), (2, length (lp_entries p)), (2, 0)]"
    using sib [of "lp_left p"] sib [of "lp_right p"] assms(1) len by (simp add: leaf_ok_def fields_ok_def)
  then show ?thesis
    using assms length_leaf_bytes [of p] ents
    by (simp add: encode_leaf_def leaf_ok_def out_of_order_iff encode_sibling_ok pack_fields_eq bounded_def leaf_bytes_def del: pack_fields.simps)
qed

lemma encode_leaf_full:
  assumes "leaf_ok p" and "PAGE_BODY_SIZE < leaf_body_size (lp_entries p)" and "length (lp_entries p) < 65536"
  shows "encode_leaf p = Inl PageFull"
proof -
  have sib: "(case s of None \<Rightarrow> NO_PAGE | Some p \<Rightarrow> p) < 256 ^ 8" if "sibling_ok s" for s
    using that NO_PAGE_less by (auto simp: sibling_ok_def split: option.splits)
  have ok: "fields_ok [(8, case lp_left p of None \<Rightarrow> NO_PAGE | Some s \<Rightarrow> s),
     (8, case lp_right p of None \<Rightarrow> NO_PAGE | Some s \<Rightarrow> s), (2, length (lp_entries p)), (2, 0)]"
    using sib [of "lp_left p"] sib [of "lp_right p"] assms by (simp add: leaf_ok_def fields_ok_def)
  have big: "encode_entry e = Inl PageFull" if "65535 < length (le_key e)" for e
    using that by (simp add: encode_entry_def append_key_def)
  have ents: "res_mapM encode_entry es = (if \<exists>e \<in> set es. 65535 < length (le_key e) then Inl PageFull else Inr (map entry_bytes es))"
    if "list_all entry_ok es" for es
    using that
  proof (induction es)
    case (Cons e es)
    then show ?case by (cases "65535 < length (le_key e)") (auto simp: big encode_entry_small)
  qed simp
  have "list_all entry_ok (lp_entries p)" using assms(1) by (simp add: leaf_ok_def)
  from ents [OF this] show ?thesis
    using assms length_leaf_bytes [of p] ok
    by (simp add: encode_leaf_def leaf_ok_def out_of_order_iff encode_sibling_ok pack_fields_eq bounded_def leaf_bytes_def del: pack_fields.simps)
qed

lemma encode_internal_fits:
  assumes "internal_ok p" and "internal_body_size (ip_keys p) \<le> PAGE_BODY_SIZE"
  shows "encode_internal p = Inr (internal_bytes p)"
proof -
  obtain c cs where ch: "ip_children p = c # cs" and lc: "length cs = length (ip_keys p)"
    using assms(1) by (cases "ip_children p") (auto simp: internal_ok_def)
  have sz: "sum_list (map (\<lambda>k. 2 + length k + 8) (ip_keys p)) \<le> 8148"
    using assms(2) by (simp add: internal_body_size_def page_sizes)
  have key: "length k \<le> 65535" if "k \<in> set (ip_keys p)" for k
    using sum_bound [OF that, of "\<lambda>k. 2 + length k + 8"] sz by simp
  have len: "length (ip_keys p) \<le> 8148"
    using length_le_sum [of "\<lambda>k. 2 + length k + 8" "ip_keys p"] sz by simp
  have kids: "res_mapM encode_child (zip (ip_keys p) cs) = Inr (map child_bytes (zip (ip_keys p) cs))"
    by (rule res_mapM_Inr_map)
      (use assms(1) key ch in \<open>auto simp: internal_ok_def list_all_iff intro!: encode_child_small dest: set_zip_leftD set_zip_rightD\<close>)
  have "fields_ok [(2, length (ip_keys p)), (2, 0), (8, c)]"
    using assms(1) len ch NO_PAGE_less(1) [of c] by (simp add: internal_ok_def fields_ok_def)
  then show ?thesis
    using assms ch lc kids length_internal_bytes [of p]
    by (simp add: encode_internal_def internal_ok_def out_of_order_iff check_page_id_def pack_fields_eq bounded_def internal_bytes_def del: pack_fields.simps)
qed

lemma encode_leaf_InrD:
  assumes "encode_leaf p = Inr body"
  shows "leaf_ok p \<and> leaf_body_size (lp_entries p) \<le> PAGE_BODY_SIZE \<and> body = leaf_bytes p"
proof -
  obtain parts where parts: "res_mapM encode_entry (lp_entries p) = Inr parts"
    and so: "sorted (map entry_order (lp_entries p))" "encode_sibling (lp_left p) \<in> range Inr" "encode_sibling (lp_right p) \<in> range Inr"
    and b: "length body \<le> PAGE_BODY_SIZE" "length body = 24 + length (concat parts)"
    using assms by (auto simp: encode_leaf_def out_of_order_iff res_simps bounded_def LEAF_MAGIC_def simp del: pack_fields.simps
        dest!: length_pack_fields split: if_splits)
  have e: "entry_ok e \<and> part = entry_bytes e" if "encode_entry e = Inr part" for e part
    using that by (auto simp: encode_entry_def res_simps check_page_id_def entry_ok_def append_key_def pack_uint_eq_Inr_iff entry_bytes_def fields_bytes_def
        simp del: pack_fields.simps split: if_splits dest!: pack_fields_InrD)
  have "list_all entry_ok (lp_entries p)"
    using res_mapM_Inr_all [OF parts] e by (auto simp: list_all_iff)
  moreover have "parts = map entry_bytes (lp_entries p)"
    by (rule nth_equalityI) (use parts e in \<open>auto simp: res_mapM_Inr_iff\<close>)
  moreover have "sibling_ok s" if "encode_sibling s \<in> range Inr" for s
    using that by (cases s) (auto simp: sibling_ok_def check_page_id_def split: if_splits)
  ultimately have ok: "leaf_ok p" "leaf_body_size (lp_entries p) \<le> PAGE_BODY_SIZE"
    using so b by (auto simp: leaf_ok_def leaf_body_size_def length_concat_entries)
  then show ?thesis using encode_leaf_fits [OF ok] assms by simp
qed

lemma encode_internal_InrD:
  assumes "encode_internal p = Inr body"
  shows "internal_ok p \<and> internal_body_size (ip_keys p) \<le> PAGE_BODY_SIZE \<and> body = internal_bytes p"
proof -
  obtain c cs where ch: "ip_children p = c # cs" and lc: "length cs = length (ip_keys p)"
    using assms by (cases "ip_children p") (auto simp: encode_internal_def split: if_splits)
  obtain parts where parts: "res_mapM encode_child (zip (ip_keys p) cs) = Inr parts"
    and so: "sorted (ip_keys p)" "c < NO_PAGE"
    and b: "length body \<le> PAGE_BODY_SIZE" "length body = 16 + length (concat parts)"
    using assms ch by (auto simp: encode_internal_def out_of_order_iff res_simps bounded_def INTERNAL_MAGIC_def check_page_id_def simp del: pack_fields.simps
        dest!: length_pack_fields split: if_splits)
  have e: "snd kc < NO_PAGE \<and> part = child_bytes kc" if "encode_child kc = Inr part" for kc part
    using that by (auto simp: encode_child_def res_simps check_page_id_def append_key_def pack_uint_eq_Inr_iff child_bytes_def
        split: if_splits)
  have "child < NO_PAGE" if "child \<in> set cs" for child
  proof -
    obtain i where i: "i < length cs" "cs ! i = child" using \<open>child \<in> set cs\<close> by (auto simp: in_set_conv_nth)
    then have "(ip_keys p ! i, child) \<in> set (zip (ip_keys p) cs)" using lc by (auto simp: set_zip)
    then show ?thesis using res_mapM_Inr_all [OF parts] e by fastforce
  qed
  moreover have "parts = map child_bytes (zip (ip_keys p) cs)"
    by (rule nth_equalityI) (use parts e in \<open>auto simp: res_mapM_Inr_iff simp del: nth_zip\<close>)
  ultimately have ok: "internal_ok p" "internal_body_size (ip_keys p) \<le> PAGE_BODY_SIZE"
    using so b ch lc by (auto simp: internal_ok_def internal_body_size_def length_concat_children list_all_iff)
  then show ?thesis using encode_internal_fits [OF ok] assms by simp
qed

section \<open>Reading back\<close>

lemma read_key_at:
  assumes "length k \<le> 65535"
  shows "read_key (pre @ to_be 2 (length k) @ k @ rest) (length pre) = Inr (k, length pre + 2 + length k)"
proof -
  have "uint_at (pre @ to_be 2 (length k) @ k @ rest) (length pre) 2 = length k"
    using assms by (simp add: layout_simps)
  moreover have "py_slice (pre @ to_be 2 (length k) @ k @ rest) (length pre + 2) (length pre + 2 + length k) = k"
    using py_slice_append_exact [of "length pre + 2" "pre @ to_be 2 (length k)" _ k rest] by simp
  ultimately show ?thesis by (simp add: read_key_def Let_def)
qed

lemma decode_entries_bytes:
  "list_all entry_ok es \<Longrightarrow> \<forall>e \<in> set es. length (le_key e) \<le> 65535 \<Longrightarrow>
   decode_entries (pre @ concat (map entry_bytes es)) (length es) (length pre) =
     Inr (es, length pre + length (concat (map entry_bytes es)))"
proof (induction es arbitrary: pre)
  case (Cons e es)
  obtain k a b where e: "e = LeafEntry k (TID a b)" by (metis leaf_entry.exhaust tid.exhaust)
  have ok: "a < 256 ^ 8" "b < 256 ^ 4" "length k \<le> 65535"
    using Cons.prems NO_PAGE_less(1) [of a] by (auto simp: entry_ok_def e)
  define body where "body = pre @ concat (map entry_bytes (e # es))"
  define p where "p = pre @ to_be 2 (length k) @ k"
  have b1: "body = p @ to_be 8 a @ to_be 4 b @ concat (map entry_bytes es)"
    by (simp add: body_def p_def entry_bytes_def e)
  have rk: "read_key body (length pre) = Inr (k, length p)"
    using read_key_at [OF ok(3), of pre] by (simp add: b1 p_def)
  have at: "uint_at body (length p) 8 = a" "uint_at body (length p + 8) 4 = b"
    using ok by (simp_all add: b1 layout_simps)
  have "decode_entries body (length es) (length p + 12) = Inr (es, length body)"
    using Cons.IH [of "p @ to_be 8 a @ to_be 4 b"] Cons.prems by (simp add: b1)
  moreover have "length p + 12 \<le> length body" by (simp add: b1)
  ultimately have "decode_entries body (length (e # es)) (length pre) = Inr (e # es, length body)"
    using rk at by (simp add: e)
  then show ?case by (simp add: body_def)
qed simp

lemma decode_children_bytes:
  "\<forall>(k, c) \<in> set kcs. length k \<le> 65535 \<and> c < NO_PAGE \<Longrightarrow>
   decode_children (pre @ concat (map child_bytes kcs)) (length kcs) (length pre) =
     Inr (kcs, length pre + length (concat (map child_bytes kcs)))"
proof (induction kcs arbitrary: pre)
  case (Cons kc kcs)
  obtain k c where kc: "kc = (k, c)" by (cases kc)
  have ok: "c < 256 ^ 8" "length k \<le> 65535"
    using Cons.prems NO_PAGE_less(1) [of c] by (auto simp: kc)
  define body where "body = pre @ concat (map child_bytes (kc # kcs))"
  define p where "p = pre @ to_be 2 (length k) @ k"
  have b1: "body = p @ to_be 8 c @ concat (map child_bytes kcs)"
    by (simp add: body_def p_def child_bytes_def kc)
  have rk: "read_key body (length pre) = Inr (k, length p)"
    using read_key_at [OF ok(2), of pre] by (simp add: b1 p_def)
  have at: "uint_at body (length p) 8 = c" using ok by (simp add: b1 layout_simps)
  have "decode_children body (length kcs) (length p + 8) = Inr (kcs, length body)"
    using Cons.IH [of "p @ to_be 8 c"] Cons.prems by (simp add: b1)
  moreover have "length p + 8 \<le> length body" by (simp add: b1)
  ultimately have "decode_children body (length (kc # kcs)) (length pre) = Inr (kc # kcs, length body)"
    using rk at by (simp add: kc)
  then show ?case by (simp add: body_def)
qed simp

lemma decode_leaf_bytes:
  assumes "leaf_ok p" and "leaf_body_size (lp_entries p) \<le> PAGE_BODY_SIZE"
  shows "decode_leaf (leaf_bytes p) = Inr p"
proof -
  define fs where "fs = [(8, case lp_left p of None \<Rightarrow> NO_PAGE | Some s \<Rightarrow> s),
     (8, case lp_right p of None \<Rightarrow> NO_PAGE | Some s \<Rightarrow> s), (2, length (lp_entries p)), (2 :: nat, 0)]"
  define es where "es = concat (map entry_bytes (lp_entries p))"
  have body: "leaf_bytes p = LEAF_MAGIC @ fields_bytes fs @ es" by (simp add: leaf_bytes_def fs_def es_def)
  have key: "\<forall>e \<in> set (lp_entries p). length (le_key e) \<le> 65535"
    using sum_bound [of _ "lp_entries p" "\<lambda>e. 2 + length (le_key e) + 12"] assms(2)
    by (fastforce simp: leaf_body_size_def page_sizes)
  have "length (lp_entries p) \<le> 8148"
    using length_le_sum [of "\<lambda>e. 2 + length (le_key e) + 12" "lp_entries p"] assms(2)
    by (simp add: leaf_body_size_def page_sizes)
  moreover have "(case s of None \<Rightarrow> NO_PAGE | Some p \<Rightarrow> p) < 256 ^ 8" if "sibling_ok s" for s
    using that NO_PAGE_less by (auto simp: sibling_ok_def split: option.splits)
  ultimately have ok: "fields_ok fs"
    using assms(1) by (simp add: fs_def fields_ok_def leaf_ok_def)
  have m4: "length LEAF_MAGIC = 4" by (simp add: LEAF_MAGIC_def)
  note f = uint_at_fields [OF ok, of _ LEAF_MAGIC es, folded body]
  have at: "uint_at (leaf_bytes p) 4 8 = (case lp_left p of None \<Rightarrow> NO_PAGE | Some s \<Rightarrow> s)"
      "uint_at (leaf_bytes p) 12 8 = (case lp_right p of None \<Rightarrow> NO_PAGE | Some s \<Rightarrow> s)"
      "uint_at (leaf_bytes p) 20 2 = length (lp_entries p)"
    using f [of 0] f [of 1] f [of 2] by (simp_all add: fs_def m4)
  have hd: "length (LEAF_MAGIC @ fields_bytes fs) = 24" by (simp add: m4 length_fields_bytes fs_def)
  have "list_all entry_ok (lp_entries p)" using assms(1) by (simp add: leaf_ok_def)
  from decode_entries_bytes [OF this key, of "LEAF_MAGIC @ fields_bytes fs"]
  have ents: "decode_entries (leaf_bytes p) (length (lp_entries p)) 24 = Inr (lp_entries p, length (leaf_bytes p))"
    using hd by (simp add: body es_def)
  have sib: "decode_sibling (case s of None \<Rightarrow> NO_PAGE | Some s \<Rightarrow> s) = s" if "sibling_ok s" for s
    using that by (auto simp: decode_sibling_def sibling_ok_def split: option.splits)
  have "py_slice (leaf_bytes p) 0 4 = LEAF_MAGIC" by (simp add: body layout_simps m4)
  moreover have "24 \<le> length (leaf_bytes p)" using hd by (simp add: body)
  moreover have eta: "\<lparr>lp_entries = lp_entries p, lp_left = lp_left p, lp_right = lp_right p\<rparr> = p" by simp
  ultimately show ?thesis
    using assms(1) encode_leaf_fits [OF assms]
    by (simp add: decode_leaf_def Let_def at ents sib leaf_ok_def eta)
qed

lemma decode_internal_bytes:
  assumes "internal_ok p" and "internal_body_size (ip_keys p) \<le> PAGE_BODY_SIZE"
  shows "decode_internal (internal_bytes p) = Inr p"
proof -
  obtain c cs where ch: "ip_children p = c # cs" and lc: "length cs = length (ip_keys p)"
    using assms(1) by (cases "ip_children p") (auto simp: internal_ok_def)
  define fs where "fs = [(2 :: nat, length (ip_keys p)), (2, 0), (8, c)]"
  define kids where "kids = zip (ip_keys p) cs"
  have body: "internal_bytes p = INTERNAL_MAGIC @ fields_bytes fs @ concat (map child_bytes kids)"
    by (simp add: internal_bytes_def fs_def kids_def ch)
  have "length k \<le> 65535" if "k \<in> set (ip_keys p)" for k
    using sum_bound [OF that, of "\<lambda>k. 2 + length k + 8"] assms(2) by (simp add: internal_body_size_def page_sizes)
  then have key: "\<forall>(k, c) \<in> set kids. length k \<le> 65535 \<and> c < NO_PAGE"
    using assms(1) ch by (auto simp: kids_def internal_ok_def list_all_iff dest: set_zip_leftD set_zip_rightD)
  have "length (ip_keys p) \<le> 8148"
    using length_le_sum [of "\<lambda>k. 2 + length k + 8" "ip_keys p"] assms(2)
    by (simp add: internal_body_size_def page_sizes)
  then have ok: "fields_ok fs"
    using assms(1) ch NO_PAGE_less(1) [of c] by (simp add: fs_def fields_ok_def internal_ok_def)
  have m4: "length INTERNAL_MAGIC = 4" by (simp add: INTERNAL_MAGIC_def)
  note f = uint_at_fields [OF ok, of _ INTERNAL_MAGIC "concat (map child_bytes kids)", folded body]
  have at: "uint_at (internal_bytes p) 4 2 = length kids" "uint_at (internal_bytes p) 8 8 = c"
    using f [of 0] f [of 2] lc by (simp_all add: fs_def m4 kids_def)
  have hd: "length (INTERNAL_MAGIC @ fields_bytes fs) = 16" by (simp add: m4 length_fields_bytes fs_def)
  from decode_children_bytes [OF key, of "INTERNAL_MAGIC @ fields_bytes fs"]
  have ents: "decode_children (internal_bytes p) (length kids) 16 = Inr (kids, length (internal_bytes p))"
    using hd by (simp add: body)
  have "py_slice (internal_bytes p) 0 4 = INTERNAL_MAGIC" by (simp add: body layout_simps m4)
  moreover have "16 \<le> length (internal_bytes p)" using hd by (simp add: body)
  moreover have "\<lparr>ip_keys = map fst kids, ip_children = c # map snd kids\<rparr> = p"
    using lc ch by (simp add: kids_def)
  ultimately show ?thesis
    using encode_internal_fits [OF assms] by (simp add: decode_internal_def Let_def at ents)
qed

lemma decode_encode_leaf: "encode_leaf p = Inr body \<Longrightarrow> decode_leaf body = Inr p"
  using encode_leaf_InrD decode_leaf_bytes by blast

lemma decode_encode_internal: "encode_internal p = Inr body \<Longrightarrow> decode_internal body = Inr p"
  using encode_internal_InrD decode_internal_bytes by blast

lemma decode_leaf_InrD: "decode_leaf body = Inr p \<Longrightarrow> leaf_ok p \<and> leaf_body_size (lp_entries p) \<le> PAGE_BODY_SIZE"
  by (auto simp: decode_leaf_def Let_def res_simps split: if_splits prod.splits dest: encode_leaf_InrD)

lemma decode_internal_InrD: "decode_internal body = Inr p \<Longrightarrow> internal_ok p \<and> internal_body_size (ip_keys p) \<le> PAGE_BODY_SIZE"
  by (auto simp: decode_internal_def Let_def res_simps split: if_splits prod.splits dest: encode_internal_InrD)

lemma decode_encode_meta:
  assumes "encode_meta p = Inr body"
  shows "decode_meta body = Inr p \<and> length body = 16"
proof -
  let ?fs = "[(8, mp_root_page_id p), (2, mp_height p), (2 :: nat, 0)]"
  have ok: "fields_ok ?fs" and body: "body = META_MAGIC @ fields_bytes ?fs @ []"
    using assms by (auto simp: encode_meta_def res_simps simp del: pack_fields.simps split: if_splits dest!: pack_fields_InrD)
  have m4: "length META_MAGIC = 4" by (simp add: META_MAGIC_def)
  note f = uint_at_fields [OF ok, of _ META_MAGIC "[]", folded body]
  have "uint_at body 4 8 = mp_root_page_id p" "uint_at body 12 2 = mp_height p"
    using f [of 0] f [of 1] by (simp_all add: m4)
  moreover have "length body = 16" by (simp add: body m4 length_fields_bytes)
  moreover have "py_slice body 0 4 = META_MAGIC" by (simp add: body layout_simps m4)
  moreover have eta: "\<lparr>mp_root_page_id = mp_root_page_id p, mp_height = mp_height p\<rparr> = p" by simp
  ultimately show ?thesis using assms by (simp add: decode_meta_def Let_def eta)
qed

text \<open>
  B+tree pages read back: whatever metapage, internal page or leaf page is encoded
  decodes to itself; a leaf in order with addressable pointers is encoded exactly when its body fits,
  into a body of the size the split position is computed from, and is otherwise refused with
  \<open>PageFull\<close>; and whatever decodes is in order.
\<close>

lemma btree_page_roundtrip:
  "(encode_meta m = Inr body \<longrightarrow> decode_meta body = Inr m)
   \<and> (encode_internal i = Inr body \<longrightarrow> decode_internal body = Inr i)
   \<and> (encode_leaf l = Inr body \<longrightarrow> decode_leaf body = Inr l \<and> length body = leaf_body_size (lp_entries l))
   \<and> (leaf_ok l \<and> length (lp_entries l) < 65536 \<longrightarrow>
        (if leaf_body_size (lp_entries l) \<le> PAGE_BODY_SIZE then \<exists>b. encode_leaf l = Inr b else encode_leaf l = Inl PageFull))
   \<and> (decode_leaf body = Inr l \<longrightarrow> sorted (map entry_order (lp_entries l)))
   \<and> (decode_internal body = Inr i \<longrightarrow> sorted (ip_keys i) \<and> length (ip_children i) = length (ip_keys i) + 1)"
proof (intro conjI impI)
  show "decode_meta body = Inr m" if "encode_meta m = Inr body" using decode_encode_meta [OF that] by simp
  show "decode_internal body = Inr i" if "encode_internal i = Inr body" using decode_encode_internal [OF that] .
  show "decode_leaf body = Inr l" if "encode_leaf l = Inr body" using decode_encode_leaf [OF that] .
  show "length body = leaf_body_size (lp_entries l)" if "encode_leaf l = Inr body"
    using encode_leaf_InrD [OF that] length_leaf_bytes [of l] by simp
  show "if leaf_body_size (lp_entries l) \<le> PAGE_BODY_SIZE then \<exists>b. encode_leaf l = Inr b else encode_leaf l = Inl PageFull"
    if "leaf_ok l \<and> length (lp_entries l) < 65536"
    using that encode_leaf_fits [of l] encode_leaf_full [of l] by (cases "leaf_body_size (lp_entries l) \<le> PAGE_BODY_SIZE") simp_all
  show "sorted (map entry_order (lp_entries l))" if "decode_leaf body = Inr l"
    using decode_leaf_InrD [OF that] by (simp add: leaf_ok_def)
  show "sorted (ip_keys i)" if "decode_internal body = Inr i"
    using decode_internal_InrD [OF that] by (simp add: internal_ok_def)
  show "length (ip_children i) = length (ip_keys i) + 1" if "decode_internal body = Inr i"
    using decode_internal_InrD [OF that] by (simp add: internal_ok_def)
qed

end
