(* ===== verification/Page_Access.thy ===== *)
theory Page_Access
  imports Buffer
begin

text \<open>
  How the heap and the B+tree use the buffer pool: \<open>with pool.fetch_page(key) as guard: ...\<close>.
  Shows that on a pool with an open log and one unpinned frame such a block always gets its
  page, reads or replaces exactly that logical page, and leaves the pool as ready as before.
\<close>

section \<open>The with statement\<close>

text \<open>\<open>with acquire as guard: body\<close>: the guard is released whether or not the body raises.\<close>

definition with_guard ::
    "(buffer_pool, page_guard) sm \<Rightarrow> (page_guard \<Rightarrow> (buffer_pool, 'a) sm) \<Rightarrow> (buffer_pool, 'a) sm" where
  "with_guard acquire body =
     sm_bind acquire (\<lambda>g b.
     case body g b of (r, b1) \<Rightarrow>
       (case pg_release g b1 of (Inl e, b2) \<Rightarrow> (Inl e, b2) | (Inr _, b2) \<Rightarrow> (r, b2)))"

text \<open>\<open>guard.replace_bytes(encode_page(key, kind, page_lsn, body)); guard.mark_dirty(page_lsn)\<close>\<close>

definition replace_guard :: "page_guard \<Rightarrow> page_kind \<Rightarrow> nat \<Rightarrow> bytes \<Rightarrow> (buffer_pool, unit) sm" where
  "replace_guard g kind lsn body =
     sm_bind (sm_lift (encode_page (pg_key g) kind lsn body)) (\<lambda>p. publish_bytes g p lsn)"

section \<open>What the pool operations keep\<close>

definition preserved :: "('s \<Rightarrow> bool) \<Rightarrow> ('s, 'a) sm \<Rightarrow> bool" where
  "preserved P m \<longleftrightarrow> (\<forall>s. P s \<longrightarrow> P (snd (m s)))"

lemma preservedI: "(\<And>s r s'. P s \<Longrightarrow> m s = (r, s') \<Longrightarrow> P s') \<Longrightarrow> preserved P m"
  by (metis preserved_def prod.collapse)

lemma preservedD: "preserved P m \<Longrightarrow> P s \<Longrightarrow> m s = (r, s') \<Longrightarrow> P s'"
  by (metis preserved_def snd_conv)

lemma preserved_bind: "preserved P m \<Longrightarrow> (\<And>x. preserved P (f x)) \<Longrightarrow> preserved P (sm_bind m f)"
  by (rule preservedI) (auto simp: sm_bind_def dest: preservedD split: prod.splits sum.splits)

lemma preserved_basic: "preserved P (sm_return x)" "preserved P (sm_raise e)" "preserved P (sm_lift r)" "preserved P (sm_get h)"
  by (simp_all add: preserved_def)

lemma preserved_modify: "(\<And>s. P s \<Longrightarrow> P (f s)) \<Longrightarrow> preserved P (sm_modify f)"
  by (simp add: preserved_def)

lemma preserved_cleanup:
  assumes m: "preserved P m" and h: "preserved P h"
  shows "preserved P (sm_cleanup m h)"
proof (rule preservedI)
  fix s r s' assume P: "P s" and c: "sm_cleanup m h s = (r, s')"
  obtain r1 s1 where 1: "m s = (r1, s1)" by fastforce
  obtain r2 s2 where 2: "h s1 = (r2, s2)" by fastforce
  have "P s1" using preservedD [OF m P 1] .
  moreover have "P s2" using preservedD [OF h _ 2] \<open>P s1\<close> .
  ultimately show "P s'" using c 1 2 by (auto simp: sm_cleanup_def split: sum.splits)
qed

text \<open>
  The sizes of the files and the contents of an open log: what no operation of the pool
  changes, apart from how much of the log is durable.
\<close>

definition outer_state :: "(relation_id \<Rightarrow> nat) \<Rightarrow> decoded_wal_record list \<Rightarrow> nat \<Rightarrow> buffer_pool \<Rightarrow> bool" where
  "outer_state n es l b \<longleftrightarrow> disk_pages (bp_disk b) = n
     \<and> (\<exists>w. bp_wal b = Some w \<and> \<not> wm_closed w \<and> wm_entries w = es \<and> wm_end_lsn w = l)"

lemma outer_state_inner [simp]:
  "outer_state n es l (b\<lparr>bp_frames := f\<rparr>) = outer_state n es l b"
  "outer_state n es l (b\<lparr>bp_table := t\<rparr>) = outer_state n es l b"
  "outer_state n es l (b\<lparr>bp_free := u\<rparr>) = outer_state n es l b"
  "outer_state n es l (b\<lparr>bp_clock := c\<rparr>) = outer_state n es l b"
  "outer_state n es l (put_frame i fr b) = outer_state n es l b"
  by (simp_all add: outer_state_def put_frame_def)

lemma disk_write_page_pages:
  assumes "disk_write_page key p d = (r, d')"
  shows "disk_pages d' = disk_pages d"
proof (cases "decode_page key p")
  case (Inl e)
  then show ?thesis using assms by (simp add: disk_write_page_def sm_bind_def)
next
  case (Inr x)
  note c = disk_write_page_cases [OF assms Inr]
  show ?thesis
  proof (cases r)
    case (Inl e)
    then show ?thesis using c disk_eqD(3) [of d d'] by simp
  next
    case (Inr u)
    then have w: "page_written d key p d'" "whole_pages d (key_relation key)" "key_page_id key < disk_pages d (key_relation key)"
      using c by auto
    have len: "length p = PAGE_SIZE" using decode_page_length [OF \<open>decode_page key p = Inr x\<close>] .
    have "Suc (key_page_id key) * PAGE_SIZE \<le> disk_pages d (key_relation key) * PAGE_SIZE"
      using w(3) by (intro mult_le_mono1) simp
    also have "\<dots> \<le> length (rel_bytes d (key_relation key))" by (simp add: disk_pages_def)
    finally have "length (rel_bytes d' (key_relation key)) = length (rel_bytes d (key_relation key))"
      using page_written_length [OF w(1)] len by simp
    then have "length (rel_bytes d' r) = length (rel_bytes d r)" for r
      using w(1) by (cases "r = key_relation key") (auto simp: page_written_def)
    then show ?thesis by (simp add: disk_pages_def fun_eq_iff)
  qed
qed

lemma preserved_on_disk:
  assumes "\<And>d r d'. m d = (r, d') \<Longrightarrow> disk_pages d' = disk_pages d"
  shows "preserved (outer_state n es l) (on_disk m)"
  by (rule preservedI) (auto simp: on_disk_def outer_state_def dest: assms split: prod.splits)

lemma preserved_gate: "preserved (outer_state n es l) (wal_flush_gate x)"
proof (rule preservedI)
  fix b r b' assume P: "outer_state n es l b" and f: "wal_flush_gate x b = (r, b')"
  obtain w where w: "bp_wal b = Some w" "\<not> wm_closed w" "wm_entries w = es" "wm_end_lsn w = l" "disk_pages (bp_disk b) = n"
    using P by (auto simp: outer_state_def)
  have "wm_closed w' = wm_closed w \<and> wm_entries w' = wm_entries w \<and> wm_end_lsn w' = wm_end_lsn w"
    if "wal_flush (Some x) w = (r1, w')" for r1 w'
    using that w(2) by (auto simp: wal_flush_def sm_bind_def wal_ensure_open_def split: if_splits)
  then show "outer_state n es l b'"
    using f w by (auto simp: wal_flush_gate_def outer_state_def split: prod.splits)
qed

lemma preserved_frame_at: "preserved P (frame_at i)"
  by (rule preservedI) (auto simp: frame_at_def split: if_splits)

lemma preserved_on_clock: "preserved (outer_state n es l) (on_clock m)"
  by (rule preservedI) (auto simp: on_clock_def split: prod.splits)

lemma preserved_flush_frame: "preserved (outer_state n es l) (flush_frame i)"
proof -
  have "preserved (outer_state n es l) (case k of None \<Rightarrow> sm_raise PyAssertionError
      | Some key \<Rightarrow> sm_bind (wal_flush_gate (fr_lsn fr)) (\<lambda>_.
           sm_bind (on_disk (disk_write_page key (fr_bytes fr))) (\<lambda>_.
           sm_modify (put_frame i (fr\<lparr>fr_dirty := False\<rparr>)))))" for k fr
    by (cases k) (auto intro!: preserved_bind preserved_gate preserved_on_disk preserved_basic preserved_modify dest: disk_write_page_pages)
  then show ?thesis
    unfolding flush_frame_def by (auto intro!: preserved_bind preserved_frame_at preserved_basic)
qed

lemma preserved_fetch: "preserved (outer_state n es l) (fetch_page key)"
proof -
  have sel: "preserved (outer_state n es l) select_frame"
    by (rule preservedI) (auto simp: select_frame_def split: list.splits prod.splits option.splits)
  have forget: "preserved (outer_state n es l) (forget_key k)" for k
    by (rule preservedI) (auto simp: forget_key_def split: option.splits if_splits)
  have rd: "preserved (outer_state n es l) (on_disk (disk_read_page key))"
    by (rule preserved_on_disk) (metis disk_read_page_cases(1) disk_eqD(3))
  have load: "preserved (outer_state n es l) (load_page i key)" for i
    unfolding load_page_def by (auto intro!: preserved_bind preserved_frame_at preserved_flush_frame rd preserved_basic)
  have undo: "preserved (outer_state n es l) (undo_select i ff)" for i ff
    unfolding undo_select_def by (auto intro!: preserved_on_clock preserved_modify)
  have "preserved (outer_state n es l) (case r of
       Some i \<Rightarrow>
         sm_bind (frame_at i) (\<lambda>fr.
         sm_bind (sm_modify (put_frame i (fr\<lparr>fr_pin := fr_pin fr + 1\<rparr>))) (\<lambda>_.
         sm_bind (on_clock (mark_evictable i False)) (\<lambda>_.
         sm_bind (on_clock (record_access i)) (\<lambda>_.
         sm_return \<lparr>pg_frame_id = i, pg_key = key, pg_released = False\<rparr>))))
     | None \<Rightarrow>
         sm_bind select_frame (\<lambda>(i, from_free_list).
         sm_bind (sm_cleanup (load_page i key) (undo_select i from_free_list)) (\<lambda>(page_bytes, decoded).
         sm_bind (frame_at i) (\<lambda>fr.
         sm_bind (forget_key (fr_key fr)) (\<lambda>_.
         sm_bind (sm_modify (put_frame i \<lparr>fr_key = Some key, fr_bytes = page_bytes,
           fr_lsn = dp_lsn decoded, fr_pin = 1, fr_dirty = False\<rparr>)) (\<lambda>_.
         sm_bind (sm_modify (\<lambda>b. b\<lparr>bp_table := AList.update key i (bp_table b)\<rparr>)) (\<lambda>_.
         sm_bind (on_clock (record_access i)) (\<lambda>_.
         sm_bind (on_clock (mark_evictable i False)) (\<lambda>_.
         sm_return \<lparr>pg_frame_id = i, pg_key = key, pg_released = False\<rparr>)))))))))" for r
    by (cases r) (auto intro!: preserved_bind preserved_frame_at preserved_modify preserved_on_clock preserved_basic sel preserved_cleanup load undo forget
        split: prod.splits)
  then show ?thesis unfolding fetch_page_def by (intro preserved_bind preserved_basic)
qed

text \<open>A successful fetch adds one pin to the guard's frame and to no other.\<close>

definition pins :: "buffer_pool \<Rightarrow> nat list" where
  "pins b = map fr_pin (bp_frames b)"

lemma fetch_page_pins:
  assumes inv: "bp_inv b" and f: "fetch_page key b = (Inr g, b')"
  shows "pins b' = (pins b)[pg_frame_id g := Suc (pins b ! pg_frame_id g)] \<and> pg_frame_id g < length (pins b)"
proof (cases "map_of (bp_table b) key")
  case (Some i)
  have i: "i < length (bp_frames b)" "i < length (ck_evictable (bp_clock b))"
    using inv Some table_okD(2) [of b key i] by (auto simp: bp_inv_def bp_core_def pins_ok_def)
  then show ?thesis
    using f Some by (auto simp: fetch_page_def sm_bind_def frame_at_def on_clock_mark on_clock_access put_frame_def pins_def map_update)
next
  case None
  obtain r1 b1 where sel: "select_frame b = (r1, b1)" by fastforce
  then obtain i ff where r1: "r1 = Inr (i, ff)"
    using f None by (cases r1) (auto simp: fetch_page_def sm_bind_def)
  note s = select_frame_cases [OF inv sel [unfolded r1]]
  have i: "i < length (bp_frames b)" "fr_pin (bp_frames b ! i) = 0" "i < length (bp_frames b1)" using s by auto
  obtain r2 b2 where ld: "load_page i key b1 = (r2, b2)" by fastforce
  then obtain p x where r2: "r2 = Inr (p, x)"
    using f None sel r1 by (cases r2) (auto simp: fetch_page_def sm_bind_def sm_cleanup_def split: sum.splits prod.splits)
  note same = load_page_cases(2) [OF s(1) i(3) ld]
  have i2: "i < length (bp_frames b2)" "i < length (ck_evictable (bp_clock b2))"
    using i(3) same_pagesD(3,4) [OF same] s by auto
  have pins2: "map fr_pin (bp_frames b2) = map fr_pin (bp_frames b)"
    using same_pagesD(4,8) [OF same] s(3) by (auto intro!: nth_equalityI)
  obtain u b3 where fk: "forget_key (fr_key (bp_frames b2 ! i)) b2 = (Inr u, b3)" and b3: "bp_frames b3 = bp_frames b2" "bp_clock b3 = bp_clock b2"
    using f None sel r1 ld r2 i2
    by (cases "fst (forget_key (fr_key (bp_frames b2 ! i)) b2)")
      (auto simp: fetch_page_def sm_bind_def sm_cleanup_def frame_at_def forget_key_def split: option.splits if_splits)
  have g: "pg_frame_id g = i" and pb: "map fr_pin (bp_frames b') = (map fr_pin (bp_frames b2))[i := 1]"
    using f None sel r1 ld r2 i2 fk b3
    by (auto simp: fetch_page_def sm_bind_def sm_cleanup_def frame_at_def put_frame_def on_clock_mark on_clock_access map_update)
  then show ?thesis using i pins2 by (simp add: pins_def)
qed

definition outer_kept :: "buffer_pool \<Rightarrow> buffer_pool \<Rightarrow> bool" where
  "outer_kept b b' \<longleftrightarrow> (\<forall>n es l. outer_state n es l b \<longrightarrow> outer_state n es l b')"

section \<open>A ready pool\<close>

text \<open>The invariant, the write-ahead rule, an open log and room for one more page.\<close>

definition pool_ready :: "buffer_pool \<Rightarrow> bool" where
  "pool_ready b \<longleftrightarrow> bp_inv b \<and> pool_logged b \<and> (\<exists>w. bp_wal b = Some w \<and> \<not> wm_closed w) \<and> 0 \<in> set (pins b)"

definition pool_frame :: "buffer_pool \<Rightarrow> buffer_pool \<Rightarrow> bool" where
  "pool_frame b b' \<longleftrightarrow> pins b' = pins b \<and> disk_pages (bp_disk b') = disk_pages (bp_disk b)
     \<and> (\<exists>w w'. bp_wal b = Some w \<and> bp_wal b' = Some w' \<and> wm_closed w' = wm_closed w
          \<and> wm_entries w' = wm_entries w \<and> wm_end_lsn w' = wm_end_lsn w)"

lemma outer_state_self: "bp_wal b = Some w \<Longrightarrow> \<not> wm_closed w \<Longrightarrow>
    outer_state (disk_pages (bp_disk b)) (wm_entries w) (wm_end_lsn w) b"
  by (simp add: outer_state_def)

lemma fetch_ready:
  assumes r: "pool_ready b" and v: "valid_page_key key" and p: "bp_view b key = Some p"
  obtains g b' where "fetch_page key b = (Inr g, b')" and "bp_inv b'" and "pool_logged b'" and "bp_view b' = bp_view b"
    and "live_guard b' g" and "pg_key g = key" and "fr_bytes (bp_frames b' ! pg_frame_id g) = p"
    and "pins b' = (pins b)[pg_frame_id g := Suc (pins b ! pg_frame_id g)]" and "pg_frame_id g < length (pins b)"
    and "outer_kept b b'"
proof -
  obtain w where w: "bp_inv b" "pool_logged b" "bp_wal b = Some w" "\<not> wm_closed w" and free: "0 \<in> set (pins b)"
    using r by (auto simp: pool_ready_def)
  have room: "\<exists>i < length (bp_frames b). fr_pin (bp_frames b ! i) = 0"
    using free by (auto simp: pins_def in_set_conv_nth)
  obtain g b' where f: "fetch_page key b = (Inr g, b')"
    using fetch_page_succeeds [OF w v p] room by blast
  note c = fetch_page_cases [OF w(1) v f]
  have "live_guard b' g" "pg_key g = key" "fr_bytes (bp_frames b' ! pg_frame_id g) = p"
    using c(4) [OF refl] p by (auto simp: live_guard_def)
  moreover have "pool_logged b'" using sm_specD(1) [OF fetch_page_logged w(2)] f by blast
  moreover have "outer_kept b b'" using preservedD [OF preserved_fetch _ f] by (auto simp: outer_kept_def)
  ultimately show thesis using that f c fetch_page_pins [OF w(1) f] by blast
qed

lemma release_ready:
  assumes inv: "bp_inv b" and log: "pool_logged b" and g: "live_guard b g" and pg: "pins b = ps[pg_frame_id g := Suc (ps ! pg_frame_id g)]"
  obtains g' b' where "pg_release g b = (Inr g', b')" and "bp_inv b'" and "pool_logged b'" and "bp_view b' = bp_view b"
    and "pins b' = ps" and "bp_wal b' = bp_wal b" and "bp_disk b' = bp_disk b"
proof -
  let ?i = "pg_frame_id g"
  obtain res b' where rel: "release_guard ?i (pg_key g) b = (res, b')" by fastforce
  note c = release_guard_cases [OF inv rel]
  have res: "res = Inr ()" using c(3) g by (simp add: live_guard_def)
  have i: "?i < length (bp_frames b)" using g by (simp add: live_guard_def)
  then have il: "?i < length ps" using pg by (metis length_list_update length_map pins_def)
  have "bp_step b b'" using rel by (rule bp_step.bp_release)
  then have "pool_logged b'" using bp_step_logged inv log by blast
  moreover have "pins b' = ps"
  proof (rule nth_equalityI)
    show "length (pins b') = length ps" using c(5) pg by (metis length_list_update length_map pins_def)
    fix j assume "j < length (pins b')"
    then have j: "j < length (bp_frames b)" using c(5) by (simp add: pins_def)
    have pj: "fr_pin (bp_frames b ! j) = ps[?i := Suc (ps ! ?i)] ! j" using pg j by (metis nth_map pins_def)
    show "pins b' ! j = ps ! j"
      using c(4) [of j] c(5,6) res j i il pj by (cases "j = ?i") (auto simp: pins_def)
  qed
  moreover have "pg_release g b = (Inr (g\<lparr>pg_released := True\<rparr>), b')"
    using rel res g by (simp add: pg_release_def sm_bind_def live_guard_def)
  ultimately show thesis using that c by blast
qed

lemma outer_state_frame:
  assumes w: "bp_wal b = Some w" "\<not> wm_closed w" and o: "outer_state (disk_pages (bp_disk b)) (wm_entries w) (wm_end_lsn w) b'"
    and pg: "pins b' = pins b"
  shows "pool_frame b b'"
  using assms by (auto simp: outer_state_def pool_frame_def)

lemma pool_readyI: "pool_ready b \<Longrightarrow> pool_frame b b' \<Longrightarrow> bp_inv b' \<Longrightarrow> pool_logged b' \<Longrightarrow> pool_ready b'"
  by (auto simp: pool_ready_def pool_frame_def)

text \<open>Reading a page: any pure function of its bytes, which may raise.\<close>

lemma with_page_read:
  assumes r: "pool_ready b" and v: "valid_page_key key" and p: "bp_view b key = Some p"
  obtains b' where "with_guard (fetch_page key) (\<lambda>g. sm_bind (pg_page_bytes g) (\<lambda>q. sm_lift (h q))) b = (h p, b')"
    and "pool_ready b'" and "bp_view b' = bp_view b" and "pool_frame b b'"
proof -
  obtain w where w: "bp_wal b = Some w" "\<not> wm_closed w" using r by (auto simp: pool_ready_def)
  obtain g b1 where f: "fetch_page key b = (Inr g, b1)" "bp_inv b1" "pool_logged b1" "bp_view b1 = bp_view b"
    "live_guard b1 g" "pg_key g = key" "fr_bytes (bp_frames b1 ! pg_frame_id g) = p"
    "pins b1 = (pins b)[pg_frame_id g := Suc (pins b ! pg_frame_id g)]" "pg_frame_id g < length (pins b)"
    and o1: "outer_kept b b1"
    using r v p by (rule fetch_ready)
  obtain g' b2 where rel: "pg_release g b1 = (Inr g', b2)" "bp_inv b2" "pool_logged b2" "bp_view b2 = bp_view b1"
    "pins b2 = pins b" "bp_wal b2 = bp_wal b1" "bp_disk b2 = bp_disk b1"
    using f(2,3,5,8) by (rule release_ready)
  have rd: "pg_page_bytes g b1 = (Inr p, b1)"
    using f(5-7) by (simp add: pg_page_bytes_def guard_ensure_active_def guard_page_bytes_def sm_bind_def guarded_frame_cases live_guard_def)
  have run: "with_guard (fetch_page key) (\<lambda>g. sm_bind (pg_page_bytes g) (\<lambda>q. sm_lift (h q))) b = (h p, b2)"
    using f(1) rd rel(1) by (simp add: with_guard_def sm_bind_def)
  have "outer_state (disk_pages (bp_disk b)) (wm_entries w) (wm_end_lsn w) b2"
    using o1 outer_state_self [OF w] rel(6,7) by (auto simp: outer_state_def outer_kept_def)
  then have fr: "pool_frame b b2" using outer_state_frame [OF w] rel(5) by blast
  show thesis by (rule that [OF run pool_readyI [OF r fr rel(2,3)]]) (use rel f fr in simp_all)
qed

text \<open>Replacing an unlogged page: its logical contents become the encoded body.\<close>

lemma replace_guard_unlogged:
  assumes inv: "bp_inv b" and log: "pool_logged b" and g: "live_guard b g"
    and lsn: "fr_lsn (bp_frames b ! pg_frame_id g) = 0" and enc: "encode_page (pg_key g) kind 0 body = Inr p"
  obtains b' where "replace_guard g kind 0 body b = (Inr (), b')" and "bp_inv b'" and "pool_logged b'"
    and "bp_view b' = (bp_view b)(pg_key g \<mapsto> p)" and "live_guard b' g" and "pins b' = pins b"
    and "outer_kept b b'"
proof -
  obtain res b' where f: "publish_bytes g p 0 b = (res, b')" by fastforce
  have c: "res = Inr ()" "bp_inv b'" "bp_view b' = (bp_view b)(pg_key g \<mapsto> p)"
    "b' = put_frame (pg_frame_id g) ((bp_frames b ! pg_frame_id g)\<lparr>fr_bytes := p, fr_lsn := 0, fr_dirty := True\<rparr>) b"
    using publish_cases [OF inv enc f] g lsn by auto
  have "pool_logged b'" using publish_logged [OF log inv enc _ f] by simp
  moreover have "replace_guard g kind 0 body b = (Inr (), b')"
    using enc f c(1) by (simp add: replace_guard_def sm_bind_def)
  moreover have "live_guard b' g" using g unfolding c(4) by (auto simp: live_guard_def put_frame_def)
  moreover have "pins b' = pins b"
    unfolding c(4) using g by (auto simp: pins_def put_frame_def live_guard_def nth_list_update intro!: nth_equalityI)
  ultimately show thesis using that c by (simp add: outer_kept_def)
qed

lemma fetched_lsn:
  assumes "bp_inv b" and "live_guard b g" and "fr_bytes (bp_frames b ! pg_frame_id g) = q" and "decode_page (pg_key g) q = Inr x"
  shows "fr_lsn (bp_frames b ! pg_frame_id g) = dp_lsn x"
  using assms by (auto simp: bp_inv_def bp_core_def frame_ok_def live_guard_def)

lemma with_page_write:
  assumes r: "pool_ready b" and v: "valid_page_key key" and q: "bp_view b key = Some q" "decode_page key q = Inr x" "dp_lsn x = 0"
    and enc: "encode_page key kind 0 body = Inr p"
  obtains b' where "with_guard (fetch_page key) (\<lambda>g. replace_guard g kind 0 body) b = (Inr (), b')"
    and "pool_ready b'" and "bp_view b' = (bp_view b)(key \<mapsto> p)" and "pool_frame b b'"
proof -
  obtain w where w: "bp_wal b = Some w" "\<not> wm_closed w" using r by (auto simp: pool_ready_def)
  obtain g b1 where f: "fetch_page key b = (Inr g, b1)" "bp_inv b1" "pool_logged b1" "bp_view b1 = bp_view b"
    "live_guard b1 g" "pg_key g = key" "fr_bytes (bp_frames b1 ! pg_frame_id g) = q"
    "pins b1 = (pins b)[pg_frame_id g := Suc (pins b ! pg_frame_id g)]" "pg_frame_id g < length (pins b)"
    and o1: "outer_kept b b1"
    using r v q(1) by (rule fetch_ready)
  have lsn: "fr_lsn (bp_frames b1 ! pg_frame_id g) = 0"
    using fetched_lsn [OF f(2,5,7)] f(6) q(2,3) by simp
  obtain b2 where wr: "replace_guard g kind 0 body b1 = (Inr (), b2)" "bp_inv b2" "pool_logged b2"
    "bp_view b2 = (bp_view b1)(pg_key g \<mapsto> p)" "live_guard b2 g" "pins b2 = pins b1"
    and o2: "outer_kept b1 b2"
    using replace_guard_unlogged [OF f(2,3,5) lsn, of kind body p] enc f(6) by metis
  obtain g' b3 where rel: "pg_release g b2 = (Inr g', b3)" "bp_inv b3" "pool_logged b3" "bp_view b3 = bp_view b2"
    "pins b3 = pins b" "bp_wal b3 = bp_wal b2" "bp_disk b3 = bp_disk b2"
    using release_ready [OF wr(2,3,5)] wr(6) f(8) by metis
  have run: "with_guard (fetch_page key) (\<lambda>g. replace_guard g kind 0 body) b = (Inr (), b3)"
    using f(1) wr(1) rel(1) by (simp add: with_guard_def sm_bind_def)
  have "outer_state (disk_pages (bp_disk b)) (wm_entries w) (wm_end_lsn w) b3"
    using o1 o2 outer_state_self [OF w] rel(6,7) by (auto simp: outer_state_def outer_kept_def)
  then have fr: "pool_frame b b3" using outer_state_frame [OF w] rel(5) by blast
  show thesis by (rule that [OF run pool_readyI [OF r fr rel(2,3)]]) (use rel f wr fr in simp_all)
qed

section \<open>New pages\<close>

lemma allocate_ready:
  assumes r: "pool_ready b" and o: "rel_object_id rel < 2 ^ 64" and room: "disk_pages (bp_disk b) rel < 2 ^ 64"
  defines "key \<equiv> PageKey rel (disk_pages (bp_disk b) rel)"
  obtains b' p where "on_disk (disk_allocate_page rel kind) b = (Inr key, b')" and "pool_ready b'" and "valid_page_key key"
    and "bp_view b key = None" and "encode_page key (default_page_kind rel kind) 0 [] = Inr p"
    and "bp_view b' = (bp_view b)(key \<mapsto> p)" and "pins b' = pins b" and "bp_wal b' = bp_wal b"
    and "disk_pages (bp_disk b') = (disk_pages (bp_disk b))(rel := Suc (disk_pages (bp_disk b) rel))"
proof -
  have inv: "bp_inv b" and log: "pool_logged b" and d: "disk_inv (bp_disk b)"
    using r by (auto simp: pool_ready_def bp_inv_def bp_core_def)
  obtain res d' where a: "disk_allocate_page rel kind (bp_disk b) = (res, d')" by fastforce
  have on: "on_disk (disk_allocate_page rel kind) b = (res, b\<lparr>bp_disk := d'\<rparr>)" using a by (simp add: on_disk_def)
  note c = disk_allocate_page_cases [OF a o]
  have res: "res = Inr key"
    using c d room by (cases res) (auto simp: disk_inv_def key_def)
  then obtain p where pw: "page_written (bp_disk b) key p d'" "encode_page key (default_page_kind rel kind) 0 [] = Inr p" "valid_page_key key"
    using c by (auto simp: key_def)
  note ai = allocate_inv [OF inv o on]
  have len: "length p = PAGE_SIZE" using encode_page_decode [OF pw(2,3)] decode_page_length by blast
  have whole: "length (rel_bytes (bp_disk b) rel) = disk_pages (bp_disk b) rel * PAGE_SIZE"
    using c res by (auto simp: whole_pages_def disk_pages_def mod_0_imp_dvd)
  have "length (rel_bytes d' rel) = Suc (disk_pages (bp_disk b) rel) * PAGE_SIZE"
    using page_written_length [OF pw(1)] len whole by (simp add: key_def)
  then have "disk_pages d' rel = Suc (disk_pages (bp_disk b) rel)" by (simp add: disk_pages_def)
  then have dp: "disk_pages d' = (disk_pages (bp_disk b))(rel := Suc (disk_pages (bp_disk b) rel))"
    using pw(1) by (auto simp: fun_eq_iff page_written_def key_def disk_pages_def)
  have view: "bp_view b key = None" "bp_view (b\<lparr>bp_disk := d'\<rparr>) = (bp_view b)(key \<mapsto> p)"
    using ai(4) [OF res] pw(2) by auto
  have "pool_logged (b\<lparr>bp_disk := d'\<rparr>)" using allocate_logged [OF log o on] .
  then have "pool_ready (b\<lparr>bp_disk := d'\<rparr>)" using r ai(1) by (simp add: pool_ready_def pins_def)
  then show thesis using that [OF on [unfolded res] _ pw(3) view(1) pw(2) view(2)] dp by (simp add: pins_def)
qed

text \<open>
  \<open>with pool.new_page(relation, kind) as guard: replace\<close>: a fresh page at the end of the
  relation that holds the body.
\<close>

definition new_page_with :: "relation_id \<Rightarrow> page_kind \<Rightarrow> bytes \<Rightarrow> (buffer_pool, nat) sm" where
  "new_page_with rel kind body =
     with_guard (new_page rel (Some kind)) (\<lambda>g.
     sm_bind (replace_guard g kind 0 body) (\<lambda>_. sm_return (key_page_id (pg_key g))))"

lemma new_page_with_ready:
  assumes r: "pool_ready b" and o: "rel_object_id rel < 2 ^ 64" and room: "disk_pages (bp_disk b) rel < 2 ^ 64"
    and body: "length body \<le> PAGE_BODY_SIZE"
  defines "pid \<equiv> disk_pages (bp_disk b) rel"
  obtains b' p where "new_page_with rel kind body b = (Inr pid, b')" and "pool_ready b'"
    and "bp_view b (PageKey rel pid) = None" and "encode_page (PageKey rel pid) kind 0 body = Inr p"
    and "bp_view b' = (bp_view b)(PageKey rel pid \<mapsto> p)"
    and "disk_pages (bp_disk b') = (disk_pages (bp_disk b))(rel := Suc pid)"
proof -
  let ?k = "PageKey rel pid"
  obtain b1 p0 where a: "on_disk (disk_allocate_page rel (Some kind)) b = (Inr ?k, b1)" "pool_ready b1" "valid_page_key ?k"
    "bp_view b ?k = None" "encode_page ?k (default_page_kind rel (Some kind)) 0 [] = Inr p0" "bp_view b1 = (bp_view b)(?k \<mapsto> p0)"
    "disk_pages (bp_disk b1) = (disk_pages (bp_disk b))(rel := Suc pid)"
    using allocate_ready [OF r o room, of "Some kind"] unfolding pid_def by metis
  obtain x where x: "decode_page ?k p0 = Inr x" "dp_lsn x = 0" using encode_page_decode [OF a(5,3)] by auto
  obtain p where p: "encode_page ?k kind 0 body = Inr p"
    using encode_page_eq [OF a(3), of 0 body kind] body by (auto simp: page_sizes)
  obtain w where w: "bp_wal b1 = Some w" "\<not> wm_closed w" using a(2) by (auto simp: pool_ready_def)
  have v1: "bp_view b1 ?k = Some p0" using a(6) by simp
  obtain g b2 where f: "fetch_page ?k b1 = (Inr g, b2)" "bp_inv b2" "pool_logged b2" "bp_view b2 = bp_view b1"
    "live_guard b2 g" "pg_key g = ?k" "fr_bytes (bp_frames b2 ! pg_frame_id g) = p0"
    "pins b2 = (pins b1)[pg_frame_id g := Suc (pins b1 ! pg_frame_id g)]" "pg_frame_id g < length (pins b1)"
    and o1: "outer_kept b1 b2"
    using a(2,3) v1 by (rule fetch_ready)
  have lsn: "fr_lsn (bp_frames b2 ! pg_frame_id g) = 0" using fetched_lsn [OF f(2,5,7)] f(6) x by simp
  obtain b3 where wr: "replace_guard g kind 0 body b2 = (Inr (), b3)" "bp_inv b3" "pool_logged b3"
    "bp_view b3 = (bp_view b2)(pg_key g \<mapsto> p)" "live_guard b3 g" "pins b3 = pins b2" and o2: "outer_kept b2 b3"
    using replace_guard_unlogged [OF f(2,3,5) lsn, of kind body p] p f(6) by metis
  obtain g' b4 where rel: "pg_release g b3 = (Inr g', b4)" "bp_inv b4" "pool_logged b4" "bp_view b4 = bp_view b3"
    "pins b4 = pins b1" "bp_wal b4 = bp_wal b3" "bp_disk b4 = bp_disk b3"
    using release_ready [OF wr(2,3,5)] wr(6) f(8) by metis
  have run: "new_page_with rel kind body b = (Inr pid, b4)"
    using a(1) f(1,6) wr(1) rel(1) by (simp add: new_page_with_def with_guard_def new_page_def sm_bind_def)
  have o: "outer_state (disk_pages (bp_disk b1)) (wm_entries w) (wm_end_lsn w) b4"
    using o1 o2 outer_state_self [OF w] rel(6,7) by (auto simp: outer_state_def outer_kept_def)
  then have fr: "pool_frame b1 b4" using outer_state_frame [OF w] rel(5) by blast
  have "disk_pages (bp_disk b4) = disk_pages (bp_disk b1)" using o by (simp add: outer_state_def)
  then show thesis
    using that [OF run pool_readyI [OF a(2) fr rel(2,3)] a(4) p] rel(4) wr(4) f(4,6) a(6,7) by simp
qed

text \<open>A new page left blank, with a pure function of its address.\<close>

lemma new_page_pure:
  assumes r: "pool_ready b" and o: "rel_object_id rel < 2 ^ 64" and room: "disk_pages (bp_disk b) rel < 2 ^ 64"
  defines "pid \<equiv> disk_pages (bp_disk b) rel"
  obtains b' p where "with_guard (new_page rel (Some kind)) (\<lambda>g. sm_lift (h (pg_key g))) b = (h (PageKey rel pid), b')" and "pool_ready b'"
    and "encode_page (PageKey rel pid) kind 0 [] = Inr p" and "bp_view b' = (bp_view b)(PageKey rel pid \<mapsto> p)"
    and "disk_pages (bp_disk b') = (disk_pages (bp_disk b))(rel := Suc pid)"
proof -
  let ?k = "PageKey rel pid"
  obtain b1 p0 where a: "on_disk (disk_allocate_page rel (Some kind)) b = (Inr ?k, b1)" "pool_ready b1" "valid_page_key ?k"
    "bp_view b ?k = None" "encode_page ?k (default_page_kind rel (Some kind)) 0 [] = Inr p0" "bp_view b1 = (bp_view b)(?k \<mapsto> p0)"
    "disk_pages (bp_disk b1) = (disk_pages (bp_disk b))(rel := Suc pid)"
    using allocate_ready [OF r o room, of "Some kind"] unfolding pid_def by metis
  obtain w where w: "bp_wal b1 = Some w" "\<not> wm_closed w" using a(2) by (auto simp: pool_ready_def)
  have v1: "bp_view b1 ?k = Some p0" using a(6) by simp
  obtain g b2 where f: "fetch_page ?k b1 = (Inr g, b2)" "bp_inv b2" "pool_logged b2" "bp_view b2 = bp_view b1"
    "live_guard b2 g" "pg_key g = ?k" "fr_bytes (bp_frames b2 ! pg_frame_id g) = p0"
    "pins b2 = (pins b1)[pg_frame_id g := Suc (pins b1 ! pg_frame_id g)]" "pg_frame_id g < length (pins b1)"
    and o1: "outer_kept b1 b2"
    using a(2,3) v1 by (rule fetch_ready)
  obtain g' b4 where rel: "pg_release g b2 = (Inr g', b4)" "bp_inv b4" "pool_logged b4" "bp_view b4 = bp_view b2"
    "pins b4 = pins b1" "bp_wal b4 = bp_wal b2" "bp_disk b4 = bp_disk b2"
    using f(2,3,5,8) by (rule release_ready)
  have run: "with_guard (new_page rel (Some kind)) (\<lambda>g. sm_lift (h (pg_key g))) b = (h ?k, b4)"
    using a(1) f(1,6) rel(1) by (simp add: with_guard_def new_page_def sm_bind_def)
  have o: "outer_state (disk_pages (bp_disk b1)) (wm_entries w) (wm_end_lsn w) b4"
    using o1 outer_state_self [OF w] rel(6,7) by (auto simp: outer_state_def outer_kept_def)
  then have fr: "pool_frame b1 b4" using outer_state_frame [OF w] rel(5) by blast
  have "disk_pages (bp_disk b4) = disk_pages (bp_disk b1)" using o by (simp add: outer_state_def)
  then show thesis
    using that [OF run pool_readyI [OF a(2) fr rel(2,3)]] rel(4) f(4) a(5-7) by (simp add: default_page_kind_def)
qed

text \<open>Counting the pages of a relation.\<close>

lemma page_count_ready:
  assumes r: "pool_ready b"
  obtains b' where "bp_page_count rel b = (Inr (disk_pages (bp_disk b) rel), b')" and "pool_ready b'" and "bp_view b' = bp_view b"
    and "disk_pages (bp_disk b') = disk_pages (bp_disk b)" and "bp_wal b' = bp_wal b"
proof -
  have inv: "bp_inv b" and log: "pool_logged b" and d: "disk_inv (bp_disk b)"
    using r by (auto simp: pool_ready_def bp_inv_def bp_core_def)
  obtain res d' where a: "disk_page_count rel (bp_disk b) = (res, d')" by fastforce
  note c = disk_page_count_cases [OF a]
  have res: "res = Inr (disk_pages (bp_disk b) rel)" using c(2) d by (simp add: disk_inv_def)
  have d': "disk_inv d'" "disk_page d' = disk_page (bp_disk b)" "disk_pages d' = disk_pages (bp_disk b)"
    using disk_inv_eq [OF c(1) d] disk_eqD [OF c(1)] by (auto simp: fun_eq_iff)
  let ?b = "b\<lparr>bp_disk := d'\<rparr>"
  have core: "bp_core b" using inv by (simp add: bp_inv_def)
  note e = disk_eq_core [OF core d'(1,2)]
  have "bp_inv ?b" using inv e by (simp add: bp_inv_def free_ok_def pins_ok_def)
  moreover have "pool_logged ?b" using log d'(1,2) by (simp add: pool_logged_def)
  ultimately have rdy: "pool_ready ?b" using r by (simp add: pool_ready_def pins_def)
  have view: "bp_view ?b = bp_view b" using d'(2) by (auto simp: bp_view_def fun_eq_iff split: option.splits)
  have run: "bp_page_count rel b = (Inr (disk_pages (bp_disk b) rel), ?b)"
    using a res by (simp add: bp_page_count_def on_disk_def)
  show thesis using that [OF run rdy view] d'(3) by simp
qed

text \<open>A pool over an empty database, ready for use.\<close>

lemma fresh_ready:
  obtains b where "pool_ready b" and "bp_wal b = Some empty_log" and "\<And>r. disk_pages (bp_disk b) r = 0"
proof -
  obtain b where b: "mk_buffer_pool fresh_disk 1 (Some empty_log) = Inr b" "bp_inv b" "pool_logged b"
    "bp_view b = Map.empty" "bp_wal b = Some empty_log" "length (bp_frames b) = 1" "fr_pin (bp_frames b ! 0) = 0"
    by (rule fresh_pool)
  have "pins b = [0]" using b(6,7) by (cases "bp_frames b") (auto simp: pins_def)
  then have r: "pool_ready b" using b empty_log_ok(3) by (simp add: pool_ready_def)
  have "bp_disk b = fresh_disk" using b(1) by (auto simp: mk_buffer_pool_def mk_clock_def split: if_splits)
  then have "disk_pages (bp_disk b) r = 0" for r by (simp add: fresh_disk_def disk_open_def disk_pages_def rel_bytes_def disk_contents_def)
  then show thesis using that r b(5) by blast
qed

end
