(* ===== verification/Btree.thy ===== *)
theory Btree
  imports Btree_Pages Page_Access
begin

text \<open>
  \<open>index/btree.py\<close>: the page-based B+tree over the buffer pool. A tree object is its pool, the
  index number, and the cached root and height. Loops over sibling links carry the number of
  pages of the index as fuel: a chain that is longer has a cycle, on which the code runs forever.
\<close>

section \<open>State\<close>

record btree =
  bt_pool :: buffer_pool
  bt_index_id :: nat
  bt_root :: nat
  bt_height :: nat

definition on_bt_pool :: "(buffer_pool, 'a) sm \<Rightarrow> (btree, 'a) sm" where
  "on_bt_pool m t = (case m (bt_pool t) of (r, b) \<Rightarrow> (r, t\<lparr>bt_pool := b\<rparr>))"

definition bt_relation :: "btree \<Rightarrow> relation_id" where
  "bt_relation t = btree_relation (bt_index_id t)"

text \<open>Subscription \<open>xs[i]\<close> for a non-negative index, and assignment to it.\<close>

definition list_at :: "'a list \<Rightarrow> nat \<Rightarrow> 'a result" where
  "list_at xs i = (if i < length xs then Inr (xs ! i) else Inl PyIndexError)"

definition list_put :: "'a list \<Rightarrow> nat \<Rightarrow> 'a \<Rightarrow> 'a list result" where
  "list_put xs i v = (if i < length xs then Inr (xs[i := v]) else Inl PyIndexError)"

text \<open>\<open>xs.insert(i, x)\<close>\<close>

definition list_insert_at :: "'a list \<Rightarrow> nat \<Rightarrow> 'a \<Rightarrow> 'a list" where
  "list_insert_at xs i x = take i xs @ x # drop i xs"

text \<open>\<open>bisect\<close> on a sorted list.\<close>

definition bisect_right :: "'a :: linorder list \<Rightarrow> 'a \<Rightarrow> nat" where
  "bisect_right xs x = length (takeWhile (\<lambda>y. y \<le> x) xs)"

definition bisect_left :: "'a :: linorder list \<Rightarrow> 'a \<Rightarrow> nat" where
  "bisect_left xs x = length (takeWhile (\<lambda>y. y < x) xs)"

section \<open>Page access\<close>

definition bt_read_page :: "nat \<Rightarrow> page_kind \<Rightarrow> (btree, bytes) sm" where
  "bt_read_page page_id expected_kind t =
     sm_bind (sm_lift (mk_page_key (bt_relation t) page_id)) (\<lambda>key.
     on_bt_pool (with_guard (fetch_page key) (\<lambda>g.
       sm_bind (pg_page_bytes g) (\<lambda>q.
       sm_lift (res_bind (decode_page key q) (\<lambda>decoded.
         if dp_kind decoded \<noteq> expected_kind then Inl CorruptPage else Inr (dp_body decoded))))))) t"

definition bt_read_internal :: "nat \<Rightarrow> (btree, internal_page) sm" where
  "bt_read_internal page_id = sm_bind (bt_read_page page_id KindBTREE_INTERNAL) (\<lambda>body. sm_lift (decode_internal body))"

definition bt_read_leaf :: "nat \<Rightarrow> (btree, leaf_page) sm" where
  "bt_read_leaf page_id = sm_bind (bt_read_page page_id KindBTREE_LEAF) (\<lambda>body. sm_lift (decode_leaf body))"

definition bt_write_page :: "nat \<Rightarrow> page_kind \<Rightarrow> bytes \<Rightarrow> (btree, unit) sm" where
  "bt_write_page page_id kind body t =
     sm_bind (sm_lift (mk_page_key (bt_relation t) page_id)) (\<lambda>key.
     on_bt_pool (with_guard (fetch_page key) (\<lambda>g. replace_guard g kind 0 body))) t"

definition bt_write_leaf :: "nat \<Rightarrow> leaf_page \<Rightarrow> (btree, unit) sm" where
  "bt_write_leaf page_id page = sm_bind (sm_lift (encode_leaf page)) (bt_write_page page_id KindBTREE_LEAF)"

definition bt_write_internal :: "nat \<Rightarrow> internal_page \<Rightarrow> (btree, unit) sm" where
  "bt_write_internal page_id page = sm_bind (sm_lift (encode_internal page)) (bt_write_page page_id KindBTREE_INTERNAL)"

definition bt_allocate_page :: "page_kind \<Rightarrow> bytes \<Rightarrow> (btree, nat) sm" where
  "bt_allocate_page kind body t = on_bt_pool (new_page_with (bt_relation t) kind body) t"

definition bt_write_meta :: "(btree, unit) sm" where
  "bt_write_meta t =
     sm_bind (sm_lift (encode_meta \<lparr>mp_root_page_id = bt_root t, mp_height = bt_height t\<rparr>))
       (bt_write_page 0 KindBTREE_META) t"

text \<open>Opening: a new tree is a metapage and an empty leaf as its root.\<close>

definition bt_create :: "nat \<Rightarrow> (buffer_pool, btree) sm" where
  "bt_create index_id =
     sm_bind (with_guard (new_page (btree_relation index_id) (Some KindBTREE_META)) (\<lambda>g.
       if key_page_id (pg_key g) \<noteq> 0 then sm_raise CorruptPage else sm_return ())) (\<lambda>_.
     sm_bind (with_guard (new_page (btree_relation index_id) (Some KindBTREE_LEAF)) (\<lambda>g.
       sm_bind (sm_lift (encode_leaf \<lparr>lp_entries = [], lp_left = None, lp_right = None\<rparr>)) (\<lambda>body.
       sm_bind (replace_guard g KindBTREE_LEAF 0 body) (\<lambda>_. sm_return (key_page_id (pg_key g)))))) (\<lambda>root b.
     let t = \<lparr>bt_pool = b, bt_index_id = index_id, bt_root = root, bt_height = 1\<rparr>
     in case bt_write_meta t of (Inl e, t') \<Rightarrow> (Inl e, bt_pool t') | (Inr _, t') \<Rightarrow> (Inr t', bt_pool t')))"

definition bt_open :: "nat \<Rightarrow> (buffer_pool, btree) sm" where
  "bt_open index_id =
     sm_bind (bp_page_count (btree_relation index_id)) (\<lambda>page_count.
     if page_count = 0 then bt_create index_id
     else
       let meta_key = btree_page_key index_id 0
       in sm_bind (with_guard (fetch_page meta_key) (\<lambda>g.
            sm_bind (pg_page_bytes g) (\<lambda>q.
            sm_lift (res_bind (decode_page meta_key q) (\<lambda>decoded.
              if dp_kind decoded \<noteq> KindBTREE_META then Inl CorruptPage else decode_meta (dp_body decoded)))))) (\<lambda>meta.
          if page_count \<le> mp_root_page_id meta then sm_raise CorruptPage
          else (\<lambda>b. (Inr \<lparr>bt_pool = b, bt_index_id = index_id, bt_root = mp_root_page_id meta,
                          bt_height = mp_height meta\<rparr>, b))))"

section \<open>Search\<close>

type_synonym bt_path = "(nat \<times> nat) list"

fun descend :: "nat \<Rightarrow> bytes \<Rightarrow> nat \<Rightarrow> bt_path \<Rightarrow> (btree, nat \<times> bt_path) sm" where
  "descend 0 key page_id path = sm_return (page_id, path)"
| "descend (Suc n) key page_id path =
     sm_bind (bt_read_internal page_id) (\<lambda>internal.
     let child_index = bisect_right (ip_keys internal) key
     in sm_bind (sm_lift (list_at (ip_children internal) child_index)) (\<lambda>child.
        descend n key child (path @ [(page_id, child_index)])))"

definition find_leaf :: "bytes \<Rightarrow> (btree, nat \<times> bt_path) sm" where
  "find_leaf key t = descend (bt_height t - 1) key (bt_root t) [] t"

definition chain_fuel :: "btree \<Rightarrow> nat" where
  "chain_fuel t = disk_pages (bp_disk (bt_pool t)) (bt_relation t) + 1"

text \<open>The walk to the leftmost leaf that may hold the key.\<close>

fun walk_left :: "nat \<Rightarrow> bytes \<Rightarrow> nat \<Rightarrow> leaf_page \<Rightarrow> (btree, nat \<times> leaf_page) sm" where
  "walk_left 0 key leaf_id leaf = sm_raise PyRecursionError"
| "walk_left (Suc n) key leaf_id leaf =
     (case lp_left leaf of
        None \<Rightarrow> sm_return (leaf_id, leaf)
      | Some left_id \<Rightarrow>
          sm_bind (bt_read_leaf left_id) (\<lambda>left.
          if lp_entries left \<noteq> [] \<and> key \<le> le_key (last (lp_entries left))
          then walk_left n key left_id left
          else sm_return (leaf_id, leaf)))"

fun collect_right :: "nat \<Rightarrow> bytes \<Rightarrow> leaf_page \<Rightarrow> tid list \<Rightarrow> (btree, tid list) sm" where
  "collect_right 0 key leaf found = sm_raise PyRecursionError"
| "collect_right (Suc n) key leaf found =
     (let found' = found @ map le_tid (filter (\<lambda>e. le_key e = key) (lp_entries leaf))
      in case lp_right leaf of
           None \<Rightarrow> sm_return found'
         | Some right_id \<Rightarrow>
             if lp_entries leaf \<noteq> [] \<and> key < le_key (last (lp_entries leaf)) then sm_return found'
             else
               sm_bind (bt_read_leaf right_id) (\<lambda>right.
               if lp_entries right \<noteq> [] \<and> key < le_key (hd (lp_entries right)) then sm_return found'
               else collect_right n key right found'))"

definition first_leaf :: "bytes \<Rightarrow> (btree, nat \<times> leaf_page) sm" where
  "first_leaf key =
     sm_bind (find_leaf key) (\<lambda>(leaf_id, _).
     sm_bind (bt_read_leaf leaf_id) (\<lambda>leaf t.
     walk_left (chain_fuel t) key leaf_id leaf t))"

definition first_leaf_page :: "bytes \<Rightarrow> (btree, nat) sm" where
  "first_leaf_page key = sm_bind (first_leaf key) (\<lambda>(leaf_id, _). sm_return leaf_id)"

text \<open>\<open>sorted(set(found), key=lambda tid: (tid.page_id, tid.slot_id))\<close>\<close>

definition bt_search :: "bytes \<Rightarrow> (btree, tid list) sm" where
  "bt_search key =
     sm_bind (first_leaf key) (\<lambda>(_, leaf).
     sm_bind (\<lambda>t. collect_right (chain_fuel t) key leaf [] t) (\<lambda>found.
     sm_return (sort (remdups found))))"

section \<open>Insertion\<close>

text \<open>\<open>min(candidates)[1]\<close>: the most balanced split, the leftmost of several.\<close>

definition leaf_split_position :: "leaf_entry list \<Rightarrow> nat result" where
  "leaf_split_position entries =
     (if length entries < 2 then Inl PageFull
      else
        let candidates =
          map (\<lambda>position.
                 let left_size = leaf_body_size (take position entries);
                     right_size = leaf_body_size (drop position entries)
                 in ((left_size - right_size) + (right_size - left_size), position))
            (filter (\<lambda>position. leaf_body_size (take position entries) \<le> PAGE_BODY_SIZE
                               \<and> leaf_body_size (drop position entries) \<le> PAGE_BODY_SIZE) [1..<length entries])
        in if candidates = [] then Inl PageFull else Inr (snd (Min (set candidates))))"

definition split_leaf :: "nat \<Rightarrow> leaf_page \<Rightarrow> (btree, bytes \<times> nat) sm" where
  "split_leaf page_id page =
     sm_bind (sm_lift (leaf_split_position (lp_entries page))) (\<lambda>split_at t.
     let left_entries = take split_at (lp_entries page); right_entries = drop split_at (lp_entries page)
     in sm_bind (on_bt_pool (with_guard (new_page (bt_relation t) (Some KindBTREE_LEAF)) (\<lambda>g.
          sm_bind (sm_lift (encode_leaf \<lparr>lp_entries = right_entries, lp_left = Some page_id, lp_right = lp_right page\<rparr>)) (\<lambda>body.
          sm_bind (replace_guard g KindBTREE_LEAF 0 body) (\<lambda>_. sm_return (key_page_id (pg_key g))))))) (\<lambda>right_id.
        sm_bind (bt_write_leaf page_id \<lparr>lp_entries = left_entries, lp_left = lp_left page, lp_right = Some right_id\<rparr>) (\<lambda>_.
        sm_bind (case lp_right page of
                   None \<Rightarrow> sm_return ()
                 | Some old \<Rightarrow>
                     sm_bind (bt_read_leaf old) (\<lambda>old_right.
                     bt_write_leaf old (old_right\<lparr>lp_left := Some right_id\<rparr>))) (\<lambda>_.
        sm_return (le_key (hd right_entries), right_id)))) t)"

definition split_internal :: "nat \<Rightarrow> internal_page \<Rightarrow> (btree, bytes \<times> nat) sm" where
  "split_internal page_id page =
     (let middle = length (ip_keys page) div 2;
          left = \<lparr>ip_keys = take middle (ip_keys page), ip_children = take (middle + 1) (ip_children page)\<rparr>;
          right = \<lparr>ip_keys = drop (middle + 1) (ip_keys page), ip_children = drop (middle + 1) (ip_children page)\<rparr>
      in sm_bind (sm_lift (list_at (ip_keys page) middle)) (\<lambda>promoted.
         sm_bind (sm_lift (encode_internal left)) (\<lambda>_.
         sm_bind (sm_lift (encode_internal right)) (\<lambda>right_body.
         sm_bind (bt_allocate_page KindBTREE_INTERNAL right_body) (\<lambda>right_id.
         sm_bind (bt_write_internal page_id left) (\<lambda>_.
         sm_return (promoted, right_id)))))))"

text \<open>The loop pops the path from its end; a root split makes a new root.\<close>

function propagate_split :: "bt_path \<Rightarrow> nat \<Rightarrow> bytes \<Rightarrow> nat \<Rightarrow> (btree, unit) sm" where
  "propagate_split path left_id separator right_id =
     (if path = [] then
        sm_bind (sm_lift (encode_internal \<lparr>ip_keys = [separator], ip_children = [left_id, right_id]\<rparr>)) (\<lambda>body.
        sm_bind (bt_allocate_page KindBTREE_INTERNAL body) (\<lambda>new_root_id.
        sm_bind (sm_modify (\<lambda>t. t\<lparr>bt_root := new_root_id, bt_height := bt_height t + 1\<rparr>)) (\<lambda>_.
        bt_write_meta)))
      else
        let (parent_id, child_index) = last path
        in sm_bind (bt_read_internal parent_id) (\<lambda>parent.
           sm_bind (sm_lift (list_at (ip_children parent) child_index)) (\<lambda>child.
           if child \<noteq> left_id then sm_raise CorruptPage
           else
             let updated = \<lparr>ip_keys = list_insert_at (ip_keys parent) child_index separator,
                            ip_children = list_insert_at (ip_children parent) (child_index + 1) right_id\<rparr>
             in case encode_internal updated of
                  Inr body \<Rightarrow> bt_write_page parent_id KindBTREE_INTERNAL body
                | Inl e \<Rightarrow>
                    if e = PageFull
                    then sm_bind (split_internal parent_id updated) (\<lambda>(promoted, new_right_id).
                         propagate_split (butlast path) parent_id promoted new_right_id)
                    else sm_raise e)))"
  by pat_completeness auto
termination
  by (relation "measure (\<lambda>(path, _). length path)") auto

declare propagate_split.simps [simp del]

definition bt_insert :: "bytes \<Rightarrow> tid \<Rightarrow> (btree, unit) sm" where
  "bt_insert key tid =
     sm_bind (bt_search key) (\<lambda>present.
     if tid \<in> set present then sm_return ()
     else
       sm_bind (find_leaf key) (\<lambda>(leaf_id, path).
       sm_bind (bt_read_leaf leaf_id) (\<lambda>leaf.
       let position = bisect_left (map entry_order (lp_entries leaf)) (entry_order (LeafEntry key tid));
           updated = leaf\<lparr>lp_entries := list_insert_at (lp_entries leaf) position (LeafEntry key tid)\<rparr>
       in case encode_leaf updated of
            Inr body \<Rightarrow> bt_write_page leaf_id KindBTREE_LEAF body
          | Inl e \<Rightarrow>
              if e = PageFull
              then sm_bind (split_leaf leaf_id updated) (\<lambda>(separator, right_id).
                   propagate_split path leaf_id separator right_id)
              else sm_raise e)))"

end
