(* ===== verification/Btree_Shape.thy ===== *)
theory Btree_Shape
  imports Btree_Pages
begin

text \<open>
  The tree that a set of index pages represents: which pages store which nodes, the chain of
  leaves, the bounds that separators put on subtrees, and how all of these split along the
  path from the root to one leaf. Nothing here is code: it is the specification side of
  \<open>index/btree.py\<close>.
\<close>

section \<open>Trees and the pages that store them\<close>

datatype bnode = BLeaf nat "leaf_entry list" | BNode nat "bytes list" "bnode list"

datatype bt_page = PMeta meta_page | PInternal internal_page | PLeaf leaf_page

type_synonym bt_pages = "nat \<Rightarrow> bt_page option"

fun nid :: "bnode \<Rightarrow> nat" where
  "nid (BLeaf p es) = p"
| "nid (BNode p ks ts) = p"

fun leaves :: "bnode \<Rightarrow> (nat \<times> leaf_entry list) list" where
  "leaves (BLeaf p es) = [(p, es)]"
| "leaves (BNode p ks ts) = concat (map leaves ts)"

fun ids :: "bnode \<Rightarrow> nat list" where
  "ids (BLeaf p es) = [p]"
| "ids (BNode p ks ts) = p # concat (map ids ts)"

definition entries :: "bnode \<Rightarrow> leaf_entry list" where
  "entries t = concat (map snd (leaves t))"

fun height_is :: "nat \<Rightarrow> bnode \<Rightarrow> bool" where
  "height_is h (BLeaf p es) \<longleftrightarrow> h = 1"
| "height_is h (BNode p ks ts) \<longleftrightarrow> 1 < h \<and> list_all (height_is (h - 1)) ts"

fun stored :: "bt_pages \<Rightarrow> bnode \<Rightarrow> bool" where
  "stored P (BLeaf p es) \<longleftrightarrow> True"
| "stored P (BNode p ks ts) \<longleftrightarrow>
     P p = Some (PInternal \<lparr>ip_keys = ks, ip_children = map nid ts\<rparr>) \<and> list_all (stored P) ts"

fun chain :: "bt_pages \<Rightarrow> nat option \<Rightarrow> (nat \<times> leaf_entry list) list \<Rightarrow> nat option \<Rightarrow> bool" where
  "chain P l [] r \<longleftrightarrow> True"
| "chain P l ((p, es) # ls) r \<longleftrightarrow>
     P p = Some (PLeaf \<lparr>lp_entries = es, lp_left = l, lp_right = (case ls of [] \<Rightarrow> r | (q, _) # _ \<Rightarrow> Some q)\<rparr>)
     \<and> chain P (Some p) ls r"

section \<open>Separators as bounds\<close>

definition above :: "bytes option \<Rightarrow> bytes \<Rightarrow> bool" where
  "above lo k \<longleftrightarrow> (case lo of None \<Rightarrow> True | Some l \<Rightarrow> l \<le> k)"

definition below :: "bytes option \<Rightarrow> bytes \<Rightarrow> bool" where
  "below hi k \<longleftrightarrow> (case hi of None \<Rightarrow> True | Some h \<Rightarrow> k \<le> h)"

definition bounds_ok :: "bytes option \<Rightarrow> bytes option \<Rightarrow> bool" where
  "bounds_ok lo hi \<longleftrightarrow> (case lo of None \<Rightarrow> True | Some l \<Rightarrow> below hi l)"

fun ordered :: "bytes option \<Rightarrow> bytes option \<Rightarrow> bnode \<Rightarrow> bool"
and kids_ordered :: "bytes option \<Rightarrow> bytes option \<Rightarrow> bytes list \<Rightarrow> bnode list \<Rightarrow> bool" where
  "ordered lo hi (BLeaf p es) \<longleftrightarrow>
     bounds_ok lo hi \<and> sorted (map entry_order es) \<and> (\<forall>e \<in> set es. above lo (le_key e) \<and> below hi (le_key e))"
| "ordered lo hi (BNode p ks ts) \<longleftrightarrow> kids_ordered lo hi ks ts"
| "kids_ordered lo hi [] [t] \<longleftrightarrow> ordered lo hi t"
| "kids_ordered lo hi (k # ks) (t # ts) \<longleftrightarrow> ordered lo (Some k) t \<and> kids_ordered (Some k) hi ks ts"
| "kids_ordered lo hi _ _ \<longleftrightarrow> False"

lemma kids_ordered_single: "kids_ordered lo hi [] ts \<longleftrightarrow> (\<exists>t. ts = [t] \<and> ordered lo hi t)"
  by (cases ts; cases "tl ts") auto

lemma kids_ordered_length: "kids_ordered lo hi ks ts \<Longrightarrow> length ts = length ks + 1"
proof (induction ks arbitrary: lo ts)
  case Nil
  then show ?case by (auto simp: kids_ordered_single)
next
  case (Cons k ks)
  then show ?case by (cases ts) auto
qed

lemma kids_ordered_append:
  "length ts1 = length ks1 + 1 \<Longrightarrow>
   kids_ordered lo hi (ks1 @ k # ks2) (ts1 @ ts2) \<longleftrightarrow> kids_ordered lo (Some k) ks1 ts1 \<and> kids_ordered (Some k) hi ks2 ts2"
proof (induction ks1 arbitrary: lo ts1)
  case Nil
  then obtain t where "ts1 = [t]" by (cases ts1) auto
  then show ?case by simp
next
  case (Cons k1 ks1)
  then obtain t ts where "ts1 = t # ts" "length ts = length ks1 + 1" by (cases ts1) auto
  then show ?case using Cons.IH by simp
qed

lemma bounds_ok_trans: "bounds_ok lo (Some k) \<Longrightarrow> bounds_ok (Some k) hi \<Longrightarrow> bounds_ok lo hi"
  by (auto simp: bounds_ok_def below_def split: option.splits)

lemma ordered_bounds:
  "ordered lo hi t \<Longrightarrow> bounds_ok lo hi"
  "kids_ordered lo hi ks ts \<Longrightarrow> bounds_ok lo hi"
proof (induction lo hi t and lo hi ks ts rule: ordered_kids_ordered.induct)
  case (4 lo hi k ks t ts)
  then show ?case using bounds_ok_trans by simp
qed simp_all

lemma above_mono: "above (Some k) x \<Longrightarrow> bounds_ok lo (Some k) \<Longrightarrow> above lo x"
  by (auto simp: above_def bounds_ok_def below_def split: option.splits)

lemma below_mono: "below (Some k) x \<Longrightarrow> bounds_ok (Some k) hi \<Longrightarrow> below hi x"
  by (auto simp: below_def bounds_ok_def split: option.splits)

definition within :: "bytes option \<Rightarrow> bytes option \<Rightarrow> bytes \<Rightarrow> bool" where
  "within lo hi k \<longleftrightarrow> above lo k \<and> below hi k"

lemma ordered_within:
  "ordered lo hi t \<Longrightarrow> e \<in> set (entries t) \<Longrightarrow> within lo hi (le_key e)"
  "kids_ordered lo hi ks ts \<Longrightarrow> e \<in> set (concat (map entries ts)) \<Longrightarrow> within lo hi (le_key e)"
proof (induction lo hi t and lo hi ks ts arbitrary: e and e rule: ordered_kids_ordered.induct)
  case (1 lo hi p es)
  then show ?case by (auto simp: entries_def within_def)
next
  case (2 lo hi p ks ts)
  then show ?case by (auto simp: entries_def)
next
  case (4 lo hi k ks t ts)
  have b: "bounds_ok lo (Some k)" "bounds_ok (Some k) hi" using 4(3) ordered_bounds(1) [of lo "Some k" t] ordered_bounds(2) [of "Some k" hi ks ts] by auto
  show ?case
  proof (cases "e \<in> set (entries t)")
    case True
    then have "within lo (Some k) (le_key e)" using 4 by simp
    then show ?thesis using below_mono b by (auto simp: within_def)
  next
    case False
    then have "within (Some k) hi (le_key e)" using 4 by simp
    then show ?thesis using above_mono b by (auto simp: within_def)
  qed
qed simp_all

lemma entries_node: "entries (BNode p ks ts) = concat (map entries ts)"
  by (simp add: entries_def) (induction ts; simp add: entries_def)

lemma sorted_keys_leaf: "sorted (map entry_order es) \<Longrightarrow> sorted (map le_key es)"
  by (induction es) (auto simp: entry_order_def less_eq_prod_def)

lemma ordered_sorted:
  "ordered lo hi t \<Longrightarrow> sorted (map le_key (entries t))"
  "kids_ordered lo hi ks ts \<Longrightarrow> sorted (map le_key (concat (map entries ts)))"
proof (induction lo hi t and lo hi ks ts rule: ordered_kids_ordered.induct)
  case (1 lo hi p es)
  then show ?case by (simp add: entries_def sorted_keys_leaf)
next
  case (2 lo hi p ks ts)
  then show ?case by (simp add: entries_node)
next
  case (4 lo hi k ks t ts)
  have "le_key x \<le> k" if "x \<in> set (entries t)" for x
    using ordered_within(1) [of lo "Some k" t x] 4(3) that by (simp add: within_def below_def)
  moreover have "k \<le> le_key y" if "y \<in> set (concat (map entries ts))" for y
    using ordered_within(2) [of "Some k" hi ks ts y] 4(3) that by (simp add: within_def above_def)
  ultimately have "\<forall>x \<in> set (entries t). \<forall>y \<in> set (concat (map entries ts)). le_key x \<le> le_key y"
    by (meson order_trans)
  then show ?case using 4 by (auto simp: sorted_append)
qed simp_all

lemma kids_sorted_keys: "kids_ordered lo hi ks ts \<Longrightarrow> sorted ks \<and> (\<forall>k \<in> set ks. above lo k \<and> below hi k)"
proof (induction ks arbitrary: lo ts)
  case (Cons k ks)
  then obtain t ts' where ts: "ts = t # ts'" "ordered lo (Some k) t" "kids_ordered (Some k) hi ks ts'" by (cases ts) auto
  have b: "bounds_ok lo (Some k)" "bounds_ok (Some k) hi" using ts ordered_bounds(1) [of lo "Some k" t] ordered_bounds(2) [of "Some k" hi ks ts'] by auto
  have "sorted ks \<and> (\<forall>x \<in> set ks. above (Some k) x \<and> below hi x)" using Cons.IH ts by blast
  moreover have "above lo k" using b(1) by (auto simp: above_def bounds_ok_def below_def split: option.splits)
  moreover have "below hi k" using b(2) by (simp add: bounds_ok_def)
  ultimately show ?case using above_mono [OF _ b(1)] by (auto simp: above_def)
qed simp

section \<open>Paths\<close>

text \<open>
  An internal page on the path, split at the child the path goes through: its number, the
  separators and children before it, and those after it. A path lists the frames from the
  leaf upwards.
\<close>

datatype frame_at_node = Fr (fr_id: nat) (fr_lks: "bytes list") (fr_lts: "bnode list") (fr_rks: "bytes list") (fr_rts: "bnode list")

definition grow :: "frame_at_node \<Rightarrow> bytes list \<Rightarrow> bnode list \<Rightarrow> bnode" where
  "grow f ks ts = BNode (fr_id f) (fr_lks f @ ks @ fr_rks f) (fr_lts f @ ts @ fr_rts f)"

fun fill :: "frame_at_node list \<Rightarrow> bnode \<Rightarrow> bnode" where
  "fill [] t = t"
| "fill (f # fs) t = fill fs (grow f [] [t])"

fun lv :: "frame_at_node list \<Rightarrow> (nat \<times> leaf_entry list) list" where
  "lv [] = []"
| "lv (f # fs) = lv fs @ concat (map leaves (fr_lts f))"

fun rv :: "frame_at_node list \<Rightarrow> (nat \<times> leaf_entry list) list" where
  "rv [] = []"
| "rv (f # fs) = concat (map leaves (fr_rts f)) @ rv fs"

fun cids :: "frame_at_node list \<Rightarrow> nat list" where
  "cids [] = []"
| "cids (f # fs) = fr_id f # concat (map ids (fr_lts f)) @ concat (map ids (fr_rts f)) @ cids fs"

fun stored_path :: "bt_pages \<Rightarrow> frame_at_node list \<Rightarrow> nat \<Rightarrow> bool" where
  "stored_path P [] h \<longleftrightarrow> True"
| "stored_path P (f # fs) h \<longleftrightarrow>
     P (fr_id f) = Some (PInternal \<lparr>ip_keys = fr_lks f @ fr_rks f, ip_children = map nid (fr_lts f) @ h # map nid (fr_rts f)\<rparr>)
     \<and> list_all (stored P) (fr_lts f) \<and> list_all (stored P) (fr_rts f) \<and> stored_path P fs (fr_id f)"

text \<open>The path of a key: every frame's child is the one \<open>bisect_right\<close> picks.\<close>

definition key_frame :: "bytes \<Rightarrow> frame_at_node \<Rightarrow> bool" where
  "key_frame key f \<longleftrightarrow> length (fr_lts f) = length (fr_lks f) \<and> length (fr_rts f) = length (fr_rks f)
     \<and> (\<forall>k \<in> set (fr_lks f). k \<le> key) \<and> (\<forall>k \<in> set (fr_rks f). key < k)"

lemma nid_grow [simp]: "nid (grow f ks ts) = fr_id f"
  by (simp add: grow_def)

lemma leaves_fill: "leaves (fill fs t) = lv fs @ leaves t @ rv fs"
  by (induction fs arbitrary: t) (simp_all add: grow_def)

lemma mset_ids_fill: "mset (ids (fill fs t)) = mset (cids fs) + mset (ids t)"
  by (induction fs arbitrary: t) (simp_all add: grow_def)

lemma stored_fill: "stored P (fill fs t) \<longleftrightarrow> stored_path P fs (nid t) \<and> stored P t"
  by (induction fs arbitrary: t) (auto simp: grow_def)

lemma ids_leaves: "set (map fst (leaves t)) \<subseteq> set (ids t)"
  by (induction t) auto

lemma lv_ids: "set (map fst (lv fs)) \<union> set (map fst (rv fs)) \<subseteq> set (cids fs)"
  by (induction fs) (use ids_leaves in fastforce)+

lemma nid_in_ids [simp]: "nid t \<in> set (ids t)"
  by (cases t) simp_all

lemma stored_cong: "stored P t \<Longrightarrow> (\<And>p. p \<in> set (ids t) \<Longrightarrow> P' p = P p) \<Longrightarrow> stored P' t"
proof (induction t)
  case (BNode p ks ts)
  then show ?case by (fastforce simp: list_all_iff)
qed simp

lemma stored_path_cong: "stored_path P fs h \<Longrightarrow> (\<And>p. p \<in> set (cids fs) \<Longrightarrow> P' p = P p) \<Longrightarrow> stored_path P' fs h"
proof (induction fs arbitrary: h)
  case (Cons f fs)
  have kids: "list_all (stored P') ts" if ts: "list_all (stored P) ts" "set (concat (map ids ts)) \<subseteq> set (cids (f # fs))" for ts
    unfolding list_all_iff
  proof
    fix t assume t: "t \<in> set ts"
    show "stored P' t"
    proof (rule stored_cong [of P])
      show "stored P t" using ts(1) t by (simp add: list_all_iff)
      show "P' p = P p" if "p \<in> set (ids t)" for p
      proof -
        have "p \<in> set (concat (map ids ts))" using t that by auto
        then show ?thesis using Cons.prems(2) ts(2) by blast
      qed
    qed
  qed
  have "stored_path P' fs (fr_id f)"
  proof (rule Cons.IH)
    show "stored_path P fs (fr_id f)" using Cons.prems(1) by simp
    show "P' p = P p" if "p \<in> set (cids fs)" for p using Cons.prems(2) that by simp
  qed
  moreover have "P' (fr_id f) = P (fr_id f)" by (rule Cons.prems(2)) simp
  moreover have "list_all (stored P') (fr_lts f)" "list_all (stored P') (fr_rts f)"
    by (rule kids; use Cons.prems(1) in auto)+
  ultimately show ?case using Cons.prems(1) by simp
qed simp

section \<open>Changing a subtree\<close>

lemma kids_replace:
  assumes "kids_ordered lo hi (lks @ rks) (lts @ x # rts)" and "length lts = length lks" and "within lo hi key"
    and "\<forall>k \<in> set lks. k \<le> key" and "\<forall>k \<in> set rks. key < k"
    and H: "\<And>lo hi. ordered lo hi x \<Longrightarrow> within lo hi key \<Longrightarrow> kids_ordered lo hi ks ts"
  shows "kids_ordered lo hi (lks @ ks @ rks) (lts @ ts @ rts)"
  using assms(1-5)
proof (induction lks arbitrary: lo lts)
  case Nil
  show ?case
  proof (cases rks)
    case Nil
    then have "rts = []" "ordered lo hi x" using Nil.prems by (auto simp: kids_ordered_single)
    then show ?thesis using H Nil Nil.prems by simp
  next
    case (Cons k rks')
    then have x: "ordered lo (Some k) x" "kids_ordered (Some k) hi rks' rts" using Nil.prems by auto
    have "within lo (Some k) key" using Nil.prems Cons by (auto simp: within_def below_def)
    then have "kids_ordered lo (Some k) ks ts" using H x by blast
    then show ?thesis
      using kids_ordered_append [of ts ks lo hi k rks' rts] kids_ordered_length x Cons Nil.prems by simp
  qed
next
  case (Cons k lks)
  then obtain t lts' where lts: "lts = t # lts'" by (cases lts) auto
  have "within (Some k) hi key" using Cons.prems by (auto simp: within_def above_def)
  then show ?case using Cons lts by simp
qed

text \<open>The change at the hole, seen one level up.\<close>

lemma grow_replace:
  assumes "key_frame key f"
    and H: "\<And>lo hi. ordered lo hi x \<Longrightarrow> within lo hi key \<Longrightarrow> kids_ordered lo hi ks ts"
    and "ordered lo hi (grow f [] [x])" and "within lo hi key"
  shows "ordered lo hi (grow f ks ts)"
  using kids_replace [of lo hi "fr_lks f" "fr_rks f" "fr_lts f" x "fr_rts f" key ks ts] assms
  by (simp add: grow_def key_frame_def)

lemma fill_replace:
  assumes "\<forall>f \<in> set fs. key_frame key f"
    and H: "\<And>lo hi. ordered lo hi x \<Longrightarrow> within lo hi key \<Longrightarrow> ordered lo hi y"
    and "ordered lo hi (fill fs x)" and "within lo hi key"
  shows "ordered lo hi (fill fs y)"
  using assms
proof (induction fs arbitrary: x y)
  case (Cons f fs)
  have "ordered lo hi (grow f [] [y])" if "ordered lo hi (grow f [] [x])" "within lo hi key" for lo hi
    using grow_replace [of key f x "[]" "[y]" lo hi] Cons.prems that by (simp add: kids_ordered_single)
  then show ?case using Cons.IH [of "grow f [] [x]" "grow f [] [y]"] Cons.prems by simp
qed simp

text \<open>On the path of a key, the leaves before it hold keys up to it and those after it larger keys.\<close>

lemma kids_split_bounds:
  assumes "kids_ordered lo hi (lks @ rks) (lts @ x # rts)" and "length lts = length lks"
  shows "\<And>e. e \<in> set (concat (map entries lts)) \<Longrightarrow> \<exists>k \<in> set lks. le_key e \<le> k"
    and "\<And>e. e \<in> set (concat (map entries rts)) \<Longrightarrow> \<exists>k \<in> set rks. k \<le> le_key e"
    and "\<exists>lo' hi'. ordered lo' hi' x"
  using assms
proof (induction lks arbitrary: lo lts)
  case Nil
  { case 1 then show ?case by simp }
  { case 2
    then show ?case
      using ordered_within(2) [of "Some (hd rks)" hi "tl rks" rts e] by (cases rks) (auto simp: within_def above_def kids_ordered_single) }
  { case 3 then show ?case by (cases rks) (auto simp: kids_ordered_single) }
next
  case (Cons k lks)
  { case (1 e lo lts)
    then obtain t lts' where "lts = t # lts'" by (cases lts) auto
    then show ?case
      using 1 Cons.IH(1) [of e lts' "Some k"] ordered_within(1) [of lo "Some k" t e] by (auto simp: within_def below_def) }
  { case (2 e lo lts)
    then obtain t lts' where "lts = t # lts'" by (cases lts) auto
    then show ?case using 2 Cons.IH(2) [of e "Some k" lts'] by auto }
  { case (3 lo lts)
    then obtain t lts' where "lts = t # lts'" by (cases lts) auto
    then show ?case using 3 Cons.IH(3) [of "Some k" lts'] by auto }
qed

lemma path_bounds:
  assumes "\<forall>f \<in> set fs. key_frame key f" and "ordered lo hi (fill fs x)"
  shows "(\<forall>e \<in> set (concat (map snd (lv fs))). le_key e \<le> key) \<and> (\<forall>e \<in> set (concat (map snd (rv fs))). key < le_key e)
    \<and> (\<exists>lo' hi'. ordered lo' hi' x)"
  using assms
proof (induction fs arbitrary: x)
  case Nil
  then show ?case by auto
next
  case (Cons f fs)
  have kf: "key_frame key f" using Cons.prems by simp
  note IH = Cons.IH [of "grow f [] [x]"]
  then obtain lo' hi' where o: "kids_ordered lo' hi' (fr_lks f @ fr_rks f) (fr_lts f @ x # fr_rts f)"
    using Cons.prems by (auto simp: grow_def)
  have len: "length (fr_lts f) = length (fr_lks f)" using kf by (simp add: key_frame_def)
  note s = kids_split_bounds [OF o len]
  have ent: "set (concat (map snd (concat (map leaves ts)))) = set (concat (map entries ts))" for ts
    by (auto simp: entries_def)
  have "le_key e \<le> key" if "e \<in> set (concat (map entries (fr_lts f)))" for e
    using s(1) [OF that] kf by (auto simp: key_frame_def intro: order_trans)
  moreover have "key < le_key e" if "e \<in> set (concat (map entries (fr_rts f)))" for e
    using s(2) [OF that] kf by (auto simp: key_frame_def intro: less_le_trans)
  ultimately show ?case using IH Cons.prems s(3) ent by auto
qed

section \<open>The chain of leaves\<close>

lemma chain_cong: "chain P l ls r \<Longrightarrow> (\<And>p. p \<in> fst ` set ls \<Longrightarrow> P' p = P p) \<Longrightarrow> chain P' l ls r"
proof (induction ls arbitrary: l)
  case (Cons x ls)
  then show ?case by (cases x) auto
qed simp

definition first_id :: "(nat \<times> leaf_entry list) list \<Rightarrow> nat option \<Rightarrow> nat option" where
  "first_id ls r = (case ls of [] \<Rightarrow> r | (q, _) # _ \<Rightarrow> Some q)"

definition last_id :: "nat option \<Rightarrow> (nat \<times> leaf_entry list) list \<Rightarrow> nat option" where
  "last_id l ls = (if ls = [] then l else Some (fst (last ls)))"

lemma first_id_simps [simp]: "first_id [] r = r" "first_id ((q, es) # ls) r = Some q"
  by (simp_all add: first_id_def)

lemma last_id_Cons: "last_id l ((p, es) # ls) = last_id (Some p) ls"
  by (simp add: last_id_def)

lemma chain_Cons: "chain P l ((p, es) # ls) r \<longleftrightarrow>
    P p = Some (PLeaf \<lparr>lp_entries = es, lp_left = l, lp_right = first_id ls r\<rparr>) \<and> chain P (Some p) ls r"
  by (simp add: first_id_def)

lemma chain_append: "chain P l (as @ bs) r \<longleftrightarrow> chain P l as (first_id bs r) \<and> chain P (last_id l as) bs r"
proof (induction as arbitrary: l)
  case Nil
  show ?case by (simp add: last_id_def)
next
  case (Cons a as)
  obtain p es where a: "a = (p, es)" by (cases a)
  have "first_id (as @ bs) r = first_id as (first_id bs r)" by (cases as) (auto simp: first_id_def)
  then show ?case using Cons.IH by (simp add: a chain_Cons last_id_Cons del: chain.simps)
qed

text \<open>Replacing the entries of one leaf.\<close>

lemma chain_update:
  assumes "chain P l (as @ (p, es) # bs) r" and "p \<notin> fst ` set as \<union> fst ` set bs"
  shows "chain (P(p \<mapsto> PLeaf \<lparr>lp_entries = es', lp_left = last_id l as, lp_right = first_id bs r\<rparr>)) l (as @ (p, es') # bs) r"
proof -
  let ?P = "P(p \<mapsto> PLeaf \<lparr>lp_entries = es', lp_left = last_id l as, lp_right = first_id bs r\<rparr>)"
  have old: "chain P l as (Some p)" "chain P (Some p) bs r"
    using assms(1) by (auto simp: chain_append chain_Cons simp del: chain.simps)
  have "chain ?P l as (Some p)" using old(1) by (rule chain_cong) (use assms(2) in auto)
  moreover have "chain ?P (Some p) bs r" using old(2) by (rule chain_cong) (use assms(2) in auto)
  ultimately show ?thesis by (simp add: chain_append chain_Cons del: chain.simps)
qed

text \<open>Splitting one leaf in two, with the back link of the next one.\<close>

definition relinked :: "bt_pages \<Rightarrow> nat \<Rightarrow> (nat \<times> leaf_entry list) list \<Rightarrow> nat option \<Rightarrow> bt_pages" where
  "relinked P new bs r = (case bs of [] \<Rightarrow> P
     | (q, es) # bs' \<Rightarrow> P(q \<mapsto> PLeaf \<lparr>lp_entries = es, lp_left = Some new, lp_right = first_id bs' r\<rparr>))"

lemma relinked_chain:
  assumes "chain P l bs r" and "distinct (map fst bs)"
  shows "chain (relinked P new bs r) (Some new) bs r"
proof (cases bs)
  case (Cons b bs')
  obtain q es where b: "b = (q, es)" by (cases b)
  have old: "chain P (Some q) bs' r" "q \<notin> fst ` set bs'" using assms Cons b by (auto simp del: chain.simps simp: chain_Cons)
  have "chain (P(q \<mapsto> PLeaf \<lparr>lp_entries = es, lp_left = Some new, lp_right = first_id bs' r\<rparr>)) (Some q) bs' r"
    using old(1) by (rule chain_cong) (use old(2) in auto)
  then show ?thesis using Cons b by (simp add: relinked_def chain_Cons del: chain.simps)
qed (simp add: relinked_def)

lemma chain_split:
  assumes ch: "chain P l (as @ (p, es) # bs) r" and "distinct (map fst (as @ (p, es) # bs))"
    and new: "new \<notin> fst ` set (as @ (p, es) # bs)"
  shows "chain (relinked (P(new \<mapsto> PLeaf \<lparr>lp_entries = es2, lp_left = Some p, lp_right = first_id bs r\<rparr>,
      p \<mapsto> PLeaf \<lparr>lp_entries = es1, lp_left = last_id l as, lp_right = Some new\<rparr>)) new bs r)
    l (as @ (p, es1) # (new, es2) # bs) r"
proof -
  define P1 where "P1 = P(new \<mapsto> PLeaf \<lparr>lp_entries = es2, lp_left = Some p, lp_right = first_id bs r\<rparr>,
      p \<mapsto> PLeaf \<lparr>lp_entries = es1, lp_left = last_id l as, lp_right = Some new\<rparr>)"
  have old: "chain P l as (Some p)" "chain P (Some p) bs r"
    using ch by (auto simp: chain_append chain_Cons simp del: chain.simps)
  have d: "p \<notin> fst ` set as" "p \<notin> fst ` set bs" "new \<notin> fst ` set as" "new \<notin> fst ` set bs" "new \<noteq> p" "distinct (map fst bs)"
    "fst ` set as \<inter> fst ` set bs = {}"
    using assms(2) new by auto
  have other: "relinked P1 new bs r x = P1 x" if "x \<notin> fst ` set bs" for x
    using that by (auto simp: relinked_def split: list.splits)
  have "chain (relinked P1 new bs r) l as (Some p)"
    using old(1)
  proof (rule chain_cong)
    fix x assume x: "x \<in> fst ` set as"
    then have "x \<notin> fst ` set bs" "x \<noteq> p" "x \<noteq> new" using d by blast+
    then show "relinked P1 new bs r x = P x" using other by (simp add: P1_def)
  qed
  moreover have "chain P1 (Some p) bs r" using old(2) by (rule chain_cong) (use d in \<open>auto simp: P1_def\<close>)
  then have "chain (relinked P1 new bs r) (Some new) bs r" using relinked_chain d(6) by blast
  moreover have "relinked P1 new bs r new = P1 new" "relinked P1 new bs r p = P1 p" using other d by auto
  ultimately show ?thesis
    using d unfolding P1_def [symmetric] by (simp add: chain_append chain_Cons P1_def del: chain.simps)
qed

end
