(* ===== verification/Btree_Search.thy ===== *)
theory Btree_Search
  imports Btree Btree_Shape
begin

text \<open>
  The operations of \<open>index/btree.py\<close> on index pages as typed pages, and the correctness of
  searching: on pages that represent a tree, the search finds exactly the row identifiers
  stored under the key, wherever duplicates spread over neighbouring leaves.
\<close>

section \<open>Index pages as typed pages\<close>

definition decode_bt_page :: "page_key \<Rightarrow> bytes \<Rightarrow> bt_page option" where
  "decode_bt_page key q =
     (case decode_page key q of
        Inl _ \<Rightarrow> None
      | Inr x \<Rightarrow>
          if dp_lsn x \<noteq> 0 then None
          else case dp_kind x of
            KindHEAP \<Rightarrow> None
          | KindBTREE_META \<Rightarrow> (case decode_meta (dp_body x) of Inl _ \<Rightarrow> None | Inr m \<Rightarrow> Some (PMeta m))
          | KindBTREE_INTERNAL \<Rightarrow> (case decode_internal (dp_body x) of Inl _ \<Rightarrow> None | Inr i \<Rightarrow> Some (PInternal i))
          | KindBTREE_LEAF \<Rightarrow> (case decode_leaf (dp_body x) of Inl _ \<Rightarrow> None | Inr l \<Rightarrow> Some (PLeaf l)))"

definition bt_pages_of :: "btree \<Rightarrow> bt_pages" where
  "bt_pages_of t pid =
     (if pid < NO_PAGE then
        (case bp_view (bt_pool t) (PageKey (bt_relation t) pid) of
           None \<Rightarrow> None | Some q \<Rightarrow> decode_bt_page (PageKey (bt_relation t) pid) q)
      else None)"

definition npages :: "btree \<Rightarrow> nat" where
  "npages t = disk_pages (bp_disk (bt_pool t)) (bt_relation t)"

definition bt_ready :: "btree \<Rightarrow> bool" where
  "bt_ready t \<longleftrightarrow> pool_ready (bt_pool t) \<and> bt_index_id t < 2 ^ 64"

text \<open>The state after some page operations: still ready, with these pages and so many of them.\<close>

definition bt_next :: "btree \<Rightarrow> bt_pages \<Rightarrow> nat \<Rightarrow> btree \<Rightarrow> bool" where
  "bt_next t P n t' \<longleftrightarrow> bt_ready t' \<and> bt_pages_of t' = P \<and> npages t' = n \<and> bt_index_id t' = bt_index_id t
     \<and> bt_root t' = bt_root t \<and> bt_height t' = bt_height t"

lemma bt_nextD:
  assumes "bt_next t P n t'"
  shows "bt_ready t'" "bt_pages_of t' = P" "npages t' = n" "bt_index_id t' = bt_index_id t" "bt_root t' = bt_root t"
    "bt_height t' = bt_height t"
  using assms by (auto simp: bt_next_def)

lemma bt_next_trans: "bt_next t P n t1 \<Longrightarrow> bt_next t1 P' n' t2 \<Longrightarrow> bt_next t P' n' t2"
  by (auto simp: bt_next_def)

lemma bt_next_refl: "bt_ready t \<Longrightarrow> bt_next t (bt_pages_of t) (npages t) t"
  by (simp add: bt_next_def)

lemma bt_key_valid: "bt_index_id t < 2 ^ 64 \<Longrightarrow> pid < NO_PAGE \<Longrightarrow>
    valid_page_key (PageKey (bt_relation t) pid) \<and> mk_page_key (bt_relation t) pid = Inr (PageKey (bt_relation t) pid)"
  by (simp add: valid_page_key_def bt_relation_def btree_relation_def mk_page_key_def validate_uint64_def NO_PAGE_def)

lemma bt_pages_of_SomeE:
  assumes "bt_pages_of t pid = Some pg"
  obtains q x where "pid < NO_PAGE" and "bp_view (bt_pool t) (PageKey (bt_relation t) pid) = Some q"
    and "decode_page (PageKey (bt_relation t) pid) q = Inr x" and "dp_lsn x = 0" and "decode_bt_page (PageKey (bt_relation t) pid) q = Some pg"
  using assms by (auto simp: bt_pages_of_def decode_bt_page_def split: if_splits option.splits sum.splits)

lemma pool_frame_next:
  assumes "bt_ready t" and "pool_ready b'" and "pool_frame (bt_pool t) b'"
  shows "bt_next t (bt_pages_of (t\<lparr>bt_pool := b'\<rparr>)) (npages t) (t\<lparr>bt_pool := b'\<rparr>)"
  using assms by (simp add: bt_next_def bt_ready_def npages_def bt_relation_def pool_frame_def)

lemma bt_relation_pool: "bt_relation (t\<lparr>bt_pool := b'\<rparr>) = bt_relation t"
  by (simp add: bt_relation_def)

lemma bt_pages_of_pool:
  "bt_pages_of (t\<lparr>bt_pool := b'\<rparr>) = (\<lambda>pid. if pid < NO_PAGE then
     (case bp_view b' (PageKey (bt_relation t) pid) of
        None \<Rightarrow> None | Some q \<Rightarrow> decode_bt_page (PageKey (bt_relation t) pid) q) else None)"
  unfolding bt_pages_of_def [abs_def] bt_relation_pool by (simp cong: if_cong)

lemma bt_pages_of_view:
  "bp_view b' = bp_view (bt_pool t) \<Longrightarrow> bt_pages_of (t\<lparr>bt_pool := b'\<rparr>) = bt_pages_of t"
  unfolding bt_pages_of_def [abs_def] bt_relation_pool by (simp cong: if_cong)

lemma bt_pages_of_upd:
  assumes "bp_view b' = (bp_view (bt_pool t))(PageKey (bt_relation t) pid \<mapsto> p)" and "pid < NO_PAGE"
  shows "bt_pages_of (t\<lparr>bt_pool := b'\<rparr>) = (bt_pages_of t)(pid := decode_bt_page (PageKey (bt_relation t) pid) p)"
  unfolding bt_pages_of_pool assms(1) using assms(2) by (auto simp: bt_pages_of_def fun_eq_iff)

lemma bt_read_page_ok:
  assumes r: "bt_ready t" and p: "pid < NO_PAGE" "bp_view (bt_pool t) (PageKey (bt_relation t) pid) = Some q"
    "decode_page (PageKey (bt_relation t) pid) q = Inr x"
  shows "\<exists>t'. bt_read_page pid (dp_kind x) t = (Inr (dp_body x), t') \<and> bt_next t (bt_pages_of t) (npages t) t'"
proof -
  let ?k = "PageKey (bt_relation t) pid"
  let ?h = "\<lambda>q. res_bind (decode_page ?k q) (\<lambda>decoded. if dp_kind decoded \<noteq> dp_kind x then Inl CorruptPage else Inr (dp_body decoded))"
  have v: "valid_page_key ?k" "mk_page_key (bt_relation t) pid = Inr ?k"
    using bt_key_valid p(1) r by (auto simp: bt_ready_def)
  obtain b' where b': "with_guard (fetch_page ?k) (\<lambda>g. sm_bind (pg_page_bytes g) (\<lambda>q. sm_lift (?h q))) (bt_pool t) = (?h q, b')"
    "pool_ready b'" "bp_view b' = bp_view (bt_pool t)" "pool_frame (bt_pool t) b'"
    using with_page_read [OF _ v(1) p(2), of ?h] r by (auto simp: bt_ready_def)
  have "bt_read_page pid (dp_kind x) t = (Inr (dp_body x), t\<lparr>bt_pool := b'\<rparr>)"
    using b'(1) v(2) p(3) by (simp add: bt_read_page_def sm_bind_def on_bt_pool_def)
  then show ?thesis using pool_frame_next [OF r b'(2,4)] bt_pages_of_view [OF b'(3)] by simp
qed

lemma bt_read_leaf_ok:
  assumes "bt_ready t" and "bt_pages_of t pid = Some (PLeaf l)"
  shows "\<exists>t'. bt_read_leaf pid t = (Inr l, t') \<and> bt_next t (bt_pages_of t) (npages t) t'"
proof -
  obtain q x where q: "pid < NO_PAGE" "bp_view (bt_pool t) (PageKey (bt_relation t) pid) = Some q"
    "decode_page (PageKey (bt_relation t) pid) q = Inr x" "decode_bt_page (PageKey (bt_relation t) pid) q = Some (PLeaf l)"
    using assms(2) by (rule bt_pages_of_SomeE)
  then have "dp_kind x = KindBTREE_LEAF" "decode_leaf (dp_body x) = Inr l"
    by (auto simp: decode_bt_page_def split: if_splits page_kind.splits sum.splits)
  then show ?thesis using bt_read_page_ok [OF assms(1) q(1-3)] by (auto simp: bt_read_leaf_def sm_bind_def)
qed

lemma bt_read_internal_ok:
  assumes "bt_ready t" and "bt_pages_of t pid = Some (PInternal i)"
  shows "\<exists>t'. bt_read_internal pid t = (Inr i, t') \<and> bt_next t (bt_pages_of t) (npages t) t'"
proof -
  obtain q x where q: "pid < NO_PAGE" "bp_view (bt_pool t) (PageKey (bt_relation t) pid) = Some q"
    "decode_page (PageKey (bt_relation t) pid) q = Inr x" "decode_bt_page (PageKey (bt_relation t) pid) q = Some (PInternal i)"
    using assms(2) by (rule bt_pages_of_SomeE)
  then have "dp_kind x = KindBTREE_INTERNAL" "decode_internal (dp_body x) = Inr i"
    by (auto simp: decode_bt_page_def split: if_splits page_kind.splits sum.splits)
  then show ?thesis using bt_read_page_ok [OF assms(1) q(1-3)] by (auto simp: bt_read_internal_def sm_bind_def)
qed

lemma bt_pages_leaf_ok:
  assumes "bt_pages_of t pid = Some (PLeaf l)"
  shows "leaf_ok l \<and> leaf_body_size (lp_entries l) \<le> PAGE_BODY_SIZE \<and> pid < NO_PAGE"
  using assms
proof (rule bt_pages_of_SomeE)
  fix q x
  assume "pid < NO_PAGE" "decode_page (PageKey (bt_relation t) pid) q = Inr x" "decode_bt_page (PageKey (bt_relation t) pid) q = Some (PLeaf l)"
  then show ?thesis
    using decode_leaf_InrD [of "dp_body x" l] by (auto simp: decode_bt_page_def split: if_splits page_kind.splits sum.splits)
qed

lemma bt_pages_internal_ok:
  assumes "bt_pages_of t pid = Some (PInternal i)"
  shows "internal_ok i \<and> internal_body_size (ip_keys i) \<le> PAGE_BODY_SIZE \<and> pid < NO_PAGE"
  using assms
proof (rule bt_pages_of_SomeE)
  fix q x
  assume "pid < NO_PAGE" "decode_page (PageKey (bt_relation t) pid) q = Inr x" "decode_bt_page (PageKey (bt_relation t) pid) q = Some (PInternal i)"
  then show ?thesis
    using decode_internal_InrD [of "dp_body x" i] by (auto simp: decode_bt_page_def split: if_splits page_kind.splits sum.splits)
qed

section \<open>Descending to a leaf\<close>

lemma takeWhile_sorted_split:
  assumes "sorted (ks :: 'a :: linorder list)"
  shows "\<forall>k \<in> set (takeWhile (\<lambda>y. y \<le> key) ks). k \<le> key" and "\<forall>k \<in> set (dropWhile (\<lambda>y. y \<le> key) ks). key < k"
  using assms by (induction ks) (auto dest: set_takeWhileD)

lemma descend_ok:
  assumes "bt_ready t" and "stored (bt_pages_of t) (fill fs x)" and "height_is (Suc n) x" and "\<forall>f \<in> set fs. key_frame key f"
    and "ordered lo hi (fill fs x)"
  shows "\<exists>t' pid es gs. descend n key (nid x) (rev (map (\<lambda>f. (fr_id f, length (fr_lts f))) fs)) t
      = (Inr (pid, rev (map (\<lambda>f. (fr_id f, length (fr_lts f))) gs)), t')
    \<and> bt_next t (bt_pages_of t) (npages t) t' \<and> fill gs (BLeaf pid es) = fill fs x \<and> (\<forall>f \<in> set gs. key_frame key f)"
  using assms
proof (induction n arbitrary: t fs x)
  case 0
  then obtain p es where x: "x = BLeaf p es" by (cases x) auto
  then show ?case using bt_next_refl [OF 0(1)] 0 by (intro exI [of _ t] exI [of _ p] exI [of _ es] exI [of _ fs]) simp
next
  case (Suc n)
  obtain p ks ts where x: "x = BNode p ks ts" and h: "list_all (height_is (Suc n)) ts" using Suc.prems(3) by (cases x) auto
  obtain lo' hi' where "ordered lo' hi' x" using path_bounds [OF Suc.prems(4,5)] by blast
  then have ko: "kids_ordered lo' hi' ks ts" using x by simp
  have len: "length ts = length ks + 1" by (rule kids_ordered_length [OF ko])
  have so: "sorted ks" using kids_sorted_keys [OF ko] by simp
  define i where "i = bisect_right ks key"
  have i: "i \<le> length ks" by (simp add: i_def bisect_right_def length_takeWhile_le)
  define f where "f = Fr p (take i ks) (take i ts) (drop i ks) (drop (Suc i) ts)"
  have ts: "ts = take i ts @ ts ! i # drop (Suc i) ts" using i len by (simp add: id_take_nth_drop)
  have x': "x = grow f [] [ts ! i]" using ts by (simp add: x grow_def f_def)
  have tw: "take i ks = takeWhile (\<lambda>y. y \<le> key) ks" "drop i ks = dropWhile (\<lambda>y. y \<le> key) ks"
    by (simp_all add: i_def bisect_right_def takeWhile_eq_take dropWhile_eq_drop flip: takeWhile_eq_take)
  have kf: "key_frame key f"
    using takeWhile_sorted_split [OF so, of key, folded tw] i len by (simp add: key_frame_def f_def)
  have P: "bt_pages_of t p = Some (PInternal \<lparr>ip_keys = ks, ip_children = map nid ts\<rparr>)"
    using Suc.prems(2) by (simp add: stored_fill x)
  obtain t1 where t1: "bt_read_internal p t = (Inr \<lparr>ip_keys = ks, ip_children = map nid ts\<rparr>, t1)"
    "bt_next t (bt_pages_of t) (npages t) t1"
    using bt_read_internal_ok [OF Suc.prems(1) P] by blast
  note n1 = bt_nextD [OF t1(2)]
  have "height_is (Suc n) (ts ! i)" using h i len by (simp add: list_all_length)
  then obtain t' pid es gs where IH: "descend n key (nid (ts ! i)) (rev (map (\<lambda>f. (fr_id f, length (fr_lts f))) (f # fs))) t1
      = (Inr (pid, rev (map (\<lambda>f. (fr_id f, length (fr_lts f))) gs)), t')"
    "bt_next t1 (bt_pages_of t1) (npages t1) t'" "fill gs (BLeaf pid es) = fill (f # fs) (ts ! i)" "\<forall>f \<in> set gs. key_frame key f"
    using Suc.IH [of t1 "f # fs" "ts ! i"] n1 Suc.prems(2,4,5) x' kf by auto
  have "descend (Suc n) key (nid x) (rev (map (\<lambda>f. (fr_id f, length (fr_lts f))) fs)) t
      = (Inr (pid, rev (map (\<lambda>f. (fr_id f, length (fr_lts f))) gs)), t')"
    using t1(1) IH(1) i len by (simp add: x sm_bind_def Let_def list_at_def f_def i_def [symmetric] min_def)
  then show ?case using IH bt_next_trans [OF t1(2) IH(2)] n1 x' by (intro exI [of _ t'] exI [of _ pid] exI [of _ es] exI [of _ gs]) simp
qed

section \<open>Walking along the leaves\<close>

text \<open>The leaf at position \<open>j\<close> of the chain.\<close>

definition leaf_at :: "(nat \<times> leaf_entry list) list \<Rightarrow> nat \<Rightarrow> leaf_page" where
  "leaf_at ls j = \<lparr>lp_entries = snd (ls ! j), lp_left = (if j = 0 then None else Some (fst (ls ! (j - 1)))),
     lp_right = (if Suc j < length ls then Some (fst (ls ! Suc j)) else None)\<rparr>"

lemma chain_leaf_at:
  assumes "chain P l ls r" and "j < length ls"
  shows "P (fst (ls ! j)) = Some (PLeaf \<lparr>lp_entries = snd (ls ! j), lp_left = (if j = 0 then l else Some (fst (ls ! (j - 1)))),
     lp_right = (if Suc j < length ls then Some (fst (ls ! Suc j)) else r)\<rparr>)"
  using assms
proof (induction ls arbitrary: l j)
  case (Cons x ls)
  obtain p es where x: "x = (p, es)" by (cases x)
  have c: "P p = Some (PLeaf \<lparr>lp_entries = es, lp_left = l, lp_right = first_id ls r\<rparr>)" "chain P (Some p) ls r"
    using Cons.prems(1) by (auto simp: x chain_Cons simp del: chain.simps)
  show ?case
  proof (cases j)
    case 0
    have "first_id ls r = (if Suc 0 < length (x # ls) then Some (fst ((x # ls) ! Suc 0)) else r)"
      by (cases ls) (auto simp: first_id_def)
    then show ?thesis using c(1) 0 x by simp
  next
    case (Suc k)
    have "k < length ls" using Cons.prems(2) Suc by simp
    from Cons.IH [OF c(2) this] show ?thesis using Suc x by (cases k) auto
  qed
qed simp

lemma leaf_at_page:
  "chain P None ls None \<Longrightarrow> j < length ls \<Longrightarrow> P (fst (ls ! j)) = Some (PLeaf (leaf_at ls j))"
  using chain_leaf_at [of P None ls None j] by (simp add: leaf_at_def)

lemma walk_left_ok:
  assumes "bt_ready t" and "chain (bt_pages_of t) None ls None" and "j < length ls" and "j < n"
  shows "\<exists>i t'. walk_left n key (fst (ls ! j)) (leaf_at ls j) t = (Inr (fst (ls ! i), leaf_at ls i), t') \<and> i \<le> j
    \<and> bt_next t (bt_pages_of t) (npages t) t'
    \<and> (0 < i \<longrightarrow> snd (ls ! (i - 1)) = [] \<or> le_key (last (snd (ls ! (i - 1)))) < key)"
  using assms
proof (induction n arbitrary: t j)
  case (Suc n)
  show ?case
  proof (cases j)
    case 0
    then show ?thesis using bt_next_refl [OF Suc.prems(1)] by (intro exI [of _ 0] exI [of _ t]) (simp add: leaf_at_def)
  next
    case (Suc k)
    have k: "k < length ls" "k < n" using Suc.prems Suc by auto
    obtain t1 where t1: "bt_read_leaf (fst (ls ! k)) t = (Inr (leaf_at ls k), t1)" "bt_next t (bt_pages_of t) (npages t) t1"
      using bt_read_leaf_ok [OF Suc.prems(1) leaf_at_page [OF Suc.prems(2) k(1)]] by blast
    note n1 = bt_nextD [OF t1(2)]
    have ll: "lp_left (leaf_at ls j) = Some (fst (ls ! k))" "lp_entries (leaf_at ls k) = snd (ls ! k)"
      using Suc by (simp_all add: leaf_at_def)
    show ?thesis
    proof (cases "snd (ls ! k) \<noteq> [] \<and> key \<le> le_key (last (snd (ls ! k)))")
      case True
      have "chain (bt_pages_of t1) None ls None" using Suc.prems(2) n1(2) by simp
      from Suc.IH [OF n1(1) this k] obtain i t' where
        "walk_left n key (fst (ls ! k)) (leaf_at ls k) t1 = (Inr (fst (ls ! i), leaf_at ls i), t')" "i \<le> k"
        "bt_next t1 (bt_pages_of t1) (npages t1) t'"
        "0 < i \<longrightarrow> snd (ls ! (i - 1)) = [] \<or> le_key (last (snd (ls ! (i - 1)))) < key" by blast
      then show ?thesis
        using True t1(1) ll Suc bt_next_trans [OF t1(2)] n1
        by (intro exI [of _ i] exI [of _ t']) (auto simp: sm_bind_def)
    next
      case False
      then show ?thesis
        using t1 ll Suc by (intro exI [of _ j] exI [of _ t1]) (auto simp: sm_bind_def)
    qed
  qed
qed simp

lemma sorted_keys_drop: "sorted (map le_key (concat (map snd ls))) \<Longrightarrow> sorted (map le_key (concat (map snd (drop j ls))))"
  by (metis append_take_drop_id concat_append map_append sorted_append)

lemma filter_larger: "\<forall>e \<in> set es. key < le_key e \<Longrightarrow> filter (\<lambda>e. le_key e = key) es = []"
  by (auto simp: filter_empty_conv)

lemma filter_smaller: "\<forall>e \<in> set es. le_key e < key \<Longrightarrow> filter (\<lambda>e. le_key e = key) es = []"
  by (auto simp: filter_empty_conv)

lemma sorted_beyond:
  assumes "sorted (map le_key (es @ fs))" and "es \<noteq> []" and "key < le_key (last es)"
  shows "\<forall>e \<in> set fs. key < le_key e"
proof
  fix e assume "e \<in> set fs"
  then have "le_key (last es) \<le> le_key e" using assms(1,2) by (simp add: sorted_append)
  then show "key < le_key e" using assms(3) by simp
qed

lemma sorted_beyond_hd:
  assumes "sorted (map le_key fs)" and "fs \<noteq> []" and "key < le_key (hd fs)"
  shows "\<forall>e \<in> set fs. key < le_key e"
  using assms by (cases fs) (auto intro: less_le_trans)

lemma collect_right_ok:
  assumes "bt_ready t" and "chain (bt_pages_of t) None ls None" and "j < length ls" and "length ls < j + n"
    and "sorted (map le_key (concat (map snd ls)))"
  shows "\<exists>t'. collect_right n key (leaf_at ls j) found t
      = (Inr (found @ map le_tid (filter (\<lambda>e. le_key e = key) (concat (map snd (drop j ls))))), t')
    \<and> bt_next t (bt_pages_of t) (npages t) t'"
  using assms
proof (induction n arbitrary: t j found)
  case (Suc n)
  let ?eq = "filter (\<lambda>e. le_key e = key)"
  let ?es = "snd (ls ! j)"
  define rest where "rest = concat (map snd (drop (Suc j) ls))"
  have split: "concat (map snd (drop j ls)) = ?es @ rest"
    using Suc.prems(3) by (simp add: rest_def Cons_nth_drop_Suc [symmetric])
  have so: "sorted (map le_key (?es @ rest))" using sorted_keys_drop [OF Suc.prems(5), of j] split by simp
  have fnd: "lp_entries (leaf_at ls j) = ?es" by (simp add: leaf_at_def)
  define found' where "found' = found @ map le_tid (?eq ?es)"
  have enough: ?case if "collect_right (Suc n) key (leaf_at ls j) found t = (Inr found', t2)" "?eq rest = []"
    "bt_next t (bt_pages_of t) (npages t) t2" for t2
    using that split by (auto simp: found'_def)
  show ?case
  proof (cases "Suc j < length ls")
    case False
    then have "rest = []" by (simp add: rest_def)
    then show ?thesis
      using enough [of t] bt_next_refl [OF Suc.prems(1)] False by (simp add: leaf_at_def found'_def Let_def)
  next
    case True
    then have rt: "lp_right (leaf_at ls j) = Some (fst (ls ! Suc j))" by (simp add: leaf_at_def)
    show ?thesis
    proof (cases "?es \<noteq> [] \<and> key < le_key (last ?es)")
      case stop: True
      then have "?eq rest = []" using sorted_beyond [OF so] filter_larger by blast
      then show ?thesis using enough [of t] bt_next_refl [OF Suc.prems(1)] rt stop fnd by (simp add: found'_def Let_def)
    next
      case go: False
      obtain t1 where t1: "bt_read_leaf (fst (ls ! Suc j)) t = (Inr (leaf_at ls (Suc j)), t1)" "bt_next t (bt_pages_of t) (npages t) t1"
        using bt_read_leaf_ok [OF Suc.prems(1) leaf_at_page [OF Suc.prems(2) True]] by blast
      note n1 = bt_nextD [OF t1(2)]
      have rest: "rest = snd (ls ! Suc j) @ concat (map snd (drop (Suc (Suc j)) ls))"
        using True by (simp add: rest_def Cons_nth_drop_Suc [symmetric])
      show ?thesis
      proof (cases "snd (ls ! Suc j) \<noteq> [] \<and> key < le_key (hd (snd (ls ! Suc j)))")
        case stop: True
        have sr: "sorted (map le_key rest)" using so by (simp add: sorted_append)
        moreover have "rest \<noteq> []" "hd rest = hd (snd (ls ! Suc j))" using rest stop by auto
        ultimately have "?eq rest = []" using sorted_beyond_hd [OF sr] stop filter_larger by metis
        then show ?thesis
          using enough [of t1] t1 rt go stop fnd by (auto simp: found'_def Let_def sm_bind_def leaf_at_def [of ls "Suc j"])
      next
        case False
        have ch: "chain (bt_pages_of t1) None ls None" using Suc.prems(2) n1(2) by simp
        have fuel: "length ls < Suc j + n" using Suc.prems(4) by simp
        obtain t2 where t2: "collect_right n key (leaf_at ls (Suc j)) found' t1 = (Inr (found' @ map le_tid (?eq rest)), t2)"
          "bt_next t1 (bt_pages_of t1) (npages t1) t2"
          using Suc.IH [OF n1(1) ch True fuel Suc.prems(5), of found'] by (auto simp: rest_def)
        have "collect_right (Suc n) key (leaf_at ls j) found t = (Inr (found' @ map le_tid (?eq rest)), t2)"
          using t1(1) t2(1) rt go False fnd by (auto simp: found'_def Let_def sm_bind_def leaf_at_def [of ls "Suc j"])
        then show ?thesis using bt_next_trans [OF t1(2)] t2(2) n1 split by (auto simp: found'_def)
      qed
    qed
  qed
qed simp

section \<open>Represented trees and searching\<close>

text \<open>
  The tree stored in the pages of an index: its nodes at distinct pages of the file other than the
  metapage, the leaves linked in order, separators bounding the subtrees, all leaves of one depth
  and none empty unless it is the root, and no entry twice.
\<close>

definition represents :: "btree \<Rightarrow> bnode \<Rightarrow> bool" where
  "represents t T \<longleftrightarrow> bt_ready t \<and> bt_root t = nid T \<and> height_is (bt_height t) T
     \<and> stored (bt_pages_of t) T \<and> chain (bt_pages_of t) None (leaves T) None
     \<and> distinct (ids T) \<and> (\<forall>p \<in> set (ids T). 0 < p \<and> p < npages t)
     \<and> ordered None None T \<and> distinct (entries T)
     \<and> ((\<forall>(p, es) \<in> set (leaves T). es \<noteq> []) \<or> (\<exists>p. T = BLeaf p []))"

lemma representsD:
  assumes "represents t T"
  shows "bt_ready t" "bt_root t = nid T" "height_is (bt_height t) T" "stored (bt_pages_of t) T"
    "chain (bt_pages_of t) None (leaves T) None" "distinct (ids T)" "\<And>p. p \<in> set (ids T) \<Longrightarrow> 0 < p \<and> p < npages t"
    "ordered None None T" "distinct (entries T)"
    "(\<forall>(p, es) \<in> set (leaves T). es \<noteq> []) \<or> (\<exists>p. T = BLeaf p [])"
  using assms by (auto simp: represents_def)

lemma represents_next:
  assumes "represents t T" and "bt_next t (bt_pages_of t) (npages t) t'"
  shows "represents t' T"
  using assms bt_nextD [OF assms(2)] by (simp add: represents_def)

lemma length_leaves_ids: "length (leaves T) \<le> length (ids T)"
proof (induction T)
  case (BNode p ks ts)
  then have "length (concat (map leaves ts)) \<le> length (concat (map ids ts))"
    by (auto simp: length_concat intro!: sum_list_mono)
  then show ?case by simp
qed simp

lemma leaves_fuel:
  assumes "represents t T"
  shows "length (leaves T) < chain_fuel t"
proof -
  have "length (ids T) = card (set (ids T))" using representsD(6) [OF assms] by (simp add: distinct_card)
  also have "\<dots> \<le> card {..< npages t}" by (rule card_mono) (use representsD(7) [OF assms] in auto)
  finally show ?thesis using length_leaves_ids [of T] by (simp add: chain_fuel_def npages_def)
qed

lemma height_pos: "height_is h T \<Longrightarrow> 0 < h"
  by (cases T) auto

lemma find_leaf_ok:
  assumes r: "represents t T"
  shows "\<exists>t' pid es gs. find_leaf key t = (Inr (pid, rev (map (\<lambda>f. (fr_id f, length (fr_lts f))) gs)), t')
    \<and> bt_next t (bt_pages_of t) (npages t) t' \<and> fill gs (BLeaf pid es) = T \<and> (\<forall>f \<in> set gs. key_frame key f)"
proof -
  note d = representsD [OF r]
  obtain n where n: "bt_height t = Suc n" using height_pos [OF d(3)] by (cases "bt_height t") auto
  show ?thesis
    using descend_ok [of t "[]" T n key None None] d n by (auto simp: find_leaf_def)
qed

text \<open>The first leaf that may hold a key: everything before it is smaller.\<close>

lemma first_leaf_ok:
  assumes r: "represents t T"
  shows "\<exists>t' i. first_leaf key t = (Inr (fst (leaves T ! i), leaf_at (leaves T) i), t') \<and> i < length (leaves T)
    \<and> bt_next t (bt_pages_of t) (npages t) t' \<and> (\<forall>e \<in> set (concat (map snd (take i (leaves T)))). le_key e < key)"
proof -
  note d = representsD [OF r]
  obtain t1 pid es gs where f: "find_leaf key t = (Inr (pid, rev (map (\<lambda>f. (fr_id f, length (fr_lts f))) gs)), t1)"
    "bt_next t (bt_pages_of t) (npages t) t1" "fill gs (BLeaf pid es) = T" "\<forall>f \<in> set gs. key_frame key f"
    using find_leaf_ok [OF r] by blast
  define ls where "ls = leaves T"
  define j where "j = length (lv gs)"
  have ls: "ls = lv gs @ (pid, es) # rv gs" using f(3) by (auto simp: ls_def leaves_fill)
  have j: "j < length ls" "ls ! j = (pid, es)" by (simp_all add: ls j_def)
  note r1 = represents_next [OF r f(2)]
  note d1 = representsD [OF r1]
  have lj: "bt_pages_of t1 pid = Some (PLeaf (leaf_at ls j))"
    using leaf_at_page [OF d1(5), folded ls_def, OF j(1)] j(2) by simp
  obtain t2 where t2: "bt_read_leaf pid t1 = (Inr (leaf_at ls j), t2)" "bt_next t1 (bt_pages_of t1) (npages t1) t2"
    using bt_read_leaf_ok [OF d1(1) lj] by blast
  note r2 = represents_next [OF r1 t2(2)]
  note d2 = representsD [OF r2]
  have fuel: "j < chain_fuel t2" using leaves_fuel [OF r2] j(1) by (simp add: ls_def)
  obtain i t3 where t3: "walk_left (chain_fuel t2) key (fst (ls ! j)) (leaf_at ls j) t2 = (Inr (fst (ls ! i), leaf_at ls i), t3)"
    "i \<le> j" "bt_next t2 (bt_pages_of t2) (npages t2) t3"
    "0 < i \<longrightarrow> snd (ls ! (i - 1)) = [] \<or> le_key (last (snd (ls ! (i - 1)))) < key"
    using walk_left_ok [OF d2(1) d2(5) [folded ls_def] j(1) fuel] by blast
  have so: "sorted (map le_key (concat (map snd ls)))" using ordered_sorted(1) [OF d(8)] by (simp add: entries_def ls_def)
  have small: "\<forall>e \<in> set (concat (map snd (take i ls))). le_key e < key"
  proof (cases i)
    case (Suc k)
    have k: "k < length ls" "take i ls = take k ls @ [ls ! k]" using t3(2) j(1) Suc by (auto simp: take_Suc_conv_app_nth)
    have "length ls \<noteq> 1" using Suc t3(2) j(1) by simp
    then have "\<forall>(p, es) \<in> set ls. es \<noteq> []" using d(10) by (auto simp: ls_def)
    then have "snd (ls ! k) \<noteq> []" using nth_mem [OF k(1)] by (cases "ls ! k") auto
    then have lt: "le_key (last (snd (ls ! k))) < key" using t3(4) Suc by simp
    have "sorted (map le_key (concat (map snd (take i ls))))"
      using so by (metis append_take_drop_id concat_append map_append sorted_append)
    then have "sorted (map le_key (concat (map snd (take k ls)) @ snd (ls ! k)))" using k(2) by simp
    then have le: "le_key e \<le> le_key (last (snd (ls ! k)))" if "e \<in> set (concat (map snd (take k ls)) @ snd (ls ! k))" for e
      using that \<open>snd (ls ! k) \<noteq> []\<close>
      by (cases "snd (ls ! k)" rule: rev_cases) (auto simp: sorted_append)
    show ?thesis using le lt k(2) by (auto intro: le_less_trans)
  qed simp
  have "first_leaf key t = (Inr (fst (ls ! i), leaf_at ls i), t3)"
    using f(1) t2(1) t3(1) j(2) by (simp add: first_leaf_def sm_bind_def)
  moreover have "bt_next t (bt_pages_of t) (npages t) t3"
    using f(2) t2(2) t3(3) by (auto simp: bt_next_def)
  ultimately show ?thesis using small t3(2) j(1) by (auto simp: ls_def)
qed

lemma bt_search_ok:
  assumes r: "represents t T"
  shows "\<exists>t'. bt_search key t = (Inr (sort (remdups (map le_tid (filter (\<lambda>e. le_key e = key) (entries T))))), t')
    \<and> bt_next t (bt_pages_of t) (npages t) t'"
proof -
  obtain t1 i where f: "first_leaf key t = (Inr (fst (leaves T ! i), leaf_at (leaves T) i), t1)" "i < length (leaves T)"
    "bt_next t (bt_pages_of t) (npages t) t1" "\<forall>e \<in> set (concat (map snd (take i (leaves T)))). le_key e < key"
    using first_leaf_ok [OF r] by blast
  note r1 = represents_next [OF r f(3)]
  note d = representsD [OF r1]
  have so: "sorted (map le_key (concat (map snd (leaves T))))" using ordered_sorted(1) [OF d(8)] by (simp add: entries_def)
  have fuel: "length (leaves T) < i + chain_fuel t1" using leaves_fuel [OF r1] by simp
  obtain t2 where t2: "collect_right (chain_fuel t1) key (leaf_at (leaves T) i) [] t1
      = (Inr ([] @ map le_tid (filter (\<lambda>e. le_key e = key) (concat (map snd (drop i (leaves T)))))), t2)"
    "bt_next t1 (bt_pages_of t1) (npages t1) t2"
    using collect_right_ok [OF d(1,5) f(2) fuel so, of key "[]"] by blast
  have "entries T = concat (map snd (take i (leaves T))) @ concat (map snd (drop i (leaves T)))"
    by (metis append_take_drop_id concat_append entries_def map_append)
  then have "filter (\<lambda>e. le_key e = key) (entries T) = filter (\<lambda>e. le_key e = key) (concat (map snd (drop i (leaves T))))"
    using filter_smaller [OF f(4)] by simp
  then have "bt_search key t = (Inr (sort (remdups (map le_tid (filter (\<lambda>e. le_key e = key) (entries T))))), t2)"
    using f(1) t2(1) by (simp add: bt_search_def sm_bind_def)
  then show ?thesis using bt_next_trans [OF f(3)] t2(2) bt_nextD [OF f(3)] by auto
qed

end
