(* ===== verification/Btree_Insert.thy ===== *)
theory Btree_Insert
  imports Btree_Search
begin

text \<open>
  Insertion into the B+tree: writing and splitting pages, propagating separators to the root.
  Shows that insertion keeps the pages a search tree and adds exactly the new entry, for keys of
  at most \<open>SAFE_KEY\<close> bytes; the code itself accepts longer ones, for which a page split by number of
  separators can fail half-way.
\<close>

section \<open>Page writes\<close>

definition typed_page :: "page_kind \<Rightarrow> bytes \<Rightarrow> bt_page option" where
  "typed_page kind body =
     (case kind of
        KindHEAP \<Rightarrow> None
      | KindBTREE_META \<Rightarrow> (case decode_meta body of Inl _ \<Rightarrow> None | Inr m \<Rightarrow> Some (PMeta m))
      | KindBTREE_INTERNAL \<Rightarrow> (case decode_internal body of Inl _ \<Rightarrow> None | Inr i \<Rightarrow> Some (PInternal i))
      | KindBTREE_LEAF \<Rightarrow> (case decode_leaf body of Inl _ \<Rightarrow> None | Inr l \<Rightarrow> Some (PLeaf l)))"

lemma typed_page_simps:
  "encode_leaf l = Inr body \<Longrightarrow> typed_page KindBTREE_LEAF body = Some (PLeaf l)"
  "encode_internal i = Inr body \<Longrightarrow> typed_page KindBTREE_INTERNAL body = Some (PInternal i)"
  "encode_meta m = Inr body \<Longrightarrow> typed_page KindBTREE_META body = Some (PMeta m)"
  by (simp_all add: typed_page_def decode_encode_leaf decode_encode_internal decode_encode_meta)

lemma body_sizes:
  "encode_leaf l = Inr body \<Longrightarrow> length body \<le> PAGE_BODY_SIZE"
  "encode_internal i = Inr body \<Longrightarrow> length body \<le> PAGE_BODY_SIZE"
  "encode_meta m = Inr body \<Longrightarrow> length body \<le> PAGE_BODY_SIZE"
  using encode_leaf_InrD [of l body] encode_internal_InrD [of i body] decode_encode_meta [of m body]
  by (auto simp: length_leaf_bytes length_internal_bytes internal_ok_def page_sizes)

lemma decode_bt_page_encoded:
  assumes "encode_page key kind 0 body = Inr p" and "valid_page_key key"
  shows "decode_bt_page key p = typed_page kind body"
  using encode_page_decode [OF assms] by (cases kind) (simp_all add: decode_bt_page_def typed_page_def)

lemma bt_write_page_ok:
  assumes r: "bt_ready t" and pg: "bt_pages_of t pid = Some pg" and body: "length body \<le> PAGE_BODY_SIZE"
  shows "\<exists>t'. bt_write_page pid kind body t = (Inr (), t') \<and> bt_next t ((bt_pages_of t)(pid := typed_page kind body)) (npages t) t'"
proof -
  let ?k = "PageKey (bt_relation t) pid"
  obtain q x where q: "pid < NO_PAGE" "bp_view (bt_pool t) ?k = Some q" "decode_page ?k q = Inr x" "dp_lsn x = 0"
    using pg by (rule bt_pages_of_SomeE)
  have v: "valid_page_key ?k" "mk_page_key (bt_relation t) pid = Inr ?k"
    using bt_key_valid q(1) r by (auto simp: bt_ready_def)
  obtain p where p: "encode_page ?k kind 0 body = Inr p" using encode_page_eq [OF v(1), of 0 body kind] body by auto
  obtain b' where b': "with_guard (fetch_page ?k) (\<lambda>g. replace_guard g kind 0 body) (bt_pool t) = (Inr (), b')"
    "pool_ready b'" "bp_view b' = (bp_view (bt_pool t))(?k \<mapsto> p)" "pool_frame (bt_pool t) b'"
    using with_page_write [OF _ v(1) q(2-4) p] r by (auto simp: bt_ready_def)
  have "bt_write_page pid kind body t = (Inr (), t\<lparr>bt_pool := b'\<rparr>)"
    using b'(1) v(2) by (simp add: bt_write_page_def sm_bind_def on_bt_pool_def)
  then show ?thesis
    using pool_frame_next [OF r b'(2,4)] bt_pages_of_upd [OF b'(3) q(1)] decode_bt_page_encoded [OF p v(1)] by auto
qed

lemma bt_write_leaf_ok:
  assumes "bt_ready t" and "bt_pages_of t pid = Some pg" and "encode_leaf l = Inr body"
  shows "\<exists>t'. bt_write_leaf pid l t = (Inr (), t') \<and> bt_next t ((bt_pages_of t)(pid \<mapsto> PLeaf l)) (npages t) t'"
  using bt_write_page_ok [OF assms(1,2) body_sizes(1) [OF assms(3)], of KindBTREE_LEAF] assms(3)
  by (auto simp: bt_write_leaf_def sm_bind_def typed_page_simps)

lemma bt_write_internal_ok:
  assumes "bt_ready t" and "bt_pages_of t pid = Some pg" and "encode_internal i = Inr body"
  shows "\<exists>t'. bt_write_internal pid i t = (Inr (), t') \<and> bt_next t ((bt_pages_of t)(pid \<mapsto> PInternal i)) (npages t) t'"
  using bt_write_page_ok [OF assms(1,2) body_sizes(2) [OF assms(3)], of KindBTREE_INTERNAL] assms(3)
  by (auto simp: bt_write_internal_def sm_bind_def typed_page_simps)

lemma bt_new_page_ok:
  assumes r: "bt_ready t" and room: "npages t < NO_PAGE" and body: "length body \<le> PAGE_BODY_SIZE"
  shows "\<exists>b'. new_page_with (bt_relation t) kind body (bt_pool t) = (Inr (npages t), b')
    \<and> bt_next t ((bt_pages_of t)(npages t := typed_page kind body)) (Suc (npages t)) (t\<lparr>bt_pool := b'\<rparr>)
    \<and> bt_pages_of t (npages t) = None"
proof -
  let ?k = "PageKey (bt_relation t) (npages t)"
  have o: "rel_object_id (bt_relation t) < 2 ^ 64" "disk_pages (bp_disk (bt_pool t)) (bt_relation t) < 2 ^ 64"
    using r room by (simp_all add: bt_ready_def bt_relation_def btree_relation_def npages_def NO_PAGE_def)
  obtain b' p where b': "new_page_with (bt_relation t) kind body (bt_pool t) = (Inr (npages t), b')" "pool_ready b'"
    "bp_view (bt_pool t) ?k = None" "encode_page ?k kind 0 body = Inr p" "bp_view b' = (bp_view (bt_pool t))(?k \<mapsto> p)"
    "disk_pages (bp_disk b') = (disk_pages (bp_disk (bt_pool t)))(bt_relation t := Suc (npages t))"
    using new_page_with_ready [OF _ o body, of kind] r by (auto simp: bt_ready_def npages_def)
  have v: "valid_page_key ?k" using bt_key_valid room r by (auto simp: bt_ready_def)
  have "bt_pages_of (t\<lparr>bt_pool := b'\<rparr>) = (bt_pages_of t)(npages t := typed_page kind body)"
    using bt_pages_of_upd [OF b'(5) room] decode_bt_page_encoded [OF b'(4) v] by simp
  moreover have "bt_pages_of t (npages t) = None" using b'(3) by (simp add: bt_pages_of_def)
  moreover have "npages (t\<lparr>bt_pool := b'\<rparr>) = Suc (npages t)" using b'(6) by (simp add: npages_def bt_relation_def)
  ultimately show ?thesis using b'(1,2) r by (auto simp: bt_next_def bt_ready_def)
qed

section \<open>Splits fit\<close>

definition SAFE_KEY :: nat where "SAFE_KEY = 275"

lemma prefix_reach:
  "\<forall>w \<in> set ws. w \<le> b \<Longrightarrow> a \<le> sum_list ws \<Longrightarrow> \<exists>s \<le> length ws. a \<le> sum_list (take s ws) \<and> sum_list (take s ws) \<le> a + b"
  for ws :: "nat list"
proof (induction ws arbitrary: a)
  case (Cons w ws)
  show ?case
  proof (cases "a \<le> w")
    case True
    then show ?thesis using Cons.prems by (intro exI [of _ 1]) auto
  next
    case False
    have "\<forall>w \<in> set ws. w \<le> b" "a - w \<le> sum_list ws" using Cons.prems by auto
    then obtain s where "s \<le> length ws" "a - w \<le> sum_list (take s ws)" "sum_list (take s ws) \<le> a - w + b"
      using Cons.IH [of "a - w"] by blast
    then show ?thesis using False by (intro exI [of _ "Suc s"]) auto
  qed
qed simp

lemma leaf_size_append: "leaf_body_size (as @ bs) + 24 = leaf_body_size as + leaf_body_size bs"
  by (simp add: leaf_body_size_def)

lemma leaf_split_position_ok:
  assumes "\<forall>e \<in> set es. length (le_key e) \<le> SAFE_KEY" and "PAGE_BODY_SIZE < leaf_body_size es"
    and "leaf_body_size es \<le> PAGE_BODY_SIZE + SAFE_KEY + 14"
  shows "\<exists>s. leaf_split_position es = Inr s \<and> 0 < s \<and> s < length es
    \<and> leaf_body_size (take s es) \<le> PAGE_BODY_SIZE \<and> leaf_body_size (drop s es) \<le> PAGE_BODY_SIZE"
proof -
  define w where "w = map (\<lambda>e. 2 + length (le_key e) + 12) es"
  have tot: "leaf_body_size es = 24 + sum_list w" by (simp add: leaf_body_size_def w_def)
  have "\<forall>x \<in> set w. x \<le> 289" using assms(1) by (auto simp: w_def SAFE_KEY_def)
  moreover have "289 \<le> sum_list w" using assms(2) tot by (simp add: page_sizes)
  ultimately obtain s where s: "s \<le> length w" "289 \<le> sum_list (take s w)" "sum_list (take s w) \<le> 578"
    using prefix_reach [of w 289 289] by auto
  have sz: "leaf_body_size (take s es) = 24 + sum_list (take s w)" "leaf_body_size (drop s es) = 24 + sum_list (drop s w)"
    by (simp_all add: leaf_body_size_def w_def take_map drop_map)
  have sp: "sum_list w = sum_list (take s w) + sum_list (drop s w)" by (metis append_take_drop_id sum_list_append)
  have s0: "0 < s" using s(2) by (cases s) auto
  have sl: "s < length es"
  proof (rule ccontr)
    assume "\<not> s < length es"
    then have "take s w = w" by (simp add: w_def)
    then show False using s(3) assms(2) tot by (simp add: page_sizes)
  qed
  have fits: "leaf_body_size (take s es) \<le> PAGE_BODY_SIZE" "leaf_body_size (drop s es) \<le> PAGE_BODY_SIZE"
    using sz s sp tot assms(3) by (auto simp: page_sizes SAFE_KEY_def)
  let ?good = "\<lambda>position. leaf_body_size (take position es) \<le> PAGE_BODY_SIZE \<and> leaf_body_size (drop position es) \<le> PAGE_BODY_SIZE"
  let ?pair = "\<lambda>position. let left_size = leaf_body_size (take position es); right_size = leaf_body_size (drop position es)
                 in ((left_size - right_size) + (right_size - left_size), position)"
  define cs where "cs = map ?pair (filter ?good [1..<length es])"
  have "s \<in> set (filter ?good [1..<length es])" using s0 sl fits by simp
  then have "filter ?good [1..<length es] \<noteq> []" by (metis list.set(1) empty_iff)
  then have ne: "cs \<noteq> []" by (simp add: cs_def)
  then have "Min (set cs) \<in> set cs" by simp
  then obtain p where p: "p \<in> set (filter ?good [1..<length es])" "Min (set cs) = ?pair p" by (auto simp: cs_def)
  have "leaf_split_position es = Inr p"
    using ne p(2) s0 sl by (simp add: leaf_split_position_def Let_def cs_def)
  then show ?thesis using p(1) by auto
qed

lemma sum_le_count: "\<forall>w \<in> set ws. w \<le> b \<Longrightarrow> sum_list ws \<le> b * length ws" for ws :: "nat list"
  by (induction ws) auto

lemma count_le_sum: "\<forall>w \<in> set ws. a \<le> w \<Longrightarrow> a * length ws \<le> sum_list ws" for ws :: "nat list"
  by (induction ws) auto

lemma internal_split_fits:
  assumes "\<forall>k \<in> set ks. length k \<le> SAFE_KEY" and "PAGE_BODY_SIZE < internal_body_size ks"
    and "internal_body_size ks \<le> PAGE_BODY_SIZE + SAFE_KEY + 10"
  defines "m \<equiv> length ks div 2"
  shows "m < length ks" and "internal_body_size (take m ks) \<le> PAGE_BODY_SIZE"
    and "internal_body_size (drop (m + 1) ks) \<le> PAGE_BODY_SIZE"
proof -
  define w where "w = map (\<lambda>k. 2 + length k + 8) ks"
  have tot: "internal_body_size ks = 16 + sum_list w" by (simp add: internal_body_size_def w_def)
  have hi: "\<forall>x \<in> set w. x \<le> 285" and lo: "\<forall>x \<in> set w. 10 \<le> x" using assms(1) by (auto simp: w_def SAFE_KEY_def)
  have ne: "ks \<noteq> []" using assms(2) by (auto simp: internal_body_size_def page_sizes)
  then show ml: "m < length ks" by (simp add: m_def)
  have lw: "length w = length ks" by (simp add: w_def)
  have parts: "sum_list w = sum_list (take m w) + sum_list (drop m w)" "sum_list w = sum_list (take (m + 1) w) + sum_list (drop (m + 1) w)"
    by (metis append_take_drop_id sum_list_append)+
  have b: "sum_list (take m w) \<le> 285 * m" "sum_list (drop (m + 1) w) \<le> 285 * (length w - (m + 1))"
    "10 * (length w - m) \<le> sum_list (drop m w)" "10 * (m + 1) \<le> sum_list (take (m + 1) w)"
    using sum_le_count [of "take m w" 285] sum_le_count [of "drop (m + 1) w" 285] count_le_sum [of "drop m w" 10] count_le_sum [of "take (m + 1) w" 10]
      hi lo ml lw by (auto dest: in_set_takeD in_set_dropD)
  have half: "m \<le> length w - m" "length w - (m + 1) \<le> m" using lw by (auto simp: m_def)
  have S: "sum_list w \<le> 8417" using tot assms(3) by (simp add: page_sizes SAFE_KEY_def)
  have "sum_list (take m w) \<le> 8132" using b(1,3) parts(1) half(1) S by linarith
  then show "internal_body_size (take m ks) \<le> PAGE_BODY_SIZE"
    by (simp add: internal_body_size_def w_def take_map page_sizes)
  have "sum_list (drop (m + 1) w) \<le> 285 * m" using b(2) half(2) by (meson le_trans mult_le_mono2)
  moreover have "r \<le> 8132" if "r \<le> 285 * m" "10 * (m + 1) \<le> l" "l + r \<le> 8417" for l r m :: nat
    using that by (cases "m \<le> 28") simp_all
  ultimately have "sum_list (drop (m + 1) w) \<le> 8132" using b(4) parts(2) S by metis
  then show "internal_body_size (drop (m + 1) ks) \<le> PAGE_BODY_SIZE"
    by (simp add: internal_body_size_def w_def drop_map page_sizes)
qed

lemma encode_internal_full:
  assumes ok: "internal_ok p" and big: "PAGE_BODY_SIZE < internal_body_size (ip_keys p)" and short: "\<forall>k \<in> set (ip_keys p). length k \<le> SAFE_KEY"
    and len: "length (ip_keys p) < 65536"
  shows "encode_internal p = Inl PageFull"
proof -
  obtain c cs where ch: "ip_children p = c # cs" and lc: "length cs = length (ip_keys p)"
    using ok by (cases "ip_children p") (auto simp: internal_ok_def)
  have kids: "res_mapM encode_child (zip (ip_keys p) cs) = Inr (map child_bytes (zip (ip_keys p) cs))"
  proof (rule res_mapM_Inr_map)
    fix kc assume "kc \<in> set (zip (ip_keys p) cs)"
    then have "(fst kc, snd kc) \<in> set (zip (ip_keys p) cs)" by simp
    then have "fst kc \<in> set (ip_keys p) \<and> snd kc \<in> set cs" using set_zip_leftD set_zip_rightD by metis
    then show "encode_child kc = Inr (child_bytes kc)"
      using ok short ch by (intro encode_child_small) (auto simp: internal_ok_def list_all_iff SAFE_KEY_def)
  qed
  have "fields_ok [(2, length (ip_keys p)), (2, 0), (8, c)]"
    using ok len ch NO_PAGE_less(1) [of c] by (simp add: internal_ok_def fields_ok_def)
  then show ?thesis
    using ok big ch lc kids length_internal_bytes [of p]
    by (simp add: encode_internal_def internal_ok_def out_of_order_iff check_page_id_def pack_fields_eq bounded_def internal_bytes_def
        del: pack_fields.simps)
qed

section \<open>Trees of short keys\<close>

fun seps :: "bnode \<Rightarrow> bytes list" where
  "seps (BLeaf p es) = []"
| "seps (BNode p ks ts) = ks @ concat (map seps ts)"

fun path_seps :: "frame_at_node list \<Rightarrow> bytes list" where
  "path_seps [] = []"
| "path_seps (f # fs) = fr_lks f @ fr_rks f @ concat (map seps (fr_lts f @ fr_rts f)) @ path_seps fs"

definition short :: "bytes list \<Rightarrow> bool" where
  "short ks \<longleftrightarrow> (\<forall>k \<in> set ks. length k \<le> SAFE_KEY)"

lemma short_append [simp]: "short (as @ bs) \<longleftrightarrow> short as \<and> short bs"
  by (auto simp: short_def)

lemma short_Cons [simp]: "short (k # ks) \<longleftrightarrow> length k \<le> SAFE_KEY \<and> short ks"
  by (auto simp: short_def)

lemma short_Nil [simp]: "short []"
  by (simp add: short_def)

lemma short_sub: "short ks \<Longrightarrow> set ks' \<subseteq> set ks \<Longrightarrow> short ks'"
  by (auto simp: short_def)

lemma short_fill: "short (seps (fill fs x)) \<longleftrightarrow> short (path_seps fs) \<and> short (seps x)"
  by (induction fs arbitrary: x) (auto simp: grow_def)

lemma height_hole: "height_is H (fill fs x) \<Longrightarrow> \<exists>h. H = h + length fs \<and> height_is h x"
proof (induction fs arbitrary: x)
  case (Cons f fs)
  then obtain h where "H = h + length fs" "height_is h (grow f [] [x])" by (metis fill.simps(2))
  then show ?case by (intro exI [of _ "h - 1"]) (auto simp: grow_def)
qed simp

lemma height_grow:
  assumes "height_is (Suc h) (grow f [] [x])" and "\<forall>t \<in> set ts. height_is h t" and "0 < h"
  shows "height_is (Suc h) (grow f ks ts)"
  using assms by (auto simp: grow_def list_all_iff)

lemma height_replace: "height_is (h + length fs) (fill fs x) \<Longrightarrow> height_is h y \<Longrightarrow> height_is (h + length fs) (fill fs y)"
proof (induction fs arbitrary: x y h)
  case (Cons f fs)
  have "height_is (Suc h + length fs) (fill fs (grow f [] [x]))" using Cons.prems(1) by simp
  moreover from height_hole [OF this] have "height_is (Suc h) (grow f [] [x])" by auto
  then have "height_is (Suc h) (grow f [] [y])"
    using height_grow [of h f x "[y]" "[]"] Cons.prems(2) height_pos by auto
  ultimately show ?case using Cons.IH [of "Suc h"] by simp
qed simp

text \<open>The subtree below a path is ordered within bounds that admit the key of the path.\<close>

lemma path_hole:
  assumes "\<forall>f \<in> set fs. key_frame key f" and "ordered lo hi (fill fs x)" and "within lo hi key"
  shows "\<exists>lo' hi'. ordered lo' hi' x \<and> within lo' hi' key"
proof (rule ccontr)
  assume "\<nexists>lo' hi'. ordered lo' hi' x \<and> within lo' hi' key"
  then have "ordered lo hi (fill fs (BNode 0 [] []))"
    by (intro fill_replace [OF assms(1) _ assms(2,3)]) blast
  then have "\<exists>lo' hi'. ordered lo' hi' (BNode 0 [] [])" using path_bounds [OF assms(1)] by blast
  then show False by simp
qed

section \<open>The stored tree\<close>

text \<open>What a tree object and its pages satisfy apart from the contents of the leaves.\<close>

definition tree_at :: "btree \<Rightarrow> bnode \<Rightarrow> bool" where
  "tree_at t T \<longleftrightarrow> bt_ready t \<and> bt_root t = nid T \<and> height_is (bt_height t) T
     \<and> stored (bt_pages_of t) T \<and> chain (bt_pages_of t) None (leaves T) None
     \<and> distinct (ids T) \<and> (\<forall>p \<in> set (ids T). 0 < p \<and> p < npages t)
     \<and> ordered None None T \<and> short (seps T)
     \<and> bt_pages_of t 0 = Some (PMeta \<lparr>mp_root_page_id = bt_root t, mp_height = bt_height t\<rparr>)"

lemma within_None [simp]: "within None None key"
  by (simp add: within_def above_def below_def)

text \<open>
  The state while a split propagates: below the path, the node that was there has been replaced
  by two, the first under its old number, and the separator between them is still to be
  inserted above.
\<close>

definition split_state :: "btree \<Rightarrow> frame_at_node list \<Rightarrow> bnode \<Rightarrow> bnode \<Rightarrow> bytes \<Rightarrow> bnode \<Rightarrow> bytes \<Rightarrow> nat \<Rightarrow> bool" where
  "split_state t fs x L sep R key h \<longleftrightarrow>
     bt_ready t \<and> bt_root t = nid (fill fs x) \<and> nid L = nid x \<and> height_is (bt_height t) (fill fs x)
     \<and> height_is h x \<and> height_is h L \<and> height_is h R
     \<and> stored_path (bt_pages_of t) fs (nid L) \<and> stored (bt_pages_of t) L \<and> stored (bt_pages_of t) R
     \<and> chain (bt_pages_of t) None (lv fs @ leaves L @ leaves R @ rv fs) None
     \<and> distinct (cids fs @ ids L @ ids R) \<and> (\<forall>p \<in> set (cids fs @ ids L @ ids R). 0 < p \<and> p < npages t)
     \<and> (\<forall>f \<in> set fs. key_frame key f) \<and> ordered None None (fill fs x)
     \<and> (\<forall>lo hi. ordered lo hi x \<longrightarrow> within lo hi key \<longrightarrow> kids_ordered lo hi [sep] [L, R])
     \<and> short (path_seps fs @ seps L @ seps R @ [sep]) 
     \<and> bt_pages_of t 0 = Some (PMeta \<lparr>mp_root_page_id = bt_root t, mp_height = bt_height t\<rparr>)"

lemma bt_write_meta_ok:
  assumes "bt_ready t" and "bt_pages_of t 0 = Some pg" and "bt_root t < NO_PAGE" and "0 < bt_height t" and "bt_height t \<le> 65535"
  shows "\<exists>t'. bt_write_meta t = (Inr (), t')
    \<and> bt_next t ((bt_pages_of t)(0 \<mapsto> PMeta \<lparr>mp_root_page_id = bt_root t, mp_height = bt_height t\<rparr>)) (npages t) t'"
proof -
  let ?m = "\<lparr>mp_root_page_id = bt_root t, mp_height = bt_height t\<rparr>"
  obtain body where e: "encode_meta ?m = Inr body"
    using assms(3-5) NO_PAGE_less(1) [OF assms(3)]
    by (simp add: encode_meta_def check_page_id_def pack_fields_eq fields_ok_def del: pack_fields.simps)
  show ?thesis
    using bt_write_page_ok [OF assms(1,2) body_sizes(3) [OF e], of KindBTREE_META] typed_page_simps(3) [OF e] e
    by (auto simp: bt_write_meta_def sm_bind_def)
qed

lemma bt_meta_upd:
  "bt_pages_of (t\<lparr>bt_root := r, bt_height := h\<rparr>) = bt_pages_of t" "npages (t\<lparr>bt_root := r, bt_height := h\<rparr>) = npages t"
  "bt_ready (t\<lparr>bt_root := r, bt_height := h\<rparr>) = bt_ready t"
proof -
  have r: "bt_relation (t\<lparr>bt_root := r, bt_height := h\<rparr>) = bt_relation t" by (simp add: bt_relation_def)
  show "bt_pages_of (t\<lparr>bt_root := r, bt_height := h\<rparr>) = bt_pages_of t"
    unfolding bt_pages_of_def [abs_def] r by (simp cong: if_cong)
  show "npages (t\<lparr>bt_root := r, bt_height := h\<rparr>) = npages t" unfolding npages_def r by simp
  show "bt_ready (t\<lparr>bt_root := r, bt_height := h\<rparr>) = bt_ready t" by (simp add: bt_ready_def)
qed

lemma chain_cong_on: "chain P l ls r \<Longrightarrow> fst ` set ls \<subseteq> A \<Longrightarrow> (\<And>p. p \<in> A \<Longrightarrow> P' p = P p) \<Longrightarrow> chain P' l ls r"
  by (erule chain_cong) blast

lemma height_unique: "height_is a T \<Longrightarrow> height_is b T \<Longrightarrow> kids_ordered lo hi [] [T] \<Longrightarrow> a = b"
proof (induction T arbitrary: a b lo hi)
  case (BNode p ks ts)
  have "length ts = length ks + 1" using BNode.prems(3) kids_ordered_length by simp
  then obtain t ts' where ts: "ts = t # ts'" by (cases ts) auto
  obtain lo' hi' where "ordered lo' hi' t" using BNode.prems(3) ts by (cases ks; cases ts') auto
  then have "a - 1 = b - 1" using BNode.IH [of t "a - 1" "b - 1" lo' hi'] BNode.prems(1,2) ts by simp
  then show ?case using BNode.prems(1,2) by simp
qed simp

text \<open>A split of the root: a new root above the two halves.\<close>

lemma propagate_root:
  assumes s: "split_state t [] x L sep R key h" and room: "npages t + 1 < NO_PAGE" "bt_height t < 65535"
  shows "\<exists>t' T'. propagate_split [] (nid L) sep (nid R) t = (Inr (), t') \<and> tree_at t' T' \<and> leaves T' = leaves L @ leaves R
    \<and> bt_index_id t' = bt_index_id t"
proof -
  note d = s [unfolded split_state_def, simplified]
  let ?n = "npages t"
  let ?i = "\<lparr>ip_keys = [sep], ip_children = [nid L, nid R]\<rparr>"
  let ?T = "BNode ?n [sep] [L, R]"
  have lt: "nid L < ?n" "nid R < ?n" "0 < nid L" "0 < nid R" using d nid_in_ids by blast+
  have "internal_ok ?i" using lt room by (simp add: internal_ok_def)
  moreover have "internal_body_size (ip_keys ?i) \<le> PAGE_BODY_SIZE"
    using d by (simp add: internal_body_size_def page_sizes SAFE_KEY_def)
  ultimately obtain body where e: "encode_internal ?i = Inr body" using encode_internal_fits by blast
  obtain b1 where b1: "new_page_with (bt_relation t) KindBTREE_INTERNAL body (bt_pool t) = (Inr ?n, b1)"
    "bt_next t ((bt_pages_of t)(?n := typed_page KindBTREE_INTERNAL body)) (Suc ?n) (t\<lparr>bt_pool := b1\<rparr>)"
    using bt_new_page_ok [of t body KindBTREE_INTERNAL] d room body_sizes(2) [OF e] by auto
  define t1 where "t1 = t\<lparr>bt_pool := b1\<rparr>"
  note n1 = bt_nextD [OF b1(2) [folded t1_def]]
  define t2 where "t2 = t1\<lparr>bt_root := ?n, bt_height := bt_height t + 1\<rparr>"
  have same: "bt_pages_of t2 = bt_pages_of t1" "npages t2 = npages t1" "bt_ready t2 = bt_ready t1"
    by (simp_all add: t2_def bt_meta_upd)
  obtain m where m: "bt_pages_of t 0 = Some (PMeta m)" using d by blast
  have P1: "bt_pages_of t1 = (bt_pages_of t)(?n \<mapsto> PInternal ?i)" using n1(2) typed_page_simps(2) [OF e] by simp
  have n0: "?n \<noteq> 0" using lt by simp
  obtain t3 where t3: "bt_write_meta t2 = (Inr (), t3)"
    "bt_next t2 ((bt_pages_of t2)(0 \<mapsto> PMeta \<lparr>mp_root_page_id = bt_root t2, mp_height = bt_height t2\<rparr>)) (npages t2) t3"
    using bt_write_meta_ok [of t2 "PMeta m"] same n1 P1 m n0 room by (auto simp: t2_def)
  note n3 = bt_nextD [OF t3(2)]
  have run: "propagate_split [] (nid L) sep (nid R) t = (Inr (), t3)"
    using e b1(1) t3(1) n1(6)
    by (simp add: propagate_split.simps sm_bind_def bt_allocate_page_def on_bt_pool_def t1_def t2_def)
  have P3: "bt_pages_of t3 = (bt_pages_of t)(?n \<mapsto> PInternal ?i, 0 \<mapsto> PMeta \<lparr>mp_root_page_id = ?n, mp_height = bt_height t + 1\<rparr>)"
    using n3(2) same P1 by (simp add: t2_def)
  have agree: "bt_pages_of t3 p = bt_pages_of t p" if "p \<in> set (ids L @ ids R)" for p
    using that d P3 by auto
  have "tree_at t3 ?T"
    unfolding tree_at_def
  proof (intro conjI)
    show "bt_ready t3" by (rule n3(1))
    show "bt_root t3 = nid ?T" using n3(5) by (simp add: t2_def)
    have "bt_height t = h" using height_unique [of "bt_height t" x h None None] d by simp
    then show "height_is (bt_height t3) ?T" using n3(6) d height_pos by (auto simp: t2_def)
    have "stored (bt_pages_of t3) L" "stored (bt_pages_of t3) R"
      using d agree by (auto intro!: stored_cong [of "bt_pages_of t"])
    then show "stored (bt_pages_of t3) ?T" using P3 n0 by simp
    have ch: "chain (bt_pages_of t) None (leaves L @ leaves R) None" using d by simp
    have "fst ` set (leaves L @ leaves R) \<subseteq> set (ids L @ ids R)" using ids_leaves [of L] ids_leaves [of R] by auto
    from chain_cong_on [OF ch this agree] show "chain (bt_pages_of t3) None (leaves ?T) None" by simp
    show "distinct (ids ?T)" using d by auto
    have nn: "npages t3 = Suc ?n" using n3(3) same(2) n1(3) by simp
    have old: "\<forall>p \<in> set (ids L) \<union> set (ids R). 0 < p \<and> p < ?n" using d by blast
    show "\<forall>p \<in> set (ids ?T). 0 < p \<and> p < npages t3" unfolding nn using old n0 by (auto intro: less_SucI)
    have "within None None key" "ordered None None x" using d by simp_all
    then have "ordered None (Some sep) L \<and> ordered (Some sep) None R" using d by blast
    then show "ordered None None ?T" by simp
    show "short (seps ?T)" using d by simp
    show "bt_pages_of t3 0 = Some (PMeta \<lparr>mp_root_page_id = bt_root t3, mp_height = bt_height t3\<rparr>)"
      using P3 n3(5,6) by (simp add: t2_def)
  qed
  moreover have "bt_index_id t3 = bt_index_id t" using n3(4) n1(4) by (simp add: t2_def)
  ultimately show ?thesis using run by (intro exI [of _ t3] exI [of _ ?T]) simp
qed

text \<open>
  One level up: the separators \<open>K\<close> and children \<open>C\<close> the parent gets, and the facts of the state about them.
\<close>

lemma split_joined:
  assumes s: "split_state t (f # fs) x L sep R key h"
  defines "K \<equiv> fr_lks f @ [sep] @ fr_rks f" and "C \<equiv> fr_lts f @ [L, R] @ fr_rts f"
  shows "mset (fr_id f # concat (map ids C) @ cids fs) = mset (cids (f # fs) @ ids L @ ids R)"
    "list_all (stored (bt_pages_of t)) C" "height_is (Suc h) (BNode p ks C)"
    "\<And>lo hi. ordered lo hi (grow f [] [x]) \<Longrightarrow> within lo hi key \<Longrightarrow> kids_ordered lo hi K C"
    "\<exists>lo hi. kids_ordered lo hi K C" "bt_height t = Suc h + length fs" "height_is (Suc h) (grow f [] [x])"
proof -
  note d = s [unfolded split_state_def]
  show "mset (fr_id f # concat (map ids C) @ cids fs) = mset (cids (f # fs) @ ids L @ ids R)" by (simp add: C_def)
  show "list_all (stored (bt_pages_of t)) C" using d by (simp add: C_def)
  have kf: "key_frame key f" using d by simp
  obtain h' where h': "bt_height t = h' + length (f # fs)" "height_is h' x" using height_hole [of "bt_height t" "f # fs" x] d by blast
  obtain lo hi where x: "ordered lo hi x" using path_bounds [of "f # fs" key None None x] d by auto
  have hh: "h' = h" using height_unique [of h' x h lo hi] h'(2) d x by simp
  then show "bt_height t = Suc h + length fs" using h'(1) by simp
  have "height_is (Suc h + length fs) (fill fs (grow f [] [x]))" using d h'(1) hh by simp
  from height_hole [OF this] show g: "height_is (Suc h) (grow f [] [x])" by auto
  then show "height_is (Suc h) (BNode p ks C)" using d by (auto simp: grow_def C_def list_all_iff)
  show ko: "kids_ordered lo hi K C" if "ordered lo hi (grow f [] [x])" "within lo hi key" for lo hi
    using grow_replace [of key f x "[sep]" "[L, R]" lo hi] kf d that by (auto simp: grow_def K_def C_def)
  have "ordered None None (fill fs (grow f [] [x]))" "\<forall>f \<in> set fs. key_frame key f" using d by auto
  then obtain lo hi where "ordered lo hi (grow f [] [x])" "within lo hi key" using path_hole [of fs key None None "grow f [] [x]"] by auto
  then show "\<exists>lo hi. kids_ordered lo hi K C" using ko by blast
qed

lemma split_joined_page:
  assumes s: "split_state t (f # fs) x L sep R key h" and room: "npages t < NO_PAGE"
  defines "K \<equiv> fr_lks f @ [sep] @ fr_rks f" and "C \<equiv> fr_lts f @ [L, R] @ fr_rts f"
  shows "internal_ok \<lparr>ip_keys = K, ip_children = map nid C\<rparr>" "internal_body_size K \<le> PAGE_BODY_SIZE + SAFE_KEY + 10"
    "length K < 65536" "short K" "length C = length K + 1"
proof -
  note d = s [unfolded split_state_def]
  obtain lo hi where ko: "kids_ordered lo hi K C" using split_joined(5) [OF s] by (auto simp: K_def C_def)
  show len: "length C = length K + 1" by (rule kids_ordered_length [OF ko])
  have "c < NO_PAGE" if "c \<in> set (map nid C)" for c
  proof -
    have "c \<in> nid ` set C" using that by simp
    then obtain y where "y \<in> set C" "c = nid y" by blast
    then have "c \<in> set (fr_id f # concat (map ids C) @ cids fs)" by (auto intro: bexI [of _ y])
    then have "c \<in> set (cids (f # fs) @ ids L @ ids R)" using split_joined(1) [OF s] unfolding C_def by (metis mset_eq_setD)
    then have "c < npages t" using d by blast
    then show ?thesis using room by simp
  qed
  then show "internal_ok \<lparr>ip_keys = K, ip_children = map nid C\<rparr>"
    using kids_sorted_keys [OF ko] len by (simp add: internal_ok_def list_all_iff)
  have "bt_pages_of t (fr_id f) = Some (PInternal \<lparr>ip_keys = fr_lks f @ fr_rks f, ip_children = map nid (fr_lts f) @ nid L # map nid (fr_rts f)\<rparr>)"
    using d by simp
  from bt_pages_internal_ok [OF this] have old: "internal_body_size (fr_lks f @ fr_rks f) \<le> PAGE_BODY_SIZE" by simp
  have sep: "length sep \<le> SAFE_KEY" using d by simp
  show sz: "internal_body_size K \<le> PAGE_BODY_SIZE + SAFE_KEY + 10"
    using old sep by (simp add: internal_body_size_def K_def)
  have "length K \<le> sum_list (map (\<lambda>k. 2 + length k + 8) K)" using length_le_sum [of "\<lambda>k. 2 + length k + 8" K] by simp
  then show "length K < 65536" using sz by (simp add: internal_body_size_def page_sizes SAFE_KEY_def)
  show "short K" using d by (simp add: K_def)
qed

lemma kids_leaves_ids: "fst ` set (concat (map leaves ts)) \<subseteq> set (concat (map ids ts))"
proof (induction ts)
  case (Cons t ts)
  then show ?case using ids_leaves [of t] by (simp add: image_Un) blast
qed simp

lemma nid_fill: "nid x = nid y \<Longrightarrow> nid (fill fs x) = nid (fill fs y)"
  by (induction fs arbitrary: x y) auto

text \<open>The parent has room: the new separator goes there.\<close>

lemma propagate_fits:
  assumes s: "split_state t (f # fs) x L sep R key h"
    and nx: "bt_next t ((bt_pages_of t)(fr_id f \<mapsto> PInternal \<lparr>ip_keys = fr_lks f @ [sep] @ fr_rks f, ip_children = map nid (fr_lts f @ [L, R] @ fr_rts f)\<rparr>))
          (npages t) t'"
  shows "tree_at t' (fill fs (grow f [sep] [L, R]))"
proof -
  note d = s [unfolded split_state_def]
  note n = bt_nextD [OF nx]
  note j = split_joined [OF s]
  let ?C = "fr_lts f @ [L, R] @ fr_rts f"
  let ?N = "grow f [sep] [L, R]"
  have ms: "mset (ids (fill fs ?N)) = mset (cids (f # fs) @ ids L @ ids R)"
    using j(1) by (simp add: mset_ids_fill grow_def)
  have dist: "distinct (cids (f # fs) @ ids L @ ids R)" using d by blast
  have pos: "\<forall>p \<in> set (cids (f # fs) @ ids L @ ids R). 0 < p \<and> p < npages t" using d by blast
  have dj: "distinct (fr_id f # concat (map ids ?C) @ cids fs)" using mset_eq_imp_distinct_iff [OF j(1)] dist by simp
  have agree: "bt_pages_of t' p = bt_pages_of t p" if "p \<noteq> fr_id f" for p using n(2) that by simp
  have kids: "list_all (stored (bt_pages_of t')) ?C"
    unfolding list_all_iff
  proof
    fix c assume c: "c \<in> set ?C"
    have "fr_id f \<notin> set (ids c)" using dj c by auto
    moreover have "stored (bt_pages_of t) c" using j(2) c unfolding list_all_iff by blast
    ultimately show "stored (bt_pages_of t') c" using stored_cong [of "bt_pages_of t" c "bt_pages_of t'"] agree by metis
  qed
  have "f0 \<noteq> fr_id f" if "f0 \<in> set (cids fs)" for f0 using dj that by auto
  then have path: "stored_path (bt_pages_of t') fs (fr_id f)"
    using stored_path_cong [of "bt_pages_of t" fs "fr_id f" "bt_pages_of t'"] d agree by auto
  have lvs: "fst ` set (lv fs @ concat (map leaves ?C) @ rv fs) \<subseteq> set (concat (map ids ?C) @ cids fs)"
    using lv_ids [of fs] kids_leaves_ids [of ?C] unfolding set_append image_Un set_map by blast
  have ch: "chain (bt_pages_of t) None (lv fs @ concat (map leaves ?C) @ rv fs) None" using d by simp
  show ?thesis
    unfolding tree_at_def
  proof (intro conjI)
    show "bt_ready t'" by (rule n(1))
    show "bt_root t' = nid (fill fs ?N)" using n(5) d nid_fill [of ?N "grow f [] [x]" fs] by simp
    have "height_is (Suc h) ?N" using j(3) by (simp add: grow_def)
    then show "height_is (bt_height t') (fill fs ?N)"
      using height_replace [of "Suc h" fs "grow f [] [x]" ?N] d j(6) n(6) by simp
    show "stored (bt_pages_of t') (fill fs ?N)" using path kids n(2) by (simp add: stored_fill grow_def)
    show "chain (bt_pages_of t') None (leaves (fill fs ?N)) None"
    proof -
      have "bt_pages_of t' p = bt_pages_of t p" if "p \<in> set (concat (map ids ?C) @ cids fs)" for p
        using agree [of p] dj that by auto
      from chain_cong_on [OF ch lvs this] show ?thesis by (simp add: leaves_fill grow_def)
    qed
    show "distinct (ids (fill fs ?N))" using mset_eq_imp_distinct_iff [OF ms] dist by simp
    show "\<forall>p \<in> set (ids (fill fs ?N)). 0 < p \<and> p < npages t'" using mset_eq_setD [OF ms] pos n(3) by simp
    show "ordered None None (fill fs ?N)"
      using fill_replace [of fs key "grow f [] [x]" ?N None None] j(4) d by (auto simp: grow_def)
    show "short (seps (fill fs ?N))" using d by (simp add: short_fill grow_def)
    show "bt_pages_of t' 0 = Some (PMeta \<lparr>mp_root_page_id = bt_root t', mp_height = bt_height t'\<rparr>)"
      using d n pos by auto
  qed
qed

text \<open>The parent is full: it splits, and the state is the same one level up.\<close>

lemma concat_take_drop: "concat (map g (take n xs)) @ concat (map g (drop n xs)) = concat (map g xs)"
  by (metis append_take_drop_id concat_append map_append)

lemma list_all_take_drop: "list_all P xs \<Longrightarrow> list_all P (take n xs) \<and> list_all P (drop n xs)"
  by (auto simp: list_all_iff dest: in_set_takeD in_set_dropD)

lemma split_cut:
  assumes "length C = length K + 1" and "m < length K"
  shows "kids_ordered lo hi K C \<longleftrightarrow> kids_ordered lo (Some (K ! m)) (take m K) (take (m + 1) C) \<and> kids_ordered (Some (K ! m)) hi (drop (m + 1) K) (drop (m + 1) C)"
proof -
  have "K = take m K @ K ! m # drop (m + 1) K" using assms(2) by (simp add: id_take_nth_drop)
  moreover have "C = take (m + 1) C @ drop (m + 1) C" by simp
  ultimately show ?thesis
    using kids_ordered_append [of "take (m + 1) C" "take m K" lo hi "K ! m" "drop (m + 1) K" "drop (m + 1) C"] assms by simp
qed

lemma propagate_splits:
  assumes s: "split_state t (f # fs) x L sep R key h" and room: "npages t < NO_PAGE"
  defines "K \<equiv> fr_lks f @ [sep] @ fr_rks f" and "C \<equiv> fr_lts f @ [L, R] @ fr_rts f"
  assumes m: "m < length K"
    and nx: "bt_next t ((bt_pages_of t)(npages t \<mapsto> PInternal \<lparr>ip_keys = drop (m + 1) K, ip_children = map nid (drop (m + 1) C)\<rparr>,
        fr_id f \<mapsto> PInternal \<lparr>ip_keys = take m K, ip_children = map nid (take (m + 1) C)\<rparr>)) (Suc (npages t)) t'"
  shows "split_state t' fs (grow f [] [x]) (BNode (fr_id f) (take m K) (take (m + 1) C)) (K ! m)
    (BNode (npages t) (drop (m + 1) K) (drop (m + 1) C)) key (Suc h)"
proof -
  note d = s [unfolded split_state_def]
  note n = bt_nextD [OF nx]
  note j = split_joined [OF s, folded K_def C_def]
  note len = split_joined_page(5) [OF s room, folded K_def C_def]
  let ?L = "BNode (fr_id f) (take m K) (take (m + 1) C)"
  let ?R = "BNode (npages t) (drop (m + 1) K) (drop (m + 1) C)"
  have dist: "distinct (cids (f # fs) @ ids L @ ids R)" using d by blast
  have pos: "\<forall>p \<in> set (cids (f # fs) @ ids L @ ids R). 0 < p \<and> p < npages t" using d by blast
  have dj: "distinct (fr_id f # concat (map ids C) @ cids fs)" using mset_eq_imp_distinct_iff [OF j(1)] dist by simp
  have pj: "\<forall>p \<in> set (fr_id f # concat (map ids C) @ cids fs). 0 < p \<and> p < npages t" using mset_eq_setD [OF j(1)] pos by simp
  have agree: "bt_pages_of t' p = bt_pages_of t p" if "p \<in> set (concat (map ids C) @ cids fs)" for p
  proof -
    have "p \<noteq> fr_id f" "p \<noteq> npages t" using dj pj that by auto
    then show ?thesis using n(2) by simp
  qed
  have fn: "fr_id f \<noteq> npages t" "0 < npages t" using pj by auto
  have kids: "list_all (stored (bt_pages_of t')) C"
    unfolding list_all_iff
  proof
    fix c assume c: "c \<in> set C"
    have "stored (bt_pages_of t) c" using j(2) c unfolding list_all_iff by blast
    moreover have "bt_pages_of t' p = bt_pages_of t p" if "p \<in> set (ids c)" for p using agree [of p] c that by auto
    ultimately show "stored (bt_pages_of t') c" using stored_cong [of "bt_pages_of t" c "bt_pages_of t'"] by metis
  qed
  have ms: "mset (cids fs @ ids ?L @ ids ?R) = mset (npages t # fr_id f # concat (map ids C) @ cids fs)"
    unfolding concat_take_drop [of ids "m + 1" C, symmetric] by simp
  have lvs: "fst ` set (lv fs @ concat (map leaves C) @ rv fs) \<subseteq> set (concat (map ids C) @ cids fs)"
    using lv_ids [of fs] kids_leaves_ids [of C] unfolding set_append image_Un set_map by blast
  have ch: "chain (bt_pages_of t) None (lv fs @ concat (map leaves C) @ rv fs) None" using d by (simp add: C_def)
  have lr: "leaves ?L @ leaves ?R = concat (map leaves C)" by (simp add: concat_take_drop)
  have hs: "height_is (Suc h) (BNode p ks C)" for p ks using j(3) .
  have sh: "short (path_seps fs @ K @ concat (map seps C))" using d by (simp add: K_def C_def)
  show ?thesis
    unfolding split_state_def
  proof (intro conjI)
    show "bt_ready t'" by (rule n(1))
    show "bt_root t' = nid (fill fs (grow f [] [x]))" using n(5) d by simp
    show "nid ?L = nid (grow f [] [x])" by simp
    show "height_is (bt_height t') (fill fs (grow f [] [x]))" using n(6) d by simp
    show "height_is (Suc h) (grow f [] [x])" by (rule j(7))
    show "height_is (Suc h) ?L" "height_is (Suc h) ?R"
      using hs [of 0 K] list_all_take_drop [of "height_is h" C "m + 1"] by simp_all
    show "stored_path (bt_pages_of t') fs (nid ?L)"
      using stored_path_cong [of "bt_pages_of t" fs "fr_id f" "bt_pages_of t'"] d agree by simp
    show "stored (bt_pages_of t') ?L" "stored (bt_pages_of t') ?R"
      using n(2) fn list_all_take_drop [OF kids, of "m + 1"] by simp_all
    show "chain (bt_pages_of t') None (lv fs @ leaves ?L @ leaves ?R @ rv fs) None"
      using chain_cong_on [OF ch lvs agree] lr by (metis append_assoc)
    show "distinct (cids fs @ ids ?L @ ids ?R)" using mset_eq_imp_distinct_iff [OF ms] dj pj by auto
    have nn: "npages t' = Suc (npages t)" by (rule n(3))
    show "\<forall>p \<in> set (cids fs @ ids ?L @ ids ?R). 0 < p \<and> p < npages t'"
      unfolding nn mset_eq_setD [OF ms] using pj fn(2) by (auto intro: less_SucI)
    show "\<forall>f \<in> set fs. key_frame key f" using d by simp
    show "ordered None None (fill fs (grow f [] [x]))" using d by simp
    show "\<forall>lo hi. ordered lo hi (grow f [] [x]) \<longrightarrow> within lo hi key \<longrightarrow> kids_ordered lo hi [K ! m] [?L, ?R]"
      using j(4) split_cut [OF len m] by simp
    have "short (take m K) \<and> short (drop (m + 1) K) \<and> length (K ! m) \<le> SAFE_KEY"
      using sh m by (auto simp: short_def dest: in_set_takeD in_set_dropD)
    moreover have "short (concat (map seps (take (m + 1) C)) @ concat (map seps (drop (m + 1) C)))"
      unfolding concat_take_drop using sh by simp
    ultimately show "short (path_seps fs @ seps ?L @ seps ?R @ [K ! m])" using sh by simp
    show "bt_pages_of t' 0 = Some (PMeta \<lparr>mp_root_page_id = bt_root t', mp_height = bt_height t'\<rparr>)"
      using d n pj by auto
  qed
qed

text \<open>Splitting an internal page of the tree.\<close>

lemma split_internal_ok:
  assumes r: "bt_ready t" and pg: "bt_pages_of t pid = Some pg" and room: "npages t < NO_PAGE" and old: "pid < npages t"
    and ok: "internal_ok \<lparr>ip_keys = K, ip_children = C\<rparr>" and sh: "short K"
    and big: "PAGE_BODY_SIZE < internal_body_size K" "internal_body_size K \<le> PAGE_BODY_SIZE + SAFE_KEY + 10"
  defines "m \<equiv> length K div 2"
  shows "m < length K" "\<exists>t'. split_internal pid \<lparr>ip_keys = K, ip_children = C\<rparr> t = (Inr (K ! m, npages t), t')
    \<and> bt_next t ((bt_pages_of t)(npages t \<mapsto> PInternal \<lparr>ip_keys = drop (m + 1) K, ip_children = drop (m + 1) C\<rparr>,
        pid \<mapsto> PInternal \<lparr>ip_keys = take m K, ip_children = take (m + 1) C\<rparr>)) (Suc (npages t)) t'"
proof -
  have sk: "\<forall>k \<in> set K. length k \<le> SAFE_KEY" using sh by (simp add: short_def)
  note fits = internal_split_fits [OF sk big, folded m_def]
  show ml: "m < length K" by (rule fits(1))
  let ?l = "\<lparr>ip_keys = take m K, ip_children = take (m + 1) C\<rparr>"
  let ?r = "\<lparr>ip_keys = drop (m + 1) K, ip_children = drop (m + 1) C\<rparr>"
  have ok': "internal_ok ?l" "internal_ok ?r"
    using ok ml list_all_take_drop [of "\<lambda>c. c < NO_PAGE" C "m + 1"] by (simp_all add: internal_ok_def sorted_wrt_take sorted_wrt_drop)
  obtain lb rb where e: "encode_internal ?l = Inr lb" "encode_internal ?r = Inr rb"
    using encode_internal_fits [OF ok'(1)] encode_internal_fits [OF ok'(2)] fits by simp
  obtain b1 where b1: "new_page_with (bt_relation t) KindBTREE_INTERNAL rb (bt_pool t) = (Inr (npages t), b1)"
    "bt_next t ((bt_pages_of t)(npages t := typed_page KindBTREE_INTERNAL rb)) (Suc (npages t)) (t\<lparr>bt_pool := b1\<rparr>)"
    using bt_new_page_ok [OF r room body_sizes(2) [OF e(2)], of KindBTREE_INTERNAL] by blast
  define t1 where "t1 = t\<lparr>bt_pool := b1\<rparr>"
  note n1 = bt_nextD [OF b1(2) [folded t1_def]]
  have P1: "bt_pages_of t1 = (bt_pages_of t)(npages t \<mapsto> PInternal ?r)" using n1(2) typed_page_simps(2) [OF e(2)] by simp
  have "bt_pages_of t1 pid = Some pg" using P1 pg old by simp
  then obtain t2 where t2: "bt_write_internal pid ?l t1 = (Inr (), t2)" "bt_next t1 ((bt_pages_of t1)(pid \<mapsto> PInternal ?l)) (npages t1) t2"
    using bt_write_internal_ok [OF n1(1) _ e(1)] by blast
  have "split_internal pid \<lparr>ip_keys = K, ip_children = C\<rparr> t = (Inr (K ! m, npages t), t2)"
    using e b1(1) t2(1) ml
    by (simp add: split_internal_def Let_def m_def [symmetric] sm_bind_def list_at_def bt_allocate_page_def on_bt_pool_def t1_def)
  moreover have "bt_next t ((bt_pages_of t)(npages t \<mapsto> PInternal ?r, pid \<mapsto> PInternal ?l)) (Suc (npages t)) t2"
    using bt_next_trans [OF b1(2) [folded t1_def] t2(2)] P1 n1(3) by simp
  ultimately show "\<exists>t'. split_internal pid \<lparr>ip_keys = K, ip_children = C\<rparr> t = (Inr (K ! m, npages t), t')
    \<and> bt_next t ((bt_pages_of t)(npages t \<mapsto> PInternal ?r, pid \<mapsto> PInternal ?l)) (Suc (npages t)) t'" by blast
qed

definition bt_path_of :: "frame_at_node list \<Rightarrow> bt_path" where
  "bt_path_of fs = rev (map (\<lambda>f. (fr_id f, length (fr_lts f))) fs)"

lemma bt_path_of_Cons [simp]: "bt_path_of [] = []" "bt_path_of (f # fs) = bt_path_of fs @ [(fr_id f, length (fr_lts f))]"
  by (simp_all add: bt_path_of_def)

text \<open>What the insertion of a separator leaves: a stored tree with the same leaves.\<close>

lemma split_state_next:
  assumes "split_state t fs x L sep R key h" and "bt_next t (bt_pages_of t) (npages t) t'"
  shows "split_state t' fs x L sep R key h"
  using assms(1) bt_nextD(1) [OF assms(2)] unfolding split_state_def bt_nextD(2,3,5,6) [OF assms(2)] by blast

lemma propagate_ok:
  assumes "split_state t fs x L sep R key h" and "npages t + length fs + 1 < NO_PAGE" and "bt_height t < 65535"
  shows "\<exists>t' T'. propagate_split (bt_path_of fs) (nid L) sep (nid R) t = (Inr (), t') \<and> tree_at t' T'
    \<and> leaves T' = lv fs @ leaves L @ leaves R @ rv fs \<and> bt_index_id t' = bt_index_id t"
  using assms
proof (induction fs arbitrary: t x L sep R h)
  case Nil
  then show ?case using propagate_root [of t x L sep R key h] by simp
next
  case (Cons f fs)
  define K where "K = fr_lks f @ [sep] @ fr_rks f"
  define C where "C = fr_lts f @ [L, R] @ fr_rts f"
  let ?old = "\<lparr>ip_keys = fr_lks f @ fr_rks f, ip_children = map nid (fr_lts f) @ nid L # map nid (fr_rts f)\<rparr>"
  let ?new = "\<lparr>ip_keys = K, ip_children = map nid C\<rparr>"
  have d: "bt_ready t" "bt_pages_of t (fr_id f) = Some (PInternal ?old)" "key_frame key f" "fr_id f < npages t"
    using Cons.prems(1) unfolding split_state_def by auto
  obtain t1 where t1: "bt_read_internal (fr_id f) t = (Inr ?old, t1)" "bt_next t (bt_pages_of t) (npages t) t1"
    using bt_read_internal_ok [OF d(1,2)] by blast
  note n1 = bt_nextD [OF t1(2)]
  note s1 = split_state_next [OF Cons.prems(1) t1(2)]
  have room: "npages t1 < NO_PAGE" using Cons.prems(2) n1(3) by simp
  note pgs = split_joined_page [OF s1 room, folded K_def C_def]
  have lf: "length (fr_lts f) = length (fr_lks f)" using d(3) by (simp add: key_frame_def)
  have upd: "\<lparr>ip_keys = list_insert_at (ip_keys ?old) (length (fr_lts f)) sep,
      ip_children = list_insert_at (ip_children ?old) (length (fr_lts f) + 1) (nid R)\<rparr> = ?new"
    using lf by (simp add: list_insert_at_def K_def C_def)
  have at: "list_at (ip_children ?old) (length (fr_lts f)) = Inr (nid L)" by (simp add: list_at_def nth_append)
  have pg1: "bt_pages_of t1 (fr_id f) = Some (PInternal ?old)" using d(2) n1(2) by simp
  have step: "propagate_split (bt_path_of (f # fs)) (nid L) sep (nid R) t =
      (case encode_internal ?new of
         Inr body \<Rightarrow> bt_write_page (fr_id f) KindBTREE_INTERNAL body t1
       | Inl e \<Rightarrow> (if e = PageFull
           then sm_bind (split_internal (fr_id f) ?new) (\<lambda>(promoted, new_right_id). propagate_split (bt_path_of fs) (fr_id f) promoted new_right_id)
           else sm_raise e) t1)"
    using t1(1) at upd
    by (subst propagate_split.simps) (simp add: sm_bind_def Let_def split: sum.splits)
  show ?case
  proof (cases "internal_body_size K \<le> PAGE_BODY_SIZE")
    case True
    then obtain body where e: "encode_internal ?new = Inr body" using encode_internal_fits [OF pgs(1)] by auto
    obtain t2 where t2: "bt_write_page (fr_id f) KindBTREE_INTERNAL body t1 = (Inr (), t2)"
      "bt_next t1 ((bt_pages_of t1)(fr_id f \<mapsto> PInternal ?new)) (npages t1) t2"
      using bt_write_page_ok [OF n1(1) pg1 body_sizes(2) [OF e], of KindBTREE_INTERNAL] typed_page_simps(2) [OF e] by auto
    have "tree_at t2 (fill fs (grow f [sep] [L, R]))"
      using propagate_fits [OF s1, of t2] t2(2) by (simp add: K_def C_def)
    moreover have "leaves (fill fs (grow f [sep] [L, R])) = lv (f # fs) @ leaves L @ leaves R @ rv (f # fs)"
      by (simp add: leaves_fill grow_def)
    ultimately show ?thesis using step e t2 n1(4) bt_nextD(4) [OF t2(2)] by auto
  next
    case False
    have e: "encode_internal ?new = Inl PageFull"
      using encode_internal_full [OF pgs(1)] False pgs(3,4) by (simp add: short_def)
    define m where "m = length K div 2"
    have old: "fr_id f < npages t1" using d(4) n1(3) by simp
    have big: "PAGE_BODY_SIZE < internal_body_size K" using False by simp
    note si = split_internal_ok [OF n1(1) pg1 room old pgs(1,4) big pgs(2), folded m_def]
    obtain t2 where t2: "split_internal (fr_id f) ?new t1 = (Inr (K ! m, npages t1), t2)"
      "bt_next t1 ((bt_pages_of t1)(npages t1 \<mapsto> PInternal \<lparr>ip_keys = drop (m + 1) K, ip_children = drop (m + 1) (map nid C)\<rparr>,
        fr_id f \<mapsto> PInternal \<lparr>ip_keys = take m K, ip_children = take (m + 1) (map nid C)\<rparr>)) (Suc (npages t1)) t2"
      using si(2) by blast
    note n2 = bt_nextD [OF t2(2)]
    let ?L = "BNode (fr_id f) (take m K) (take (m + 1) C)"
    let ?R = "BNode (npages t1) (drop (m + 1) K) (drop (m + 1) C)"
    have s2: "split_state t2 fs (grow f [] [x]) ?L (K ! m) ?R key (Suc h)"
      using propagate_splits [OF s1 room, folded K_def C_def, OF si(1), of t2] t2(2) by (simp add: take_map drop_map)
    have "npages t2 + length fs + 1 < NO_PAGE" "bt_height t2 < 65535"
      using Cons.prems(2,3) n1(3,6) n2(3,6) by simp_all
    from Cons.IH [OF s2 this] obtain t' T' where
      IH: "propagate_split (bt_path_of fs) (fr_id f) (K ! m) (npages t1) t2 = (Inr (), t')" "tree_at t' T'"
        "leaves T' = lv fs @ leaves ?L @ leaves ?R @ rv fs" "bt_index_id t' = bt_index_id t2" by auto
    have "leaves ?L @ leaves ?R = concat (map leaves C)" by (simp add: concat_take_drop)
    then have "leaves T' = lv (f # fs) @ leaves L @ leaves R @ rv (f # fs)" using IH(3) by (simp add: C_def)
    moreover have "propagate_split (bt_path_of (f # fs)) (nid L) sep (nid R) t = (Inr (), t')"
      using step e t2(1) IH(1) by (simp add: sm_bind_def)
    ultimately show ?thesis using IH(2,4) n1(4) n2(4) by auto
  qed
qed

end
