(* ===== verification/Btree_Spec.thy ===== *)
theory Btree_Spec
  imports Btree_Insert
begin

text \<open>
  What the B+tree of \<open>index/btree.py\<close> promises: its pages hold a finite set of entries, searching
  returns the row identifiers stored under a key in order, and inserting adds one entry.
\<close>

section \<open>Splitting a leaf\<close>

text \<open>Page changes that leave the internal pages alone.\<close>

definition keeps_internal :: "bt_pages \<Rightarrow> bt_pages \<Rightarrow> bool" where
  "keeps_internal P P' \<longleftrightarrow> (\<forall>p i. P p = Some (PInternal i) \<longrightarrow> P' p = P p)"

lemma stored_keeps: "stored P t \<Longrightarrow> keeps_internal P P' \<Longrightarrow> stored P' t"
  by (induction t) (auto simp: keeps_internal_def list_all_iff)

lemma stored_path_keeps: "stored_path P fs h \<Longrightarrow> keeps_internal P P' \<Longrightarrow> stored_path P' fs h"
proof (induction fs arbitrary: h)
  case (Cons f fs)
  have "list_all (stored P') ts" if "list_all (stored P) ts" for ts
    using that Cons.prems(2) stored_keeps by (auto simp: list_all_iff)
  then show ?case using Cons by (simp add: keeps_internal_def)
qed simp

lemma bisect_insert_sorted:
  assumes "sorted (map g xs)"
  shows "sorted (map g (list_insert_at xs (bisect_left (map g xs) (g x)) x))"
proof -
  let ?n = "bisect_left (map g xs) (g x)"
  have tk: "take ?n (map g xs) = takeWhile (\<lambda>y. y < g x) (map g xs)"
    by (simp add: bisect_left_def takeWhile_eq_take flip: takeWhile_eq_take)
  have dr: "drop ?n (map g xs) = dropWhile (\<lambda>y. y < g x) (map g xs)"
    by (simp add: bisect_left_def dropWhile_eq_drop)
  have "sorted (takeWhile (\<lambda>y. y < g x) (map g xs) @ dropWhile (\<lambda>y. y < g x) (map g xs))" using assms by simp
  then have s: "sorted (takeWhile (\<lambda>y. y < g x) (map g xs))" "sorted (dropWhile (\<lambda>y. y < g x) (map g xs))"
    "\<forall>a \<in> set (takeWhile (\<lambda>y. y < g x) (map g xs)). \<forall>b \<in> set (dropWhile (\<lambda>y. y < g x) (map g xs)). a \<le> b"
    by (auto simp only: sorted_append)
  have lo: "\<forall>a \<in> set (takeWhile (\<lambda>y. y < g x) (map g xs)). a \<le> g x" by (auto dest!: set_takeWhileD)
  have hi: "\<forall>b \<in> set (dropWhile (\<lambda>y. y < g x) (map g xs)). g x \<le> b"
  proof (cases "dropWhile (\<lambda>y. y < g x) (map g xs)")
    case Nil
    show ?thesis unfolding Nil by simp
  next
    case (Cons y ys)
    then have "g x \<le> y" using hd_dropWhile [of "\<lambda>y. y < g x" "map g xs"] by simp
    then show ?thesis using s(2) Cons by (auto intro: order_trans)
  qed
  have "map g (list_insert_at xs ?n x) = takeWhile (\<lambda>y. y < g x) (map g xs) @ g x # dropWhile (\<lambda>y. y < g x) (map g xs)"
    using tk dr by (simp add: list_insert_at_def take_map drop_map)
  then show ?thesis using s lo hi by (simp add: sorted_append)
qed

lemma mset_list_insert_at [simp]: "mset (list_insert_at xs n x) = add_mset x (mset xs)"
  by (simp add: list_insert_at_def) (metis append_take_drop_id mset_append)

lemma split_leaf_ok:
  assumes r: "bt_ready t" and room: "npages t < NO_PAGE"
    and ch: "chain (bt_pages_of t) None (as @ (pid, es) # bs) None" and dist: "distinct (map fst (as @ (pid, es) # bs))"
    and s: "leaf_split_position es' = Inr s" "leaf_body_size (take s es') \<le> PAGE_BODY_SIZE" "leaf_body_size (drop s es') \<le> PAGE_BODY_SIZE"
    and ok: "leaf_ok \<lparr>lp_entries = es', lp_left = last_id None as, lp_right = first_id bs None\<rparr>"
  defines "P' \<equiv> relinked ((bt_pages_of t)(npages t \<mapsto> PLeaf \<lparr>lp_entries = drop s es', lp_left = Some pid, lp_right = first_id bs None\<rparr>,
      pid \<mapsto> PLeaf \<lparr>lp_entries = take s es', lp_left = last_id None as, lp_right = Some (npages t)\<rparr>)) (npages t) bs None"
  shows "\<exists>t'. split_leaf pid \<lparr>lp_entries = es', lp_left = last_id None as, lp_right = first_id bs None\<rparr> t
      = (Inr (le_key (hd (drop s es')), npages t), t') \<and> bt_next t P' (Suc (npages t)) t' \<and> bt_pages_of t (npages t) = None"
proof -
  let ?n = "npages t"
  let ?page = "\<lparr>lp_entries = es', lp_left = last_id None as, lp_right = first_id bs None\<rparr>"
  let ?r = "\<lparr>lp_entries = drop s es', lp_left = Some pid, lp_right = first_id bs None\<rparr>"
  let ?l = "\<lparr>lp_entries = take s es', lp_left = last_id None as, lp_right = Some ?n\<rparr>"
  have pg: "bt_pages_of t pid = Some (PLeaf \<lparr>lp_entries = es, lp_left = last_id None as, lp_right = first_id bs None\<rparr>)"
    and cb: "chain (bt_pages_of t) (Some pid) bs None"
    using ch by (auto simp: chain_append chain_Cons simp del: chain.simps)
  have pidN: "pid < NO_PAGE" using bt_pages_leaf_ok [OF pg] by simp
  have ok': "leaf_ok ?r" "leaf_ok ?l"
    using ok pidN room list_all_take_drop [of entry_ok es' s]
    by (simp_all add: leaf_ok_def sibling_ok_def take_map [symmetric] drop_map [symmetric] sorted_wrt_take sorted_wrt_drop)
  obtain rb lb where e: "encode_leaf ?r = Inr rb" "encode_leaf ?l = Inr lb"
    using encode_leaf_fits [OF ok'(1)] encode_leaf_fits [OF ok'(2)] s by simp
  obtain b1 where b1: "new_page_with (bt_relation t) KindBTREE_LEAF rb (bt_pool t) = (Inr ?n, b1)"
    "bt_next t ((bt_pages_of t)(?n := typed_page KindBTREE_LEAF rb)) (Suc ?n) (t\<lparr>bt_pool := b1\<rparr>)" "bt_pages_of t ?n = None"
    using bt_new_page_ok [OF r room body_sizes(1) [OF e(1)], of KindBTREE_LEAF] by blast
  define t1 where "t1 = t\<lparr>bt_pool := b1\<rparr>"
  note n1 = bt_nextD [OF b1(2) [folded t1_def]]
  have P1: "bt_pages_of t1 = (bt_pages_of t)(?n \<mapsto> PLeaf ?r)" using n1(2) typed_page_simps(1) [OF e(1)] by simp
  have np: "?n \<noteq> pid" using b1(3) pg by auto
  have "bt_pages_of t1 pid = Some (PLeaf \<lparr>lp_entries = es, lp_left = last_id None as, lp_right = first_id bs None\<rparr>)" using P1 pg np by simp
  then obtain t2 where t2: "bt_write_leaf pid ?l t1 = (Inr (), t2)" "bt_next t1 ((bt_pages_of t1)(pid \<mapsto> PLeaf ?l)) (npages t1) t2"
    using bt_write_leaf_ok [OF n1(1) _ e(2)] by blast
  note n2 = bt_nextD [OF t2(2)]
  have P2: "bt_pages_of t2 = (bt_pages_of t)(?n \<mapsto> PLeaf ?r, pid \<mapsto> PLeaf ?l)" using n2(2) P1 by simp
  have nx2: "bt_next t (bt_pages_of t2) (Suc ?n) t2"
    using bt_next_trans [OF b1(2) [folded t1_def] t2(2)] n1(3) n2(2) by simp
  have "\<exists>t3. (case first_id bs None of None \<Rightarrow> sm_return ()
       | Some old \<Rightarrow> sm_bind (bt_read_leaf old) (\<lambda>old_right. bt_write_leaf old (old_right\<lparr>lp_left := Some ?n\<rparr>))) t2 = (Inr (), t3)
      \<and> bt_next t P' (Suc ?n) t3"
  proof (cases bs)
    case Nil
    then show ?thesis using nx2 P2 by (simp add: P'_def relinked_def)
  next
    case (Cons b bs')
    obtain q qes where b: "b = (q, qes)" by (cases b)
    let ?q = "\<lparr>lp_entries = qes, lp_left = Some pid, lp_right = first_id bs' None\<rparr>"
    have q: "bt_pages_of t q = Some (PLeaf ?q)" using cb Cons b by (simp add: chain_Cons del: chain.simps)
    have "q \<noteq> pid" using dist Cons b by auto
    moreover have "q \<noteq> ?n" using q b1(3) by auto
    ultimately have q2: "bt_pages_of t2 q = Some (PLeaf ?q)" using P2 q by simp
    obtain t3 where t3: "bt_read_leaf q t2 = (Inr ?q, t3)" "bt_next t2 (bt_pages_of t2) (npages t2) t3"
      using bt_read_leaf_ok [OF n2(1) q2] by blast
    note n3 = bt_nextD [OF t3(2)]
    have q3: "bt_pages_of t3 q = Some (PLeaf ?q)" using q2 n3(2) by simp
    let ?q' = "\<lparr>lp_entries = qes, lp_left = Some ?n, lp_right = first_id bs' None\<rparr>"
    have "leaf_ok ?q'" "leaf_body_size (lp_entries ?q') \<le> PAGE_BODY_SIZE"
      using bt_pages_leaf_ok [OF q] room by (auto simp: leaf_ok_def sibling_ok_def)
    then obtain qb where qb: "encode_leaf ?q' = Inr qb" using encode_leaf_fits by blast
    obtain t4 where t4: "bt_write_leaf q ?q' t3 = (Inr (), t4)" "bt_next t3 ((bt_pages_of t3)(q \<mapsto> PLeaf ?q')) (npages t3) t4"
      using bt_write_leaf_ok [OF n3(1) q3 qb] by blast
    have "bt_next t P' (Suc ?n) t4"
      using bt_next_trans [OF nx2 bt_next_trans [OF t3(2) t4(2)]] n3(2,3) n2(3) n1(3) P2 Cons b by (simp add: P'_def relinked_def)
    then show ?thesis using t3(1) t4(1) Cons b by (auto simp: sm_bind_def)
  qed
  then obtain t3 where t3: "(case first_id bs None of None \<Rightarrow> sm_return ()
       | Some old \<Rightarrow> sm_bind (bt_read_leaf old) (\<lambda>old_right. bt_write_leaf old (old_right\<lparr>lp_left := Some ?n\<rparr>))) t2 = (Inr (), t3)"
      "bt_next t P' (Suc ?n) t3" by blast
  have lift: "sm_bind (sm_lift (Inr v)) k = k v" for v :: bytes and k :: "bytes \<Rightarrow> (buffer_pool, nat) sm" by (simp add: sm_bind_def fun_eq_iff)
  have new: "with_guard (new_page rel (Some KindBTREE_LEAF)) (\<lambda>g. sm_bind (sm_lift (encode_leaf ?r)) (\<lambda>body.
      sm_bind (replace_guard g KindBTREE_LEAF 0 body) (\<lambda>_. sm_return (key_page_id (pg_key g))))) b
      = new_page_with rel KindBTREE_LEAF rb b" for rel b
    unfolding new_page_with_def e(1) lift by (rule refl)
  have "split_leaf pid ?page t = (Inr (le_key (hd (drop s es')), ?n), t3)"
    using s(1) b1(1) t2(1) t3(1)
    by (simp add: split_leaf_def new sm_bind_def Let_def on_bt_pool_def t1_def [symmetric])
  then show ?thesis using t3(2) b1(3) by blast
qed

section \<open>Inserting an entry into its leaf\<close>

lemma tree_atD:
  assumes "tree_at t T"
  shows "bt_ready t" "bt_root t = nid T" "height_is (bt_height t) T" "stored (bt_pages_of t) T"
    "chain (bt_pages_of t) None (leaves T) None" "distinct (ids T)" "\<forall>p \<in> set (ids T). 0 < p \<and> p < npages t"
    "ordered None None T" "short (seps T)" "bt_pages_of t 0 = Some (PMeta \<lparr>mp_root_page_id = bt_root t, mp_height = bt_height t\<rparr>)"
  using assms by (simp_all add: tree_at_def)

lemma tree_at_next:
  assumes "tree_at t T" and "bt_next t (bt_pages_of t) (npages t) t'"
  shows "tree_at t' T"
  using assms(1) bt_nextD(1) [OF assms(2)] unfolding tree_at_def bt_nextD(2,3,5,6) [OF assms(2)] by blast

text \<open>The leaf at the end of a path, as the pages hold it.\<close>

definition path_leaf :: "frame_at_node list \<Rightarrow> leaf_entry list \<Rightarrow> leaf_page" where
  "path_leaf gs es = \<lparr>lp_entries = es, lp_left = last_id None (lv gs), lp_right = first_id (rv gs) None\<rparr>"

lemma hole_leaf:
  assumes "tree_at t (fill gs (BLeaf pid es))"
  shows "bt_pages_of t pid = Some (PLeaf (path_leaf gs es))" "distinct (map fst (lv gs @ (pid, es) # rv gs))"
    "chain (bt_pages_of t) None (lv gs @ (pid, es) # rv gs) None" "0 < pid"
proof -
  note d = tree_atD [OF assms]
  show ch: "chain (bt_pages_of t) None (lv gs @ (pid, es) # rv gs) None" using d(5) by (simp add: leaves_fill)
  then show "bt_pages_of t pid = Some (PLeaf (path_leaf gs es))"
    by (simp add: chain_append chain_Cons path_leaf_def del: chain.simps)
  have "distinct (map fst (leaves T))" if "distinct (ids T)" for T
    using that
  proof (induction T)
    case (BNode p ks ts)
    then have "distinct (concat (map ids ts))" by simp
    then have "distinct (map fst (concat (map leaves ts)))" using BNode.IH
    proof (induction ts)
      case (Cons t ts)
      have "fst ` set (leaves t) \<inter> fst ` set (concat (map leaves ts)) = {}"
        using ids_leaves [of t] kids_leaves_ids [of ts] Cons.prems(1) by auto
      then show ?case using Cons by auto
    qed simp
    then show ?case by simp
  qed simp
  from this [OF d(6)] show "distinct (map fst (lv gs @ (pid, es) # rv gs))" by (simp add: leaves_fill)
  have "pid \<in> set (ids (fill gs (BLeaf pid es)))" using mset_eq_setD [OF mset_ids_fill [of gs "BLeaf pid es", unfolded mset_append [symmetric]]] by simp
  then show "0 < pid" using d(7) by blast
qed

lemma insert_in_bounds:
  assumes "ordered lo hi (BLeaf pid es)" and "within lo hi (le_key e)" and "sorted (map entry_order es')" and "set es' = insert e (set es)"
  shows "ordered lo hi (BLeaf pid es')"
  using assms by (auto simp: within_def)

text \<open>The leaf has room.\<close>

lemma leaf_fits:
  assumes tr: "tree_at t (fill gs (BLeaf pid es))" and kf: "\<forall>f \<in> set gs. key_frame (le_key e) f"
    and es': "sorted (map entry_order es')" "set es' = insert e (set es)"
    and nx: "bt_next t ((bt_pages_of t)(pid \<mapsto> PLeaf (path_leaf gs es'))) (npages t) t'"
  shows "tree_at t' (fill gs (BLeaf pid es'))"
proof -
  note d = tree_atD [OF tr]
  note n = bt_nextD [OF nx]
  note hl = hole_leaf [OF tr]
  have ms: "mset (ids (fill gs (BLeaf pid es'))) = mset (ids (fill gs (BLeaf pid es)))" by (simp add: mset_ids_fill)
  have keep: "keeps_internal (bt_pages_of t) (bt_pages_of t')" using hl(1) n(2) by (auto simp: keeps_internal_def)
  show ?thesis
    unfolding tree_at_def
  proof (intro conjI)
    show "bt_ready t'" by (rule n(1))
    show "bt_root t' = nid (fill gs (BLeaf pid es'))" using n(5) d(2) nid_fill [of "BLeaf pid es'" "BLeaf pid es" gs] by simp
    obtain h where h: "bt_height t = h + length gs" "height_is h (BLeaf pid es)" using height_hole [OF d(3)] by blast
    then show "height_is (bt_height t') (fill gs (BLeaf pid es'))"
      using height_replace [of h gs "BLeaf pid es" "BLeaf pid es'"] d(3) n(6) by simp
    show "stored (bt_pages_of t') (fill gs (BLeaf pid es'))"
      using d(4) stored_path_keeps [OF _ keep] by (simp add: stored_fill)
    show "chain (bt_pages_of t') None (leaves (fill gs (BLeaf pid es'))) None"
      using chain_update [OF hl(3), of es'] hl(2) n(2) by (auto simp: leaves_fill path_leaf_def)
    show "distinct (ids (fill gs (BLeaf pid es')))" using mset_eq_imp_distinct_iff [OF ms] d(6) by simp
    show "\<forall>p \<in> set (ids (fill gs (BLeaf pid es'))). 0 < p \<and> p < npages t'" using mset_eq_setD [OF ms] d(7) n(3) by simp
    have "ordered lo hi (BLeaf pid es')" if "ordered lo hi (BLeaf pid es)" "within lo hi (le_key e)" for lo hi
      by (rule insert_in_bounds [OF that es'])
    then show "ordered None None (fill gs (BLeaf pid es'))" by (rule fill_replace [OF kf _ d(8)]) simp_all
    show "short (seps (fill gs (BLeaf pid es')))" using d(9) by (simp add: short_fill)
    show "bt_pages_of t' 0 = Some (PMeta \<lparr>mp_root_page_id = bt_root t', mp_height = bt_height t'\<rparr>)"
      using d(10) n hl(4) by simp
  qed
qed

text \<open>The leaf is full: it splits, and its separator is to go into the parent.\<close>

lemma leaf_halves_ordered:
  assumes o: "ordered lo hi (BLeaf pid es)" and w: "within lo hi (le_key e)"
    and es': "sorted (map entry_order es')" "set es' = insert e (set es)" and s: "s < length es'"
  shows "kids_ordered lo hi [le_key (hd (drop s es'))] [BLeaf pid (take s es'), BLeaf new (drop s es')]"
proof -
  define x where "x = hd (drop s es')"
  obtain ys where dr: "drop s es' = x # ys" using s by (cases "drop s es'") (auto simp: x_def)
  have all: "within lo hi (le_key y)" if "y \<in> set es'" for y
    using insert_in_bounds [OF o w es'] that by (auto simp: within_def)
  have x: "within lo hi (le_key x)" using all [of x] dr by (metis in_set_dropD list.set_intros(1))
  have "sorted (map le_key (take s es' @ drop s es'))" using sorted_keys_leaf [OF es'(1)] by simp
  then have sep: "\<forall>a \<in> set (take s es'). le_key a \<le> le_key x" "\<forall>b \<in> set (drop s es'). le_key x \<le> le_key b"
    unfolding map_append sorted_append using dr by auto
  have so: "sorted (map entry_order (take s es'))" "sorted (map entry_order (drop s es'))"
    using es'(1) by (simp_all add: take_map [symmetric] drop_map [symmetric] sorted_wrt_take sorted_wrt_drop)
  have "ordered lo (Some (le_key x)) (BLeaf pid (take s es'))"
    using so(1) sep(1) all x by (auto simp: within_def above_def below_def bounds_ok_def split: option.splits dest: in_set_takeD)
  moreover have "ordered (Some (le_key x)) hi (BLeaf new (drop s es'))"
    using so(2) sep(2) all x by (auto simp: within_def above_def below_def bounds_ok_def split: option.splits dest: in_set_dropD)
  ultimately show ?thesis by (simp add: x_def)
qed

lemma relinked_keeps:
  assumes ch: "chain P l bs r" and "keeps_internal P P'" and "\<And>p. p \<in> fst ` set bs \<Longrightarrow> P' p = P p"
  shows "keeps_internal P (relinked P' new bs r)"
proof (cases bs)
  case (Cons b bs')
  obtain q es where b: "b = (q, es)" by (cases b)
  have "P q = Some (PLeaf \<lparr>lp_entries = es, lp_left = l, lp_right = first_id bs' r\<rparr>)"
    using ch Cons b by (simp add: chain_Cons del: chain.simps)
  then show ?thesis using assms(2) Cons b by (auto simp: keeps_internal_def relinked_def)
qed (use assms(2) in \<open>simp add: relinked_def\<close>)

lemma relinked_other: "p \<notin> fst ` set bs \<Longrightarrow> relinked P new bs r p = P p"
  by (auto simp: relinked_def split: list.splits)

lemma leaf_splits:
  assumes tr: "tree_at t (fill gs (BLeaf pid es))" and kf: "\<forall>f \<in> set gs. key_frame (le_key e) f"
    and es': "sorted (map entry_order es')" "set es' = insert e (set es)" and s: "s < length es'"
    and free: "bt_pages_of t (npages t) = None" and sh: "short (map le_key es')"
    and nx: "bt_next t (relinked ((bt_pages_of t)(npages t \<mapsto> PLeaf \<lparr>lp_entries = drop s es', lp_left = Some pid, lp_right = first_id (rv gs) None\<rparr>,
      pid \<mapsto> PLeaf \<lparr>lp_entries = take s es', lp_left = last_id None (lv gs), lp_right = Some (npages t)\<rparr>)) (npages t) (rv gs) None) (Suc (npages t)) t'"
  shows "split_state t' gs (BLeaf pid es) (BLeaf pid (take s es')) (le_key (hd (drop s es'))) (BLeaf (npages t) (drop s es')) (le_key e) 1"
proof -
  let ?n = "npages t"
  define P1 where "P1 = (bt_pages_of t)(?n \<mapsto> PLeaf \<lparr>lp_entries = drop s es', lp_left = Some pid, lp_right = first_id (rv gs) None\<rparr>,
      pid \<mapsto> PLeaf \<lparr>lp_entries = take s es', lp_left = last_id None (lv gs), lp_right = Some ?n\<rparr>)"
  note d = tree_atD [OF tr]
  note n = bt_nextD [OF nx [folded P1_def]]
  note hl = hole_leaf [OF tr]
  have cb: "chain (bt_pages_of t) (Some pid) (rv gs) None" using hl(3) by (simp add: chain_append chain_Cons del: chain.simps)
  have ms: "mset (ids (fill gs (BLeaf pid es))) = mset (cids gs @ [pid])" by (simp add: mset_ids_fill)
  have dist: "distinct (cids gs @ [pid])" using mset_eq_imp_distinct_iff [OF ms] d(6) by simp
  have pos: "\<forall>p \<in> set (cids gs @ [pid]). 0 < p \<and> p < ?n" using mset_eq_setD [OF ms] d(7) by simp
  have rvids: "fst ` set (lv gs) \<subseteq> set (cids gs)" "fst ` set (rv gs) \<subseteq> set (cids gs)" using lv_ids [of gs] by auto
  have k1: "keeps_internal (bt_pages_of t) P1" using hl(1) free by (auto simp: keeps_internal_def P1_def)
  have "P1 p = bt_pages_of t p" if "p \<in> fst ` set (rv gs)" for p
  proof -
    have "p \<in> set (cids gs)" using rvids that by blast
    then have "p \<noteq> pid" "p \<noteq> ?n" using dist pos by auto
    then show ?thesis by (simp add: P1_def)
  qed
  then have keep: "keeps_internal (bt_pages_of t) (bt_pages_of t')" unfolding n(2) by (rule relinked_keeps [OF cb k1])
  have nn: "?n \<notin> fst ` set (lv gs @ (pid, es) # rv gs)" using rvids pos by auto
  have "0 \<notin> fst ` set (rv gs)" "0 \<noteq> pid" "0 \<noteq> ?n" using rvids pos by auto
  then have zero: "bt_pages_of t' 0 = bt_pages_of t 0" unfolding n(2) using relinked_other [of 0 "rv gs" P1] by (simp add: P1_def)
  show ?thesis
    unfolding split_state_def
  proof (intro conjI)
    show "bt_ready t'" by (rule n(1))
    show "bt_root t' = nid (fill gs (BLeaf pid es))" using n(5) d(2) by simp
    show "height_is (bt_height t') (fill gs (BLeaf pid es))" using n(6) d(3) by simp
    show "stored_path (bt_pages_of t') gs (nid (BLeaf pid (take s es')))"
      using d(4) stored_path_keeps [OF _ keep] by (simp add: stored_fill)
    show "chain (bt_pages_of t') None (lv gs @ leaves (BLeaf pid (take s es')) @ leaves (BLeaf ?n (drop s es')) @ rv gs) None"
      unfolding n(2) P1_def using chain_split [OF hl(3,2) nn] by simp
    show "distinct (cids gs @ ids (BLeaf pid (take s es')) @ ids (BLeaf ?n (drop s es')))" using dist pos by auto
    have n3: "npages t' = Suc ?n" by (rule n(3))
    show "\<forall>p \<in> set (cids gs @ ids (BLeaf pid (take s es')) @ ids (BLeaf ?n (drop s es'))). 0 < p \<and> p < npages t'"
      unfolding n3 using pos by (auto intro: less_SucI)
    show "\<forall>f \<in> set gs. key_frame (le_key e) f" by (rule kf)
    show "ordered None None (fill gs (BLeaf pid es))" by (rule d(8))
    show "\<forall>lo hi. ordered lo hi (BLeaf pid es) \<longrightarrow> within lo hi (le_key e) \<longrightarrow>
        kids_ordered lo hi [le_key (hd (drop s es'))] [BLeaf pid (take s es'), BLeaf ?n (drop s es')]"
      using leaf_halves_ordered es' s by blast
    have "hd (drop s es') \<in> set es'" using s by (metis hd_drop_conv_nth nth_mem)
    then show "short (path_seps gs @ seps (BLeaf pid (take s es')) @ seps (BLeaf ?n (drop s es')) @ [le_key (hd (drop s es'))])"
      using d(9) sh by (auto simp: short_fill) (auto simp: short_def)
    show "bt_pages_of t' 0 = Some (PMeta \<lparr>mp_root_page_id = bt_root t', mp_height = bt_height t'\<rparr>)"
      using d(10) zero n(5,6) by simp
  qed simp_all
qed

section \<open>The whole operation\<close>

text \<open>
  The tree object holds a tree: its pages are a search tree without repeated entries, whose
  leaves are not empty, with keys of at most \<open>SAFE_KEY\<close> bytes, and the metapage agrees.
\<close>

definition bt_holds :: "btree \<Rightarrow> bnode \<Rightarrow> bool" where
  "bt_holds t T \<longleftrightarrow> tree_at t T \<and> distinct (entries T) \<and> short (map le_key (entries T))
     \<and> ((\<forall>(p, es) \<in> set (leaves T). es \<noteq> []) \<or> (\<exists>p. T = BLeaf p []))"

lemma bt_holds_represents: "bt_holds t T \<Longrightarrow> represents t T"
  by (simp add: bt_holds_def tree_at_def represents_def)

lemma bt_holds_next: "bt_holds t T \<Longrightarrow> bt_next t (bt_pages_of t) (npages t) t' \<Longrightarrow> bt_holds t' T"
  using tree_at_next by (auto simp: bt_holds_def)

text \<open>Entries after the leaves changed.\<close>

lemma bt_holds_insert:
  assumes h: "bt_holds t (fill gs (BLeaf pid es))" and tr: "tree_at t' T'"
    and lv': "leaves T' = lv gs @ ls @ rv gs" and ls: "\<forall>(p, es) \<in> set ls. es \<noteq> []" "mset (concat (map snd ls)) = add_mset e (mset es)"
    and e: "e \<notin> set (entries (fill gs (BLeaf pid es)))" "length (le_key e) \<le> SAFE_KEY"
  shows "bt_holds t' T' \<and> mset (entries T') = add_mset e (mset (entries (fill gs (BLeaf pid es))))"
proof -
  let ?T = "fill gs (BLeaf pid es)"
  note d = h [unfolded bt_holds_def]
  have ms: "mset (entries T') = mset (e # entries ?T)" using ls(2) by (simp add: entries_def lv' leaves_fill)
  have "distinct (entries T')" using mset_eq_imp_distinct_iff [OF ms] d e(1) by simp
  moreover have "short (map le_key (entries T'))" using mset_eq_setD [OF ms] d e(2) by (auto simp: short_def)
  moreover have "\<forall>(p, es) \<in> set (leaves T'). es \<noteq> []"
  proof (cases gs)
    case Nil
    then show ?thesis using lv' ls(1) by simp
  next
    case (Cons f fs)
    have "?T \<noteq> BLeaf p []" for p
    proof -
      have "\<exists>q ks ts. fill fs (BNode q0 ks0 ts0) = BNode q ks ts" for q0 ks0 ts0
        by (induction fs arbitrary: q0 ks0 ts0) (auto simp: grow_def)
      then show ?thesis using Cons by (auto simp: grow_def) (metis bnode.distinct(1))
    qed
    then have "\<forall>(p, es) \<in> set (leaves ?T). es \<noteq> []" using d by blast
    then show ?thesis using lv' ls(1) by (auto simp: leaves_fill)
  qed
  ultimately show ?thesis using tr ms by (simp add: bt_holds_def)
qed

lemma bt_find_entry:
  "(tid \<in> set (sort (remdups (map le_tid (filter (\<lambda>e. le_key e = key) es))))) = (LeafEntry key tid \<in> set es)"
proof -
  have "e = LeafEntry (le_key e) (le_tid e)" for e by simp
  then show ?thesis by (auto simp: image_iff)
qed

lemma sum_list_mset: "mset xs = add_mset x (mset ys) \<Longrightarrow> sum_list (map g xs) = g x + sum_list (map g ys)" for g :: "'a \<Rightarrow> nat"
  by (metis mset.simps(2) mset_map sum_mset_sum_list list.simps(9) sum_list.Cons)

lemma bt_insert_new:
  assumes h: "bt_holds t T" and new: "LeafEntry key tid \<notin> set (entries T)"
    and key: "length key \<le> SAFE_KEY" and ok: "entry_ok (LeafEntry key tid)"
    and room: "npages t + bt_height t + 1 < NO_PAGE" "bt_height t < 65535"
  shows "\<exists>t' T'. bt_insert key tid t = (Inr (), t') \<and> bt_holds t' T' \<and> mset (entries T') = add_mset (LeafEntry key tid) (mset (entries T))
    \<and> bt_index_id t' = bt_index_id t"
proof -
  let ?e = "LeafEntry key tid"
  obtain t1 where t1: "bt_search key t = (Inr (sort (remdups (map le_tid (filter (\<lambda>e. le_key e = key) (entries T))))), t1)"
    "bt_next t (bt_pages_of t) (npages t) t1"
    using bt_search_ok [OF bt_holds_represents [OF h]] by blast
  note h1 = bt_holds_next [OF h t1(2)]
  obtain t2 pid es gs where t2: "find_leaf key t1 = (Inr (pid, bt_path_of gs), t2)" "bt_next t1 (bt_pages_of t1) (npages t1) t2"
    and T: "fill gs (BLeaf pid es) = T" and kf: "\<forall>f \<in> set gs. key_frame key f"
    using find_leaf_ok [OF bt_holds_represents [OF h1], of key] unfolding bt_path_of_def [symmetric] by blast
  note h2 = bt_holds_next [OF h1 t2(2), folded T]
  have tr2: "tree_at t2 (fill gs (BLeaf pid es))" using h2 by (simp add: bt_holds_def)
  note hl2 = hole_leaf [OF tr2]
  obtain t3 where t3: "bt_read_leaf pid t2 = (Inr (path_leaf gs es), t3)" "bt_next t2 (bt_pages_of t2) (npages t2) t3"
    using bt_read_leaf_ok [OF tree_atD(1) [OF tr2] hl2(1)] by blast
  note h3 = bt_holds_next [OF h2 t3(2)]
  have tr3: "tree_at t3 (fill gs (BLeaf pid es))" using h3 by (simp add: bt_holds_def)
  note hl = hole_leaf [OF tr3]
  note d = tree_atD [OF tr3]
  have nx: "npages t3 = npages t" "bt_height t3 = bt_height t" "bt_index_id t3 = bt_index_id t"
    using bt_nextD [OF t1(2)] bt_nextD [OF t2(2)] bt_nextD [OF t3(2)] by simp_all
  define es' where "es' = list_insert_at es (bisect_left (map entry_order es) (entry_order ?e)) ?e"
  obtain old: "leaf_ok (path_leaf gs es)" "leaf_body_size es \<le> PAGE_BODY_SIZE"
    using bt_pages_leaf_ok [OF hl(1)] by (auto simp: path_leaf_def)
  have ms: "mset es' = add_mset ?e (mset es)" by (simp add: es'_def)
  then have st: "set es' = insert ?e (set es)" by (metis set_mset_mset set_mset_add_mset_insert)
  have so: "sorted (map entry_order es')"
    using bisect_insert_sorted [of entry_order es ?e] old(1) by (simp add: es'_def leaf_ok_def path_leaf_def)
  have ok': "leaf_ok (path_leaf gs es')" using old(1) so st ok by (simp add: leaf_ok_def path_leaf_def list_all_iff)
  have sz: "leaf_body_size es' = leaf_body_size es + length key + 14"
    using sum_list_mset [OF ms, of "\<lambda>e. 2 + length (le_key e) + 12"] by (simp add: leaf_body_size_def)
  have "set (entries T) \<supseteq> set es" unfolding T [symmetric] by (auto simp: entries_def leaves_fill)
  then have sh: "short (map le_key es')" using h key st unfolding bt_holds_def short_def by auto
  have kf': "\<forall>f \<in> set gs. key_frame (le_key ?e) f" using kf by simp
  have new': "?e \<notin> set (entries (fill gs (BLeaf pid es)))" using new T by simp
  have eta: "(path_leaf gs es)\<lparr>lp_entries := es'\<rparr> = path_leaf gs es'" by (simp add: path_leaf_def)
  have le: "lp_entries (path_leaf gs es) = es" by (simp add: path_leaf_def)
  have step: "bt_insert key tid t =
      (case encode_leaf (path_leaf gs es') of
         Inr body \<Rightarrow> bt_write_page pid KindBTREE_LEAF body t3
       | Inl e \<Rightarrow> (if e = PageFull
           then sm_bind (split_leaf pid (path_leaf gs es')) (\<lambda>(separator, right_id). propagate_split (bt_path_of gs) pid separator right_id)
           else sm_raise e) t3)"
    using t1(1) t2(1) t3(1) new bt_find_entry [of tid key "entries T"]
    by (simp add: bt_insert_def sm_bind_def Let_def le eta es'_def [symmetric] split: sum.splits)
  show ?thesis
  proof (cases "leaf_body_size es' \<le> PAGE_BODY_SIZE")
    case True
    then obtain body where e: "encode_leaf (path_leaf gs es') = Inr body" using encode_leaf_fits [OF ok'] by (auto simp: path_leaf_def)
    obtain t4 where t4: "bt_write_page pid KindBTREE_LEAF body t3 = (Inr (), t4)"
      "bt_next t3 ((bt_pages_of t3)(pid \<mapsto> PLeaf (path_leaf gs es'))) (npages t3) t4"
      using bt_write_page_ok [OF d(1) hl(1) body_sizes(1) [OF e], of KindBTREE_LEAF] typed_page_simps(1) [OF e] by auto
    have tr: "tree_at t4 (fill gs (BLeaf pid es'))" by (rule leaf_fits [OF tr3 kf' so st t4(2)])
    have "bt_holds t4 (fill gs (BLeaf pid es')) \<and> mset (entries (fill gs (BLeaf pid es'))) = add_mset ?e (mset (entries (fill gs (BLeaf pid es))))"
      by (rule bt_holds_insert [OF h3 tr, of "[(pid, es')]"]) (use st ms key new' in \<open>auto simp: leaves_fill\<close>)
    then show ?thesis using step e t4(1) nx(3) bt_nextD(4) [OF t4(2)] T by auto
  next
    case False
    have "length es' \<le> sum_list (map (\<lambda>e. 2 + length (le_key e) + 12) es')"
      using length_le_sum [of "\<lambda>e. 2 + length (le_key e) + 12" es'] by simp
    then have "length es' < 65536" using sz old(2) key by (simp add: leaf_body_size_def page_sizes SAFE_KEY_def)
    then have e: "encode_leaf (path_leaf gs es') = Inl PageFull"
      using encode_leaf_full [OF ok'] False by (simp add: path_leaf_def)
    obtain s where s: "leaf_split_position es' = Inr s" "0 < s" "s < length es'"
      "leaf_body_size (take s es') \<le> PAGE_BODY_SIZE" "leaf_body_size (drop s es') \<le> PAGE_BODY_SIZE"
      using leaf_split_position_ok [of es'] sh False sz old(2) key by (auto simp: short_def)
    have rm: "npages t3 < NO_PAGE" using room nx(1) by simp
    obtain t4 where t4: "split_leaf pid (path_leaf gs es') t3 = (Inr (le_key (hd (drop s es')), npages t3), t4)"
      and nx4: "bt_next t3 (relinked ((bt_pages_of t3)(npages t3 \<mapsto> PLeaf \<lparr>lp_entries = drop s es', lp_left = Some pid, lp_right = first_id (rv gs) None\<rparr>,
        pid \<mapsto> PLeaf \<lparr>lp_entries = take s es', lp_left = last_id None (lv gs), lp_right = Some (npages t3)\<rparr>)) (npages t3) (rv gs) None) (Suc (npages t3)) t4"
      and free: "bt_pages_of t3 (npages t3) = None"
      using split_leaf_ok [OF d(1) rm hl(3,2) s(1,4,5) ok' [unfolded path_leaf_def]] unfolding path_leaf_def by blast
    have ss: "split_state t4 gs (BLeaf pid es) (BLeaf pid (take s es')) (le_key (hd (drop s es'))) (BLeaf (npages t3) (drop s es')) (le_key ?e) 1"
      by (rule leaf_splits [OF tr3 kf' so st s(3) free sh nx4])
    obtain h' where "bt_height t3 = h' + length gs" "height_is h' (BLeaf pid es)" using height_hole [OF d(3)] by blast
    then have len: "npages t4 + length gs + 1 < NO_PAGE" "bt_height t4 < 65535"
      using room nx bt_nextD(3,6) [OF nx4] by simp_all
    obtain t5 T' where t5: "propagate_split (bt_path_of gs) pid (le_key (hd (drop s es'))) (npages t3) t4 = (Inr (), t5)" "tree_at t5 T'"
      "leaves T' = lv gs @ [(pid, take s es'), (npages t3, drop s es')] @ rv gs" "bt_index_id t5 = bt_index_id t4"
      using propagate_ok [OF ss len] by auto
    have "bt_holds t5 T' \<and> mset (entries T') = add_mset ?e (mset (entries (fill gs (BLeaf pid es))))"
      by (rule bt_holds_insert [OF h3 t5(2,3)]) (use s ms key new' in \<open>auto simp flip: mset_append\<close>)
    then show ?thesis using step e t4 t5(1,4) nx(3) bt_nextD(4) [OF nx4] T by (auto simp: sm_bind_def)
  qed
qed

end
