(* ===== verification/Btree_Open.thy ===== *)
theory Btree_Open
  imports Btree_Spec
begin

text \<open>
  Opening a B+tree, and the interface its clients rely on: a multimap from keys to row
  identifiers. A new index is empty; a reopened one holds what it held.
\<close>

section \<open>Opening\<close>

lemma bt_write_raw:
  assumes r: "bt_ready t" and q: "pid < NO_PAGE" "bp_view (bt_pool t) (PageKey (bt_relation t) pid) = Some q"
      "decode_page (PageKey (bt_relation t) pid) q = Inr x" "dp_lsn x = 0"
    and body: "length body \<le> PAGE_BODY_SIZE"
  shows "\<exists>t'. bt_write_page pid kind body t = (Inr (), t') \<and> bt_next t ((bt_pages_of t)(pid := typed_page kind body)) (npages t) t'"
proof -
  let ?k = "PageKey (bt_relation t) pid"
  have v: "valid_page_key ?k" "mk_page_key (bt_relation t) pid = Inr ?k"
    using bt_key_valid q(1) r by (auto simp: bt_ready_def)
  obtain p where p: "encode_page ?k kind 0 body = Inr p" using encode_page_eq [OF v(1), of 0 body kind] body by auto
  obtain b' where b': "with_guard (fetch_page ?k) (\<lambda>g. replace_guard g kind 0 body) (bt_pool t) = (Inr (), b')"
    "pool_ready b'" "bp_view b' = (bp_view (bt_pool t))(?k \<mapsto> p)" "pool_frame (bt_pool t) b'"
    using with_page_write [OF _ v(1) q(2-4) p] r by (auto simp: bt_ready_def)
  have "bt_write_page pid kind body t = (Inr (), t\<lparr>bt_pool := b'\<rparr>)"
    using b'(1) v(2) by (simp add: bt_write_page_def sm_bind_def on_bt_pool_def)
  then show ?thesis
    using pool_frame_next [OF r b'(2,4)] bt_pages_of_upd [OF b'(3) q(1)] decode_bt_page_encoded [OF p v(1)] by auto
qed

lemma bt_create_ok:
  assumes r: "pool_ready b" and i: "index_id < 2 ^ 64" and z: "disk_pages (bp_disk b) (btree_relation index_id) = 0"
  shows "\<exists>t b'. bt_create index_id b = (Inr t, b') \<and> bt_pool t = b' \<and> bt_index_id t = index_id \<and> bt_height t = 1 \<and> npages t = 2
    \<and> bt_holds t (BLeaf 1 [])"
proof -
  let ?rel = "btree_relation index_id"
  let ?leaf = "\<lparr>lp_entries = [], lp_left = None, lp_right = None\<rparr>"
  have o: "rel_object_id ?rel < 2 ^ 64" using i by (simp add: btree_relation_def)
  let ?h = "\<lambda>k. if key_page_id k \<noteq> 0 then Inl CorruptPage else Inr ()"
  obtain b1 p where b1: "with_guard (new_page ?rel (Some KindBTREE_META)) (\<lambda>g. sm_lift (?h (pg_key g))) b = (?h (PageKey ?rel 0), b1)"
    "pool_ready b1" "encode_page (PageKey ?rel 0) KindBTREE_META 0 [] = Inr p" "bp_view b1 = (bp_view b)(PageKey ?rel 0 \<mapsto> p)"
    "disk_pages (bp_disk b1) = (disk_pages (bp_disk b))(?rel := 1)"
    using new_page_pure [OF r o, of KindBTREE_META ?h] z by (metis One_nat_def zero_less_numeral zero_less_power)
  have meta: "(\<lambda>g. if key_page_id (pg_key g) \<noteq> 0 then sm_raise CorruptPage else sm_return ()) = (\<lambda>g. sm_lift (?h (pg_key g)) :: (buffer_pool, unit) sm)"
    by (auto simp: fun_eq_iff)
  obtain body where e: "encode_leaf ?leaf = Inr body"
    using encode_leaf_fits [of ?leaf] by (auto simp: leaf_ok_def sibling_ok_def leaf_body_size_def page_sizes)
  have one: "disk_pages (bp_disk b1) ?rel = 1" using b1(5) by simp
  then have room: "disk_pages (bp_disk b1) ?rel < 2 ^ 64" by simp
  obtain b2 q where b2: "new_page_with ?rel KindBTREE_LEAF body b1 = (Inr 1, b2)" "pool_ready b2"
    "encode_page (PageKey ?rel 1) KindBTREE_LEAF 0 body = Inr q" "bp_view b2 = (bp_view b1)(PageKey ?rel 1 \<mapsto> q)"
    "disk_pages (bp_disk b2) = (disk_pages (bp_disk b1))(?rel := 2)"
    using new_page_with_ready [OF b1(2) o room body_sizes(1) [OF e], of KindBTREE_LEAF] unfolding one by (metis Suc_1)
  define t where "t = \<lparr>bt_pool = b2, bt_index_id = index_id, bt_root = 1, bt_height = 1\<rparr>"
  have t: "bt_ready t" "bt_relation t = ?rel" "npages t = 2" using b2(2,5) i by (simp_all add: bt_ready_def t_def bt_relation_def npages_def)
  have v: "valid_page_key (PageKey ?rel 0)" "valid_page_key (PageKey ?rel 1)"
    using i by (simp_all add: valid_page_key_def btree_relation_def)
  obtain x where x: "decode_page (PageKey ?rel 0) p = Inr x" "dp_lsn x = 0" using encode_page_decode [OF b1(3) v(1)] by auto
  have leaf: "bt_pages_of t 1 = Some (PLeaf ?leaf)"
    using b2(4) decode_bt_page_encoded [OF b2(3) v(2)] typed_page_simps(1) [OF e] t(2)
    by (simp add: bt_pages_of_def t_def NO_PAGE_def)
  let ?m = "\<lparr>mp_root_page_id = 1, mp_height = 1\<rparr>"
  obtain mb where mb: "encode_meta ?m = Inr mb"
    by (simp add: encode_meta_def check_page_id_def pack_fields_eq fields_ok_def NO_PAGE_def del: pack_fields.simps)
  have v0: "bp_view (bt_pool t) (PageKey (bt_relation t) 0) = Some p" using b2(4) b1(4) t(2) by (simp add: t_def)
  obtain t' where t': "bt_write_page 0 KindBTREE_META mb t = (Inr (), t')" "bt_next t ((bt_pages_of t)(0 \<mapsto> PMeta ?m)) 2 t'"
    using bt_write_raw [OF t(1) _ v0, of x mb KindBTREE_META] x t(2,3) body_sizes(3) [OF mb] typed_page_simps(3) [OF mb]
    by (auto simp: NO_PAGE_def)
  note n = bt_nextD [OF t'(2)]
  have lift: "sm_bind (sm_lift (Inr v)) k = k v" for v :: bytes and k :: "bytes \<Rightarrow> (buffer_pool, nat) sm" by (simp add: sm_bind_def fun_eq_iff)
  have new: "with_guard (new_page rel (Some KindBTREE_LEAF)) (\<lambda>g. sm_bind (sm_lift (encode_leaf ?leaf)) (\<lambda>body.
      sm_bind (replace_guard g KindBTREE_LEAF 0 body) (\<lambda>_. sm_return (key_page_id (pg_key g))))) b
      = new_page_with rel KindBTREE_LEAF body b" for rel b
    unfolding new_page_with_def e lift by (rule refl)
  have wm: "bt_write_meta t = (Inr (), t')" using mb t'(1) by (simp add: bt_write_meta_def t_def sm_bind_def)
  have "bt_create index_id b = (Inr t', bt_pool t')"
    unfolding bt_create_def meta using b1(1) b2(1) wm [unfolded t_def]
    by (simp add: sm_bind_def new Let_def)
  moreover have "bt_holds t' (BLeaf 1 [])"
    using n leaf by (simp add: bt_holds_def tree_at_def t_def entries_def bounds_ok_def)
  ultimately show ?thesis using n by (auto simp: t_def)
qed

text \<open>A tree object and the pool that holds its pages.\<close>

lemma bt_reopen_ok:
  assumes h: "bt_holds t T"
  shows "\<exists>b'. bt_open (bt_index_id t) (bt_pool t) = (Inr (t\<lparr>bt_pool := b'\<rparr>), b')
    \<and> bt_next t (bt_pages_of t) (npages t) (t\<lparr>bt_pool := b'\<rparr>)"
proof -
  note d = tree_atD [OF conjunct1 [OF h [unfolded bt_holds_def]]]
  let ?k = "PageKey (bt_relation t) 0"
  let ?h = "\<lambda>q. res_bind (decode_page ?k q) (\<lambda>decoded. if dp_kind decoded \<noteq> KindBTREE_META then Inl CorruptPage else decode_meta (dp_body decoded))"
  have rdy: "pool_ready (bt_pool t)" "bt_index_id t < 2 ^ 64" using d(1) by (auto simp: bt_ready_def)
  obtain b1 where b1: "bp_page_count (bt_relation t) (bt_pool t) = (Inr (npages t), b1)" "pool_ready b1" "bp_view b1 = bp_view (bt_pool t)"
    "disk_pages (bp_disk b1) = disk_pages (bp_disk (bt_pool t))"
    using page_count_ready [OF rdy(1), of "bt_relation t"] unfolding npages_def by metis
  obtain q x where q: "bp_view (bt_pool t) ?k = Some q" "decode_page ?k q = Inr x"
    "decode_bt_page ?k q = Some (PMeta \<lparr>mp_root_page_id = bt_root t, mp_height = bt_height t\<rparr>)"
    using d(10) by (rule bt_pages_of_SomeE)
  have x: "dp_kind x = KindBTREE_META" "decode_meta (dp_body x) = Inr \<lparr>mp_root_page_id = bt_root t, mp_height = bt_height t\<rparr>"
    using q(2,3) by (auto simp: decode_bt_page_def split: if_splits page_kind.splits sum.splits)
  have v: "valid_page_key ?k" using bt_key_valid [of t 0] rdy(2) by (simp add: NO_PAGE_def)
  have q1: "bp_view b1 ?k = Some q" using b1(3) q(1) by simp
  obtain b2 where b2: "with_guard (fetch_page ?k) (\<lambda>g. sm_bind (pg_page_bytes g) (\<lambda>q. sm_lift (?h q))) b1 = (?h q, b2)"
    "pool_ready b2" "bp_view b2 = bp_view b1" "pool_frame b1 b2"
    using with_page_read [OF b1(2) v q1, of ?h] by blast
  have "bt_root t < npages t" using d(2,7) nid_in_ids [of T] by simp
  then have root: "bt_root t < npages t" "0 < npages t" by simp_all
  have key: "btree_page_key (bt_index_id t) 0 = ?k" by (simp add: btree_page_key_def bt_relation_def)
  have rel: "btree_relation (bt_index_id t) = bt_relation t" by (simp add: bt_relation_def)
  have "bt_open (bt_index_id t) (bt_pool t) = (Inr (t\<lparr>bt_pool := b2\<rparr>), b2)"
    unfolding bt_open_def key rel Let_def using b1(1) b2(1) q(2) x root by (simp add: sm_bind_def)
  moreover have "bt_next t (bt_pages_of t) (npages t) (t\<lparr>bt_pool := b2\<rparr>)"
    using b2(2-4) b1(3,4) rdy bt_pages_of_view [of b2 t]
    by (simp add: bt_next_def bt_ready_def npages_def bt_relation_def pool_frame_def)
  ultimately show ?thesis by blast
qed

lemma bt_open_new:
  assumes r: "pool_ready b" and i: "index_id < 2 ^ 64" and z: "disk_pages (bp_disk b) (btree_relation index_id) = 0"
  shows "\<exists>t b'. bt_open index_id b = (Inr t, b') \<and> bt_pool t = b' \<and> bt_index_id t = index_id \<and> bt_height t = 1 \<and> npages t = 2
    \<and> bt_holds t (BLeaf 1 [])"
proof -
  obtain b1 where b1: "bp_page_count (btree_relation index_id) b = (Inr 0, b1)" "pool_ready b1" "disk_pages (bp_disk b1) = disk_pages (bp_disk b)"
    using page_count_ready [OF r, of "btree_relation index_id"] z by metis
  then show ?thesis using bt_create_ok [OF b1(2) i] z by (simp add: bt_open_def sm_bind_def)
qed

section \<open>The index as a multimap\<close>

text \<open>
  What a client of an index relies on: the object holds a set of key and value pairs, lookups
  return the values of a key in order and keep the set, insertions that fit add the pair.
\<close>

locale multimap =
  fixes holds :: "'s \<Rightarrow> ('k \<times> 'v :: linorder) set \<Rightarrow> bool"
    and lookup :: "'k \<Rightarrow> ('s, 'v list) sm"
    and add :: "'k \<Rightarrow> 'v \<Rightarrow> ('s, unit) sm"
    and fits :: "'s \<Rightarrow> 'k \<Rightarrow> 'v \<Rightarrow> bool"
  assumes holds_finite: "holds s M \<Longrightarrow> finite M"
    and lookup_law: "holds s M \<Longrightarrow> \<exists>s'. lookup k s = (Inr (sorted_list_of_set {v. (k, v) \<in> M}), s') \<and> holds s' M"
    and add_law: "holds s M \<Longrightarrow> fits s k v \<Longrightarrow> \<exists>s'. add k v s = (Inr (), s') \<and> holds s' (insert (k, v) M)"
begin

lemma add_then_lookup:
  assumes "holds s M" and "fits s k v"
  shows "\<exists>s' s''. add k v s = (Inr (), s') \<and> lookup k' s' = (Inr (sorted_list_of_set {w. (k', w) \<in> insert (k, v) M}), s'') \<and> holds s'' (insert (k, v) M)"
  using add_law [OF assms] lookup_law by blast

lemma lookup_after_add:
  assumes "holds s M" and "fits s k v"
  obtains s' s'' vs where "add k v s = (Inr (), s')" and "lookup k s' = (Inr vs, s'')" and "v \<in> set vs" and "sorted vs" and "distinct vs"
proof -
  obtain s' s'' where s: "add k v s = (Inr (), s')" "lookup k s' = (Inr (sorted_list_of_set {w. (k, w) \<in> insert (k, v) M}), s'')"
    using add_then_lookup [OF assms] by blast
  have "{w. (k, w) \<in> insert (k, v) M} \<subseteq> snd ` insert (k, v) M" by force
  then have "finite {w. (k, w) \<in> insert (k, v) M}" using holds_finite [OF assms(1)] by (meson finite_imageI finite_insert finite_subset)
  then show thesis using that [OF s] by simp
qed

lemma lookup_other_after_add:
  assumes "holds s M" and "fits s k v" and "k' \<noteq> k"
  shows "\<exists>s1 s' s'' vs. lookup k' s = (Inr vs, s1) \<and> add k v s = (Inr (), s') \<and> lookup k' s' = (Inr vs, s'')"
proof -
  have "{w. (k', w) \<in> insert (k, v) M} = {w. (k', w) \<in> M}" using assms(3) by auto
  then show ?thesis using lookup_law [OF assms(1), of k'] add_then_lookup [OF assms(1,2), of k'] by auto
qed

end

definition bt_entries :: "bnode \<Rightarrow> (bytes \<times> tid) set" where
  "bt_entries T = (\<lambda>e. (le_key e, le_tid e)) ` set (entries T)"

definition bt_contains :: "btree \<Rightarrow> (bytes \<times> tid) set \<Rightarrow> bool" where
  "bt_contains t M \<longleftrightarrow> (\<exists>T. bt_holds t T \<and> M = bt_entries T)"

text \<open>Keys up to \<open>SAFE_KEY\<close> bytes, row identifiers of the page format, and page numbers and levels left.\<close>

definition bt_room :: "btree \<Rightarrow> bytes \<Rightarrow> tid \<Rightarrow> bool" where
  "bt_room t key tid \<longleftrightarrow> length key \<le> SAFE_KEY \<and> entry_ok (LeafEntry key tid)
     \<and> npages t + bt_height t + 1 < NO_PAGE \<and> bt_height t < 65535"

lemma bt_entries_iff: "(k, v) \<in> bt_entries T \<longleftrightarrow> LeafEntry k v \<in> set (entries T)"
proof
  assume "(k, v) \<in> bt_entries T"
  then obtain e where "e \<in> set (entries T)" "k = le_key e" "v = le_tid e" by (auto simp: bt_entries_def)
  then show "LeafEntry k v \<in> set (entries T)" by simp
qed (force simp: bt_entries_def)

lemma bt_tids: "sort (remdups (map le_tid (filter (\<lambda>e. le_key e = k) (entries T)))) = sorted_list_of_set {v. (k, v) \<in> bt_entries T}"
proof -
  have "{v. (k, v) \<in> bt_entries T} = set (map le_tid (filter (\<lambda>e. le_key e = k) (entries T)))"
    using bt_find_entry [of _ k "entries T"] by (auto simp: bt_entries_iff)
  then show ?thesis by (simp only: sorted_list_of_set_sort_remdups)
qed

lemma bt_insert_law:
  assumes "bt_holds t T" and "bt_room t key tid"
  shows "\<exists>t' T'. bt_insert key tid t = (Inr (), t') \<and> bt_holds t' T' \<and> bt_entries T' = insert (key, tid) (bt_entries T)"
proof (cases "LeafEntry key tid \<in> set (entries T)")
  case True
  obtain t1 where t1: "bt_search key t = (Inr (sort (remdups (map le_tid (filter (\<lambda>e. le_key e = key) (entries T))))), t1)"
    "bt_next t (bt_pages_of t) (npages t) t1"
    using bt_search_ok [OF bt_holds_represents [OF assms(1)]] by blast
  have "bt_insert key tid t = (Inr (), t1)"
    using t1(1) True bt_find_entry [of tid key "entries T"] by (simp add: bt_insert_def sm_bind_def)
  moreover have "bt_entries T = insert (key, tid) (bt_entries T)" using True by (auto simp: bt_entries_iff)
  ultimately show ?thesis using bt_holds_next [OF assms(1) t1(2)] by blast
next
  case False
  obtain t' T' where t': "bt_insert key tid t = (Inr (), t')" "bt_holds t' T'" "mset (entries T') = add_mset (LeafEntry key tid) (mset (entries T))"
    using bt_insert_new [OF assms(1) False] assms(2) by (auto simp: bt_room_def)
  have "set (entries T') = insert (LeafEntry key tid) (set (entries T))" using t'(3) by (metis set_mset_mset set_mset_add_mset_insert)
  then have "bt_entries T' = insert (key, tid) (bt_entries T)" by (simp add: bt_entries_def)
  then show ?thesis using t' by blast
qed

interpretation bt: multimap bt_contains bt_search bt_insert bt_room
proof
  fix t M k v
  assume "bt_contains t M"
  then obtain T where T: "bt_holds t T" "M = bt_entries T" by (auto simp: bt_contains_def)
  show "finite M" using T(2) by (simp add: bt_entries_def)
  obtain t1 where t1: "bt_search k t = (Inr (sorted_list_of_set {v. (k, v) \<in> M}), t1)" "bt_next t (bt_pages_of t) (npages t) t1"
    using bt_search_ok [OF bt_holds_represents [OF T(1)], of k] unfolding bt_tids T(2) by blast
  show "\<exists>s'. bt_search k t = (Inr (sorted_list_of_set {v. (k, v) \<in> M}), s') \<and> bt_contains s' M"
    using t1(1) bt_holds_next [OF T(1) t1(2)] T(2) by (auto simp: bt_contains_def)
  show "\<exists>s'. bt_insert k v t = (Inr (), s') \<and> bt_contains s' (insert (k, v) M)" if "bt_room t k v"
    using bt_insert_law [OF T(1) that] T(2) by (auto simp: bt_contains_def)
qed

section \<open>Properties\<close>

text \<open>
  Claim C6. Searching a B+tree whose pages represent a tree returns exactly the row identifiers
  stored under the key, each once and in order, even where equal keys spread over several
  leaves; it always returns, and leaves the tree as it was.
\<close>

theorem btree_search_spec:
  assumes "represents t T"
  shows "\<exists>t'. bt_search key t = (Inr (sorted_list_of_set {tid. (key, tid) \<in> bt_entries T}), t') \<and> represents t' T"
proof -
  obtain t' where "bt_search key t = (Inr (sorted_list_of_set {tid. (key, tid) \<in> bt_entries T}), t')" "bt_next t (bt_pages_of t) (npages t) t'"
    using bt_search_ok [OF assms, of key] unfolding bt_tids by blast
  then show ?thesis using represents_next [OF assms] by blast
qed

lemma new_index:
  obtains t where "bt_contains t {}" and "represents t (BLeaf 1 [])" and "bt_height t = 1" and "npages t = 2"
proof -
  obtain b where b: "pool_ready b" "\<And>r. disk_pages (bp_disk b) r = 0" using fresh_ready by blast
  obtain t b' where t: "bt_open 5 b = (Inr t, b')" "bt_height t = 1" "npages t = 2" "bt_holds t (BLeaf 1 [])"
    using bt_open_new [OF b(1), of 5] b(2) by auto
  then have "bt_contains t {}" by (auto simp: bt_contains_def bt_entries_def entries_def)
  then show thesis using that t bt_holds_represents by blast
qed

theorem btree_search_spec_witness:
  "\<exists>t t'. represents t (BLeaf 1 []) \<and> bt_search [7] t = (Inr [], t')"
proof -
  obtain t where t: "represents t (BLeaf 1 [])" using new_index by blast
  show ?thesis using btree_search_spec [OF t, of "[7]"] t by (auto simp: bt_entries_def entries_def)
qed

text \<open>
  Claim C5. Inserting a key of at most \<open>SAFE_KEY\<close> bytes into a B+tree returns, through every
  split of leaves and internal pages up to a new root, and afterwards a search for any key finds
  what was there before, and the new row identifier under the new key.
\<close>

theorem btree_insert_spec:
  assumes "bt_contains t M" and "bt_room t key tid"
  shows "\<exists>t' t''. bt_insert key tid t = (Inr (), t')
    \<and> bt_search k t' = (Inr (sorted_list_of_set {v. (k, v) \<in> insert (key, tid) M}), t'') \<and> bt_contains t'' (insert (key, tid) M)"
  using bt.add_then_lookup [OF assms] .

theorem btree_insert_spec_witness:
  "\<exists>t t' t''. bt_contains t {} \<and> bt_insert [7] (TID 1 2) t = (Inr (), t') \<and> bt_search [7] t' = (Inr [TID 1 2], t'')"
proof -
  obtain t where t: "bt_contains t {}" "bt_height t = 1" "npages t = 2" using new_index by blast
  have "bt_room t [7] (TID 1 2)" using t by (simp add: bt_room_def SAFE_KEY_def entry_ok_def NO_PAGE_def)
  from btree_insert_spec [OF t(1) this, of "[7]"] show ?thesis using t(1) by auto
qed

text \<open>
  Claim C32. Opening an index whose file is empty makes an empty B+tree; opening the index of a
  tree again over the same pool reads the same root and height from the metapage and holds the
  same entries.
\<close>

theorem btree_open_spec:
  assumes "bt_contains t M" and "pool_ready b" and "index_id < 2 ^ 64" and "disk_pages (bp_disk b) (btree_relation index_id) = 0"
  shows "(\<exists>t' b'. bt_open (bt_index_id t) (bt_pool t) = (Inr t', b') \<and> bt_contains t' M \<and> bt_root t' = bt_root t \<and> bt_height t' = bt_height t)
    \<and> (\<exists>t' b'. bt_open index_id b = (Inr t', b') \<and> bt_contains t' {})"
proof
  obtain T where T: "bt_holds t T" "M = bt_entries T" using assms(1) by (auto simp: bt_contains_def)
  obtain b' where b': "bt_open (bt_index_id t) (bt_pool t) = (Inr (t\<lparr>bt_pool := b'\<rparr>), b')"
    "bt_next t (bt_pages_of t) (npages t) (t\<lparr>bt_pool := b'\<rparr>)" using bt_reopen_ok [OF T(1)] by blast
  then show "\<exists>t' b'. bt_open (bt_index_id t) (bt_pool t) = (Inr t', b') \<and> bt_contains t' M \<and> bt_root t' = bt_root t \<and> bt_height t' = bt_height t"
    using bt_holds_next [OF T(1) b'(2)] T(2) by (auto simp: bt_contains_def)
  obtain t' b'' where "bt_open index_id b = (Inr t', b'')" "bt_holds t' (BLeaf 1 [])" using bt_open_new [OF assms(2-4)] by blast
  moreover from this(2) have "bt_contains t' {}" by (auto simp: bt_contains_def bt_entries_def entries_def)
  ultimately show "\<exists>t' b'. bt_open index_id b = (Inr t', b') \<and> bt_contains t' {}" by blast
qed

theorem btree_open_spec_witness:
  "\<exists>t b t' b'. bt_contains t {} \<and> bt_open 5 b = (Inr t', b') \<and> bt_contains t' {}"
proof -
  obtain t where t: "bt_contains t {}" using new_index by blast
  obtain b where b: "pool_ready b" "\<And>r. disk_pages (bp_disk b) r = 0" using fresh_ready by blast
  show ?thesis using btree_open_spec [OF t b(1), of 5] b(2) t by auto
qed

end
