(* ===== verification/Free_Space.thy ===== *)
theory Free_Space
  imports Prelude
begin

text \<open>
  \<open>storage/free_space.py\<close>: the approximate map of the free bytes of a heap's pages, one category
  of 0 to 255 for each page, with the file it is kept in. Shows that a page whose recorded free
  space suffices is never left out of the candidates.
\<close>

section \<open>State and operations\<close>

record free_space_map =
  fsm_maximum :: nat
  fsm_categories :: "nat list"
  fsm_file :: "nat list option"

definition mk_free_space_map :: "nat list option \<Rightarrow> nat \<Rightarrow> nat list \<Rightarrow> free_space_map result" where
  "mk_free_space_map stored maximum categories =
     (if maximum \<le> 0 then Inl PyValueError
      else Inr \<lparr>fsm_maximum = maximum, fsm_categories = categories, fsm_file = stored\<rparr>)"

text \<open>The bytes of the file, if there is one.\<close>

definition fsm_open :: "nat list option \<Rightarrow> nat \<Rightarrow> free_space_map result" where
  "fsm_open stored maximum =
     mk_free_space_map stored maximum (case stored of None \<Rightarrow> [] | Some categories \<Rightarrow> categories)"

definition fsm_page_count :: "free_space_map \<Rightarrow> nat" where
  "fsm_page_count m = length (fsm_categories m)"

definition fsm_category :: "free_space_map \<Rightarrow> nat \<Rightarrow> nat" where
  "fsm_category m free_bytes =
     (if free_bytes = 0 then 0
      else min 255 ((free_bytes * 255 + fsm_maximum m - 1) div fsm_maximum m))"

definition fsm_persist :: "(free_space_map, unit) sm" where
  "fsm_persist m = (Inr (), m\<lparr>fsm_file := Some (fsm_categories m)\<rparr>)"

text \<open>The categories are extended with zeros up to the page.\<close>

definition fsm_record :: "nat \<Rightarrow> int \<Rightarrow> (free_space_map, unit) sm" where
  "fsm_record page_id free_bytes m =
     (if free_bytes < 0 \<or> int (fsm_maximum m) < free_bytes then (Inl PyValueError, m)
      else
        let extended = fsm_categories m @ replicate (Suc page_id - length (fsm_categories m)) 0
        in fsm_persist (m\<lparr>fsm_categories := extended[page_id := fsm_category m (nat free_bytes)]\<rparr>))"

text \<open>Most free space first, then the lower page number.\<close>

definition candidate_pages :: "free_space_map \<Rightarrow> nat \<Rightarrow> nat list" where
  "candidate_pages m required =
     (if fsm_maximum m < required then []
      else
        let candidates = filter (\<lambda>(category, page_id). fsm_category m required \<le> category)
              (zip (fsm_categories m) [0..<length (fsm_categories m)])
        in map snd (sort_key (\<lambda>(category, page_id). (- int category, page_id)) candidates))"

section \<open>Correctness\<close>

lemma fsm_category_mono: "a \<le> b \<Longrightarrow> fsm_category m a \<le> fsm_category m b"
proof (cases "a = 0")
  case False
  assume le: "a \<le> b"
  then have "(a * 255 + fsm_maximum m - 1) div fsm_maximum m \<le> (b * 255 + fsm_maximum m - 1) div fsm_maximum m"
    by (intro div_le_mono diff_le_mono) simp
  then show ?thesis using False le by (auto simp: fsm_category_def min_def)
qed (simp add: fsm_category_def)

lemma set_candidate_pages:
  "set (candidate_pages m required) =
     (if fsm_maximum m < required then {}
      else {p. p < length (fsm_categories m) \<and> fsm_category m required \<le> fsm_categories m ! p})"
proof -
  have "(c, p) \<in> set (zip (fsm_categories m) [0..<length (fsm_categories m)]) \<longleftrightarrow> p < length (fsm_categories m) \<and> c = fsm_categories m ! p" for c p
    by (auto simp: set_zip)
  then show ?thesis by (auto simp: candidate_pages_def image_iff)
qed

lemma candidate_pages_less: "p \<in> set (candidate_pages m required) \<Longrightarrow> p < fsm_page_count m"
  by (auto simp: set_candidate_pages fsm_page_count_def split: if_splits)

lemma candidate_pages_sorted:
  "sorted_wrt (\<lambda>a b. fsm_categories m ! b \<le> fsm_categories m ! a) (candidate_pages m required)"
proof -
  let ?cs = "filter (\<lambda>(category, page_id). fsm_category m required \<le> category) (zip (fsm_categories m) [0..<length (fsm_categories m)])"
  let ?s = "sort_key (\<lambda>(category, page_id). (- int category, page_id)) ?cs"
  have el: "fst x = fsm_categories m ! snd x" if "x \<in> set ?s" for x using that by (auto simp: set_zip)
  have "sorted (map (\<lambda>(category, page_id). (- int category, page_id)) ?s)" by simp
  then have "sorted_wrt (\<lambda>x y. fst y \<le> fst x) ?s"
    unfolding sorted_map by (rule sorted_wrt_mono_rel [rotated]) (auto simp: less_eq_prod_def)
  then have "sorted_wrt (\<lambda>x y. fsm_categories m ! snd y \<le> fsm_categories m ! snd x) ?s"
    by (rule sorted_wrt_mono_rel [rotated]) (use el in metis)
  then show ?thesis by (simp add: candidate_pages_def Let_def sorted_wrt_map)
qed

lemma fsm_record_ok:
  assumes "0 \<le> f" and "f \<le> int (fsm_maximum m)"
  obtains m' where "fsm_record p f m = (Inr (), m')" and "fsm_maximum m' = fsm_maximum m"
    and "fsm_page_count m' = max (Suc p) (fsm_page_count m)" and "fsm_categories m' ! p = fsm_category m (nat f)"
    and "\<And>q. q < fsm_page_count m \<Longrightarrow> q \<noteq> p \<Longrightarrow> fsm_categories m' ! q = fsm_categories m ! q"
    and "\<And>q. fsm_page_count m \<le> q \<Longrightarrow> q < p \<Longrightarrow> fsm_categories m' ! q = 0"
proof -
  define ext where "ext = fsm_categories m @ replicate (Suc p - length (fsm_categories m)) 0"
  have len: "length ext = max (Suc p) (length (fsm_categories m))" by (simp add: ext_def)
  have "fsm_record p f m = (Inr (), m\<lparr>fsm_categories := ext[p := fsm_category m (nat f)],
      fsm_file := Some (ext[p := fsm_category m (nat f)])\<rparr>)"
    using assms by (simp add: fsm_record_def Let_def fsm_persist_def ext_def)
  then show thesis
    by (rule that) (use len in \<open>auto simp: fsm_page_count_def ext_def nth_append\<close>)
qed

text \<open>
  A page recorded with some free space is among the candidates for every tuple of at most
  that size, however its space is rounded to a category; recording it changes for no other page
  whether it is a candidate; and candidates are recorded pages, those with more space first.
\<close>

lemma free_space_complete:
  assumes "0 \<le> f" and "f \<le> int (fsm_maximum m)" and "0 < required"
  shows "\<exists>m'. fsm_record p f m = (Inr (), m') \<and> (int required \<le> f \<longrightarrow> p \<in> set (candidate_pages m' required))
    \<and> set (candidate_pages m' required) - {p} = set (candidate_pages m required) - {p}
    \<and> sorted_wrt (\<lambda>a b. fsm_categories m' ! b \<le> fsm_categories m' ! a) (candidate_pages m' required)"
proof -
  obtain m' where m': "fsm_record p f m = (Inr (), m')" "fsm_maximum m' = fsm_maximum m"
    "fsm_page_count m' = max (Suc p) (fsm_page_count m)" "fsm_categories m' ! p = fsm_category m (nat f)"
    "\<And>q. q < fsm_page_count m \<Longrightarrow> q \<noteq> p \<Longrightarrow> fsm_categories m' ! q = fsm_categories m ! q"
    "\<And>q. fsm_page_count m \<le> q \<Longrightarrow> q < p \<Longrightarrow> fsm_categories m' ! q = 0"
    using fsm_record_ok [OF assms(1,2), of p] by metis
  have cat: "fsm_category m' = fsm_category m" using m'(2) by (simp add: fsm_category_def fun_eq_iff)
  have mx: "0 < fsm_maximum m" if "int required \<le> f" using assms(2,3) that by linarith
  have "p \<in> set (candidate_pages m' required)" if "int required \<le> f"
    using that m'(2-4) assms(2) fsm_category_mono [of required "nat f" m]
    by (auto simp: set_candidate_pages fsm_page_count_def cat)
  moreover have "set (candidate_pages m' required) - {p} = set (candidate_pages m required) - {p}"
  proof (cases "fsm_maximum m < required")
    case False
    then have "0 < fsm_maximum m" using assms(3) by simp
    then have "fsm_maximum m \<le> required * 255 + fsm_maximum m - 1" using assms(3) by simp
    then have pos: "0 < fsm_category m required"
      using assms(3) \<open>0 < fsm_maximum m\<close> by (simp add: fsm_category_def div_greater_zero_iff)
    have "(q < fsm_page_count m' \<and> fsm_category m required \<le> fsm_categories m' ! q)
        \<longleftrightarrow> (q < fsm_page_count m \<and> fsm_category m required \<le> fsm_categories m ! q)" if "q \<noteq> p" for q
    proof (cases "q < fsm_page_count m")
      case True
      then show ?thesis using m'(3,5) that by (auto simp: max_def)
    next
      case out: False
      then show ?thesis using m'(3) m'(6) [of q] that pos by (auto simp: max_def split: if_splits)
    qed
    then show ?thesis using False m'(2) by (auto simp: set_candidate_pages cat fsm_page_count_def)
  qed (simp add: set_candidate_pages m'(2))
  moreover have "sorted_wrt (\<lambda>a b. fsm_categories m' ! b \<le> fsm_categories m' ! a) (candidate_pages m' required)"
    by (rule candidate_pages_sorted)
  ultimately show ?thesis using m'(1) by blast
qed

end
