(* ===== verification/Heap.thy ===== *)
theory Heap
  imports Page_Access Slotted Tuple_Codec Mvcc Free_Space
begin

text \<open>
  \<open>storage/heap.py\<close>: a table as slotted pages of tuple versions over the buffer pool. A
  transaction argument is its id; the \<open>has_writes\<close> flags of the transaction objects are the set
  of the ids for which it is set. The log of a heap, when it has one, is the log of its pool, as
  the engine opens them. Loops that follow version links carry fuel, the number of slots the
  pages can have.
\<close>

section \<open>State\<close>

record heap_table =
  ht_pool :: buffer_pool
  ht_table_id :: nat
  ht_codec :: tuple_codec
  ht_free_space :: free_space_map
  ht_logged :: bool
  ht_has_writes :: "nat set"

definition ht_relation :: "heap_table \<Rightarrow> relation_id" where
  "ht_relation h = heap_relation (ht_table_id h)"

definition ht_schema :: "heap_table \<Rightarrow> schema" where
  "ht_schema h = tc_schema (ht_codec h)"

text \<open>\<open>self._wal\<close>\<close>

definition ht_wal :: "heap_table \<Rightarrow> wal_manager option" where
  "ht_wal h = (if ht_logged h then bp_wal (ht_pool h) else None)"

definition on_ht_pool :: "(buffer_pool, 'a) sm \<Rightarrow> (heap_table, 'a) sm" where
  "on_ht_pool m h = (case m (ht_pool h) of (r, b) \<Rightarrow> (r, h\<lparr>ht_pool := b\<rparr>))"

definition on_free_space :: "(free_space_map, 'a) sm \<Rightarrow> (heap_table, 'a) sm" where
  "on_free_space m h = (case m (ht_free_space h) of (r, f) \<Rightarrow> (r, h\<lparr>ht_free_space := f\<rparr>))"

definition on_ht_wal :: "(wal_manager, 'a) sm \<Rightarrow> wal_manager \<Rightarrow> (heap_table, 'a) sm" where
  "on_ht_wal m w h = (case m w of (r, w') \<Rightarrow> (r, h\<lparr>ht_pool := (ht_pool h)\<lparr>bp_wal := Some w'\<rparr>\<rparr>))"

text \<open>\<open>with pool.fetch_page(...) as guard: body\<close>, where the body also changes the heap object.\<close>

definition ht_with :: "(buffer_pool, page_guard) sm \<Rightarrow> (page_guard \<Rightarrow> (heap_table, 'a) sm) \<Rightarrow> (heap_table, 'a) sm" where
  "ht_with acquire body =
     sm_bind (on_ht_pool acquire) (\<lambda>g h.
     case body g h of (r, h1) \<Rightarrow>
       (case on_ht_pool (pg_release g) h1 of (Inl e, h2) \<Rightarrow> (Inl e, h2) | (Inr _, h2) \<Rightarrow> (r, h2)))"

definition ht_page_count :: "(heap_table, nat) sm" where
  "ht_page_count h = on_ht_pool (bp_page_count (ht_relation h)) h"

section \<open>Reading pages\<close>

definition heap_page_of :: "page_key \<Rightarrow> bytes \<Rightarrow> slotted_page result" where
  "heap_page_of key q =
     res_bind (decode_page key q) (\<lambda>decoded.
     if dp_kind decoded \<noteq> KindHEAP then Inl CorruptPage
     else if dp_body decoded = [] then slotted_empty (key_page_id key)
     else slotted_from_bytes (key_page_id key) (dp_body decoded))"

definition ht_slotted_page :: "page_guard \<Rightarrow> (heap_table, slotted_page) sm" where
  "ht_slotted_page g = sm_bind (on_ht_pool (pg_page_bytes g)) (\<lambda>q. sm_lift (heap_page_of (pg_key g) q))"

text \<open>A block that only reads a page.\<close>

definition ht_read_page :: "nat \<Rightarrow> (slotted_page \<Rightarrow> 'a result) \<Rightarrow> (heap_table, 'a) sm" where
  "ht_read_page page_id f h =
     ht_with (fetch_page (heap_page_key (ht_table_id h) page_id)) (\<lambda>g.
       sm_bind (ht_slotted_page g) (\<lambda>page. sm_lift (f page))) h"

text \<open>\<open>try: ... except KeyError: return None\<close>\<close>

definition none_on_key_error :: "'a result \<Rightarrow> 'a option result" where
  "none_on_key_error r = (case r of Inr v \<Rightarrow> Inr (Some v) | Inl e \<Rightarrow> if e = PyKeyError then Inr None else Inl e)"

definition physical_version :: "tid \<Rightarrow> (heap_table, tuple_version option) sm" where
  "physical_version t =
     sm_bind ht_page_count (\<lambda>n h.
     if n \<le> tid_page t then (Inr None, h)
     else
       ht_read_page (tid_page t) (\<lambda>page.
         none_on_key_error (res_bind (sp_read page (tid_slot t)) (tuple_decode (ht_codec h)))) h)"

definition page_versions :: "tuple_codec \<Rightarrow> nat \<Rightarrow> slotted_page \<Rightarrow> (tid \<times> tuple_version) list result" where
  "page_versions codec page_id page =
     res_mapM (\<lambda>slot_id. res_bind (res_bind (sp_read page slot_id) (tuple_decode codec)) (\<lambda>v. Inr (TID page_id slot_id, v)))
       (live_slots page)"

fun scan_pages :: "nat list \<Rightarrow> (heap_table, (tid \<times> tuple_version) list) sm" where
  "scan_pages [] = sm_return []"
| "scan_pages (page_id # page_ids) =
     sm_bind (\<lambda>h. ht_read_page page_id (page_versions (ht_codec h) page_id) h) (\<lambda>rows.
     sm_bind (scan_pages page_ids) (\<lambda>more. sm_return (rows @ more)))"

definition scan_versions :: "(heap_table, (tid \<times> tuple_version) list) sm" where
  "scan_versions = sm_bind ht_page_count (\<lambda>n. scan_pages [0..<n])"

definition ht_fetch :: "tid \<Rightarrow> (heap_table, scalar list option) sm" where
  "ht_fetch t =
     sm_bind ht_page_count (\<lambda>n h.
     if n \<le> tid_page t then (Inr None, h)
     else
       ht_read_page (tid_page t) (\<lambda>page.
         res_bind (none_on_key_error (sp_read page (tid_slot t))) (\<lambda>encoded.
         case encoded of
           None \<Rightarrow> Inr None
         | Some e \<Rightarrow> res_bind (tuple_decode (ht_codec h) e) (\<lambda>v. Inr (Some (tv_values v))))) h)"

definition ht_scan :: "(heap_table, (tid \<times> scalar list) list) sm" where
  "ht_scan = sm_bind scan_versions (\<lambda>rows. sm_return (map (\<lambda>(t, v). (t, tv_values v)) rows))"

section \<open>Writing pages\<close>

definition publish_page :: "page_guard \<Rightarrow> slotted_page \<Rightarrow> nat option \<Rightarrow> (heap_table, unit) sm" where
  "publish_page g page transaction h =
     (case (transaction, ht_wal h) of
        (Some xid, Some w) \<Rightarrow>
          sm_bind (if xid \<in> ht_has_writes h then sm_return ()
                   else
                     sm_bind (on_ht_wal (wal_append xid BeginRecord) w) (\<lambda>_.
                     sm_modify (\<lambda>h. h\<lparr>ht_has_writes := insert xid (ht_has_writes h)\<rparr>))) (\<lambda>_.
          sm_bind (sm_get (\<lambda>h. the (ht_wal h))) (\<lambda>w.
          let page_lsn = wm_end_lsn w
          in sm_bind (sm_lift (slotted_to_bytes page)) (\<lambda>body.
             sm_bind (sm_lift (encode_page (pg_key g) KindHEAP page_lsn body)) (\<lambda>encoded.
             sm_bind (sm_lift (mk_heap_page_images [(pg_key g, encoded)])) (\<lambda>images.
             sm_bind (on_ht_wal (wal_append xid images) w) (\<lambda>actual_lsn.
             if actual_lsn \<noteq> page_lsn then sm_raise PyRuntimeError
             else on_ht_pool (publish_bytes g encoded page_lsn))))))) h
      | _ \<Rightarrow>
          sm_bind (sm_lift (slotted_to_bytes page)) (\<lambda>body.
          sm_bind (sm_lift (encode_page (pg_key g) KindHEAP 0 body)) (\<lambda>encoded.
          on_ht_pool (publish_bytes g encoded 0))) h)"

text \<open>Publishing a page and recording its free space, as every change of a page ends.\<close>

definition publish_and_record :: "page_guard \<Rightarrow> nat \<Rightarrow> slotted_page \<Rightarrow> nat option \<Rightarrow> (heap_table, unit) sm" where
  "publish_and_record g page_id page transaction =
     sm_bind (publish_page g page transaction) (\<lambda>_.
     on_free_space (fsm_record page_id (available_free_bytes page)))"

definition try_insert :: "nat \<Rightarrow> bytes \<Rightarrow> nat option \<Rightarrow> (heap_table, tid option) sm" where
  "try_insert page_id encoded_tuple transaction =
     sm_bind ht_page_count (\<lambda>n h.
     if n \<le> page_id then (Inl CorruptPage, h)
     else
       ht_with (fetch_page (heap_page_key (ht_table_id h) page_id)) (\<lambda>g.
         sm_bind (ht_slotted_page g) (\<lambda>page.
         case sp_insert encoded_tuple page of
           (Inl e, page') \<Rightarrow>
             if e = PageFull
             then sm_bind (on_free_space (fsm_record page_id (available_free_bytes page'))) (\<lambda>_. sm_return None)
             else sm_raise e
         | (Inr slot_id, page') \<Rightarrow>
             sm_bind (publish_and_record g page_id page' transaction) (\<lambda>_.
             sm_return (Some (TID page_id slot_id))))) h)"

definition insert_new_page :: "bytes \<Rightarrow> nat option \<Rightarrow> (heap_table, tid) sm" where
  "insert_new_page encoded_tuple transaction h =
     ht_with (new_page (ht_relation h) (Some KindHEAP)) (\<lambda>g.
       let page_id = key_page_id (pg_key g)
       in sm_bind (sm_lift (slotted_empty page_id)) (\<lambda>page.
          case sp_insert encoded_tuple page of
            (Inl e, page') \<Rightarrow> sm_raise e
          | (Inr slot_id, page') \<Rightarrow>
              sm_bind (publish_and_record g page_id page' transaction) (\<lambda>_.
              sm_return (TID page_id slot_id)))) h"

text \<open>The first candidate page that takes the tuple, or a new page.\<close>

fun insert_into :: "nat list \<Rightarrow> bytes \<Rightarrow> nat option \<Rightarrow> (heap_table, tid) sm" where
  "insert_into [] encoded transaction = insert_new_page encoded transaction"
| "insert_into (page_id # page_ids) encoded transaction =
     sm_bind (try_insert page_id encoded transaction) (\<lambda>t.
     case t of Some t \<Rightarrow> sm_return t | None \<Rightarrow> insert_into page_ids encoded transaction)"

definition ht_insert :: "scalar list \<Rightarrow> (heap_table, tid) sm" where
  "ht_insert values h =
     sm_bind (sm_lift (validate_row (ht_schema h) values)) (\<lambda>validated.
     sm_bind (sm_lift (tuple_encode (ht_codec h)
        \<lparr>tv_xmin = SYSTEM_XID, tv_xmax = 0, tv_next_tid = None, tv_values = validated\<rparr>)) (\<lambda>encoded h.
     insert_into (candidate_pages (ht_free_space h) (length encoded)) encoded None h)) h"

definition insert_version :: "nat \<Rightarrow> scalar list \<Rightarrow> nat option \<Rightarrow> (heap_table, tid) sm" where
  "insert_version xid values preferred h =
     sm_bind (sm_lift (validate_row (ht_schema h) values)) (\<lambda>validated.
     sm_bind (sm_lift (tuple_encode (ht_codec h)
        \<lparr>tv_xmin = xid, tv_xmax = 0, tv_next_tid = None, tv_values = validated\<rparr>)) (\<lambda>encoded.
     sm_bind (case preferred of None \<Rightarrow> sm_return None | Some p \<Rightarrow> try_insert p encoded (Some xid)) (\<lambda>t.
     case t of
       Some t \<Rightarrow> sm_return t
     | None \<Rightarrow> (\<lambda>h.
         insert_into (filter (\<lambda>p. Some p \<noteq> preferred) (candidate_pages (ht_free_space h) (length encoded)))
           encoded (Some xid) h)))) h"

definition set_version :: "tid \<Rightarrow> tuple_version \<Rightarrow> nat \<Rightarrow> (heap_table, unit) sm" where
  "set_version t version xid h =
     ht_with (fetch_page (heap_page_key (ht_table_id h) (tid_page t))) (\<lambda>g.
       sm_bind (ht_slotted_page g) (\<lambda>page.
       sm_bind (sm_lift (tuple_encode (ht_codec h) version)) (\<lambda>encoded.
       case sp_replace (tid_slot t) encoded page of
         (Inl e, _) \<Rightarrow> sm_raise e
       | (Inr _, page') \<Rightarrow> publish_and_record g (tid_page t) page' (Some xid)))) h"

text \<open>Whether a version may get a new deleter: it has none, or one that aborted.\<close>

definition replaceable :: "tuple_version option \<Rightarrow> status_table \<Rightarrow> bool" where
  "replaceable old statuses =
     (case old of None \<Rightarrow> False | Some v \<Rightarrow> \<not> (tv_xmax v \<noteq> 0 \<and> status_get statuses (tv_xmax v) \<noteq> StABORTED))"

definition replace_version :: "tid \<Rightarrow> nat \<Rightarrow> status_table \<Rightarrow> scalar list \<Rightarrow> (heap_table, tid option) sm" where
  "replace_version t xid statuses values =
     sm_bind (physical_version t) (\<lambda>old.
     if \<not> replaceable old statuses then sm_return None
     else
       sm_bind (insert_version xid values (Some (tid_page t))) (\<lambda>replacement.
       sm_bind (set_version t ((the old)\<lparr>tv_xmax := xid, tv_next_tid := Some replacement\<rparr>) xid) (\<lambda>_.
       sm_return (Some replacement))))"

definition delete_version :: "tid \<Rightarrow> nat \<Rightarrow> status_table \<Rightarrow> (heap_table, bool) sm" where
  "delete_version t xid statuses =
     sm_bind (physical_version t) (\<lambda>old.
     if \<not> replaceable old statuses then sm_return False
     else sm_bind (set_version t ((the old)\<lparr>tv_xmax := xid\<rparr>) xid) (\<lambda>_. sm_return True))"

definition ht_delete :: "tid \<Rightarrow> (heap_table, bool) sm" where
  "ht_delete t =
     sm_bind ht_page_count (\<lambda>n h.
     if n \<le> tid_page t then (Inr False, h)
     else
       ht_with (fetch_page (heap_page_key (ht_table_id h) (tid_page t))) (\<lambda>g.
         sm_bind (ht_slotted_page g) (\<lambda>page.
         case sp_delete (tid_slot t) page of
           (Inl e, _) \<Rightarrow> if e = PyKeyError then sm_return False else sm_raise e
         | (Inr _, page') \<Rightarrow>
             sm_bind (publish_and_record g (tid_page t) page' None) (\<lambda>_. sm_return True))) h)"

definition ht_replace :: "tid \<Rightarrow> scalar list \<Rightarrow> (heap_table, tid option) sm" where
  "ht_replace t values h =
     sm_bind (sm_lift (validate_row (ht_schema h) values)) (\<lambda>validated.
     sm_bind (ht_fetch t) (\<lambda>old.
     if old = None then sm_return None
     else
       sm_bind (ht_insert validated) (\<lambda>replacement.
       sm_bind (ht_delete t) (\<lambda>deleted.
       if \<not> deleted then sm_raise PyRuntimeError else sm_return (Some replacement))))) h"

definition reclaim_version :: "tid \<Rightarrow> nat \<Rightarrow> (heap_table, nat) sm" where
  "reclaim_version t xid h =
     ht_with (fetch_page (heap_page_key (ht_table_id h) (tid_page t))) (\<lambda>g.
       sm_bind (ht_slotted_page g) (\<lambda>page.
       case sp_delete (tid_slot t) page of
         (Inl e, _) \<Rightarrow> if e = PyKeyError then sm_return 0 else sm_raise e
       | (Inr removed, page') \<Rightarrow>
           (case sp_compact page' of
              (Inl e, _) \<Rightarrow> sm_raise e
            | (Inr _, page'') \<Rightarrow>
                sm_bind (publish_and_record g (tid_page t) page'' (Some xid)) (\<lambda>_.
                sm_return (length removed))))) h"

section \<open>Version chains\<close>

definition MAX_SLOTS :: nat where "MAX_SLOTS = (SLOTTED_BODY_SIZE - BODY_HEADER_SIZE) div SLOT_ENTRY_SIZE"

definition link_fuel :: "heap_table \<Rightarrow> nat" where
  "link_fuel h = disk_pages (bp_disk (ht_pool h)) (ht_relation h) * MAX_SLOTS + 2"

text \<open>
  The walk along version links, with the versions already visited: the last version that is
  accepted. \<open>read\<close> gives the version at an identifier.
\<close>

fun follow_links :: "nat \<Rightarrow> (tid \<Rightarrow> (heap_table, tuple_version option) sm) \<Rightarrow> (tuple_version \<Rightarrow> bool)
    \<Rightarrow> tid set \<Rightarrow> (tid \<times> tuple_version) option \<Rightarrow> tid option \<Rightarrow> (heap_table, (tid \<times> tuple_version) option) sm" where
  "follow_links 0 read accepted visited found current = sm_raise PyRecursionError"
| "follow_links (Suc n) read accepted visited found current =
     (case current of
        None \<Rightarrow> sm_return found
      | Some t \<Rightarrow>
          if t \<in> visited then sm_raise CorruptPage
          else
            sm_bind (read t) (\<lambda>version.
            case version of
              None \<Rightarrow> sm_return found
            | Some v \<Rightarrow>
                follow_links n read accepted (insert t visited) (if accepted v then Some (t, v) else found) (tv_next_tid v)))"

definition visible_values :: "(tid \<times> tuple_version) option \<Rightarrow> (tid \<times> scalar list) option" where
  "visible_values found = map_option (\<lambda>(t, v). (t, tv_values v)) found"

definition resolve_visible :: "tid \<Rightarrow> snapshot \<Rightarrow> nat \<Rightarrow> status_table \<Rightarrow> (heap_table, (tid \<times> scalar list) option) sm" where
  "resolve_visible t s current_xid statuses h =
     sm_bind (follow_links (link_fuel h) physical_version (\<lambda>v. is_visible v s current_xid statuses) {} None (Some t))
       (\<lambda>found. sm_return (visible_values found)) h"

definition fetch_visible :: "tid \<Rightarrow> snapshot \<Rightarrow> nat \<Rightarrow> status_table \<Rightarrow> (heap_table, scalar list option) sm" where
  "fetch_visible t s current_xid statuses =
     sm_bind (resolve_visible t s current_xid statuses) (\<lambda>resolved. sm_return (map_option snd resolved))"

text \<open>The first members of chains, in scan order, each resolved.\<close>

definition continuations :: "(tid \<times> tuple_version) list \<Rightarrow> tid set" where
  "continuations physical = {t. Some t \<in> (\<lambda>(_, v). tv_next_tid v) ` set physical}"

fun resolve_roots :: "(tid \<Rightarrow> (heap_table, 'a option) sm) \<Rightarrow> tid list \<Rightarrow> (heap_table, 'a list) sm" where
  "resolve_roots resolve [] = sm_return []"
| "resolve_roots resolve (t # ts) =
     sm_bind (resolve t) (\<lambda>resolved.
     sm_bind (resolve_roots resolve ts) (\<lambda>rows.
     sm_return (case resolved of None \<Rightarrow> rows | Some row \<Rightarrow> row # rows)))"

definition scan_visible :: "snapshot \<Rightarrow> nat \<Rightarrow> status_table \<Rightarrow> (heap_table, (tid \<times> scalar list) list) sm" where
  "scan_visible s current_xid statuses =
     sm_bind scan_versions (\<lambda>physical.
     resolve_roots (\<lambda>t. resolve_visible t s current_xid statuses)
       (filter (\<lambda>t. t \<notin> continuations physical) (map fst physical)))"

definition globally_live :: "nat \<Rightarrow> status_table \<Rightarrow> tuple_version \<Rightarrow> bool" where
  "globally_live current_xid statuses v =
     ((tv_xmin v \<in> {SYSTEM_XID, current_xid} \<or> status_get statuses (tv_xmin v) = StCOMMITTED)
      \<and> \<not> (tv_xmax v \<noteq> 0 \<and> (tv_xmax v = current_xid \<or> status_get statuses (tv_xmax v) = StCOMMITTED)))"

definition resolve_live_from_root ::
    "tid \<Rightarrow> nat \<Rightarrow> status_table \<Rightarrow> (tid \<times> tuple_version) list option \<Rightarrow> (heap_table, (tid \<times> scalar list) option) sm" where
  "resolve_live_from_root root current_xid statuses physical h =
     sm_bind (follow_links (link_fuel h)
         (case physical of None \<Rightarrow> physical_version | Some rows \<Rightarrow> (\<lambda>t. sm_return (map_of rows t)))
         (globally_live current_xid statuses) {} None (Some root))
       (\<lambda>found. sm_return (visible_values found)) h"

definition scan_globally_live :: "status_table \<Rightarrow> (heap_table, (tid \<times> scalar list) list) sm" where
  "scan_globally_live statuses =
     sm_bind scan_versions (\<lambda>physical.
     resolve_roots (\<lambda>t. resolve_live_from_root t 0 statuses (Some physical))
       (filter (\<lambda>t. t \<notin> continuations physical) (map fst physical)))"

text \<open>The predecessor of each version; a dictionary comprehension keeps the last of several.\<close>

definition predecessors :: "(tid \<times> tuple_version) list \<Rightarrow> (tid \<times> tid) list" where
  "predecessors physical = rev (concat (map (\<lambda>(t, v). case tv_next_tid v of None \<Rightarrow> [] | Some n \<Rightarrow> [(n, t)]) physical))"

fun climb :: "nat \<Rightarrow> (tid \<times> tid) list \<Rightarrow> tid set \<Rightarrow> tid \<Rightarrow> tid result" where
  "climb 0 pred visited current = Inl PyRecursionError"
| "climb (Suc n) pred visited current =
     (case map_of pred current of
        None \<Rightarrow> Inr current
      | Some p \<Rightarrow> if current \<in> visited then Inl CorruptPage else climb n pred (insert current visited) p)"

definition root_tid :: "tid \<Rightarrow> (heap_table, tid) sm" where
  "root_tid t =
     sm_bind scan_versions (\<lambda>physical.
     sm_lift (climb (length (predecessors physical) + 2) (predecessors physical) {} t))"

definition resolve_globally_live :: "tid \<Rightarrow> nat \<Rightarrow> status_table \<Rightarrow> (heap_table, (tid \<times> scalar list) option) sm" where
  "resolve_globally_live t current_xid statuses =
     sm_bind (root_tid t) (\<lambda>root. resolve_live_from_root root current_xid statuses None)"

text \<open>The members of a chain that must stay on one page.\<close>

fun chain_members :: "nat \<Rightarrow> nat \<Rightarrow> tid set \<Rightarrow> (tid \<times> tuple_version) list \<Rightarrow> tid option
    \<Rightarrow> (heap_table, (tid \<times> tuple_version) list) sm" where
  "chain_members 0 page_id visited members current = sm_raise PyRecursionError"
| "chain_members (Suc n) page_id visited members current =
     (case current of
        None \<Rightarrow> sm_return members
      | Some t \<Rightarrow>
          if t \<in> visited then sm_raise CorruptPage
          else if tid_page t \<noteq> page_id then sm_raise CorruptPage
          else
            sm_bind (physical_version t) (\<lambda>version.
            case version of
              None \<Rightarrow> sm_raise CorruptPage
            | Some v \<Rightarrow> chain_members n page_id (insert t visited) (members @ [(t, v)]) (tv_next_tid v)))"

definition version_chain :: "tid \<Rightarrow> (heap_table, (tid \<times> tuple_version) list) sm" where
  "version_chain root h = chain_members (link_fuel h) (tid_page root) {} [] (Some root) h"

text \<open>Unlinking removable members; the walk holds the predecessor it would have to relink.\<close>

fun prune_links :: "nat \<Rightarrow> tid set \<Rightarrow> nat \<Rightarrow> tid \<Rightarrow> tuple_version \<Rightarrow> tid option \<Rightarrow> nat \<Rightarrow> nat
    \<Rightarrow> (heap_table, nat \<times> nat) sm" where
  "prune_links 0 removable xid ptid pred current removed reclaimed = sm_raise PyRecursionError"
| "prune_links (Suc n) removable xid ptid pred current removed reclaimed =
     (case current of
        None \<Rightarrow> sm_return (removed, reclaimed)
      | Some t \<Rightarrow>
          sm_bind (physical_version t) (\<lambda>version.
          case version of
            None \<Rightarrow> sm_raise CorruptPage
          | Some v \<Rightarrow>
              if t \<in> removable
              then
                let pred' = pred\<lparr>tv_next_tid := tv_next_tid v\<rparr>
                in sm_bind (set_version ptid pred' xid) (\<lambda>_.
                   sm_bind (reclaim_version t xid) (\<lambda>freed.
                   prune_links n removable xid ptid pred' (tv_next_tid v) (removed + 1) (reclaimed + freed)))
              else prune_links n removable xid t v (tv_next_tid v) removed reclaimed))"

definition prune_chain :: "tid \<Rightarrow> tid set \<Rightarrow> nat \<Rightarrow> (heap_table, nat \<times> nat) sm" where
  "prune_chain root removable xid =
     sm_bind (physical_version root) (\<lambda>version.
     case version of
       None \<Rightarrow> sm_return (0, 0)
     | Some v \<Rightarrow> (\<lambda>h. prune_links (link_fuel h) removable xid root v (tv_next_tid v) 0 0 h))"

section \<open>Opening\<close>

fun bootstrap_pages :: "nat list \<Rightarrow> (heap_table, unit) sm" where
  "bootstrap_pages [] = sm_return ()"
| "bootstrap_pages (page_id # page_ids) =
     sm_bind (\<lambda>h. ht_with (fetch_page (heap_page_key (ht_table_id h) page_id)) (\<lambda>g.
       sm_bind (ht_slotted_page g) (\<lambda>page. on_free_space (fsm_record page_id (available_free_bytes page)))) h) (\<lambda>_.
     bootstrap_pages page_ids)"

definition bootstrap_free_space :: "(heap_table, unit) sm" where
  "bootstrap_free_space =
     sm_bind ht_page_count (\<lambda>n.
     sm_bind (sm_get (\<lambda>h. fsm_page_count (ht_free_space h))) (\<lambda>recorded.
     if n < recorded then sm_raise CorruptPage else bootstrap_pages [recorded..<n]))"

definition ht_open :: "nat \<Rightarrow> schema \<Rightarrow> bool \<Rightarrow> nat list option \<Rightarrow> nat set \<Rightarrow> (buffer_pool, heap_table) sm" where
  "ht_open table_id s logged stored writers b =
     (case res_bind (fsm_open stored PAGE_BODY_SIZE) (\<lambda>f. res_bind (mk_tuple_codec s) (\<lambda>codec. Inr (f, codec))) of
        Inl e \<Rightarrow> (Inl e, b)
      | Inr (f, codec) \<Rightarrow>
          (case bootstrap_free_space \<lparr>ht_pool = b, ht_table_id = table_id, ht_codec = codec, ht_free_space = f,
                  ht_logged = logged, ht_has_writes = writers\<rparr> of
             (Inl e, h) \<Rightarrow> (Inl e, ht_pool h)
           | (Inr _, h) \<Rightarrow> (Inr h, ht_pool h)))"

end
