(* ===== verification/Heap_Store.thy ===== *)
theory Heap_Store
  imports Heap
begin

text \<open>
  The heap of \<open>storage/heap.py\<close> as a map from row identifiers to tuple versions. Shows that the
  logged operations read and change exactly the versions they name, through the slotted pages,
  the log and the buffer pool below.
\<close>

section \<open>Pages of the heap\<close>

lemma available_bounds: "sp_wf p \<Longrightarrow> 0 \<le> available_free_bytes p \<and> available_free_bytes p \<le> int PAGE_BODY_SIZE"
  using valid_live_bytes [of p] by (auto simp: sp_wf_def sp_valid_iff available_free_bytes_def SLOTTED_BODY_SIZE_def)

lemma heap_page_stored:
  assumes wf: "sp_wf p" and key: "valid_page_key key" "sp_page_id p = key_page_id key"
    and lsn: "lsn < 2 ^ 64"
  obtains body q p' where "slotted_to_bytes p = Inr body" and "encode_page key KindHEAP lsn body = Inr q"
    and "heap_page_of key q = Inr p'" and "sp_wf p'" and "sp_map p' = sp_map p" and "sp_page_id p' = key_page_id key"
proof -
  obtain body p' where b: "slotted_to_bytes p = Inr body" "length body = PAGE_BODY_SIZE"
    "slotted_from_bytes (sp_page_id p) body = Inr p'" "sp_wf p'" "sp_abs p' = sp_abs p" "sp_page_id p' = sp_page_id p"
    using slotted_bytes_read_back [OF wf] by (auto simp: SLOTTED_BODY_SIZE_def)
  obtain q where q: "encode_page key KindHEAP lsn body = Inr q" using encode_page_eq [OF key(1) lsn] b(2) by simp
  have "body \<noteq> []" using b(2) by (auto simp: page_sizes)
  then have "heap_page_of key q = Inr p'"
    using encode_page_decode [OF q key(1)] b(3) key(2) by (simp add: heap_page_of_def)
  then show thesis using that b q key(2) sp_map_eqD by metis
qed

lemma blank_stored:
  assumes "encode_page key KindHEAP 0 [] = Inr q" and "valid_page_key key"
  shows "heap_page_of key q = Inr (blank_page (key_page_id key))"
  using encode_page_decode [OF assms] by (simp add: heap_page_of_def slotted_empty_blank)

section \<open>Guarded blocks\<close>

lemma ht_with_ok:
  assumes acq: "acquire (ht_pool h) = (Inr g, b1)" and pg: "pins b1 = ps[pg_frame_id g := Suc (ps ! pg_frame_id g)]"
    and body: "body g (h\<lparr>ht_pool := b1\<rparr>) = (r, h2)" "bp_inv (ht_pool h2)" "pool_logged (ht_pool h2)" "live_guard (ht_pool h2) g"
      "pins (ht_pool h2) = pins b1"
  obtains b3 where "ht_with acquire body h = (r, h2\<lparr>ht_pool := b3\<rparr>)" and "bp_inv b3" and "pool_logged b3"
    and "bp_view b3 = bp_view (ht_pool h2)" and "pins b3 = ps" and "bp_wal b3 = bp_wal (ht_pool h2)" and "bp_disk b3 = bp_disk (ht_pool h2)"
proof -
  obtain g' b3 where rel: "pg_release g (ht_pool h2) = (Inr g', b3)" "bp_inv b3" "pool_logged b3" "bp_view b3 = bp_view (ht_pool h2)"
    "pins b3 = ps" "bp_wal b3 = bp_wal (ht_pool h2)" "bp_disk b3 = bp_disk (ht_pool h2)"
    using release_ready [OF body(2-4), of ps] body(5) pg by metis
  have "ht_with acquire body h = (r, h2\<lparr>ht_pool := b3\<rparr>)"
    using acq body(1) rel(1) by (simp add: ht_with_def sm_bind_def on_ht_pool_def)
  then show thesis using that rel by blast
qed

text \<open>Publishing a changed page for a transaction: the log gets its image, the pool the page.\<close>

lemma publish_page_ok:
  assumes inv: "bp_inv (ht_pool h)" and log: "pool_logged (ht_pool h)" and g: "live_guard (ht_pool h) g"
    and w: "ht_logged h" "bp_wal (ht_pool h) = Some w" "\<not> wm_closed w" and room: "wm_end_lsn w + 10000 < 2 ^ 64" "xid < 2 ^ 64"
    and p: "sp_wf p" "sp_page_id p = key_page_id (pg_key g)"
  shows "\<exists>b' w' q p'. publish_page g p (Some xid) h = (Inr (), h\<lparr>ht_pool := b', ht_has_writes := insert xid (ht_has_writes h)\<rparr>)
    \<and> bp_inv b' \<and> pool_logged b' \<and> live_guard b' g \<and> pins b' = pins (ht_pool h) \<and> bp_disk b' = bp_disk (ht_pool h)
    \<and> bp_view b' = (bp_view (ht_pool h))(pg_key g \<mapsto> q) \<and> heap_page_of (pg_key g) q = Inr p' \<and> sp_wf p' \<and> sp_map p' = sp_map p
    \<and> sp_page_id p' = key_page_id (pg_key g)
    \<and> bp_wal b' = Some w' \<and> \<not> wm_closed w' \<and> wm_end_lsn w' \<le> wm_end_lsn w + 10000"
proof -
  define b where "b = ht_pool h"
  have v: "valid_page_key (pg_key g)" using inv g by (auto simp: live_guard_def bp_inv_def bp_core_def frame_ok_def b_def)
  have wi: "wal_inv w" using log w(2) by (auto simp: pool_logged_def)
  define h0 where "h0 = h\<lparr>ht_has_writes := insert xid (ht_has_writes h)\<rparr>"
  obtain w1 where w1: "(if xid \<in> ht_has_writes h then sm_return ()
      else sm_bind (on_ht_wal (wal_append xid BeginRecord) w) (\<lambda>_. sm_modify (\<lambda>h. h\<lparr>ht_has_writes := insert xid (ht_has_writes h)\<rparr>))) h
      = (Inr (), h0\<lparr>ht_pool := b\<lparr>bp_wal := Some w1\<rparr>\<rparr>)"
    "pool_logged (b\<lparr>bp_wal := Some w1\<rparr>)" "\<not> wm_closed w1" "wm_end_lsn w \<le> wm_end_lsn w1" "wm_end_lsn w1 \<le> wm_end_lsn w + 36"
  proof (cases "xid \<in> ht_has_writes h")
    case True
    have bw: "b\<lparr>bp_wal := Some w\<rparr> = b" using w(2) by (cases b) (simp add: b_def)
    have eq: "h0\<lparr>ht_pool := b\<lparr>bp_wal := Some w\<rparr>\<rparr> = h" unfolding bw using True by (cases h) (simp add: h0_def b_def insert_absorb)
    have pl: "pool_logged (b\<lparr>bp_wal := Some w\<rparr>)" unfolding bw using log by (simp add: b_def)
    show thesis by (rule that [of w]) (use True pl eq w in simp_all)
  next
    case False
    obtain w1 where a: "wal_append xid BeginRecord w = (Inr (wm_end_lsn w), w1)" "wm_end_lsn w1 = wm_end_lsn w + 36"
      using wal_append_empty_payload [of w BeginRecord xid] w(3) room by auto
    have "pool_logged (b\<lparr>bp_wal := Some w1\<rparr>)" using append_logged [OF log w(2) _ a(1)] by (simp add: b_def)
    moreover have "\<not> wm_closed w1" using wal_append_ok(7) [OF wi a(1)] w(3) by simp
    ultimately show thesis
      using that [of w1] False a by (simp add: sm_bind_def on_ht_wal_def h0_def b_def)
  qed
  define b1 where "b1 = b\<lparr>bp_wal := Some w1\<rparr>"
  have i1: "bp_inv b1" "live_guard b1 g" using inv g by (simp_all add: b1_def b_def bp_inv_wal live_guard_def)
  have lsn: "wm_end_lsn w1 < 2 ^ 64" using w1(5) room by simp
  obtain body q p' where st: "slotted_to_bytes p = Inr body" "encode_page (pg_key g) KindHEAP (wm_end_lsn w1) body = Inr q"
    "heap_page_of (pg_key g) q = Inr p'" "sp_wf p'" "sp_map p' = sp_map p" "sp_page_id p' = key_page_id (pg_key g)"
    using heap_page_stored [OF p(1) v p(2) lsn] by blast
  have ql: "length q = PAGE_SIZE" by (rule encode_page_length [OF st(2)])
  obtain w2 where w2: "wal_append xid (HeapPageImagesRecord [(pg_key g, q)]) w1 = (Inr (wm_end_lsn w1), w2)" "wm_end_lsn w2 \<le> wm_end_lsn w1 + 9000"
    using wal_append_image [OF w1(3) v ql lsn room(2)] by blast
  have vr: "valid_record (HeapPageImagesRecord [(pg_key g, q)])" using v ql by simp
  have wi1: "wal_inv w1" using w1(2) by (auto simp: pool_logged_def)
  note a2 = wal_append_ok [OF wi1 w2(1) vr]
  define b2 where "b2 = b\<lparr>bp_wal := Some w2\<rparr>"
  have l2: "pool_logged b2" using append_logged [OF w1(2) _ vr w2(1)] by (simp add: b2_def)
  have i2: "bp_inv b2" "live_guard b2 g" using inv g by (simp_all add: b2_def b_def bp_inv_wal live_guard_def)
  have "lsn_logged w1 (fr_lsn (bp_frames b1 ! pg_frame_id g))"
    using w1(2) g by (auto simp: pool_logged_def b_def b1_def live_guard_def)
  then have old: "fr_lsn (bp_frames b2 ! pg_frame_id g) \<le> wm_end_lsn w1" by (auto simp: lsn_logged_def b1_def b2_def)
  obtain res b3 where pb: "publish_bytes g q (wm_end_lsn w1) b2 = (res, b3)" by fastforce
  have c: "res = Inr ()" "bp_inv b3" "bp_view b3 = (bp_view b2)(pg_key g \<mapsto> q)"
    "b3 = put_frame (pg_frame_id g) ((bp_frames b2 ! pg_frame_id g)\<lparr>fr_bytes := q, fr_lsn := wm_end_lsn w1, fr_dirty := True\<rparr>) b2"
    using publish_cases [OF i2(1) st(2) pb] i2(2) old by auto
  have l3: "pool_logged b3"
  proof (rule publish_logged [OF l2 i2(1) st(2) _ pb])
    obtain d where "wm_entries w2 = wm_entries w1 @ [d]" "wr_lsn d = wm_end_lsn w1" using a2(3) by blast
    then show "wm_end_lsn w1 = 0 \<or> (\<exists>w. bp_wal b2 = Some w \<and> (\<exists>e \<in> set (wm_entries w). wr_lsn e = wm_end_lsn w1))"
      by (auto simp: b2_def)
  qed
  have g3: "live_guard b3 g" using i2(2) unfolding c(4) by (auto simp: live_guard_def put_frame_def)
  have pins3: "pins b3 = pins b2"
    unfolding c(4) using i2(2) by (auto simp: pins_def put_frame_def live_guard_def nth_list_update intro!: nth_equalityI)
  have view2: "bp_view b2 = bp_view b" by (simp add: b2_def bp_view_def [abs_def] cong: option.case_cong)
  have img: "mk_heap_page_images [(pg_key g, q)] = Inr (HeapPageImagesRecord [(pg_key g, q)])" using ql by (simp add: mk_heap_page_images_def)
  have wal0: "ht_wal h = Some w" using w by (simp add: ht_wal_def)
  have wal1: "ht_wal (h0\<lparr>ht_pool := b\<lparr>bp_wal := Some w1\<rparr>\<rparr>) = Some w1" using w(1) by (simp add: ht_wal_def h0_def)
  have "publish_page g p (Some xid) h = (Inr (), h0\<lparr>ht_pool := b3\<rparr>)"
    using st(1,2) w2(1) pb c(1)
    by (simp add: publish_page_def wal0 sm_bind_def w1(1) wal1 Let_def img on_ht_wal_def on_ht_pool_def b2_def)
  moreover have "h0\<lparr>ht_pool := b3\<rparr> = h\<lparr>ht_pool := b3, ht_has_writes := insert xid (ht_has_writes h)\<rparr>" by (simp add: h0_def)
  moreover have "bp_disk b3 = bp_disk b" "bp_wal b3 = Some w2" unfolding c(4) by (simp_all add: put_frame_def b2_def)
  moreover have "pins b2 = pins b" by (simp add: pins_def b2_def)
  moreover have "\<not> wm_closed w2" using a2(7) w1(3) by simp
  moreover have "wm_end_lsn w2 \<le> wm_end_lsn w + 10000" using w2(2) w1(5) by linarith
  ultimately show ?thesis using c(2,3) l3 g3 pins3 st(3-6) view2 unfolding b_def [symmetric] by (intro exI [of _ b3] exI [of _ w2] exI [of _ q] exI [of _ p']) simp
qed

section \<open>The heap as a map\<close>

definition ht_pages :: "heap_table \<Rightarrow> nat" where
  "ht_pages h = disk_pages (bp_disk (ht_pool h)) (ht_relation h)"

definition log_end :: "heap_table \<Rightarrow> nat" where
  "log_end h = wm_end_lsn (the (bp_wal (ht_pool h)))"

definition page_at :: "heap_table \<Rightarrow> nat \<Rightarrow> slotted_page option" where
  "page_at h pid =
     (if pid < ht_pages h then
        (case bp_view (ht_pool h) (heap_page_key (ht_table_id h) pid) of
           None \<Rightarrow> None
         | Some q \<Rightarrow> (case heap_page_of (heap_page_key (ht_table_id h) pid) q of Inl _ \<Rightarrow> None | Inr p \<Rightarrow> Some p))
      else None)"

definition heap_map :: "heap_table \<Rightarrow> nat \<Rightarrow> (nat \<rightharpoonup> bytes) option" where
  "heap_map h pid = map_option sp_map (page_at h pid)"

definition version_at :: "tuple_codec \<Rightarrow> (nat \<Rightarrow> (nat \<rightharpoonup> bytes) option) \<Rightarrow> tid \<Rightarrow> tuple_version option" where
  "version_at codec M t =
     (case M (tid_page t) of
        None \<Rightarrow> None
      | Some m \<Rightarrow> (case m (tid_slot t) of
          None \<Rightarrow> None
        | Some e \<Rightarrow> (case tuple_decode codec e of Inl _ \<Rightarrow> None | Inr v \<Rightarrow> Some v)))"

definition heap_view :: "heap_table \<Rightarrow> tid \<rightharpoonup> tuple_version" where
  "heap_view h = version_at (ht_codec h) (heap_map h)"

text \<open>Every page is a well-formed slotted page of encoded versions; the pool is ready for the next one.\<close>

definition readable :: "tuple_codec \<Rightarrow> (nat \<rightharpoonup> bytes) \<Rightarrow> bool" where
  "readable codec m \<longleftrightarrow> (\<forall>i e. m i = Some e \<longrightarrow> (\<exists>v. tuple_encodable codec v \<and> tuple_encode codec v = Inr e))"

definition heap_ok :: "heap_table \<Rightarrow> bool" where
  "heap_ok h \<longleftrightarrow> pool_ready (ht_pool h) \<and> ht_table_id h < 2 ^ 64 \<and> ht_logged h
     \<and> (\<forall>pid < ht_pages h. pid < 2 ^ 64 \<and> (\<exists>p. page_at h pid = Some p \<and> sp_wf p \<and> sp_page_id p = pid \<and> readable (ht_codec h) (sp_map p)))
     \<and> fsm_maximum (ht_free_space h) = PAGE_BODY_SIZE \<and> fsm_page_count (ht_free_space h) \<le> ht_pages h"

definition heap_next :: "heap_table \<Rightarrow> (nat \<Rightarrow> (nat \<rightharpoonup> bytes) option) \<Rightarrow> nat \<Rightarrow> nat \<Rightarrow> heap_table \<Rightarrow> bool" where
  "heap_next h M n k h' \<longleftrightarrow> heap_ok h' \<and> heap_map h' = M \<and> ht_pages h' = n \<and> log_end h' \<le> log_end h + k
     \<and> ht_table_id h' = ht_table_id h \<and> ht_codec h' = ht_codec h"

abbreviation heap_same :: "heap_table \<Rightarrow> heap_table \<Rightarrow> bool" where
  "heap_same h h' \<equiv> heap_next h (heap_map h) (ht_pages h) 0 h'"

lemma heap_nextD:
  assumes "heap_next h M n k h'"
  shows "heap_ok h'" "heap_map h' = M" "ht_pages h' = n" "log_end h' \<le> log_end h + k" "ht_table_id h' = ht_table_id h" "ht_codec h' = ht_codec h"
  using assms by (auto simp: heap_next_def)

lemma heap_next_trans: "heap_next h M n k h1 \<Longrightarrow> heap_next h1 M' n' k' h2 \<Longrightarrow> heap_next h M' n' (k + k') h2"
  by (auto simp: heap_next_def)

lemma heap_same_refl: "heap_ok h \<Longrightarrow> heap_same h h"
  by (simp add: heap_next_def)

lemma heap_okD:
  assumes "heap_ok h"
  shows "pool_ready (ht_pool h)" "ht_table_id h < 2 ^ 64" "ht_logged h" "fsm_maximum (ht_free_space h) = PAGE_BODY_SIZE"
    "fsm_page_count (ht_free_space h) \<le> ht_pages h"
  using assms by (auto simp: heap_ok_def)

lemma heap_key_valid: "heap_ok h \<Longrightarrow> pid < 2 ^ 64 \<Longrightarrow> valid_page_key (heap_page_key (ht_table_id h) pid)"
  by (simp add: heap_ok_def valid_page_key_def heap_page_key_def heap_relation_def)

lemma heap_pageE:
  assumes "heap_ok h" and "pid < ht_pages h"
  obtains p q where "page_at h pid = Some p" and "sp_wf p" and "sp_page_id p = pid" and "readable (ht_codec h) (sp_map p)"
    and "bp_view (ht_pool h) (heap_page_key (ht_table_id h) pid) = Some q" and "heap_page_of (heap_page_key (ht_table_id h) pid) q = Inr p"
    and "valid_page_key (heap_page_key (ht_table_id h) pid)" and "heap_map h pid = Some (sp_map p)"
proof -
  obtain p where p: "page_at h pid = Some p" "sp_wf p" "sp_page_id p = pid" "readable (ht_codec h) (sp_map p)" "pid < 2 ^ 64"
    using assms by (auto simp: heap_ok_def)
  then obtain q where "bp_view (ht_pool h) (heap_page_key (ht_table_id h) pid) = Some q" "heap_page_of (heap_page_key (ht_table_id h) pid) q = Inr p"
    by (auto simp: page_at_def split: if_splits option.splits sum.splits)
  then show thesis using that p heap_key_valid [OF assms(1)] by (simp add: heap_map_def)
qed

text \<open>A pool with the same logical pages holds the same heap.\<close>

lemma page_at_pool:
  assumes "bp_view b = bp_view (ht_pool h)" and "disk_pages (bp_disk b) = disk_pages (bp_disk (ht_pool h))"
  shows "page_at (h\<lparr>ht_pool := b\<rparr>) = page_at h" "ht_pages (h\<lparr>ht_pool := b\<rparr>) = ht_pages h"
  using assms by (simp_all add: page_at_def [abs_def] ht_pages_def ht_relation_def cong: if_cong option.case_cong)

lemma heap_same_pool:
  assumes "heap_ok h" and "pool_ready b" and "bp_view b = bp_view (ht_pool h)"
    and "disk_pages (bp_disk b) = disk_pages (bp_disk (ht_pool h))" and "wm_end_lsn (the (bp_wal b)) = log_end h"
  shows "heap_same h (h\<lparr>ht_pool := b\<rparr>)"
  using assms page_at_pool [OF assms(3,4)] by (simp add: heap_next_def heap_ok_def heap_map_def [abs_def] log_end_def)

lemma ht_page_count_ok:
  assumes "heap_ok h"
  shows "\<exists>h'. ht_page_count h = (Inr (ht_pages h), h') \<and> heap_same h h'"
proof -
  obtain b where b: "bp_page_count (ht_relation h) (ht_pool h) = (Inr (ht_pages h), b)" "pool_ready b" "bp_view b = bp_view (ht_pool h)"
    "disk_pages (bp_disk b) = disk_pages (bp_disk (ht_pool h))" "bp_wal b = bp_wal (ht_pool h)"
    using page_count_ready [OF heap_okD(1) [OF assms], of "ht_relation h"] unfolding ht_pages_def by metis
  have "heap_same h (h\<lparr>ht_pool := b\<rparr>)" using heap_same_pool [OF assms b(2-4)] b(5) by (simp add: log_end_def)
  then show ?thesis using b(1) by (simp add: ht_page_count_def on_ht_pool_def)
qed

lemma heap_same_frame:
  assumes h: "heap_ok h" and b: "bp_inv b" "pool_logged b" "bp_view b = bp_view (ht_pool h)" "pool_frame (ht_pool h) b"
  shows "heap_same h (h\<lparr>ht_pool := b\<rparr>)"
proof (rule heap_same_pool [OF h])
  show "pool_ready b" using pool_readyI [OF heap_okD(1) [OF h] b(4,1,2)] .
  show "disk_pages (bp_disk b) = disk_pages (bp_disk (ht_pool h))" "wm_end_lsn (the (bp_wal b)) = log_end h"
    using b(4) by (auto simp: pool_frame_def log_end_def)
qed (rule b(3))

lemma ht_slotted_page_ok:
  assumes "live_guard (ht_pool h) g" and "fr_bytes (bp_frames (ht_pool h) ! pg_frame_id g) = q" and "heap_page_of (pg_key g) q = Inr p"
  shows "ht_slotted_page g h = (Inr p, h)"
proof -
  have "pg_page_bytes g (ht_pool h) = (Inr q, ht_pool h)"
    using assms(1,2) by (simp add: pg_page_bytes_def guard_ensure_active_def guard_page_bytes_def sm_bind_def guarded_frame_cases live_guard_def)
  then show ?thesis using assms(3) by (simp add: ht_slotted_page_def sm_bind_def on_ht_pool_def)
qed

lemma fsm_frame:
  "page_at (h\<lparr>ht_free_space := f\<rparr>) = page_at h" "ht_pages (h\<lparr>ht_free_space := f\<rparr>) = ht_pages h" "log_end (h\<lparr>ht_free_space := f\<rparr>) = log_end h"
  by (simp_all add: fun_eq_iff page_at_def ht_pages_def ht_relation_def log_end_def cong: if_cong option.case_cong)

lemma heap_same_fsm:
  "heap_same h h1 \<Longrightarrow> fsm_maximum f = PAGE_BODY_SIZE \<Longrightarrow> fsm_page_count f \<le> ht_pages h \<Longrightarrow> heap_same h (h1\<lparr>ht_free_space := f\<rparr>)"
  unfolding heap_next_def heap_ok_def heap_map_def [abs_def] fsm_frame by auto

text \<open>A visit of a page that changes at most the free-space map.\<close>

lemma ht_visit_ok:
  assumes h: "heap_ok h" and pid: "pid < ht_pages h" and p: "page_at h pid = Some p"
    and fs: "fsm_maximum fs = PAGE_BODY_SIZE" "fsm_page_count fs \<le> ht_pages h"
    and K: "\<And>g b. K g p (h\<lparr>ht_pool := b\<rparr>) = (r, h\<lparr>ht_pool := b, ht_free_space := fs\<rparr>)"
  shows "\<exists>h'. ht_with (fetch_page (heap_page_key (ht_table_id h) pid)) (\<lambda>g. sm_bind (ht_slotted_page g) (K g)) h = (r, h') \<and> heap_same h h'"
proof -
  let ?k = "heap_page_key (ht_table_id h) pid"
  let ?body = "\<lambda>g. sm_bind (ht_slotted_page g) (K g)"
  obtain q where q: "bp_view (ht_pool h) ?k = Some q" "heap_page_of ?k q = Inr p" "valid_page_key ?k"
    using heap_pageE [OF h pid] p by (metis option.inject)
  obtain w where w: "bp_wal (ht_pool h) = Some w" "\<not> wm_closed w" using heap_okD(1) [OF h] by (auto simp: pool_ready_def)
  obtain g b1 where f: "fetch_page ?k (ht_pool h) = (Inr g, b1)" "bp_inv b1" "pool_logged b1" "bp_view b1 = bp_view (ht_pool h)"
    "live_guard b1 g" "pg_key g = ?k" "fr_bytes (bp_frames b1 ! pg_frame_id g) = q"
    "pins b1 = (pins (ht_pool h))[pg_frame_id g := Suc (pins (ht_pool h) ! pg_frame_id g)]" "outer_kept (ht_pool h) b1"
    using fetch_ready [OF heap_okD(1) [OF h] q(3,1)] by metis
  let ?h1 = "h\<lparr>ht_pool := b1\<rparr>" and ?h2 = "h\<lparr>ht_pool := b1, ht_free_space := fs\<rparr>"
  have body: "?body g ?h1 = (r, ?h2)"
    using ht_slotted_page_ok [of ?h1 g q p] f(5-7) q(2) K by (simp add: sm_bind_def)
  obtain b3 where b3: "ht_with (fetch_page ?k) ?body h = (r, ?h2\<lparr>ht_pool := b3\<rparr>)"
    "bp_inv b3" "pool_logged b3" "bp_view b3 = bp_view b1" "pins b3 = pins (ht_pool h)" "bp_wal b3 = bp_wal b1" "bp_disk b3 = bp_disk b1"
    using ht_with_ok [where acquire = "fetch_page ?k" and body = ?body, OF f(1,8) body] f(2,3,5) by auto
  have "outer_state (disk_pages (bp_disk (ht_pool h))) (wm_entries w) (wm_end_lsn w) b3"
    using f(9) outer_state_self [OF w] b3(6,7) by (auto simp: outer_state_def outer_kept_def)
  then have "pool_frame (ht_pool h) b3" using outer_state_frame [OF w] b3(5) by blast
  then have "heap_same h (h\<lparr>ht_pool := b3\<rparr>)" using heap_same_frame [OF h b3(2,3)] b3(4) f(4) by simp
  then have "heap_same h (h\<lparr>ht_pool := b3, ht_free_space := fs\<rparr>)" using heap_same_fsm [OF _ fs] by simp
  moreover have "?h2\<lparr>ht_pool := b3\<rparr> = h\<lparr>ht_pool := b3, ht_free_space := fs\<rparr>" by simp
  ultimately show ?thesis using b3(1) by metis
qed

lemma ht_read_page_ok:
  assumes h: "heap_ok h" and pid: "pid < ht_pages h" and p: "page_at h pid = Some p"
  shows "\<exists>h'. ht_read_page pid f h = (f p, h') \<and> heap_same h h'"
  unfolding ht_read_page_def using heap_okD(4,5) [OF h] by (intro ht_visit_ok [OF h pid p]) auto

lemma physical_version_ok:
  assumes h: "heap_ok h"
  shows "\<exists>h'. physical_version t h = (Inr (heap_view h t), h') \<and> heap_same h h'"
proof -
  obtain h1 where h1: "ht_page_count h = (Inr (ht_pages h), h1)" "heap_same h h1" using ht_page_count_ok [OF h] by blast
  note n1 = heap_nextD [OF h1(2)]
  have view: "heap_view h1 = heap_view h" using n1(2,6) by (simp add: heap_view_def)
  show ?thesis
  proof (cases "ht_pages h \<le> tid_page t")
    case True
    then have "heap_view h t = None" by (simp add: heap_view_def version_at_def heap_map_def page_at_def)
    then show ?thesis using h1 True by (auto simp: physical_version_def sm_bind_def)
  next
    case False
    then have pid: "tid_page t < ht_pages h1" using n1(3) by simp
    obtain p where p: "page_at h1 (tid_page t) = Some p" "sp_wf p" "readable (ht_codec h1) (sp_map p)" "heap_map h1 (tid_page t) = Some (sp_map p)"
      using heap_pageE [OF n1(1) pid] by metis
    let ?f = "\<lambda>page. none_on_key_error (res_bind (sp_read page (tid_slot t)) (tuple_decode (ht_codec h1)))"
    obtain h2 where h2: "ht_read_page (tid_page t) ?f h1 = (?f p, h2)" "heap_same h1 h2"
      using ht_read_page_ok [OF n1(1) pid p(1)] by blast
    have "?f p = Inr (heap_view h1 t)"
    proof (cases "sp_map p (tid_slot t)")
      case None
      then show ?thesis using p(4) page.read_law [OF p(2)] by (simp add: none_on_key_error_def heap_view_def version_at_def)
    next
      case (Some e)
      then obtain v where "tuple_decode (ht_codec h1) e = Inr v" using p(3) tuple_decode_encode unfolding readable_def by blast
      then show ?thesis using p(4) Some page.read_law [OF p(2)] by (simp add: none_on_key_error_def heap_view_def version_at_def)
    qed
    then show ?thesis using h1 h2 False view heap_next_trans [OF h1(2) h2(2)] n1(2,3) by (auto simp: physical_version_def sm_bind_def)
  qed
qed

section \<open>Changing one page\<close>

lemma publish_block_ok:
  assumes st: "ht_logged h" "fsm_maximum (ht_free_space h) = PAGE_BODY_SIZE"
    and acq: "acquire (ht_pool h) = (Inr g, b1)" "bp_inv b1" "pool_logged b1" "live_guard b1 g" "key_page_id (pg_key g) = pid"
      "pins b1 = ps[pg_frame_id g := Suc (ps ! pg_frame_id g)]"
    and w: "bp_wal b1 = Some w" "\<not> wm_closed w" and room: "wm_end_lsn w + 10000 < 2 ^ 64" "xid < 2 ^ 64"
    and p': "sp_wf p'" "sp_page_id p' = pid"
    and body: "\<forall>h2. publish_and_record g pid p' (Some xid) (h\<lparr>ht_pool := b1\<rparr>) = (Inr (), h2) \<longrightarrow> body g (h\<lparr>ht_pool := b1\<rparr>) = (Inr r, h2)"
  obtains b3 f q p'' w' W where "ht_with acquire body h = (Inr r, h\<lparr>ht_pool := b3, ht_free_space := f, ht_has_writes := W\<rparr>)"
    and "bp_inv b3" and "pool_logged b3" and "bp_view b3 = (bp_view b1)(pg_key g \<mapsto> q)" and "heap_page_of (pg_key g) q = Inr p''"
    and "sp_wf p''" and "sp_map p'' = sp_map p'" and "sp_page_id p'' = pid" and "pins b3 = ps" and "bp_disk b3 = bp_disk b1"
    and "fsm_maximum f = PAGE_BODY_SIZE" and "fsm_page_count f = max (Suc pid) (fsm_page_count (ht_free_space h))"
    and "bp_wal b3 = Some w'" and "\<not> wm_closed w'" and "wm_end_lsn w' \<le> wm_end_lsn w + 10000"
proof -
  let ?h1 = "h\<lparr>ht_pool := b1\<rparr>"
  obtain b2 w' q p'' where pb: "publish_page g p' (Some xid) ?h1 = (Inr (), ?h1\<lparr>ht_pool := b2, ht_has_writes := insert xid (ht_has_writes ?h1)\<rparr>)"
    and b2: "bp_inv b2" "pool_logged b2" "live_guard b2 g" "pins b2 = pins b1" "bp_disk b2 = bp_disk b1"
      "bp_view b2 = (bp_view b1)(pg_key g \<mapsto> q)" "heap_page_of (pg_key g) q = Inr p''" "sp_wf p''" "sp_map p'' = sp_map p'"
      "sp_page_id p'' = key_page_id (pg_key g)" "bp_wal b2 = Some w'" "\<not> wm_closed w'" "wm_end_lsn w' \<le> wm_end_lsn w + 10000"
    using publish_page_ok [of ?h1 g w xid p'] acq(2-5) st(1) w room p' by auto
  obtain f where f: "fsm_record pid (available_free_bytes p') (ht_free_space h) = (Inr (), f)" "fsm_maximum f = PAGE_BODY_SIZE"
    "fsm_page_count f = max (Suc pid) (fsm_page_count (ht_free_space h))"
    using fsm_record_ok [of "available_free_bytes p'" "ht_free_space h" pid] available_bounds [OF p'(1)] st(2) by metis
  define h2 where "h2 = h\<lparr>ht_pool := b2, ht_free_space := f, ht_has_writes := insert xid (ht_has_writes h)\<rparr>"
  have "publish_and_record g pid p' (Some xid) ?h1 = (Inr (), h2)"
    using pb f(1) by (simp add: publish_and_record_def sm_bind_def on_free_space_def h2_def)
  then have run: "body g ?h1 = (Inr r, h2)" using body by blast
  obtain b3 where b3: "ht_with acquire body h = (Inr r, h2\<lparr>ht_pool := b3\<rparr>)" "bp_inv b3" "pool_logged b3"
    "bp_view b3 = bp_view b2" "pins b3 = ps" "bp_wal b3 = bp_wal b2" "bp_disk b3 = bp_disk b2"
    using ht_with_ok [where acquire = acquire and body = body, OF acq(1,6) run] b2(1-4) by (auto simp: h2_def)
  have fin: "ht_with acquire body h = (Inr r, h\<lparr>ht_pool := b3, ht_free_space := f, ht_has_writes := insert xid (ht_has_writes h)\<rparr>)"
    using b3(1) by (simp add: h2_def)
  have view: "bp_view b3 = (bp_view b1)(pg_key g \<mapsto> q)" using b3(4) b2(6) by simp
  show thesis by (rule that [OF fin b3(2,3) view b2(7-9)]) (use b3 b2 f acq(5) in simp_all)
qed

lemma heap_next_put:
  assumes h: "heap_ok h" and n: "pid \<le> ht_pages h" "pid < 2 ^ 64"
    and b: "bp_inv b3" "pool_logged b3" "bp_view b3 = (bp_view (ht_pool h))(heap_page_key (ht_table_id h) pid \<mapsto> q)" "pins b3 = pins (ht_pool h)"
      "disk_pages (bp_disk b3) = (disk_pages (bp_disk (ht_pool h)))(ht_relation h := n)" "n = (if pid = ht_pages h then Suc pid else ht_pages h)"
    and p: "heap_page_of (heap_page_key (ht_table_id h) pid) q = Inr p''" "sp_wf p''" "sp_page_id p'' = pid" "readable (ht_codec h) (sp_map p'')"
    and f: "fsm_maximum f = PAGE_BODY_SIZE" "fsm_page_count f = max (Suc pid) (fsm_page_count (ht_free_space h))"
    and w: "bp_wal b3 = Some w'" "\<not> wm_closed w'" "wm_end_lsn w' \<le> log_end h + k"
  shows "heap_next h ((heap_map h)(pid \<mapsto> sp_map p'')) n k (h\<lparr>ht_pool := b3, ht_free_space := f, ht_has_writes := W\<rparr>)"
proof -
  let ?h = "h\<lparr>ht_pool := b3, ht_free_space := f, ht_has_writes := W\<rparr>"
  have pages: "ht_pages ?h = n" using b(5) by (simp add: ht_pages_def ht_relation_def)
  have pn: "pid < n" using n(1) b(6) by simp
  have same: "page_at ?h x = page_at h x" if "x \<noteq> pid" for x
  proof -
    have "x < n \<longleftrightarrow> x < ht_pages h" using that b(6) by auto
    then show ?thesis using that b(3) pages by (simp add: page_at_def heap_page_key_def cong: option.case_cong)
  qed
  have at: "page_at ?h pid = Some p''" using pn pages b(3) p(1) by (simp add: page_at_def)
  have "heap_map ?h = (heap_map h)(pid \<mapsto> sp_map p'')" using same at by (auto simp: heap_map_def fun_eq_iff)
  moreover have "heap_ok ?h"
    unfolding heap_ok_def
  proof (intro conjI allI impI)
    show "pool_ready (ht_pool ?h)" using heap_okD(1) [OF h] b(1,2,4) w by (simp add: pool_ready_def)
    fix x assume x: "x < ht_pages ?h"
    show "x < 2 ^ 64" using x pages b(6) n h by (cases "x = pid") (auto simp: heap_ok_def split: if_splits)
    show "\<exists>p. page_at ?h x = Some p \<and> sp_wf p \<and> sp_page_id p = x \<and> readable (ht_codec ?h) (sp_map p)"
    proof (cases "x = pid")
      case True
      then show ?thesis using at p by simp
    next
      case False
      then have "x < ht_pages h" using x pages b(6) by (auto split: if_splits)
      then show ?thesis using same [OF False] h by (auto simp: heap_ok_def)
    qed
  qed (use h f heap_okD [OF h] pages b(6) n(1) in \<open>auto simp: heap_ok_def\<close>)
  ultimately show ?thesis using w pages by (simp add: heap_next_def log_end_def)
qed

text \<open>Changing an existing page.\<close>

lemma ht_change_ok:
  assumes h: "heap_ok h" and pid: "pid < ht_pages h" and p: "page_at h pid = Some p"
    and p': "sp_wf p'" "sp_page_id p' = pid" "readable (ht_codec h) (sp_map p')"
    and room: "log_end h + 10000 < 2 ^ 64" "xid < 2 ^ 64"
    and K: "\<And>g h1 h2. publish_and_record g pid p' (Some xid) h1 = (Inr (), h2) \<Longrightarrow> K g p h1 = (Inr r, h2)"
  shows "\<exists>h'. ht_with (fetch_page (heap_page_key (ht_table_id h) pid)) (\<lambda>g. sm_bind (ht_slotted_page g) (K g)) h = (Inr r, h')
    \<and> heap_next h ((heap_map h)(pid \<mapsto> sp_map p')) (ht_pages h) 10000 h'"
proof -
  let ?k = "heap_page_key (ht_table_id h) pid"
  obtain q where q: "bp_view (ht_pool h) ?k = Some q" "heap_page_of ?k q = Inr p" "valid_page_key ?k"
    using heap_pageE [OF h pid] p by (metis option.inject)
  obtain w where w: "bp_wal (ht_pool h) = Some w" "\<not> wm_closed w" using heap_okD(1) [OF h] by (auto simp: pool_ready_def)
  obtain g b1 where f: "fetch_page ?k (ht_pool h) = (Inr g, b1)" "bp_inv b1" "pool_logged b1" "bp_view b1 = bp_view (ht_pool h)"
    "live_guard b1 g" "pg_key g = ?k" "fr_bytes (bp_frames b1 ! pg_frame_id g) = q"
    "pins b1 = (pins (ht_pool h))[pg_frame_id g := Suc (pins (ht_pool h) ! pg_frame_id g)]" "outer_kept (ht_pool h) b1"
    using fetch_ready [OF heap_okD(1) [OF h] q(3,1)] by metis
  have o: "outer_state (disk_pages (bp_disk (ht_pool h))) (wm_entries w) (wm_end_lsn w) b1"
    using f(9) outer_state_self [OF w] by (auto simp: outer_kept_def)
  then obtain w1 where w1: "bp_wal b1 = Some w1" "\<not> wm_closed w1" "wm_end_lsn w1 = log_end h"
    and dp: "disk_pages (bp_disk b1) = disk_pages (bp_disk (ht_pool h))"
    using w by (auto simp: outer_state_def log_end_def)
  let ?body = "\<lambda>g. sm_bind (ht_slotted_page g) (K g)"
  have body: "\<forall>h2. publish_and_record g pid p' (Some xid) (h\<lparr>ht_pool := b1\<rparr>) = (Inr (), h2) \<longrightarrow> ?body g (h\<lparr>ht_pool := b1\<rparr>) = (Inr r, h2)"
    using K ht_slotted_page_ok [of "h\<lparr>ht_pool := b1\<rparr>" g q p] f(5-7) q(2) by (simp add: sm_bind_def)
  have kp: "key_page_id (pg_key g) = pid" using f(6) by (simp add: heap_page_key_def)
  have rm: "wm_end_lsn w1 + 10000 < 2 ^ 64" using room(1) w1(3) by simp
  obtain b3 fs q' p'' w' W where r: "ht_with (fetch_page ?k) ?body h = (Inr r, h\<lparr>ht_pool := b3, ht_free_space := fs, ht_has_writes := W\<rparr>)"
    "bp_inv b3" "pool_logged b3" "bp_view b3 = (bp_view b1)(pg_key g \<mapsto> q')" "heap_page_of (pg_key g) q' = Inr p''"
    "sp_wf p''" "sp_map p'' = sp_map p'" "sp_page_id p'' = pid" "pins b3 = pins (ht_pool h)" "bp_disk b3 = bp_disk b1"
    "fsm_maximum fs = PAGE_BODY_SIZE" "fsm_page_count fs = max (Suc pid) (fsm_page_count (ht_free_space h))"
    "bp_wal b3 = Some w'" "\<not> wm_closed w'" "wm_end_lsn w' \<le> wm_end_lsn w1 + 10000"
    by (rule publish_block_ok [where body = ?body and acquire = "fetch_page ?k" and h = h, OF heap_okD(3,4) [OF h] f(1-3,5) kp f(8) w1(1,2) rm room(2) p'(1,2) body])
      (rule that)
  have "pid < 2 ^ 64" using h pid by (auto simp: heap_ok_def)
  moreover have "disk_pages (bp_disk b3) = (disk_pages (bp_disk (ht_pool h)))(ht_relation h := ht_pages h)"
    using r(10) dp by (simp add: ht_pages_def fun_eq_iff)
  ultimately have "heap_next h ((heap_map h)(pid \<mapsto> sp_map p'')) (ht_pages h) 10000 (h\<lparr>ht_pool := b3, ht_free_space := fs, ht_has_writes := W\<rparr>)"
    using heap_next_put [OF h _ _ r(2,3) _ r(9), of pid q' "ht_pages h" p'' fs w' 10000 W] r pid p'(3) f(4,6) w1(3) by simp
  then show ?thesis using r(1,7) by auto
qed

text \<open>A new page.\<close>

lemma ht_extend_ok:
  assumes h: "heap_ok h" and n: "ht_pages h < 2 ^ 64"
    and p': "sp_wf p'" "sp_page_id p' = ht_pages h" "readable (ht_codec h) (sp_map p')"
    and room: "log_end h + 10000 < 2 ^ 64" "xid < 2 ^ 64"
    and K: "\<And>g h1 h2. key_page_id (pg_key g) = ht_pages h \<Longrightarrow> publish_and_record g (ht_pages h) p' (Some xid) h1 = (Inr (), h2) \<Longrightarrow> K g h1 = (Inr r, h2)"
  shows "\<exists>h'. ht_with (new_page (ht_relation h) (Some KindHEAP)) K h = (Inr r, h')
    \<and> heap_next h ((heap_map h)(ht_pages h \<mapsto> sp_map p')) (Suc (ht_pages h)) 10000 h'"
proof -
  let ?n = "ht_pages h"
  let ?k = "heap_page_key (ht_table_id h) ?n"
  have k: "?k = PageKey (ht_relation h) ?n" by (simp add: heap_page_key_def ht_relation_def)
  have o: "rel_object_id (ht_relation h) < 2 ^ 64" using heap_okD(2) [OF h] by (simp add: ht_relation_def heap_relation_def)
  obtain b0 q where a: "on_disk (disk_allocate_page (ht_relation h) (Some KindHEAP)) (ht_pool h) = (Inr ?k, b0)" "pool_ready b0"
    "valid_page_key ?k" "bp_view b0 = (bp_view (ht_pool h))(?k \<mapsto> q)" "pins b0 = pins (ht_pool h)" "bp_wal b0 = bp_wal (ht_pool h)"
    "disk_pages (bp_disk b0) = (disk_pages (bp_disk (ht_pool h)))(ht_relation h := Suc ?n)"
    using allocate_ready [OF heap_okD(1) [OF h] o, of "Some KindHEAP"] n unfolding ht_pages_def [symmetric] k by metis
  have v0: "bp_view b0 ?k = Some q" using a(4) by simp
  obtain w where w: "bp_wal b0 = Some w" "\<not> wm_closed w" using a(2) by (auto simp: pool_ready_def)
  obtain g b1 where f: "fetch_page ?k b0 = (Inr g, b1)" "bp_inv b1" "pool_logged b1" "bp_view b1 = bp_view b0"
    "live_guard b1 g" "pg_key g = ?k" "pins b1 = (pins b0)[pg_frame_id g := Suc (pins b0 ! pg_frame_id g)]" "outer_kept b0 b1"
    using fetch_ready [OF a(2,3) v0] by metis
  have "outer_state (disk_pages (bp_disk b0)) (wm_entries w) (wm_end_lsn w) b1"
    using f(8) outer_state_self [OF w] by (auto simp: outer_kept_def)
  then obtain w1 where w1: "bp_wal b1 = Some w1" "\<not> wm_closed w1" "wm_end_lsn w1 = log_end h"
    and dp: "disk_pages (bp_disk b1) = disk_pages (bp_disk b0)"
    using w a(6) by (auto simp: outer_state_def log_end_def)
  have kp: "key_page_id (pg_key g) = ?n" using f(6) by (simp add: heap_page_key_def)
  have acq: "new_page (ht_relation h) (Some KindHEAP) (ht_pool h) = (Inr g, b1)"
    using a(1) f(1) by (simp add: new_page_def sm_bind_def)
  have body: "\<forall>h2. publish_and_record g ?n p' (Some xid) (h\<lparr>ht_pool := b1\<rparr>) = (Inr (), h2) \<longrightarrow> K g (h\<lparr>ht_pool := b1\<rparr>) = (Inr r, h2)"
    using K kp by blast
  have rm: "wm_end_lsn w1 + 10000 < 2 ^ 64" using room(1) w1(3) by simp
  obtain b3 fs q' p'' w' W where r: "ht_with (new_page (ht_relation h) (Some KindHEAP)) K h = (Inr r, h\<lparr>ht_pool := b3, ht_free_space := fs, ht_has_writes := W\<rparr>)"
    "bp_inv b3" "pool_logged b3" "bp_view b3 = (bp_view b1)(pg_key g \<mapsto> q')" "heap_page_of (pg_key g) q' = Inr p''"
    "sp_wf p''" "sp_map p'' = sp_map p'" "sp_page_id p'' = ?n" "pins b3 = pins b0" "bp_disk b3 = bp_disk b1"
    "fsm_maximum fs = PAGE_BODY_SIZE" "fsm_page_count fs = max (Suc ?n) (fsm_page_count (ht_free_space h))"
    "bp_wal b3 = Some w'" "\<not> wm_closed w'" "wm_end_lsn w' \<le> wm_end_lsn w1 + 10000"
    by (rule publish_block_ok [where body = K and acquire = "new_page (ht_relation h) (Some KindHEAP)" and h = h,
          OF heap_okD(3,4) [OF h] acq f(2,3,5) kp f(7) w1(1,2) rm room(2) p'(1,2) body])
      (rule that)
  have view: "bp_view b3 = (bp_view (ht_pool h))(?k \<mapsto> q')" using r(4) f(4,6) a(4) by simp
  have "disk_pages (bp_disk b3) = (disk_pages (bp_disk (ht_pool h)))(ht_relation h := Suc ?n)" using r(10) dp a(7) by simp
  then have "heap_next h ((heap_map h)(?n \<mapsto> sp_map p'')) (Suc ?n) 10000 (h\<lparr>ht_pool := b3, ht_free_space := fs, ht_has_writes := W\<rparr>)"
    using heap_next_put [OF h _ n r(2,3) view, of "Suc ?n" p'' fs w' 10000 W] r a(5) p'(3) f(6) w1(3) by simp
  then show ?thesis using r(1,7) by auto
qed

end
