(* ===== verification/Heap_Ops.thy ===== *)
theory Heap_Ops
  imports Heap_Store
begin

text \<open>
  The operations of the heap on its map of versions: a new version goes to a free identifier, a
  changed one stays at its own, and no other version is touched.
\<close>

section \<open>Slotted pages keep their number\<close>

lemma sp_compacted_page_id: "sp_page_id (sp_compacted p) = sp_page_id p"
  by (simp add: sp_compacted_def split: prod.splits)

lemma sp_insert_page_id: "sp_wf p \<Longrightarrow> sp_insert v p = (r, p') \<Longrightarrow> sp_page_id p' = sp_page_id p"
  using sp_insert_unfold [OF sp_wf_valid, of p v]
  by (auto simp: insert_base_def sp_place_def Let_def sp_compacted_page_id split: if_splits)

lemma sp_delete_page_id: "sp_delete i p = (r, p') \<Longrightarrow> sp_page_id p' = sp_page_id p"
  by (auto simp: sp_delete_def sm_bind_def sm_lift_def sm_modify_def sm_validate_def sm_return_def split: sum.splits)

lemma sp_replace_page_id: "sp_replace i v p = (r, p') \<Longrightarrow> sp_page_id p' = sp_page_id p"
  by (auto simp: sp_replace_def sm_bind_def sm_lift_def sm_modify_def sm_validate_def sm_return_def Let_def split: sum.splits if_splits)

lemma sp_map_bound: "sp_wf p \<Longrightarrow> sp_map p i = Some e \<Longrightarrow> i < MAX_SLOTS"
  by (auto simp: sp_map_def sp_wf_def sp_valid_iff sp_lower_def MAX_SLOTS_def slotted_sizes split: if_splits)

lemma sp_insert_blank:
  assumes "length v \<le> MAX_SLOT_PAYLOAD"
  obtains p' where "sp_insert v (blank_page pid) = (Inr 0, p')" and "sp_wf p'" and "sp_map p' = [0 \<mapsto> v]" and "sp_page_id p' = pid"
proof -
  note wf = blank_page_facts(1) [of pid]
  obtain p' where p': "sp_insert v (blank_page pid) = (Inr 0, p')"
    using sp_insert_abs [OF sp_wf_valid [OF wf], of v] blank_page_facts [of pid] assms
    by (auto simp: slotted_sizes abs_insert_full)
  then show thesis
    using that page.ins_ok [OF wf p'] sp_insert_page_id [OF wf p'] blank_page_facts(3) [of pid] by (simp add: blank_page_def)
qed

section \<open>Stored versions\<close>

lemma version_at_put:
  assumes "tuple_decode codec e = Inr v" and "M pid = Some m \<or> M pid = None \<and> m = Map.empty"
  shows "version_at codec (M(pid \<mapsto> m(i \<mapsto> e))) = (version_at codec M)(TID pid i \<mapsto> v)"
proof
  fix t show "version_at codec (M(pid \<mapsto> m(i \<mapsto> e))) t = ((version_at codec M)(TID pid i \<mapsto> v)) t"
    using assms by (cases t) (auto simp: version_at_def)
qed

lemma readable_put: "readable codec m \<Longrightarrow> tuple_encodable codec v \<Longrightarrow> tuple_encode codec v = Inr e \<Longrightarrow> readable codec (m(i \<mapsto> e))"
  by (auto simp: readable_def)

lemma heap_view_SomeE:
  assumes h: "heap_ok h" and v: "heap_view h t = Some v"
  obtains p e where "page_at h (tid_page t) = Some p" and "sp_wf p" and "sp_page_id p = tid_page t" and "readable (ht_codec h) (sp_map p)"
    and "heap_map h (tid_page t) = Some (sp_map p)" and "sp_map p (tid_slot t) = Some e" and "tuple_encode (ht_codec h) v = Inr e"
    and "tuple_encodable (ht_codec h) v" and "tid_page t < ht_pages h" and "tid_slot t < MAX_SLOTS"
proof -
  have pid: "tid_page t < ht_pages h"
    using v by (auto simp: heap_view_def version_at_def heap_map_def page_at_def split: if_splits option.splits)
  obtain p where p: "page_at h (tid_page t) = Some p" "sp_wf p" "sp_page_id p = tid_page t" "readable (ht_codec h) (sp_map p)"
    "heap_map h (tid_page t) = Some (sp_map p)"
    using heap_pageE [OF h pid] by metis
  obtain e where e: "sp_map p (tid_slot t) = Some e" "tuple_decode (ht_codec h) e = Inr v"
    using v p(5) by (auto simp: heap_view_def version_at_def split: option.splits sum.splits)
  then obtain v' where "tuple_encodable (ht_codec h) v'" "tuple_encode (ht_codec h) v' = Inr e" using p(4) by (auto simp: readable_def)
  moreover from this have "v' = v" using e(2) tuple_decode_encode by fastforce
  ultimately show thesis using that p e(1) pid sp_map_bound [OF p(2) e(1)] by blast
qed

text \<open>What an operation does to the versions, the pages and the log.\<close>

definition view_next :: "heap_table \<Rightarrow> (tid \<rightharpoonup> tuple_version) \<Rightarrow> nat \<Rightarrow> nat \<Rightarrow> heap_table \<Rightarrow> bool" where
  "view_next h V n k h' \<longleftrightarrow> heap_ok h' \<and> heap_view h' = V \<and> ht_pages h \<le> ht_pages h' \<and> ht_pages h' \<le> ht_pages h + n
     \<and> log_end h' \<le> log_end h + k \<and> ht_table_id h' = ht_table_id h \<and> ht_codec h' = ht_codec h"

lemma view_nextD:
  assumes "view_next h V n k h'"
  shows "heap_ok h'" "heap_view h' = V" "ht_pages h \<le> ht_pages h'" "ht_pages h' \<le> ht_pages h + n" "log_end h' \<le> log_end h + k"
    "ht_table_id h' = ht_table_id h" "ht_codec h' = ht_codec h"
  using assms by (auto simp: view_next_def)

lemma heap_same_view: "heap_same h h' \<Longrightarrow> heap_view h' = heap_view h"
  by (simp add: heap_next_def heap_view_def)

lemma view_nextI: "heap_next h M m k h' \<Longrightarrow> version_at (ht_codec h) M = V \<Longrightarrow> ht_pages h \<le> m \<Longrightarrow> m \<le> ht_pages h + n \<Longrightarrow> view_next h V n k h'"
  by (auto simp: view_next_def heap_next_def heap_view_def)

lemma view_next_trans: "view_next h V n k h1 \<Longrightarrow> view_next h1 V' n' k' h2 \<Longrightarrow> view_next h V' (n + n') (k + k') h2"
  by (auto simp: view_next_def)

lemma view_next_same: "heap_same h h1 \<Longrightarrow> view_next h1 V n k h' \<Longrightarrow> view_next h V n k h'"
  by (auto simp: view_next_def heap_next_def)

section \<open>Inserting\<close>

lemma try_insert_ok:
  assumes h: "heap_ok h" and pid: "pid < ht_pages h" and v: "tuple_encodable (ht_codec h) v" "tuple_encode (ht_codec h) v = Inr e"
    and room: "log_end h + 10000 < 2 ^ 64" "xid < 2 ^ 64"
  shows "(\<exists>t h'. try_insert pid e (Some xid) h = (Inr (Some t), h') \<and> heap_view h t = None \<and> view_next h ((heap_view h)(t \<mapsto> v)) 1 10000 h')
    \<or> (\<exists>h'. try_insert pid e (Some xid) h = (Inr None, h') \<and> heap_same h h')"
proof -
  obtain h1 where h1: "ht_page_count h = (Inr (ht_pages h), h1)" "heap_same h h1" using ht_page_count_ok [OF h] by blast
  note n1 = heap_nextD [OF h1(2)]
  have pid1: "pid < ht_pages h1" using pid n1(3) by simp
  obtain p where p: "page_at h1 pid = Some p" "sp_wf p" "sp_page_id p = pid" "readable (ht_codec h1) (sp_map p)" "heap_map h1 pid = Some (sp_map p)"
    using heap_pageE [OF n1(1) pid1] by metis
  define K where "K g page = (case sp_insert e page of
           (Inl e, page') \<Rightarrow>
             if e = PageFull
             then sm_bind (on_free_space (fsm_record pid (available_free_bytes page'))) (\<lambda>_. sm_return None)
             else sm_raise e
         | (Inr slot_id, page') \<Rightarrow>
             sm_bind (publish_and_record g pid page' (Some xid)) (\<lambda>_. sm_return (Some (TID pid slot_id))))" for g page
  have run: "try_insert pid e (Some xid) h
      = ht_with (fetch_page (heap_page_key (ht_table_id h1) pid)) (\<lambda>g. sm_bind (ht_slotted_page g) (K g)) h1"
    using h1(1) pid by (simp add: try_insert_def sm_bind_def K_def [abs_def])
  have dec: "tuple_decode (ht_codec h) e = Inr v" using tuple_decode_encode [OF v(2)] .
  obtain r p' where ins: "sp_insert e p = (r, p')" by fastforce
  have p': "sp_page_id p' = pid" using sp_insert_page_id [OF p(2) ins] p(3) by simp
  show ?thesis
  proof (cases r)
    case (Inl err)
    then have err: "err = PageFull" "sp_wf p'" using page.ins_err [OF p(2)] ins by auto
    obtain f where f: "fsm_record pid (available_free_bytes p') (ht_free_space h1) = (Inr (), f)" "fsm_maximum f = PAGE_BODY_SIZE"
      "fsm_page_count f = max (Suc pid) (fsm_page_count (ht_free_space h1))"
      using fsm_record_ok [of "available_free_bytes p'" "ht_free_space h1" pid] available_bounds [OF err(2)] heap_okD(4) [OF n1(1)] by metis
    have "fsm_page_count f \<le> ht_pages h1" using f(3) heap_okD(5) [OF n1(1)] pid1 by simp
    moreover have "K g p (h1\<lparr>ht_pool := b\<rparr>) = (Inr None, h1\<lparr>ht_pool := b, ht_free_space := f\<rparr>)" for g b
      using ins Inl err f(1) by (simp add: K_def sm_bind_def on_free_space_def)
    ultimately have "\<exists>h'. ht_with (fetch_page (heap_page_key (ht_table_id h1) pid)) (\<lambda>g. sm_bind (ht_slotted_page g) (K g)) h1 = (Inr None, h')
        \<and> heap_same h1 h'"
      by (intro ht_visit_ok [where K = K, OF n1(1) pid1 p(1) f(2)])
    then show ?thesis using run heap_next_trans [OF h1(2)] n1(2,3) by fastforce
  next
    case (Inr i)
    then have i: "sp_wf p'" "sp_map p i = None" "sp_map p' = (sp_map p)(i \<mapsto> e)" using page.ins_ok [OF p(2)] ins by auto
    have rd: "readable (ht_codec h1) (sp_map p')" unfolding i(3) using readable_put [OF p(4)] v n1(6) by simp
    have room1: "log_end h1 + 10000 < 2 ^ 64" using room(1) n1(4) by simp
    have "\<exists>h'. ht_with (fetch_page (heap_page_key (ht_table_id h1) pid)) (\<lambda>g. sm_bind (ht_slotted_page g) (K g)) h1 = (Inr (Some (TID pid i)), h')
        \<and> heap_next h1 ((heap_map h1)(pid \<mapsto> sp_map p')) (ht_pages h1) 10000 h'"
      by (rule ht_change_ok [where K = K, OF n1(1) pid1 p(1) i(1) p' rd room1 room(2)]) (use ins Inr in \<open>simp add: K_def sm_bind_def\<close>)
    then obtain h2 where h2: "try_insert pid e (Some xid) h = (Inr (Some (TID pid i)), h2)"
      "heap_next h1 ((heap_map h1)(pid \<mapsto> sp_map p')) (ht_pages h1) 10000 h2"
      using run by auto
    have "version_at (ht_codec h1) ((heap_map h1)(pid \<mapsto> sp_map p')) = (heap_view h)(TID pid i \<mapsto> v)"
      unfolding i(3) using version_at_put [of "ht_codec h1" e v "heap_map h1" pid "sp_map p" i] dec p(5) n1(2,6) by (simp add: heap_view_def)
    then have "view_next h ((heap_view h)(TID pid i \<mapsto> v)) 1 10000 h2" using view_nextI [OF h2(2)] view_next_same [OF h1(2)] by simp
    moreover have "heap_view h (TID pid i) = None" using i(2) p(5) n1(2,6) by (simp add: heap_view_def version_at_def)
    ultimately show ?thesis using h2(1) by blast
  qed
qed

lemma insert_new_page_ok:
  assumes h: "heap_ok h" and n: "ht_pages h < 2 ^ 64" and v: "tuple_encodable (ht_codec h) v" "tuple_encode (ht_codec h) v = Inr e"
    and room: "log_end h + 10000 < 2 ^ 64" "xid < 2 ^ 64"
  shows "\<exists>t h'. insert_new_page e (Some xid) h = (Inr t, h') \<and> heap_view h t = None \<and> view_next h ((heap_view h)(t \<mapsto> v)) 1 10000 h'"
proof -
  let ?n = "ht_pages h"
  obtain p' where p': "sp_insert e (blank_page ?n) = (Inr 0, p')" "sp_wf p'" "sp_map p' = [0 \<mapsto> e]" "sp_page_id p' = ?n"
    using sp_insert_blank [OF tuple_encode_length [OF v(2)]] by metis
  have rd: "readable (ht_codec h) (sp_map p')" using v by (auto simp: p'(3) readable_def)
  define K where "K g = (let page_id = key_page_id (pg_key g)
       in sm_bind (sm_lift (slotted_empty page_id)) (\<lambda>page.
          case sp_insert e page of
            (Inl e, page') \<Rightarrow> sm_raise e
          | (Inr slot_id, page') \<Rightarrow>
              sm_bind (publish_and_record g page_id page' (Some xid)) (\<lambda>_. sm_return (TID page_id slot_id))))" for g
  have "\<exists>h'. ht_with (new_page (ht_relation h) (Some KindHEAP)) K h = (Inr (TID ?n 0), h')
      \<and> heap_next h ((heap_map h)(?n \<mapsto> sp_map p')) (Suc ?n) 10000 h'"
    by (rule ht_extend_ok [where K = K, OF h n p'(2,4) rd room]) (use p'(1) in \<open>simp add: K_def Let_def sm_bind_def slotted_empty_blank\<close>)
  then obtain h' where h': "ht_with (new_page (ht_relation h) (Some KindHEAP)) K h = (Inr (TID ?n 0), h')"
    "heap_next h ((heap_map h)(?n \<mapsto> sp_map p')) (Suc ?n) 10000 h'" by blast
  have none: "heap_map h ?n = None" by (simp add: heap_map_def page_at_def)
  have "version_at (ht_codec h) ((heap_map h)(?n \<mapsto> sp_map p')) = (heap_view h)(TID ?n 0 \<mapsto> v)"
    unfolding p'(3) using version_at_put [of "ht_codec h" e v "heap_map h" ?n Map.empty 0] tuple_decode_encode [OF v(2)] none by (simp add: heap_view_def)
  then have "view_next h ((heap_view h)(TID ?n 0 \<mapsto> v)) 1 10000 h'" using view_nextI [OF h'(2)] by simp
  moreover have "heap_view h (TID ?n 0) = None" using none by (simp add: heap_view_def version_at_def)
  ultimately show ?thesis using h'(1) by (auto simp: insert_new_page_def K_def [abs_def])
qed

lemma insert_into_ok:
  assumes "heap_ok h" and "ht_pages h < 2 ^ 64" and "\<forall>pid \<in> set pids. pid < ht_pages h"
    and v: "tuple_encodable (ht_codec h) v" "tuple_encode (ht_codec h) v = Inr e"
    and room: "log_end h + 10000 < 2 ^ 64" "xid < 2 ^ 64"
  shows "\<exists>t h'. insert_into pids e (Some xid) h = (Inr t, h') \<and> heap_view h t = None \<and> view_next h ((heap_view h)(t \<mapsto> v)) 1 10000 h'"
  using assms(1-6)
proof (induction pids arbitrary: h)
  case Nil
  then show ?case unfolding insert_into.simps by (intro insert_new_page_ok [OF _ _ _ _ _ room(2)])
next
  case (Cons pid pids)
  have "pid < ht_pages h" using Cons.prems(3) by simp
  from try_insert_ok [OF Cons.prems(1) this Cons.prems(4-6) room(2)] show ?case
  proof
    assume "\<exists>t h'. try_insert pid e (Some xid) h = (Inr (Some t), h') \<and> heap_view h t = None \<and> view_next h ((heap_view h)(t \<mapsto> v)) 1 10000 h'"
    then obtain t h' where t: "try_insert pid e (Some xid) h = (Inr (Some t), h')" "heap_view h t = None" "view_next h ((heap_view h)(t \<mapsto> v)) 1 10000 h'"
      by blast
    then have "insert_into (pid # pids) e (Some xid) h = (Inr t, h')" by (simp add: sm_bind_def)
    then show ?thesis using t(2,3) by blast
  next
    assume "\<exists>h'. try_insert pid e (Some xid) h = (Inr None, h') \<and> heap_same h h'"
    then obtain h1 where h1: "try_insert pid e (Some xid) h = (Inr None, h1)" "heap_same h h1" by blast
    note n1 = heap_nextD [OF h1(2)]
    have "\<exists>t h'. insert_into pids e (Some xid) h1 = (Inr t, h') \<and> heap_view h1 t = None \<and> view_next h1 ((heap_view h1)(t \<mapsto> v)) 1 10000 h'"
      by (rule Cons.IH) (use Cons.prems n1 in auto)
    then obtain t h' where t: "insert_into pids e (Some xid) h1 = (Inr t, h')" "heap_view h1 t = None" "view_next h1 ((heap_view h1)(t \<mapsto> v)) 1 10000 h'"
      by blast
    have "insert_into (pid # pids) e (Some xid) h = (Inr t, h')" using t(1) h1(1) by (simp add: sm_bind_def)
    moreover have "heap_view h t = None" "view_next h ((heap_view h)(t \<mapsto> v)) 1 10000 h'"
      using t(2,3) view_next_same [OF h1(2)] unfolding heap_same_view [OF h1(2)] by blast+
    ultimately show ?thesis by blast
  qed
qed

text \<open>\<open>insert_version\<close> with the page it tries first, as an update has one.\<close>

lemma insert_version_ok:
  fixes xid :: nat and vals :: "scalar list"
  defines "v \<equiv> \<lparr>tv_xmin = xid, tv_xmax = 0, tv_next_tid = None, tv_values = vals\<rparr>"
  assumes h: "heap_ok h" and n: "ht_pages h < 2 ^ 64" and pref: "\<forall>p. preferred = Some p \<longrightarrow> p < ht_pages h"
    and v: "tuple_encodable (ht_codec h) v" and fits: "tuple_size v \<le> MAX_SLOT_PAYLOAD"
    and room: "log_end h + 10000 < 2 ^ 64"
  shows "\<exists>t h'. insert_version xid vals preferred h = (Inr t, h') \<and> heap_view h t = None \<and> view_next h ((heap_view h)(t \<mapsto> v)) 1 10000 h'"
proof -
  obtain e where e: "tuple_encode (ht_codec h) v = Inr e" using tuple_encode_total [OF v] fits by auto
  have xid: "xid < 2 ^ 64" using v by (simp add: v_def tuple_encodable_def)
  have row: "validate_row (ht_schema h) vals = Inr vals"
    using v by (simp add: v_def tuple_encodable_def ht_schema_def validate_row_Inr_iff)
  let ?first = "case preferred of None \<Rightarrow> sm_return None | Some p \<Rightarrow> try_insert p e (Some xid)"
  let ?rest = "\<lambda>h. insert_into (filter (\<lambda>p. Some p \<noteq> preferred) (candidate_pages (ht_free_space h) (length e))) e (Some xid) h"
  have run: "insert_version xid vals preferred h = sm_bind ?first (\<lambda>t. case t of Some t \<Rightarrow> sm_return t | None \<Rightarrow> ?rest) h"
    using row e by (simp add: insert_version_def sm_bind_def v_def)
  have first: "(\<exists>t h'. ?first h = (Inr (Some t), h') \<and> heap_view h t = None \<and> view_next h ((heap_view h)(t \<mapsto> v)) 1 10000 h')
      \<or> (\<exists>h'. ?first h = (Inr None, h') \<and> heap_same h h')"
  proof (cases preferred)
    case None
    then show ?thesis using heap_same_refl [OF h] by simp
  next
    case (Some p)
    then show ?thesis using try_insert_ok [OF h _ v e room xid, of p] pref by simp
  qed
  then show ?thesis
  proof
    assume "\<exists>t h'. ?first h = (Inr (Some t), h') \<and> heap_view h t = None \<and> view_next h ((heap_view h)(t \<mapsto> v)) 1 10000 h'"
    then obtain t h' where t: "?first h = (Inr (Some t), h')" "heap_view h t = None" "view_next h ((heap_view h)(t \<mapsto> v)) 1 10000 h'" by blast
    have "insert_version xid vals preferred h = (Inr t, h')" unfolding run using t(1) by (simp add: sm_bind_def)
    then show ?thesis using t(2,3) by blast
  next
    assume "\<exists>h'. ?first h = (Inr None, h') \<and> heap_same h h'"
    then obtain h1 where h1: "?first h = (Inr None, h1)" "heap_same h h1" by blast
    note n1 = heap_nextD [OF h1(2)]
    have "\<exists>t h'. ?rest h1 = (Inr t, h') \<and> heap_view h1 t = None \<and> view_next h1 ((heap_view h1)(t \<mapsto> v)) 1 10000 h'"
    proof (rule insert_into_ok [OF n1(1) _ _ _ _ _ xid])
      show "\<forall>pid \<in> set (filter (\<lambda>p. Some p \<noteq> preferred) (candidate_pages (ht_free_space h1) (length e))). pid < ht_pages h1"
        using heap_okD(5) [OF n1(1)] candidate_pages_less by fastforce
    qed (use n n1 v e room in simp_all)
    then obtain t h' where t: "?rest h1 = (Inr t, h')" "heap_view h1 t = None" "view_next h1 ((heap_view h1)(t \<mapsto> v)) 1 10000 h'" by blast
    have "insert_version xid vals preferred h = (Inr t, h')" unfolding run using h1(1) t(1) by (simp add: sm_bind_def)
    moreover have "heap_view h t = None" "view_next h ((heap_view h)(t \<mapsto> v)) 1 10000 h'"
      using t(2,3) view_next_same [OF h1(2)] unfolding heap_same_view [OF h1(2)] by blast+
    ultimately show ?thesis by blast
  qed
qed

section \<open>Changing a version\<close>

lemma set_version_ok:
  assumes h: "heap_ok h" and old: "heap_view h t = Some old" and v: "tuple_encodable (ht_codec h) v" "tv_values v = tv_values old"
    and room: "log_end h + 10000 < 2 ^ 64" "xid < 2 ^ 64"
  shows "\<exists>h'. set_version t v xid h = (Inr (), h') \<and> view_next h ((heap_view h)(t \<mapsto> v)) 0 10000 h'"
proof -
  let ?pid = "tid_page t"
  obtain p e where p: "page_at h ?pid = Some p" "sp_wf p" "sp_page_id p = ?pid" "readable (ht_codec h) (sp_map p)"
    "heap_map h ?pid = Some (sp_map p)" "sp_map p (tid_slot t) = Some e" "tuple_encode (ht_codec h) old = Inr e"
    "tuple_encodable (ht_codec h) old" "?pid < ht_pages h"
    using heap_view_SomeE [OF h old] by metis
  have size: "tuple_size v = tuple_size old" using v(2) by (simp add: tuple_size_def)
  have le: "length e = tuple_size old" "tuple_size old \<le> MAX_SLOT_PAYLOAD"
    using tuple_encode_total [OF p(8)] p(7) by (auto split: if_splits)
  obtain e' where e': "tuple_encode (ht_codec h) v = Inr e'" "length e' = length e"
    using tuple_encode_total [OF v(1)] le size by auto
  have ix: "tid_slot t < length (sp_abs p)" "sp_abs p ! tid_slot t = Some e" using p(6) by (auto simp: sp_map_def split: if_splits)
  have "0 \<le> available_free_bytes p" using available_bounds [OF p(2)] by simp
  then obtain p' where rep: "sp_replace (tid_slot t) e' p = (Inr e, p')"
    using sp_replace_abs [OF p(2), of "tid_slot t" e'] ix e'(2) by auto
  note r = page.repl_ok [OF p(2) rep]
  have pid': "sp_page_id p' = ?pid" using sp_replace_page_id [OF rep] p(3) by simp
  have map': "sp_map p' = (sp_map p)(tid_slot t \<mapsto> e')" using r by blast
  have rd: "readable (ht_codec h) (sp_map p')" unfolding map' using readable_put [OF p(4) v(1) e'(1)] .
  define K where "K g page = sm_bind (sm_lift (tuple_encode (ht_codec h) v)) (\<lambda>encoded.
       case sp_replace (tid_slot t) encoded page of
         (Inl e, _) \<Rightarrow> sm_raise e
       | (Inr _, page') \<Rightarrow> publish_and_record g ?pid page' (Some xid))" for g page
  have wf': "sp_wf p'" using r by blast
  have "\<exists>h'. ht_with (fetch_page (heap_page_key (ht_table_id h) ?pid)) (\<lambda>g. sm_bind (ht_slotted_page g) (K g)) h = (Inr (), h')
      \<and> heap_next h ((heap_map h)(?pid \<mapsto> sp_map p')) (ht_pages h) 10000 h'"
    by (rule ht_change_ok [where K = K, OF h p(9,1) wf' pid' rd room]) (simp add: K_def sm_bind_def e'(1) rep)
  then obtain h' where h': "set_version t v xid h = (Inr (), h')" "heap_next h ((heap_map h)(?pid \<mapsto> sp_map p')) (ht_pages h) 10000 h'"
    by (auto simp: set_version_def K_def [abs_def])
  have "version_at (ht_codec h) ((heap_map h)(?pid \<mapsto> sp_map p')) = (heap_view h)(t \<mapsto> v)"
    unfolding map' using version_at_put [of "ht_codec h" e' v "heap_map h" ?pid "sp_map p" "tid_slot t"] tuple_decode_encode [OF e'(1)] p(5)
    by (simp add: heap_view_def)
  then have "view_next h ((heap_view h)(t \<mapsto> v)) 0 10000 h'" by (intro view_nextI [OF h'(2)]) simp_all
  then show ?thesis using h'(1) by blast
qed

lemma encodable_link:
  assumes h: "heap_ok h" and old: "heap_view h t = Some old" and xid: "xid < 2 ^ 64"
  shows "heap_view h u \<noteq> None \<Longrightarrow> tuple_encodable (ht_codec h) (old\<lparr>tv_xmax := xid, tv_next_tid := Some u\<rparr>)"
    "tuple_encodable (ht_codec h) (old\<lparr>tv_xmax := xid\<rparr>)"
proof -
  have o: "tuple_encodable (ht_codec h) old" by (rule heap_view_SomeE [OF h old])
  then show "tuple_encodable (ht_codec h) (old\<lparr>tv_xmax := xid\<rparr>)" using xid by (simp add: tuple_encodable_def tuple_size_def)
  assume "heap_view h u \<noteq> None"
  then obtain v where v: "heap_view h u = Some v" by blast
  have "tid_page u < ht_pages h" "tid_slot u < MAX_SLOTS" by (rule heap_view_SomeE [OF h v], assumption)+
  then have "tid_page u < 2 ^ 64 \<and> tid_slot u < 2 ^ 32" using h by (auto simp: heap_ok_def MAX_SLOTS_def slotted_sizes)
  then show "tuple_encodable (ht_codec h) (old\<lparr>tv_xmax := xid, tv_next_tid := Some u\<rparr>)"
    using o xid by (simp add: tuple_encodable_def tuple_size_def)
qed

lemma replace_version_ok:
  fixes xid :: nat and vals :: "scalar list"
  defines "v \<equiv> \<lparr>tv_xmin = xid, tv_xmax = 0, tv_next_tid = None, tv_values = vals\<rparr>"
  assumes h: "heap_ok h" and old: "heap_view h t = Some old" "replaceable (Some old) statuses" and n: "ht_pages h < 2 ^ 64"
    and v: "tuple_encodable (ht_codec h) v" and fits: "tuple_size v \<le> MAX_SLOT_PAYLOAD"
    and room: "log_end h + 20000 < 2 ^ 64"
  shows "\<exists>u h'. replace_version t xid statuses vals h = (Inr (Some u), h') \<and> heap_view h u = None
    \<and> view_next h ((heap_view h)(u \<mapsto> v, t \<mapsto> old\<lparr>tv_xmax := xid, tv_next_tid := Some u\<rparr>)) 1 20000 h'"
proof -
  let ?old = "\<lambda>u. old\<lparr>tv_xmax := xid, tv_next_tid := Some u\<rparr>"
  have xid: "xid < 2 ^ 64" using v by (simp add: v_def tuple_encodable_def)
  obtain h1 where h1: "physical_version t h = (Inr (Some old), h1)" "heap_same h h1" using physical_version_ok [OF h, of t] old(1) by auto
  note n1 = heap_nextD [OF h1(2)]
  have view1: "heap_view h1 = heap_view h" using heap_same_view [OF h1(2)] .
  have tp: "tid_page t < ht_pages h" by (rule heap_view_SomeE [OF h old(1)])
  have "\<exists>u h'. insert_version xid vals (Some (tid_page t)) h1 = (Inr u, h') \<and> heap_view h1 u = None \<and> view_next h1 ((heap_view h1)(u \<mapsto> v)) 1 10000 h'"
    unfolding v_def by (rule insert_version_ok [OF n1(1)]) (use n n1 tp v fits room in \<open>simp_all add: v_def\<close>)
  then obtain u h2 where u: "insert_version xid vals (Some (tid_page t)) h1 = (Inr u, h2)" "heap_view h u = None"
    "view_next h ((heap_view h)(u \<mapsto> v)) 1 10000 h2"
    using view_next_same [OF h1(2)] unfolding view1 by blast
  note n2 = view_nextD [OF u(3)]
  have old2: "heap_view h2 t = Some old" using n2(2) old(1) u(2) by auto
  have enc: "tuple_encodable (ht_codec h2) (?old u)" using encodable_link(1) [OF n2(1) old2 xid, of u] n2(2) by simp
  have room2: "log_end h2 + 10000 < 2 ^ 64" using n2(5) room by simp
  obtain h3 where h3: "set_version t (?old u) xid h2 = (Inr (), h3)" "view_next h2 ((heap_view h2)(t \<mapsto> ?old u)) 0 10000 h3"
    using set_version_ok [OF n2(1) old2 enc _ room2 xid] by auto
  have "replace_version t xid statuses vals h = (Inr (Some u), h3)"
    using h1(1) old(2) u(1) h3(1) by (simp add: replace_version_def sm_bind_def)
  moreover have "view_next h ((heap_view h)(u \<mapsto> v, t \<mapsto> ?old u)) 1 20000 h3"
    using view_next_trans [OF u(3) h3(2)] unfolding n2(2) by simp
  ultimately show ?thesis using u(2) by blast
qed

lemma replace_version_refused:
  assumes h: "heap_ok h" and "\<not> replaceable (heap_view h t) statuses"
  shows "\<exists>h'. replace_version t xid statuses vals h = (Inr None, h') \<and> heap_same h h'"
    "\<exists>h'. delete_version t xid statuses h = (Inr False, h') \<and> heap_same h h'"
  using physical_version_ok [OF h, of t] assms(2) by (auto simp: replace_version_def delete_version_def sm_bind_def)

lemma delete_version_ok:
  assumes h: "heap_ok h" and old: "heap_view h t = Some old" "replaceable (Some old) statuses" and room: "log_end h + 10000 < 2 ^ 64" "xid < 2 ^ 64"
  shows "\<exists>h'. delete_version t xid statuses h = (Inr True, h') \<and> view_next h ((heap_view h)(t \<mapsto> old\<lparr>tv_xmax := xid\<rparr>)) 0 10000 h'"
proof -
  obtain h1 where h1: "physical_version t h = (Inr (Some old), h1)" "heap_same h h1" using physical_version_ok [OF h, of t] old(1) by auto
  note n1 = heap_nextD [OF h1(2)]
  have view1: "heap_view h1 = heap_view h" using heap_same_view [OF h1(2)] .
  have old1: "heap_view h1 t = Some old" using old(1) view1 by simp
  have room1: "log_end h1 + 10000 < 2 ^ 64" using n1(4) room by simp
  obtain h2 where h2: "set_version t (old\<lparr>tv_xmax := xid\<rparr>) xid h1 = (Inr (), h2)" "view_next h1 ((heap_view h1)(t \<mapsto> old\<lparr>tv_xmax := xid\<rparr>)) 0 10000 h2"
    using set_version_ok [OF n1(1) old1 encodable_link(2) [OF n1(1) old1 room(2)] _ room1 room(2)] by auto
  have "delete_version t xid statuses h = (Inr True, h2)"
    using h1(1) old(2) h2(1) by (simp add: delete_version_def sm_bind_def)
  then show ?thesis using view_next_same [OF h1(2) h2(2)] unfolding view1 by blast
qed

section \<open>Reclaiming a version\<close>

lemma version_at_delete:
  "M pid = Some m \<Longrightarrow> version_at codec (M(pid \<mapsto> m(i := None))) = (version_at codec M)(TID pid i := None)"
proof
  fix t assume "M pid = Some m"
  then show "version_at codec (M(pid \<mapsto> m(i := None))) t = ((version_at codec M)(TID pid i := None)) t"
    by (cases t) (auto simp: version_at_def)
qed

lemma sp_compact_ok:
  assumes "sp_wf p"
  obtains p' where "sp_compact p = (Inr (), p')" and "sp_wf p'" and "sp_map p' = sp_map p" and "sp_page_id p' = sp_page_id p"
proof -
  note v = sp_wf_valid [OF assms]
  have "sp_wf (sp_compacted p)" using assms sp_compacted_spec [OF v] dead_ok_compacted by (auto simp: sp_wf_def)
  moreover have "sp_map (sp_compacted p) = sp_map p" using sp_compacted_spec [OF v] by (intro sp_map_eqD) simp
  ultimately show thesis using that sp_compact_eq [OF v] sp_compacted_page_id by blast
qed

lemma reclaim_version_ok:
  assumes h: "heap_ok h" and old: "heap_view h t = Some old" and room: "log_end h + 10000 < 2 ^ 64" "xid < 2 ^ 64"
  shows "\<exists>h'. reclaim_version t xid h = (Inr (tuple_size old), h') \<and> view_next h ((heap_view h)(t := None)) 0 10000 h'"
proof -
  let ?pid = "tid_page t"
  obtain p e where p: "page_at h ?pid = Some p" "sp_wf p" "sp_page_id p = ?pid" "readable (ht_codec h) (sp_map p)"
    "heap_map h ?pid = Some (sp_map p)" "sp_map p (tid_slot t) = Some e" "tuple_encode (ht_codec h) old = Inr e"
    "tuple_encodable (ht_codec h) old" "?pid < ht_pages h"
    using heap_view_SomeE [OF h old] by metis
  have le: "length e = tuple_size old" using tuple_encode_total [OF p(8)] p(7) by (auto split: if_splits)
  obtain r p1 where del: "sp_delete (tid_slot t) p = (r, p1)" by fastforce
  then have r: "r = Inr e" using page.del_ok [OF p(2)] page.del_err [OF p(2)] p(6) by (cases r) fastforce+
  then have d: "sp_wf p1" "sp_map p1 = (sp_map p)(tid_slot t := None)" "sp_page_id p1 = ?pid"
    using page.del_ok [OF p(2)] del sp_delete_page_id [OF del] p(3) by auto
  obtain p' where p': "sp_compact p1 = (Inr (), p')" "sp_wf p'" "sp_map p' = sp_map p1" "sp_page_id p' = sp_page_id p1"
    using sp_compact_ok [OF d(1)] by metis
  have map': "sp_map p' = (sp_map p)(tid_slot t := None)" using p'(3) d(2) by simp
  have pid': "sp_page_id p' = ?pid" using p'(4) d(3) by simp
  have rd: "readable (ht_codec h) (sp_map p')" unfolding map' using p(4) by (auto simp: readable_def)
  define K where "K g page = (case sp_delete (tid_slot t) page of
         (Inl e, _) \<Rightarrow> if e = PyKeyError then sm_return 0 else sm_raise e
       | (Inr removed, page') \<Rightarrow>
           (case sp_compact page' of
              (Inl e, _) \<Rightarrow> sm_raise e
            | (Inr _, page'') \<Rightarrow>
                sm_bind (publish_and_record g ?pid page'' (Some xid)) (\<lambda>_. sm_return (length removed))))" for g page
  have "\<exists>h'. ht_with (fetch_page (heap_page_key (ht_table_id h) ?pid)) (\<lambda>g. sm_bind (ht_slotted_page g) (K g)) h = (Inr (length e), h')
      \<and> heap_next h ((heap_map h)(?pid \<mapsto> sp_map p')) (ht_pages h) 10000 h'"
    by (rule ht_change_ok [where K = K, OF h p(9,1) p'(2) pid' rd room]) (simp add: K_def sm_bind_def del r p'(1))
  then obtain h' where h': "reclaim_version t xid h = (Inr (length e), h')" "heap_next h ((heap_map h)(?pid \<mapsto> sp_map p')) (ht_pages h) 10000 h'"
    by (auto simp: reclaim_version_def K_def [abs_def])
  have "version_at (ht_codec h) ((heap_map h)(?pid \<mapsto> sp_map p')) = (heap_view h)(t := None)"
    unfolding map' using version_at_delete [of "heap_map h" ?pid "sp_map p" "ht_codec h" "tid_slot t"] p(5) by (simp add: heap_view_def)
  then have "view_next h ((heap_view h)(t := None)) 0 10000 h'" by (intro view_nextI [OF h'(2)]) simp_all
  then show ?thesis using h'(1) le by auto
qed

section \<open>A new heap\<close>

definition new_version :: "nat \<Rightarrow> scalar list \<Rightarrow> tuple_version" where
  "new_version xid vals = \<lparr>tv_xmin = xid, tv_xmax = 0, tv_next_tid = None, tv_values = vals\<rparr>"

text \<open>Page numbers and log addresses that the two page changes of an update cannot exhaust.\<close>

definition heap_room :: "heap_table \<Rightarrow> bool" where
  "heap_room h \<longleftrightarrow> ht_pages h < 2 ^ 64 \<and> log_end h + 20000 < 2 ^ 64"

lemma fresh_heap:
  obtains h where "heap_ok h" and "heap_view h = Map.empty" and "ht_pages h = 0" and "ht_codec h = flag_codec" and "log_end h = 0"
proof -
  obtain b where b: "pool_ready b" "bp_wal b = Some empty_log" "\<And>r. disk_pages (bp_disk b) r = 0" using fresh_ready by blast
  define h where "h = \<lparr>ht_pool = b, ht_table_id = 3, ht_codec = flag_codec,
    ht_free_space = \<lparr>fsm_maximum = PAGE_BODY_SIZE, fsm_categories = [], fsm_file = None\<rparr>, ht_logged = True, ht_has_writes = {}\<rparr>"
  have n: "ht_pages h = 0" using b(3) by (simp add: ht_pages_def h_def)
  then have "heap_ok h" using b(1) by (simp add: heap_ok_def h_def fsm_page_count_def)
  moreover have "heap_view h = Map.empty" using n by (simp add: heap_view_def version_at_def heap_map_def page_at_def fun_eq_iff)
  moreover have "log_end h = 0" using b(2) by (simp add: log_end_def h_def empty_log_def)
  ultimately show thesis using that n by (simp add: h_def)
qed

lemma flag_row:
  "xid < 2 ^ 64 \<Longrightarrow> tuple_encodable flag_codec (new_version xid [ScBool b])" "tuple_size (new_version xid [ScBool b]) \<le> MAX_SLOT_PAYLOAD"
  by (simp_all add: tuple_encodable_def flag_codec_def new_version_def row_conforms_def conforms_def tuple_size_def TUPLE_HEADER_SIZE_def
      bitmap_length_def slotted_sizes)

text \<open>
  Claim C8. Inserting a version into a heap returns an identifier that no version had and stores
  the version there, with its creator and no deleter, on a page with room or on a new one; every
  other version, whichever page was changed, compacted or evicted on the way, stays as it was. A
  row too large for a page is refused and nothing changes.
\<close>

theorem heap_insert_version_spec:
  assumes "heap_ok h" and "heap_room h" and "tuple_encodable (ht_codec h) (new_version xid vals)"
  shows "if tuple_size (new_version xid vals) \<le> MAX_SLOT_PAYLOAD
    then \<exists>t h'. insert_version xid vals None h = (Inr t, h') \<and> heap_ok h' \<and> heap_view h t = None
      \<and> heap_view h' = (heap_view h)(t \<mapsto> new_version xid vals)
    else insert_version xid vals None h = (Inl RowTooLarge, h)"
proof (cases "tuple_size (new_version xid vals) \<le> MAX_SLOT_PAYLOAD")
  case True
  have "\<exists>t h'. insert_version xid vals None h = (Inr t, h') \<and> heap_view h t = None \<and> view_next h ((heap_view h)(t \<mapsto> new_version xid vals)) 1 10000 h'"
    unfolding new_version_def using assms True by (intro insert_version_ok) (simp_all add: new_version_def heap_room_def)
  then show ?thesis using True view_nextD(1,2) by (simp only: if_True) blast
next
  case False
  have "validate_row (ht_schema h) vals = Inr vals"
    using assms(3) by (simp add: new_version_def tuple_encodable_def ht_schema_def validate_row_Inr_iff)
  then show ?thesis
    using False tuple_encode_total [OF assms(3)] by (simp add: insert_version_def sm_bind_def new_version_def)
qed

theorem heap_insert_version_spec_witness:
  "\<exists>h t h'. heap_ok h \<and> insert_version 7 [ScBool True] None h = (Inr t, h') \<and> heap_view h' = [t \<mapsto> new_version 7 [ScBool True]]"
proof -
  obtain h where h: "heap_ok h" "heap_view h = Map.empty" "ht_pages h = 0" "ht_codec h = flag_codec" "log_end h = 0" by (rule fresh_heap)
  from heap_insert_version_spec [OF h(1), of 7 "[ScBool True]"] show ?thesis
    using h flag_row [of 7 True] by (auto simp: heap_room_def)
qed

end
