(* ===== verification/Heap_Chains.thy ===== *)
theory Heap_Chains
  imports Heap_Ops
begin

text \<open>
  Version chains of the heap: which version of a row a snapshot reads, and that an update is
  invisible to every snapshot that does not see its transaction.
\<close>

section \<open>Chains\<close>

text \<open>The versions reached from an identifier along the links, up to the end or a missing one.\<close>

primrec chain :: "(tid \<rightharpoonup> tuple_version) \<Rightarrow> tid option \<Rightarrow> (tid \<times> tuple_version) list \<Rightarrow> bool" where
  "chain V cur [] = (case cur of None \<Rightarrow> True | Some t \<Rightarrow> V t = None)"
| "chain V cur (x # xs) = (cur = Some (fst x) \<and> V (fst x) = Some (snd x) \<and> chain V (tv_next_tid (snd x)) xs)"

lemma chain_det: "chain V c xs \<Longrightarrow> chain V c ys \<Longrightarrow> xs = ys"
proof (induction xs arbitrary: c ys)
  case Nil
  then show ?case by (cases ys) (auto split: option.splits)
next
  case (Cons x xs)
  then obtain y ys' where ys: "ys = y # ys'" by (cases ys) (auto split: option.splits)
  then have "x = y" using Cons.prems by (cases x; cases y) auto
  then show ?case using Cons.IH [of "tv_next_tid (snd x)" ys'] Cons.prems ys by simp
qed

lemma chain_suffix: "chain V c (xs @ y # ys) \<Longrightarrow> chain V (Some (fst y)) (y # ys)"
  by (induction xs arbitrary: c) auto

lemma chain_distinct: "chain V c xs \<Longrightarrow> distinct (map fst xs)"
proof (induction xs arbitrary: c)
  case (Cons x xs)
  have "fst x \<notin> fst ` set xs"
  proof
    assume "fst x \<in> fst ` set xs"
    then obtain as y bs where xs: "xs = as @ y # bs" "fst y = fst x" by (metis imageE split_list)
    have "chain V (tv_next_tid (snd x)) (as @ y # bs)" using Cons.prems xs(1) by simp
    from chain_suffix [OF this] have "chain V (Some (fst x)) (y # bs)" unfolding xs(2) .
    moreover have "chain V (Some (fst x)) (x # xs)" using Cons.prems by simp
    ultimately have "y # bs = x # xs" by (rule chain_det)
    then show False using xs(1) by simp
  qed
  then show ?case using Cons by auto
qed simp

lemma chain_dom: "chain V c xs \<Longrightarrow> fst ` set xs \<subseteq> dom V"
  by (induction xs arbitrary: c) auto

lemma chain_length: "chain V c xs \<Longrightarrow> finite (dom V) \<Longrightarrow> length xs \<le> card (dom V)"
  using card_mono [OF _ chain_dom, of V c xs] distinct_card [OF chain_distinct, of V c xs] by simp

lemma chain_extend: "V t = Some v \<Longrightarrow> chain V (tv_next_tid v) xs \<Longrightarrow> chain V (Some t) ((t, v) # xs)"
  by simp

section \<open>Following links\<close>

definition last_accepted :: "(tuple_version \<Rightarrow> bool) \<Rightarrow> (tid \<times> tuple_version) list \<Rightarrow> (tid \<times> tuple_version) option" where
  "last_accepted accepted xs = (case filter (\<lambda>x. accepted (snd x)) (rev xs) of [] \<Rightarrow> None | x # _ \<Rightarrow> Some x)"

lemma last_accepted_append:
  "last_accepted a (xs @ ys) = (case last_accepted a ys of None \<Rightarrow> last_accepted a xs | Some y \<Rightarrow> Some y)"
  by (auto simp: last_accepted_def split: list.splits)

lemma last_accepted_Nil: "last_accepted a [] = None"
  by (simp add: last_accepted_def)

lemma last_accepted_single: "last_accepted a [x] = (if a (snd x) then Some x else None)"
  by (simp add: last_accepted_def)

lemma last_accepted_Cons:
  "last_accepted a (x # xs) = (case last_accepted a xs of None \<Rightarrow> if a (snd x) then Some x else None | Some y \<Rightarrow> Some y)"
  using last_accepted_append [of a "[x]" xs] by (simp add: last_accepted_single split: option.splits)

lemma last_accepted_none: "\<forall>x \<in> set xs. \<not> a (snd x) \<Longrightarrow> last_accepted a xs = None"
  by (induction xs) (auto simp: last_accepted_Nil last_accepted_Cons)

text \<open>The walk of \<open>follow_links\<close> on the map of versions.\<close>

fun chase :: "nat \<Rightarrow> (tid \<rightharpoonup> tuple_version) \<Rightarrow> (tuple_version \<Rightarrow> bool) \<Rightarrow> tid set \<Rightarrow> (tid \<times> tuple_version) option \<Rightarrow> tid option
    \<Rightarrow> (tid \<times> tuple_version) option result" where
  "chase 0 V accepted visited found current = Inl PyRecursionError"
| "chase (Suc n) V accepted visited found current =
     (case current of
        None \<Rightarrow> Inr found
      | Some t \<Rightarrow>
          if t \<in> visited then Inl CorruptPage
          else
            (case V t of
               None \<Rightarrow> Inr found
             | Some v \<Rightarrow> chase n V accepted (insert t visited) (if accepted v then Some (t, v) else found) (tv_next_tid v)))"

lemma chase_chain:
  "chain V c xs \<Longrightarrow> length xs < n \<Longrightarrow> visited \<inter> fst ` set xs = {} \<Longrightarrow> visited \<subseteq> dom V \<Longrightarrow>
     chase n V a visited found c = Inr (case last_accepted a xs of None \<Rightarrow> found | Some x \<Rightarrow> Some x)"
proof (induction xs arbitrary: c n visited found)
  case Nil
  then obtain m where "n = Suc m" by (cases n) auto
  then show ?case using Nil by (auto simp: last_accepted_Nil split: option.splits)
next
  case (Cons x xs)
  obtain m where m: "n = Suc m" using Cons.prems(2) by (cases n) auto
  have c: "c = Some (fst x)" "V (fst x) = Some (snd x)" "chain V (tv_next_tid (snd x)) xs" using Cons.prems(1) by auto
  have "distinct (map fst (x # xs))" using Cons.prems(1) by (rule chain_distinct)
  then have "insert (fst x) visited \<inter> fst ` set xs = {}" using Cons.prems(3) by auto
  then have "chase m V a (insert (fst x) visited) (if a (snd x) then Some x else found) (tv_next_tid (snd x))
      = Inr (case last_accepted a xs of None \<Rightarrow> if a (snd x) then Some x else found | Some x \<Rightarrow> Some x)"
    by (intro Cons.IH [OF c(3)]) (use Cons.prems(2,4) m c(2) in auto)
  moreover have "fst x \<notin> visited" using Cons.prems(3) by auto
  ultimately show ?case using m c(1,2) by (auto simp: last_accepted_Cons split: option.splits)
qed

lemma chase_cycle:
  "\<nexists>xs. chain V c xs \<Longrightarrow> finite (dom V) \<Longrightarrow> visited \<subseteq> dom V \<Longrightarrow> card (dom V - visited) < n \<Longrightarrow> chase n V a visited found c = Inl CorruptPage"
proof (induction n arbitrary: c visited found)
  case (Suc n)
  have "\<not> chain V c []" using Suc.prems(1) by blast
  then obtain t v where t: "c = Some t" "V t = Some v" by (auto split: option.splits)
  show ?case
  proof (cases "t \<in> visited")
    case False
    have "\<nexists>xs. chain V (tv_next_tid v) xs" using Suc.prems(1) chain_extend [of V t v] t by blast
    moreover have "card (dom V - insert t visited) < n"
    proof -
      have "dom V - insert t visited \<subset> dom V - visited" using False t(2) by auto
      then have "card (dom V - insert t visited) < card (dom V - visited)" using Suc.prems(2) by (intro psubset_card_mono) auto
      then show ?thesis using Suc.prems(4) by simp
    qed
    ultimately have "chase n V a (insert t visited) f (tv_next_tid v) = Inl CorruptPage" for f
      by (intro Suc.IH) (use Suc.prems(2,3) t(2) in auto)
    then show ?thesis using t False by simp
  qed (simp add: t)
qed simp

lemma follow_links_ok:
  "heap_ok h \<Longrightarrow> \<exists>h'. follow_links n physical_version a visited found c h = (chase n (heap_view h) a visited found c, h') \<and> heap_same h h'"
proof (induction n arbitrary: h visited found c)
  case 0
  then show ?case using heap_same_refl by simp
next
  case (Suc n)
  show ?case
  proof (cases "\<exists>t. c = Some t \<and> t \<notin> visited")
    case False
    then show ?thesis using heap_same_refl [OF Suc.prems] by (auto split: option.splits)
  next
    case True
    then obtain t where t: "c = Some t" "t \<notin> visited" by blast
    obtain h1 where h1: "physical_version t h = (Inr (heap_view h t), h1)" "heap_same h h1" using physical_version_ok [OF Suc.prems] by blast
    note n1 = heap_nextD [OF h1(2)]
    show ?thesis
    proof (cases "heap_view h t")
      case None
      then show ?thesis using h1 t by (auto simp: sm_bind_def)
    next
      case (Some v)
      let ?found = "if a v then Some (t, v) else found"
      obtain h2 where "follow_links n physical_version a (insert t visited) ?found (tv_next_tid v) h1
          = (chase n (heap_view h1) a (insert t visited) ?found (tv_next_tid v), h2)" "heap_same h1 h2"
        using Suc.IH [OF n1(1)] by blast
      then show ?thesis using h1 t Some heap_next_trans [OF h1(2)] n1(2,3) heap_same_view [OF h1(2)] by (auto simp: sm_bind_def)
    qed
  qed
qed

lemma heap_view_finite:
  assumes "heap_ok h"
  shows "finite (dom (heap_view h))" "card (dom (heap_view h)) \<le> ht_pages h * MAX_SLOTS"
proof -
  have sub: "dom (heap_view h) \<subseteq> (\<lambda>(p, i). TID p i) ` ({..<ht_pages h} \<times> {..<MAX_SLOTS})"
  proof
    fix t assume "t \<in> dom (heap_view h)"
    then obtain v where v: "heap_view h t = Some v" by blast
    have "tid_page t < ht_pages h" "tid_slot t < MAX_SLOTS" by (rule heap_view_SomeE [OF assms v], assumption)+
    then show "t \<in> (\<lambda>(p, i). TID p i) ` ({..<ht_pages h} \<times> {..<MAX_SLOTS})" by (cases t) auto
  qed
  show "finite (dom (heap_view h))" using finite_subset [OF sub] by simp
  have "card (dom (heap_view h)) \<le> card ((\<lambda>(p, i). TID p i) ` ({..<ht_pages h} \<times> {..<MAX_SLOTS}))"
    using sub by (intro card_mono) simp_all
  also have "\<dots> \<le> card ({..<ht_pages h} \<times> {..<MAX_SLOTS})" by (rule card_image_le) simp
  finally show "card (dom (heap_view h)) \<le> ht_pages h * MAX_SLOTS" by simp
qed

lemma resolve_visible_ok:
  assumes h: "heap_ok h"
  obtains h' where "heap_same h h'"
    and "\<And>xs. chain (heap_view h) (Some t) xs \<Longrightarrow>
      resolve_visible t s cur st h = (Inr (visible_values (last_accepted (\<lambda>v. is_visible v s cur st) xs)), h')"
    and "\<nexists>xs. chain (heap_view h) (Some t) xs \<Longrightarrow> resolve_visible t s cur st h = (Inl CorruptPage, h')"
proof -
  let ?a = "\<lambda>v. is_visible v s cur st"
  have fuel: "card (dom (heap_view h)) < link_fuel h" using heap_view_finite(2) [OF h] by (simp add: link_fuel_def ht_pages_def)
  obtain h' where h': "follow_links (link_fuel h) physical_version ?a {} None (Some t) h = (chase (link_fuel h) (heap_view h) ?a {} None (Some t), h')"
    "heap_same h h'" using follow_links_ok [OF h] by blast
  show thesis
  proof (rule that [OF h'(2)])
    fix xs assume c: "chain (heap_view h) (Some t) xs"
    have "length xs < link_fuel h" using chain_length [OF c heap_view_finite(1) [OF h]] fuel by simp
    then show "resolve_visible t s cur st h = (Inr (visible_values (last_accepted ?a xs)), h')"
      using chase_chain [OF c, of "link_fuel h" "{}" ?a None] h'(1) by (simp add: resolve_visible_def sm_bind_def split: option.splits)
  next
    assume "\<nexists>xs. chain (heap_view h) (Some t) xs"
    then show "resolve_visible t s cur st h = (Inl CorruptPage, h')"
      using chase_cycle [OF _ heap_view_finite(1) [OF h], of "Some t" "{}" "link_fuel h" ?a None] fuel h'(1)
      by (simp add: resolve_visible_def sm_bind_def)
  qed
qed

section \<open>Replacing a version\<close>

definition links_closed :: "(tid \<rightharpoonup> tuple_version) \<Rightarrow> bool" where
  "links_closed V \<longleftrightarrow> (\<forall>t v u. V t = Some v \<longrightarrow> tv_next_tid v = Some u \<longrightarrow> V u \<noteq> None)"

lemma links_closed_put: "links_closed V \<Longrightarrow> \<forall>u. tv_next_tid v = Some u \<longrightarrow> V u \<noteq> None \<or> u = t \<Longrightarrow> links_closed (V(t \<mapsto> v))"
  by (auto simp: links_closed_def)

lemma chain_replaced:
  assumes "chain V c (xs @ (t, old) # ys)" and "V u = None" and "tv_next_tid new = None" and "tv_next_tid old' = Some u"
  shows "chain (V(u \<mapsto> new, t \<mapsto> old')) c (xs @ [(t, old'), (u, new)])"
proof -
  have "t \<notin> fst ` set xs" using chain_distinct [OF assms(1)] by auto
  then show ?thesis using assms
  proof (induction xs arbitrary: c)
    case Nil
    then have "u \<noteq> t" by auto
    then show ?case using Nil by simp
  next
    case (Cons x xs)
    then have "fst x \<noteq> u" "fst x \<noteq> t" by auto
    then show ?case using Cons by simp
  qed
qed

lemma chain_untouched:
  "chain V c xs \<Longrightarrow> links_closed V \<Longrightarrow> V u = None \<Longrightarrow> V t \<noteq> None \<Longrightarrow> c \<noteq> Some u \<Longrightarrow> t \<notin> fst ` set xs \<Longrightarrow> chain (V(u \<mapsto> new, t \<mapsto> old')) c xs"
proof (induction xs arbitrary: c)
  case Nil
  then show ?case by (auto split: option.splits)
next
  case (Cons x xs)
  have "tv_next_tid (snd x) \<noteq> Some u" using Cons.prems(1-3) unfolding links_closed_def chain.simps by blast
  moreover have "fst x \<noteq> u" "fst x \<noteq> t" using Cons.prems by auto
  ultimately show ?case using Cons by simp
qed

text \<open>Visibility of the versions an update leaves behind.\<close>

lemma unseen_hidden:
  "tv_xmin v = xid \<Longrightarrow> xid \<noteq> SYSTEM_XID \<Longrightarrow> \<not> sees s cur (status_get st) xid \<Longrightarrow> \<not> is_visible v s cur st"
  by (auto simp: is_visible_def sees_def creator_status_def)

lemma unseen_deleter:
  assumes "tv_xmax old = 0 \<or> status_get st (tv_xmax old) = StABORTED" and "cur \<noteq> 0" and "status_get st cur \<noteq> StABORTED"
    and "\<not> sees s cur (status_get st) xid"
  shows "is_visible (old\<lparr>tv_xmax := xid, tv_next_tid := n\<rparr>) s cur st = is_visible old s cur st"
  using assms by (auto simp: is_visible_def sees_def)

lemma aborted_hidden: "creator_status st (tv_xmin v) = StABORTED \<Longrightarrow> status_get st cur \<noteq> StABORTED \<Longrightarrow> \<not> is_visible v s cur st"
  by (auto simp: is_visible_def creator_status_def split: if_splits)

text \<open>What a snapshot reads through the chain before and after the update.\<close>

lemma update_unseen:
  assumes "tv_xmax old = 0 \<or> status_get st (tv_xmax old) = StABORTED" and "cur \<noteq> 0" and "status_get st cur \<noteq> StABORTED"
    and "\<not> sees s cur (status_get st) xid" and "xid \<noteq> SYSTEM_XID" and ys: "\<forall>y \<in> set ys. creator_status st (tv_xmin (snd y)) = StABORTED"
  defines "a \<equiv> \<lambda>v. is_visible v s cur st"
  shows "visible_values (last_accepted a (xs @ [(t, old\<lparr>tv_xmax := xid, tv_next_tid := Some u\<rparr>), (u, new_version xid vals)]))
    = visible_values (last_accepted a (xs @ (t, old) # ys))"
proof -
  have "a (old\<lparr>tv_xmax := xid, tv_next_tid := Some u\<rparr>) = a old" unfolding a_def by (rule unseen_deleter [OF assms(1-4)])
  moreover have "\<not> a (new_version xid vals)" unfolding a_def by (rule unseen_hidden [OF _ assms(5,4)]) (simp add: new_version_def)
  moreover have "last_accepted a ys = None" unfolding a_def using ys aborted_hidden [OF _ assms(3)] by (intro last_accepted_none) blast
  ultimately show ?thesis by (simp add: last_accepted_append last_accepted_Cons last_accepted_Nil visible_values_def split: option.splits)
qed

text \<open>
  Claim C25. A reader follows the version links of a row and gets the last version on its chain
  that its snapshot sees, or nothing when it sees none; links that run in a circle raise
  CorruptPage. Reading changes no version, and the walk always ends.
\<close>

theorem heap_resolve_visible_spec:
  assumes "heap_ok h"
  shows "\<exists>h'. heap_ok h' \<and> heap_view h' = heap_view h
    \<and> (\<forall>xs. chain (heap_view h) (Some t) xs \<longrightarrow>
         resolve_visible t s cur st h = (Inr (visible_values (last_accepted (\<lambda>v. is_visible v s cur st) xs)), h'))
    \<and> ((\<nexists>xs. chain (heap_view h) (Some t) xs) \<longrightarrow> resolve_visible t s cur st h = (Inl CorruptPage, h'))"
proof -
  obtain h' where h': "heap_same h h'"
    "\<And>xs. chain (heap_view h) (Some t) xs \<Longrightarrow>
      resolve_visible t s cur st h = (Inr (visible_values (last_accepted (\<lambda>v. is_visible v s cur st) xs)), h')"
    "\<nexists>xs. chain (heap_view h) (Some t) xs \<Longrightarrow> resolve_visible t s cur st h = (Inl CorruptPage, h')"
    by (rule resolve_visible_ok [OF assms, of t s cur st]) (rule that)
  show ?thesis using h'(2,3) heap_nextD(1) [OF h'(1)] heap_same_view [OF h'(1)] by blast
qed

lemma resolve_chain:
  assumes "heap_ok h" and "chain (heap_view h) (Some t) xs"
  shows "fst (resolve_visible t s cur st h) = Inr (visible_values (last_accepted (\<lambda>v. is_visible v s cur st) xs))"
  by (rule resolve_visible_ok [OF assms(1), of t s cur st]) (use assms(2) in simp)

text \<open>A heap with one row.\<close>

lemma one_row_heap:
  obtains h t where "heap_ok h" and "heap_view h = [t \<mapsto> new_version 7 [ScBool True]]" and "heap_room h" and "ht_codec h = flag_codec"
proof -
  obtain h0 where h0: "heap_ok h0" "heap_view h0 = Map.empty" "ht_pages h0 = 0" "ht_codec h0 = flag_codec" "log_end h0 = 0" by (rule fresh_heap)
  have "\<exists>t h'. insert_version 7 [ScBool True] None h0 = (Inr t, h') \<and> heap_view h0 t = None \<and> view_next h0 ((heap_view h0)(t \<mapsto> new_version 7 [ScBool True])) 1 10000 h'"
    unfolding new_version_def using h0 flag_row [of 7 True] by (intro insert_version_ok) (simp_all add: new_version_def)
  then obtain t h where v: "view_next h0 [t \<mapsto> new_version 7 [ScBool True]] 1 10000 h" using h0(2) by auto
  note n = view_nextD [OF v]
  show thesis by (rule that [OF n(1,2)]) (use n h0 in \<open>simp_all add: heap_room_def\<close>)
qed

lemma one_row_chain: "chain [t \<mapsto> new_version xid vals] (Some t) [(t, new_version xid vals)]"
  by (simp add: new_version_def)

theorem heap_resolve_visible_spec_witness:
  "\<exists>h t h'. heap_ok h \<and> resolve_visible t \<lparr>snap_xmax = 9, snap_active = {}\<rparr> 9 [(7, StCOMMITTED)] h = (Inr (Some (t, [ScBool True])), h')"
proof -
  obtain h t where h: "heap_ok h" "heap_view h = [t \<mapsto> new_version 7 [ScBool True]]" by (rule one_row_heap)
  let ?s = "\<lparr>snap_xmax = 9, snap_active = {}\<rparr>" and ?st = "[(7, StCOMMITTED)]"
  have c: "chain (heap_view h) (Some t) [(t, new_version 7 [ScBool True])]" unfolding h(2) by (rule one_row_chain)
  have "visible_values (last_accepted (\<lambda>v. is_visible v ?s 9 ?st) [(t, new_version 7 [ScBool True])]) = Some (t, [ScBool True])"
    by (simp add: last_accepted_single visible_values_def is_visible_def new_version_def creator_status_def status_get_def)
  with heap_resolve_visible_spec [OF h(1), of t ?s 9 ?st] c show ?thesis using h(1) by metis
qed

text \<open>
  Claim C4. An update of a row is isolated. After a transaction replaces the current version at the
  end of a row's chain, the transaction itself reads the new values; every reader whose snapshot
  does not see the transaction, whether it is still running, has aborted or committed later, reads
  for that row exactly what it read before, and so does every reader of any other row. Versions
  left behind the replaced one by aborted transactions are skipped.
\<close>

theorem heap_update_isolated:
  assumes "heap_ok h" and "heap_room h" and "links_closed (heap_view h)"
    and "chain (heap_view h) (Some root) (xs @ (t, old) # ys)" and "replaceable (Some old) statuses"
    and "\<forall>y \<in> set ys. creator_status statuses (tv_xmin (snd y)) = StABORTED" and "xid \<noteq> 0" and "xid \<noteq> SYSTEM_XID"
    and "tuple_encodable (ht_codec h) (new_version xid vals)" and "tuple_size (new_version xid vals) \<le> MAX_SLOT_PAYLOAD"
  shows "\<exists>u h'. replace_version t xid statuses vals h = (Inr (Some u), h') \<and> heap_ok h' \<and> links_closed (heap_view h')
    \<and> (\<forall>s st. fst (resolve_visible root s xid st h') = Inr (Some (u, vals)))
    \<and> (\<forall>s cur st. \<not> sees s cur (status_get st) xid \<and> cur \<noteq> 0 \<and> status_get st cur \<noteq> StABORTED
          \<and> (\<forall>x. status_get statuses x = StABORTED \<longrightarrow> status_get st x = StABORTED) \<longrightarrow>
          fst (resolve_visible root s cur st h') = fst (resolve_visible root s cur st h))
    \<and> (\<forall>r zs s cur st. r \<noteq> u \<and> chain (heap_view h) (Some r) zs \<and> t \<notin> fst ` set zs \<longrightarrow>
          fst (resolve_visible r s cur st h') = fst (resolve_visible r s cur st h))"
proof -
  let ?old = "\<lambda>u. old\<lparr>tv_xmax := xid, tv_next_tid := Some u\<rparr>" and ?new = "new_version xid vals"
  have t: "heap_view h t = Some old" using chain_suffix [OF assms(4)] by simp
  have "\<exists>u h'. replace_version t xid statuses vals h = (Inr (Some u), h') \<and> heap_view h u = None \<and> view_next h ((heap_view h)(u \<mapsto> ?new, t \<mapsto> ?old u)) 1 20000 h'"
    unfolding new_version_def using assms(2,9,10) by (intro replace_version_ok [OF assms(1) t assms(5)]) (simp_all add: heap_room_def new_version_def)
  then obtain u h' where u: "replace_version t xid statuses vals h = (Inr (Some u), h')" "heap_view h u = None"
    "view_next h ((heap_view h)(u \<mapsto> ?new, t \<mapsto> ?old u)) 1 20000 h'" by blast
  note n = view_nextD [OF u(3)]
  have c': "chain (heap_view h') (Some root) (xs @ [(t, ?old u), (u, ?new)])"
    unfolding n(2) by (rule chain_replaced [OF assms(4) u(2)]) (simp_all add: new_version_def)
  have "links_closed ((heap_view h)(u \<mapsto> ?new))" by (rule links_closed_put [OF assms(3)]) (simp add: new_version_def)
  then have closed: "links_closed (heap_view h')" unfolding n(2) by (rule links_closed_put) simp
  have own: "fst (resolve_visible root s xid st h') = Inr (Some (u, vals))" for s st
    using resolve_chain [OF n(1) c', of s xid st] assms(7)
    by (simp add: last_accepted_append last_accepted_Cons last_accepted_Nil visible_values_def is_visible_def new_version_def)
  have others: "fst (resolve_visible root s cur st h') = fst (resolve_visible root s cur st h)"
    if r: "\<not> sees s cur (status_get st) xid" "cur \<noteq> 0" "status_get st cur \<noteq> StABORTED"
      "\<forall>x. status_get statuses x = StABORTED \<longrightarrow> status_get st x = StABORTED" for s cur st
  proof -
    have "tv_xmax old = 0 \<or> status_get st (tv_xmax old) = StABORTED" using assms(5) r(4) by (auto simp: replaceable_def)
    moreover have "\<forall>y \<in> set ys. creator_status st (tv_xmin (snd y)) = StABORTED"
      using assms(6) r(4) by (auto simp: creator_status_def split: if_splits)
    ultimately show ?thesis
      unfolding resolve_chain [OF n(1) c'] resolve_chain [OF assms(1,4)] using update_unseen [OF _ r(2,3,1) assms(8)] by simp
  qed
  have rest: "fst (resolve_visible r s cur st h') = fst (resolve_visible r s cur st h)"
    if r: "r \<noteq> u" "chain (heap_view h) (Some r) zs" "t \<notin> fst ` set zs" for r zs s cur st
  proof -
    have "chain (heap_view h') (Some r) zs" unfolding n(2) using chain_untouched [OF r(2) assms(3) u(2)] t r by simp
    then show ?thesis using resolve_chain [OF n(1)] resolve_chain [OF assms(1) r(2)] by simp
  qed
  show ?thesis using u(1) n(1) closed own others rest by blast
qed

theorem heap_update_isolated_witness:
  "\<exists>h t u h'. heap_ok h \<and> replace_version t 8 [(7, StCOMMITTED)] [ScBool False] h = (Inr (Some u), h')
     \<and> fst (resolve_visible t \<lparr>snap_xmax = 9, snap_active = {}\<rparr> 8 [(7, StCOMMITTED)] h') = Inr (Some (u, [ScBool False]))"
proof -
  obtain h t where h: "heap_ok h" "heap_view h = [t \<mapsto> new_version 7 [ScBool True]]" "heap_room h" "ht_codec h = flag_codec" by (rule one_row_heap)
  have c: "chain (heap_view h) (Some t) ([] @ (t, new_version 7 [ScBool True]) # [])" unfolding h(2) using one_row_chain by simp
  have "links_closed (heap_view h)" unfolding h(2) by (auto simp: links_closed_def new_version_def)
  from heap_update_isolated [OF h(1,3) this c, of "[(7, StCOMMITTED)]" 8 "[ScBool False]"]
  obtain u h' where u: "replace_version t 8 [(7, StCOMMITTED)] [ScBool False] h = (Inr (Some u), h')"
    "\<forall>s st. fst (resolve_visible t s 8 st h') = Inr (Some (u, [ScBool False]))"
    using h(4) flag_row [of 8 False] by (auto simp: replaceable_def new_version_def [of 7] SYSTEM_XID_def)
  then show ?thesis using h(1) by blast
qed

end
