(* ===== verification/Spec2Isabelle.thy ===== *)
theory Spec2Isabelle
  imports Catalog_Model Txn_Manager Recovery Sql_Unparse Binder Key_Codec Coordinator Btree_Open Heap_Chains
begin

text \<open>
  \<^bold>\<open>MiniPostgres: a verification of the database kernel.\<close>

  The program (\<open>src/src/minipostgres\<close>) is a single-process relational database. A SQL text goes
  through the lexer, the parser and the binder (\<open>sql/\<close>), which resolves it against the catalog
  (\<open>catalog/\<close>); the planner chooses a physical plan and the executor (\<open>executor/\<close>) pulls rows from
  tables. Tables are heaps of slotted pages (\<open>storage/\<close>) with B+tree indexes (\<open>index/\<close>), reached
  through a buffer pool over page files. Transactions (\<open>transaction/\<close>) give every statement a
  snapshot, lock rows, and detect deadlocks; the log (\<open>wal/\<close>) makes commits durable and recovery
  replays it; maintenance (\<open>maintenance/\<close>) reclaims versions no snapshot can see.

  \<^bold>\<open>How the code is rendered.\<close> A function that may raise returns a \<open>result\<close> (\<open>Inl\<close> the exception,
  a \<open>pg_error\<close>); a method that changes its object is a state-passing function \<open>('s, 'a) sm\<close>,
  whose state after an exception is the state the code leaves behind (theory \<^verbatim>\<open>Prelude\<close>). Python
  integers are \<open>int\<close> or \<open>nat\<close>; byte strings are lists of 8-bit words; text is a list of code
  points; floats are their 64-bit patterns. A method that runs under a lock of the code is one
  atomic step; where the code waits on a condition, the steps before and after the wait are
  separate, and any interleaving of them is a run. A crash is not bound to these steps: commit,
  abort and the checkpoint are also given call by call (\<open>commit_calls\<close>, \<open>abort_calls\<close>,
  \<open>checkpoint_steps\<close>), and a crash can find the state before, between or after any two calls, with
  the last bytes written to the log torn off.

  \<^bold>\<open>Theories, sources and results.\<close>

  \<^item> \<^verbatim>\<open>Prelude\<close>: errors (\<open>errors.py\<close>), effects, byte strings, fixed-width fields, slices, dictionaries,
    the byte order; \<^verbatim>\<open>Float64\<close>: IEEE 754 doubles with correctly rounded arithmetic; \<^verbatim>\<open>Utf8\<close>: the strict
    UTF-8 codec, its round trip and order.
  \<^item> \<^verbatim>\<open>Values\<close> (\<open>types.py\<close>, \<open>row.py\<close>): SQL scalars and three-valued logic, shown to be Kleene's.
  \<^item> \<^verbatim>\<open>Catalog_Model\<close> (\<open>catalog/model.py\<close>): schemas and row validation, exact acceptance and document
    round trips; \<^verbatim>\<open>Catalog_Store\<close> (\<open>catalog/catalog.py\<close>): publication of tables and indexes, with the
    file that a reopened catalog reads shown equal to the one in memory after every history.
  \<^item> \<^verbatim>\<open>Page\<close>, \<^verbatim>\<open>Slotted\<close>, \<^verbatim>\<open>Tuple_Codec\<close> (\<open>storage/page.py\<close>, \<open>slotted.py\<close>, \<open>tuple.py\<close>): the byte
    formats with their round trips, and the slotted page as a refinement of a map from slot numbers
    (locale \<open>slot_store\<close>).
  \<^item> \<^verbatim>\<open>Disk\<close>, \<^verbatim>\<open>Replacer\<close>, \<^verbatim>\<open>Buffer\<close> (\<open>storage/disk.py\<close>, \<open>replacer.py\<close>, \<open>buffer.py\<close>): page files (locale
    \<open>page_disk\<close>), the clock sweep, and the buffer pool. The pool implements one logical page per key;
    eviction and write-back never change it, a fetch succeeds exactly when a frame can be had, and
    no page reaches the disk before the log that describes it.
  \<^item> \<^verbatim>\<open>Wal_Records\<close>, \<^verbatim>\<open>Wal_Manager\<close>, \<^verbatim>\<open>Recovery\<close> (\<open>wal/\<close>): the record codec, the log file under crashes
    (locale \<open>durable_log\<close>), REDO recovery and the sharp checkpoint. Recovery restores the newest
    logged image of every page and commits exactly the transactions with a commit record in the log;
    a crash at any point of a checkpoint finds the new control record only with its pages and its
    CHECKPOINT record durable.
  \<^item> \<^verbatim>\<open>Mvcc\<close>, \<^verbatim>\<open>Deadlock\<close>, \<^verbatim>\<open>Locks\<close>, \<^verbatim>\<open>Txn_Manager\<close> (\<open>transaction/\<close>, \<open>maintenance/horizon.py\<close>):
    snapshot visibility, the reclamation horizon, wait-for cycles, FIFO locks, and the transaction
    manager that composes them; its invariant is proved for every interleaving of steps, and what
    commit records survive a crash for every crash point: those of all writers marked committed,
    and none but those of transactions committed or being committed.
  \<^item> \<^verbatim>\<open>Sql_Lexer\<close>, \<^verbatim>\<open>Sql_Parser\<close>, \<^verbatim>\<open>Sql_Unparse\<close> (\<open>sql/tokens.py\<close>, \<open>lexer.py\<close>, \<open>ast.py\<close>, \<open>parser.py\<close>): every
    text is parsed or refused, tokens cover the text, and printing then parsing is the identity.
  \<^item> \<^verbatim>\<open>Sql_Bound\<close>, \<^verbatim>\<open>Expressions\<close>, \<^verbatim>\<open>Binder\<close> (\<open>sql/bound.py\<close>, \<open>executor/expressions.py\<close>, \<open>sql/binder.py\<close>): what
    the binder accepts is well typed, and what is well typed evaluates to a value of its type, or fails
    exactly when a divisor is zero or an integer result leaves 64 bits (\<open>fault\<close>).
  \<^item> \<^verbatim>\<open>Key_Codec\<close> (\<open>index/key.py\<close>): the order of encoded index keys is the order of the values.
  \<^item> \<^verbatim>\<open>Page_Access\<close>: the pattern \<open>with pool.fetch_page(...) as guard\<close> on a pool that is ready for it;
    \<^verbatim>\<open>Btree_Pages\<close> (\<open>index/pages.py\<close>): the page formats of the index; \<^verbatim>\<open>Btree\<close> (\<open>index/btree.py\<close>): opening,
    searching and inserting; \<^verbatim>\<open>Btree_Shape\<close>: the search tree that a set of pages represents;
    \<^verbatim>\<open>Btree_Search\<close>, \<^verbatim>\<open>Btree_Insert\<close>, \<^verbatim>\<open>Btree_Spec\<close>, \<^verbatim>\<open>Btree_Open\<close>: searching finds exactly the stored entries,
    insertion with its splits adds one, and so the tree implements a multimap (locale \<open>multimap\<close>).
  \<^item> \<^verbatim>\<open>Free_Space\<close>, \<^verbatim>\<open>Heap\<close> (\<open>storage/free_space.py\<close>, \<open>heap.py\<close>): every operation of the heap over the buffer pool
    and the log; \<^verbatim>\<open>Heap_Store\<close>: the heap as a map from row identifiers to versions; \<^verbatim>\<open>Heap_Ops\<close>: insertion,
    update, deletion and reclamation change exactly the versions they name; \<^verbatim>\<open>Heap_Chains\<close>: a snapshot
    reads the last version it sees on a row's chain, and updates are isolated from it.
  \<^item> \<^verbatim>\<open>Coordinator\<close> (\<open>maintenance/coordinator.py\<close>): maintenance excludes writers in every interleaving.

  \<^bold>\<open>Bounds and fuel.\<close> Loops that are not structural carry fuel computed from the state, and a
  theorem or lemma shows it is never used up: the parser uses the number of tokens, the deadlock
  search the number of nodes, the clock sweep twice the number of frames (as the code does), redo
  the page number, walks along the leaves of an index the number of its pages, and walks along
  version links the number of slots of the heap. The log addresses and page numbers of a heap operation
  must stay below 2^64, as the formats require. Insertion into an index is proved for keys of at most 275 bytes: thirty of them fit a page, so that a split by number of separators
  always fits; the code accepts longer keys, on which a split can fail. The interpreter's recursion limit is not modelled: a Python stack overflow on a
  deeply nested expression is outside the model.

  \<^bold>\<open>Parameters.\<close> Unicode tables (identifier characters, \<open>casefold\<close>) and \<open>float(text)\<close> are arguments of
  the lexer and the binder; every theorem holds for all of them, or names what it needs.

  \<^bold>\<open>Not modelled.\<close> Error messages; operating-system I/O failures, but for those of
  storing the catalog and control files; the JSON text of the catalog and
  control files (their documents are modelled); the text form of plans (EXPLAIN) and timing
  instrumentation; the planner and its statistics, whose choices affect cost; deletion from the B+tree
  and its range iterator; tables with indexes, the operators and the engine that dispatches statements;
  the benchmark and documentation tools beside the package.
\<close>

end
